(* ===== verification/Prelude.thy ===== *)
theory Prelude
  imports "HOL-Library.Word"
begin

text \<open>
  What every component of the model shares: the machine types of the server (\<open>UInt8\<close> to
  \<open>UInt64\<close> of \<open>Mona.h\<close> as words of their width), byte strings, and the generic facts on lists
  and words that the component proofs use through the collections below.

  \<^item> \<open>wire_simps\<close>: evaluation rules of the readers and writers on a known prefix.
  \<^item> \<open>step_defs\<close>: definitions of the step functions, unfolded together by the case proofs.
\<close>

named_theorems wire_simps
named_theorems step_defs

unbundle bit_operations_syntax

type_synonym u8 = "8 word"
type_synonym u16 = "16 word"
type_synonym u32 = "32 word"
type_synonym u64 = "64 word"
type_synonym bytes = "8 word list"

section \<open>Lists\<close>

text \<open>The last \<open>n\<close> elements: what stays in a receive buffer after a call that returns \<open>n\<close>.\<close>

definition last_n :: "nat \<Rightarrow> 'a list \<Rightarrow> 'a list" where
  "last_n n xs = drop (length xs - n) xs"

lemma last_n_0 [simp]: "last_n 0 xs = []"
  by (simp add: last_n_def)

lemma last_n_all: "length xs \<le> n \<Longrightarrow> last_n n xs = xs"
  by (simp add: last_n_def)

lemma last_n_length [simp]: "last_n (length xs) xs = xs"
  by (simp add: last_n_def)

lemma length_last_n [simp]: "length (last_n n xs) = min n (length xs)"
  by (simp add: last_n_def)

lemma last_n_append: "last_n (length ys) (xs @ ys) = ys"
  by (simp add: last_n_def)

lemma last_n_drop: "last_n (length xs - k) xs = drop k xs"
  by (cases "k \<le> length xs") (simp_all add: last_n_def)

lemma take_append_eq [simp]: "take (length xs) (xs @ ys) = xs"
  by simp

lemma drop_append_eq [simp]: "drop (length xs) (xs @ ys) = ys"
  by simp

lemma length_1_conv: "length xs = Suc 0 \<longleftrightarrow> (\<exists>x. xs = [x])"
  by (cases xs) auto

lemma length_ge_2_conv: "2 \<le> length xs \<longleftrightarrow> (\<exists>a b ys. xs = a # b # ys)"
  by (cases xs; cases "tl xs") auto

lemma take_drop_append [simp]: "k + n \<le> length b \<Longrightarrow> take n (drop k (b @ c)) = take n (drop k b)"
  by simp

section \<open>Words\<close>

lemma unat_u8_less [simp]: "unat (b :: u8) < 256"
  using unsigned_less [of b] by simp

lemma unat_u16_less [simp]: "unat (b :: u16) < 65536"
  using unsigned_less [of b] by simp

lemma unat_u32_less [simp]: "unat (b :: u32) < 4294967296"
  using unsigned_less [of b] by simp

lemma mask_FF: "(0xFF :: 'a::len word) = mask 8" by (simp add: mask_eq_exp_minus_1)
lemma mask_FF00: "(0xFF00 :: 'a::len word) = push_bit 8 (mask 8)" by (simp add: mask_eq_exp_minus_1 push_bit_eq_mult)
lemma mask_FF0000: "(0xFF0000 :: 'a::len word) = push_bit 16 (mask 8)" by (simp add: mask_eq_exp_minus_1 push_bit_eq_mult)
lemma mask_FF000000: "(0xFF000000 :: 'a::len word) = push_bit 24 (mask 8)" by (simp add: mask_eq_exp_minus_1 push_bit_eq_mult)
lemma mask_FFFFFFFF: "(0xFFFFFFFF :: 'a::len word) = mask 32" by (simp add: mask_eq_exp_minus_1)

lemmas masks = mask_FF mask_FF00 mask_FF0000 mask_FF000000 mask_FFFFFFFF

lemma bit_u8_ge [simp]: "8 \<le> n \<Longrightarrow> \<not> bit (b :: u8) n" using bit_imp_le_length[of b n] by auto


lemma unat_drop_bit: "unat (drop_bit n (w :: 'a::len word)) = unat w div 2 ^ n"
  by (simp add: unsigned_drop_bit_eq drop_bit_nat_def take_bit_nat_eq_self)

lemma bit_0x80 [simp]: "bit (0x80 :: u8) n \<longleftrightarrow> n = 7"
proof -
  have "(0x80 :: u8) = 2 ^ 7" by simp
  then show ?thesis by (auto simp only: bit_exp_iff) simp_all
qed

lemma bit_128_int [simp]: "bit (128 :: int) n \<longleftrightarrow> n = 7"
proof -
  have "(128 :: int) = 2 ^ 7" by simp
  then show ?thesis by (auto simp only: bit_exp_iff) simp_all
qed

lemma unat_of_nat_small: "n < 2 ^ LENGTH('a) \<Longrightarrow> unat (of_nat n :: 'a::len word) = n"
  by (simp add: unsigned_of_nat take_bit_nat_eq_self)

lemma ucast_of_nat_small:
  assumes "n < 2 ^ LENGTH('a)"
  shows "ucast (of_nat n :: 'a::len word) = (of_nat n :: 'b::len word)"
  using unat_of_nat_small[OF assms] by (metis of_nat_unat)

text \<open>Writing bytes over an area.\<close>

definition overwrite :: "nat \<Rightarrow> 'a list \<Rightarrow> 'a list \<Rightarrow> 'a list" where
  "overwrite pos new data = take pos data @ new @ drop (pos + length new) data"

lemma length_overwrite: "pos + length new \<le> length data \<Longrightarrow> length (overwrite pos new data) = length data"
  by (simp add: overwrite_def)

lemma nth_overwrite:
  "pos + length new \<le> length data \<Longrightarrow> i < length data \<Longrightarrow>
   overwrite pos new data ! i = (if i < pos then data ! i else if i < pos + length new then new ! (i - pos) else data ! i)"
  by (auto simp: overwrite_def nth_append)

end
