(* ===== verification/Bytes.thy ===== *)
theory Bytes
  imports Prelude
begin

text \<open>
  The byte level of \<open>MonaBase\<close>: \<open>Byte.h\<close> (order flips), \<open>BinaryReader\<close>, \<open>BinaryWriter\<close> and
  \<open>Binary::Get7BitSize\<close>.  A reader is a record of its area, its size, its cursor and its flip flag;
  a writer is the content of its buffer.  The build modelled is the little endian one
  (\<open>ORDER_NATIVE = ORDER_LITTLE_ENDIAN\<close>), so a value in memory is its little endian byte list.
  Sizes and positions are \<open>nat\<close>: an area is shorter than \<open>2 ^ 32\<close> bytes.
  The locale \<open>codec\<close> is the contract between a writer and the reader of the same field; each pair
  of the code interprets it, and its facts (chained fields, injectivity, prefix freedom) serve the
  protocol theories.
\<close>

section \<open>Byte order\<close>

datatype byte_order = ORDER_BIG_ENDIAN | ORDER_LITTLE_ENDIAN

definition Flip16 :: "u16 \<Rightarrow> u16" where
  "Flip16 value = (drop_bit 8 value AND 0x00FF) OR (push_bit 8 value AND 0xFF00)"

definition Flip24 :: "u32 \<Rightarrow> u32" where
  "Flip24 value = (drop_bit 16 value AND 0x000000FF) OR (value AND 0x0000FF00)
     OR (push_bit 16 value AND 0x00FF0000)"

definition Flip32 :: "u32 \<Rightarrow> u32" where
  "Flip32 value = (drop_bit 24 value AND 0x000000FF) OR (drop_bit 8 value AND 0x0000FF00)
     OR (push_bit 8 value AND 0x00FF0000) OR (push_bit 24 value AND 0xFF000000)"

definition Flip64 :: "u64 \<Rightarrow> u64" where
  "Flip64 value = (let hi = ucast (drop_bit 32 value) :: u32; lo = ucast (value AND 0xFFFFFFFF) :: u32
     in ucast (Flip32 hi) OR push_bit 32 (ucast (Flip32 lo)))"

text \<open>A value of \<open>n\<close> bytes in memory, least significant byte first.\<close>

fun to_le :: "nat \<Rightarrow> 'a::len word \<Rightarrow> bytes" where
  "to_le 0 v = []"
| "to_le (Suc n) v = ucast v # to_le n (drop_bit 8 v)"

fun from_le :: "bytes \<Rightarrow> 'a::len word" where
  "from_le [] = 0"
| "from_le (b # bs) = ucast b OR push_bit 8 (from_le bs)"

lemma length_to_le [simp]: "length (to_le n v) = n"
  by (induction n arbitrary: v) auto

section \<open>BinaryReader\<close>

record breader =
  rd_data :: bytes
  rd_size :: nat
  rd_cur :: nat
  rd_flip :: bool

definition mk_reader :: "bytes \<Rightarrow> nat \<Rightarrow> byte_order \<Rightarrow> breader" where
  "mk_reader data sz order =
     \<lparr>rd_data = data, rd_size = sz, rd_cur = 0, rd_flip = (order \<noteq> ORDER_LITTLE_ENDIAN)\<rparr>"

text \<open>The usual construction, \<open>BinaryReader reader(packet.data(), packet.size())\<close>.\<close>

definition net_reader :: "bytes \<Rightarrow> breader" where
  "net_reader data = mk_reader data (length data) ORDER_BIG_ENDIAN"

definition br_available :: "breader \<Rightarrow> nat" where
  "br_available r = rd_size r - rd_cur r"

definition br_position :: "breader \<Rightarrow> nat" where
  "br_position r = rd_cur r"

definition br_next :: "nat \<Rightarrow> breader \<Rightarrow> nat \<times> breader" where
  "br_next count r =
     (let count = (if count > br_available r then br_available r else count)
      in (count, r\<lparr>rd_cur := rd_cur r + count\<rparr>))"

definition br_reset :: "nat \<Rightarrow> breader \<Rightarrow> breader" where
  "br_reset position r = r\<lparr>rd_cur := (if position > rd_size r then rd_size r else position)\<rparr>"

definition br_shrink :: "nat \<Rightarrow> breader \<Rightarrow> nat \<times> breader" where
  "br_shrink available r =
     (let rest = br_available r
      in if available > rest then (rest, r)
         else (available, r\<lparr>rd_size := rd_cur r + available\<rparr>))"

text \<open>
  \<open>read(size, value)\<close>: the caller's buffer \<open>value\<close> is filled, or left as it was when fewer than
  \<open>size\<close> bytes remain; the cursor then goes to the end.
\<close>

definition br_read :: "nat \<Rightarrow> bytes \<Rightarrow> breader \<Rightarrow> bytes \<times> breader" where
  "br_read sz value r =
     (let available = br_available r
      in if sz > available then (value, r\<lparr>rd_cur := rd_cur r + available\<rparr>)
         else (take sz (drop (rd_cur r) (rd_data r)), r\<lparr>rd_cur := rd_cur r + sz\<rparr>))"

definition br_read8 :: "breader \<Rightarrow> u8 \<times> breader" where
  "br_read8 r = (if rd_cur r = rd_size r then (0, r)
                 else (rd_data r ! rd_cur r, r\<lparr>rd_cur := rd_cur r + 1\<rparr>))"

definition br_readBool :: "breader \<Rightarrow> bool \<times> breader" where
  "br_readBool r = (if rd_cur r = rd_size r then (False, r)
                    else (rd_data r ! rd_cur r \<noteq> 0, r\<lparr>rd_cur := rd_cur r + 1\<rparr>))"

definition br_read16 :: "breader \<Rightarrow> u16 \<times> breader" where
  "br_read16 r = (let (m, r') = br_read 2 (to_le 2 (0 :: u16)) r; value = from_le m
                  in (if rd_flip r then Flip16 value else value, r'))"

definition br_read24 :: "breader \<Rightarrow> u32 \<times> breader" where
  "br_read24 r = (let (m, r') = br_read 3 (to_le 3 (0 :: u32)) r; value = from_le m
                  in (if rd_flip r then Flip24 value else value, r'))"

definition br_read32 :: "breader \<Rightarrow> u32 \<times> breader" where
  "br_read32 r = (let (m, r') = br_read 4 (to_le 4 (0 :: u32)) r; value = from_le m
                  in (if rd_flip r then Flip32 value else value, r'))"

definition br_read64 :: "breader \<Rightarrow> u64 \<times> breader" where
  "br_read64 r = (let (m, r') = br_read 8 (to_le 8 (0 :: u64)) r; value = from_le m
                  in (if rd_flip r then Flip64 value else value, r'))"

text \<open>
  \<open>read7Bit(bytes)\<close>; the first argument counts the bytes still allowed after this one, so its
  zero is the branch \<open>!--bytes\<close> that takes all eight bits.
\<close>

fun rd7_loop :: "nat \<Rightarrow> 'a::len word \<Rightarrow> breader \<Rightarrow> 'a word \<times> breader" where
  "rd7_loop 0 result r = (let (b, r') = br_read8 r in (push_bit 8 result OR ucast b, r'))"
| "rd7_loop (Suc n) result r =
     (let (b, r') = br_read8 r; result = push_bit 7 result OR ucast (b AND 0x7F)
      in if b AND 0x80 \<noteq> 0 then rd7_loop n result r' else (result, r'))"

definition br_read7Bit :: "nat \<Rightarrow> breader \<Rightarrow> 'a::len word \<times> breader" where
  "br_read7Bit bytes r = rd7_loop ((bytes + 255) mod 256) 0 r"

definition br_readString :: "breader \<Rightarrow> bytes \<times> breader" where
  "br_readString r = (let (sz, r') = br_read7Bit 5 r :: u32 \<times> breader
                      in br_read (unat sz) (replicate (unat sz) 0) r')"

section \<open>BinaryWriter\<close>

text \<open>
  The writer owns the bytes of its buffer; \<open>wr_offset\<close> is the size the buffer had when the writer
  was built on it.  \<open>append\<close> on the null buffer is not modelled.
\<close>

record bwriter =
  wr_buf :: bytes
  wr_offset :: nat
  wr_flip :: bool

definition mk_writer :: "bytes \<Rightarrow> byte_order \<Rightarrow> bwriter" where
  "mk_writer buffer order =
     \<lparr>wr_buf = buffer, wr_offset = length buffer, wr_flip = (order \<noteq> ORDER_LITTLE_ENDIAN)\<rparr>"

definition bw_append :: "bytes \<Rightarrow> bwriter \<Rightarrow> bwriter" where
  "bw_append data w = w\<lparr>wr_buf := wr_buf w @ data\<rparr>"

definition bw_fill :: "nat \<Rightarrow> u8 \<Rightarrow> bwriter \<Rightarrow> bwriter" where
  "bw_fill count value w = w\<lparr>wr_buf := wr_buf w @ replicate count value\<rparr>"

definition bw_size :: "bwriter \<Rightarrow> nat" where
  "bw_size w = length (wr_buf w) - wr_offset w"

definition bw_data :: "bwriter \<Rightarrow> bytes" where
  "bw_data w = drop (wr_offset w) (wr_buf w)"

definition bw_write8 :: "u8 \<Rightarrow> bwriter \<Rightarrow> bwriter" where
  "bw_write8 value w = bw_append [value] w"

definition bw_writeBool :: "bool \<Rightarrow> bwriter \<Rightarrow> bwriter" where
  "bw_writeBool value w = bw_write8 (if value then 1 else 0) w"

definition bw_write16 :: "u16 \<Rightarrow> bwriter \<Rightarrow> bwriter" where
  "bw_write16 value w = bw_append (to_le 2 (if wr_flip w then Flip16 value else value)) w"

definition bw_write24 :: "u32 \<Rightarrow> bwriter \<Rightarrow> bwriter" where
  "bw_write24 value w = bw_append (to_le 3 (if wr_flip w then Flip24 value else value)) w"

definition bw_write32 :: "u32 \<Rightarrow> bwriter \<Rightarrow> bwriter" where
  "bw_write32 value w = bw_append (to_le 4 (if wr_flip w then Flip32 value else value)) w"

definition bw_write64 :: "u64 \<Rightarrow> bwriter \<Rightarrow> bwriter" where
  "bw_write64 value w = bw_append (to_le 8 (if wr_flip w then Flip64 value else value)) w"

text \<open>
  \<open>write7Bit\<close>.  \<open>w7_bits\<close> is the search of the first shift (\<open>while ((bits -= 7) && !(value >> bits))\<close>,
  entered with \<open>bits\<close> a positive multiple of seven), \<open>w7_loop\<close> the loop that writes the
  continuation bytes and the last one.
\<close>

fun w7_bits :: "nat \<Rightarrow> 'a::len word \<Rightarrow> nat" where
  "w7_bits bits value =
     (if bits \<le> 7 then 0
      else if drop_bit (bits - 7) value \<noteq> 0 then bits - 7
      else w7_bits (bits - 7) value)"

declare w7_bits.simps [simp del]

fun w7_loop :: "nat \<Rightarrow> 'a::len word \<Rightarrow> bytes" where
  "w7_loop bits value =
     (if bits > 1 then (0x80 OR ucast (drop_bit bits value)) # w7_loop (bits - 7) value
      else [ucast value AND (if bits \<noteq> 0 then 0xFF else 0x7F)])"

declare w7_loop.simps [simp del]

definition enc7Bit :: "nat \<Rightarrow> 'a::len word \<Rightarrow> bytes" where
  "enc7Bit bytes value =
     (let bits = (bytes - 1) * 7;
          front = (if bits > LENGTH('a) then 0 else drop_bit bits value)
      in if front \<noteq> 0
         then w7_loop (bits + 1) (if unat front > 0xFF then - 1 else value)
         else w7_loop (w7_bits bits value) value)"

definition bw_write7Bit :: "nat \<Rightarrow> 'a::len word \<Rightarrow> bwriter \<Rightarrow> bwriter" where
  "bw_write7Bit bytes value w = bw_append (enc7Bit bytes value) w"

definition bw_writeString :: "bytes \<Rightarrow> bwriter \<Rightarrow> bwriter" where
  "bw_writeString value w =
     bw_append value (bw_write7Bit 5 (of_nat (length value) :: u32) w)"

text \<open>\<open>Binary::Get7BitSize\<close>: \<open>while ((value >>= 7) && result++ < bytes)\<close>.\<close>

function size7_loop :: "nat \<Rightarrow> nat \<Rightarrow> 'a::len word \<Rightarrow> nat" where
  "size7_loop bytes result value =
     (let value = drop_bit 7 value
      in if value = 0 then result
         else if result < bytes then size7_loop bytes (result + 1) value
         else result + 1 - 1)"
  by pat_completeness auto
termination
  by (relation "measure (\<lambda>(bytes, result, value). bytes - result)") auto

declare size7_loop.simps [simp del]

definition Get7BitSize :: "nat \<Rightarrow> 'a::len word \<Rightarrow> nat" where
  "Get7BitSize bytes value = size7_loop bytes 1 value"

section \<open>Flips reverse the bytes in memory\<close>

lemma Flip16_from_le: "Flip16 (from_le [a, b]) = from_le [b, a]"
proof (rule bit_word_eqI)
  fix n :: nat
  assume "n < LENGTH(16)"
  then consider "n < 8" | "8 \<le> n" "n < 16" by fastforce
  then show "bit (Flip16 (from_le [a, b])) n = bit (from_le [b, a] :: u16) n"
    unfolding Flip16_def masks by cases (auto simp: bit_simps)
qed

lemma Flip24_from_le: "Flip24 (from_le [a, b, c]) = from_le [c, b, a]"
proof (rule bit_word_eqI)
  fix n :: nat
  consider "n < 8" | "8 \<le> n" "n < 16" | "16 \<le> n" "n < 24" | "24 \<le> n" by linarith
  then show "bit (Flip24 (from_le [a, b, c])) n = bit (from_le [c, b, a] :: u32) n"
    unfolding Flip24_def masks by cases (auto simp: bit_simps)
qed

lemma Flip32_from_le: "Flip32 (from_le [a, b, c, d]) = from_le [d, c, b, a]"
proof (rule bit_word_eqI)
  fix n :: nat
  assume "n < LENGTH(32)"
  then consider "n < 8" | "8 \<le> n" "n < 16" | "16 \<le> n" "n < 24" | "24 \<le> n" "n < 32" by fastforce
  then show "bit (Flip32 (from_le [a, b, c, d])) n = bit (from_le [d, c, b, a] :: u32) n"
    unfolding Flip32_def masks by cases (auto simp: bit_simps)
qed

lemma bit_from_le: "bit (from_le bs :: 'a::len word) n \<longleftrightarrow>
    n < LENGTH('a) \<and> n div 8 < length bs \<and> bit (bs ! (n div 8)) (n mod 8)"
proof (induction bs arbitrary: n)
  case (Cons b bs)
  show ?case
  proof (cases "n < 8")
    case True
    then show ?thesis by (auto simp: bit_simps)
  next
    case False
    then obtain k where k: "n = k + 8" by (metis add.commute le_add_diff_inverse not_less)
    moreover have "(k + 8) div 8 = Suc (k div 8)" "(k + 8) mod 8 = k mod 8" by presburger+
    ultimately show ?thesis using Cons.IH[of k] by (auto simp: bit_simps)
  qed
qed simp

lemma nth_to_le: "i < n \<Longrightarrow> to_le n v ! i = ucast (drop_bit (8 * i) v)"
proof (induction n arbitrary: v i)
  case (Suc n)
  then show ?case by (cases i) (auto simp: drop_bit_drop_bit add.commute)
qed simp

lemma from_le_to_le: "from_le (to_le n v) = (take_bit (8 * n) v :: 'a::len word)"
proof (rule bit_word_eqI)
  fix k :: nat
  have "k div 8 < n \<longleftrightarrow> k < 8 * n" by auto
  moreover have "8 * (k div 8) + k mod 8 = k" by simp
  ultimately show "bit (from_le (to_le n v) :: 'a word) k = bit (take_bit (8 * n) v) k"
    by (auto simp: bit_from_le nth_to_le bit_simps dest: bit_imp_le_length)
qed

lemma to_le_from_le: "8 * length bs \<le> LENGTH('a::len) \<Longrightarrow> to_le (length bs) (from_le bs :: 'a word) = bs"
proof (rule nth_equalityI)
  fix i assume len: "8 * length bs \<le> LENGTH('a)" and "i < length (to_le (length bs) (from_le bs :: 'a word))"
  then have i: "i < length bs" by simp
  show "to_le (length bs) (from_le bs :: 'a word) ! i = bs ! i"
  proof (rule bit_word_eqI)
    fix k :: nat assume "k < LENGTH(8)"
    then have k: "k < 8" by simp
    have "8 * i + k < LENGTH('a)" using i k len by linarith
    moreover have "(8 * i + k) div 8 = i" "(8 * i + k) mod 8 = k" using k by simp_all
    ultimately show "bit (to_le (length bs) (from_le bs :: 'a word) ! i) k = bit (bs ! i) k"
      using i k by (simp add: nth_to_le bit_simps bit_from_le)
  qed
qed simp
lemma Flip64_from_le: "Flip64 (from_le [a, b, c, d, e, f, g, h]) = from_le [h, g, f, e, d, c, b, a]"
proof -
  have hi: "(ucast (drop_bit 32 (from_le [a, b, c, d, e, f, g, h] :: u64)) :: u32) = from_le [e, f, g, h]"
  proof (rule bit_word_eqI)
   fix n :: nat assume "n < LENGTH(32)"
   moreover from this have "n div 8 < 4" by simp
   moreover have "(32 + n) div 8 = 4 + n div 8" "(32 + n) mod 8 = n mod 8" by presburger+
   ultimately show "bit (ucast (drop_bit 32 (from_le [a, b, c, d, e, f, g, h] :: u64)) :: u32) n = bit (from_le [e, f, g, h] :: u32) n"
     by (simp add: bit_simps bit_from_le del: from_le.simps) 
  qed
  have lo: "(ucast ((from_le [a, b, c, d, e, f, g, h] :: u64) AND 0xFFFFFFFF) :: u32) = from_le [a, b, c, d]"
  proof (rule bit_word_eqI)
   fix n :: nat assume n: "n < LENGTH(32)"
   then have "n div 8 < 4" by simp
   then consider "n div 8 = 0" | "n div 8 = 1" | "n div 8 = 2" | "n div 8 = 3" by linarith
   then show "bit (ucast ((from_le [a, b, c, d, e, f, g, h] :: u64) AND 0xFFFFFFFF) :: u32) n = bit (from_le [a,b,c,d] :: u32) n"
     using n by cases (simp_all add: masks bit_simps bit_from_le del: from_le.simps) 
  qed
  show ?thesis
  unfolding Flip64_def Let_def hi lo Flip32_from_le
  proof (rule bit_word_eqI)
   fix n :: nat assume n: "n < LENGTH(64)"
   show "bit (ucast (from_le [h, g, f, e] :: u32) OR push_bit 32 (ucast (from_le [d, c, b, a] :: u32)) :: u64) n = bit (from_le [h, g, f, e, d, c, b, a] :: u64) n"
   proof (cases "n < 32")
     case True
     then have "n div 8 < 4" by simp
     then consider "n div 8 = 0" | "n div 8 = 1" | "n div 8 = 2" | "n div 8 = 3" by linarith
     then show ?thesis
     using n True by cases (simp_all add: bit_simps bit_from_le del: from_le.simps) 
   next
    case False
    then obtain k where "n = k + 32" by (metis add.commute le_add_diff_inverse not_less)
    moreover have "(k + 32) div 8 = k div 8 + 4" "(k + 32) mod 8 = k mod 8" by presburger+
    ultimately show ?thesis
     using n by (auto simp: bit_simps bit_from_le simp del: from_le.simps) 
   qed
  qed
qed


lemma to_le_Flip16: "to_le 2 (Flip16 v) = rev (to_le 2 v)"
proof -
  obtain a b where ab: "to_le 2 v = [a, b]" by (simp add: numeral_2_eq_2)
  then have "v = from_le [a, b]" using from_le_to_le[of 2 v] by (simp add: take_bit_word_eq_self)
  then show ?thesis using to_le_from_le[of "[b, a]", where 'a = 16] ab
    by (simp add: Flip16_from_le numeral_2_eq_2 del: from_le.simps)
qed

lemma to_le_Flip24: "to_le 3 (Flip24 v) = rev (to_le 3 v)"
proof -
  obtain a b c where ab: "to_le 3 v = [a, b, c]" by (simp add: numeral_3_eq_3)
  have "Flip24 v = Flip24 (from_le (to_le 3 v))"
    unfolding from_le_to_le Flip24_def masks
    by (rule bit_word_eqI) (auto simp: bit_simps)
  then show ?thesis using to_le_from_le[of "[c, b, a]", where 'a = 32] ab
    by (simp add: Flip24_from_le numeral_3_eq_3 del: from_le.simps)
qed

lemma to_le_Flip32: "to_le 4 (Flip32 v) = rev (to_le 4 v)"
proof -
  obtain a b c d where ab: "to_le 4 v = [a, b, c, d]" by (simp add: numeral_eq_Suc)
  then have "v = from_le [a, b, c, d]" using from_le_to_le[of 4 v] by (simp add: take_bit_word_eq_self)
  then show ?thesis using to_le_from_le[of "[d, c, b, a]", where 'a = 32] ab
    by (simp add: Flip32_from_le numeral_eq_Suc del: from_le.simps)
qed

lemma to_le_Flip64: "to_le 8 (Flip64 v) = rev (to_le 8 v)"
proof -
  obtain a b c d e f g h where ab: "to_le 8 v = [a, b, c, d, e, f, g, h]" by (simp add: numeral_eq_Suc)
  then have "v = from_le [a, b, c, d, e, f, g, h]" using from_le_to_le[of 8 v] by (simp add: take_bit_word_eq_self)
  then show ?thesis using to_le_from_le[of "[h, g, f, e, d, c, b, a]", where 'a = 64] ab
    by (simp add: Flip64_from_le numeral_eq_Suc del: from_le.simps)
qed


section \<open>Network order\<close>

text \<open>The value of big endian bytes, and the \<open>n\<close> big endian bytes of a value.\<close>

definition be :: "bytes \<Rightarrow> 'a::len word" where
  "be bs = from_le (rev bs)"

definition be_bytes :: "nat \<Rightarrow> 'a::len word \<Rightarrow> bytes" where
  "be_bytes n v = rev (to_le n v)"

lemma length_be_bytes [simp]: "length (be_bytes n v) = n"
  by (simp add: be_bytes_def)

lemma be_be_bytes: "be (be_bytes n v) = (take_bit (8 * n) v :: 'a::len word)"
  by (simp add: be_def be_bytes_def from_le_to_le)

lemma be_bytes_be: "8 * length bs \<le> LENGTH('a::len) \<Longrightarrow> be_bytes (length bs) (be bs :: 'a word) = bs"
  using to_le_from_le[of "rev bs", where 'a = 'a] by (simp add: be_def be_bytes_def)

text \<open>What remains to read, and the reader after \<open>n\<close> more bytes.\<close>

definition br_rest :: "breader \<Rightarrow> bytes" where
  "br_rest r = drop (rd_cur r) (take (rd_size r) (rd_data r))"

definition br_wf :: "breader \<Rightarrow> bool" where
  "br_wf r \<longleftrightarrow> rd_cur r \<le> rd_size r \<and> rd_size r \<le> length (rd_data r)"

definition br_adv :: "nat \<Rightarrow> breader \<Rightarrow> breader" where
  "br_adv n r = r\<lparr>rd_cur := rd_cur r + n\<rparr>"

abbreviation br_net :: "breader \<Rightarrow> bool" where
  "br_net r \<equiv> br_wf r \<and> rd_flip r"

lemma br_rest_net_reader [simp]: "br_rest (net_reader bs) = bs"
  by (simp add: br_rest_def net_reader_def mk_reader_def)

lemma br_net_net_reader [simp]: "br_net (net_reader bs)"
  by (simp add: br_wf_def net_reader_def mk_reader_def)

lemma length_br_rest: "br_wf r \<Longrightarrow> length (br_rest r) = br_available r"
  by (simp add: br_rest_def br_wf_def br_available_def)

lemma br_rest_adv [simp]: "br_rest (br_adv n r) = drop n (br_rest r)"
  by (simp add: br_rest_def br_adv_def add.commute)

lemma br_adv_adv [simp]: "br_adv m (br_adv n r) = br_adv (n + m) r"
  by (simp add: br_adv_def add.assoc)

lemma br_adv_0 [simp]: "br_adv 0 r = r"
  by (simp add: br_adv_def)

lemma br_adv_flip [simp]: "rd_flip (br_adv n r) = rd_flip r"
  by (simp add: br_adv_def)

lemma br_wf_adv: "br_wf r \<Longrightarrow> n \<le> length (br_rest r) \<Longrightarrow> br_wf (br_adv n r)"
  by (auto simp: length_br_rest) (auto simp: br_wf_def br_adv_def br_available_def)

lemma br_position_adv: "br_position (br_adv n r) = br_position r + n"
  by (simp add: br_position_def br_adv_def)

lemma br_position_net_reader [simp]: "br_position (net_reader bs) = 0"
  by (simp add: br_position_def net_reader_def mk_reader_def)

lemma br_read_rest:
  assumes "br_wf r"
  shows "br_read n d r = (if n \<le> length (br_rest r) then (take n (br_rest r), br_adv n r)
                          else (d, br_adv (length (br_rest r)) r))"
  using assms
  by (auto simp: br_read_def length_br_rest[symmetric] Let_def br_adv_def br_rest_def br_wf_def
      take_drop min_def not_less)

lemma br_read8_rest:
  assumes "br_wf r"
  shows "br_read8 r = (case br_rest r of [] \<Rightarrow> (0, r) | b # _ \<Rightarrow> (b, br_adv 1 r))"
proof (cases "rd_cur r = rd_size r")
  case True
  then show ?thesis by (simp add: br_read8_def br_rest_def)
next
  case False
  with assms have "rd_cur r < length (take (rd_size r) (rd_data r))" by (auto simp: br_wf_def)
  then have "br_rest r = rd_data r ! rd_cur r # drop (Suc (rd_cur r)) (take (rd_size r) (rd_data r))"
    using assms by (simp add: br_rest_def Cons_nth_drop_Suc[symmetric] br_wf_def)
  then show ?thesis using False by (simp add: br_read8_def br_adv_def)
qed

lemma Flip_from_le_be:
  shows "length m = 2 \<Longrightarrow> Flip16 (from_le m) = be m"
    and "length m = 3 \<Longrightarrow> Flip24 (from_le m) = be m"
    and "length m = 4 \<Longrightarrow> Flip32 (from_le m) = be m"
    and "length m = 8 \<Longrightarrow> Flip64 (from_le m) = be m"
  by (auto simp: be_def length_Suc_conv numeral_eq_Suc Flip16_from_le Flip24_from_le Flip32_from_le
      Flip64_from_le simp del: from_le.simps)

lemma Flip_default:
  "Flip16 (from_le (to_le 2 (0 :: u16))) = 0" "Flip24 (from_le (to_le 3 (0 :: u32))) = 0"
  "Flip32 (from_le (to_le 4 (0 :: u32))) = 0" "Flip64 (from_le (to_le 8 (0 :: u64))) = 0"
  by (simp_all add: from_le_to_le Flip16_def Flip24_def Flip32_def Flip64_def)

lemma br_read_net:
  assumes "br_net r"
  shows br_read16_net: "br_read16 r = (if 2 \<le> length (br_rest r) then (be (take 2 (br_rest r)), br_adv 2 r)
                                       else (0, br_adv (length (br_rest r)) r))"
    and br_read24_net: "br_read24 r = (if 3 \<le> length (br_rest r) then (be (take 3 (br_rest r)), br_adv 3 r)
                                       else (0, br_adv (length (br_rest r)) r))"
    and br_read32_net: "br_read32 r = (if 4 \<le> length (br_rest r) then (be (take 4 (br_rest r)), br_adv 4 r)
                                       else (0, br_adv (length (br_rest r)) r))"
    and br_read64_net: "br_read64 r = (if 8 \<le> length (br_rest r) then (be (take 8 (br_rest r)), br_adv 8 r)
                                       else (0, br_adv (length (br_rest r)) r))"
  using assms
  by (simp_all add: br_read16_def br_read24_def br_read32_def br_read64_def br_read_rest
      Flip_from_le_be Flip_default del: from_le.simps)

text \<open>Reading a known prefix, the form the protocol proofs use.\<close>

lemma br_read8_Cons [wire_simps]: "br_wf r \<Longrightarrow> br_rest r = b # xs \<Longrightarrow> br_read8 r = (b, br_adv 1 r)"
  by (simp add: br_read8_rest)

lemma br_read8_Nil [wire_simps]: "br_wf r \<Longrightarrow> br_rest r = [] \<Longrightarrow> br_read8 r = (0, r)"
  by (simp add: br_read8_rest)

lemma br_read16_Cons [wire_simps]:
  "br_net r \<Longrightarrow> br_rest r = a # b # xs \<Longrightarrow> br_read16 r = (be [a, b], br_adv 2 r)"
  by (simp add: br_read16_net)

lemma br_read24_Cons [wire_simps]:
  "br_net r \<Longrightarrow> br_rest r = a # b # c # xs \<Longrightarrow> br_read24 r = (be [a, b, c], br_adv 3 r)"
  by (simp add: br_read24_net)

lemma br_read32_Cons [wire_simps]:
  "br_net r \<Longrightarrow> br_rest r = a # b # c # d # xs \<Longrightarrow> br_read32 r = (be [a, b, c, d], br_adv 4 r)"
  by (simp add: br_read32_net)

text \<open>
  The same, for a reader over a packet at a known position: the form the frame decoders use, because
  it does not change when more bytes follow.
\<close>

lemma length_net_reader_rest [simp]: "length (br_rest (br_adv k (net_reader b))) = length b - k"
  by simp

lemma br_available_pos [simp]: "br_available (br_adv k (net_reader b)) = length b - k"
  by (simp add: br_available_def br_adv_def net_reader_def mk_reader_def)

lemma br_available_net [simp]: "br_available (net_reader b) = length b"
  by (simp add: br_available_def net_reader_def mk_reader_def)

lemma br_position_pos [simp]: "br_position (br_adv k (net_reader b)) = k"
  by (simp add: br_position_def br_adv_def net_reader_def mk_reader_def)

lemma br_wf_pos [simp]: "br_wf (br_adv k (net_reader b)) \<longleftrightarrow> k \<le> length b"
  by (simp add: br_wf_def br_adv_def net_reader_def mk_reader_def)

lemma br_flip_net [simp]: "rd_flip (net_reader b)"
  by (simp add: net_reader_def mk_reader_def)

lemma br_read8_pos: "br_read8 (br_adv k (net_reader b)) =
    (if k = length b then (0, br_adv k (net_reader b)) else (b ! k, br_adv (Suc k) (net_reader b)))"
  by (simp add: br_read8_def br_adv_def net_reader_def mk_reader_def)

lemma br_read_pos: "k \<le> length b \<Longrightarrow> br_read n d (br_adv k (net_reader b)) =
    (if k + n \<le> length b then (take n (drop k b), br_adv (k + n) (net_reader b))
     else (d, br_adv (length b) (net_reader b)))"
  by (auto simp: br_read_rest)

lemma br_reads_pos:
  assumes "k \<le> length b"
  shows "br_read16 (br_adv k (net_reader b)) =
      (if k + 2 \<le> length b then (be (take 2 (drop k b)), br_adv (k + 2) (net_reader b))
       else (0, br_adv (length b) (net_reader b)))"
    and "br_read24 (br_adv k (net_reader b)) =
      (if k + 3 \<le> length b then (be (take 3 (drop k b)), br_adv (k + 3) (net_reader b))
       else (0, br_adv (length b) (net_reader b)))"
    and "br_read32 (br_adv k (net_reader b)) =
      (if k + 4 \<le> length b then (be (take 4 (drop k b)), br_adv (k + 4) (net_reader b))
       else (0, br_adv (length b) (net_reader b)))"
    and "br_read64 (br_adv k (net_reader b)) =
      (if k + 8 \<le> length b then (be (take 8 (drop k b)), br_adv (k + 8) (net_reader b))
       else (0, br_adv (length b) (net_reader b)))"
  using assms by (auto simp: br_read16_net br_read24_net br_read32_net br_read64_net)

lemma br_next_pos: "k \<le> length b \<Longrightarrow> br_next n (br_adv k (net_reader b)) =
    (if k + n \<le> length b then (n, br_adv (k + n) (net_reader b))
     else (length b - k, br_adv (length b) (net_reader b)))"
  by (auto simp: br_next_def br_adv_def net_reader_def mk_reader_def br_available_def)

lemma br_shrink_pos: "br_shrink n (br_adv k (net_reader b)) =
    (if n > length b - k then (length b - k, br_adv k (net_reader b))
     else (n, (br_adv k (net_reader b))\<lparr>rd_size := k + n\<rparr>))"
  by (auto simp: br_shrink_def br_adv_def net_reader_def mk_reader_def br_available_def)

lemmas net_pos = br_read8_pos br_reads_pos br_next_pos br_shrink_pos br_read_pos
  br_read8_pos[of 0, simplified] br_reads_pos[of 0, simplified] br_next_pos[of 0, simplified]
  br_shrink_pos[of 0, simplified] br_read_pos[of 0, simplified]

section \<open>What a network writer appends\<close>

definition net_writer :: bwriter where
  "net_writer = mk_writer [] ORDER_BIG_ENDIAN"

lemma net_writer_flip [simp]: "wr_flip net_writer" "wr_buf net_writer = []" "wr_offset net_writer = 0"
  by (simp_all add: net_writer_def mk_writer_def)

lemma bw_append_simps [simp]:
  "wr_buf (bw_append data w) = wr_buf w @ data" "wr_flip (bw_append data w) = wr_flip w"
  "wr_offset (bw_append data w) = wr_offset w"
  by (simp_all add: bw_append_def)

lemma bw_append_append: "bw_append ys (bw_append xs w) = bw_append (xs @ ys) w"
  by (simp add: bw_append_def)

lemma bw_write_net:
  assumes "wr_flip w"
  shows "bw_write16 u w = bw_append (be_bytes 2 u) w"
    and "bw_write24 v w = bw_append (be_bytes 3 v) w"
    and "bw_write32 v w = bw_append (be_bytes 4 v) w"
    and "bw_write64 x w = bw_append (be_bytes 8 x) w"
  using assms
  by (simp_all add: bw_write16_def bw_write24_def bw_write32_def bw_write64_def be_bytes_def
      to_le_Flip16 to_le_Flip24 to_le_Flip32 to_le_Flip64)

text \<open>
  The bytes one call appends to a network writer; the components write their messages as
  concatenations of these, in the order of the calls of the code.
\<close>

definition net16 :: "u16 \<Rightarrow> bytes" where "net16 v = wr_buf (bw_write16 v net_writer)"
definition net24 :: "u32 \<Rightarrow> bytes" where "net24 v = wr_buf (bw_write24 v net_writer)"
definition net32 :: "u32 \<Rightarrow> bytes" where "net32 v = wr_buf (bw_write32 v net_writer)"
definition net64 :: "u64 \<Rightarrow> bytes" where "net64 v = wr_buf (bw_write64 v net_writer)"

lemma net_be: "net16 u = be_bytes 2 u" "net24 v = be_bytes 3 v" "net32 v = be_bytes 4 v"
    "net64 x = be_bytes 8 x"
  by (simp_all add: net16_def net24_def net32_def net64_def bw_write_net)

lemma length_net [simp]: "length (net16 u) = 2" "length (net24 v) = 3" "length (net32 v) = 4"
    "length (net64 x) = 8"
  by (simp_all add: net_be)

lemma bw_write_nets:
  assumes "wr_flip w"
  shows "bw_write16 u w = bw_append (net16 u) w" "bw_write24 v w = bw_append (net24 v) w"
    "bw_write32 v w = bw_append (net32 v) w" "bw_write64 x w = bw_append (net64 x) w"
  using assms by (simp_all add: bw_write_net net_be)

section \<open>The contract of a field\<close>

text \<open>
  A writer \<open>enc\<close> and a reader \<open>dec\<close> of one field: reading back what was written gives the value
  and leaves the reader right behind it, whatever follows.
\<close>

locale codec =
  fixes enc :: "'v \<Rightarrow> bytes"
    and dec :: "breader \<Rightarrow> 'v \<times> breader"
    and ok :: "'v \<Rightarrow> bool"
  assumes dec_enc: "ok v \<Longrightarrow> br_net r \<Longrightarrow> br_rest r = enc v @ xs \<Longrightarrow>
                    dec r = (v, br_adv (length (enc v)) r)"
begin

lemma dec_net_reader: "ok v \<Longrightarrow> dec (net_reader (enc v @ xs)) = (v, br_adv (length (enc v)) (net_reader (enc v @ xs)))"
  by (rule dec_enc) auto

lemma prefix_free:
  assumes "ok v" "ok w" "enc v @ xs = enc w @ ys"
  shows "v = w \<and> xs = ys"
  using dec_net_reader[OF assms(1), of xs] dec_net_reader[OF assms(2), of ys] assms(3)
  by auto

lemma enc_inj: "ok v \<Longrightarrow> ok w \<Longrightarrow> enc v = enc w \<Longrightarrow> v = w"
  using prefix_free[of v w "[]" "[]"] by simp

text \<open>Fields in sequence.\<close>

fun dec_many :: "nat \<Rightarrow> breader \<Rightarrow> 'v list \<times> breader" where
  "dec_many 0 r = ([], r)"
| "dec_many (Suc n) r = (let (v, r) = dec r; (vs, r) = dec_many n r in (v # vs, r))"

lemma dec_many_enc:
  "list_all ok vs \<Longrightarrow> br_net r \<Longrightarrow> br_rest r = concat (map enc vs) @ xs \<Longrightarrow>
   dec_many (length vs) r = (vs, br_adv (length (concat (map enc vs))) r)"
proof (induction vs arbitrary: r)
  case (Cons v vs)
  have d: "dec r = (v, br_adv (length (enc v)) r)"
    using Cons.prems dec_enc[of v r "concat (map enc vs) @ xs"] by simp
  have "dec_many (length vs) (br_adv (length (enc v)) r)
        = (vs, br_adv (length (concat (map enc vs))) (br_adv (length (enc v)) r))"
    using Cons.prems by (intro Cons.IH) (auto intro!: br_wf_adv)
  with d show ?case by simp
qed simp

end

text \<open>A field of a fixed number of bytes.\<close>

locale fixed_codec = codec +
  fixes width :: nat
  assumes length_enc: "length (enc v) = width"
begin

lemma length_concat_enc: "length (concat (map enc vs)) = width * length vs"
  by (induction vs) (simp_all add: length_enc)

lemma dec_leaves: "ok v \<Longrightarrow> br_net r \<Longrightarrow> br_rest r = enc v @ xs \<Longrightarrow> br_rest (snd (dec r)) = xs"
  using dec_enc[of v r xs] by simp

end

lemma take_bit_id_less: "unat (v :: 'a::len word) < 2 ^ n \<Longrightarrow> take_bit n v = v"
  by (metis unsigned_take_bit_eq take_bit_nat_eq_self unsigned_word_eqI)

interpretation c8: fixed_codec "\<lambda>v. [v]" br_read8 "\<lambda>_. True" 1
  by unfold_locales (auto simp: br_read8_rest)

interpretation c16: fixed_codec net16 br_read16 "\<lambda>_. True" 2
  by unfold_locales (auto simp: br_read16_net net_be be_be_bytes take_bit_word_eq_self)

interpretation c24: fixed_codec net24 br_read24 "\<lambda>v. unat v < 2 ^ 24" 3
  by unfold_locales (auto simp: br_read24_net net_be be_be_bytes take_bit_id_less)

interpretation c32: fixed_codec net32 br_read32 "\<lambda>_. True" 4
  by unfold_locales (auto simp: br_read32_net net_be be_be_bytes take_bit_word_eq_self)

interpretation c64: fixed_codec net64 br_read64 "\<lambda>_. True" 8
  by unfold_locales (auto simp: br_read64_net net_be be_be_bytes take_bit_word_eq_self)

section \<open>The variable length integers\<close>

lemma w7_bits_props:
  fixes v :: "'a::len word"
  assumes "bits = 7 * Suc k" "drop_bit bits v = 0"
  shows "\<exists>j \<le> k. w7_bits bits v = 7 * j \<and> drop_bit (7 * j + 7) v = 0"
  using assms
proof (induction k arbitrary: bits)
  case 0
  then show ?case by (simp add: w7_bits.simps)
next
  case (Suc k)
  show ?case
  proof (cases "drop_bit (bits - 7) v = 0")
    case True
    then have "w7_bits bits v = w7_bits (bits - 7) v" using Suc.prems by (subst w7_bits.simps) simp
    then show ?thesis using Suc.IH[of "bits - 7"] Suc.prems True by fastforce
  next
    case False
    then have "w7_bits bits v = 7 * Suc k" using Suc.prems by (subst w7_bits.simps) simp
    then show ?thesis using Suc.prems by (intro exI[of _ "Suc k"]) (simp add: add.commute)
  qed
qed

lemma cont_step:
  "push_bit 7 (drop_bit (b + 7) (v :: 'a::len word)) OR ucast ((0x80 OR ucast (drop_bit b v) :: u8) AND 0x7F) = drop_bit b v"
proof (rule bit_word_eqI)
  fix n assume n: "n < LENGTH('a)"
  have m: "(0x7F :: u8) = mask 7" by (simp_all add: mask_eq_exp_minus_1)
  show "bit (push_bit 7 (drop_bit (b + 7) v) OR ucast ((0x80 OR ucast (drop_bit b v) :: u8) AND 0x7F)) n = bit (drop_bit b v) n"
  proof (cases "n < 7")
    case True
    then show ?thesis using n unfolding m by (auto simp: bit_simps)
  next
    case False
    then obtain k where "n = k + 7" by (metis add.commute le_add_diff_inverse not_less)
    then show ?thesis using n unfolding m by (auto simp: bit_simps add_ac dest: bit_imp_le_length)
  qed
qed

lemma last7: "push_bit 7 (drop_bit 7 (v :: 'a::len word)) OR ucast (ucast v AND 0x7F :: u8) = v"
proof -
  have m: "(0x7F :: u8) = mask 7" by (simp add: mask_eq_exp_minus_1)
  have "((0x80 OR ucast v :: u8) AND 0x7F) = (ucast v AND 0x7F :: u8)"
    unfolding m by (rule bit_word_eqI) (auto simp: bit_simps)
  with cont_step[of 0 v] show ?thesis by simp
qed

lemma last8: "push_bit 8 (drop_bit 8 (v :: 'a::len word)) OR ucast (ucast v AND 0xFF :: u8) = v"
proof (rule bit_word_eqI)
  fix n assume n: "n < LENGTH('a)"
  show "bit (push_bit 8 (drop_bit 8 v) OR ucast (ucast v AND 0xFF :: u8)) n = bit v n"
  proof (cases "n < 8")
    case True
    then show ?thesis using n by (auto simp: bit_simps masks)
  next
    case False
    then obtain k where "n = k + 8" by (metis add.commute le_add_diff_inverse not_less)
    then show ?thesis using n by (auto simp: bit_simps add_ac masks)
  qed
qed

lemma cont_flag: "((0x80 OR x :: u8) AND 0x80) \<noteq> 0"
proof -
  have "bit ((0x80 OR x :: u8) AND 0x80) 7"
  proof -
    show ?thesis by (auto simp: bit_simps)
  qed
  then show ?thesis by auto
qed

lemma last_flag: "((x AND 0x7F :: u8) AND 0x80) = 0"
proof -
  have m: "(0x7F :: u8) = mask 7" by (simp_all add: mask_eq_exp_minus_1)
  show ?thesis unfolding m by (rule bit_word_eqI) (auto simp: bit_simps)
qed

text \<open>The seven bit form: the reader always stops on the last byte's cleared flag.\<close>

lemma rd7_w7_small:
  fixes v :: "'a::len word"
  assumes "br_wf r" "br_rest r = w7_loop (7 * j) v @ xs" "j < n"
  shows "rd7_loop n (drop_bit (7 * j + 7) v) r = (v, br_adv (length (w7_loop (7 * j) v)) r)"
  using assms
proof (induction j arbitrary: n r)
  case 0
  then obtain m where n: "n = Suc m" by (cases n) auto
  from 0 show ?case unfolding n
    by (simp add: w7_loop.simps br_read8_Cons last_flag last7)
next
  case (Suc j)
  then obtain m where n: "n = Suc m" by (cases n) auto
  let ?b = "0x80 OR ucast (drop_bit (7 * Suc j) v) :: u8"
  have w: "w7_loop (7 * Suc j) v = ?b # w7_loop (7 * j) v"
    by (subst w7_loop.simps) simp
  have r: "br_read8 r = (?b, br_adv 1 r)" "br_wf (br_adv 1 r)"
      "br_rest (br_adv 1 r) = w7_loop (7 * j) v @ xs"
    using Suc.prems(1,2) unfolding w by (auto simp: br_read8_Cons intro: br_wf_adv)
  have c: "push_bit 7 (drop_bit (7 * Suc j + 7) v) OR ucast (?b AND 0x7F) = drop_bit (7 * j + 7) v"
    using cont_step[of "7 * Suc j" v] by (simp add: add_ac)
  have ih: "rd7_loop m (drop_bit (7 * j + 7) v) (br_adv 1 r)
        = (v, br_adv (length (w7_loop (7 * j) v)) (br_adv 1 r))"
    using Suc.IH[OF r(2,3), of m] Suc.prems(3) n by simp
  show ?case unfolding n w
    by (simp only: rd7_loop.simps r(1) Let_def case_prod_conv c cont_flag if_True ih) simp
qed

text \<open>The eight bit form: all allowed bytes are used and the last one carries eight bits.\<close>

lemma rd7_w7_full:
  fixes v :: "'a::len word"
  assumes "br_wf r" "br_rest r = w7_loop (7 * n + 1) v @ xs"
  shows "rd7_loop n (drop_bit (7 * n + 8) v) r = (v, br_adv (length (w7_loop (7 * n + 1) v)) r)"
  using assms
proof (induction n arbitrary: r)
  case 0
  then show ?case by (simp add: w7_loop.simps br_read8_Cons last8)
next
  case (Suc j)
  let ?b = "0x80 OR ucast (drop_bit (7 * Suc j + 1) v) :: u8"
  have w: "w7_loop (7 * Suc j + 1) v = ?b # w7_loop (7 * j + 1) v"
    by (subst w7_loop.simps) simp
  have r: "br_read8 r = (?b, br_adv 1 r)" "br_wf (br_adv 1 r)"
      "br_rest (br_adv 1 r) = w7_loop (7 * j + 1) v @ xs"
    using Suc.prems(1,2) unfolding w by (auto simp: br_read8_Cons intro: br_wf_adv)
  have c: "push_bit 7 (drop_bit (7 * Suc j + 8) v) OR ucast (?b AND 0x7F) = drop_bit (7 * j + 8) v"
    using cont_step[of "7 * Suc j + 1" v] by (simp add: add_ac)
  have ih: "rd7_loop j (drop_bit (7 * j + 8) v) (br_adv 1 r)
        = (v, br_adv (length (w7_loop (7 * j + 1) v)) (br_adv 1 r))"
    using Suc.IH[OF r(2,3)] by simp
  show ?case unfolding w
    by (simp only: rd7_loop.simps r(1) Let_def case_prod_conv c cont_flag if_True ih) simp
qed

lemma rd7_enc7_fits:
  fixes v :: "'a::len word"
  assumes ok: "2 \<le> bytes" "bytes \<le> 256" "7 * (bytes - 1) \<le> LENGTH('a)" "drop_bit (7 * (bytes - 1) + 8) v = 0"
    and r: "br_wf r" "br_rest r = enc7Bit bytes v @ xs"
  shows "br_read7Bit bytes r = (v, br_adv (length (enc7Bit bytes v)) r)"
proof -
  obtain k where k: "bytes = Suc (Suc k)" using ok(1) by (metis Suc_le_D numeral_2_eq_2 Suc_le_mono)
  have n: "(bytes + 255) mod 256 = Suc k"
  proof -
    have "bytes + 255 = Suc k + 256" using k by simp
    then have "(bytes + 255) mod 256 = Suc k mod 256" by (simp only: mod_add_self2)
    then show ?thesis using k ok(2) by simp
  qed
  let ?front = "drop_bit (7 * Suc k) v"
  have full: "drop_bit (7 * Suc k + 8) v = 0" using ok(4) k by simp
  have f: "unat ?front \<le> 0xFF"
  proof -
    have "drop_bit 8 ?front = 0" using full by (simp add: add.commute)
    then have "unat ?front div 2 ^ 8 = 0" by (metis unat_drop_bit unsigned_0)
    then show ?thesis by (simp add: div_eq_0_iff)
  qed
  show ?thesis
  proof (cases "?front = 0")
    case True
    obtain j where j: "j \<le> k" "w7_bits (7 * Suc k) v = 7 * j" "drop_bit (7 * j + 7) v = 0"
      using w7_bits_props[OF refl True] by blast
    have e: "enc7Bit bytes v = w7_loop (7 * j) v"
      using True j(2) k ok(3) by (simp add: enc7Bit_def mult.commute)
    have "j < Suc k" using j(1) by simp
    from rd7_w7_small[OF r(1) _ this, of v xs] r(2) show ?thesis
      unfolding e br_read7Bit_def n j(3) by simp
  next
    case False
    have e: "enc7Bit bytes v = w7_loop (7 * Suc k + 1) v"
      using False f k ok(3) by (simp add: enc7Bit_def mult.commute)
    from rd7_w7_full[OF r(1), of "Suc k" v xs] r(2) show ?thesis
      unfolding e br_read7Bit_def n full by simp
  qed
qed

text \<open>A word whose width the bytes hold.\<close>

lemma rd7_enc7:
  fixes v :: "'a::len word"
  assumes ok: "2 \<le> bytes" "bytes \<le> 256" "7 * (bytes - 1) \<le> LENGTH('a)" "LENGTH('a) \<le> 7 * (bytes - 1) + 8"
    and r: "br_wf r" "br_rest r = enc7Bit bytes v @ xs"
  shows "br_read7Bit bytes r = (v, br_adv (length (enc7Bit bytes v)) r)"
proof (rule rd7_enc7_fits [OF ok(1-3) _ r])
  show "drop_bit (7 * (bytes - 1) + 8) v = 0"
  proof (rule bit_word_eqI)
    fix i
    have "LENGTH('a) \<le> 7 * (bytes - 1) + 8 + i" using ok(4) by simp
    then show "bit (drop_bit (7 * (bytes - 1) + 8) v) i = bit 0 i"
      by (auto simp: bit_drop_bit_eq dest: bit_imp_le_length)
  qed
qed

lemma w7_bits_least:
  assumes "bits = 7 * Suc k"
  shows "w7_bits bits v = 0 \<or> drop_bit (w7_bits bits v) v \<noteq> 0"
  using assms
proof (induction k arbitrary: bits)
  case 0
  then show ?case by (simp add: w7_bits.simps)
next
  case (Suc k)
  then show ?case using Suc.IH[of "bits - 7"] by (subst (1 2) w7_bits.simps) auto
qed

lemma drop_bit_mono_nonzero:
  assumes "drop_bit m v \<noteq> 0" "n \<le> m"
  shows "drop_bit n (v :: 'a::len word) \<noteq> 0"
proof
  assume "drop_bit n v = 0"
  then have "drop_bit (m - n) (drop_bit n v) = 0" by simp
  with assms show False by (simp add: add.commute)
qed

lemma size7_loop_eq:
  fixes v :: "'a::len word"
  assumes nz: "\<And>i. i < m \<Longrightarrow> drop_bit (7 * Suc i) v \<noteq> 0"
    and m: "m < bytes" "drop_bit (7 * Suc m) v = 0 \<or> Suc m = bytes"
    and i: "i \<le> m"
  shows "size7_loop bytes (Suc i) (drop_bit (7 * i) v) = Suc m"
  using i
proof (induction rule: inc_induct)
  case base
  then show ?case using m by (subst size7_loop.simps) (auto simp: Let_def add.commute)
next
  case (step n)
  have "drop_bit (7 + 7 * n) v \<noteq> 0" using nz[of n] step.hyps by simp
  moreover have "Suc n < bytes" using step.hyps m by simp
  ultimately show ?case using step.IH by (subst size7_loop.simps) (simp add: Let_def add.commute)
qed

lemma length_w7_loop: "length (w7_loop (7 * j) v) = Suc j" "length (w7_loop (7 * j + 1) v) = Suc j"
proof (induction j)
  case 0
  show "length (w7_loop (7 * 0) v) = Suc 0" by (simp add: w7_loop.simps)
  show "length (w7_loop (7 * 0 + 1) v) = Suc 0" by (simp add: w7_loop.simps)
next
  case (Suc j)
  show "length (w7_loop (7 * Suc j) v) = Suc (Suc j)" using Suc(1) by (subst w7_loop.simps) simp
  show "length (w7_loop (7 * Suc j + 1) v) = Suc (Suc j)" using Suc(2) by (subst w7_loop.simps) simp
qed

lemma Get7BitSize_enc7Bit:
  fixes v :: "'a::len word"
  assumes ok: "2 \<le> bytes" "7 * (bytes - 1) \<le> LENGTH('a)"
  shows "Get7BitSize bytes v = length (enc7Bit bytes v)"
proof -
  obtain k where k: "bytes = Suc (Suc k)" using ok(1) by (metis Suc_le_D numeral_2_eq_2 Suc_le_mono)
  let ?front = "drop_bit (7 * Suc k) v"
  show ?thesis
  proof (cases "?front = 0")
    case True
    obtain j where j: "j \<le> k" "w7_bits (7 * Suc k) v = 7 * j" "drop_bit (7 * j + 7) v = 0"
      using w7_bits_props[OF refl True] by blast
    have e: "enc7Bit bytes v = w7_loop (7 * j) v"
      using True j(2) k ok(2) by (simp add: enc7Bit_def mult.commute)
    have "drop_bit (7 * Suc i) v \<noteq> 0" if "i < j" for i
      using w7_bits_least[OF refl, of k v] j(2) that drop_bit_mono_nonzero[of "7 * j" v "7 * Suc i"]
      by auto
    then have "size7_loop bytes (Suc 0) (drop_bit (7 * 0) v) = Suc j"
      using j k by (intro size7_loop_eq) (auto simp: add.commute)
    then show ?thesis by (simp add: Get7BitSize_def e length_w7_loop)
  next
    case False
    have e: "length (enc7Bit bytes v) = Suc (Suc k)"
      using False k ok(2) length_w7_loop(2)[of "Suc k" v] length_w7_loop(2)[of "Suc k" "- 1 :: 'a word"]
      by (simp add: enc7Bit_def mult.commute)
    have "drop_bit (7 * Suc i) v \<noteq> 0" if "i < Suc k" for i
      using that False drop_bit_mono_nonzero[of "7 * Suc k" v "7 * Suc i"] by auto
    then have "size7_loop bytes (Suc 0) (drop_bit (7 * 0) v) = Suc (Suc k)"
      using k by (intro size7_loop_eq) auto
    then show ?thesis by (simp add: Get7BitSize_def e)
  qed
qed

interpretation c7_32: codec "enc7Bit 5 :: u32 \<Rightarrow> bytes" "br_read7Bit 5" "\<lambda>_. True"
  by unfold_locales (rule rd7_enc7, simp_all)

interpretation c7_64: codec "enc7Bit 9 :: u64 \<Rightarrow> bytes" "br_read7Bit 9" "\<lambda>_. True"
  by unfold_locales (rule rd7_enc7, simp_all)

text \<open>\<open>read7Bit<UInt64>(10)\<close>, the form RTMFP uses.\<close>

interpretation c7_rtmfp: codec "enc7Bit 10 :: u64 \<Rightarrow> bytes" "br_read7Bit 10" "\<lambda>_. True"
  by unfold_locales (rule rd7_enc7, simp_all)

definition encString :: "bytes \<Rightarrow> bytes" where
  "encString value = wr_buf (bw_writeString value net_writer)"

lemma encString_eq: "encString value = enc7Bit 5 (of_nat (length value) :: u32) @ value"
  by (simp add: encString_def bw_writeString_def bw_write7Bit_def)

interpretation cString: codec encString br_readString "\<lambda>v. length v < 2 ^ 32"
proof
  fix v r xs
  assume len: "length v < 2 ^ 32" and r: "br_net r" "br_rest r = encString v @ xs"
  let ?n = "enc7Bit 5 (of_nat (length v) :: u32)"
  have u: "unat (of_nat (length v) :: u32) = length v" using len by (simp add: unsigned_of_nat take_bit_nat_eq_self)
  have d: "br_read7Bit 5 r = (of_nat (length v) :: u32, br_adv (length ?n) r)"
    using r by (intro c7_32.dec_enc[where xs = "v @ xs"]) (auto simp: encString_eq)
  show "br_readString r = (v, br_adv (length (encString v)) r)"
    using r by (auto simp: br_readString_def d u br_read_rest br_wf_adv encString_eq)
qed

section \<open>Properties\<close>

text \<open>
   \<open>read7Bit\<close> reads back what \<open>write7Bit\<close> wrote, for every value and with the cursor behind it,
  in the three forms the server uses (32 bit values in five bytes, 64 bit values in nine, the last
  of eight bits, or in ten), and \<open>Get7BitSize\<close> is the number of bytes written.
\<close>

theorem seven_bit_roundtrip:
  "br_read7Bit 5 (net_reader (enc7Bit 5 (v :: u32) @ xs))
     = (v, br_adv (Get7BitSize 5 v) (net_reader (enc7Bit 5 v @ xs)))
   \<and> br_read7Bit 9 (net_reader (enc7Bit 9 (w :: u64) @ xs))
     = (w, br_adv (Get7BitSize 9 w) (net_reader (enc7Bit 9 w @ xs)))
   \<and> br_read7Bit 10 (net_reader (enc7Bit 10 w @ xs))
     = (w, br_adv (Get7BitSize 10 w) (net_reader (enc7Bit 10 w @ xs)))"
  using c7_32.dec_net_reader[of v xs] c7_64.dec_net_reader[of w xs] c7_rtmfp.dec_net_reader[of w xs]
  by (simp_all add: Get7BitSize_enc7Bit)

text \<open>
  The fixed fields: on a buffer written field after field by \<open>write8\<close> to \<open>write64\<close> and
  \<open>writeString\<close>, the reads of the same kinds in the same order give the values back and leave
  the bytes that follow.
\<close>

theorem fields_roundtrip:
  assumes "unat c < 2 ^ 24" and "length text < 2 ^ 32"
    and "data = wr_buf (bw_writeString text (bw_write64 e (bw_write32 d (bw_write24 c (bw_write16 b (bw_write8 a
                  (mk_writer [] ORDER_BIG_ENDIAN))))))) @ xs"
  shows "(let (a', r) = br_read8 (net_reader data); (b', r) = br_read16 r; (c', r) = br_read24 r;
              (d', r) = br_read32 r; (e', r) = br_read64 r; (text', r) = br_readString r
          in (a', b', c', d', e', text', br_rest r)) = (a, b, c, d, e, text, xs)"
proof -
  have d: "data = [a] @ net16 b @ net24 c @ net32 d @ net64 e @ encString text @ xs"
    by (simp add: assms(3) bw_write8_def bw_write_nets bw_writeString_def bw_write7Bit_def encString_eq mk_writer_def)
  define front where "front = [a] @ net16 b @ net24 c @ net32 d @ net64 e @ encString text"
  have "drop (length front) (front @ xs) = xs" by simp
  then have "drop (18 + length (encString text)) ([a] @ net16 b @ net24 c @ net32 d @ net64 e @ encString text @ xs) = xs"
    unfolding front_def append_assoc by (simp del: drop_append)
  then show ?thesis
    unfolding d using assms(1,2) c8.dec_net_reader
    by (simp add: c8.dec_enc c16.dec_enc c24.dec_enc c32.dec_enc c64.dec_enc cString.dec_enc)
qed

theorem fields_roundtrip_witness:
  "(let data = wr_buf (bw_writeString [72, 105] (bw_write64 5 (bw_write32 4 (bw_write24 3 (bw_write16 2 (bw_write8 1
                  (mk_writer [] ORDER_BIG_ENDIAN))))))) @ [9]; (a', r) = br_read8 (net_reader data); (b', r) = br_read16 r;
        (c', r) = br_read24 r; (d', r) = br_read32 r; (e', r) = br_read64 r; (text', r) = br_readString r
    in (a', b', c', d', e', text', br_rest r)) = (1, 2, 3, 4, 5, [72, 105], [9])"
  using fields_roundtrip[of 3 "[72, 105]" _ 5 4 2 1 "[9]", OF _ _ refl] by (simp only: Let_def) simp

end
