(* ===== verification/Stream.thy ===== *)
theory Stream
  imports Bytes
begin

text \<open>
  Reception of a byte stream: \<open>StreamData.h\<close> (the buffer kept between two receptions) and the shape
  all stream decoders of the server share, a \<open>do { ... } while (buffer)\<close> loop over frames.
  A decoder is given as one iteration of its loop, a function from its state and the buffer to an
  \<open>outcome\<close>; \<open>run_frames\<close> is the loop, \<open>add_stream_data\<close> the buffering around it.  The locale
  \<open>frame_decoder\<close> states what an iteration owes the buffering and proves from it that the way the
  transport cuts the stream does not matter.
\<close>

section \<open>The receive buffer\<close>

text \<open>
  \<open>sd_skip\<close> is the field \<open>skipBufferLimit\<close>, \<open>sd_stored\<close> the bytes of \<open>_pBuffer\<close> (\<open>None\<close> for the
  null pointer).  The callback \<open>on_data\<close> returns the new decoder state, its events, the buffer as
  it stands after the call (a decoder may decrypt in place), the skip flag it leaves and the number
  of bytes to keep.  The result of the call is \<open>False\<close> when the kept bytes exceed the limit.
\<close>

record stream_data =
  sd_skip :: bool
  sd_stored :: "bytes option"

definition stream_empty :: stream_data where
  "stream_empty = \<lparr>sd_skip = False, sd_stored = None\<rparr>"

definition add_stream_data ::
  "('s \<Rightarrow> bytes \<Rightarrow> 's \<times> 'e list \<times> bytes \<times> bool \<times> nat) \<Rightarrow> nat \<Rightarrow> stream_data \<Rightarrow> 's \<Rightarrow> bytes
   \<Rightarrow> stream_data \<times> 's \<times> 'e list \<times> bool" where
  "add_stream_data on_data limit sd s packet =
     (let buffer = (case sd_stored sd of Some stored \<Rightarrow> stored @ packet | None \<Rightarrow> packet);
          (s', es, buffer', skip, ret) = on_data s buffer;
          rest = min ret (length buffer)
      in if rest = 0 then (\<lparr>sd_skip = skip, sd_stored = None\<rparr>, s', es, True)
         else if \<not> skip \<and> rest > limit then (\<lparr>sd_skip = skip, sd_stored = None\<rparr>, s', es, False)
         else (\<lparr>sd_skip = skip, sd_stored = Some (last_n rest buffer')\<rparr>, s', es, True))"

definition clear_stream_data :: "stream_data \<Rightarrow> stream_data" where
  "clear_stream_data sd = sd\<lparr>sd_stored := None\<rparr>"

section \<open>The frame loop\<close>

text \<open>
  One iteration on a buffer either waits for more bytes, keeping a suffix of the buffer and possibly
  a changed state, or consumes a frame with its events and leaves the rest of the buffer, or stops
  the reception (socket shutdown), dropping the buffer.
\<close>

datatype ('s, 'e) outcome =
    Wait 's bytes
  | Frame 's "'e list" bytes
  | Stop 's "'e list"

text \<open>The loop; the test on the length only makes the definition total, an iteration always consumes.\<close>

function run_frames :: "('s \<Rightarrow> bytes \<Rightarrow> ('s, 'e) outcome) \<Rightarrow> 's \<Rightarrow> bytes \<Rightarrow> 's \<times> 'e list \<times> bytes" where
  "run_frames step s buffer =
     (case step s buffer of
        Wait s' kept \<Rightarrow> (s', [], kept)
      | Stop s' es \<Rightarrow> (s', es, [])
      | Frame s' es rest \<Rightarrow>
          if rest = [] \<or> length buffer \<le> length rest then (s', es, [])
          else (let (s'', es', kept) = run_frames step s' rest in (s'', es @ es', kept)))"
  by pat_completeness auto
termination
  by (relation "measure (\<lambda>(step, s, buffer). length buffer)") auto

declare run_frames.simps [simp del]

text \<open>The loop as the callback of \<open>add_stream_data\<close>, for a decoder that changes no byte it keeps.\<close>

definition loop_on_data ::
  "('s \<Rightarrow> bytes \<Rightarrow> ('s, 'e) outcome) \<Rightarrow> 's \<Rightarrow> bytes \<Rightarrow> 's \<times> 'e list \<times> bytes \<times> bool \<times> nat" where
  "loop_on_data step s buffer =
     (let (s', es, kept) = run_frames step s buffer in (s', es, kept, False, length kept))"

text \<open>Several receptions in a row, with the buffer between them.\<close>

fun feed ::
  "('s \<Rightarrow> bytes \<Rightarrow> ('s, 'e) outcome) \<Rightarrow> 's \<times> bytes \<Rightarrow> bytes list \<Rightarrow> ('s \<times> bytes) \<times> 'e list" where
  "feed step (s, kept) [] = ((s, kept), [])"
| "feed step (s, kept) (p # ps) =
     (let (s', es, kept') = run_frames step s (kept @ p);
          (st, es') = feed step (s', kept') ps
      in (st, es @ es'))"

text \<open>The same decoder seen through a projection of its events.\<close>

definition observed :: "('e \<Rightarrow> 'v) \<Rightarrow> ('s \<Rightarrow> bytes \<Rightarrow> ('s, 'e) outcome) \<Rightarrow> 's \<Rightarrow> bytes \<Rightarrow> ('s, 'v) outcome" where
  "observed obs step s buffer = map_outcome id obs (step s buffer)"

lemma run_frames_observed:
  "run_frames (observed obs step) s b = (let (s', es, k) = run_frames step s b in (s', map obs es, k))"
proof (induction "length b" arbitrary: s b rule: less_induct)
  case less
  show ?case
  proof (cases "step s b")
    case (Frame s' es r)
    have o: "observed obs step s b = Frame s' (map obs es) r" by (simp add: observed_def Frame)
    show ?thesis
    proof (cases "r = [] \<or> length b \<le> length r")
      case True
      then show ?thesis by (subst (1 2) run_frames.simps) (auto simp: o Frame)
    next
      case False
      then show ?thesis using less[of r s']
        by (subst (1 2) run_frames.simps) (auto simp: o Frame split: prod.splits)
    qed
  qed (simp_all add: run_frames.simps observed_def)
qed

lemma run_frames_Wait: "step s b = Wait s' k \<Longrightarrow> run_frames step s b = (s', [], k)"
  by (simp add: run_frames.simps)

lemma run_frames_Stop: "step s b = Stop s' es \<Longrightarrow> run_frames step s b = (s', es, [])"
  by (simp add: run_frames.simps)

lemma run_frames_Frame:
  "step s b = Frame s' es r \<Longrightarrow> r \<noteq> [] \<Longrightarrow> length r < length b \<Longrightarrow>
   run_frames step s b = (let (s'', es', k) = run_frames step s' r in (s'', es @ es', k))"
  by (subst run_frames.simps) simp

lemma run_frames_Frame_last: "step s b = Frame s' es [] \<Longrightarrow> run_frames step s b = (s', es, [])"
  by (simp add: run_frames.simps)

text \<open>The same receptions through \<open>add_stream_data\<close>; a refused one shuts the reception down.\<close>

fun receive_all ::
  "('s \<Rightarrow> bytes \<Rightarrow> 's \<times> 'e list \<times> bytes \<times> bool \<times> nat) \<Rightarrow> nat \<Rightarrow> stream_data \<Rightarrow> 's \<Rightarrow> bytes list
   \<Rightarrow> stream_data \<times> 's \<times> 'e list \<times> bool" where
  "receive_all on_data limit sd s [] = (sd, s, [], True)"
| "receive_all on_data limit sd s (p # ps) =
     (let (sd', s', es, ok) = add_stream_data on_data limit sd s p
      in if \<not> ok then (sd', s', es, False)
         else (let (sd'', s'', es', ok') = receive_all on_data limit sd' s' ps
               in (sd'', s'', es @ es', ok')))"

definition stored_bytes :: "stream_data \<Rightarrow> bytes" where
  "stored_bytes sd = (case sd_stored sd of Some b \<Rightarrow> b | None \<Rightarrow> [])"

lemma stored_bytes_empty [simp]: "stored_bytes stream_empty = []"
  by (simp add: stored_bytes_def stream_empty_def)

lemma add_stream_data_loop:
  assumes "run_frames step s (stored_bytes sd @ p) = (s', es, k)"
    and "length k \<le> length (stored_bytes sd @ p)" and "length k \<le> limit"
  shows "\<exists>sd'. add_stream_data (loop_on_data step) limit sd s p = (sd', s', es, True) \<and> stored_bytes sd' = k"
  using assms
  by (intro exI[of _ "\<lparr>sd_skip = False, sd_stored = (if k = [] then None else Some k)\<rparr>"])
     (auto simp: add_stream_data_def loop_on_data_def stored_bytes_def Let_def split: option.splits)

lemma add_stream_data_accepted:
  assumes "add_stream_data (loop_on_data step) limit sd s p = (sd', s', es, True)"
    and "run_frames step s (stored_bytes sd @ p) = (s1, es1, k)" "length k \<le> length (stored_bytes sd @ p)"
  shows "s' = s1 \<and> es = es1 \<and> stored_bytes sd' = k"
proof -
  have b: "(case sd_stored sd of Some stored \<Rightarrow> stored @ p | None \<Rightarrow> p) = stored_bytes sd @ p"
    by (simp add: stored_bytes_def split: option.splits)
  have m: "min (length k) (length (stored_bytes sd @ p)) = length k" using assms(3) by simp
  show ?thesis
    using assms(1) unfolding add_stream_data_def Let_def b loop_on_data_def assms(2) prod.case m
    by (auto simp: stored_bytes_def split: if_splits)
qed

text \<open>The whole reception seen through a projection of the events.\<close>

lemma add_stream_data_observed:
  "add_stream_data (loop_on_data (observed obs step)) limit sd s p =
     (let (sd', s', es, ok) = add_stream_data (loop_on_data step) limit sd s p in (sd', s', map obs es, ok))"
proof -
  define b where "b = (case sd_stored sd of Some stored \<Rightarrow> stored @ p | None \<Rightarrow> p)"
  obtain s' es k where "run_frames step s b = (s', es, k)" by (metis prod_cases3)
  then show ?thesis
    by (simp add: add_stream_data_def loop_on_data_def run_frames_observed b_def[symmetric] Let_def)
      (auto simp: min_def split: if_splits)
qed

lemma receive_all_observed:
  "receive_all (loop_on_data (observed obs step)) limit sd s ps =
     (let (sd', s', es, ok) = receive_all (loop_on_data step) limit sd s ps in (sd', s', map obs es, ok))"
  by (induction ps arbitrary: sd s) (simp_all add: add_stream_data_observed split: prod.splits)

section \<open>What an iteration owes the buffer\<close>

text \<open>
  \<open>inv\<close> is the decoder's invariant.  A consumed frame must not depend on what follows it, and a
  decoder that waits keeps a suffix of its buffer and must, on what it kept and more bytes, do what
  it would have done on the whole buffer.
\<close>

locale frame_decoder =
  fixes step :: "'s \<Rightarrow> bytes \<Rightarrow> ('s, 'e) outcome"
    and inv :: "'s \<Rightarrow> bool"
  assumes inv_Wait: "inv s \<Longrightarrow> step s b = Wait s' k \<Longrightarrow> inv s'"
    and inv_Frame: "inv s \<Longrightarrow> step s b = Frame s' es r \<Longrightarrow> inv s'"
    and step_Nil: "inv s \<Longrightarrow> step s [] = Wait s []"
    and Wait_suffix: "inv s \<Longrightarrow> step s b = Wait s' k \<Longrightarrow> \<exists>p. b = p @ k"
    and Frame_consumes: "inv s \<Longrightarrow> step s b = Frame s' es r \<Longrightarrow> length r < length b"
    and Frame_stable: "inv s \<Longrightarrow> step s b = Frame s' es r \<Longrightarrow> step s (b @ c) = Frame s' es (r @ c)"
    and Wait_resume: "inv s \<Longrightarrow> step s b = Wait s' k \<Longrightarrow> c \<noteq> [] \<Longrightarrow> step s (b @ c) = step s' (k @ c)"
    and never_Stop: "inv s \<Longrightarrow> step s b \<noteq> Stop s' es"
begin

lemma run_unfold:
  assumes "inv s"
  shows "run_frames step s b =
     (case step s b of
        Wait s' k \<Rightarrow> (s', [], k)
      | Stop s' es \<Rightarrow> (s', es, [])
      | Frame s' es r \<Rightarrow> if r = [] then (s', es, [])
                        else (let (s'', es', k) = run_frames step s' r in (s'', es @ es', k)))"
  using Frame_consumes[OF assms, of b]
  by (subst run_frames.simps) (auto split: outcome.splits simp: not_le)

lemma run_inv_suffix: "inv s \<Longrightarrow> run_frames step s b = (s', es, k) \<Longrightarrow> inv s' \<and> length k \<le> length b"
proof (induction "length b" arbitrary: s b s' es k rule: less_induct)
  case less
  show ?case
  proof (cases "step s b")
    case (Wait s1 k1)
    then show ?thesis using less.prems inv_Wait[OF less.prems(1) Wait] Wait_suffix[OF less.prems(1) Wait]
      by (auto simp: run_unfold)
  next
    case (Frame s1 es1 r)
    note c = Frame_consumes[OF less.prems(1) Frame] and i = inv_Frame[OF less.prems(1) Frame]
    show ?thesis
    proof (cases "r = []")
      case True
      then show ?thesis using less.prems Frame i by (simp add: run_unfold)
    next
      case False
      obtain s2 es2 k2 where r: "run_frames step s1 r = (s2, es2, k2)" by (metis prod_cases3)
      then show ?thesis using less.hyps[OF c i r] c less.prems Frame False by (simp add: run_unfold)
    qed
  next
    case (Stop s1 es1)
    then show ?thesis using never_Stop[OF less.prems(1)] by simp
  qed
qed

text \<open>One reception of \<open>a @ b\<close> is the reception of \<open>a\<close> followed by that of \<open>b\<close>.\<close>

lemma run_append:
  assumes "inv s" "b \<noteq> []"
  shows "run_frames step s (a @ b) =
    (let (s', es, k) = run_frames step s a; (s'', es', k') = run_frames step s' (k @ b) in (s'', es @ es', k'))"
  using assms
proof (induction "length a" arbitrary: s a rule: less_induct)
  case less
  show ?case
  proof (cases "step s a")
    case (Wait s1 k1)
    have "run_frames step s (a @ b) = run_frames step s1 (k1 @ b)"
      using Wait_resume[OF less.prems(1) Wait less.prems(2)] inv_Wait[OF less.prems(1) Wait] less.prems(1)
      by (simp add: run_unfold)
    then show ?thesis using less.prems(1) Wait by (simp add: run_unfold[of s a] split: prod.splits)
  next
    case (Frame s1 es1 r)
    note c = Frame_consumes[OF less.prems(1) Frame] and i = inv_Frame[OF less.prems(1) Frame]
    have e: "run_frames step s (a @ b) = (let (s'', es', k) = run_frames step s1 (r @ b) in (s'', es1 @ es', k))"
      using Frame_stable[OF less.prems(1) Frame, of b] less.prems by (simp add: run_unfold[of s "a @ b"])
    show ?thesis
    proof (cases "r = []")
      case True
      then show ?thesis using e less.prems(1) Frame by (simp add: run_unfold[of s a])
    next
      case False
      then show ?thesis using e less.hyps[OF c i less.prems(2)] less.prems(1) Frame
        by (simp add: run_unfold[of s a] split: prod.splits)
    qed
  next
    case (Stop s1 es1)
    then show ?thesis using never_Stop[OF less.prems(1)] by simp
  qed
qed

lemma feed_concat:
  "inv s \<Longrightarrow> [] \<notin> set (p # ps) \<Longrightarrow> feed step (s, k) (p # ps) =
   (let (s', es, k') = run_frames step s (k @ concat (p # ps)) in ((s', k'), es))"
proof (induction ps arbitrary: s k p)
  case Nil
  then show ?case by (simp split: prod.splits)
next
  case (Cons q ps)
  obtain s1 es1 k1 where r: "run_frames step s (k @ p) = (s1, es1, k1)" by (metis prod_cases3)
  have ne: "concat (q # ps) \<noteq> []" using Cons.prems by auto
  have "run_frames step s ((k @ p) @ concat (q # ps)) =
     (let (s'', es', k') = run_frames step s1 (k1 @ concat (q # ps)) in (s'', es1 @ es', k'))"
    using run_append[OF Cons.prems(1) ne, of "k @ p"] r by simp
  moreover have "feed step (s1, k1) (q # ps) =
     (let (s', es, k') = run_frames step s1 (k1 @ concat (q # ps)) in ((s', k'), es))"
    using Cons.IH[of s1 q k1] Cons.prems run_inv_suffix[OF Cons.prems(1) r] by simp
  ultimately show ?case using r by (simp split: prod.splits)
qed

text \<open>However the transport cuts a stream that fits the limit, it is received as one packet would be.\<close>

lemma receive_all_feed:
  assumes "inv s" and "length (stored_bytes sd) + length (concat ps) \<le> limit"
  shows "\<exists>sd'. receive_all (loop_on_data step) limit sd s ps =
           (sd', fst (fst (feed step (s, stored_bytes sd) ps)), snd (feed step (s, stored_bytes sd) ps), True)
         \<and> stored_bytes sd' = snd (fst (feed step (s, stored_bytes sd) ps))"
  using assms
proof (induction ps arbitrary: s sd)
  case (Cons p ps)
  obtain s1 es1 k1 where r: "run_frames step s (stored_bytes sd @ p) = (s1, es1, k1)" by (metis prod_cases3)
  note k = run_inv_suffix[OF Cons.prems(1) r]
  obtain sd1 where sd1: "add_stream_data (loop_on_data step) limit sd s p = (sd1, s1, es1, True)"
      "stored_bytes sd1 = k1"
    using add_stream_data_loop[OF r, of limit] k Cons.prems(2) by auto
  show ?case using Cons.IH[of s1 sd1] k Cons.prems(2) sd1 r by (auto split: prod.splits)
qed simp

lemma receive_split:
  assumes "inv s" "ps \<noteq> []" "[] \<notin> set ps" "length (concat ps) \<le> limit"
  shows "\<exists>sd s' es. receive_all (loop_on_data step) limit stream_empty s ps = (sd, s', es, True)
           \<and> run_frames step s (concat ps) = (s', es, stored_bytes sd)"
proof -
  have "feed step (s, []) ps = (let (s', es, k') = run_frames step s (concat ps) in ((s', k'), es))"
    using feed_concat[of s "hd ps" "tl ps" "[]"] assms by simp
  then show ?thesis
    using receive_all_feed[of s stream_empty ps limit] assms by (auto split: prod.splits)
qed

text \<open>Without a bound on the stream: a reception that is accepted, packet after packet, is that of the whole.\<close>

lemma receive_accepted_feed:
  assumes "inv s" "receive_all (loop_on_data step) limit sd s ps = (sd', s', es, True)"
  shows "feed step (s, stored_bytes sd) ps = ((s', stored_bytes sd'), es)"
  using assms
proof (induction ps arbitrary: s sd es)
  case (Cons p ps)
  obtain s1 es1 k1 where r: "run_frames step s (stored_bytes sd @ p) = (s1, es1, k1)" by (metis prod_cases3)
  note k = run_inv_suffix[OF Cons.prems(1) r]
  obtain sd2 s2 es2 ok where a: "add_stream_data (loop_on_data step) limit sd s p = (sd2, s2, es2, ok)" by (metis prod_cases4)
  then have ok using Cons.prems(2) by (cases ok) simp_all
  then have e: "s2 = s1" "es2 = es1" "stored_bytes sd2 = k1" using add_stream_data_accepted[of step limit sd s p sd2 s2 es2] a r k by auto
  obtain es' where "receive_all (loop_on_data step) limit sd2 s1 ps = (sd', s', es', True)" "es = es1 @ es'"
    using Cons.prems(2) a \<open>ok\<close> e by (auto split: prod.splits)
  then show ?case using Cons.IH[of s1 sd2 es'] k r e by simp
qed simp

lemma receive_accepted:
  assumes "inv s" "[] \<notin> set ps" "receive_all (loop_on_data step) limit stream_empty s ps = (sd, s', es, True)"
  shows "run_frames step s (concat ps) = (s', es, stored_bytes sd)"
proof (cases ps)
  case Nil
  then show ?thesis using assms(3) step_Nil[OF assms(1)] by (auto simp: run_frames_Wait)
next
  case (Cons p qs)
  then show ?thesis
    using receive_accepted_feed[OF assms(1,3)] feed_concat[OF assms(1), of p qs "[]"] assms(2) by (auto split: prod.splits)
qed

end

end
