(* ===== verification/WS.thy ===== *)
theory WS
  imports Stream
begin

text \<open>
  The WebSocket protocol: \<open>WS.h/.cpp\<close> (types, close codes, unmasking), \<open>WSDecoder\<close> (frames to
  messages), \<open>WSSender\<close> (message to frame) and the close code handling of \<open>WSSession\<close>.
  The decoder is a \<open>frame_decoder\<close>; the theorems are that a sent frame is received as sent, that a
  masked client frame is unmasked, and that the messages do not depend on the cut of the stream.
\<close>

section \<open>Types and codes\<close>

definition TYPE_NIL :: u8 where "TYPE_NIL = 0"
definition TYPE_TEXT :: u8 where "TYPE_TEXT = 0x01"
definition TYPE_BINARY :: u8 where "TYPE_BINARY = 0x02"
definition TYPE_CLOSE :: u8 where "TYPE_CLOSE = 0x08"
definition TYPE_PING :: u8 where "TYPE_PING = 0x09"
definition TYPE_PONG :: u8 where "TYPE_PONG = 0x0a"

datatype ws_code =
    CODE_NORMAL_CLOSE | CODE_ENDPOINT_GOING_AWAY | CODE_PROTOCOL_ERROR | CODE_PAYLOAD_NOT_ACCEPTABLE
  | CODE_RESERVED | CODE_RESERVED_NO_STATUS_CODE | CODE_RESERVED_ABNORMAL_CLOSE
  | CODE_MALFORMED_PAYLOAD | CODE_POLICY_VIOLATION | CODE_PAYLOAD_TOO_BIG
  | CODE_EXTENSION_REQUIRED | CODE_UNEXPECTED_CONDITION

fun ws_code_value :: "ws_code \<Rightarrow> u16" where
  "ws_code_value CODE_NORMAL_CLOSE = 1000"
| "ws_code_value CODE_ENDPOINT_GOING_AWAY = 1001"
| "ws_code_value CODE_PROTOCOL_ERROR = 1002"
| "ws_code_value CODE_PAYLOAD_NOT_ACCEPTABLE = 1003"
| "ws_code_value CODE_RESERVED = 1004"
| "ws_code_value CODE_RESERVED_NO_STATUS_CODE = 1005"
| "ws_code_value CODE_RESERVED_ABNORMAL_CLOSE = 1006"
| "ws_code_value CODE_MALFORMED_PAYLOAD = 1007"
| "ws_code_value CODE_POLICY_VIOLATION = 1008"
| "ws_code_value CODE_PAYLOAD_TOO_BIG = 1009"
| "ws_code_value CODE_EXTENSION_REQUIRED = 1010"
| "ws_code_value CODE_UNEXPECTED_CONDITION = 1011"

text \<open>The errors a session closes with (\<open>Session.h\<close>), as the integers of the code.\<close>

definition ERROR_UNEXPECTED :: int where "ERROR_UNEXPECTED = 100"
definition ERROR_SERVER :: int where "ERROR_SERVER = 101"
definition ERROR_IDLE :: int where "ERROR_IDLE = 102"
definition ERROR_REJECTED :: int where "ERROR_REJECTED = 103"
definition ERROR_PROTOCOL :: int where "ERROR_PROTOCOL = 104"
definition ERROR_APPLICATION :: int where "ERROR_APPLICATION = 105"
definition ERROR_UNSUPPORTED :: int where "ERROR_UNSUPPORTED = 106"
definition ERROR_UNAVAILABLE :: int where "ERROR_UNAVAILABLE = 107"
definition ERROR_UNFOUND :: int where "ERROR_UNFOUND = 108"
definition ERROR_UPDATE :: int where "ERROR_UPDATE = 109"
definition ERROR_SOCKET :: int where "ERROR_SOCKET = - 100"

lemmas session_error_defs =
  ERROR_UNEXPECTED_def ERROR_SERVER_def ERROR_IDLE_def ERROR_REJECTED_def ERROR_PROTOCOL_def
  ERROR_APPLICATION_def ERROR_UNSUPPORTED_def ERROR_UNAVAILABLE_def ERROR_UNFOUND_def
  ERROR_UPDATE_def ERROR_SOCKET_def

text \<open>
  \<open>range<UInt16>(Int32)\<close> of \<open>Mona.h\<close>: a value that the cast changes is returned as cast, a
  negative one that it does not change as 0 (which no 32 bit value is for a 16 bit range).
\<close>

definition range_u16 :: "int \<Rightarrow> u16" where
  "range_u16 v = (let result = word_of_int v :: u16
                  in if uint result \<noteq> v then result else if v < 0 then 0 else result)"

definition ErrorToCode :: "int \<Rightarrow> u16" where
  "ErrorToCode error =
     (if error = 0 then ws_code_value CODE_NORMAL_CLOSE
      else if error = ERROR_UPDATE \<or> error = ERROR_SERVER then ws_code_value CODE_ENDPOINT_GOING_AWAY
      else if error = ERROR_APPLICATION then ws_code_value CODE_PAYLOAD_NOT_ACCEPTABLE
      else if error = ERROR_REJECTED then ws_code_value CODE_POLICY_VIOLATION
      else if error = ERROR_IDLE \<or> error = ERROR_PROTOCOL then ws_code_value CODE_PROTOCOL_ERROR
      else if error = ERROR_UNAVAILABLE \<or> error = ERROR_UNFOUND \<or> error = ERROR_UNSUPPORTED
        then ws_code_value CODE_EXTENSION_REQUIRED
      else if error = ERROR_UNEXPECTED then ws_code_value CODE_UNEXPECTED_CONDITION
      else range_u16 error)"

text \<open>The error \<open>WSSession\<close> closes with on a close frame of the peer (0: normal close).\<close>

definition close_error :: "bytes \<Rightarrow> int" where
  "close_error message =
     (let (code, r) = br_read16 (net_reader message)
      in if code = 0 \<or> code = ws_code_value CODE_NORMAL_CLOSE then 0
         else if code = ws_code_value CODE_ENDPOINT_GOING_AWAY then ERROR_SOCKET
         else if code = ws_code_value CODE_POLICY_VIOLATION then ERROR_REJECTED
         else if code = ws_code_value CODE_RESERVED_ABNORMAL_CLOSE then ERROR_APPLICATION
         else if code = ws_code_value CODE_PROTOCOL_ERROR
               \<or> code = ws_code_value CODE_PAYLOAD_NOT_ACCEPTABLE
               \<or> code = ws_code_value CODE_MALFORMED_PAYLOAD
               \<or> code = ws_code_value CODE_PAYLOAD_TOO_BIG then ERROR_PROTOCOL
         else if code = ws_code_value CODE_EXTENSION_REQUIRED then ERROR_UNSUPPORTED
         else ERROR_UNEXPECTED)"

text \<open>
  \<open>WSWriter::closing\<close>: the body of the close frame, nothing for the errors below zero (the socket
  is gone).
\<close>

definition closing_body :: "int \<Rightarrow> bytes option \<Rightarrow> bytes option" where
  "closing_body error reason =
     (if error < 0 then None
      else Some (net16 (ErrorToCode error) @ (case reason of Some text \<Rightarrow> text | None \<Rightarrow> [])))"

section \<open>Unmasking\<close>

text \<open>
  \<open>WS::Unmask\<close> returns the reader behind the mask and the unmasked bytes; the loop reads
  \<open>mask[i%4]\<close> only when bytes remain behind the four of the mask.
\<close>

definition unmask_bytes :: "bytes \<Rightarrow> bytes \<Rightarrow> bytes" where
  "unmask_bytes mask_key data = map (\<lambda>i. (data ! i) XOR (mask_key ! (i mod 4))) [0..<length data]"

definition Unmask :: "breader \<Rightarrow> bytes \<times> breader" where
  "Unmask r = (let mask_key = take 4 (br_rest r); (_, r') = br_next 4 r
               in (unmask_bytes mask_key (br_rest r'), r'))"

section \<open>The decoder\<close>

record ws_message =
  wm_type :: u8
  wm_payload :: bytes
  wm_flush :: bool

text \<open>
  \<open>ws_mtype\<close> and \<open>ws_mdata\<close> are the state of the nested \<open>Message\<close>: the type of the message being
  assembled and its fragments.
\<close>

record ws_decoder =
  ws_size :: u32
  ws_type :: u8
  ws_masked :: bool
  ws_mtype :: u8
  ws_mdata :: stream_data

definition ws_init :: ws_decoder where
  "ws_init = \<lparr>ws_size = 0, ws_type = 0, ws_masked = False, ws_mtype = 0, ws_mdata = stream_empty\<rparr>"

text \<open>\<open>WSDecoder::Message::onStreamData\<close>.\<close>

definition msg_on_data ::
  "u8 \<Rightarrow> bool \<Rightarrow> u8 \<Rightarrow> bytes \<Rightarrow> u8 \<times> ws_message list \<times> bytes \<times> bool \<times> nat" where
  "msg_on_data type flush mtype buffer =
     (let newType = type AND 0x0F; mtype = (if newType \<noteq> 0 then newType else mtype)
      in if type AND 0x80 = 0 then (mtype, [], buffer, False, length buffer)
         else (0, [\<lparr>wm_type = mtype, wm_payload = buffer, wm_flush = flush\<rparr>], buffer, False, 0))"

text \<open>
  The header: \<open>Inr\<close> is an incomplete one (the fields assigned before the return are kept), \<open>Inl\<close>
  the state with \<open>_size\<close> set and the reader behind the header.
\<close>

definition ws_header :: "ws_decoder \<Rightarrow> breader \<Rightarrow> (ws_decoder \<times> breader) + ws_decoder" where
  "ws_header s r =
     (if ws_size s \<noteq> 0 then Inl (s, r)
      else if br_available r < 2 then Inr s
      else
        let (type, r) = br_read8 r; (lengthByte, r) = br_read8 r;
            s = s\<lparr>ws_type := type\<rparr>;
            masking = (\<lambda>s. if lengthByte AND 0x80 \<noteq> 0
                        then s\<lparr>ws_size := ws_size s + 4, ws_masked := True\<rparr> else s)
        in if lengthByte AND 0x7f = 127
           then (if br_available r < 8 then Inr s
                 else let (n, r) = br_read64 r in Inl (masking (s\<lparr>ws_size := ucast n\<rparr>), r))
           else if lengthByte AND 0x7f = 126
           then (if br_available r < 2 then Inr s
                 else let (n, r) = br_read16 r in Inl (masking (s\<lparr>ws_size := ucast n\<rparr>), r))
           else Inl (masking (s\<lparr>ws_size := ucast (lengthByte AND 0x7f)\<rparr>), r))"

text \<open>
  The end of an iteration: the frame, its payload unmasked, goes to the control messages or to the
  message under assembly; \<open>buffer\<close> is what follows it.
\<close>

definition ws_deliver ::
  "nat \<Rightarrow> ws_decoder \<Rightarrow> bytes \<Rightarrow> bytes \<Rightarrow> (ws_decoder, ws_message) outcome" where
  "ws_deliver limit s payload buffer =
     (let flush = (buffer = [])
      in if ws_type s AND 0x08 \<noteq> 0
         then Frame s [\<lparr>wm_type = ws_type s AND 0x0F, wm_payload = payload, wm_flush = flush\<rparr>] buffer
         else (let (sd, mtype, es, _) =
                     add_stream_data (msg_on_data (ws_type s) flush) limit (ws_mdata s) (ws_mtype s) payload
               in Frame (s\<lparr>ws_mtype := mtype, ws_mdata := sd\<rparr>) es buffer))"

text \<open>One iteration of \<open>WSDecoder::onStreamData\<close>; \<open>limit\<close> is the receive buffer size of the socket.\<close>

definition ws_step :: "nat \<Rightarrow> ws_decoder \<Rightarrow> bytes \<Rightarrow> (ws_decoder, ws_message) outcome" where
  "ws_step limit s buffer =
     (case ws_header s (net_reader buffer) of
        Inr s \<Rightarrow> Wait s buffer
      | Inl (s, r) \<Rightarrow>
          let (n, r) = br_shrink (unat (ws_size s)) r
          in if n < unat (ws_size s) then Wait s (br_rest r)
             else
               let s = s\<lparr>ws_size := 0\<rparr>;
                   (payload, _) = (if ws_masked s then Unmask r else (br_rest r, r))
               in ws_deliver limit s payload (drop (rd_size r) buffer))"

definition ws_decode ::
  "nat \<Rightarrow> stream_data \<Rightarrow> ws_decoder \<Rightarrow> bytes \<Rightarrow> stream_data \<times> ws_decoder \<times> ws_message list \<times> bool" where
  "ws_decode limit = add_stream_data (loop_on_data (ws_step limit)) limit"

section \<open>The sender\<close>

text \<open>
  \<open>WSSender::run\<close>.  \<open>content\<close> is what the writer of the sender wrote behind the ten bytes reserved
  for the header (\<open>None\<close>: no writer was asked for), \<open>packet\<close> the data sent behind it.  For the type
  \<open>TYPE_NIL\<close> both are JSON arrays and are joined; the test of the code, on the size that includes
  the reserved bytes, always holds.  The result is what goes to the socket.
\<close>

definition ws_join :: "bytes \<Rightarrow> bytes \<Rightarrow> bytes \<times> bytes" where
  "ws_join content packet =
     (if 10 + length content > 2
      then ((if content = [] then content else butlast content @ [0x2C]), drop 1 packet)
      else (content, packet))"

definition ws_send :: "u8 \<Rightarrow> bytes option \<Rightarrow> bytes \<Rightarrow> bytes" where
  "ws_send type content packet =
     (let (type, content, packet) =
            (if type = TYPE_NIL
             then (case content of
                     Some c \<Rightarrow> if packet \<noteq> [] then (let (c', p') = ws_join c packet in (TYPE_TEXT, c', p'))
                               else (TYPE_TEXT, c, packet)
                   | None \<Rightarrow> (TYPE_TEXT, [], packet))
             else (type, (case content of Some c \<Rightarrow> c | None \<Rightarrow> []), packet));
          size32 = of_nat (length content + length packet) :: u32;
          headerSize = (if size32 < 126 then 2 else if size32 < 65536 then 4 else 10 :: nat)
      in [type OR 0x80]
         @ (if headerSize = 2 then [ucast size32]
            else if headerSize = 4 then [126] @ net16 (ucast size32)
            else [127] @ net64 (ucast size32))
         @ content @ packet)"

section \<open>The decoder does not depend on the cut of the stream\<close>

text \<open>The header over the bytes of the packet.\<close>

definition ws_header_list :: "ws_decoder \<Rightarrow> bytes \<Rightarrow> (ws_decoder \<times> nat) + ws_decoder" where
  "ws_header_list s b =
     (if ws_size s \<noteq> 0 then Inl (s, 0)
      else if length b < 2 then Inr s
      else
        let s = s\<lparr>ws_type := b ! 0\<rparr>; len = b ! 1 AND 0x7f;
            masking = (\<lambda>s. if b ! 1 AND 0x80 \<noteq> 0
                           then s\<lparr>ws_size := ws_size s + 4, ws_masked := True\<rparr> else s)
        in if len = 127
           then (if length b < 10 then Inr s
                 else Inl (masking (s\<lparr>ws_size := ucast (be (take 8 (drop 2 b)) :: u64)\<rparr>), 10))
           else if len = 126
           then (if length b < 4 then Inr s
                 else Inl (masking (s\<lparr>ws_size := ucast (be (take 2 (drop 2 b)) :: u16)\<rparr>), 4))
           else Inl (masking (s\<lparr>ws_size := ucast len\<rparr>), 2))"

lemma ws_header_list_Cons:
  assumes "ws_size s = 0"
  shows "ws_header_list s (t # lb # xs) =
     (let s = s\<lparr>ws_type := t\<rparr>;
          masking = (\<lambda>s. if lb AND 0x80 \<noteq> 0 then s\<lparr>ws_size := ws_size s + 4, ws_masked := True\<rparr> else s)
      in if lb AND 0x7f = 127
         then (if length xs < 8 then Inr s
               else Inl (masking (s\<lparr>ws_size := ucast (be (take 8 xs) :: u64)\<rparr>), 10))
         else if lb AND 0x7f = 126
         then (if length xs < 2 then Inr s
               else Inl (masking (s\<lparr>ws_size := ucast (be (take 2 xs) :: u16)\<rparr>), 4))
         else Inl (masking (s\<lparr>ws_size := ucast (lb AND 0x7f)\<rparr>), 2))"
  using assms by (simp add: ws_header_list_def numeral_2_eq_2 Let_def)

lemma ws_header_net:
  "ws_header s (net_reader b) =
     (case ws_header_list s b of Inl (s', n) \<Rightarrow> Inl (s', br_adv n (net_reader b)) | Inr s' \<Rightarrow> Inr s')"
proof (cases "ws_size s = 0 \<and> 2 \<le> length b")
  case False
  then show ?thesis by (auto simp: ws_header_def ws_header_list_def)
next
  case True
  then obtain t lb xs where b: "b = t # lb # xs" by (auto simp: length_ge_2_conv)
  have r: "br_read8 (net_reader b) = (t, br_adv 1 (net_reader b))"
      "br_read8 (br_adv 1 (net_reader b)) = (lb, br_adv 2 (net_reader b))"
      "br_read64 (br_adv 2 (net_reader b)) = (if 8 \<le> length xs then (be (take 8 xs), br_adv 10 (net_reader b))
                                            else (0, br_adv (length b) (net_reader b)))"
      "br_read16 (br_adv 2 (net_reader b)) = (if 2 \<le> length xs then (be (take 2 xs), br_adv 4 (net_reader b))
                                            else (0, br_adv (length b) (net_reader b)))"
      "br_available (br_adv 2 (net_reader b)) = length xs"
    by (auto simp: b net_pos numeral_eq_Suc)
  consider (l) "lb AND 0x7f = 127" | (m) "lb AND 0x7f = 126" | (s) "lb AND 0x7f \<noteq> 126" "lb AND 0x7f \<noteq> 127"
    by blast
  then show ?thesis
  proof cases
    case l
    then show ?thesis using True r
      by (cases "length xs < 8") (simp_all add: ws_header_def b ws_header_list_Cons Let_def)
  next
    case m
    then show ?thesis using True r
      by (cases "length xs < 2") (simp_all add: ws_header_def b ws_header_list_Cons Let_def)
  next
    case s
    then show ?thesis using True r
      by (simp add: ws_header_def b ws_header_list_Cons Let_def)
  qed
qed

lemma ws_header_list_Inl:
  assumes "ws_header_list s b = Inl (s', n)"
  shows "n \<le> length b \<and> ws_header_list s (b @ c) = Inl (s', n) \<and>
    (if ws_size s = 0 then 0 < n else n = 0 \<and> s' = s)"
proof (cases "ws_size s = 0 \<and> 2 \<le> length b")
  case False
  then show ?thesis using assms by (auto simp: ws_header_list_def split: if_splits)
next
  case True
  then obtain t lb xs where b: "b = t # lb # xs" by (auto simp: length_ge_2_conv)
  then show ?thesis using assms True
    by (auto simp: ws_header_list_Cons Let_def split: if_split_asm)
qed

lemma ws_header_list_Inr:
  assumes "ws_header_list s b = Inr s'"
  shows "ws_header_list s (b @ c) = ws_header_list s' (b @ c) \<and> (b = [] \<longrightarrow> s' = s)"
proof (cases "ws_size s = 0 \<and> 2 \<le> length b")
  case False
  then show ?thesis using assms by (auto simp: ws_header_list_def split: if_splits)
next
  case True
  then obtain t lb xs where b: "b = t # lb # xs" by (auto simp: length_ge_2_conv)
  then show ?thesis using assms True
    by (auto simp: ws_header_list_Cons Let_def split: if_split_asm)
qed

definition ws_payload :: "bool \<Rightarrow> bytes \<Rightarrow> bytes" where
  "ws_payload masked x = (if masked then unmask_bytes (take 4 x) (drop 4 x) else x)"

lemma Unmask_rest: "br_wf r \<Longrightarrow> fst (Unmask r) = ws_payload True (br_rest r)"
  by (auto simp: Unmask_def ws_payload_def br_next_def length_br_rest[symmetric] Let_def
      br_adv_def[symmetric])

lemma ws_step_list:
  "ws_step limit s b = (case ws_header_list s b of
      Inr s' \<Rightarrow> Wait s' b
    | Inl (s', n) \<Rightarrow>
        let m = unat (ws_size s')
        in if length b - n < m then Wait s' (drop n b)
           else ws_deliver limit (s'\<lparr>ws_size := 0\<rparr>) (ws_payload (ws_masked s') (take m (drop n b)))
                  (drop (n + m) b))"
proof (cases "ws_header_list s b")
  case (Inr s')
  then show ?thesis by (simp add: ws_step_def ws_header_net)
next
  case (Inl p)
  obtain s' n where p: "p = (s', n)" by (cases p)
  define m where "m = unat (ws_size s')"
  let ?r = "(br_adv n (net_reader b))\<lparr>rd_size := n + m\<rparr>"
  have n: "n \<le> length b" using ws_header_list_Inl Inl p by blast
  have r: "br_rest ?r = take m (drop n b)" "rd_size ?r = n + m"
    by (simp_all add: br_rest_def br_adv_def net_reader_def mk_reader_def take_drop add.commute)
  have wf: "br_wf ?r" if "\<not> length b - n < m" using that n
    by (auto simp: br_wf_def br_adv_def net_reader_def mk_reader_def)
  show ?thesis
    using r Unmask_rest[OF wf]
    by (auto simp: ws_step_def ws_header_net Inl p br_shrink_pos m_def[symmetric] Let_def ws_payload_def
        case_prod_beta)
qed


lemma ws_deliver_Frame: "\<exists>s' es. ws_deliver limit s payload buffer = Frame s' es buffer"
  by (auto simp: ws_deliver_def Let_def split: prod.splits)

definition quiet :: "ws_message \<Rightarrow> u8 \<times> bytes" where
  "quiet m = (wm_type m, wm_payload m)"

lemma add_stream_data_msg_flush:
  assumes "add_stream_data (msg_on_data t f) limit sd mt p = (sd', mt', es, ok)"
  shows "\<exists>es'. add_stream_data (msg_on_data t f') limit sd mt p = (sd', mt', es', ok) \<and> map quiet es' = map quiet es"
  using assms
  by (auto simp: add_stream_data_def msg_on_data_def Let_def quiet_def last_n_all split: option.splits if_split_asm)

lemma ws_deliver_append:
  assumes "ws_deliver limit s payload buffer = Frame s' es r"
  shows "\<exists>es'. ws_deliver limit s payload (buffer @ c) = Frame s' es' (r @ c) \<and> map quiet es' = map quiet es"
proof (cases "ws_type s AND 0x08 \<noteq> 0")
  case True
  then show ?thesis using assms by (auto simp: ws_deliver_def Let_def quiet_def)
next
  case False
  obtain sd mt es1 ok where a: "add_stream_data (msg_on_data (ws_type s) (buffer = [])) limit (ws_mdata s) (ws_mtype s) payload
      = (sd, mt, es1, ok)" by (metis prod_cases4)
  then obtain es2 where "add_stream_data (msg_on_data (ws_type s) (buffer @ c = [])) limit (ws_mdata s) (ws_mtype s) payload
      = (sd, mt, es2, ok)" "map quiet es2 = map quiet es1"
    using add_stream_data_msg_flush by blast
  then show ?thesis using a assms False by (auto simp: ws_deliver_def Let_def)
qed

lemma ws_observed:
  "observed quiet (ws_step limit) s b = (case ws_header_list s b of
      Inr s' \<Rightarrow> Wait s' b
    | Inl (s', n) \<Rightarrow>
        let m = unat (ws_size s')
        in if length b - n < m then Wait s' (drop n b)
           else map_outcome id quiet (ws_deliver limit (s'\<lparr>ws_size := 0\<rparr>)
                  (ws_payload (ws_masked s') (take m (drop n b))) (drop (n + m) b)))"
  by (auto simp: observed_def ws_step_list Let_def split: sum.splits prod.splits)

lemma ws_observed_Wait:
  assumes "observed quiet (ws_step limit) s b = Wait s' k"
  shows "(ws_header_list s b = Inr s' \<and> k = b) \<or>
    (\<exists>n. ws_header_list s b = Inl (s', n) \<and> n \<le> length b \<and> length b - n < unat (ws_size s') \<and> k = drop n b)"
proof (cases "ws_header_list s b")
  case (Inl p)
  obtain s1 n where p: "p = (s1, n)" by (cases p)
  obtain s2 es where d: "ws_deliver limit (s1\<lparr>ws_size := 0\<rparr>)
       (ws_payload (ws_masked s1) (take (unat (ws_size s1)) (drop n b))) (drop (n + unat (ws_size s1)) b)
     = Frame s2 es (drop (n + unat (ws_size s1)) b)"
    using ws_deliver_Frame by blast
  show ?thesis using assms Inl p d ws_header_list_Inl[of s b s1 n]
    by (auto simp: ws_observed Let_def split: if_splits)
qed (use assms in \<open>simp add: ws_observed\<close>)

lemma ws_observed_Frame:
  assumes "observed quiet (ws_step limit) s b = Frame s' es r"
  shows "\<exists>s1 n. ws_header_list s b = Inl (s1, n) \<and> n + unat (ws_size s1) \<le> length b
    \<and> r = drop (n + unat (ws_size s1)) b \<and>
    (\<forall>c. observed quiet (ws_step limit) s (b @ c) = Frame s' es (r @ c))"
proof (cases "ws_header_list s b")
  case (Inl p)
  obtain s1 n where p: "p = (s1, n)" by (cases p)
  let ?m = "unat (ws_size s1)"
  obtain s2 es2 where d: "ws_deliver limit (s1\<lparr>ws_size := 0\<rparr>)
       (ws_payload (ws_masked s1) (take ?m (drop n b))) (drop (n + ?m) b) = Frame s2 es2 (drop (n + ?m) b)"
    using ws_deliver_Frame by blast
  have h: "n \<le> length b" "\<And>c. ws_header_list s (b @ c) = Inl (s1, n)"
    using ws_header_list_Inl[of s b s1 n] Inl p by auto
  have le: "n + ?m \<le> length b" and o: "s' = s2" "es = map quiet es2" "r = drop (n + ?m) b"
    using assms Inl p d h(1) by (auto simp: ws_observed Let_def split: if_splits)
  have "observed quiet (ws_step limit) s (b @ c) = Frame s' es (r @ c)" for c
  proof -
    obtain es3 where e: "ws_deliver limit (s1\<lparr>ws_size := 0\<rparr>) (ws_payload (ws_masked s1) (take ?m (drop n b)))
        (drop (n + ?m) b @ c) = Frame s2 es3 (drop (n + ?m) b @ c)" "map quiet es3 = map quiet es2"
      using ws_deliver_append[OF d] by blast
    have "\<not> length (b @ c) - n < ?m" using le by simp
    then show ?thesis using e le o by (simp add: ws_observed h(2) Let_def del: drop_append)
      (simp add: e(1) e(2))
  qed
  then show ?thesis using Inl p le o by auto
qed (use assms in \<open>simp add: ws_observed\<close>)

lemma ws_header_list_sized: "ws_size s \<noteq> 0 \<Longrightarrow> ws_header_list s b = Inl (s, 0)"
  by (simp add: ws_header_list_def)

lemma ws_observed_not_Stop: "observed quiet (ws_step limit) s b \<noteq> Stop s' es"
proof (cases "ws_header_list s b")
  case (Inl p)
  obtain s1 n where p: "p = (s1, n)" by (cases p)
  obtain s2 es2 where d: "ws_deliver limit (s1\<lparr>ws_size := 0\<rparr>)
       (ws_payload (ws_masked s1) (take (unat (ws_size s1)) (drop n b))) (drop (n + unat (ws_size s1)) b)
     = Frame s2 es2 (drop (n + unat (ws_size s1)) b)"
    using ws_deliver_Frame by blast
  then show ?thesis using Inl p by (simp add: ws_observed Let_def)
qed (simp add: ws_observed)

interpretation ws: frame_decoder "observed quiet (ws_step limit)" "\<lambda>_. True"
proof
  fix s s' :: ws_decoder and b k c r :: bytes and es
  show "observed quiet (ws_step limit) s b \<noteq> Stop s' es"
    by (rule ws_observed_not_Stop)
  show "observed quiet (ws_step limit) s [] = Wait s []"
    by (auto simp: ws_observed ws_header_list_def Let_def unat_gt_0)
  {
    assume w: "observed quiet (ws_step limit) s b = Wait s' k"
    show "\<exists>p. b = p @ k"
      using ws_observed_Wait[OF w] by (metis append_Nil append_take_drop_id)
    assume c: "c \<noteq> []"
    from ws_observed_Wait[OF w]
    show "observed quiet (ws_step limit) s (b @ c) = observed quiet (ws_step limit) s' (k @ c)"
    proof
      assume "ws_header_list s b = Inr s' \<and> k = b"
      then show ?thesis using ws_header_list_Inr[of s b s' c] by (simp add: ws_observed)
    next
      assume "\<exists>n. ws_header_list s b = Inl (s', n) \<and> n \<le> length b \<and> length b - n < unat (ws_size s') \<and> k = drop n b"
      then obtain n where n: "ws_header_list s b = Inl (s', n)" "n \<le> length b" "length b - n < unat (ws_size s')"
        "k = drop n b" by blast
      then have "ws_size s' \<noteq> 0" by auto
      then show ?thesis using n ws_header_list_Inl[OF n(1), of c]
        by (simp add: ws_observed ws_header_list_sized Let_def add.commute)
    qed
  }
  {
    assume f: "observed quiet (ws_step limit) s b = Frame s' es r"
    then obtain s1 n where n: "ws_header_list s b = Inl (s1, n)" "n + unat (ws_size s1) \<le> length b"
        "r = drop (n + unat (ws_size s1)) b" using ws_observed_Frame by blast
    show "length r < length b"
    proof -
      have "0 < n + unat (ws_size s1)"
        using ws_header_list_Inl[OF n(1), of "[]"] by (auto simp: unat_gt_0 split: if_splits)
      with n(2) have "length b - (n + unat (ws_size s1)) < length b" by (intro diff_less) linarith+
      then show ?thesis by (simp only: n(3) length_drop)
    qed
    show "observed quiet (ws_step limit) s (b @ c) = Frame s' es (r @ c)"
      using ws_observed_Frame[OF f] by blast
  }
qed simp_all


section \<open>What is sent is what is received\<close>

text \<open>
  The frame of RFC 6455, the contract of sender and decoder: \<open>t\<close> is the first byte with its FIN
  bit, \<open>key\<close> the mask of a client.
\<close>

definition rfc_frame :: "u8 \<Rightarrow> bytes option \<Rightarrow> bytes \<Rightarrow> bytes" where
  "rfc_frame t key p =
     (let n = length p; m = (if key = None then 0 else 0x80 :: u8)
      in [t] @ (if n < 126 then [of_nat n OR m]
                else if n < 65536 then [126 OR m] @ net16 (of_nat n) else [127 OR m] @ net64 (of_nat n))
         @ (case key of None \<Rightarrow> p | Some k \<Rightarrow> k @ unmask_bytes k p))"

lemma ws_send_rfc:
  assumes "t \<noteq> TYPE_NIL" and "length content + length packet < 2 ^ 32"
  shows "ws_send t (Some content) packet = rfc_frame (t OR 0x80) None (content @ packet)"
proof -
  let ?n = "length content + length packet"
  have u: "unat (of_nat ?n :: u32) = ?n" by (rule unat_of_nat_small) (use assms(2) in simp)
  have c: "ucast (of_nat ?n :: u32) = (of_nat ?n :: u8)" "ucast (of_nat ?n :: u32) = (of_nat ?n :: u16)"
      "ucast (of_nat ?n :: u32) = (of_nat ?n :: u64)"
    by (rule ucast_of_nat_small, use assms(2) in simp)+
  show ?thesis using assms u c
    by (simp add: ws_send_def rfc_frame_def Let_def word_less_nat_alt del: of_nat_add)
qed

lemma length_byte:
  fixes x :: u8
  assumes "unat x < 128"
  shows "(x OR 0x80) AND 0x7f = x" "x AND 0x7f = x" "(x OR 0x80) AND 0x80 \<noteq> 0" "x AND 0x80 = 0"
proof -
  have x: "take_bit 7 x = x" using assms by (intro take_bit_id_less) simp
  have m: "(0x7f :: u8) = mask 7" by (simp add: mask_eq_exp_minus_1)
  show "x AND 0x7f = x" unfolding m using x by (simp add: take_bit_eq_mask)
  then show "(x OR 0x80) AND 0x7f = x" by (simp add: bit.conj_disj_distrib2)
  show "(x OR 0x80) AND 0x80 \<noteq> 0" using cont_flag[of x] by (simp add: or.commute)
  show "x AND 0x80 = 0" using last_flag[of x] \<open>x AND 0x7f = x\<close> by simp
qed

lemma be_net: "be (net16 v) = v" "be (net64 w) = w"
  by (simp_all add: net_be be_be_bytes take_bit_word_eq_self)

lemma ws_header_rfc:
  assumes s: "ws_size s = 0" and n: "length p < 2 ^ 32 - 4" and key: "\<forall>k. key = Some k \<longrightarrow> length k = 4"
  shows "ws_header_list s (rfc_frame t key p @ xs) =
    Inl (s\<lparr>ws_type := t, ws_size := of_nat (length p + (if key = None then 0 else 4)),
           ws_masked := (ws_masked s \<or> key \<noteq> None)\<rparr>,
         if length p < 126 then 2 else if length p < 65536 then 4 else 10)"
proof -
  let ?n = "length p" and ?m = "if key = None then 0 else 0x80 :: u8"
  consider (a) "?n < 126" | (b) "126 \<le> ?n" "?n < 65536" | (c) "65536 \<le> ?n" by linarith
  then show ?thesis
  proof cases
    case a
    then have u: "unat (of_nat ?n :: u8) < 126" by (simp add: unat_of_nat_small)
    then have "(of_nat ?n :: u8) \<noteq> 126" "(of_nat ?n :: u8) \<noteq> 127" by auto
    then show ?thesis using a s length_byte[of "of_nat ?n"] u
      by (cases key) (simp_all add: rfc_frame_def ws_header_list_Cons Let_def ucast_of_nat_small)
  next
    case b
    then show ?thesis using s
      by (cases key) (simp_all add: rfc_frame_def ws_header_list_Cons Let_def be_net ucast_of_nat_small)
  next
    case c
    then show ?thesis using s n
      by (cases key) (simp_all add: rfc_frame_def ws_header_list_Cons Let_def be_net ucast_of_nat_small)
  qed
qed


lemma unmask_unmask: "unmask_bytes k (unmask_bytes k p) = p"
  by (rule nth_equalityI) (simp_all add: unmask_bytes_def xor.assoc)

lemma length_unmask_bytes [simp]: "length (unmask_bytes k p) = length p"
  by (simp add: unmask_bytes_def)

lemma ws_step_rfc:
  assumes s: "ws_size s = 0" and n: "length p < 2 ^ 32 - 4" and key: "\<forall>k. key = Some k \<longrightarrow> length k = 4"
    and masked: "ws_masked s \<longrightarrow> key \<noteq> None"
  shows "ws_step limit s (rfc_frame t key p @ xs) =
    ws_deliver limit (s\<lparr>ws_type := t, ws_masked := (key \<noteq> None), ws_size := 0\<rparr>) p xs"
proof -
  define n where "n = (if length p < 126 then 2 else if length p < 65536 then 4 else 10 :: nat)"
  define body where "body = (case key of None \<Rightarrow> p | Some k \<Rightarrow> k @ unmask_bytes k p)"
  have lb: "length body = length p + (if key = None then 0 else 4)"
    using key by (auto simp: body_def split: option.splits)
  have u: "unat (of_nat (length body) :: u32) = length body"
    by (rule unat_of_nat_small) (use n lb in auto)
  have h: "ws_header_list s (rfc_frame t key p @ xs) =
      Inl (s\<lparr>ws_type := t, ws_size := of_nat (length body), ws_masked := (key \<noteq> None)\<rparr>, n)"
    using ws_header_rfc[OF s n key] masked by (auto simp: n_def lb)
  obtain front where front: "rfc_frame t key p = front @ body" "length front = n"
    by (rule that[of "take n (rfc_frame t key p)"])
      (auto simp: n_def rfc_frame_def body_def Let_def length_net take_Cons')
  have d: "drop n (rfc_frame t key p @ xs) = body @ xs" "drop (n + length body) (rfc_frame t key p @ xs) = xs"
      "length (rfc_frame t key p @ xs) = n + length body + length xs"
    using front by simp_all
  have w: "ws_payload (key \<noteq> None) body = p"
    using key by (auto simp: body_def ws_payload_def unmask_unmask split: option.splits)
  show ?thesis using d w by (simp add: ws_step_list h u Let_def)
qed

text \<open>
  The assembly RFC 6455 asks for, over the frames as pairs of first byte and payload: a control
  frame is a message of its own even in the middle of a fragmented one, a data frame without FIN
  extends the message, and an opcode 0 keeps the type of the message.
\<close>

fun assemble :: "u8 \<Rightarrow> bytes \<Rightarrow> (u8 \<times> bytes) list \<Rightarrow> (u8 \<times> bytes) list" where
  "assemble mtype acc [] = []"
| "assemble mtype acc ((t, p) # fs) =
     (if t AND 0x08 \<noteq> 0 then (t AND 0x0F, p) # assemble mtype acc fs
      else let mtype' = (if t AND 0x0F \<noteq> 0 then t AND 0x0F else mtype)
           in if t AND 0x80 = 0 then assemble mtype' (acc @ p) fs
              else (mtype', acc @ p) # assemble 0 [] fs)"

lemma msg_data:
  assumes "length (stored_bytes sd @ p) \<le> limit"
  shows "\<exists>sd'. add_stream_data (msg_on_data t f) limit sd mt p =
      (let mt' = (if t AND 0x0F \<noteq> 0 then t AND 0x0F else mt); x = stored_bytes sd @ p
       in if t AND 0x80 = 0 then (sd', mt', [], True) else (sd', 0, [\<lparr>wm_type = mt', wm_payload = x, wm_flush = f\<rparr>], True))
    \<and> stored_bytes sd' = (if t AND 0x80 = 0 then stored_bytes sd @ p else [])"
proof -
  have b: "(case sd_stored sd of Some stored \<Rightarrow> stored @ p | None \<Rightarrow> p) = stored_bytes sd @ p"
    by (simp add: stored_bytes_def split: option.splits)
  show ?thesis
    using assms unfolding add_stream_data_def b
    by (intro exI[of _ "\<lparr>sd_skip = False, sd_stored =
          (if t AND 0x80 = 0 \<and> stored_bytes sd @ p \<noteq> [] then Some (stored_bytes sd @ p) else None)\<rparr>"])
      (auto simp: msg_on_data_def Let_def last_n_all, auto simp: stored_bytes_def)
qed

abbreviation wire :: "(u8 \<times> bytes option \<times> bytes) list \<Rightarrow> bytes" where
  "wire fs \<equiv> concat (map (\<lambda>(t, key, p). rfc_frame t key p) fs)"

definition wire_ok :: "bool \<Rightarrow> (u8 \<times> bytes option \<times> bytes) list \<Rightarrow> bool" where
  "wire_ok masked fs \<longleftrightarrow> list_all (\<lambda>(t, key, p). length p < 2 ^ 32 - 4 \<and>
     (if masked then \<exists>k. key = Some k \<and> length k = 4 else key = None)) fs"

lemma rfc_frame_length: "length p \<le> length (rfc_frame t key p)"
  by (auto simp: rfc_frame_def Let_def split: option.splits)

lemma rfc_frame_not_Nil: "rfc_frame t key p \<noteq> []"
  by (simp add: rfc_frame_def Let_def)

lemma run_wire:
  assumes "wire_ok m fs" "ws_size s = 0" "ws_masked s \<longrightarrow> m"
    "length (stored_bytes (ws_mdata s)) + length (wire fs) \<le> limit"
  shows "\<exists>s' es. run_frames (ws_step limit) s (wire fs) = (s', es, [])
    \<and> map quiet es = assemble (ws_mtype s) (stored_bytes (ws_mdata s)) (map (\<lambda>(t, key, p). (t, p)) fs)"
  using assms
proof (induction fs arbitrary: s)
  case Nil
  then show ?case by (simp add: run_frames.simps ws_step_list ws_header_list_def)
next
  case (Cons f fs)
  obtain t key p where f: "f = (t, key, p)" by (cases f)
  let ?s = "s\<lparr>ws_type := t, ws_masked := (key \<noteq> None), ws_size := 0\<rparr>"
  have key: "\<forall>k. key = Some k \<longrightarrow> length k = 4" "ws_masked s \<longrightarrow> key \<noteq> None" "key \<noteq> None \<longrightarrow> m"
    and p: "length p < 2 ^ 32 - 4" and ok: "wire_ok m fs"
    using Cons.prems by (auto simp: wire_ok_def f split: if_splits)
  have step: "ws_step limit s (wire (f # fs)) = ws_deliver limit ?s p (wire fs)"
    using ws_step_rfc[OF Cons.prems(2) p key(1,2)] by (simp add: f)
  obtain sd' where sd': "add_stream_data (msg_on_data t (wire fs = [])) limit (ws_mdata s) (ws_mtype s) p =
      (let mt' = (if t AND 0x0F \<noteq> 0 then t AND 0x0F else ws_mtype s); x = stored_bytes (ws_mdata s) @ p
       in if t AND 0x80 = 0 then (sd', mt', [], True)
          else (sd', 0, [\<lparr>wm_type = mt', wm_payload = x, wm_flush = (wire fs = [])\<rparr>], True))"
      "stored_bytes sd' = (if t AND 0x80 = 0 then stored_bytes (ws_mdata s) @ p else [])"
    using msg_data[of "ws_mdata s" p limit t "wire fs = []" "ws_mtype s"] Cons.prems(4)
      rfc_frame_length[of p t key] by (auto simp: f)
  obtain s1 es1 where d: "ws_deliver limit ?s p (wire fs) = Frame s1 es1 (wire fs)"
      "ws_size s1 = 0" "ws_masked s1 \<longrightarrow> m"
      "length (stored_bytes (ws_mdata s1)) + length (wire fs) \<le> limit"
      "map quiet es1 @ assemble (ws_mtype s1) (stored_bytes (ws_mdata s1)) (map (\<lambda>(t, key, p). (t, p)) fs)
       = assemble (ws_mtype s) (stored_bytes (ws_mdata s)) (map (\<lambda>(t, key, p). (t, p)) (f # fs))"
  proof (cases "t AND 0x08 \<noteq> 0")
    case True
    then show ?thesis using that key(3) Cons.prems(4)
      by (simp add: ws_deliver_def Let_def f quiet_def)
  next
    case False
    then show ?thesis using that key(3) Cons.prems(4) sd' rfc_frame_length[of p t key]
      by (cases "t AND 0x80 = 0") (auto simp: ws_deliver_def Let_def f quiet_def split: if_splits)
  qed
  have less: "length (wire fs) < length (wire (f # fs))"
    using rfc_frame_not_Nil[of t key p] by (simp add: f)
  show ?case
  proof (cases "wire fs = []")
    case True
    then have "fs = []" using rfc_frame_not_Nil by (cases fs) auto
    then show ?thesis using d step by (auto simp: run_frames.simps[of _ s])
  next
    case False
    obtain s' es where "run_frames (ws_step limit) s1 (wire fs) = (s', es, [])"
      "map quiet es = assemble (ws_mtype s1) (stored_bytes (ws_mdata s1)) (map (\<lambda>(t, key, p). (t, p)) fs)"
      using Cons.IH[OF ok d(2,3,4)] by blast
    then show ?thesis using run_frames_Frame[of "ws_step limit" s "wire (f # fs)" s1 es1 "wire fs"] step d(1,5) False less
      by auto
  qed
qed


section \<open>Properties\<close>

text \<open>The reception of a connection: \<open>WSDecoder::decode\<close> on each packet in turn.\<close>

definition ws_receive ::
  "nat \<Rightarrow> ws_decoder \<Rightarrow> bytes list \<Rightarrow> stream_data \<times> ws_decoder \<times> ws_message list \<times> bool" where
  "ws_receive limit s ps = receive_all (loop_on_data (ws_step limit)) limit stream_empty s ps"

lemma ws_receive_run:
  assumes "ps \<noteq> []" "[] \<notin> set ps" "length (concat ps) \<le> limit"
    and "run_frames (ws_step limit) s (concat ps) = (s', es, k)"
  shows "\<exists>sd es'. ws_receive limit s ps = (sd, s', es', True) \<and> map quiet es' = map quiet es \<and> stored_bytes sd = k"
proof -
  obtain sd es1 where r: "receive_all (loop_on_data (observed quiet (ws_step limit))) limit stream_empty s ps = (sd, s', es1, True)"
      "stored_bytes sd = k" "es1 = map quiet es"
    using ws.receive_split[OF TrueI assms(1,2,3), of limit s] assms by (auto simp: run_frames_observed)
  show ?thesis
    using r unfolding receive_all_observed ws_receive_def by (auto split: prod.splits)
qed

text \<open>
  C8.  Any sequence of messages sent by \<open>WSSender\<close> is received by \<open>WSDecoder\<close> as sent, each with its
  type and its bytes, whatever way the transport cuts the stream into packets (at least one, none empty), and nothing remains
  in the buffer.  The stream as a whole fits the size that the receive buffer is limited to, and a message is below
  \<open>2 ^ 32 - 4\<close> bytes.
\<close>

theorem ws_sent_received:
  assumes "list_all (\<lambda>(t, content, packet). t \<in> {TYPE_TEXT, TYPE_BINARY, TYPE_CLOSE, TYPE_PING, TYPE_PONG}
      \<and> length content + length packet < 2 ^ 32 - 4) ms"
    and "concat ps = concat (map (\<lambda>(t, content, packet). ws_send t (Some content) packet) ms)"
    and "ps \<noteq> []" "[] \<notin> set ps" "length (concat ps) \<le> limit"
  shows "\<exists>sd s es. ws_receive limit ws_init ps = (sd, s, es, True) \<and> stored_bytes sd = []
    \<and> map (\<lambda>m. (wm_type m, wm_payload m)) es = map (\<lambda>(t, content, packet). (t, content @ packet)) ms"
proof -
  let ?fs = "map (\<lambda>(t, content, packet). (t OR 0x80, None, content @ packet)) ms"
  have w: "concat ps = wire ?fs" "wire_ok False ?fs"
    using assms(1) unfolding assms(2)
    by (induction ms) (auto simp: ws_send_rfc wire_ok_def TYPE_NIL_def TYPE_TEXT_def TYPE_BINARY_def
        TYPE_CLOSE_def TYPE_PING_def TYPE_PONG_def)
  have a: "assemble 0 [] (map (\<lambda>(t, key, p). (t, p)) ?fs) = map (\<lambda>(t, content, packet). (t, content @ packet)) ms"
    using assms(1)
    by (induction ms) (auto simp: Let_def TYPE_TEXT_def TYPE_BINARY_def TYPE_CLOSE_def TYPE_PING_def TYPE_PONG_def)
  show ?thesis
    using run_wire[OF w(2), of ws_init limit] ws_receive_run[OF assms(3,4,5), of ws_init] assms(5) a
    by (force simp: w(1) ws_init_def quiet_def[abs_def])
qed


theorem ws_sent_received_witness:
  "\<exists>sd s es. ws_receive 64 ws_init [[0x81], [2, 72], [73, 0x89, 0]] = (sd, s, es, True) \<and> stored_bytes sd = []
    \<and> map (\<lambda>m. (wm_type m, wm_payload m)) es = [(TYPE_TEXT, [72, 73]), (TYPE_PING, [])]"
  using ws_sent_received[of "[(TYPE_TEXT, [72], [73]), (TYPE_PING, [], [])]" "[[0x81], [2, 72], [73, 0x89, 0]]" 64]
  by (simp add: ws_send_def TYPE_TEXT_def TYPE_PING_def TYPE_NIL_def Let_def)

text \<open>
  C26.  A client's masked frames, fragments and control frames mixed in any order and cut in any way (in at least one packet,
  none empty), are unmasked and assembled into the messages RFC 6455 asks for.  The stream as a whole fits the size
  that the receive buffer is limited to, and a frame is below \<open>2 ^ 32 - 4\<close> bytes.
\<close>

theorem ws_client_assembled:
  assumes "list_all (\<lambda>(t, key, p). length key = 4 \<and> length p < 2 ^ 32 - 4) fs"
    and "concat ps = concat (map (\<lambda>(t, key, p). rfc_frame t (Some key) p) fs)"
    and "ps \<noteq> []" "[] \<notin> set ps" "length (concat ps) \<le> limit"
  shows "\<exists>sd s es. ws_receive limit ws_init ps = (sd, s, es, True) \<and> stored_bytes sd = []
    \<and> map (\<lambda>m. (wm_type m, wm_payload m)) es = assemble 0 [] (map (\<lambda>(t, key, p). (t, p)) fs)"
proof -
  let ?fs = "map (\<lambda>(t, key, p). (t, Some key, p)) fs"
  have w: "concat ps = wire ?fs" "wire_ok True ?fs"
    using assms(1) unfolding assms(2) by (induction fs) (auto simp: wire_ok_def)
  have a: "map (\<lambda>(t, key, p). (t, p)) ?fs = map (\<lambda>(t, key, p). (t, p)) fs"
    by (simp add: comp_def case_prod_beta)
  show ?thesis
    using run_wire[OF w(2), of ws_init limit] ws_receive_run[OF assms(3,4,5), of ws_init] assms(5)
    unfolding a by (force simp: w(1) ws_init_def quiet_def[abs_def])
qed

theorem ws_client_assembled_witness:
  "\<exists>sd s es. ws_receive 64 ws_init [[0x01, 0x81, 1, 2], [3, 4, 73, 0x89, 0x80, 0, 0, 0, 0, 0x80, 0x81, 1, 0, 0, 0, 72]]
      = (sd, s, es, True) \<and> stored_bytes sd = []
    \<and> map (\<lambda>m. (wm_type m, wm_payload m)) es = [(TYPE_PING, []), (TYPE_TEXT, [72, 73])]"
  using ws_client_assembled[of "[(0x01, [1, 2, 3, 4], [72]), (0x89, [0, 0, 0, 0], []), (0x80, [1, 0, 0, 0], [73])]"
    "[[0x01, 0x81, 1, 2], [3, 4, 73, 0x89, 0x80, 0, 0, 0, 0, 0x80, 0x81, 1, 0, 0, 0, 72]]" 64]
  by (simp add: rfc_frame_def unmask_bytes_def TYPE_TEXT_def TYPE_PING_def Let_def)

lemma ws_receive_accepted:
  assumes "ws_receive limit s ps = (sd, s', es, True)" "[] \<notin> set ps"
  shows "run_frames (observed quiet (ws_step limit)) s (concat ps) = (s', map quiet es, stored_bytes sd)"
proof -
  have "receive_all (loop_on_data (observed quiet (ws_step limit))) limit stream_empty s ps = (sd, s', map quiet es, True)"
    using assms(1) by (simp add: receive_all_observed ws_receive_def)
  from ws.receive_accepted[OF TrueI assms(2) this] show ?thesis .
qed

text \<open>
  C12.  On any bytes, well formed or not, of any length and with any limit of the receive buffer: when a new decoder
  accepts a stream cut in one way and cut in another, into packets that are not empty, it receives the same messages,
  apart from the flag that tells that a message is the last of its packet, ends in the same state and keeps the same bytes.
  It does accept both when the stream as a whole fits the limit; above it a reception can be refused with one cut and
  not with another, as the bytes kept behind a packet are measured (\<open>StreamData.h:42\<close>).
\<close>

theorem ws_cut_independent:
  assumes "concat ps = concat qs" "[] \<notin> set ps" "[] \<notin> set qs"
    and "ws_receive limit ws_init ps = (sd, s, es, ok)" "ws_receive limit ws_init qs = (sd', s', es', ok')"
  shows "(ok \<and> ok' \<longrightarrow> s = s' \<and> map quiet es = map quiet es' \<and> stored_bytes sd = stored_bytes sd')
    \<and> (length (concat ps) \<le> limit \<longrightarrow> ok \<and> ok')"
proof (intro conjI impI)
  assume "ok \<and> ok'"
  then have "ws_receive limit ws_init ps = (sd, s, es, True)" "ws_receive limit ws_init qs = (sd', s', es', True)"
    using assms(4,5) by simp_all
  from ws_receive_accepted[OF this(1) assms(2)] ws_receive_accepted[OF this(2) assms(3)]
  show "s = s'" "map quiet es = map quiet es'" "stored_bytes sd = stored_bytes sd'" by (simp_all add: assms(1))
next
  assume fits: "length (concat ps) \<le> limit"
  have accepted: "ok" if "ws_receive limit ws_init ps = (sd, s, es, ok)" "[] \<notin> set ps" "length (concat ps) \<le> limit" for ps sd s es ok
    using that ws_receive_run[of ps limit ws_init] by (cases "ps = []") (force simp: ws_receive_def, metis prod.inject prod_cases3)
  show "ok" "ok'" using accepted[OF assms(4,2) fits] accepted[OF assms(5,3)] fits by (simp_all add: assms(1))
qed

theorem ws_cut_independent_witness:
  "(let (sd, s, es, ok) = ws_receive 2 ws_init [[0x81, 1], [72, 0x82]]; (sd', s', es', ok') = ws_receive 2 ws_init [[0x81, 1, 72, 0x82]]
    in ok \<and> ok' \<and> s = s' \<and> map quiet es = map quiet es' \<and> stored_bytes sd = stored_bytes sd')"
proof -
  obtain sd s es ok where r: "ws_receive 2 ws_init [[0x81, 1], [72, 0x82]] = (sd, s, es, ok)" by (metis prod_cases4)
  obtain sd' s' es' ok' where r': "ws_receive 2 ws_init [[0x81, 1, 72, 0x82]] = (sd', s', es', ok')" by (metis prod_cases4)
  have "snd (snd (snd (ws_receive 2 ws_init [[0x81, 1], [72, 0x82]])))" "snd (snd (snd (ws_receive 2 ws_init [[0x81, 1, 72, 0x82]])))"
    by code_simp+
  then show ?thesis using ws_cut_independent[OF _ _ _ r r'] by (simp add: r r')
qed

text \<open>
   The close codes: for each error of a session the body of the close frame is read back by the
  peer as an error of the same family; a code of the application between 1 and 65535 that is no
  session error is sent as it is, and a negative error sends nothing.
\<close>

theorem ws_close_codes:
  "map (\<lambda>e. map_option close_error (closing_body e reason))
     [0, ERROR_SERVER, ERROR_UPDATE, ERROR_APPLICATION, ERROR_REJECTED, ERROR_IDLE, ERROR_PROTOCOL,
      ERROR_UNAVAILABLE, ERROR_UNFOUND, ERROR_UNSUPPORTED, ERROR_UNEXPECTED]
   = [Some 0, Some ERROR_SOCKET, Some ERROR_SOCKET, Some ERROR_PROTOCOL, Some ERROR_REJECTED,
      Some ERROR_PROTOCOL, Some ERROR_PROTOCOL, Some ERROR_UNSUPPORTED, Some ERROR_UNSUPPORTED,
      Some ERROR_UNSUPPORTED, Some ERROR_UNEXPECTED]
   \<and> (\<forall>e. 0 < e \<and> e < 65536 \<and> e \<notin> {100..109} \<longrightarrow> uint (ErrorToCode e) = e)
   \<and> (\<forall>e < 0. closing_body e reason = None)"
proof (intro conjI)
  have r: "br_read16 (net_reader (net16 v @ xs)) = (v, br_adv 2 (net_reader (net16 v @ xs)))" for v xs
    using c16.dec_net_reader[of v xs] by (simp add: length_net)
  show "map (\<lambda>e. map_option close_error (closing_body e reason))
     [0, ERROR_SERVER, ERROR_UPDATE, ERROR_APPLICATION, ERROR_REJECTED, ERROR_IDLE, ERROR_PROTOCOL,
      ERROR_UNAVAILABLE, ERROR_UNFOUND, ERROR_UNSUPPORTED, ERROR_UNEXPECTED]
   = [Some 0, Some ERROR_SOCKET, Some ERROR_SOCKET, Some ERROR_PROTOCOL, Some ERROR_REJECTED,
      Some ERROR_PROTOCOL, Some ERROR_PROTOCOL, Some ERROR_UNSUPPORTED, Some ERROR_UNSUPPORTED,
      Some ERROR_UNSUPPORTED, Some ERROR_UNEXPECTED]"
    by (simp add: closing_body_def close_error_def ErrorToCode_def session_error_defs r Let_def)
  show "\<forall>e. 0 < e \<and> e < 65536 \<and> e \<notin> {100..109} \<longrightarrow> uint (ErrorToCode e) = e"
  proof (intro allI impI)
    fix e :: int assume e: "0 < e \<and> e < 65536 \<and> e \<notin> {100..109}"
    then have "uint (word_of_int e :: u16) = e" by (simp add: unsigned_of_int take_bit_int_eq_self)
    with e show "uint (ErrorToCode e) = e"
      by (auto simp: ErrorToCode_def session_error_defs range_u16_def Let_def)
  qed
  show "\<forall>e < 0. closing_body e reason = None" by (simp add: closing_body_def)
qed

theorem ws_close_codes_witness: "uint (ErrorToCode 4001) = 4001 \<and> closing_body (- 1) None = None"
  using ws_close_codes[of None] by simp

end
