(* ===== verification/Media.thy ===== *)
theory Media
  imports Bytes
begin

text \<open>
  The media of the server: \<open>Media.h\<close> and \<open>Media.cpp\<close>.  The tags of an audio and of a video packet are
  records; codecs, frame types and data types are the integers of their enumerations, because the
  readers cast any byte to them.  \<open>Pack\<close> and \<open>Unpack\<close> are the header of a media packet inside the
  server's own protocol, and \<open>media_event\<close> the calls a reader makes on its \<open>Media::Source\<close>.
\<close>

section \<open>Tags\<close>

abbreviation VIDEO_CODEC_H264 :: u8 where "VIDEO_CODEC_H264 \<equiv> 7"
abbreviation VIDEO_CODEC_HEVC :: u8 where "VIDEO_CODEC_HEVC \<equiv> 12"

abbreviation AUDIO_CODEC_MP3 :: u8 where "AUDIO_CODEC_MP3 \<equiv> 2"
abbreviation AUDIO_CODEC_NELLYMOSER_16K :: u8 where "AUDIO_CODEC_NELLYMOSER_16K \<equiv> 4"
abbreviation AUDIO_CODEC_NELLYMOSER :: u8 where "AUDIO_CODEC_NELLYMOSER \<equiv> 6"
abbreviation AUDIO_CODEC_AAC :: u8 where "AUDIO_CODEC_AAC \<equiv> 10"
abbreviation AUDIO_CODEC_MP38K_FLV :: u8 where "AUDIO_CODEC_MP38K_FLV \<equiv> 14"

abbreviation FRAME_UNSPECIFIED :: u8 where "FRAME_UNSPECIFIED \<equiv> 0"
abbreviation FRAME_KEY :: u8 where "FRAME_KEY \<equiv> 1"
abbreviation FRAME_INTER :: u8 where "FRAME_INTER \<equiv> 2"
abbreviation FRAME_DISPOSABLE_INTER :: u8 where "FRAME_DISPOSABLE_INTER \<equiv> 3"
abbreviation FRAME_INFO :: u8 where "FRAME_INFO \<equiv> 5"
abbreviation FRAME_CONFIG :: u8 where "FRAME_CONFIG \<equiv> 7"

abbreviation DATA_TYPE_AMF :: u8 where "DATA_TYPE_AMF \<equiv> 1"

record video_tag =
  vt_time :: u32
  vt_codec :: u8
  vt_frame :: u8
  vt_composition :: u16

record audio_tag =
  at_time :: u32
  at_codec :: u8
  at_isConfig :: bool
  at_channels :: u8
  at_rate :: u32

text \<open>The constructors \<open>Tag(codec)\<close> and \<open>reset\<close>.\<close>

definition new_video_tag :: "u8 \<Rightarrow> video_tag" where
  "new_video_tag cdc = \<lparr>vt_time = 0, vt_codec = cdc, vt_frame = FRAME_UNSPECIFIED, vt_composition = 0\<rparr>"

definition video_tag_reset :: "video_tag \<Rightarrow> video_tag" where
  "video_tag_reset tag = tag\<lparr>vt_frame := FRAME_UNSPECIFIED, vt_composition := 0, vt_time := 0\<rparr>"

definition new_audio_tag :: "u8 \<Rightarrow> audio_tag" where
  "new_audio_tag cdc = \<lparr>at_time = 0, at_codec = cdc, at_isConfig = False, at_channels = 0, at_rate = 0\<rparr>"

definition audio_tag_reset :: "audio_tag \<Rightarrow> audio_tag" where
  "audio_tag_reset tag = tag\<lparr>at_time := 0, at_rate := 0, at_channels := 0, at_isConfig := False\<rparr>"

text \<open>\<open>Media::Audio::Config\<close> is null when its time is not 0.\<close>

record audio_config =
  ac_time :: u32
  ac_codec :: u8
  ac_channels :: u8
  ac_rate :: u32
  ac_packet :: bytes

definition audio_config_null :: "audio_config \<Rightarrow> bool" where
  "audio_config_null c \<longleftrightarrow> ac_time c \<noteq> 0"

definition audio_config_reset :: "audio_config \<Rightarrow> audio_config" where
  "audio_config_reset c = c\<lparr>ac_time := 1, ac_packet := []\<rparr>"

definition audio_config_set :: "audio_tag \<Rightarrow> bytes \<Rightarrow> audio_config \<Rightarrow> audio_config" where
  "audio_config_set tag packet c =
     c\<lparr>ac_time := 0, ac_codec := at_codec tag, ac_channels := at_channels tag, ac_rate := at_rate tag,
       ac_packet := packet\<rparr>"

section \<open>A media packet\<close>

datatype media_type = TYPE_NONE | TYPE_DATA | TYPE_AUDIO | TYPE_VIDEO

definition media_type_code :: "media_type \<Rightarrow> u8" where
  "media_type_code t = (case t of TYPE_NONE \<Rightarrow> 0 | TYPE_DATA \<Rightarrow> 1 | TYPE_AUDIO \<Rightarrow> 2 | TYPE_VIDEO \<Rightarrow> 3)"

text \<open>The argument the overloads of \<open>Pack\<close>, \<open>PackedSize\<close> and \<open>TagType\<close> are chosen by.\<close>

datatype media_tag = AudioTag audio_tag | VideoTag video_tag | DataTag u8

fun TagType :: "media_tag \<Rightarrow> media_type" where
  "TagType (AudioTag tag) = TYPE_AUDIO"
| "TagType (VideoTag tag) = TYPE_VIDEO"
| "TagType (DataTag type) = TYPE_DATA"

text \<open>\<open>Media::Base\<close> and its three subclasses.\<close>

datatype media =
    MediaBase bytes u8
  | MediaAudio audio_tag bytes u8
  | MediaVideo video_tag bytes u8
  | MediaData u8 bytes u8 bool

fun media_time :: "media \<Rightarrow> u32" where
  "media_time (MediaAudio tag packet track) = at_time tag"
| "media_time (MediaVideo tag packet track) = vt_time tag"
| "media_time _ = 0"

fun media_setTime :: "u32 \<Rightarrow> media \<Rightarrow> media" where
  "media_setTime time (MediaAudio tag packet track) = MediaAudio (tag\<lparr>at_time := time\<rparr>) packet track"
| "media_setTime time (MediaVideo tag packet track) = MediaVideo (tag\<lparr>vt_time := time\<rparr>) packet track"
| "media_setTime time m = m"

fun media_isConfig :: "media \<Rightarrow> bool" where
  "media_isConfig (MediaAudio tag packet track) = at_isConfig tag"
| "media_isConfig (MediaVideo tag packet track) = (vt_frame tag = FRAME_CONFIG)"
| "media_isConfig _ = False"

fun media_hasTime :: "media \<Rightarrow> bool" where
  "media_hasTime (MediaAudio tag packet track) = (\<not> media_isConfig (MediaAudio tag packet track))"
| "media_hasTime (MediaVideo tag packet track) = (\<not> media_isConfig (MediaVideo tag packet track))"
| "media_hasTime _ = False"

section \<open>The calls on a source\<close>

datatype media_event =
    WriteAudio audio_tag bytes u8
  | WriteVideo video_tag bytes u8
  | WriteData u8 bytes u8
  | AddProperties u8 u8 bytes
  | ReportLost media_type nat u8
  | SourceFlush
  | SourceReset

fun writeMedia :: "media \<Rightarrow> media_event list" where
  "writeMedia (MediaAudio tag packet track) = [WriteAudio tag packet track]"
| "writeMedia (MediaVideo tag packet track) = [WriteVideo tag packet track]"
| "writeMedia (MediaData type packet track isProperties) =
     (if isProperties then [AddProperties track type packet] else [WriteData type packet track])"
| "writeMedia (MediaBase packet track) = []"

section \<open>Packing a tag\<close>

text \<open>The map of \<open>Pack\<close>, from a rate to its index, and the array of \<open>Unpack\<close>.\<close>

definition pack_rates :: "(u32 \<times> u8) list" where
  "pack_rates = [(0, 0), (5512, 1), (7350, 2), (8000, 3), (11025, 4), (12000, 5), (16000, 6), (18900, 7),
     (22050, 8), (24000, 9), (32000, 10), (37800, 11), (44056, 12), (44100, 13), (47250, 14), (48000, 15),
     (50000, 16), (50400, 17), (64000, 18), (88200, 19), (96000, 20), (176400, 21), (192000, 22),
     (352800, 23), (2822400, 24), (5644800, 25)]"

definition unpack_rates :: "u32 list" where
  "unpack_rates = [0, 5512, 7350, 8000, 11025, 12000, 16000, 18900, 22050, 24000, 32000, 37800, 44056,
     44100, 47250, 48000, 50000, 50400, 64000, 88200, 96000, 176400, 192000, 352800, 2822400, 5644800,
     0, 0, 0, 0, 0, 0]"

fun PackedSize :: "media_tag \<Rightarrow> u8 \<Rightarrow> nat" where
  "PackedSize (AudioTag tag) track = (if track = 1 then 7 else 8)"
| "PackedSize (VideoTag tag) track =
     (if vt_composition tag \<noteq> 0 then (if track = 1 then 8 else 9) else (if track = 1 then 6 else 7))"
| "PackedSize (DataTag type) track = (if track \<noteq> 0 then 2 else 1)"

definition pack_audio :: "audio_tag \<Rightarrow> u8 \<Rightarrow> bytes" where
  "pack_audio tag track =
     (let value = (case map_of pack_rates (at_rate tag) of None \<Rightarrow> 0 | Some i \<Rightarrow> push_bit 3 i);
          value = (if at_isConfig tag then value OR 2 else value)
      in [push_bit 6 (media_type_code TYPE_AUDIO) OR (at_codec tag AND 0x3F), at_channels tag]
         @ (if track = 1 then [value] else [value OR 1, track])
         @ net32 (at_time tag))"

definition pack_video :: "video_tag \<Rightarrow> u8 \<Rightarrow> bytes" where
  "pack_video tag track =
     [push_bit 6 (media_type_code TYPE_VIDEO) OR (vt_codec tag AND 0x3F),
      push_bit 3 (vt_frame tag) OR (if vt_composition tag \<noteq> 0 then 2 else 0) OR (if track \<noteq> 1 then 1 else 0)]
     @ (if vt_composition tag \<noteq> 0 then net16 (vt_composition tag) else [])
     @ (if track \<noteq> 1 then [track] else [])
     @ net32 (vt_time tag)"

definition pack_data :: "u8 \<Rightarrow> u8 \<Rightarrow> bytes" where
  "pack_data type track =
     (if track = 0 then [type AND 0x3F] else [0x40 OR (type AND 0x3F), track])"

fun Pack :: "media_tag \<Rightarrow> u8 \<Rightarrow> bytes" where
  "Pack (AudioTag tag) track = pack_audio tag track"
| "Pack (VideoTag tag) track = pack_video tag track"
| "Pack (DataTag type) track = pack_data type track"

text \<open>
  \<open>Unpack\<close> fills the tag of the type it returns and leaves the other arguments as they are; the
  first argument holds the five references of the call.
\<close>

record unpacked =
  up_audio :: audio_tag
  up_video :: video_tag
  up_data :: u8
  up_track :: u8

definition unpack_track :: "u8 \<Rightarrow> breader \<Rightarrow> u8 \<times> breader" where
  "unpack_track value r = (if value AND 1 \<noteq> 0 \<and> br_available r \<noteq> 0 then br_read8 r else (1, r))"

definition unpack_audio :: "u8 \<Rightarrow> unpacked \<Rightarrow> breader \<Rightarrow> unpacked \<times> breader" where
  "unpack_audio value u r =
     (let cdc = value AND 0x3F;
          (channels, r) = br_read8 r;
          (value, r) = br_read8 r;
          rate = unpack_rates ! unat (drop_bit 3 value);
          (track, r) = unpack_track value r;
          (time, r) = br_read32 r
      in (u\<lparr>up_audio := \<lparr>at_time = time, at_codec = cdc, at_isConfig = (value AND 2 \<noteq> 0),
              at_channels = channels, at_rate = rate\<rparr>, up_track := track\<rparr>, r))"

definition unpack_video :: "u8 \<Rightarrow> unpacked \<Rightarrow> breader \<Rightarrow> unpacked \<times> breader" where
  "unpack_video value u r =
     (let cdc = value AND 0x3F;
          (value, r) = br_read8 r;
          (composition, r) = (if value AND 2 \<noteq> 0 then br_read16 r else (0, r));
          (track, r) = unpack_track value r;
          (time, r) = br_read32 r
      in (u\<lparr>up_video := \<lparr>vt_time = time, vt_codec = cdc, vt_frame = drop_bit 3 value,
              vt_composition = composition\<rparr>, up_track := track\<rparr>, r))"

definition Unpack :: "unpacked \<Rightarrow> breader \<Rightarrow> media_type \<times> unpacked \<times> breader" where
  "Unpack u r =
     (if br_available r = 0 then (TYPE_NONE, u, r)
      else let (value, r) = br_read8 r; type = drop_bit 6 value
           in if type = media_type_code TYPE_AUDIO then
                (if br_available r = 0 then (TYPE_NONE, u, r)
                 else let (u, r) = unpack_audio value u r in (TYPE_AUDIO, u, r))
              else if type = media_type_code TYPE_VIDEO then
                (if br_available r = 0 then (TYPE_NONE, u, r)
                 else let (u, r) = unpack_video value u r in (TYPE_VIDEO, u, r))
              else (let (track, r) = (if type = media_type_code TYPE_DATA then br_read8 r else (0, r))
                    in (TYPE_DATA, u\<lparr>up_track := track, up_data := value AND 0x3F\<rparr>, r)))"

section \<open>A packed tag is read back\<close>

text \<open>A word split in a high and a low field.\<close>

lemma field_high: "drop_bit n (push_bit n k OR (c AND mask n)) = (take_bit (LENGTH('a) - n) k :: 'a::len word)"
  by (rule bit_word_eqI) (auto simp: bit_simps)

lemma field_low: "m AND mask n = m \<Longrightarrow> (push_bit n k OR c) AND m = (c AND m :: 'a::len word)"
proof (rule bit_word_eqI)
  fix i
  assume m: "m AND mask n = m" "i < LENGTH('a)"
  then have "bit m i \<Longrightarrow> i < n" by (metis bit_and_iff bit_mask_iff)
  then show "bit ((push_bit n k OR c) AND m) i = bit (c AND m) i" by (auto simp: bit_simps)
qed

lemma type_field:
  assumes "k = 0 \<or> k = 1 \<or> k = 2 \<or> (k :: u8) = 3"
  shows "drop_bit 6 (push_bit 6 k OR (c AND 0x3F)) = k"
    and "(push_bit 6 k OR (c AND 0x3F)) AND 0x3F = c AND 0x3F"
proof -
  have m: "(0x3F :: u8) = mask 6" by (simp add: mask_eq_exp_minus_1)
  show "drop_bit 6 (push_bit 6 k OR (c AND 0x3F)) = k"
    unfolding m by (subst field_high) (use assms in auto)
  show "(push_bit 6 k OR (c AND 0x3F)) AND 0x3F = c AND 0x3F"
    unfolding m by (subst field_low) simp_all
qed

lemma and_3F_id: "unat (c :: u8) < 64 \<Longrightarrow> c AND 0x3F = c"
proof -
  have m: "(0x3F :: u8) = mask 6" by (simp add: mask_eq_exp_minus_1)
  assume "unat c < 64"
  then have "take_bit 6 c = c" by (intro take_bit_id_less) simp
  then show ?thesis unfolding m by (simp add: take_bit_eq_mask)
qed

text \<open>The flags byte: an index on five bits over three flags.\<close>

lemma index_field:
  assumes "unat (i :: u8) < 32" "f = 0 \<or> f = 1 \<or> f = 2 \<or> f = 3"
  shows "drop_bit 3 (push_bit 3 i OR f) = i"
    and "(push_bit 3 i OR f) AND 1 = f AND 1" "(push_bit 3 i OR f) AND 2 = f AND 2"
proof -
  have f: "f AND mask 3 = f" using assms(2) by (auto simp: mask_eq_exp_minus_1)
  have "drop_bit 3 (push_bit 3 i OR (f AND mask 3)) = take_bit 5 i" by (subst field_high) simp
  also have "take_bit 5 i = i" using assms(1) by (intro take_bit_id_less) simp
  finally show "drop_bit 3 (push_bit 3 i OR f) = i" by (simp only: f)
  show "(push_bit 3 i OR f) AND 1 = f AND 1" "(push_bit 3 i OR f) AND 2 = f AND 2"
    by (simp_all add: field_low mask_eq_exp_minus_1)
qed

lemma unpack_pack_rates:
  assumes "map_of pack_rates rate = Some i"
  shows "unat i < 32" and "unpack_rates ! unat i = rate"
proof -
  have "list_all (\<lambda>(rate, i). unat i < 32 \<and> unpack_rates ! unat i = rate) pack_rates"
    by (simp add: pack_rates_def unpack_rates_def)
  moreover have "(rate, i) \<in> set pack_rates" by (rule map_of_SomeD[OF assms])
  ultimately show "unat i < 32" "unpack_rates ! unat i = rate" by (auto simp: list_all_iff)
qed

definition flags_of :: "bool \<Rightarrow> bool \<Rightarrow> u8" where
  "flags_of two one = (if two then 2 else 0) OR (if one then 1 else 0)"

lemma flags_of_cases: "flags_of two one = 0 \<or> flags_of two one = 1 \<or> flags_of two one = 2 \<or> flags_of two one = 3"
  by (simp add: flags_of_def)

lemma flags_of_bits: "flags_of two one AND 1 = (if one then 1 else 0)" "flags_of two one AND 2 = (if two then 2 else 0)"
  by (simp_all add: flags_of_def)

lemma index_flags:
  assumes "unat i < 32"
  shows "drop_bit 3 (push_bit 3 i OR flags_of two one) = i"
    and "(push_bit 3 i OR flags_of two one) AND 1 = (if one then 1 else 0)"
    and "(push_bit 3 i OR flags_of two one) AND 2 = (if two then 2 else 0)"
  using index_field[OF assms flags_of_cases[of two one]] by (simp_all only: flags_of_bits)

definition rate_index :: "u32 \<Rightarrow> u8" where
  "rate_index rate = (case map_of pack_rates rate of None \<Rightarrow> 0 | Some i \<Rightarrow> i)"

lemma rate_index:
  "unat (rate_index rate) < 32"
  "unpack_rates ! unat (rate_index rate) = (if map_of pack_rates rate = None then 0 else rate)"
  using unpack_pack_rates[of rate]
  by (simp_all add: rate_index_def split: option.split) (simp_all add: unpack_rates_def)

lemma pack_audio_flags:
  "pack_audio tag track =
     [push_bit 6 2 OR (at_codec tag AND 0x3F), at_channels tag,
      push_bit 3 (rate_index (at_rate tag)) OR flags_of (at_isConfig tag) (track \<noteq> 1)]
     @ (if track \<noteq> 1 then [track] else []) @ net32 (at_time tag)"
  by (simp add: pack_audio_def rate_index_def flags_of_def media_type_code_def Let_def or.assoc
      split: option.split)

lemma pack_video_flags:
  "pack_video tag track =
     [push_bit 6 3 OR (vt_codec tag AND 0x3F),
      push_bit 3 (vt_frame tag) OR flags_of (vt_composition tag \<noteq> 0) (track \<noteq> 1)]
     @ (if vt_composition tag \<noteq> 0 then net16 (vt_composition tag) else [])
     @ (if track \<noteq> 1 then [track] else []) @ net32 (vt_time tag)"
  by (simp add: pack_video_def flags_of_def media_type_code_def or.assoc)

text \<open>The optional track and the time that end a header.\<close>

lemma unpack_track_time:
  assumes "br_net r" "br_rest r = (if track \<noteq> 1 then [track] else []) @ net32 time @ xs"
    and "value AND 1 = (if track \<noteq> 1 then 1 else 0)"
  shows "unpack_track value r = (track, br_adv (if track \<noteq> 1 then 1 else 0) r)"
    and "br_read32 (br_adv (if track \<noteq> 1 then 1 else 0) r) = (time, br_adv (if track \<noteq> 1 then 5 else 4) r)"
proof -
  have "br_available r \<noteq> 0" using assms(1,2) length_br_rest[of r] by (auto split: if_splits)
  then show "unpack_track value r = (track, br_adv (if track \<noteq> 1 then 1 else 0) r)"
    using assms by (auto simp: unpack_track_def br_read8_rest)
  have "br_net (br_adv (if track \<noteq> 1 then 1 else 0) r)"
    using assms(1,2) by (auto intro!: br_wf_adv)
  moreover have "br_rest (br_adv (if track \<noteq> 1 then 1 else 0) r) = net32 time @ xs"
    using assms(2) by auto
  ultimately show "br_read32 (br_adv (if track \<noteq> 1 then 1 else 0) r) = (time, br_adv (if track \<noteq> 1 then 5 else 4) r)"
    using c32.dec_enc[of "br_adv (if track \<noteq> 1 then 1 else 0) r" time xs] by auto
qed


text \<open>The tags a header can hold, and what reading one back fills.\<close>

fun packable :: "media_tag \<Rightarrow> bool" where
  "packable (AudioTag tag) \<longleftrightarrow> unat (at_codec tag) < 64"
| "packable (VideoTag tag) \<longleftrightarrow> unat (vt_codec tag) < 64 \<and> unat (vt_frame tag) < 32"
| "packable (DataTag type) \<longleftrightarrow> unat type < 64"

fun unpack_into :: "media_tag \<Rightarrow> u8 \<Rightarrow> unpacked \<Rightarrow> unpacked" where
  "unpack_into (AudioTag tag) track u =
     u\<lparr>up_audio := tag\<lparr>at_rate := (if map_of pack_rates (at_rate tag) = None then 0 else at_rate tag)\<rparr>,
       up_track := track\<rparr>"
| "unpack_into (VideoTag tag) track u = u\<lparr>up_video := tag, up_track := track\<rparr>"
| "unpack_into (DataTag type) track u = u\<lparr>up_data := type, up_track := track\<rparr>"

lemma unpack_audio_pack:
  assumes "unat (at_codec tag) < 64" "br_net r"
    "br_rest r = at_channels tag # (push_bit 3 (rate_index (at_rate tag)) OR flags_of (at_isConfig tag) (track \<noteq> 1))
       # (if track \<noteq> 1 then [track] else []) @ net32 (at_time tag) @ xs"
  shows "unpack_audio (push_bit 6 2 OR (at_codec tag AND 0x3F)) u r =
     (unpack_into (AudioTag tag) track u, br_adv (if track \<noteq> 1 then 7 else 6) r)"
proof -
  let ?v = "push_bit 3 (rate_index (at_rate tag)) OR flags_of (at_isConfig tag) (track \<noteq> 1)"
  have r1: "br_net (br_adv 1 r)" "br_net (br_adv 2 r)" using assms(2,3) by (auto intro!: br_wf_adv)
  have r2: "br_rest (br_adv 2 r) = (if track \<noteq> 1 then [track] else []) @ net32 (at_time tag) @ xs"
    using assms(3) by simp
  note i = index_flags[OF rate_index(1), of "at_rate tag" "at_isConfig tag" "track \<noteq> 1"]
  have r8: "br_read8 r = (at_channels tag, br_adv 1 r)" "br_read8 (br_adv 1 r) = (?v, br_adv 2 r)"
    using assms(2,3) r1 by (simp_all add: br_read8_rest numeral_2_eq_2)
  have c: "(push_bit 6 2 OR (at_codec tag AND 0x3F)) AND 0x3F = at_codec tag"
    using type_field(2)[of 2 "at_codec tag"] assms(1) by (simp add: and_3F_id)
  note t = unpack_track_time[OF r1(2) r2 i(2)]
  show ?thesis
    unfolding unpack_audio_def c r8 Let_def prod.case i t by (simp add: rate_index(2))
qed

lemma unpack_video_pack:
  assumes "packable (VideoTag tag)" "br_net r"
    "br_rest r = (push_bit 3 (vt_frame tag) OR flags_of (vt_composition tag \<noteq> 0) (track \<noteq> 1))
       # (if vt_composition tag \<noteq> 0 then net16 (vt_composition tag) else [])
       @ (if track \<noteq> 1 then [track] else []) @ net32 (vt_time tag) @ xs"
  shows "unpack_video (push_bit 6 3 OR (vt_codec tag AND 0x3F)) u r =
     (unpack_into (VideoTag tag) track u,
      br_adv ((if vt_composition tag \<noteq> 0 then 3 else 1) + (if track \<noteq> 1 then 5 else 4)) r)"
proof -
  let ?v = "push_bit 3 (vt_frame tag) OR flags_of (vt_composition tag \<noteq> 0) (track \<noteq> 1)"
  define k :: nat where "k = (if vt_composition tag \<noteq> 0 then 3 else 1)"
  have r1: "br_net (br_adv 1 r)" "br_net (br_adv k r)" using assms(2,3) by (auto intro!: br_wf_adv simp: k_def)
  have rk: "br_rest (br_adv k r) = (if track \<noteq> 1 then [track] else []) @ net32 (vt_time tag) @ xs"
    using assms(3) by (auto simp: k_def)
  have f: "unat (vt_frame tag) < 32" using assms(1) by simp
  note i = index_flags[OF f, of "vt_composition tag \<noteq> 0" "track \<noteq> 1"]
  have r8: "br_read8 r = (?v, br_adv 1 r)" using assms(2,3) by (simp add: br_read8_rest)
  have c: "(push_bit 6 3 OR (vt_codec tag AND 0x3F)) AND 0x3F = vt_codec tag"
    using type_field(2)[of 3 "vt_codec tag"] assms(1) by (simp add: and_3F_id)
  have o: "(if ?v AND 2 \<noteq> 0 then br_read16 (br_adv 1 r) else (0, br_adv 1 r)) = (vt_composition tag, br_adv k r)"
    using c16.dec_enc[of "br_adv 1 r" "vt_composition tag"] r1(1) assms(3) unfolding i k_def by (auto simp: numeral_3_eq_3)
  note t = unpack_track_time[OF r1(2) rk i(2)]
  show ?thesis
    unfolding unpack_video_def c r8 Let_def prod.case o t i(1) by (simp add: k_def)
qed

lemma Unpack_Pack:
  assumes "packable m" "br_net r" "br_rest r = Pack m track @ xs"
  shows "Unpack u r = (TagType m, unpack_into m track u, br_adv (PackedSize m track) r)"
proof (cases m)
  case (AudioTag tag)
  have r: "br_rest r = (push_bit 6 2 OR (at_codec tag AND 0x3F)) # drop 1 (Pack m track @ xs)"
    using assms(3) by (simp add: AudioTag pack_audio_flags)
  have a: "br_available r \<noteq> 0" "br_available (br_adv 1 r) \<noteq> 0" "br_net (br_adv 1 r)"
    using assms(2,3) length_br_rest[of r] length_br_rest[of "br_adv 1 r"] br_wf_adv[of r 1]
    by (auto simp: AudioTag pack_audio_flags)
  have "unpack_audio (push_bit 6 2 OR (at_codec tag AND 0x3F)) u (br_adv 1 r) =
      (unpack_into m track u, br_adv (if track \<noteq> 1 then 7 else 6) (br_adv 1 r))"
    using assms a(3) unfolding AudioTag by (intro unpack_audio_pack) (simp_all add: pack_audio_flags)
  then show ?thesis
    using a r assms(2) by (simp add: Unpack_def br_read8_rest type_field media_type_code_def Let_def AudioTag)
next
  case (VideoTag tag)
  have r: "br_rest r = (push_bit 6 3 OR (vt_codec tag AND 0x3F)) # drop 1 (Pack m track @ xs)"
    using assms(3) by (simp add: VideoTag pack_video_flags)
  have a: "br_available r \<noteq> 0" "br_available (br_adv 1 r) \<noteq> 0" "br_net (br_adv 1 r)"
    using assms(2,3) length_br_rest[of r] length_br_rest[of "br_adv 1 r"] br_wf_adv[of r 1]
    by (auto simp: VideoTag pack_video_flags)
  have "unpack_video (push_bit 6 3 OR (vt_codec tag AND 0x3F)) u (br_adv 1 r) =
      (unpack_into m track u,
       br_adv ((if vt_composition tag \<noteq> 0 then 3 else 1) + (if track \<noteq> 1 then 5 else 4)) (br_adv 1 r))"
    using assms a(3) unfolding VideoTag by (intro unpack_video_pack) (simp_all add: pack_video_flags)
  then show ?thesis
    using a r assms(2) by (simp add: Unpack_def br_read8_rest type_field media_type_code_def Let_def VideoTag)
next
  case (DataTag type)
  have p: "type AND 0x3F = type" using assms(1) by (simp add: DataTag and_3F_id)
  have z: "drop_bit 6 type = 0" "type AND 0x3F = type" using type_field(1)[of 0 type] p by simp_all
  have o: "drop_bit 6 (0x40 OR type) = 1" "(0x40 OR type) AND 0x3F = type"
    using type_field[of 1 type] p by (simp_all add: push_bit_eq_mult)
  have a: "br_available r \<noteq> 0" using assms(2,3) length_br_rest[of r] by (auto simp: DataTag pack_data_def split: if_splits)
  have m: "media_type_code TYPE_AUDIO = 2" "media_type_code TYPE_VIDEO = 3" "media_type_code TYPE_DATA = 1"
    by (simp_all add: media_type_code_def)
  show ?thesis
  proof (cases "track = 0")
    case True
    then have "br_read8 r = (type, br_adv 1 r)"
      using assms(2,3) by (simp add: br_read8_rest DataTag pack_data_def p)
    then show ?thesis using a z True by (simp add: Unpack_def DataTag m)
  next
    case False
    have "br_read8 r = (0x40 OR type, br_adv 1 r)" "br_read8 (br_adv 1 r) = (track, br_adv 2 r)"
      using assms(2,3) False br_wf_adv[of r 1]
      by (simp_all add: br_read8_rest DataTag pack_data_def p numeral_2_eq_2)
    then show ?thesis using a o False by (simp add: Unpack_def DataTag m)
  qed
qed

text \<open>
  C18. The media header of the server's own protocol loses nothing: \<open>Unpack\<close> on what \<open>Pack\<close> wrote,
  whatever follows, returns the type of the tag, fills the tag and the track that were packed (an
  audio rate out of the table comes back as 0, which means to take it from the config packet), leaves
  the other references as they were, and advances by exactly \<open>PackedSize\<close> bytes.
\<close>

theorem media_pack_roundtrip:
  assumes "packable m"
  shows "Unpack u (net_reader (Pack m track @ xs)) =
    (TagType m, unpack_into m track u, br_adv (PackedSize m track) (net_reader (Pack m track @ xs)))"
  by (rule Unpack_Pack[OF assms]) simp_all

theorem media_pack_roundtrip_witness:
  "packable (VideoTag \<lparr>vt_time = 1000, vt_codec = 7, vt_frame = FRAME_KEY, vt_composition = 40\<rparr>) \<and>
   (\<forall>u. Unpack u (net_reader (Pack (VideoTag \<lparr>vt_time = 1000, vt_codec = 7, vt_frame = FRAME_KEY,
       vt_composition = 40\<rparr>) 2 @ [0xAA])) =
     (TYPE_VIDEO, u\<lparr>up_video := \<lparr>vt_time = 1000, vt_codec = 7, vt_frame = FRAME_KEY, vt_composition = 40\<rparr>,
        up_track := 2\<rparr>,
      br_adv 9 (net_reader (Pack (VideoTag \<lparr>vt_time = 1000, vt_codec = 7, vt_frame = FRAME_KEY,
       vt_composition = 40\<rparr>) 2 @ [0xAA]))))"
  using media_pack_roundtrip[of "VideoTag \<lparr>vt_time = 1000, vt_codec = 7, vt_frame = FRAME_KEY, vt_composition = 40\<rparr>"
      _ 2 "[0xAA]"] by simp

end
