(* ===== verification/Subscription.thy ===== *)
theory Subscription
  imports Media
begin

text \<open>
  \<open>Subscription\<close>: what a player gets of a publication.  The model has the subscription of a target to one
  publication, without a next one (multi bitrate) and without a \<open>format\<close>: the start, the tracks and their
  times, the wait of a first key frame with the medias buffered meanwhile, congestion, duration, ejection,
  reset and the parameters, given by the value their text is read as.  The target is a parameter: what it
  answers is in \<open>sub_env\<close>, the calls it gets are the outputs.  An operation is \<open>None\<close> when it does not
  return (\<open>su_reset\<close> below can recurse for ever).
\<close>

section \<open>Distances and congestion\<close>

text \<open>\<open>Util::Distance\<close> on \<open>UInt32\<close>: the shortest way from \<open>a\<close> to \<open>b\<close> on the circle.\<close>

definition distance :: "u32 \<Rightarrow> u32 \<Rightarrow> int" where
  "distance a b =
     (let result = sint (b - a) in if \<bar>result\<bar> > 2147483648 then sint (a - b) else result)"

abbreviation RTO_INIT :: u32 where "RTO_INIT \<equiv> 3000"
abbreviation RTO_MAX :: u32 where "RTO_MAX \<equiv> 10000"

text \<open>A time is set when it is not 0.\<close>

record congestion =
  cg_lastQueueing :: u64
  cg_congested :: int

definition new_congestion :: congestion where
  "new_congestion = \<lparr>cg_lastQueueing = 0, cg_congested = 0\<rparr>"

definition congestion_set :: "int \<Rightarrow> u64 \<Rightarrow> congestion \<Rightarrow> congestion" where
  "congestion_set now queueing c =
     (let congested = (queueing \<noteq> 0 \<and> queueing > cg_lastQueueing c)
      in \<lparr>cg_lastQueueing = queueing,
          cg_congested = (if congested then (if cg_congested c = 0 then now else cg_congested c) else 0)\<rparr>)"

text \<open>The duration of a congestion over \<open>duration\<close>, 0 otherwise; \<open>range<UInt32>\<close> truncates.\<close>

definition congestion_get :: "int \<Rightarrow> u32 \<Rightarrow> congestion \<Rightarrow> u32" where
  "congestion_get now duration c =
     (if cg_congested c = 0 then 0
      else let elapsed = max (now - cg_congested c) 1
           in if elapsed > uint duration then word_of_int elapsed else 0)"

section \<open>Tracks\<close>

record media_track =
  tk_started :: bool
  tk_lastTime :: u32

record video_track = media_track +
  tk_waitKeyFrame :: u8

definition new_media_track :: media_track where
  "new_media_track = \<lparr>tk_started = False, tk_lastTime = 0\<rparr>"

definition new_video_track :: video_track where
  "new_video_track = \<lparr>tk_started = False, tk_lastTime = 0, tk_waitKeyFrame = 1\<rparr>"

definition track_setLastTime :: "u32 \<Rightarrow> 'a media_track_scheme \<Rightarrow> bool \<times> 'a media_track_scheme" where
  "track_setLastTime time t =
     (if tk_started t \<and> distance (tk_lastTime t) time < 0 then (False, t)
      else (True, t\<lparr>tk_lastTime := time, tk_started := True\<rparr>))"

record 'a tracks =
  tr_list :: "'a list"
  tr_reliable :: bool
  tr_dropped :: u32
  tr_multiTracks :: bool
  tr_selection :: "u8 option"

record 'a media_tracks = "'a tracks" +
  tr_lastTime :: u32

definition new_tracks :: "bool \<Rightarrow> 'a tracks" where
  "new_tracks multi = \<lparr>tr_list = [], tr_reliable = True, tr_dropped = 0, tr_multiTracks = multi, tr_selection = None\<rparr>"

definition new_media_tracks :: "bool \<Rightarrow> 'a media_tracks" where
  "new_media_tracks multi =
     \<lparr>tr_list = [], tr_reliable = True, tr_dropped = 0, tr_multiTracks = multi, tr_selection = None, tr_lastTime = 0\<rparr>"

definition data_selected :: "('a, 'b) tracks_scheme \<Rightarrow> u8 \<Rightarrow> bool" where
  "data_selected t track = (case tr_selection t of Some n \<Rightarrow> n = track | None \<Rightarrow> tr_multiTracks t \<or> track = 0)"

definition media_selected :: "('a, 'b) tracks_scheme \<Rightarrow> u8 \<Rightarrow> bool" where
  "media_selected t track = (case tr_selection t of Some n \<Rightarrow> n = track | None \<Rightarrow> tr_multiTracks t \<or> track \<le> 1)"

text \<open>\<open>operator[]\<close> makes the track, numbered from 1, when it is not there.\<close>

definition grow :: "'c \<Rightarrow> u8 \<Rightarrow> 'c list \<Rightarrow> 'c list" where
  "grow new track ts = ts @ replicate (unat track - length ts) new"

definition tracks_clear :: "('a, 'b) tracks_scheme \<Rightarrow> ('a, 'b) tracks_scheme" where
  "tracks_clear t = t\<lparr>tr_list := [], tr_dropped := 0\<rparr>"

definition tracks_setLastTime :: "'a media_track_scheme \<Rightarrow> u8 \<Rightarrow> u32 \<Rightarrow> 'a media_track_scheme media_tracks
    \<Rightarrow> bool \<times> 'a media_track_scheme media_tracks" where
  "tracks_setLastTime new track time t =
     (if track = 0 then (True, t\<lparr>tr_lastTime := time\<rparr>)
      else let ts = grow new track (tr_list t); i = unat track - 1;
               (ok, tk) = track_setLastTime time (ts ! i);
               t = t\<lparr>tr_list := ts[i := tk]\<rparr>
           in if ok then (True, t\<lparr>tr_lastTime := time\<rparr>) else (False, t))"

section \<open>The subscription\<close>

datatype ejected = EJECTED_NONE | EJECTED_BANDWITDH | EJECTED_ERROR

datatype target_event =
    TBegin
  | TProperties
  | TAudio u8 audio_tag bytes bool
  | TVideo u8 video_tag bytes bool
  | TData u8 u8 bytes bool
  | TEnd
  | TFlush

text \<open>The text of the parameter \<open>time\<close>, by its first character; a number that cannot be read is 0.\<close>

datatype time_param = TimeMinus u32 | TimePlus u32 | TimeAbsolute | TimeRelative | TimeAt u32 | TimeInvalid

record subscription =
  su_ejected :: ejected
  su_streaming :: int
  su_updating :: bool
  su_congestion :: congestion
  su_waitingFirstVideoSync :: int
  su_firstTime :: bool
  su_startTime :: u32
  su_seekTime :: u32
  su_fromTime :: "u32 option"
  su_duration :: u32
  su_timeout :: u32
  su_from :: "u32 option"
  su_time :: "time_param option"
  su_audios :: "media_track media_tracks"
  su_videos :: "video_track media_tracks"
  su_datas :: "unit tracks"
  su_medias :: "media list"
  su_flushable :: u32

text \<open>
  What an operation finds: the clock, the answers of the target, and of the publication whether it runs,
  has properties, and the configurations of its tracks (a configuration of video without packet is null).
\<close>

record sub_env =
  en_now :: int
  en_queueing :: u64
  en_begin :: bool
  en_write :: "target_event \<Rightarrow> bool"
  en_end :: bool
  en_publishing :: bool
  en_properties :: bool
  en_audios :: "audio_config list"
  en_videos :: "(video_tag \<times> bytes) list"

text \<open>A new subscription: \<open>multi\<close> is false for a target of one track.\<close>

definition new_subscription :: "int \<Rightarrow> bool \<Rightarrow> subscription" where
  "new_subscription now multi =
     \<lparr>su_ejected = EJECTED_NONE, su_streaming = 0, su_updating = False, su_congestion = new_congestion,
      su_waitingFirstVideoSync = now, su_firstTime = True, su_startTime = 0, su_seekTime = 0, su_fromTime = None,
      su_duration = 0, su_timeout = 0, su_from = None, su_time = None, su_audios = new_media_tracks multi,
      su_videos = new_media_tracks multi, su_datas = new_tracks multi, su_medias = [], su_flushable = 0\<rparr>"

text \<open>An operation: the subscription it leaves, the calls on the target and its result.\<close>

type_synonym 'a su = "(subscription \<times> target_event list \<times> 'a) option"

definition su_ret :: "subscription \<Rightarrow> 'a \<Rightarrow> 'a su" where
  "su_ret s x = Some (s, [], x)"

definition su_bind :: "'a su \<Rightarrow> (subscription \<Rightarrow> 'a \<Rightarrow> 'b su) \<Rightarrow> 'b su" where
  "su_bind m f =
     (case m of None \<Rightarrow> None
      | Some (s, es, x) \<Rightarrow> map_option (\<lambda>(s, es', y). (s, es @ es', y)) (f s x))"

definition su_currentTime :: "subscription \<Rightarrow> u32" where
  "su_currentTime s =
     (if tr_list (su_videos s) = [] then (if tr_list (su_audios s) = [] then su_seekTime s else tr_lastTime (su_audios s))
      else if distance (tr_lastTime (su_audios s)) (tr_lastTime (su_videos s)) > 0 then tr_lastTime (su_audios s)
      else tr_lastTime (su_videos s))"

definition su_lastTime :: "subscription \<Rightarrow> u32" where
  "su_lastTime s =
     (if tr_list (su_audios s) = [] then (if tr_list (su_videos s) = [] then su_seekTime s else tr_lastTime (su_videos s))
      else if distance (tr_lastTime (su_audios s)) (tr_lastTime (su_videos s)) > 0 then tr_lastTime (su_videos s)
      else tr_lastTime (su_audios s))"

text \<open>\<open>_medias\<close> without a next publication; it is left alone while it flushes.\<close>

definition medias_clear :: "bool \<Rightarrow> subscription \<Rightarrow> subscription" where
  "medias_clear flushing s = (if flushing then s else s\<lparr>su_medias := []\<rparr>)"

definition medias_clear_until :: "bool \<Rightarrow> u32 \<Rightarrow> subscription \<Rightarrow> subscription" where
  "medias_clear_until flushing time s =
     (if flushing then s
      else s\<lparr>su_medias := dropWhile (\<lambda>m. \<not> (media_hasTime m \<and> distance (media_time m) time \<le> 0)) (su_medias s)\<rparr>)"

definition medias_add :: "bool \<Rightarrow> media \<Rightarrow> subscription \<Rightarrow> subscription \<times> bool" where
  "medias_add flushing m s =
     (if flushing then (s, False)
      else if \<not> media_hasTime m \<and> su_medias s = [] then (s, False)
      else (s\<lparr>su_medias := su_medias s @ [m]\<rparr>, True))"

definition su_clear :: "subscription \<Rightarrow> subscription" where
  "su_clear s =
     s\<lparr>su_firstTime := True, su_startTime := 0, su_streaming := 0, su_updating := False,
       su_audios := tracks_clear (su_audios s), su_videos := tracks_clear (su_videos s), su_datas := tracks_clear (su_datas s)\<rparr>"

text \<open>\<open>reset\<close>, with \<open>parseFromTime(getString("from"))\<close> inlined: it calls \<open>reset\<close> when the time is to come.\<close>

partial_function (option) su_reset :: "bool \<Rightarrow> sub_env \<Rightarrow> subscription \<Rightarrow> unit su" where
  "su_reset flushing env s =
     (let s = (if su_ejected s \<noteq> EJECTED_NONE then s\<lparr>su_waitingFirstVideoSync := en_now env\<rparr> else s);
          s = s\<lparr>su_ejected := EJECTED_NONE\<rparr>
      in if su_streaming s = 0 then Some (s, [], ())
         else let s = medias_clear flushing s
              in Option.bind
                   (case su_from s of
                      None \<Rightarrow> Some (s\<lparr>su_fromTime := None\<rparr>, [], ())
                    | Some from \<Rightarrow>
                        let s = s\<lparr>su_fromTime := Some from\<rparr>
                        in if distance (su_lastTime s) from > 0 then su_reset flushing env s else Some (s, [], ()))
                   (\<lambda>(s, es, _). Some (su_clear (s\<lparr>su_seekTime := 0\<rparr>), es @ [TEnd] @ (if en_end env then [TFlush] else []), ())))"

declare su_reset.simps [code]

definition parseFromTime :: "bool \<Rightarrow> sub_env \<Rightarrow> u32 option \<Rightarrow> subscription \<Rightarrow> unit su" where
  "parseFromTime flushing env time s =
     (case time of
        None \<Rightarrow> Some (s\<lparr>su_fromTime := None\<rparr>, [], ())
      | Some from \<Rightarrow>
          let s = s\<lparr>su_fromTime := Some from\<rparr>
          in if distance (su_lastTime s) from > 0 then su_reset flushing env s else Some (s, [], ()))"

definition parseTime :: "time_param option \<Rightarrow> subscription \<Rightarrow> subscription" where
  "parseTime time s =
     (if su_firstTime s then s
      else case time of
             None \<Rightarrow> s
           | Some t \<Rightarrow>
               s\<lparr>su_seekTime :=
                   (case t of
                      TimeMinus n \<Rightarrow> su_startTime s - n
                    | TimePlus n \<Rightarrow> n + su_startTime s
                    | TimeAbsolute \<Rightarrow> su_startTime s
                    | TimeRelative \<Rightarrow> 0
                    | TimeAt n \<Rightarrow> n + su_currentTime (s\<lparr>su_seekTime := n\<rparr>)
                    | TimeInvalid \<Rightarrow> 0)\<rparr>)"

definition insideDuration :: "bool \<Rightarrow> sub_env \<Rightarrow> u32 \<Rightarrow> subscription \<Rightarrow> bool su" where
  "insideDuration flushing env time s =
     (if su_duration s = 0 \<or> su_firstTime s then su_ret s True
      else let duration = time - su_startTime s
           in if duration < su_duration s then su_ret s True
              else if duration - su_duration s > 10000 then su_bind (su_reset flushing env s) (\<lambda>s _. su_ret s False)
              else su_ret s False)"

section \<open>Start\<close>

text \<open>\<open>writeToTarget\<close>: the flush is the one of the target, which does not update the congestion.\<close>

definition writeToTarget :: "sub_env \<Rightarrow> target_event \<Rightarrow> bytes \<Rightarrow> subscription \<Rightarrow> bool su" where
  "writeToTarget env e packet s =
     (if \<not> en_write env e then Some (s, [e], False)
      else let (s, es) = (if su_flushable s \<ge> 1200 then (s\<lparr>su_flushable := 0\<rparr>, [TFlush]) else (s, []))
           in Some (s\<lparr>su_flushable := su_flushable s + of_nat (length packet)\<rparr>, e # es, True))"

definition eject_unless :: "bool \<Rightarrow> subscription \<Rightarrow> subscription" where
  "eject_unless ok s = (if ok then s else s\<lparr>su_ejected := EJECTED_ERROR\<rparr>)"

definition su_congested :: "sub_env \<Rightarrow> subscription \<Rightarrow> u32" where
  "su_congested env s = congestion_get (en_now env) RTO_INIT (su_congestion s)"

text \<open>
  \<open>scaleTime\<close>: on the first media that is not a configuration the time line begins, and what was buffered
  before its time is dropped, the rest played (\<open>flush\<close>).
\<close>

definition scaleTime :: "(subscription \<Rightarrow> unit su) \<Rightarrow> bool \<Rightarrow> u32 \<Rightarrow> bool \<Rightarrow> subscription \<Rightarrow> u32 su" where
  "scaleTime flush flushing time isConfig s =
     (if su_firstTime s \<and> \<not> isConfig then
        (let s = s\<lparr>su_firstTime := False\<rparr>;
             s = (if su_seekTime s \<noteq> 0 then s\<lparr>su_startTime := time - su_seekTime s, su_seekTime := 0\<rparr>
                  else parseTime (su_time s) (s\<lparr>su_startTime := time\<rparr>));
             s = medias_clear_until flushing time (s\<lparr>su_fromTime := Some time\<rparr>)
         in su_bind (flush s) (\<lambda>s _. su_ret s (time - su_startTime s + su_seekTime s)))
      else su_ret s ((if su_firstTime s then 0 else time) - su_startTime s + su_seekTime s))"

text \<open>\<open>writeAudio\<close> behind \<open>start\<close>.\<close>

definition wait_video :: "sub_env \<Rightarrow> (subscription \<Rightarrow> subscription \<times> bool) \<Rightarrow> subscription \<Rightarrow> subscription \<times> bool" where
  "wait_video env add s =
     (if su_waitingFirstVideoSync s = 0 then (s, False)
      else if en_now env - su_waitingFirstVideoSync s > 1000 then (s\<lparr>su_waitingFirstVideoSync := 0\<rparr>, False)
      else add s)"

definition audio_body :: "(subscription \<Rightarrow> unit su) \<Rightarrow> bool \<Rightarrow> sub_env \<Rightarrow> audio_tag \<Rightarrow> bytes \<Rightarrow> u8 \<Rightarrow> subscription \<Rightarrow> unit su" where
  "audio_body flush flushing env tag packet track s =
     (if \<not> media_selected (su_audios s) track then su_ret s ()
      else
        let (s, buffered) =
              (if track = 0 then (s, False)
               else wait_video env (medias_add flushing (MediaAudio tag packet track))
                      (s\<lparr>su_audios := (su_audios s)\<lparr>tr_list := grow new_media_track track (tr_list (su_audios s))\<rparr>\<rparr>));
            congestion = su_congested env s
        in if buffered then su_ret s ()
           else if congestion \<noteq> 0 \<and> (tr_reliable (su_audios s) \<or> congestion \<ge> RTO_MAX)
             then su_ret (s\<lparr>su_ejected := EJECTED_BANDWITDH\<rparr>) ()
           else if congestion \<noteq> 0 \<and> \<not> at_isConfig tag
             then su_ret (s\<lparr>su_audios := (su_audios s)\<lparr>tr_dropped := tr_dropped (su_audios s) + 1\<rparr>\<rparr>) ()
           else su_bind (scaleTime flush flushing (at_time tag) (at_isConfig tag) s) (\<lambda>s time.
                  su_bind (writeToTarget env (TAudio track (tag\<lparr>at_time := time\<rparr>) packet (tr_reliable (su_audios s) \<or> at_isConfig tag)) packet s)
                    (\<lambda>s ok. su_ret (eject_unless ok s) ())))"

definition set_wait :: "u8 \<Rightarrow> u8 \<Rightarrow> subscription \<Rightarrow> subscription" where
  "set_wait track n s =
     s\<lparr>su_videos := (su_videos s)\<lparr>tr_list := (tr_list (su_videos s))[unat track - 1 := (tr_list (su_videos s) ! (unat track - 1))\<lparr>tk_waitKeyFrame := n\<rparr>]\<rparr>\<rparr>"

definition video_wait :: "u8 \<Rightarrow> subscription \<Rightarrow> u8" where
  "video_wait track s = tk_waitKeyFrame (tr_list (su_videos s) ! (unat track - 1))"

definition video_drop :: "subscription \<Rightarrow> subscription" where
  "video_drop s = s\<lparr>su_videos := (su_videos s)\<lparr>tr_dropped := tr_dropped (su_videos s) + 1\<rparr>\<rparr>"

text \<open>The key frame of a track: \<open>True\<close> when the frame goes on.\<close>

definition video_key :: "bool \<Rightarrow> u8 \<Rightarrow> u8 \<Rightarrow> subscription \<Rightarrow> subscription \<times> bool" where
  "video_key flushing frame track s =
     (if frame = FRAME_KEY then
        ((if track \<noteq> 0 \<and> video_wait track s \<noteq> 0 then set_wait track 0 s else s)\<lparr>su_waitingFirstVideoSync := 0\<rparr>, True)
      else if track \<noteq> 0 \<and> video_wait track s \<noteq> 0 then
        (let s = video_drop (medias_clear flushing s)
         in (if video_wait track s > 1 then s else set_wait track 2 s, False))
      else (s, True))"

definition video_body :: "(subscription \<Rightarrow> unit su) \<Rightarrow> bool \<Rightarrow> sub_env \<Rightarrow> video_tag \<Rightarrow> bytes \<Rightarrow> u8 \<Rightarrow> subscription \<Rightarrow> unit su" where
  "video_body flush flushing env tag packet track s =
     (if \<not> media_selected (su_videos s) track
      then su_ret (if track \<noteq> 0 \<and> unat track \<le> length (tr_list (su_videos s)) then set_wait track 1 s else s) ()
      else
        let s = (if track = 0 then s
                 else s\<lparr>su_videos := (su_videos s)\<lparr>tr_list := grow new_video_track track (tr_list (su_videos s))\<rparr>\<rparr>);
            s = (if packet \<noteq> [] \<and> su_waitingFirstVideoSync s \<noteq> 0 then s\<lparr>su_waitingFirstVideoSync := en_now env\<rparr> else s);
            isConfig = (vt_frame tag = FRAME_CONFIG);
            (s, go) = (if \<not> isConfig then video_key flushing (vt_frame tag) track s else (s, packet \<noteq> []));
            congestion = su_congested env s
        in if \<not> go then su_ret s ()
           else if congestion \<noteq> 0 \<and> (tr_reliable (su_videos s) \<or> congestion \<ge> RTO_MAX)
             then su_ret (s\<lparr>su_ejected := EJECTED_BANDWITDH\<rparr>) ()
           else if congestion \<noteq> 0 \<and> \<not> isConfig
             then su_ret (if track \<noteq> 0 then set_wait track 1 (video_drop s) else video_drop s) ()
           else su_bind (scaleTime flush flushing (vt_time tag) isConfig s) (\<lambda>s time.
                  su_bind (writeToTarget env (TVideo track (tag\<lparr>vt_time := time\<rparr>) packet (tr_reliable (su_videos s) \<or> isConfig)) packet s)
                    (\<lambda>s ok. su_ret (eject_unless ok s) ())))"

definition data_body :: "bool \<Rightarrow> sub_env \<Rightarrow> u8 \<Rightarrow> bytes \<Rightarrow> u8 \<Rightarrow> subscription \<Rightarrow> unit su" where
  "data_body flushing env type packet track s =
     (if \<not> data_selected (su_datas s) track then su_ret s ()
      else
        let (s, buffered) =
              (if track = 0 then (s, False)
               else wait_video env (\<lambda>s. if su_medias s \<noteq> [] then medias_add flushing (MediaData type packet track False) s else (s, False))
                      (s\<lparr>su_datas := (su_datas s)\<lparr>tr_list := grow () track (tr_list (su_datas s))\<rparr>\<rparr>));
            congestion = su_congested env s
        in if buffered then su_ret s ()
           else if congestion \<noteq> 0 then
             su_ret (if tr_reliable (su_datas s) \<or> congestion \<ge> RTO_MAX then s\<lparr>su_ejected := EJECTED_BANDWITDH\<rparr>
                     else s\<lparr>su_datas := (su_datas s)\<lparr>tr_dropped := tr_dropped (su_datas s) + 1\<rparr>\<rparr>) ()
           else su_bind (writeToTarget env (TData track type packet (tr_reliable (su_datas s))) packet s)
                  (\<lambda>s ok. su_ret (eject_unless ok s) ()))"

text \<open>\<open>start()\<close> of a subscription that streams already: what a configuration and the properties need.\<close>

definition start_running :: "sub_env \<Rightarrow> subscription \<Rightarrow> subscription" where
  "start_running env s =
     (let s = s\<lparr>su_streaming := en_now env\<rparr>
      in if su_updating s then s
         else s\<lparr>su_updating := True, su_congestion := congestion_set (en_now env) (en_queueing env) (su_congestion s)\<rparr>)"

definition no_flush :: "subscription \<Rightarrow> unit su" where
  "no_flush s = su_ret s ()"

definition start_properties :: "sub_env \<Rightarrow> subscription \<Rightarrow> unit su" where
  "start_properties env s =
     (if \<not> en_properties env then su_ret s ()
      else Some (eject_unless (en_write env TProperties) (start_running env s), [TProperties], ()))"

text \<open>
  The configurations of the tracks, from \<open>track\<close>: a configuration goes through \<open>writeAudio\<close> or
  \<open>writeVideo\<close>, where it needs no flush of what is buffered.  The result is false at the ejection.
\<close>

definition config_tag :: "audio_config \<Rightarrow> audio_tag" where
  "config_tag c = \<lparr>at_time = ac_time c, at_codec = ac_codec c, at_isConfig = True, at_channels = ac_channels c, at_rate = ac_rate c\<rparr>"

fun start_audios :: "bool \<Rightarrow> sub_env \<Rightarrow> u8 \<Rightarrow> audio_config list \<Rightarrow> subscription \<Rightarrow> bool su" where
  "start_audios flushing env track [] s = su_ret s True"
| "start_audios flushing env track (c # cs) s =
     su_bind (if audio_config_null c \<or> su_ejected s \<noteq> EJECTED_NONE then su_ret s ()
              else audio_body no_flush flushing env (config_tag c) (ac_packet c) track (start_running env s))
       (\<lambda>s _. if su_ejected s \<noteq> EJECTED_NONE then su_ret s False else start_audios flushing env (track + 1) cs s)"

fun start_videos :: "bool \<Rightarrow> sub_env \<Rightarrow> u8 \<Rightarrow> (video_tag \<times> bytes) list \<Rightarrow> subscription \<Rightarrow> bool su" where
  "start_videos flushing env track [] s = su_ret s True"
| "start_videos flushing env track ((tag, packet) # cs) s =
     su_bind (if packet = [] \<or> su_ejected s \<noteq> EJECTED_NONE then su_ret s ()
              else video_body no_flush flushing env (tag\<lparr>vt_frame := FRAME_CONFIG\<rparr>) packet track (start_running env s))
       (\<lambda>s _. if su_ejected s \<noteq> EJECTED_NONE then su_ret s False else start_videos flushing env (track + 1) cs s)"

definition su_start :: "bool \<Rightarrow> sub_env \<Rightarrow> subscription \<Rightarrow> bool su" where
  "su_start flushing env s =
     (if su_ejected s \<noteq> EJECTED_NONE then su_ret s False
      else if su_streaming s \<noteq> 0 then su_ret (start_running env s) True
      else let s = s\<lparr>su_congestion := congestion_set (en_now env) 0 (su_congestion s)\<rparr>
           in if \<not> en_publishing env then su_ret s False
              else if \<not> en_begin env then Some (s\<lparr>su_ejected := EJECTED_ERROR\<rparr>, [TBegin], False)
              else
                let s = s\<lparr>su_streaming := en_now env\<rparr>;
                    s = (if su_waitingFirstVideoSync s \<noteq> 0
                         then s\<lparr>su_waitingFirstVideoSync := (if en_videos env \<noteq> [] then en_now env else 0)\<rparr> else s)
                in su_bind (Some (s, [TBegin], ())) (\<lambda>s _.
                     su_bind (start_properties env s) (\<lambda>s _.
                       su_bind (start_audios flushing env 1 (en_audios env) s) (\<lambda>s ok.
                         if \<not> ok then su_ret s False else start_videos flushing env 1 (en_videos env) s))))"

definition start_time :: "bool \<Rightarrow> sub_env \<Rightarrow> u32 \<Rightarrow> subscription \<Rightarrow> bool su" where
  "start_time flushing env time s =
     (let go = (\<lambda>s. su_bind (insideDuration flushing env time s) (\<lambda>s inside.
                 if inside then su_start flushing env s else su_ret s False))
      in case su_fromTime s of
           None \<Rightarrow> go s
         | Some from \<Rightarrow>
             let d = distance from time
             in if d < 0 then su_ret s False
                else go (if su_firstTime s \<and> d > 10000 then s\<lparr>su_fromTime := None\<rparr> else s))"

definition start_audio :: "bool \<Rightarrow> sub_env \<Rightarrow> u8 \<Rightarrow> audio_tag \<Rightarrow> subscription \<Rightarrow> bool su" where
  "start_audio flushing env track tag s =
     (if at_isConfig tag then (if su_streaming s = 0 then su_ret s False else su_start flushing env s)
      else let (ok, audios) = tracks_setLastTime new_media_track track (at_time tag) (su_audios s); s = s\<lparr>su_audios := audios\<rparr>
           in if ok then start_time flushing env (at_time tag) s else su_ret s False)"

definition start_video :: "bool \<Rightarrow> sub_env \<Rightarrow> u8 \<Rightarrow> video_tag \<Rightarrow> subscription \<Rightarrow> bool su" where
  "start_video flushing env track tag s =
     (if vt_frame tag = FRAME_CONFIG then (if su_streaming s = 0 then su_ret s False else su_start flushing env s)
      else let (ok, videos) = tracks_setLastTime new_video_track track (vt_time tag) (su_videos s); s = s\<lparr>su_videos := videos\<rparr>
           in if ok then start_time flushing env (vt_time tag) s else su_ret s False)"

section \<open>The media of the publication\<close>

definition write_audio :: "(subscription \<Rightarrow> unit su) \<Rightarrow> bool \<Rightarrow> sub_env \<Rightarrow> audio_tag \<Rightarrow> bytes \<Rightarrow> u8 \<Rightarrow> subscription \<Rightarrow> unit su" where
  "write_audio flush flushing env tag packet track s =
     su_bind (start_audio flushing env track tag s) (\<lambda>s ok.
       if ok then audio_body flush flushing env tag packet track s else su_ret s ())"

definition write_video :: "(subscription \<Rightarrow> unit su) \<Rightarrow> bool \<Rightarrow> sub_env \<Rightarrow> video_tag \<Rightarrow> bytes \<Rightarrow> u8 \<Rightarrow> subscription \<Rightarrow> unit su" where
  "write_video flush flushing env tag packet track s =
     su_bind (start_video flushing env track tag s) (\<lambda>s ok.
       if ok then video_body flush flushing env tag packet track s else su_ret s ())"

definition write_data :: "bool \<Rightarrow> sub_env \<Rightarrow> u8 \<Rightarrow> bytes \<Rightarrow> u8 \<Rightarrow> subscription \<Rightarrow> unit su" where
  "write_data flushing env type packet track s =
     su_bind (start_time flushing env (su_lastTime s) s) (\<lambda>s ok.
       if ok then data_body flushing env type packet track s else su_ret s ())"

text \<open>\<open>Medias::flush\<close>: the medias buffered are played as they come, and removed.\<close>

definition play_media :: "sub_env \<Rightarrow> media \<Rightarrow> subscription \<Rightarrow> unit su" where
  "play_media env m s =
     (case m of
        MediaAudio tag packet track \<Rightarrow> write_audio no_flush True env tag packet track s
      | MediaVideo tag packet track \<Rightarrow> write_video no_flush True env tag packet track s
      | MediaData type packet track isProperties \<Rightarrow> write_data True env type packet track s
      | MediaBase packet track \<Rightarrow> su_reset True env s)"

fun play_medias :: "sub_env \<Rightarrow> media list \<Rightarrow> subscription \<Rightarrow> unit su" where
  "play_medias env [] s = su_ret s ()"
| "play_medias env (m # ms) s = su_bind (play_media env m s) (\<lambda>s _. play_medias env ms s)"

definition medias_flush :: "sub_env \<Rightarrow> subscription \<Rightarrow> unit su" where
  "medias_flush env s = su_bind (play_medias env (su_medias s) s) (\<lambda>s _. su_ret (s\<lparr>su_medias := []\<rparr>) ())"

definition su_writeAudio :: "sub_env \<Rightarrow> audio_tag \<Rightarrow> bytes \<Rightarrow> u8 \<Rightarrow> subscription \<Rightarrow> unit su" where
  "su_writeAudio env = write_audio (medias_flush env) False env"

definition su_writeVideo :: "sub_env \<Rightarrow> video_tag \<Rightarrow> bytes \<Rightarrow> u8 \<Rightarrow> subscription \<Rightarrow> unit su" where
  "su_writeVideo env = write_video (medias_flush env) False env"

definition su_writeData :: "sub_env \<Rightarrow> u8 \<Rightarrow> bytes \<Rightarrow> u8 \<Rightarrow> subscription \<Rightarrow> unit su" where
  "su_writeData env = write_data False env"

definition su_reportLost :: "media_type \<Rightarrow> nat \<Rightarrow> u8 \<Rightarrow> subscription \<Rightarrow> subscription" where
  "su_reportLost type lost track s =
     (if lost = 0 \<or> (type \<noteq> TYPE_NONE \<and> type \<noteq> TYPE_VIDEO) then s
      else if track = 0
        then s\<lparr>su_videos := (su_videos s)\<lparr>tr_list := map (\<lambda>t. t\<lparr>tk_waitKeyFrame := 1\<rparr>) (tr_list (su_videos s))\<rparr>\<rparr>
      else if unat track \<le> length (tr_list (su_videos s)) then set_wait track 1 s else s)"

definition su_writeProperties :: "bool \<Rightarrow> sub_env \<Rightarrow> subscription \<Rightarrow> unit su" where
  "su_writeProperties flushing env s =
     (let streaming = (su_streaming s \<noteq> 0)
      in su_bind (su_start flushing env s) (\<lambda>s ok.
           if \<not> ok \<or> \<not> streaming then su_ret s ()
           else Some (eject_unless (en_write env TProperties) s, [TProperties], ())))"

definition su_flush :: "subscription \<Rightarrow> unit su" where
  "su_flush s = Some (s\<lparr>su_flushable := 0, su_updating := False\<rparr>, [TFlush], ())"

text \<open>\<open>ejected\<close>, called periodically.\<close>

definition su_checkEjected :: "sub_env \<Rightarrow> subscription \<Rightarrow> ejected su" where
  "su_checkEjected env s =
     (if su_ejected s \<noteq> EJECTED_NONE then su_ret (medias_clear False s) (su_ejected s)
      else if su_streaming s \<noteq> 0 \<and> su_timeout s \<noteq> 0 \<and> en_now env - su_streaming s > uint (su_timeout s)
        then su_bind (su_reset False env s) (\<lambda>s _. su_ret s EJECTED_NONE)
      else su_ret s EJECTED_NONE)"

section \<open>Parameters\<close>

text \<open>
  \<open>onParamChange\<close>, by parameter.  The value is stored before the call.  A selection redistributes the
  configurations of the tracks; the number of a track does not advance over one without configuration.
\<close>

definition su_setFrom :: "sub_env \<Rightarrow> u32 option \<Rightarrow> subscription \<Rightarrow> unit su" where
  "su_setFrom env from s = parseFromTime False env from (s\<lparr>su_from := from\<rparr>)"

definition su_setTime :: "time_param option \<Rightarrow> subscription \<Rightarrow> subscription" where
  "su_setTime time s = parseTime time (s\<lparr>su_time := time\<rparr>)"

definition su_setDuration :: "sub_env \<Rightarrow> u32 option \<Rightarrow> subscription \<Rightarrow> unit su" where
  "su_setDuration env duration s =
     (case duration of
        None \<Rightarrow> su_ret (s\<lparr>su_duration := 0\<rparr>) ()
      | Some d \<Rightarrow> let s = s\<lparr>su_duration := d\<rparr>
                  in su_bind (insideDuration False env (su_currentTime s) s) (\<lambda>s _. su_ret s ()))"

definition su_setTimeout :: "u32 option \<Rightarrow> subscription \<Rightarrow> subscription" where
  "su_setTimeout timeout s = s\<lparr>su_timeout := (case timeout of None \<Rightarrow> 0 | Some n \<Rightarrow> n * 1000)\<rparr>"

datatype media_kind = KindAudio | KindVideo | KindData

fun su_setReliable :: "media_kind \<Rightarrow> bool \<Rightarrow> subscription \<Rightarrow> subscription" where
  "su_setReliable KindAudio b s = s\<lparr>su_audios := (su_audios s)\<lparr>tr_reliable := b\<rparr>\<rparr>"
| "su_setReliable KindVideo b s = s\<lparr>su_videos := (su_videos s)\<lparr>tr_reliable := b\<rparr>\<rparr>"
| "su_setReliable KindData b s = s\<lparr>su_datas := (su_datas s)\<lparr>tr_reliable := b\<rparr>\<rparr>"

definition redistributes :: "u8 option \<Rightarrow> subscription \<Rightarrow> bool" where
  "redistributes new s \<longleftrightarrow> new \<noteq> Some 0 \<and> su_streaming s \<noteq> 0 \<and> su_ejected s = EJECTED_NONE"

fun send_audio_configs :: "sub_env \<Rightarrow> u8 \<Rightarrow> audio_config list \<Rightarrow> subscription \<Rightarrow> unit su" where
  "send_audio_configs env track [] s = su_ret s ()"
| "send_audio_configs env track (c # cs) s =
     (if audio_config_null c then send_audio_configs env track cs s
      else su_bind (su_writeAudio env (config_tag c) (ac_packet c) track s) (\<lambda>s _.
             if su_ejected s \<noteq> EJECTED_NONE then su_ret s () else send_audio_configs env (track + 1) cs s))"

fun send_video_configs :: "sub_env \<Rightarrow> u8 \<Rightarrow> (video_tag \<times> bytes) list \<Rightarrow> subscription \<Rightarrow> unit su" where
  "send_video_configs env track [] s = su_ret s ()"
| "send_video_configs env track ((tag, packet) # cs) s =
     (if packet = [] then send_video_configs env track cs s
      else su_bind (su_writeVideo env (tag\<lparr>vt_frame := FRAME_CONFIG\<rparr>) packet track s) (\<lambda>s _.
             if su_ejected s \<noteq> EJECTED_NONE then su_ret s () else send_video_configs env (track + 1) cs s))"

fun su_select :: "media_kind \<Rightarrow> sub_env \<Rightarrow> u8 option \<Rightarrow> subscription \<Rightarrow> unit su" where
  "su_select KindAudio env new s =
     (if tr_selection (su_audios s) = new then su_ret s ()
      else let s = s\<lparr>su_audios := (su_audios s)\<lparr>tr_selection := new\<rparr>\<rparr>
           in if redistributes new s then send_audio_configs env 1 (en_audios env) s else su_ret s ())"
| "su_select KindVideo env new s =
     (if tr_selection (su_videos s) = new then su_ret s ()
      else let s = s\<lparr>su_videos := (su_videos s)\<lparr>tr_selection := new\<rparr>\<rparr>
           in if redistributes new s then send_video_configs env 1 (en_videos env) s else su_ret s ())"
| "su_select KindData env new s = su_ret (s\<lparr>su_datas := (su_datas s)\<lparr>tr_selection := new\<rparr>\<rparr>) ()"

section \<open>Runs\<close>

datatype sub_op =
    OpAudio audio_tag bytes u8
  | OpVideo video_tag bytes u8
  | OpData u8 bytes u8
  | OpProperties
  | OpLost media_type nat u8
  | OpFlush
  | OpReset
  | OpEjected
  | OpFrom "u32 option"
  | OpTime "time_param option"
  | OpDuration "u32 option"
  | OpTimeout "u32 option"
  | OpReliable media_kind bool
  | OpSelect media_kind "u8 option"

fun su_step :: "sub_env \<Rightarrow> sub_op \<Rightarrow> subscription \<Rightarrow> unit su" where
  "su_step env (OpAudio tag packet track) s = su_writeAudio env tag packet track s"
| "su_step env (OpVideo tag packet track) s = su_writeVideo env tag packet track s"
| "su_step env (OpData type packet track) s = su_writeData env type packet track s"
| "su_step env OpProperties s = su_writeProperties False env s"
| "su_step env (OpLost type lost track) s = su_ret (su_reportLost type lost track s) ()"
| "su_step env OpFlush s = su_flush s"
| "su_step env OpReset s = su_reset False env s"
| "su_step env OpEjected s = su_bind (su_checkEjected env s) (\<lambda>s _. su_ret s ())"
| "su_step env (OpFrom from) s = su_setFrom env from s"
| "su_step env (OpTime time) s = su_ret (su_setTime time s) ()"
| "su_step env (OpDuration duration) s = su_setDuration env duration s"
| "su_step env (OpTimeout timeout) s = su_ret (su_setTimeout timeout s) ()"
| "su_step env (OpReliable kind b) s = su_ret (su_setReliable kind b s) ()"
| "su_step env (OpSelect kind new) s = su_select kind env new s"

text \<open>A video frame is taken when \<open>start\<close> lets it through: it is not before the one before it, nor out of the times asked for.\<close>

definition su_takes :: "sub_env \<Rightarrow> sub_op \<Rightarrow> subscription \<Rightarrow> bool" where
  "su_takes env op s =
     (case op of
        OpVideo tag packet track \<Rightarrow> (case start_video False env track tag s of Some (_, _, ok) \<Rightarrow> ok | None \<Rightarrow> False)
      | _ \<Rightarrow> True)"

fun su_run :: "(sub_env \<times> sub_op) list \<Rightarrow> subscription \<Rightarrow> (subscription \<times> (sub_op \<times> bool \<times> target_event list) list) option" where
  "su_run [] s = Some (s, [])"
| "su_run ((env, op) # ops) s =
     (case su_step env op s of
        None \<Rightarrow> None
      | Some (s', es, _) \<Rightarrow> map_option (\<lambda>(s'', log). (s'', (op, su_takes env op s, es) # log)) (su_run ops s'))"

section \<open>The reset returns, or not\<close>

lemma distance_eq: "distance a b = sint (b - a)"
proof -
  have "\<bar>sint (b - a)\<bar> \<le> 2147483648"
    using sint_range_size[of "b - a"] by (auto simp: word_size)
  then show ?thesis by (simp add: distance_def Let_def)
qed

definition from_ahead :: "subscription \<Rightarrow> bool" where
  "from_ahead s \<longleftrightarrow> (case su_from s of None \<Rightarrow> False | Some from \<Rightarrow> distance (su_lastTime s) from > 0)"

lemma su_lastTime_update [simp]:
  "su_lastTime (s\<lparr>su_fromTime := f\<rparr>) = su_lastTime s" "su_lastTime (s\<lparr>su_medias := m\<rparr>) = su_lastTime s"
  "su_lastTime (s\<lparr>su_ejected := e\<rparr>) = su_lastTime s" "su_lastTime (s\<lparr>su_waitingFirstVideoSync := w\<rparr>) = su_lastTime s"
  by (simp_all add: su_lastTime_def)

lemma medias_clear_simps [simp]:
  "su_from (medias_clear flushing s) = su_from s" "su_streaming (medias_clear flushing s) = su_streaming s"
  "su_lastTime (medias_clear flushing s) = su_lastTime s" "su_ejected (medias_clear flushing s) = su_ejected s"
  by (simp_all add: medias_clear_def)

lemma from_ahead_simps [simp]:
  "from_ahead (s\<lparr>su_fromTime := f\<rparr>) = from_ahead s" "from_ahead (medias_clear flushing s) = from_ahead s"
  "from_ahead (s\<lparr>su_ejected := e\<rparr>) = from_ahead s" "from_ahead (s\<lparr>su_waitingFirstVideoSync := w\<rparr>) = from_ahead s"
  by (simp_all add: from_ahead_def split: option.split)

lemma su_reset_diverges:
  assumes "su_reset flushing env s = Some r"
  shows "su_streaming s = 0 \<or> \<not> from_ahead s"
proof (rule su_reset.raw_induct[where P = "\<lambda>flushing env s r. su_streaming s = 0 \<or> \<not> from_ahead s", OF _ assms])
  fix rec flushing env s r
  assume IH: "\<And>flushing env s r. rec flushing env s = Some r \<Longrightarrow> su_streaming s = 0 \<or> \<not> from_ahead s"
    and body: "(let s = (if su_ejected s \<noteq> EJECTED_NONE then s\<lparr>su_waitingFirstVideoSync := en_now env\<rparr> else s);
          s = s\<lparr>su_ejected := EJECTED_NONE\<rparr>
      in if su_streaming s = 0 then Some (s, [], ())
         else let s = medias_clear flushing s
              in Option.bind
                   (case su_from s of
                      None \<Rightarrow> Some (s\<lparr>su_fromTime := None\<rparr>, [], ())
                    | Some from \<Rightarrow>
                        let s = s\<lparr>su_fromTime := Some from\<rparr>
                        in if distance (su_lastTime s) from > 0 then rec flushing env s else Some (s, [], ()))
                   (\<lambda>(s, es, _). Some (su_clear (s\<lparr>su_seekTime := 0\<rparr>), es @ [TEnd] @ (if en_end env then [TFlush] else []), ()))) = Some r"
  show "su_streaming s = 0 \<or> \<not> from_ahead s"
  proof (rule ccontr)
    assume n: "\<not> ?thesis"
    then obtain t0 where f: "su_from s = Some t0" "distance (su_lastTime s) t0 > 0" "su_streaming s \<noteq> 0"
      by (auto simp: from_ahead_def split: option.splits)
    let ?s = "(medias_clear flushing ((if su_ejected s \<noteq> EJECTED_NONE then s\<lparr>su_waitingFirstVideoSync := en_now env\<rparr> else s)
        \<lparr>su_ejected := EJECTED_NONE\<rparr>))\<lparr>su_fromTime := Some t0\<rparr>"
    have "\<exists>r. rec flushing env ?s = Some r"
      using body f by (auto simp: Let_def bind_eq_Some_conv split: if_splits)
    moreover have "su_streaming ?s \<noteq> 0" "from_ahead ?s" using n by auto
    ultimately show False using IH by blast
  qed
qed

lemma su_reset_returns:
  assumes "su_streaming s = 0 \<or> \<not> from_ahead s"
  shows "\<exists>r. su_reset flushing env s = Some r"
  using assms by (subst su_reset.simps) (auto simp: Let_def from_ahead_def split: option.splits)

text \<open>When a reset returns: a subscription that streams and has a parameter \<open>from\<close> ahead of its last
  time recurses for ever, any other one is reset.\<close>

theorem su_reset_total:
  "su_reset flushing env s = None \<longleftrightarrow>
     su_streaming s \<noteq> 0 \<and> (\<exists>from. su_from s = Some from \<and> distance (su_lastTime s) from > 0)"
proof -
  have "from_ahead s \<longleftrightarrow> (\<exists>from. su_from s = Some from \<and> distance (su_lastTime s) from > 0)"
    by (auto simp: from_ahead_def split: option.split)
  then show ?thesis using su_reset_diverges su_reset_returns by (metis not_None_eq)
qed

end
