(* ===== verification/SubVideo.thy ===== *)
theory SubVideo
  imports Subscription
begin

text \<open>
  What a subscription plays of a video track, over its runs: an invariant that every operation keeps
  (\<open>vinv\<close>, the tracks that wait no key frame can be decoded), shown piece by piece for the sub-operations
  that \<open>su_step\<close> composes (\<open>vsafe\<close>), and the continuity that follows from it.
\<close>

section \<open>No inter frame without what it depends on\<close>

text \<open>
  What a player of the track \<open>t\<close> can decode: a key frame makes it start, an end of media makes it stop;
  the result is \<open>None\<close> when it gets another frame while it cannot decode it.
\<close>

fun play_flag :: "u8 \<Rightarrow> bool \<Rightarrow> target_event list \<Rightarrow> bool option" where
  "play_flag t flag [] = Some flag"
| "play_flag t flag (e # es) =
     (case e of
        TVideo track tag packet reliable \<Rightarrow>
          if track \<noteq> t \<or> vt_frame tag = FRAME_CONFIG then play_flag t flag es
          else if vt_frame tag = FRAME_KEY then play_flag t True es
          else if flag then play_flag t True es else None
      | TEnd \<Rightarrow> play_flag t False es
      | _ \<Rightarrow> play_flag t flag es)"

lemma play_flag_append: "play_flag t flag (es @ es') = Option.bind (play_flag t flag es) (\<lambda>f. play_flag t f es')"
  by (induction t flag es rule: play_flag.induct) (auto split: target_event.split)

definition config_event :: "target_event \<Rightarrow> bool" where
  "config_event e \<longleftrightarrow> (case e of TVideo track tag packet reliable \<Rightarrow> vt_frame tag = FRAME_CONFIG | _ \<Rightarrow> True)"

lemma play_flag_config:
  "list_all config_event es \<Longrightarrow> play_flag t flag es = Some (flag \<and> TEnd \<notin> set es)"
  by (induction es arbitrary: flag) (auto simp: config_event_def split: target_event.splits)

definition no_video :: "media \<Rightarrow> bool" where
  "no_video m \<longleftrightarrow> (case m of MediaVideo tag packet track \<Rightarrow> False | _ \<Rightarrow> True)"

text \<open>The tracks, from 0, that wait for no key frame; \<open>vinv\<close> says that the track \<open>t\<close> is one of them only when it can be decoded.\<close>

definition playing :: "video_track list \<Rightarrow> nat set" where
  "playing ts = {i. i < length ts \<and> tk_waitKeyFrame (ts ! i) = 0}"

abbreviation played :: "subscription \<Rightarrow> nat set" where
  "played s \<equiv> playing (tr_list (su_videos s))"

definition vinv :: "u8 \<Rightarrow> bool \<Rightarrow> subscription \<Rightarrow> bool" where
  "vinv t flag s \<longleftrightarrow> list_all no_video (su_medias s) \<and> (su_streaming s = 0 \<longrightarrow> played s = {})
     \<and> (su_ejected s = EJECTED_NONE \<longrightarrow> (su_firstTime s \<longrightarrow> played s = {}) \<and> (unat t - 1 \<in> played s \<longrightarrow> flag))"

text \<open>An operation keeps it, whatever it outputs; with \<open>c\<close> it outputs no video but configurations.\<close>

definition vsafe :: "bool \<Rightarrow> u8 \<Rightarrow> bool \<Rightarrow> (subscription \<Rightarrow> 'a \<Rightarrow> bool) \<Rightarrow> 'a su \<Rightarrow> bool" where
  "vsafe c t flag Q m \<longleftrightarrow> (case m of None \<Rightarrow> True
     | Some (s, es, x) \<Rightarrow> (c \<longrightarrow> list_all config_event es) \<and> (\<exists>f. play_flag t flag es = Some f \<and> vinv t f s \<and> Q s x))"

abbreviation vkeeps :: "bool \<Rightarrow> u8 \<Rightarrow> bool \<Rightarrow> 'a su \<Rightarrow> bool" where
  "vkeeps c t flag m \<equiv> vsafe c t flag (\<lambda>s x. True) m"

lemma vsafe_bind:
  assumes "vsafe c t flag Q m" "\<And>f s x. vinv t f s \<Longrightarrow> Q s x \<Longrightarrow> vsafe c t f R (g s x)"
  shows "vsafe c t flag R (su_bind m g)"
proof (cases m)
  case (Some r)
  obtain s es x where r: "r = (s, es, x)" by (cases r)
  obtain f where f: "play_flag t flag es = Some f" "vinv t f s" "Q s x" "c \<longrightarrow> list_all config_event es"
    using assms(1) by (auto simp: vsafe_def Some r)
  show ?thesis
  proof (cases "g s x")
    case (Some r')
    then show ?thesis using assms(2)[OF f(2,3)] f(1,4) \<open>m = Some r\<close> r
      by (cases r') (auto simp: vsafe_def su_bind_def play_flag_append)
  qed (simp add: vsafe_def su_bind_def \<open>m = Some r\<close> r)
qed (simp add: vsafe_def su_bind_def)

lemma su_bind_ret: "su_bind (su_ret s x) g = g s x"
  by (cases "g s x") (auto simp: su_bind_def su_ret_def)

lemma vsafe_ret: "vinv t flag s \<Longrightarrow> Q s x \<Longrightarrow> vsafe c t flag Q (su_ret s x)"
  by (simp add: vsafe_def su_ret_def)

lemma vsafe_mono: "vsafe c t flag Q m \<Longrightarrow> (\<And>s x. Q s x \<Longrightarrow> R s x) \<Longrightarrow> vsafe c t flag R m"
  by (auto simp: vsafe_def split: option.splits)

lemma vsafe_config: "vsafe True t flag Q m \<Longrightarrow> vsafe c t flag Q m"
  by (auto simp: vsafe_def split: option.splits)

text \<open>Tracks that play less, and the fields that the invariant does not look at.\<close>

lemma vinv_less:
  assumes "vinv t flag s" "played s' \<subseteq> played s" "su_streaming s' = su_streaming s \<or> su_streaming s' \<noteq> 0"
    "su_firstTime s' = su_firstTime s \<or> \<not> su_firstTime s'" "su_ejected s' = su_ejected s \<or> su_ejected s' \<noteq> EJECTED_NONE"
    "list_all no_video (su_medias s')"
  shows "vinv t flag s'"
  using assms by (auto simp: vinv_def)

lemma vinv_medias: "vinv t flag s \<Longrightarrow> list_all no_video (su_medias s)"
  by (simp add: vinv_def)

lemma nth_update_if: "j < length xs \<Longrightarrow> xs[i := x] ! j = (if i = j then x else xs ! j)"
  by (cases "i = j") auto

lemma playing_grow [simp]: "playing (grow new_video_track track ts) = playing ts"
proof (rule set_eqI)
  fix x
  show "x \<in> playing (grow new_video_track track ts) \<longleftrightarrow> x \<in> playing ts"
  proof (cases "x < length ts")
    case False
    then show ?thesis
      by (cases "x < length ts + (unat track - length ts)")
        (simp_all add: playing_def grow_def nth_append less_diff_conv2 add.commute new_video_track_def)
  qed (simp add: playing_def grow_def nth_append)
qed

lemma playing_update: "playing (ts[i := tk]) \<subseteq> playing ts \<union> (if tk_waitKeyFrame tk = 0 then {i} else {})"
  by (auto simp: playing_def nth_update_if split: if_splits)

lemma playing_waits: "tk_waitKeyFrame tk \<noteq> 0 \<Longrightarrow> i \<notin> playing (ts[i := tk])"
  by (auto simp: playing_def nth_update_if)

lemma played_set_wait: "n \<noteq> 0 \<Longrightarrow> played (set_wait track n s) \<subseteq> played s"
  using playing_update [of "tr_list (su_videos s)"] by (fastforce simp: set_wait_def)

lemma playing_map_waits [simp]: "playing (map (\<lambda>t. t\<lparr>tk_waitKeyFrame := 1\<rparr>) ts) = {}"
  by (simp add: playing_def)

lemma playing_Nil [simp]: "playing [] = {}"
  by (simp add: playing_def)

lemma playing_setLastTime:
  assumes "tracks_setLastTime new_video_track track time t = (ok, t')"
  shows "playing (tr_list t') \<subseteq> playing (tr_list t)"
proof (cases "track = 0")
  case False
  let ?ts = "grow new_video_track track (tr_list t)" and ?i = "unat track - 1"
  obtain ok' tk where tk: "track_setLastTime time (?ts ! ?i) = (ok', tk)" by fastforce
  then have wait: "tk_waitKeyFrame tk = tk_waitKeyFrame (?ts ! ?i)" by (auto simp: track_setLastTime_def split: if_splits)
  have "playing (?ts[?i := tk]) \<subseteq> playing ?ts" using wait by (auto simp: playing_def nth_update_if split: if_splits)
  moreover have "tr_list t' = ?ts[?i := tk]" using assms False tk by (auto simp: tracks_setLastTime_def Let_def split: if_splits)
  ultimately show ?thesis by simp
qed (use assms in \<open>auto simp: tracks_setLastTime_def\<close>)

lemma vinv_clear: "list_all no_video (su_medias s) \<Longrightarrow> vinv t flag (su_clear s)"
  by (simp add: vinv_def su_clear_def tracks_clear_def)

lemma medias_clear_vinv: "list_all no_video (su_medias s) \<Longrightarrow> list_all no_video (su_medias (medias_clear flushing s))"
  "list_all no_video (su_medias s) \<Longrightarrow> list_all no_video (su_medias (medias_clear_until flushing time s))"
  by (auto simp: medias_clear_def medias_clear_until_def list_all_iff dest: set_dropWhileD)

lemma medias_clear_fields [simp]:
  "su_videos (medias_clear flushing s) = su_videos s" "su_firstTime (medias_clear flushing s) = su_firstTime s"
  "su_videos (medias_clear_until flushing time s) = su_videos s" "su_firstTime (medias_clear_until flushing time s) = su_firstTime s"
  "su_streaming (medias_clear_until flushing time s) = su_streaming s" "su_ejected (medias_clear_until flushing time s) = su_ejected s"
  by (simp_all add: medias_clear_def medias_clear_until_def)

lemma vsafe_reset: "vinv t flag s \<Longrightarrow> vkeeps c t flag (su_reset flushing env s)"
proof (cases "su_reset flushing env s")
  case (Some r)
  assume inv: "vinv t flag s"
  then have ahead: "su_streaming s = 0 \<or> \<not> from_ahead s" using su_reset_diverges Some by blast
  let ?s = "(if su_ejected s \<noteq> EJECTED_NONE then s\<lparr>su_waitingFirstVideoSync := en_now env\<rparr> else s)\<lparr>su_ejected := EJECTED_NONE\<rparr>"
  show ?thesis
  proof (cases "su_streaming s = 0")
    case True
    then have "su_reset flushing env s = Some (?s, [], ())" by (subst su_reset.simps) (simp add: Let_def)
    moreover have "vinv t flag ?s" using inv True by (auto simp: vinv_def)
    ultimately show ?thesis by (simp add: vsafe_def)
  next
    case False
    have m: "list_all no_video (su_medias (medias_clear flushing ?s))"
      by (rule medias_clear_vinv) (use inv in \<open>simp add: vinv_def\<close>)
    have "\<exists>s'. su_reset flushing env s = Some (su_clear s', [TEnd] @ (if en_end env then [TFlush] else []), ()) \<and> su_medias s' = su_medias (medias_clear flushing ?s)"
      using False ahead by (subst su_reset.simps) (auto simp: Let_def from_ahead_def split: option.splits)
    then show ?thesis using vinv_clear m by (auto simp: vsafe_def config_event_def)
  qed
qed (simp add: vsafe_def)

lemma vinv_simps [simp]:
  "vinv t flag (s\<lparr>su_fromTime := a\<rparr>) = vinv t flag s" "vinv t flag (s\<lparr>su_waitingFirstVideoSync := b\<rparr>) = vinv t flag s"
  "vinv t flag (s\<lparr>su_startTime := d\<rparr>) = vinv t flag s" "vinv t flag (s\<lparr>su_seekTime := d\<rparr>) = vinv t flag s"
  "vinv t flag (s\<lparr>su_updating := u\<rparr>) = vinv t flag s" "vinv t flag (s\<lparr>su_congestion := g\<rparr>) = vinv t flag s"
  "vinv t flag (s\<lparr>su_flushable := d\<rparr>) = vinv t flag s" "vinv t flag (s\<lparr>su_duration := d\<rparr>) = vinv t flag s"
  "vinv t flag (s\<lparr>su_audios := as\<rparr>) = vinv t flag s" "vinv t flag (s\<lparr>su_datas := ds\<rparr>) = vinv t flag s"
  "vinv t flag (s\<lparr>su_timeout := d\<rparr>) = vinv t flag s" "vinv t flag (s\<lparr>su_from := a\<rparr>) = vinv t flag s"
  "vinv t flag (s\<lparr>su_time := p\<rparr>) = vinv t flag s"
  by (simp_all add: vinv_def)

lemma vinv_parseTime [simp]: "vinv t flag (parseTime time s) = vinv t flag s"
  by (simp add: parseTime_def split: option.split)

lemma vsafe_parseFromTime: "vinv t flag s \<Longrightarrow> vkeeps c t flag (parseFromTime flushing env time s)"
  by (cases time) (auto simp: parseFromTime_def Let_def vsafe_reset, simp_all add: vsafe_def)

lemma vsafe_insideDuration: "vinv t flag s \<Longrightarrow> vkeeps c t flag (insideDuration flushing env time s)"
  unfolding insideDuration_def
  by (auto simp: Let_def intro!: vsafe_ret vsafe_bind [where Q = "\<lambda>s x. True"] vsafe_reset)

text \<open>What the target gets.\<close>

lemma vsafe_write:
  assumes "vinv t f s" "play_flag t flag [e] = Some f" "c \<longrightarrow> config_event e"
  shows "vsafe c t flag (\<lambda>s' ok. su_videos s' = su_videos s \<and> su_streaming s' = su_streaming s) (writeToTarget env e packet s)"
proof -
  have "play_flag t flag [e, TFlush] = Some f"
    using play_flag_append [of t flag "[e]" "[TFlush]"] assms(2) by simp
  then show ?thesis using assms
    by (auto simp: writeToTarget_def vsafe_def Let_def config_event_def)
qed

lemma vinv_eject: "vinv t flag s \<Longrightarrow> vinv t flag (eject_unless ok s)"
  by (auto simp: vinv_def eject_unless_def)

lemma eject_unless_fields [simp]:
  "su_videos (eject_unless ok s) = su_videos s" "su_streaming (eject_unless ok s) = su_streaming s"
  by (simp_all add: eject_unless_def)

lemma vinv_ejects: "vinv t flag s \<Longrightarrow> e \<noteq> EJECTED_NONE \<Longrightarrow> vinv t flag (s\<lparr>su_ejected := e\<rparr>)"
  by (simp add: vinv_def)

text \<open>A flush that keeps it, for the first media played.\<close>

definition good_flush :: "u8 \<Rightarrow> (subscription \<Rightarrow> unit su) \<Rightarrow> bool" where
  "good_flush t flush \<longleftrightarrow> (\<forall>f s. vinv t f s \<longrightarrow> vkeeps True t f (flush s))"

lemma good_no_flush: "good_flush t no_flush"
  by (simp add: good_flush_def no_flush_def vsafe_ret)

lemma vinv_medias_clear: "vinv t flag s \<Longrightarrow> vinv t flag (medias_clear flushing s)"
  "vinv t flag s \<Longrightarrow> vinv t flag (medias_clear_until flushing time s)"
  by (rule vinv_less, assumption, simp_all add: medias_clear_vinv vinv_medias)+

lemma vsafe_scaleTime:
  assumes "vinv t flag (if su_firstTime s \<and> \<not> isConfig then s\<lparr>su_firstTime := False\<rparr> else s)"
    "isConfig \<or> \<not> su_firstTime s \<or> good_flush t flush"
  shows "vsafe True t flag (\<lambda>s' x. isConfig \<or> \<not> su_firstTime s \<longrightarrow> s' = s) (scaleTime flush flushing time isConfig s)"
proof (cases "su_firstTime s \<and> \<not> isConfig")
  case True
  then show ?thesis using assms
    by (auto simp: scaleTime_def Let_def good_flush_def vinv_medias_clear intro!: vsafe_bind [where Q = "\<lambda>s x. True"] vsafe_ret)
qed (use assms in \<open>auto simp: scaleTime_def intro!: vsafe_ret\<close>)

lemma wait_video_add:
  assumes "wait_video env (medias_add flushing m) s = (s', b)" "vinv t flag s" "no_video m"
  shows "vinv t flag s'" "su_videos s' = su_videos s" "su_streaming s' = su_streaming s"
    "su_firstTime s' = su_firstTime s" "su_ejected s' = su_ejected s"
  using assms by (auto simp: wait_video_def medias_add_def vinv_def split: if_splits)

lemma vsafe_audio_body:
  assumes "vinv t flag s" "at_isConfig tag \<or> good_flush t flush"
  shows "vsafe True t flag (\<lambda>s' x. at_isConfig tag \<longrightarrow> su_videos s' = su_videos s \<and> su_streaming s' = su_streaming s)
    (audio_body flush flushing env tag packet track s)"
proof -
  let ?s = "s\<lparr>su_audios := (su_audios s)\<lparr>tr_list := grow new_media_track track (tr_list (su_audios s))\<rparr>\<rparr>"
  define r where "r = (if track = 0 then (s, False) else wait_video env (medias_add flushing (MediaAudio tag packet track)) ?s)"
  obtain s' b where r': "r = (s', b)" by fastforce
  have s': "vinv t flag s'" "su_videos s' = su_videos s" "su_streaming s' = su_streaming s"
    using assms(1) wait_video_add [of env flushing "MediaAudio tag packet track" ?s s' b t flag] r'
    by (auto simp: r_def no_video_def split: if_splits)
  have first: "vinv t flag (if su_firstTime s' \<and> \<not> at_isConfig tag then s'\<lparr>su_firstTime := False\<rparr> else s')"
    using s'(1) by (auto simp: vinv_def)
  have written: "vsafe True t flag (\<lambda>s'' x. at_isConfig tag \<longrightarrow> su_videos s'' = su_videos s' \<and> su_streaming s'' = su_streaming s')
      (su_bind (scaleTime flush flushing (at_time tag) (at_isConfig tag) s') (\<lambda>s time.
        su_bind (writeToTarget env (TAudio track (tag\<lparr>at_time := time\<rparr>) packet (tr_reliable (su_audios s) \<or> at_isConfig tag)) packet s)
          (\<lambda>s ok. su_ret (eject_unless ok s) ())))"
    by (rule vsafe_bind [OF vsafe_scaleTime [OF first]], use assms(2) in \<open>blast\<close>,
        rule vsafe_bind [OF vsafe_write], assumption, simp, simp add: config_event_def, rule vsafe_ret, erule vinv_eject, auto)
  show ?thesis
  proof (cases "media_selected (su_audios s) track")
    case True
    then show ?thesis using written s'(1) vsafe_ret [of t flag] s'(2,3)
      unfolding audio_body_def r_def [symmetric] r'
      by (auto simp: Let_def intro!: vsafe_ret vinv_ejects)
  qed (simp add: audio_body_def vsafe_ret assms(1))
qed


lemma vsafe_data_body: "vinv t flag s \<Longrightarrow> vkeeps True t flag (data_body flushing env type packet track s)"
proof -
  assume inv: "vinv t flag s"
  let ?s = "s\<lparr>su_datas := (su_datas s)\<lparr>tr_list := grow () track (tr_list (su_datas s))\<rparr>\<rparr>"
  let ?add = "\<lambda>s. if su_medias s \<noteq> [] then medias_add flushing (MediaData type packet track False) s else (s, False)"
  define r where "r = (if track = 0 then (s, False) else wait_video env ?add ?s)"
  obtain s' b where r': "r = (s', b)" by fastforce
  have s': "vinv t flag s'"
    using inv r' by (auto simp: r_def no_video_def wait_video_def medias_add_def vinv_def split: if_splits)
  have written: "vkeeps True t flag (su_bind (writeToTarget env (TData track type packet reliable) packet s')
      (\<lambda>s ok. su_ret (eject_unless ok s) ()))" for reliable
    by (rule vsafe_bind [OF vsafe_write [OF s']], simp, simp add: config_event_def, rule vsafe_ret, erule vinv_eject, simp)
  show ?thesis
  proof (cases "data_selected (su_datas s) track")
    case True
    then show ?thesis using written s'
      unfolding data_body_def r_def [symmetric] r'
      by (auto simp: Let_def intro!: vsafe_ret vinv_ejects)
  qed (simp add: data_body_def vsafe_ret inv)
qed

text \<open>The tracks after \<open>set_wait\<close>.\<close>

lemma set_wait_fields [simp]:
  "su_streaming (set_wait track n s) = su_streaming s" "su_ejected (set_wait track n s) = su_ejected s"
  "su_firstTime (set_wait track n s) = su_firstTime s" "su_medias (set_wait track n s) = su_medias s"
  "length (tr_list (su_videos (set_wait track n s))) = length (tr_list (su_videos s))"
  "tr_list (su_videos (set_wait track n s)) = (tr_list (su_videos s))[unat track - 1 := (tr_list (su_videos s) ! (unat track - 1))\<lparr>tk_waitKeyFrame := n\<rparr>]"
  by (simp_all add: set_wait_def)

lemma video_drop_fields [simp]:
  "su_streaming (video_drop s) = su_streaming s" "su_ejected (video_drop s) = su_ejected s"
  "su_firstTime (video_drop s) = su_firstTime s" "su_medias (video_drop s) = su_medias s"
  "tr_list (su_videos (video_drop s)) = tr_list (su_videos s)" "vinv t flag (video_drop s) = vinv t flag s"
  by (simp_all add: video_drop_def vinv_def)

lemma vinv_set_wait: "n \<noteq> 0 \<Longrightarrow> vinv t flag s \<Longrightarrow> vinv t flag (set_wait track n s)"
  by (rule vinv_less [where s = s]) (use played_set_wait in \<open>auto simp: vinv_medias simp del: set_wait_fields(6)\<close>)

text \<open>The tracks that \<open>writeVideo\<close> makes.\<close>

definition video_track_made :: "sub_env \<Rightarrow> bytes \<Rightarrow> u8 \<Rightarrow> subscription \<Rightarrow> subscription" where
  "video_track_made env packet track s =
     (let s = (if track = 0 then s
               else s\<lparr>su_videos := (su_videos s)\<lparr>tr_list := grow new_video_track track (tr_list (su_videos s))\<rparr>\<rparr>)
      in if packet \<noteq> [] \<and> su_waitingFirstVideoSync s \<noteq> 0 then s\<lparr>su_waitingFirstVideoSync := en_now env\<rparr> else s)"

lemma video_track_made:
  "played (video_track_made env packet track s) = played s"
  "su_streaming (video_track_made env packet track s) = su_streaming s"
  "su_ejected (video_track_made env packet track s) = su_ejected s"
  "su_firstTime (video_track_made env packet track s) = su_firstTime s"
  "su_medias (video_track_made env packet track s) = su_medias s"
  "vinv t flag (video_track_made env packet track s) = vinv t flag s"
  by (simp_all add: video_track_made_def Let_def vinv_def)

lemma video_track_made_there: "track \<noteq> 0 \<Longrightarrow> unat track - 1 < length (tr_list (su_videos (video_track_made env packet track s)))"
proof -
  assume "track \<noteq> 0"
  then have "unat track > 0" by (simp add: unat_gt_0)
  then have "unat track - 1 < n + (unat track - n)" for n by linarith
  then show ?thesis using \<open>track \<noteq> 0\<close> by (simp add: video_track_made_def Let_def grow_def)
qed

lemma video_body_eq:
  "video_body flush flushing env tag packet track s =
     (if \<not> media_selected (su_videos s) track
      then su_ret (if track \<noteq> 0 \<and> unat track \<le> length (tr_list (su_videos s)) then set_wait track 1 s else s) ()
      else
        let s = video_track_made env packet track s;
            isConfig = (vt_frame tag = FRAME_CONFIG);
            (s, go) = (if \<not> isConfig then video_key flushing (vt_frame tag) track s else (s, packet \<noteq> []));
            congestion = su_congested env s
        in if \<not> go then su_ret s ()
           else if congestion \<noteq> 0 \<and> (tr_reliable (su_videos s) \<or> congestion \<ge> RTO_MAX)
             then su_ret (s\<lparr>su_ejected := EJECTED_BANDWITDH\<rparr>) ()
           else if congestion \<noteq> 0 \<and> \<not> isConfig
             then su_ret (if track \<noteq> 0 then set_wait track 1 (video_drop s) else video_drop s) ()
           else su_bind (scaleTime flush flushing (vt_time tag) isConfig s) (\<lambda>s time.
                  su_bind (writeToTarget env (TVideo track (tag\<lparr>vt_time := time\<rparr>) packet (tr_reliable (su_videos s) \<or> isConfig)) packet s)
                    (\<lambda>s ok. su_ret (eject_unless ok s) ())))"
  unfolding video_body_def video_track_made_def Let_def by simp

lemma vsafe_video_config:
  assumes "vinv t flag s" "vt_frame tag = FRAME_CONFIG"
  shows "vsafe True t flag (\<lambda>s' x. played s' \<subseteq> played s \<and> su_streaming s' = su_streaming s)
    (video_body flush flushing env tag packet track s)"
proof (cases "media_selected (su_videos s) track")
  case True
  let ?s = "video_track_made env packet track s"
  have "vinv t flag (if su_firstTime ?s \<and> \<not> True then ?s\<lparr>su_firstTime := False\<rparr> else ?s)"
    using assms(1) by (simp add: video_track_made)
  note scaled = vsafe_scaleTime [OF this, of flush flushing "vt_time tag"]
  have written: "vsafe True t flag (\<lambda>s' x. played s' \<subseteq> played s \<and> su_streaming s' = su_streaming s)
      (su_bind (scaleTime flush flushing (vt_time tag) True ?s) (\<lambda>s time.
        su_bind (writeToTarget env (TVideo track (tag\<lparr>vt_time := time\<rparr>) packet True) packet s)
          (\<lambda>s ok. su_ret (eject_unless ok s) ())))"
    by (rule vsafe_bind [OF scaled], simp, rule vsafe_bind [OF vsafe_write], assumption, simp add: assms(2), simp add: config_event_def assms(2),
        rule vsafe_ret, erule vinv_eject, simp add: video_track_made)
  show ?thesis using True written assms
    by (auto simp: video_body_eq Let_def video_track_made intro!: vsafe_ret vinv_ejects)
next
  case False
  then show ?thesis using assms(1) played_set_wait [of 1 track s]
    by (auto simp: video_body_eq intro!: vsafe_ret vinv_set_wait simp del: set_wait_fields(6))
qed


text \<open>What the wait of a key frame leaves.\<close>

lemma video_key_fields:
  assumes "video_key flushing frame track s = (s', go)"
  shows "su_streaming s' = su_streaming s" "su_ejected s' = su_ejected s" "su_firstTime s' = su_firstTime s"
    "list_all no_video (su_medias s) \<Longrightarrow> list_all no_video (su_medias s')"
  using assms by (auto simp: video_key_def Let_def medias_clear_vinv split: if_splits simp del: set_wait_fields(6))

lemma video_key_played:
  assumes "video_key flushing frame track s = (s', go)" "track \<noteq> 0 \<longrightarrow> unat track - 1 < length (tr_list (su_videos s))"
  shows "played s' \<subseteq> played s \<union> (if frame = FRAME_KEY \<and> track \<noteq> 0 then {unat track - 1} else {})"
    "go \<Longrightarrow> frame = FRAME_KEY \<or> track = 0 \<or> (unat track - 1 \<in> played s \<and> s' = s)"
proof -
  have drop: "played (video_drop (medias_clear flushing s)) = played s" by simp
  show "played s' \<subseteq> played s \<union> (if frame = FRAME_KEY \<and> track \<noteq> 0 then {unat track - 1} else {})"
    using assms playing_update [of "tr_list (su_videos s)"] played_set_wait [of 2 track "video_drop (medias_clear flushing s)"]
    by (auto simp: video_key_def Let_def split: if_splits) (fastforce)+
  show "go \<Longrightarrow> frame = FRAME_KEY \<or> track = 0 \<or> (unat track - 1 \<in> played s \<and> s' = s)"
    using assms by (auto simp: video_key_def Let_def playing_def video_wait_def split: if_splits)
qed

lemma vinv_mono: "vinv t f s \<Longrightarrow> (f \<Longrightarrow> f') \<Longrightarrow> vinv t f' s"
  by (auto simp: vinv_def)

text \<open>A key frame that comes after: until then only configurations.\<close>

lemma vsafe_bind_key:
  assumes "vsafe True t f0 Q m" "\<And>f s x. vinv t True s \<Longrightarrow> vsafe False t f R (g s x)"
  shows "vsafe False t flag R (su_bind m g)"
proof (cases m)
  case (Some r)
  obtain s es x where r: "r = (s, es, x)" by (cases r)
  have es: "list_all config_event es" "vinv t True s"
    using assms(1) by (auto simp: vsafe_def Some r elim: vinv_mono)
  show ?thesis
  proof (cases "g s x")
    case (Some r')
    then show ?thesis using assms(2)[OF es(2), of "flag \<and> TEnd \<notin> set es" x] es(1) \<open>m = Some r\<close> r
      by (cases r') (auto simp: vsafe_def su_bind_def play_flag_append play_flag_config)
  qed (simp add: vsafe_def su_bind_def \<open>m = Some r\<close> r)
qed (simp add: vsafe_def su_bind_def)


text \<open>The state in which a video frame is played: it streams, and an ejection at the start leaves all tracks waiting.\<close>

definition started :: "subscription \<Rightarrow> bool" where
  "started s \<longleftrightarrow> su_streaming s \<noteq> 0 \<and> (su_ejected s = EJECTED_NONE \<or> played s = {})"

lemma vsafe_deliver:
  assumes "vinv t f s" "play_flag t flag [TVideo track (tag\<lparr>vt_time := time\<rparr>) packet reliable] = Some f"
  shows "vkeeps False t flag (su_bind (writeToTarget env (TVideo track (tag\<lparr>vt_time := time\<rparr>) packet reliable) packet s)
    (\<lambda>s ok. su_ret (eject_unless ok s) ()))"
  by (rule vsafe_bind [OF vsafe_write [OF assms]], simp, rule vsafe_ret, erule vinv_eject, simp)

lemma vsafe_video_frame:
  assumes inv: "vinv t flag s" and started: "started s" and frame: "vt_frame tag \<noteq> FRAME_CONFIG"
    and flush: "good_flush t flush" and t: "t \<noteq> 0"
  shows "vkeeps False t flag (video_body flush flushing env tag packet track s)"
proof (cases "media_selected (su_videos s) track")
  case True
  define s1 where "s1 = video_track_made env packet track s"
  obtain s2 go where s2: "video_key flushing (vt_frame tag) track s1 = (s2, go)" by fastforce
  note fields = video_key_fields [OF s2]
  have there: "track \<noteq> 0 \<longrightarrow> unat track - 1 < length (tr_list (su_videos s1))"
    using video_track_made_there by (simp add: s1_def)
  note played = video_key_played [OF s2 there]
  have inv1: "vinv t flag s1" and started1: "started s1" using inv started by (simp_all add: s1_def video_track_made started_def)
  have medias: "list_all no_video (su_medias s2)" using fields(4) inv1 vinv_medias by blast
  have same: "unat track - 1 = unat t - 1 \<longleftrightarrow> track = t" if "track \<noteq> 0"
  proof -
    have "unat track > 0" "unat t > 0" using that t by (simp_all add: unat_gt_0)
    then have "unat track - 1 = unat t - 1 \<longleftrightarrow> unat track = unat t" by linarith
    then show ?thesis by (metis word_unat_eq_iff)
  qed
  have streaming: "su_streaming s2 \<noteq> 0" using started1 fields by (simp add: started_def)
  have ejects: "vinv t flag (s2\<lparr>su_ejected := EJECTED_BANDWITDH\<rparr>)" using medias streaming by (simp add: vinv_def)
  have drops: "vinv t flag (if track \<noteq> 0 then set_wait track 1 (video_drop s2) else video_drop s2)"
  proof (cases "track = 0")
    case True
    then have "vinv t flag s2" using played(1) fields medias inv1 by (auto intro: vinv_less simp del: set_wait_fields(6))
    then show ?thesis using True by simp
  next
    case False
    have "played (set_wait track 1 (video_drop s2)) \<subseteq> played s1"
      using False played(1) playing_waits [of "(tr_list (su_videos s2) ! (unat track - 1))\<lparr>tk_waitKeyFrame := 1\<rparr>" "unat track - 1" "tr_list (su_videos s2)"]
        played_set_wait [of 1 track "video_drop s2"] by (auto split: if_splits)
    then show ?thesis using False fields medias inv1 by (auto intro!: vinv_less [OF inv1] simp del: set_wait_fields(6))
  qed
  have stays: "vinv t flag s2" if "\<not> go"
  proof -
    have "vt_frame tag \<noteq> FRAME_KEY" using s2 that by (auto simp: video_key_def split: if_splits)
    then show ?thesis using played(1) fields medias by (auto intro!: vinv_less [OF inv1])
  qed
  have written: "vkeeps False t flag (su_bind (scaleTime flush flushing (vt_time tag) False s2) (\<lambda>s time.
      su_bind (writeToTarget env (TVideo track (tag\<lparr>vt_time := time\<rparr>) packet (reliable s)) packet s)
        (\<lambda>s ok. su_ret (eject_unless ok s) ())))" if go for reliable
  proof (cases "track = t")
    case True
    show ?thesis
    proof (cases "vt_frame tag = FRAME_KEY")
      case key: True
      have "vinv t True (if su_firstTime s2 \<and> \<not> False then s2\<lparr>su_firstTime := False\<rparr> else s2)"
        using medias streaming by (simp add: vinv_def)
      note scaled = vsafe_scaleTime [OF this, of flush flushing "vt_time tag"]
      show ?thesis
        by (rule vsafe_bind_key [OF scaled], simp add: flush, rule vsafe_deliver, assumption, simp add: True key)
    next
      case False
      then have p: "unat t - 1 \<in> played s1" "s2 = s1" using played(2) that True t by auto
      then have ok: "su_ejected s1 = EJECTED_NONE" using started1 by (auto simp: started_def)
      then have "\<not> su_firstTime s1" "flag" using inv1 p by (auto simp: vinv_def)
      then show ?thesis using True False frame inv1 p
        by (auto simp: scaleTime_def su_bind_ret intro!: vsafe_deliver)
    qed
  next
    case False
    have "vinv t flag (if su_firstTime s2 \<and> \<not> False then s2\<lparr>su_firstTime := False\<rparr> else s2)"
    proof -
      have "unat t - 1 \<in> played s1" if "unat t - 1 \<in> played s2" using that played(1) same False by (auto split: if_splits)
      then show ?thesis using inv1 medias streaming fields by (auto simp: vinv_def)
    qed
    note scaled = vsafe_scaleTime [OF this, of flush flushing "vt_time tag"]
    show ?thesis
      by (rule vsafe_bind [OF vsafe_config [OF scaled]], simp add: flush, rule vsafe_deliver, assumption, simp add: False)
  qed
  show ?thesis using True written [of "\<lambda>s. tr_reliable (su_videos s)"] ejects drops stays frame s2
    by (auto simp: video_body_eq Let_def s1_def [symmetric] intro!: vsafe_ret)
next
  case False
  then show ?thesis using inv by (auto simp: video_body_eq intro!: vsafe_ret vinv_set_wait)
qed


section \<open>The start keeps the invariant\<close>

definition quiet :: "subscription \<Rightarrow> bool" where
  "quiet s \<longleftrightarrow> su_streaming s \<noteq> 0 \<and> played s = {}"

lemma start_running_fields [simp]:
  "su_videos (start_running env s) = su_videos s" "su_streaming (start_running env s) = en_now env"
  "su_ejected (start_running env s) = su_ejected s"
  "en_now env \<noteq> 0 \<Longrightarrow> vinv t flag s \<Longrightarrow> vinv t flag (start_running env s)"
  by (simp_all add: start_running_def Let_def vinv_def)

lemma vsafe_start_properties:
  assumes "vinv t flag s" "quiet s" "en_now env \<noteq> 0"
  shows "vsafe True t flag (\<lambda>s x. quiet s) (start_properties env s)"
  using assms by (auto simp: start_properties_def vsafe_def quiet_def config_event_def su_ret_def intro!: vinv_eject)

lemma vsafe_start_audios:
  assumes "vinv t flag s" "quiet s" "en_now env \<noteq> 0"
  shows "vsafe True t flag (\<lambda>s x. quiet s) (start_audios flushing env track cs s)"
  using assms(1,2)
proof (induction cs arbitrary: s track flag)
  case (Cons c cs)
  have config: "vsafe True t flag (\<lambda>s x. quiet s)
      (if audio_config_null c \<or> su_ejected s \<noteq> EJECTED_NONE then su_ret s ()
       else audio_body no_flush flushing env (config_tag c) (ac_packet c) track (start_running env s))"
  proof (cases "audio_config_null c \<or> su_ejected s \<noteq> EJECTED_NONE")
    case False
    have "vsafe True t flag (\<lambda>s x. quiet s) (audio_body no_flush flushing env (config_tag c) (ac_packet c) track (start_running env s))"
      by (rule vsafe_mono [OF vsafe_audio_body])
        (use Cons.prems assms(3) in \<open>auto simp: config_tag_def good_no_flush quiet_def\<close>)
    then show ?thesis using False by simp
  qed (use Cons.prems in \<open>simp add: vsafe_ret\<close>)
  show ?case unfolding start_audios.simps
    by (rule vsafe_bind [OF config]) (auto intro: vsafe_ret Cons.IH)
qed (simp add: vsafe_ret)

lemma vsafe_start_videos:
  assumes "vinv t flag s" "quiet s" "en_now env \<noteq> 0"
  shows "vsafe True t flag (\<lambda>s x. quiet s) (start_videos flushing env track cs s)"
  using assms(1,2)
proof (induction cs arbitrary: s track flag)
  case (Cons c cs)
  obtain tag packet where c: "c = (tag, packet)" by fastforce
  have config: "vsafe True t flag (\<lambda>s x. quiet s)
      (if packet = [] \<or> su_ejected s \<noteq> EJECTED_NONE then su_ret s ()
       else video_body no_flush flushing env (tag\<lparr>vt_frame := FRAME_CONFIG\<rparr>) packet track (start_running env s))"
  proof (cases "packet = [] \<or> su_ejected s \<noteq> EJECTED_NONE")
    case False
    have "vsafe True t flag (\<lambda>s x. quiet s) (video_body no_flush flushing env (tag\<lparr>vt_frame := FRAME_CONFIG\<rparr>) packet track (start_running env s))"
      by (rule vsafe_mono [OF vsafe_video_config])
        (use Cons.prems assms(3) in \<open>auto simp: quiet_def\<close>)
    then show ?thesis using False by simp
  qed (use Cons.prems in \<open>simp add: vsafe_ret\<close>)
  show ?case unfolding start_videos.simps c
    by (rule vsafe_bind [OF config]) (auto intro: vsafe_ret Cons.IH)
qed (simp add: vsafe_ret)

lemma vsafe_start:
  assumes "vinv t flag s" "en_now env \<noteq> 0"
  shows "vsafe True t flag (\<lambda>s ok. ok \<longrightarrow> started s) (su_start flushing env s)"
proof (cases "su_ejected s \<noteq> EJECTED_NONE \<or> su_streaming s \<noteq> 0 \<or> \<not> en_publishing env \<or> \<not> en_begin env")
  case True
  have "vinv t flag (s\<lparr>su_congestion := g, su_ejected := EJECTED_ERROR\<rparr>)" for g using assms(1) by (simp add: vinv_ejects)
  then show ?thesis using True assms
    by (auto simp: su_start_def Let_def started_def config_event_def intro!: vsafe_ret) (auto simp: vsafe_def config_event_def)
next
  case False
  let ?s = "(s\<lparr>su_congestion := congestion_set (en_now env) 0 (su_congestion s)\<rparr>)\<lparr>su_streaming := en_now env\<rparr>"
  define s1 where "s1 = (if su_waitingFirstVideoSync ?s \<noteq> 0
     then ?s\<lparr>su_waitingFirstVideoSync := (if en_videos env \<noteq> [] then en_now env else 0)\<rparr> else ?s)"
  have s1: "vinv t flag s1" "quiet s1" using assms False by (auto simp: s1_def quiet_def vinv_def)
  have begun: "vsafe True t flag (\<lambda>s x. quiet s) (Some (s1, [TBegin], ()))"
    using s1 by (simp add: vsafe_def config_event_def)
  have "vsafe True t flag (\<lambda>s x. quiet s) (su_start flushing env s)"
    using False unfolding su_start_def Let_def s1_def [symmetric]
    by (auto intro!: vsafe_bind [OF begun] vsafe_bind [OF vsafe_start_properties] vsafe_bind [OF vsafe_start_audios] vsafe_start_videos vsafe_ret assms(2))
  then show ?thesis by (rule vsafe_mono) (simp add: quiet_def started_def)
qed

lemma vsafe_start_time:
  assumes "vinv t flag s" "en_now env \<noteq> 0"
  shows "vsafe True t flag (\<lambda>s ok. ok \<longrightarrow> started s) (start_time flushing env time s)"
proof -
  have go: "vsafe True t flag (\<lambda>s ok. ok \<longrightarrow> started s)
      (su_bind (insideDuration flushing env time s) (\<lambda>s inside. if inside then su_start flushing env s else su_ret s False))"
    if "vinv t flag s" for s
    by (rule vsafe_bind [OF vsafe_insideDuration [OF that]]) (simp_all add: vsafe_start vsafe_ret assms(2))
  show ?thesis using assms(1) by (auto simp: start_time_def Let_def split: option.split intro!: go vsafe_ret)
qed


section \<open>The medias keep the invariant\<close>

lemma vsafe_write_audio:
  assumes "vinv t flag s" "en_now env \<noteq> 0" "good_flush t flush"
  shows "vkeeps True t flag (write_audio flush flushing env tag packet track s)"
proof -
  have "vkeeps True t flag (start_audio flushing env track tag s)"
    using assms(1,2) vsafe_mono [OF vsafe_start] vsafe_mono [OF vsafe_start_time]
    by (auto simp: start_audio_def Let_def split: prod.split intro!: vsafe_ret)
  then show ?thesis unfolding write_audio_def
    by (rule vsafe_bind) (auto intro!: vsafe_mono [OF vsafe_audio_body] vsafe_ret simp: assms(3))
qed

lemma vsafe_write_data: "vinv t flag s \<Longrightarrow> en_now env \<noteq> 0 \<Longrightarrow> vkeeps True t flag (write_data flushing env type packet track s)"
  unfolding write_data_def
  by (rule vsafe_bind [OF vsafe_start_time]) (auto intro!: vsafe_data_body vsafe_ret)

lemma vinv_setLastTime:
  assumes "tracks_setLastTime new_video_track track time (su_videos s) = (ok, videos)" "vinv t flag s"
  shows "vinv t flag (s\<lparr>su_videos := videos\<rparr>)"
  by (rule vinv_less [OF assms(2)]) (use playing_setLastTime [OF assms(1)] assms(2) in \<open>auto simp: vinv_medias\<close>)

lemma vsafe_start_video:
  assumes "vinv t flag s" "en_now env \<noteq> 0"
  shows "vsafe True t flag (\<lambda>s ok. ok \<longrightarrow> started s) (start_video flushing env track tag s)"
  using assms vinv_setLastTime [of track "vt_time tag" s _ _ t flag]
  by (auto simp: start_video_def Let_def split: prod.split intro!: vsafe_ret vsafe_start vsafe_start_time)

lemma vsafe_write_video:
  assumes "vinv t flag s" "en_now env \<noteq> 0" "good_flush t flush" "t \<noteq> 0"
  shows "vkeeps False t flag (write_video flush flushing env tag packet track s)"
  unfolding write_video_def
proof (rule vsafe_bind [OF vsafe_config [OF vsafe_start_video [OF assms(1,2)]]])
  fix f s x assume "vinv t f s" "x \<longrightarrow> started s"
  then show "vkeeps False t f (if x then video_body flush flushing env tag packet track s else su_ret s ())"
    using vsafe_video_frame [of t f s tag flush flushing env packet track] assms(3,4)
      vsafe_mono [OF vsafe_config [OF vsafe_video_config [of t f s tag flush flushing env packet track]]]
    by (cases "vt_frame tag = FRAME_CONFIG") (auto intro: vsafe_ret)
qed

lemma vsafe_play_medias:
  assumes "vinv t flag s" "en_now env \<noteq> 0" "list_all no_video ms"
  shows "vkeeps True t flag (play_medias env ms s)"
  using assms(1,3)
proof (induction ms arbitrary: s flag)
  case (Cons m ms)
  have "vkeeps True t flag (play_media env m s)"
    using Cons.prems assms(2)
    by (auto simp: play_media_def no_video_def good_no_flush split: media.splits intro!: vsafe_write_audio vsafe_write_data vsafe_reset)
  then show ?case unfolding play_medias.simps
    by (rule vsafe_bind) (use Cons in auto)
qed (simp add: vsafe_ret)

lemma good_medias_flush: "en_now env \<noteq> 0 \<Longrightarrow> good_flush t (medias_flush env)"
  unfolding good_flush_def medias_flush_def
proof (intro allI impI)
  fix f s assume "en_now env \<noteq> 0" "vinv t f s"
  then have "vkeeps True t f (play_medias env (su_medias s) s)" by (intro vsafe_play_medias vinv_medias)
  then show "vkeeps True t f (su_bind (play_medias env (su_medias s) s) (\<lambda>s _. su_ret (s\<lparr>su_medias := []\<rparr>) ()))"
    by (rule vsafe_bind) (auto intro!: vsafe_ret simp: vinv_def)
qed

lemma vsafe_send_audio_configs:
  assumes "vinv t flag s" "en_now env \<noteq> 0"
  shows "vkeeps True t flag (send_audio_configs env track cs s)"
  using assms(1)
proof (induction cs arbitrary: s track flag)
  case (Cons c cs)
  have sent: "vkeeps True t flag (su_writeAudio env (config_tag c) (ac_packet c) track s)"
    unfolding su_writeAudio_def by (rule vsafe_write_audio) (simp_all add: Cons.prems assms(2) good_medias_flush)
  show ?case using Cons by (auto intro!: vsafe_bind [OF sent] vsafe_ret)
qed (simp add: vsafe_ret)

lemma vsafe_send_video_configs:
  assumes "vinv t flag s" "en_now env \<noteq> 0" "t \<noteq> 0"
  shows "vkeeps False t flag (send_video_configs env track cs s)"
  using assms(1)
proof (induction cs arbitrary: s track flag)
  case (Cons c cs)
  obtain tag packet where c: "c = (tag, packet)" by fastforce
  have sent: "vkeeps False t flag (su_writeVideo env (tag\<lparr>vt_frame := FRAME_CONFIG\<rparr>) packet track s)"
    unfolding su_writeVideo_def by (rule vsafe_write_video) (simp_all add: Cons.prems assms good_medias_flush)
  show ?case using Cons by (auto simp: c intro!: vsafe_bind [OF sent] vsafe_ret)
qed (simp add: vsafe_ret)


section \<open>The operations keep the invariant\<close>

lemma vsafe_checkEjected: "vinv t flag s \<Longrightarrow> vkeeps True t flag (su_checkEjected env s)"
  unfolding su_checkEjected_def
  by (auto intro!: vsafe_ret vinv_medias_clear vsafe_bind [where Q = "\<lambda>s x. True"] vsafe_reset)

lemma vsafe_setDuration: "vinv t flag s \<Longrightarrow> vkeeps True t flag (su_setDuration env duration s)"
  unfolding su_setDuration_def Let_def
  by (auto split: option.split intro!: vsafe_ret vsafe_bind [where Q = "\<lambda>s x. True"] vsafe_insideDuration)

lemma vsafe_setFrom: "vinv t flag s \<Longrightarrow> vkeeps True t flag (su_setFrom env time s)"
  unfolding su_setFrom_def by (rule vsafe_parseFromTime) simp

lemma vsafe_writeProperties:
  assumes "vinv t flag s" "en_now env \<noteq> 0"
  shows "vkeeps True t flag (su_writeProperties flushing env s)"
  unfolding su_writeProperties_def Let_def
  by (rule vsafe_bind [OF vsafe_start [OF assms]]) (auto simp: vsafe_def config_event_def su_ret_def intro: vinv_eject)

lemma vinv_reportLost: "vinv t flag s \<Longrightarrow> vinv t flag (su_reportLost type lost track s)"
  by (auto simp: su_reportLost_def intro!: vinv_set_wait) (simp_all add: vinv_def)

lemma vinv_setReliable: "vinv t flag s \<Longrightarrow> vinv t flag (su_setReliable kind b s)"
  by (cases kind) (simp_all add: vinv_def)

lemma vsafe_select:
  assumes "vinv t flag s" "en_now env \<noteq> 0" "t \<noteq> 0"
  shows "vkeeps False t flag (su_select kind env new s)"
proof -
  have "vinv t flag (s\<lparr>su_videos := (su_videos s)\<lparr>tr_selection := new\<rparr>\<rparr>)" using assms(1) by (simp add: vinv_def)
  then show ?thesis using assms
    by (cases kind) (auto simp: Let_def intro!: vsafe_ret vsafe_config [OF vsafe_send_audio_configs] vsafe_send_video_configs)
qed

lemma vsafe_step:
  assumes "vinv t flag s" "en_now env \<noteq> 0" "t \<noteq> 0"
  shows "vkeeps False t flag (su_step env oper s)"
proof (cases oper)
  case (OpVideo tag packet track)
  then show ?thesis using assms by (auto simp: su_writeVideo_def intro: vsafe_write_video good_medias_flush)
next
  case (OpAudio tag packet track)
  then show ?thesis using assms by (auto simp: su_writeAudio_def intro: vsafe_config [OF vsafe_write_audio] good_medias_flush)
next
  case OpFlush
  then show ?thesis using assms by (simp add: su_flush_def vsafe_def)
next
  case OpEjected
  then show ?thesis using assms
    by (auto intro!: vsafe_bind [OF vsafe_config [OF vsafe_checkEjected]] vsafe_ret)
qed (use assms in \<open>auto simp: su_writeData_def su_setTime_def su_setTimeout_def
    intro!: vsafe_config [OF vsafe_write_data] vsafe_config [OF vsafe_writeProperties] vsafe_ret vinv_reportLost vsafe_reset
      vsafe_config [OF vsafe_setFrom] vsafe_config [OF vsafe_setDuration] vinv_setReliable vsafe_select\<close>)

section \<open>Gaps\<close>

text \<open>What the target did not get of the track \<open>t\<close>: a loss reported, or a frame taken that is not among the outputs.\<close>

definition delivered :: "u8 \<Rightarrow> target_event list \<Rightarrow> bool" where
  "delivered t es \<longleftrightarrow> list_ex (\<lambda>e. case e of TVideo track tag packet reliable \<Rightarrow> track = t \<and> vt_frame tag \<noteq> FRAME_CONFIG | _ \<Rightarrow> False) es"

definition gap :: "u8 \<Rightarrow> sub_op \<Rightarrow> bool \<Rightarrow> target_event list \<Rightarrow> bool" where
  "gap t oper taken es \<longleftrightarrow>
     (case oper of
        OpLost type lost track \<Rightarrow> lost \<noteq> 0 \<and> (type = TYPE_NONE \<or> type = TYPE_VIDEO) \<and> (track = 0 \<or> track = t)
      | OpVideo tag packet track \<Rightarrow> track = t \<and> vt_frame tag \<noteq> FRAME_CONFIG \<and> taken \<and> \<not> delivered t es
      | _ \<Rightarrow> False)"

fun track_history :: "u8 \<Rightarrow> bool \<Rightarrow> (sub_op \<times> bool \<times> target_event list) list \<Rightarrow> bool option" where
  "track_history t flag [] = Some flag"
| "track_history t flag ((oper, taken, es) # log) =
     Option.bind (play_flag t flag es) (\<lambda>f. track_history t (f \<and> \<not> gap t oper taken es) log)"

lemma set_wait_stops: "n \<noteq> 0 \<Longrightarrow> unat t - 1 \<notin> played (set_wait t n s)"
  using playing_waits [of "(tr_list (su_videos s) ! (unat t - 1))\<lparr>tk_waitKeyFrame := n\<rparr>" "unat t - 1"] by simp

lemma playing_there: "t \<noteq> 0 \<Longrightarrow> unat t - 1 \<in> playing ts \<Longrightarrow> unat t \<le> length ts"
proof -
  assume "t \<noteq> 0" "unat t - 1 \<in> playing ts"
  then have "unat t > 0" "unat t - 1 < length ts" by (simp_all add: playing_def unat_gt_0)
  then show ?thesis by linarith
qed

lemma lost_stops:
  assumes "gap t (OpLost type lost track) taken es" "t \<noteq> 0"
  shows "unat t - 1 \<notin> played (su_reportLost type lost track s)"
  using assms set_wait_stops [of 1 t s] playing_there [of t "tr_list (su_videos s)"]
  by (auto simp: gap_def su_reportLost_def simp del: set_wait_fields(6))

lemma deliver_delivers:
  assumes "su_bind (scaleTime flush flushing time False s) (\<lambda>s time.
      su_bind (writeToTarget env (TVideo t (tag\<lparr>vt_time := time\<rparr>) packet (reliable s)) packet s) (\<lambda>s ok. su_ret (eject_unless ok s) ())) = Some (s', es, x)"
    "vt_frame tag \<noteq> FRAME_CONFIG"
  shows "delivered t es"
  using assms by (auto simp: su_bind_def su_ret_def writeToTarget_def delivered_def Let_def split: option.splits if_splits)

lemma video_body_gap:
  assumes "video_body flush flushing env tag packet t s = Some (s', es, x)" "vt_frame tag \<noteq> FRAME_CONFIG" "\<not> delivered t es" "t \<noteq> 0"
  shows "su_ejected s' \<noteq> EJECTED_NONE \<or> unat t - 1 \<notin> played s'"
proof (cases "media_selected (su_videos s) t")
  case True
  define s1 where "s1 = video_track_made env packet t s"
  obtain s2 go where s2: "video_key flushing (vt_frame tag) t s1 = (s2, go)" by fastforce
  have "unat t - 1 \<notin> played s2" if "\<not> go"
    using s2 that assms(4) set_wait_stops [of 2 t "video_drop (medias_clear flushing s1)"]
    by (auto simp: video_key_def Let_def playing_def video_wait_def split: if_splits simp del: set_wait_fields(6))
  moreover have "unat t - 1 \<notin> played (set_wait t 1 (video_drop s2))" by (rule set_wait_stops) simp
  ultimately show ?thesis
    using assms True deliver_delivers [of flush flushing "vt_time tag" s2 env t tag packet "\<lambda>s. tr_reliable (su_videos s)" s' es x]
    by (auto simp: video_body_eq Let_def s1_def [symmetric] s2 su_ret_def split: if_splits simp del: set_wait_fields(6))
next
  case False
  then show ?thesis using assms set_wait_stops [of 1 t s] playing_there [of t "tr_list (su_videos s)"]
    by (auto simp: video_body_eq su_ret_def split: if_splits simp del: set_wait_fields(6))
qed

lemma video_gap:
  assumes "su_writeVideo env tag packet t s = Some (s', es, x)" "gap t (OpVideo tag packet t) (su_takes env (OpVideo tag packet t) s) es" "t \<noteq> 0"
  shows "su_ejected s' \<noteq> EJECTED_NONE \<or> unat t - 1 \<notin> played s'"
proof -
  obtain s1 es1 where s1: "start_video False env t tag s = Some (s1, es1, True)"
    using assms(2) by (auto simp: gap_def su_takes_def split: option.splits)
  then obtain es2 where "video_body (medias_flush env) False env tag packet t s1 = Some (s', es2, x)" "es = es1 @ es2"
    using assms(1) by (auto simp: su_writeVideo_def write_video_def su_bind_def)
  then show ?thesis using assms(2,3) video_body_gap [of "medias_flush env" False env tag packet t s1 s' es2 x]
    by (auto simp: gap_def delivered_def)
qed

lemma step_gap:
  assumes "su_step env oper s = Some (s', es, x)" "vinv t f s'" "gap t oper (su_takes env oper s) es" "t \<noteq> 0"
  shows "vinv t False s'"
proof -
  have "su_ejected s' \<noteq> EJECTED_NONE \<or> unat t - 1 \<notin> played s'"
    using assms video_gap lost_stops by (cases oper) (auto simp: gap_def su_ret_def)
  then show ?thesis using assms(2) by (auto simp: vinv_def)
qed

lemma run_history:
  assumes "su_run ops s = Some (s', log)" "vinv t flag s" "list_all (\<lambda>(env, oper). en_now env \<noteq> 0) ops" "t \<noteq> 0"
  shows "track_history t flag log \<noteq> None"
  using assms(1-3)
proof (induction ops arbitrary: s log flag)
  case (Cons eo ops)
  obtain env oper where eo: "eo = (env, oper)" by fastforce
  obtain s1 es x where step: "su_step env oper s = Some (s1, es, x)" and
    run: "\<exists>log'. su_run ops s1 = Some (s', log') \<and> log = (oper, su_takes env oper s, es) # log'"
    using Cons.prems(1) by (auto simp: eo split: option.splits)
  obtain f where f: "play_flag t flag es = Some f" "vinv t f s1"
    using vsafe_step [of t flag s env oper] Cons.prems(2,3) assms(4) by (auto simp: eo vsafe_def step)
  let ?f = "f \<and> \<not> gap t oper (su_takes env oper s) es"
  have "vinv t ?f s1" using step_gap [OF step f(2)] f(2) assms(4) by (cases "gap t oper (su_takes env oper s) es") auto
  then show ?case using run f(1) Cons.IH [of s1 _ ?f] Cons.prems(3) by (auto simp: eo)
qed simp

lemma vinv_new: "vinv t False (new_subscription now multi)"
  by (simp add: vinv_def new_subscription_def new_media_tracks_def)

text \<open>C2. No inter frame without what it depends on: in all that the target gets of a track (not the track 0),
  in any run of a new subscription, each inter frame follows the frames since a key frame, without a loss
  reported, a frame dropped or an end of media between them.\<close>

theorem sub_video_continuous:
  assumes "su_run ops (new_subscription now multi) = Some (s, log)"
    "list_all (\<lambda>(env, oper). en_now env \<noteq> 0) ops" "t \<noteq> 0"
  shows "track_history t False log \<noteq> None"
  by (rule run_history [OF assms(1) vinv_new assms(2,3)])


definition quiet_env :: "int \<Rightarrow> sub_env" where
  "quiet_env now = \<lparr>en_now = now, en_queueing = 0, en_begin = True, en_write = (\<lambda>e. True), en_end = True,
     en_publishing = True, en_properties = False, en_audios = [], en_videos = []\<rparr>"

definition video_frame :: "u8 \<Rightarrow> u32 \<Rightarrow> sub_op" where
  "video_frame frame time = OpVideo \<lparr>vt_time = time, vt_codec = VIDEO_CODEC_H264, vt_frame = frame, vt_composition = 0\<rparr> [0x65] 1"

definition lossy_run :: "(sub_env \<times> sub_op) list" where
  "lossy_run = map (\<lambda>(now, oper). (quiet_env now, oper))
     [(1, video_frame FRAME_KEY 0), (40, video_frame FRAME_INTER 40), (50, OpLost TYPE_VIDEO 1 1),
      (80, video_frame FRAME_INTER 80), (120, video_frame FRAME_KEY 120), (160, video_frame FRAME_INTER 160)]"

lemma lossy_run_log:
  "map_option (\<lambda>(s, log). map (\<lambda>(oper, taken, es). delivered 1 es) log) (su_run lossy_run (new_subscription 1 True))
     = Some [True, True, False, False, True, True]"
  by code_simp

theorem sub_video_continuous_witness:
  "\<exists>s log. su_run lossy_run (new_subscription 1 True) = Some (s, log)
     \<and> map (\<lambda>(oper, taken, es). delivered 1 es) log = [True, True, False, False, True, True]
     \<and> track_history 1 False log \<noteq> None"
proof -
  obtain s log where "su_run lossy_run (new_subscription 1 True) = Some (s, log)"
    "map (\<lambda>(oper, taken, es). delivered 1 es) log = [True, True, False, False, True, True]"
    using lossy_run_log by auto
  moreover have "list_all (\<lambda>(env, oper). en_now env \<noteq> 0) lossy_run" by (simp add: lossy_run_def quiet_env_def)
  ultimately show ?thesis using sub_video_continuous [of lossy_run 1 True s log 1] by auto
qed

end
