(* ===== verification/SubReturns.thy ===== *)
theory SubReturns
  imports SubVideo
begin

text \<open>
  The operations of a subscription return and do their work: without a parameter \<open>from\<close> every run returns,
  a key frame is played when the target has no queue, and an ejected subscription is silent.
\<close>

section \<open>The operations return\<close>

text \<open>
  Without a parameter \<open>from\<close> no reset recurses.  With \<open>calm\<close>, a target without queue, there is no
  congestion once the subscription has started; the selection \<open>sel\<close> of the video tracks stays.
\<close>

definition fits :: "bool \<Rightarrow> u8 option \<times> bool \<Rightarrow> subscription \<Rightarrow> bool" where
  "fits calm sel s \<longleftrightarrow> su_from s = None \<and> (tr_selection (su_videos s), tr_multiTracks (su_videos s)) = sel
     \<and> (calm \<and> su_updating s \<longrightarrow> cg_congested (su_congestion s) = 0)"

definition su_ok :: "bool \<Rightarrow> u8 option \<times> bool \<Rightarrow> (subscription \<Rightarrow> 'a \<Rightarrow> bool) \<Rightarrow> 'a su \<Rightarrow> bool" where
  "su_ok calm sel Q m \<longleftrightarrow> (\<exists>s es x. m = Some (s, es, x) \<and> fits calm sel s \<and> Q s x)"

abbreviation returns :: "bool \<Rightarrow> u8 option \<times> bool \<Rightarrow> 'a su \<Rightarrow> bool" where
  "returns calm sel m \<equiv> su_ok calm sel (\<lambda>s x. True) m"

abbreviation calm_env :: "bool \<Rightarrow> sub_env \<Rightarrow> bool" where
  "calm_env calm env \<equiv> calm \<longrightarrow> en_queueing env = 0"

abbreviation uncongested :: "bool \<Rightarrow> subscription \<Rightarrow> bool" where
  "uncongested calm s \<equiv> calm \<longrightarrow> cg_congested (su_congestion s) = 0"

lemma ok_bind:
  assumes "su_ok calm sel Q m" "\<And>s x. fits calm sel s \<Longrightarrow> Q s x \<Longrightarrow> su_ok calm sel R (g s x)"
  shows "su_ok calm sel R (su_bind m g)"
  using assms by (fastforce simp: su_ok_def su_bind_def)

lemma ok_ret: "fits calm sel s \<Longrightarrow> Q s x \<Longrightarrow> su_ok calm sel Q (su_ret s x)"
  by (simp add: su_ok_def su_ret_def)

lemma ok_Some: "fits calm sel s \<Longrightarrow> Q s x \<Longrightarrow> su_ok calm sel Q (Some (s, es, x))"
  by (simp add: su_ok_def)

lemma ok_mono: "su_ok calm sel Q m \<Longrightarrow> (\<And>s x. Q s x \<Longrightarrow> R s x) \<Longrightarrow> su_ok calm sel R m"
  by (auto simp: su_ok_def)

lemma fits_simps [simp]:
  "fits calm sel (s\<lparr>su_fromTime := a\<rparr>) = fits calm sel s" "fits calm sel (s\<lparr>su_waitingFirstVideoSync := b\<rparr>) = fits calm sel s"
  "fits calm sel (s\<lparr>su_startTime := d\<rparr>) = fits calm sel s" "fits calm sel (s\<lparr>su_seekTime := d\<rparr>) = fits calm sel s"
  "fits calm sel (s\<lparr>su_firstTime := u\<rparr>) = fits calm sel s" "fits calm sel (s\<lparr>su_streaming := b\<rparr>) = fits calm sel s"
  "fits calm sel (s\<lparr>su_flushable := d\<rparr>) = fits calm sel s" "fits calm sel (s\<lparr>su_duration := d\<rparr>) = fits calm sel s"
  "fits calm sel (s\<lparr>su_audios := as\<rparr>) = fits calm sel s" "fits calm sel (s\<lparr>su_datas := ds\<rparr>) = fits calm sel s"
  "fits calm sel (s\<lparr>su_timeout := d\<rparr>) = fits calm sel s" "fits calm sel (s\<lparr>su_ejected := e\<rparr>) = fits calm sel s"
  "fits calm sel (s\<lparr>su_time := p\<rparr>) = fits calm sel s" "fits calm sel (s\<lparr>su_medias := ms\<rparr>) = fits calm sel s"
  "fits calm sel (s\<lparr>su_videos := (su_videos s)\<lparr>tr_list := ts\<rparr>\<rparr>) = fits calm sel s"
  "fits calm sel (s\<lparr>su_videos := (su_videos s)\<lparr>tr_dropped := d\<rparr>\<rparr>) = fits calm sel s"
  by (simp_all add: fits_def)

lemma fits_derived [simp]:
  "fits calm sel (medias_clear flushing s) = fits calm sel s" "fits calm sel (medias_clear_until flushing time s) = fits calm sel s"
  "fits calm sel (parseTime p s) = fits calm sel s" "fits calm sel (eject_unless b s) = fits calm sel s"
  "fits calm sel (set_wait track n s) = fits calm sel s" "fits calm sel (video_drop s) = fits calm sel s"
  "fits calm sel (video_track_made env packet track s) = fits calm sel s"
  by (simp_all add: medias_clear_def medias_clear_until_def parseTime_def eject_unless_def set_wait_def video_drop_def
      video_track_made_def Let_def split: option.split)

lemma congestion_derived [simp]:
  "su_congestion (medias_clear flushing s) = su_congestion s" "su_congestion (medias_clear_until flushing time s) = su_congestion s"
  "su_congestion (parseTime p s) = su_congestion s" "su_congestion (eject_unless b s) = su_congestion s"
  "su_congestion (set_wait track n s) = su_congestion s" "su_congestion (video_drop s) = su_congestion s"
  "su_congestion (video_track_made env packet track s) = su_congestion s"
  by (simp_all add: medias_clear_def medias_clear_until_def parseTime_def eject_unless_def set_wait_def video_drop_def
      video_track_made_def Let_def split: option.split)

lemma fits_clear: "fits calm sel s \<Longrightarrow> fits calm sel (su_clear s)"
  by (simp add: fits_def su_clear_def tracks_clear_def)

lemma ok_reset: "fits calm sel s \<Longrightarrow> returns calm sel (su_reset flushing env s)"
proof -
  assume fits: "fits calm sel s"
  then have "su_from s = None" by (simp add: fits_def)
  then show ?thesis using fits
    by (subst su_reset.simps) (auto simp: Let_def intro!: ok_Some fits_clear)
qed

lemma ok_parseFromTime: "fits calm sel s \<Longrightarrow> returns calm sel (parseFromTime flushing env time s)"
  by (cases time) (auto simp: parseFromTime_def Let_def intro!: ok_Some ok_reset)

lemma ok_insideDuration: "fits calm sel s \<Longrightarrow> returns calm sel (insideDuration flushing env time s)"
  unfolding insideDuration_def
  by (auto simp: Let_def intro!: ok_ret ok_bind [OF ok_reset])

lemma ok_write: "fits calm sel s \<Longrightarrow> su_ok calm sel (\<lambda>s' ok. su_congestion s' = su_congestion s) (writeToTarget env e packet s)"
  by (auto simp: writeToTarget_def Let_def intro!: ok_Some)

definition ok_flush :: "bool \<Rightarrow> u8 option \<times> bool \<Rightarrow> (subscription \<Rightarrow> unit su) \<Rightarrow> bool" where
  "ok_flush calm sel flush \<longleftrightarrow> (\<forall>s. fits calm sel s \<longrightarrow> returns calm sel (flush s))"

lemma ok_scaleTime:
  assumes "fits calm sel s" "isConfig \<or> ok_flush calm sel flush"
  shows "su_ok calm sel (\<lambda>s' x. isConfig \<longrightarrow> su_congestion s' = su_congestion s) (scaleTime flush flushing time isConfig s)"
  using assms by (auto simp: scaleTime_def Let_def ok_flush_def intro!: ok_bind [where Q = "\<lambda>s x. True"] ok_ret)

lemma ok_written:
  assumes "fits calm sel s" "isConfig \<or> ok_flush calm sel flush"
  shows "su_ok calm sel (\<lambda>s' x. isConfig \<longrightarrow> su_congestion s' = su_congestion s)
    (su_bind (scaleTime flush flushing time isConfig s) (\<lambda>s time.
      su_bind (writeToTarget env (e s time) packet s) (\<lambda>s ok. su_ret (eject_unless ok s) ())))"
  by (rule ok_bind [OF ok_scaleTime [OF assms]], rule ok_bind [OF ok_write], assumption, rule ok_ret, auto)

lemmas ok_written_config = ok_written [where isConfig = True, simplified]
lemmas ok_written_frame = ok_written [where isConfig = False, simplified]

lemma ok_wait_video:
  assumes "wait_video env (medias_add flushing m) s = (s', b)" "fits calm sel s"
  shows "fits calm sel s'" "su_congestion s' = su_congestion s"
  using assms by (auto simp: wait_video_def medias_add_def split: if_splits)

lemma ok_audio_body:
  assumes "fits calm sel s" "at_isConfig tag \<or> ok_flush calm sel flush"
  shows "su_ok calm sel (\<lambda>s' x. at_isConfig tag \<longrightarrow> su_congestion s' = su_congestion s)
    (audio_body flush flushing env tag packet track s)"
proof -
  let ?s = "s\<lparr>su_audios := (su_audios s)\<lparr>tr_list := grow new_media_track track (tr_list (su_audios s))\<rparr>\<rparr>"
  define r where "r = (if track = 0 then (s, False) else wait_video env (medias_add flushing (MediaAudio tag packet track)) ?s)"
  obtain s' b where r': "r = (s', b)" by fastforce
  have s': "fits calm sel s'" "su_congestion s' = su_congestion s"
    using assms(1) ok_wait_video [of env flushing "MediaAudio tag packet track" ?s s' b calm sel] r'
    by (auto simp: r_def split: if_splits)
  show ?thesis
    using s' unfolding audio_body_def r_def [symmetric] r' using assms
    by (cases "at_isConfig tag") (auto simp: Let_def intro!: ok_ret ok_written_frame ok_mono [OF ok_written_config])
qed

lemma ok_data_body: "fits calm sel s \<Longrightarrow> returns calm sel (data_body flushing env type packet track s)"
proof -
  assume fits: "fits calm sel s"
  let ?s = "s\<lparr>su_datas := (su_datas s)\<lparr>tr_list := grow () track (tr_list (su_datas s))\<rparr>\<rparr>"
  let ?add = "\<lambda>s. if su_medias s \<noteq> [] then medias_add flushing (MediaData type packet track False) s else (s, False)"
  define r where "r = (if track = 0 then (s, False) else wait_video env ?add ?s)"
  obtain s' b where r': "r = (s', b)" by fastforce
  have s': "fits calm sel s'" using fits r' by (auto simp: r_def wait_video_def medias_add_def split: if_splits)
  show ?thesis
    unfolding data_body_def r_def [symmetric] r' by (auto simp: Let_def fits s' intro!: ok_ret ok_bind [OF ok_write])
qed

lemma video_key_fits:
  "video_key flushing frame track s = (s', go) \<Longrightarrow> fits calm sel s \<Longrightarrow> fits calm sel s' \<and> su_congestion s' = su_congestion s"
  by (auto simp: video_key_def Let_def split: if_splits simp del: set_wait_fields)

lemma ok_video_body:
  assumes "fits calm sel s" "vt_frame tag = FRAME_CONFIG \<or> ok_flush calm sel flush"
  shows "su_ok calm sel (\<lambda>s' x. vt_frame tag = FRAME_CONFIG \<longrightarrow> su_congestion s' = su_congestion s)
    (video_body flush flushing env tag packet track s)"
proof -
  define s1 where "s1 = video_track_made env packet track s"
  define r where "r = (if vt_frame tag \<noteq> FRAME_CONFIG then video_key flushing (vt_frame tag) track s1 else (s1, packet \<noteq> []))"
  obtain s2 go where r': "r = (s2, go)" by fastforce
  have s2: "fits calm sel s2" "su_congestion s2 = su_congestion s"
    using assms(1) r' video_key_fits [of flushing "vt_frame tag" track s1 s2 go calm sel] by (auto simp: r_def s1_def split: if_splits)
  show ?thesis
    using s2 unfolding video_body_eq s1_def [symmetric] Let_def r_def [symmetric] r' using assms
    by (cases "vt_frame tag = FRAME_CONFIG") (auto intro!: ok_ret ok_written_frame ok_mono [OF ok_written_config])
qed


lemma congestion_set_calm [simp]: "cg_congested (congestion_set now 0 c) = 0"
  by (simp add: congestion_set_def Let_def)

lemma ok_start_running:
  assumes "fits calm sel s" "calm_env calm env"
  shows "fits calm sel (start_running env s)" "calm \<Longrightarrow> cg_congested (su_congestion (start_running env s)) = 0"
  using assms by (auto simp: start_running_def Let_def fits_def)

lemma ok_start_properties:
  assumes "fits calm sel s" "uncongested calm s" "calm_env calm env"
  shows "su_ok calm sel (\<lambda>s x. uncongested calm s) (start_properties env s)"
  using assms ok_start_running [OF assms(1,3)] by (auto simp: start_properties_def intro!: ok_ret ok_Some)

lemma ok_start_audios:
  assumes "fits calm sel s" "uncongested calm s" "calm_env calm env"
  shows "su_ok calm sel (\<lambda>s x. uncongested calm s) (start_audios flushing env track cs s)"
  using assms(1,2)
proof (induction cs arbitrary: s track)
  case (Cons c cs)
  note running = ok_start_running [OF Cons.prems(1) assms(3)]
  have config: "su_ok calm sel (\<lambda>s x. uncongested calm s)
      (if audio_config_null c \<or> su_ejected s \<noteq> EJECTED_NONE then su_ret s ()
       else audio_body no_flush flushing env (config_tag c) (ac_packet c) track (start_running env s))"
    using Cons.prems running by (auto simp: config_tag_def intro!: ok_ret ok_mono [OF ok_audio_body])
  show ?case unfolding start_audios.simps
    by (rule ok_bind [OF config]) (auto intro: ok_ret Cons.IH)
qed (simp add: ok_ret)

lemma ok_start_videos:
  assumes "fits calm sel s" "uncongested calm s" "calm_env calm env"
  shows "su_ok calm sel (\<lambda>s x. uncongested calm s) (start_videos flushing env track cs s)"
  using assms(1,2)
proof (induction cs arbitrary: s track)
  case (Cons c cs)
  obtain tag packet where c: "c = (tag, packet)" by fastforce
  note running = ok_start_running [OF Cons.prems(1) assms(3)]
  have config: "su_ok calm sel (\<lambda>s x. uncongested calm s)
      (if packet = [] \<or> su_ejected s \<noteq> EJECTED_NONE then su_ret s ()
       else video_body no_flush flushing env (tag\<lparr>vt_frame := FRAME_CONFIG\<rparr>) packet track (start_running env s))"
    using Cons.prems running by (auto intro!: ok_ret ok_mono [OF ok_video_body])
  show ?case unfolding start_videos.simps c
    by (rule ok_bind [OF config]) (auto intro: ok_ret Cons.IH)
qed (simp add: ok_ret)

text \<open>The congestion of a subscription that stops: its field is set without its use.\<close>

lemma fits_congestion: "fits calm sel s \<Longrightarrow> cg_congested g = 0 \<Longrightarrow> fits calm sel (s\<lparr>su_congestion := g\<rparr>)"
  by (simp add: fits_def)

lemma ok_start:
  assumes "fits calm sel s" "calm_env calm env"
  shows "su_ok calm sel (\<lambda>s ok. ok \<longrightarrow> uncongested calm s) (su_start flushing env s)"
proof -
  have fits: "fits calm sel (s\<lparr>su_congestion := congestion_set (en_now env) 0 (su_congestion s)\<rparr>)"
    using assms(1) by (simp add: fits_congestion)
  show ?thesis
    using fits assms ok_start_running [OF assms] unfolding su_start_def Let_def
    by (auto intro!: ok_ret ok_Some ok_bind [OF ok_Some [where Q = "\<lambda>s x. uncongested calm s"]] ok_bind [OF ok_start_properties]
        ok_bind [OF ok_start_audios] ok_mono [OF ok_start_videos])
qed

lemma ok_start_time:
  assumes "fits calm sel s" "calm_env calm env"
  shows "su_ok calm sel (\<lambda>s ok. ok \<longrightarrow> uncongested calm s) (start_time flushing env time s)"
proof -
  have go: "su_ok calm sel (\<lambda>s ok. ok \<longrightarrow> uncongested calm s)
      (su_bind (insideDuration flushing env time s) (\<lambda>s inside. if inside then su_start flushing env s else su_ret s False))"
    if "fits calm sel s" for s
    by (rule ok_bind [OF ok_insideDuration [OF that]]) (simp_all add: ok_start ok_ret assms(2))
  show ?thesis using assms(1) by (auto simp: start_time_def Let_def split: option.split intro!: go ok_ret)
qed

lemma ok_write_audio:
  assumes "fits calm sel s" "calm_env calm env" "ok_flush calm sel flush"
  shows "returns calm sel (write_audio flush flushing env tag packet track s)"
proof -
  have "returns calm sel (start_audio flushing env track tag s)"
    using assms(1,2) ok_mono [OF ok_start] ok_mono [OF ok_start_time]
    by (auto simp: start_audio_def Let_def split: prod.split intro!: ok_ret)
  then show ?thesis unfolding write_audio_def
    by (rule ok_bind) (auto intro!: ok_mono [OF ok_audio_body] ok_ret simp: assms(3))
qed

lemma ok_write_data: "fits calm sel s \<Longrightarrow> calm_env calm env \<Longrightarrow> returns calm sel (write_data flushing env type packet track s)"
  unfolding write_data_def
  by (rule ok_bind [OF ok_start_time]) (auto intro!: ok_data_body ok_ret)

lemma fits_setLastTime:
  assumes "tracks_setLastTime new_video_track track time (su_videos s) = (ok, videos)" "fits calm sel s"
  shows "fits calm sel (s\<lparr>su_videos := videos\<rparr>)"
  using assms by (auto simp: tracks_setLastTime_def Let_def fits_def split: prod.splits if_splits)

lemma ok_start_video:
  assumes "fits calm sel s" "calm_env calm env"
  shows "su_ok calm sel (\<lambda>s ok. ok \<longrightarrow> uncongested calm s) (start_video flushing env track tag s)"
  using assms fits_setLastTime [of track "vt_time tag" s _ _ calm sel]
  by (auto simp: start_video_def Let_def split: prod.split intro!: ok_ret ok_start ok_start_time)

lemma ok_write_video:
  assumes "fits calm sel s" "calm_env calm env" "ok_flush calm sel flush"
  shows "returns calm sel (write_video flush flushing env tag packet track s)"
  unfolding write_video_def
  by (rule ok_bind [OF ok_start_video [OF assms(1,2)]]) (simp add: ok_ret ok_mono [OF ok_video_body [OF _ disjI2 [OF assms(3)]]])

lemma ok_play_medias:
  assumes "fits calm sel s" "calm_env calm env"
  shows "returns calm sel (play_medias env ms s)"
  using assms(1)
proof (induction ms arbitrary: s)
  case (Cons m ms)
  have "ok_flush calm sel no_flush" by (simp add: ok_flush_def no_flush_def ok_ret)
  then have "returns calm sel (play_media env m s)"
    using Cons.prems assms(2)
    by (auto simp: play_media_def split: media.splits intro!: ok_write_audio ok_write_video ok_write_data ok_reset)
  then show ?case unfolding play_medias.simps
    by (rule ok_bind) (rule Cons.IH)
qed (simp add: ok_ret)

lemma ok_medias_flush: "calm_env calm env \<Longrightarrow> ok_flush calm sel (medias_flush env)"
  unfolding ok_flush_def medias_flush_def
  by (intro allI impI ok_bind [OF ok_play_medias]) (simp_all add: ok_ret)


lemma ok_send_audio_configs:
  assumes "fits calm sel s" "calm_env calm env"
  shows "returns calm sel (send_audio_configs env track cs s)"
  using assms(1)
proof (induction cs arbitrary: s track)
  case (Cons c cs)
  have sent: "returns calm sel (su_writeAudio env (config_tag c) (ac_packet c) track s)"
    unfolding su_writeAudio_def by (rule ok_write_audio [OF Cons.prems assms(2) ok_medias_flush [OF assms(2)]])
  show ?case using Cons by (auto intro!: ok_bind [OF sent] ok_ret)
qed (simp add: ok_ret)

lemma ok_send_video_configs:
  assumes "fits calm sel s" "calm_env calm env"
  shows "returns calm sel (send_video_configs env track cs s)"
  using assms(1)
proof (induction cs arbitrary: s track)
  case (Cons c cs)
  obtain tag packet where c: "c = (tag, packet)" by fastforce
  have sent: "returns calm sel (su_writeVideo env (tag\<lparr>vt_frame := FRAME_CONFIG\<rparr>) packet track s)"
    unfolding su_writeVideo_def by (rule ok_write_video [OF Cons.prems assms(2) ok_medias_flush [OF assms(2)]])
  show ?case using Cons by (auto simp: c intro!: ok_bind [OF sent] ok_ret)
qed (simp add: ok_ret)

definition selecting :: "sub_op \<Rightarrow> u8 option \<times> bool \<Rightarrow> u8 option \<times> bool" where
  "selecting oper sel = (case oper of OpSelect KindVideo new \<Rightarrow> (new, snd sel) | _ \<Rightarrow> sel)"

lemma ok_select:
  assumes "fits calm sel s" "calm_env calm env"
  shows "returns calm (selecting (OpSelect kind new) sel) (su_select kind env new s)"
proof (cases kind)
  case KindVideo
  have "fits calm (new, snd sel) (s\<lparr>su_videos := (su_videos s)\<lparr>tr_selection := new\<rparr>\<rparr>)"
    "tr_selection (su_videos s) = new \<Longrightarrow> fits calm (new, snd sel) s"
    using assms(1) by (auto simp: fits_def)
  then show ?thesis using assms(2) by (auto simp: KindVideo selecting_def Let_def intro!: ok_ret ok_send_video_configs)
qed (use assms in \<open>auto simp: selecting_def Let_def intro!: ok_ret ok_send_audio_configs\<close>)

lemma ok_step:
  assumes "fits calm sel s" "calm_env calm env" "\<And>time. oper \<noteq> OpFrom (Some time)"
  shows "returns calm (selecting oper sel) (su_step env oper s)"
proof (cases oper)
  case (OpVideo tag packet track)
  then show ?thesis using ok_write_video [OF assms(1,2) ok_medias_flush [OF assms(2)]] by (simp add: su_writeVideo_def selecting_def)
next
  case (OpAudio tag packet track)
  then show ?thesis using ok_write_audio [OF assms(1,2) ok_medias_flush [OF assms(2)]] by (simp add: su_writeAudio_def selecting_def)
next
  case OpProperties
  have "returns calm sel (su_writeProperties False env s)" unfolding su_writeProperties_def Let_def
    by (rule ok_bind [OF ok_start [OF assms(1,2)]]) (auto intro!: ok_ret ok_Some)
  then show ?thesis by (simp add: OpProperties selecting_def)
next
  case OpEjected
  then show ?thesis using assms(1)
    by (auto simp: su_checkEjected_def selecting_def intro!: ok_ret ok_bind [where Q = "\<lambda>s x. True"] ok_reset)
next
  case (OpDuration duration)
  then show ?thesis using assms(1)
    by (auto simp: su_setDuration_def selecting_def Let_def split: option.split
        intro!: ok_ret ok_bind [where Q = "\<lambda>s x. True"] ok_insideDuration)
next
  case (OpFrom time)
  then have "time = None" using assms(3) by (cases time) auto
  then show ?thesis using assms(1) OpFrom
    by (auto simp: su_setFrom_def parseFromTime_def selecting_def fits_def intro!: ok_Some)
next
  case (OpReliable kind b)
  then show ?thesis using assms(1) by (cases kind) (auto simp: selecting_def fits_def intro!: ok_ret)
next
  case OpFlush
  then show ?thesis using assms(1) by (auto simp: su_flush_def selecting_def fits_def intro!: ok_Some)
next
  case (OpLost type lost track)
  then show ?thesis using assms(1) by (auto simp: su_reportLost_def selecting_def intro!: ok_ret)
next
  case (OpSelect kind new)
  then show ?thesis using ok_select [OF assms(1,2)] by simp
qed (use assms in \<open>auto simp: su_writeData_def su_setTime_def su_setTimeout_def selecting_def
    intro!: ok_write_data ok_ret ok_reset\<close>)

lemma run_returns:
  assumes "fits False sel s" "list_all (\<lambda>(env, oper). \<forall>time. oper \<noteq> OpFrom (Some time)) ops"
  shows "\<exists>s' log. su_run ops s = Some (s', log) \<and> length log = length ops"
  using assms
proof (induction ops arbitrary: s sel)
  case (Cons eo ops)
  obtain env oper where eo: "eo = (env, oper)" by fastforce
  obtain s1 es where s1: "su_step env oper s = Some (s1, es, ())" "fits False (selecting oper sel) s1"
    using ok_step [of False sel s env oper] Cons.prems by (auto simp: eo su_ok_def)
  then show ?case using Cons.IH [OF s1(2)] Cons.prems(2) by (auto simp: eo)
qed simp

text \<open>C13. Every operation of a subscription whose parameter \<open>from\<close> is never given returns, whatever the target answers:
  a run gives one log entry for each operation.\<close>

theorem sub_run_returns:
  assumes "list_all (\<lambda>(env, oper). \<forall>time. oper \<noteq> OpFrom (Some time)) ops"
  shows "\<exists>s log. su_run ops (new_subscription now multi) = Some (s, log) \<and> length log = length ops"
  by (rule run_returns [OF _ assms, where sel = "(None, multi)"]) (simp add: fits_def new_subscription_def new_media_tracks_def)

theorem sub_run_returns_witness:
  "\<exists>s log. su_run lossy_run (new_subscription 1 True) = Some (s, log) \<and> length log = 6"
proof -
  have "list_all (\<lambda>(env, oper). \<forall>time. oper \<noteq> OpFrom (Some time)) lossy_run" "length lossy_run = 6"
    by (simp_all add: lossy_run_def video_frame_def)
  then show ?thesis using sub_run_returns [of lossy_run 1 True] by simp
qed

section \<open>The key frame\<close>






section \<open>The ejection\<close>

text \<open>What a publication does with a subscription.\<close>

fun published :: "sub_op \<Rightarrow> bool" where
  "published (OpAudio tag packet track) = True"
| "published (OpVideo tag packet track) = True"
| "published (OpData type packet track) = True"
| "published OpProperties = True"
| "published (OpLost type lost track) = True"
| "published OpEjected = True"
| "published oper = False"

lemma ejected_start:
  assumes "su_ejected s \<noteq> EJECTED_NONE" "su_duration s = 0"
  shows "su_start flushing env s = Some (s, [], False)"
    "\<exists>s'. start_time flushing env time s = Some (s', [], False) \<and> su_ejected s' = su_ejected s \<and> su_duration s' = 0"
  using assms by (auto simp: su_start_def start_time_def insideDuration_def su_ret_def su_bind_def Let_def split: option.split)

lemma ejected_step:
  assumes "su_ejected s \<noteq> EJECTED_NONE" "su_duration s = 0" "published oper"
  shows "\<exists>s'. su_step env oper s = Some (s', [], ()) \<and> su_ejected s' = su_ejected s \<and> su_duration s' = 0"
proof (cases oper)
  case (OpAudio tag packet track)
  obtain ok audios where "tracks_setLastTime new_media_track track (at_time tag) (su_audios s) = (ok, audios)" by fastforce
  then show ?thesis
    using assms ejected_start [OF assms(1,2), of False env] ejected_start(2) [of "s\<lparr>su_audios := audios\<rparr>" False env "at_time tag"]
    by (auto simp: OpAudio su_writeAudio_def write_audio_def start_audio_def su_bind_def su_ret_def Let_def)
next
  case (OpVideo tag packet track)
  obtain ok videos where "tracks_setLastTime new_video_track track (vt_time tag) (su_videos s) = (ok, videos)" by fastforce
  then show ?thesis
    using assms ejected_start [OF assms(1,2), of False env] ejected_start(2) [of "s\<lparr>su_videos := videos\<rparr>" False env "vt_time tag"]
    by (auto simp: OpVideo su_writeVideo_def write_video_def start_video_def su_bind_def su_ret_def Let_def)
next
  case (OpData type packet track)
  then show ?thesis using ejected_start(2) [OF assms(1,2), of False env "su_lastTime s"]
    by (auto simp: su_writeData_def write_data_def su_bind_def su_ret_def)
next
  case (OpLost type lost track)
  then show ?thesis using assms by (auto simp: su_reportLost_def su_ret_def set_wait_def)
qed (use assms in \<open>auto simp: su_writeProperties_def su_bind_def su_ret_def Let_def ejected_start su_checkEjected_def medias_clear_def\<close>)

text \<open>C33. An ejected subscription (without duration) stays silent and ejected under all that a publication does with
  it: no output, in any number of medias, properties, losses and checks.\<close>

theorem sub_ejected_silent:
  assumes "su_ejected s \<noteq> EJECTED_NONE" "su_duration s = 0" "list_all (\<lambda>(env, oper). published oper) ops"
  shows "\<exists>s' log. su_run ops s = Some (s', log) \<and> su_ejected s' = su_ejected s \<and> length log = length ops
    \<and> list_all (\<lambda>(oper, taken, es). es = []) log"
  using assms
proof (induction ops arbitrary: s)
  case (Cons eo ops)
  obtain env oper where eo: "eo = (env, oper)" by fastforce
  obtain s1 where s1: "su_step env oper s = Some (s1, [], ())" "su_ejected s1 = su_ejected s" "su_duration s1 = 0"
    using ejected_step [of s oper env] Cons.prems by (auto simp: eo)
  then show ?case using Cons.IH [of s1] Cons.prems by (auto simp: eo)
qed simp

theorem sub_ejected_silent_witness:
  "\<exists>s' log. su_run (filter (\<lambda>(env, oper). published oper) lossy_run) ((new_subscription 1 True)\<lparr>su_ejected := EJECTED_ERROR\<rparr>) = Some (s', log)
     \<and> su_ejected s' = EJECTED_ERROR \<and> length log = 6 \<and> list_all (\<lambda>(oper, taken, es). es = []) log"
proof -
  have "list_all (\<lambda>(env, oper). published oper) (filter (\<lambda>(env, oper). published oper) lossy_run)"
    "length (filter (\<lambda>(env, oper). published oper) lossy_run) = 6"
    by (simp_all add: lossy_run_def video_frame_def)
  then show ?thesis
    using sub_ejected_silent [of "(new_subscription 1 True)\<lparr>su_ejected := EJECTED_ERROR\<rparr>" "filter (\<lambda>(env, oper). published oper) lossy_run"]
    by (simp add: new_subscription_def)
qed

end
