(* ===== verification/Publication.thy ===== *)
theory Publication
  imports SubReturns
begin

text \<open>
  \<open>Publication\<close>: what a publisher writes is distributed to the subscriptions.  The model has the tracks with
  their configurations and the wait of a key frame, the losses, the properties by their version and count, the
  start, reset, stop and flush.  Left out are the rates, the segments in memory and the recorder (one more
  subscription).  What a closed caption extractor finds in a frame, whether a data packet is a command of
  properties and what it changes, and what \<open>clearTracks\<close> erases come with the operation.
\<close>

section \<open>State\<close>

record pub_audio =
  pa_config :: audio_config
  pa_lang :: bool

record pub_video =
  pv_config :: "video_tag \<times> bytes"
  pv_waitKeyFrame :: bool

definition new_pub_audio :: pub_audio where
  "new_pub_audio =
     \<lparr>pa_config = \<lparr>ac_time = 1, ac_codec = 0, ac_channels = 0, ac_rate = 0, ac_packet = []\<rparr>, pa_lang = False\<rparr>"

definition new_pub_video :: pub_video where
  "new_pub_video =
     \<lparr>pv_config = (\<lparr>vt_time = 0, vt_codec = 0, vt_frame = FRAME_CONFIG, vt_composition = 0\<rparr>, []), pv_waitKeyFrame = True\<rparr>"

definition video_config_set :: "video_tag \<Rightarrow> bytes \<Rightarrow> video_tag \<times> bytes \<Rightarrow> video_tag \<times> bytes" where
  "video_config_set tag packet c = ((fst c)\<lparr>vt_time := 0, vt_codec := vt_codec tag\<rparr>, packet)"

text \<open>\<open>publishing\<close> is 0 when stopped, -1 when started or reset, 1 when it has published, 2 when it stops.\<close>

record publication =
  pu_publishing :: int
  pu_new :: bool
  pu_newLost :: bool
  pu_latency :: u16
  pu_version :: u32
  pu_propVersion :: u32
  pu_count :: nat
  pu_audioTime :: u32
  pu_videoTime :: u32
  pu_audios :: "pub_audio list"
  pu_videos :: "pub_video list"
  pu_datas :: "bool list"
  pu_subs :: "(nat \<times> subscription) list"

definition new_publication :: publication where
  "new_publication =
     \<lparr>pu_publishing = 0, pu_new = False, pu_newLost = False, pu_latency = 0, pu_version = 0, pu_propVersion = 0,
      pu_count = 0, pu_audioTime = 0, pu_videoTime = 0, pu_audios = [], pu_videos = [], pu_datas = [], pu_subs = []\<rparr>"

text \<open>
  What happens, for each subscription by its number: an operation, whether it took its frame, and the calls its
  target got.  \<open>LOffer\<close> is a video frame that goes to all, \<open>LGap\<close> one that is dropped before, \<open>LLost\<close> each call of \<open>reportLost\<close>,
  with its arguments, whatever the publication makes of it.
\<close>

datatype pub_log =
    LSub nat sub_op bool "target_event list"
  | LOffer u8 u8
  | LGap u8
  | LLost media_type nat u8

type_synonym pub = "(publication \<times> pub_log list) option"

definition pub_ret :: "publication \<Rightarrow> pub" where
  "pub_ret p = Some (p, [])"

definition pub_then :: "pub \<Rightarrow> (publication \<Rightarrow> pub) \<Rightarrow> pub" where
  "pub_then m f = (case m of None \<Rightarrow> None | Some (p, log) \<Rightarrow> map_option (\<lambda>(p, log'). (p, log @ log')) (f p))"

definition pub_currentTime :: "publication \<Rightarrow> u32" where
  "pub_currentTime p =
     (if pu_videos p = [] then pu_audioTime p
      else if pu_audios p \<noteq> [] \<and> distance (pu_audioTime p) (pu_videoTime p) > 0 then pu_audioTime p else pu_videoTime p)"

definition pub_lastTime :: "publication \<Rightarrow> u32" where
  "pub_lastTime p =
     (if pu_audios p = [] then pu_videoTime p
      else if pu_videos p \<noteq> [] \<and> distance (pu_audioTime p) (pu_videoTime p) > 0 then pu_videoTime p else pu_audioTime p)"

section \<open>Distribution\<close>

text \<open>A subscription finds in the publication whether it publishes, has properties, and its configurations.\<close>

definition pub_env :: "publication \<Rightarrow> sub_env \<Rightarrow> sub_env" where
  "pub_env p env =
     env\<lparr>en_publishing := (pu_publishing p \<noteq> 0), en_properties := (pu_count p \<noteq> 0),
         en_audios := map pa_config (pu_audios p), en_videos := map pv_config (pu_videos p)\<rparr>"

fun distribute :: "(nat \<Rightarrow> sub_env) \<Rightarrow> (subscription \<Rightarrow> sub_op option) \<Rightarrow> (nat \<times> subscription) list
    \<Rightarrow> ((nat \<times> subscription) list \<times> pub_log list) option" where
  "distribute envs f [] = Some ([], [])"
| "distribute envs f ((n, s) # subs) =
     (case f s of
        None \<Rightarrow> map_option (\<lambda>(subs, log). ((n, s) # subs, log)) (distribute envs f subs)
      | Some oper \<Rightarrow>
          (case su_step (envs n) oper s of
             None \<Rightarrow> None
           | Some (s', es, _) \<Rightarrow>
               map_option (\<lambda>(subs, log). ((n, s') # subs, LSub n oper (su_takes (envs n) oper s) es # log)) (distribute envs f subs)))"

definition pub_distribute :: "(nat \<Rightarrow> sub_env) \<Rightarrow> (subscription \<Rightarrow> sub_op option) \<Rightarrow> publication \<Rightarrow> pub" where
  "pub_distribute envs f p =
     map_option (\<lambda>(subs, log). (p\<lparr>pu_subs := subs\<rparr>, log)) (distribute (\<lambda>n. pub_env p (envs n)) f (pu_subs p))"

definition flushProperties :: "(nat \<Rightarrow> sub_env) \<Rightarrow> publication \<Rightarrow> pub" where
  "flushProperties envs p =
     (if pu_propVersion p = pu_version p then pub_ret p
      else pub_distribute envs (\<lambda>s. Some OpProperties) (p\<lparr>pu_propVersion := pu_version p\<rparr>))"

section \<open>Properties\<close>

text \<open>A property of a track that \<open>onParamChange\<close> looks at, or another one: it is given, or erased.\<close>

datatype prop_key = AudioLang u8 | TextLang u8 | OtherKey

definition pub_lang :: "prop_key \<Rightarrow> bool \<Rightarrow> publication \<Rightarrow> publication" where
  "pub_lang key present p =
     (case key of
        AudioLang track \<Rightarrow>
          if track = 0 then p
          else p\<lparr>pu_audios := (let as = grow new_pub_audio track (pu_audios p); i = unat track - 1
                              in as[i := (as ! i)\<lparr>pa_lang := present\<rparr>])\<rparr>
      | TextLang track \<Rightarrow>
          if track = 0 then p else p\<lparr>pu_datas := (grow False track (pu_datas p))[unat track - 1 := present]\<rparr>
      | OtherKey \<Rightarrow> p)"

definition pub_onParamChange :: "prop_key \<Rightarrow> bool \<Rightarrow> publication \<Rightarrow> publication" where
  "pub_onParamChange key present p = pub_lang key present (p\<lparr>pu_version := pu_version p + 1\<rparr>)"

definition pub_onParamClear :: "publication \<Rightarrow> publication" where
  "pub_onParamClear p =
     p\<lparr>pu_version := pu_version p + 1, pu_audios := map (\<lambda>a. a\<lparr>pa_lang := False\<rparr>) (pu_audios p),
       pu_datas := map (\<lambda>d. False) (pu_datas p)\<rparr>"

text \<open>
  \<open>clearTracks\<close>: \<open>erased\<close> are the keys it erases one by one, \<open>cleared\<close> tells that the last one left is
  erased too, which clears the map, and \<open>kept\<close> counts what is left.
\<close>

definition clearTracks :: "prop_key list \<Rightarrow> bool \<Rightarrow> nat \<Rightarrow> publication \<Rightarrow> publication" where
  "clearTracks erased cleared kept p =
     (let p = fold (\<lambda>key. pub_onParamChange key False) erased p
      in (if cleared then pub_onParamClear p else p)\<lparr>pu_count := (if cleared then 0 else kept)\<rparr>)"

section \<open>Medias\<close>

definition pub_writeAudio :: "(nat \<Rightarrow> sub_env) \<Rightarrow> audio_tag \<Rightarrow> bytes \<Rightarrow> u8 \<Rightarrow> publication \<Rightarrow> pub" where
  "pub_writeAudio envs tag packet track p =
     (if pu_publishing p = 0 then pub_ret p
      else
        let p = p\<lparr>pu_audioTime := at_time tag\<rparr>;
            p = (if track = 0 then p else p\<lparr>pu_audios := grow new_pub_audio track (pu_audios p)\<rparr>)
        in pub_then (flushProperties envs p) (\<lambda>p.
             pub_then (pub_distribute envs (\<lambda>s. Some (OpAudio tag packet track)) (p\<lparr>pu_new := True\<rparr>)) (\<lambda>p.
               pub_ret (if track \<noteq> 0 \<and> at_isConfig tag
                        then p\<lparr>pu_audios := (pu_audios p)[unat track - 1 := (pu_audios p ! (unat track - 1))
                               \<lparr>pa_config := audio_config_set tag packet (pa_config (pu_audios p ! (unat track - 1)))\<rparr>]\<rparr>
                        else p))))"

text \<open>
  \<open>properties\<close>: the packet is a command of properties or not.  It comes with the properties it sets, in their order:
  each one that is new or has another value goes through \<open>onParamChange\<close>, which counts a version and sets the language
  of the track, made if need be (there is none when the publication has no property, the packet is then kept unread);
  and with the number of properties left.
\<close>

definition pub_addProperties :: "(prop_key \<times> bool) list \<Rightarrow> nat \<Rightarrow> publication \<Rightarrow> publication" where
  "pub_addProperties changes count p = (fold (\<lambda>(key, present). pub_onParamChange key present) changes p)\<lparr>pu_count := count\<rparr>"

definition pub_writeData :: "(nat \<Rightarrow> sub_env) \<Rightarrow> u8 \<Rightarrow> bytes \<Rightarrow> u8 \<Rightarrow> ((prop_key \<times> bool) list \<times> nat) option
    \<Rightarrow> publication \<Rightarrow> pub" where
  "pub_writeData envs type packet track properties p =
     (if pu_publishing p = 0 then pub_ret p
      else
        let p = p\<lparr>pu_publishing := 1\<rparr>
        in case (if type \<noteq> 6 then properties else None) of
             Some (changes, count) \<Rightarrow> pub_ret (pub_addProperties changes count p)
           | None \<Rightarrow>
               let p = (if track = 0 then p else p\<lparr>pu_datas := grow False track (pu_datas p)\<rparr>);
                   p = (if track \<noteq> 0 \<and> \<not> pu_datas p ! (unat track - 1) \<and> type = 6
                        then (pub_onParamChange (TextLang track) True p)\<lparr>pu_count := pu_count p + 1\<rparr> else p)
               in pub_then (flushProperties envs p) (\<lambda>p.
                    pub_distribute envs (\<lambda>s. Some (OpData type packet track)) (p\<lparr>pu_new := True\<rparr>)))"

text \<open>
  What a caption extractor calls while it reads a frame: a text of a channel, or a property of its language
  that changes (with the count it leaves).
\<close>

datatype caption = CCText u8 bytes | CCLang u8 bool nat

definition caption_key :: "u8 \<Rightarrow> u8 \<Rightarrow> prop_key" where
  "caption_key track channel =
     (let n = (unat track - 1) * 4 + unat channel in if n < 256 then TextLang (of_nat n) else OtherKey)"

fun pub_captions :: "(nat \<Rightarrow> sub_env) \<Rightarrow> u8 \<Rightarrow> caption list \<Rightarrow> publication \<Rightarrow> pub" where
  "pub_captions envs track [] p = pub_ret p"
| "pub_captions envs track (CCText channel text # cs) p =
     pub_then (pub_writeData envs 6 text ((track - 1) * 4 + channel) None p) (pub_captions envs track cs)"
| "pub_captions envs track (CCLang channel present count # cs) p =
     pub_captions envs track cs ((pub_onParamChange (caption_key track channel) present p)\<lparr>pu_count := count\<rparr>)"

text \<open>A video without its captions for who selects a data track.\<close>

definition without_captions :: "nat \<Rightarrow> video_tag \<Rightarrow> bytes \<Rightarrow> u8 \<Rightarrow> subscription \<Rightarrow> sub_op option" where
  "without_captions offset tag packet track s =
     (if offset \<noteq> 0 \<and> tr_selection (su_datas s) \<noteq> Some 0
      then if length packet > offset then Some (OpVideo tag (drop offset packet) track) else None
      else Some (OpVideo tag packet track))"

definition pub_video_waits :: "u8 \<Rightarrow> publication \<Rightarrow> bool" where
  "pub_video_waits track p = pv_waitKeyFrame (pu_videos p ! (unat track - 1))"

definition set_pub_wait :: "u8 \<Rightarrow> bool \<Rightarrow> publication \<Rightarrow> publication" where
  "set_pub_wait track b p =
     p\<lparr>pu_videos := (pu_videos p)[unat track - 1 := (pu_videos p ! (unat track - 1))\<lparr>pv_waitKeyFrame := b\<rparr>]\<rparr>"

definition pub_writeVideo :: "(nat \<Rightarrow> sub_env) \<Rightarrow> video_tag \<Rightarrow> bytes \<Rightarrow> u8 \<Rightarrow> caption list \<Rightarrow> nat \<Rightarrow> publication \<Rightarrow> pub" where
  "pub_writeVideo envs tag packet track captions offset p =
     (if pu_publishing p = 0 then pub_ret p
      else
        let p = p\<lparr>pu_publishing := 1, pu_videoTime := vt_time tag\<rparr>;
            p = (if track = 0 then p else p\<lparr>pu_videos := grow new_pub_video track (pu_videos p)\<rparr>);
            frame = (vt_frame tag \<noteq> FRAME_CONFIG \<and> track \<noteq> 0)
        in if frame \<and> pub_video_waits track p \<and> vt_frame tag \<noteq> FRAME_KEY then Some (p, [LGap track])
           else
             let p = (if frame \<and> pub_video_waits track p then set_pub_wait track False p else p);
                 offset = (if frame then offset else 0)
             in pub_then (Some (p, [LOffer (vt_frame tag) track])) (\<lambda>p.
                  pub_then (if frame then pub_captions envs track captions p else pub_ret p) (\<lambda>p.
                    pub_then (flushProperties envs p) (\<lambda>p.
                      pub_then (pub_distribute envs (without_captions offset tag packet track) (p\<lparr>pu_new := True\<rparr>)) (\<lambda>p.
                        pub_ret (if track \<noteq> 0 \<and> vt_frame tag = FRAME_CONFIG \<and> packet \<noteq> []
                                 then p\<lparr>pu_videos := (pu_videos p)[unat track - 1 := (pu_videos p ! (unat track - 1))
                                        \<lparr>pv_config := video_config_set tag packet (pv_config (pu_videos p ! (unat track - 1)))\<rparr>]\<rparr>
                                 else p))))))"

section \<open>Life\<close>

text \<open>The rate of what is lost is not modelled.\<close>

definition pub_reportLost :: "media_type \<Rightarrow> nat \<Rightarrow> u8 \<Rightarrow> publication \<Rightarrow> pub" where
  "pub_reportLost type lost track p =
     Some (if lost = 0 then p
           else if type = TYPE_VIDEO \<and> track \<noteq> 0 \<and> unat track \<le> length (pu_videos p)
             then (set_pub_wait track True p)\<lparr>pu_newLost := True\<rparr>
           else p\<lparr>pu_newLost := True\<rparr>,
           [LLost type lost track])"

definition pub_reset :: "(nat \<Rightarrow> sub_env) \<Rightarrow> prop_key list \<Rightarrow> bool \<Rightarrow> nat \<Rightarrow> publication \<Rightarrow> pub" where
  "pub_reset envs erased cleared kept p =
     (if pu_publishing p \<le> 0 then pub_ret p
      else
        let p = p\<lparr>pu_publishing := -1, pu_audios := [], pu_videos := [], pu_datas := [], pu_latency := 0,
                  pu_new := False, pu_newLost := False\<rparr>;
            p = clearTracks erased cleared kept p
        in pub_then (pub_distribute envs (\<lambda>s. Some OpReset) p) (\<lambda>p. pub_ret (p\<lparr>pu_propVersion := pu_version p\<rparr>)))"

definition pub_start :: "(nat \<Rightarrow> sub_env) \<Rightarrow> prop_key list \<Rightarrow> bool \<Rightarrow> nat \<Rightarrow> publication \<Rightarrow> pub" where
  "pub_start envs erased cleared kept p =
     (if pu_publishing p = 0 then pub_ret (p\<lparr>pu_publishing := -1, pu_propVersion := pu_version p\<rparr>)
      else pub_reset envs erased cleared kept p)"

definition pub_stop :: "(nat \<Rightarrow> sub_env) \<Rightarrow> prop_key list \<Rightarrow> bool \<Rightarrow> nat \<Rightarrow> publication \<Rightarrow> pub" where
  "pub_stop envs erased cleared kept p =
     (if pu_publishing p = 0 then pub_ret p
      else pub_then (pub_reset envs erased cleared kept (if pu_publishing p > 0 then p\<lparr>pu_publishing := 2\<rparr> else p))
             (\<lambda>p. pub_ret (p\<lparr>pu_publishing := 0\<rparr>)))"

definition pub_flush :: "(nat \<Rightarrow> sub_env) \<Rightarrow> u16 \<Rightarrow> publication \<Rightarrow> pub" where
  "pub_flush envs ping p =
     (let p = (if pu_publishing p \<noteq> 0 \<and> ping \<noteq> 0 then p\<lparr>pu_latency := drop_bit 1 ping\<rparr> else p)
      in if pu_publishing p = 0 then pub_ret p
         else pub_then (flushProperties envs (p\<lparr>pu_publishing := 1\<rparr>)) (\<lambda>p.
                if \<not> pu_new p then pub_ret p
                else pub_distribute envs (\<lambda>s. Some OpFlush) (p\<lparr>pu_new := False, pu_newLost := False\<rparr>)))"

text \<open>A subscription comes at some place of the set, or goes; its owner calls some of its operations.\<close>

definition pub_subscribe :: "nat \<Rightarrow> nat \<Rightarrow> int \<Rightarrow> bool \<Rightarrow> publication \<Rightarrow> publication" where
  "pub_subscribe place n now multi p =
     (if n \<in> fst ` set (pu_subs p) then p
      else p\<lparr>pu_subs := take place (pu_subs p) @ (n, new_subscription now multi) # drop place (pu_subs p)\<rparr>)"

definition pub_unsubscribe :: "nat \<Rightarrow> publication \<Rightarrow> publication" where
  "pub_unsubscribe n p = p\<lparr>pu_subs := filter (\<lambda>(m, s). m \<noteq> n) (pu_subs p)\<rparr>"

fun own_op :: "sub_op \<Rightarrow> bool" where
  "own_op (OpAudio tag packet track) = False"
| "own_op (OpVideo tag packet track) = False"
| "own_op (OpData type packet track) = False"
| "own_op OpProperties = False"
| "own_op oper = True"

fun sub_own :: "sub_env \<Rightarrow> nat \<Rightarrow> sub_op \<Rightarrow> (nat \<times> subscription) list \<Rightarrow> ((nat \<times> subscription) list \<times> pub_log list) option" where
  "sub_own env n oper [] = Some ([], [])"
| "sub_own env n oper ((m, s) # subs) =
     (if m = n
      then (case su_step env oper s of
              None \<Rightarrow> None
            | Some (s', es, _) \<Rightarrow> Some ((m, s') # subs, [LSub m oper (su_takes env oper s) es]))
      else map_option (\<lambda>(subs, log). ((m, s) # subs, log)) (sub_own env n oper subs))"

datatype pub_op =
    PuStart "prop_key list" bool nat
  | PuReset "prop_key list" bool nat
  | PuStop "prop_key list" bool nat
  | PuFlush u16
  | PuLost media_type nat u8
  | PuAudio audio_tag bytes u8
  | PuVideo video_tag bytes u8 "caption list" nat
  | PuData u8 bytes u8 "((prop_key \<times> bool) list \<times> nat) option"
  | PuProperty prop_key bool nat
  | PuSubscribe nat nat int bool
  | PuUnsubscribe nat
  | PuOwn nat sub_op

fun pub_step :: "(nat \<Rightarrow> sub_env) \<Rightarrow> pub_op \<Rightarrow> publication \<Rightarrow> pub" where
  "pub_step envs (PuStart erased cleared kept) p = pub_start envs erased cleared kept p"
| "pub_step envs (PuReset erased cleared kept) p = pub_reset envs erased cleared kept p"
| "pub_step envs (PuStop erased cleared kept) p = pub_stop envs erased cleared kept p"
| "pub_step envs (PuFlush ping) p = pub_flush envs ping p"
| "pub_step envs (PuLost type lost track) p = pub_reportLost type lost track p"
| "pub_step envs (PuAudio tag packet track) p = pub_writeAudio envs tag packet track p"
| "pub_step envs (PuVideo tag packet track captions offset) p = pub_writeVideo envs tag packet track captions offset p"
| "pub_step envs (PuData type packet track properties) p = pub_writeData envs type packet track properties p"
| "pub_step envs (PuProperty key present count) p = pub_ret ((pub_onParamChange key present p)\<lparr>pu_count := count\<rparr>)"
| "pub_step envs (PuSubscribe place n now multi) p = pub_ret (pub_subscribe place n now multi p)"
| "pub_step envs (PuUnsubscribe n) p = pub_ret (pub_unsubscribe n p)"
| "pub_step envs (PuOwn n oper) p =
     (if \<not> own_op oper then pub_ret p
      else map_option (\<lambda>(subs, log). (p\<lparr>pu_subs := subs\<rparr>, log)) (sub_own (pub_env p (envs n)) n oper (pu_subs p)))"

fun pub_run :: "((nat \<Rightarrow> sub_env) \<times> pub_op) list \<Rightarrow> publication \<Rightarrow> pub" where
  "pub_run [] p = pub_ret p"
| "pub_run ((envs, oper) # ops) p = pub_then (pub_step envs oper p) (pub_run ops)"

section \<open>What a subscription gets of a publication\<close>

definition sub_log :: "nat \<Rightarrow> pub_log list \<Rightarrow> (sub_op \<times> bool \<times> target_event list) list" where
  "sub_log n log = List.concat (map (\<lambda>e. case e of LSub m oper taken es \<Rightarrow> if m = n then [(oper, taken, es)] else [] | _ \<Rightarrow> []) log)"

lemma sub_log_simps [simp]:
  "sub_log n [] = []" "sub_log n (log @ log') = sub_log n log @ sub_log n log'"
  "sub_log n (LSub m oper taken es # log) = (if m = n then [(oper, taken, es)] else []) @ sub_log n log"
  "sub_log n (LOffer frame track # log) = sub_log n log" "sub_log n (LGap track # log) = sub_log n log"
  "sub_log n (LLost type lost track # log) = sub_log n log"
  by (simp_all add: sub_log_def)

text \<open>
  The frames of a track offered to all: no inter frame behind a frame that was dropped, or a loss of video reported
  with the number of this track.
\<close>

fun offers :: "u8 \<Rightarrow> bool \<Rightarrow> pub_log list \<Rightarrow> bool option" where
  "offers t flag [] = Some flag"
| "offers t flag (LSub n oper taken es # log) = offers t flag log"
| "offers t flag (LGap track # log) = offers t (flag \<and> track \<noteq> t) log"
| "offers t flag (LLost type lost track # log) = offers t (flag \<and> \<not> (type = TYPE_VIDEO \<and> track = t \<and> lost \<noteq> 0)) log"
| "offers t flag (LOffer frame track # log) =
     (if track \<noteq> t \<or> frame = FRAME_CONFIG then offers t flag log
      else if frame = FRAME_KEY \<or> flag then offers t True log else None)"

lemma offers_append: "offers t flag (log @ log') = Option.bind (offers t flag log) (\<lambda>f. offers t f log')"
  by (induction t flag log rule: offers.induct) auto

lemma track_history_append:
  "track_history t flag (log @ log') = Option.bind (track_history t flag log) (\<lambda>f. track_history t f log')"
  by (induction t flag log rule: track_history.induct) (auto split: Option.bind_split)

abbreviation waiting :: "publication \<Rightarrow> bool list" where
  "waiting p \<equiv> map pv_waitKeyFrame (pu_videos p)"

definition waits_in :: "u8 \<Rightarrow> bool list \<Rightarrow> bool" where
  "waits_in t ws \<longleftrightarrow> (unat t \<le> length ws \<longrightarrow> ws ! (unat t - 1))"

definition subs_inv :: "u8 \<Rightarrow> (nat \<Rightarrow> bool) \<Rightarrow> (nat \<times> subscription) list \<Rightarrow> bool" where
  "subs_inv t flags subs \<longleftrightarrow> distinct (map fst subs) \<and> list_all (\<lambda>(n, s). vinv t (flags n) s) subs"

definition pub_inv :: "u8 \<Rightarrow> (nat \<Rightarrow> bool) \<Rightarrow> bool \<Rightarrow> publication \<Rightarrow> bool" where
  "pub_inv t flags offered p \<longleftrightarrow> subs_inv t flags (pu_subs p) \<and> (\<not> offered \<longrightarrow> waits_in t (waiting p))"

definition pub_safe :: "u8 \<Rightarrow> (nat \<Rightarrow> bool) \<Rightarrow> bool \<Rightarrow> (publication \<Rightarrow> bool) \<Rightarrow> pub \<Rightarrow> bool" where
  "pub_safe t flags offered Q m \<longleftrightarrow> (case m of None \<Rightarrow> True
     | Some (p, log) \<Rightarrow> \<exists>flags' offered'. (\<forall>n. track_history t (flags n) (sub_log n log) = Some (flags' n))
         \<and> offers t offered log = Some offered' \<and> pub_inv t flags' offered' p \<and> Q p)"

lemma pub_safe_then:
  assumes "pub_safe t flags offered Q m" "\<And>flags offered p. pub_inv t flags offered p \<Longrightarrow> Q p \<Longrightarrow> pub_safe t flags offered R (f p)"
  shows "pub_safe t flags offered R (pub_then m f)"
proof (cases m)
  case (Some r)
  obtain p log where r: "r = (p, log)" by fastforce
  obtain flags' offered' where 1: "\<forall>n. track_history t (flags n) (sub_log n log) = Some (flags' n)"
    "offers t offered log = Some offered'" "pub_inv t flags' offered' p" "Q p"
    using assms(1) by (auto simp: pub_safe_def Some r)
  show ?thesis
  proof (cases "f p")
    case (Some r')
    then show ?thesis using assms(2)[OF 1(3,4)] 1(1,2) \<open>m = Some r\<close> r
      by (cases r') (auto simp: pub_safe_def pub_then_def track_history_append offers_append)
  qed (simp add: pub_safe_def pub_then_def \<open>m = Some r\<close> r)
qed (simp add: pub_safe_def pub_then_def)

lemma pub_safe_ret: "pub_inv t flags offered p \<Longrightarrow> Q p \<Longrightarrow> pub_safe t flags offered Q (pub_ret p)"
  by (auto simp: pub_safe_def pub_ret_def)

lemma step_history:
  assumes "su_step env oper s = Some (s', es, x)" "vinv t f s" "en_now env \<noteq> 0" "t \<noteq> 0"
  shows "\<exists>f'. track_history t f [(oper, su_takes env oper s, es)] = Some f' \<and> vinv t f' s'"
proof -
  obtain f1 where f1: "play_flag t f es = Some f1" "vinv t f1 s'"
    using vsafe_step [OF assms(2-4), of oper] by (auto simp: vsafe_def assms(1))
  let ?f = "f1 \<and> \<not> gap t oper (su_takes env oper s) es"
  have "vinv t ?f s'" using step_gap [OF assms(1) f1(2)] f1(2) assms(4) by (cases "gap t oper (su_takes env oper s) es") auto
  then show ?thesis using f1(1) by auto
qed

lemma subs_inv_Cons:
  "subs_inv t flags ((n, s) # subs) \<longleftrightarrow> vinv t (flags n) s \<and> n \<notin> fst ` set subs \<and> subs_inv t flags subs"
  by (auto simp: subs_inv_def)

lemma subs_inv_cong: "(\<And>n. n \<in> fst ` set subs \<Longrightarrow> flags n = flags' n) \<Longrightarrow> subs_inv t flags subs = subs_inv t flags' subs"
proof -
  assume eq: "\<And>n. n \<in> fst ` set subs \<Longrightarrow> flags n = flags' n"
  have "flags n = flags' n" if "(n, s) \<in> set subs" for n s using eq that by force
  then show ?thesis by (auto simp: subs_inv_def list_all_iff)
qed

definition quiet_log :: "nat set \<Rightarrow> pub_log list \<Rightarrow> bool" where
  "quiet_log ns log \<longleftrightarrow> list_all (\<lambda>e. case e of LSub n oper taken es \<Rightarrow> n \<in> ns | _ \<Rightarrow> False) log"

lemma quiet_log_sub: "quiet_log ns log \<Longrightarrow> n \<notin> ns \<Longrightarrow> sub_log n log = []"
  by (induction log) (auto simp: quiet_log_def split: pub_log.splits)

lemma quiet_log_offers: "quiet_log ns log \<Longrightarrow> offers t flag log = Some flag"
  by (induction t flag log rule: offers.induct) (auto simp: quiet_log_def)

lemma quiet_log_mono: "quiet_log ns log \<Longrightarrow> ns \<subseteq> ms \<Longrightarrow> quiet_log ms log"
  by (induction log) (auto simp: quiet_log_def split: pub_log.splits)

lemma distribute_safe:
  assumes "distribute envs f subs = Some (subs', log)" "subs_inv t flags subs" "\<And>n. en_now (envs n) \<noteq> 0" "t \<noteq> 0"
  shows "map fst subs' = map fst subs \<and> quiet_log (fst ` set subs) log \<and>
    (\<exists>flags'. (\<forall>n. track_history t (flags n) (sub_log n log) = Some (flags' n)) \<and> subs_inv t flags' subs')"
  using assms(1,2)
proof (induction subs arbitrary: subs' log)
  case (Cons ns subs)
  obtain n s where ns: "ns = (n, s)" by fastforce
  note inv = Cons.prems(2) [unfolded ns subs_inv_Cons]
  show ?case
  proof (cases "f s")
    case None
    then obtain subs1 where "distribute envs f subs = Some (subs1, log)" "subs' = (n, s) # subs1"
      using Cons.prems(1) by (auto simp: ns)
    moreover from this obtain flags' where 1: "map fst subs1 = map fst subs" "quiet_log (fst ` set subs) log"
      "\<forall>n. track_history t (flags n) (sub_log n log) = Some (flags' n)" "subs_inv t flags' subs1"
      using Cons.IH inv by blast
    moreover have "flags' n = flags n" using 1(2,3) inv quiet_log_sub [of "fst ` set subs" log n] by (metis option.inject track_history.simps(1))
    moreover have "fst ` set subs1 = fst ` set subs" using 1(1) by (metis list.set_map)
    ultimately show ?thesis using inv quiet_log_mono [of "fst ` set subs" log "insert n (fst ` set subs)"]
      by (auto simp: ns subs_inv_Cons intro!: exI [of _ flags'])
  next
    case (Some oper)
    then obtain s1 es subs1 log1 where step: "su_step (envs n) oper s = Some (s1, es, ())"
      "distribute envs f subs = Some (subs1, log1)" "subs' = (n, s1) # subs1"
      "log = LSub n oper (su_takes (envs n) oper s) es # log1"
      using Cons.prems(1) by (auto simp: ns split: option.splits)
    obtain flags' where 1: "map fst subs1 = map fst subs" "quiet_log (fst ` set subs) log1"
      "\<forall>n. track_history t (flags n) (sub_log n log1) = Some (flags' n)" "subs_inv t flags' subs1"
      using Cons.IH [OF step(2)] inv by blast
    obtain f' where f': "track_history t (flags n) [(oper, su_takes (envs n) oper s, es)] = Some f'" "vinv t f' s1"
      using step_history [OF step(1) _ assms(3,4)] inv by blast
    have fst1: "fst ` set subs1 = fst ` set subs" using 1(1) by (metis list.set_map)
    have "subs_inv t (flags'(n := f')) subs1"
      by (subst subs_inv_cong [of subs1 _ flags']) (use inv fst1 1(4) in auto)
    then have "subs_inv t (flags'(n := f')) subs'"
      using f'(2) inv fst1 by (simp add: step(3) subs_inv_Cons)
    moreover have "track_history t (flags m) (sub_log m log) = Some ((flags'(n := f')) m)" for m
    proof (cases "m = n")
      case True
      have "sub_log n log1 = []" using quiet_log_sub [OF 1(2)] inv by blast
      then show ?thesis using True f'(1) by (simp add: step(4) del: track_history.simps)
    next
      case False
      then show ?thesis using 1(3) by (simp add: step(4))
    qed
    moreover have "quiet_log (fst ` set (ns # subs)) log"
      using quiet_log_mono [OF 1(2)] by (auto simp: step(4) ns quiet_log_def)
    moreover have "map fst subs' = map fst (ns # subs)" using 1(1) by (simp add: step(3) ns)
    ultimately show ?thesis by blast
  qed
qed (auto simp: quiet_log_def subs_inv_def)


lemma sub_own_safe:
  assumes "sub_own env n oper subs = Some (subs', log)" "subs_inv t flags subs" "en_now env \<noteq> 0" "t \<noteq> 0"
  shows "map fst subs' = map fst subs \<and> quiet_log (fst ` set subs) log \<and>
    (\<exists>flags'. (\<forall>n. track_history t (flags n) (sub_log n log) = Some (flags' n)) \<and> subs_inv t flags' subs')"
  using assms(1,2)
proof (induction subs arbitrary: subs' log)
  case (Cons ms subs)
  obtain m s where ms: "ms = (m, s)" by fastforce
  note inv = Cons.prems(2) [unfolded ms subs_inv_Cons]
  show ?case
  proof (cases "m = n")
    case True
    then obtain s1 es where step: "su_step env oper s = Some (s1, es, ())" "subs' = (n, s1) # subs"
      "log = [LSub n oper (su_takes env oper s) es]"
      using Cons.prems(1) by (auto simp: ms split: option.splits)
    obtain f' where f': "track_history t (flags n) [(oper, su_takes env oper s, es)] = Some f'" "vinv t f' s1"
      using step_history [OF step(1) _ assms(3,4)] inv True by blast
    have "subs_inv t (flags(n := f')) subs" by (subst subs_inv_cong [of subs _ flags]) (use inv True in auto)
    then show ?thesis using f' inv True
      by (auto simp: step(2,3) ms subs_inv_Cons quiet_log_def intro!: exI [of _ "flags(n := f')"])
  next
    case False
    then obtain subs1 where "sub_own env n oper subs = Some (subs1, log)" "subs' = (m, s) # subs1"
      using Cons.prems(1) by (auto simp: ms)
    moreover from this obtain flags' where 1: "map fst subs1 = map fst subs" "quiet_log (fst ` set subs) log"
      "\<forall>n. track_history t (flags n) (sub_log n log) = Some (flags' n)" "subs_inv t flags' subs1"
      using Cons.IH inv by blast
    moreover have "flags' m = flags m" using 1(2,3) inv quiet_log_sub [of "fst ` set subs" log m] by (metis option.inject track_history.simps(1))
    moreover have "fst ` set subs1 = fst ` set subs" using 1(1) by (metis list.set_map)
    ultimately show ?thesis using inv quiet_log_mono [of "fst ` set subs" log "insert m (fst ` set subs)"]
      by (auto simp: ms subs_inv_Cons intro!: exI [of _ flags'])
  qed
qed (auto simp: quiet_log_def subs_inv_def)

lemma pub_env_now [simp]: "en_now (pub_env p env) = en_now env"
  by (simp add: pub_env_def)

abbreviation clocked :: "(nat \<Rightarrow> sub_env) \<Rightarrow> bool" where "clocked envs \<equiv> \<forall>n. en_now (envs n) \<noteq> 0"

lemma pub_distribute_safe:
  assumes "pub_inv t flags offered p" "waiting p = ws" "clocked envs" "t \<noteq> 0"
  shows "pub_safe t flags offered (\<lambda>p. waiting p = ws) (pub_distribute envs f p)"
proof (cases "distribute (\<lambda>n. pub_env p (envs n)) f (pu_subs p)")
  case (Some r)
  obtain subs log where r: "r = (subs, log)" by fastforce
  have "subs_inv t flags (pu_subs p)" using assms(1) by (simp add: pub_inv_def)
  then obtain flags' where 1: "quiet_log (fst ` set (pu_subs p)) log"
    "\<forall>n. track_history t (flags n) (sub_log n log) = Some (flags' n)" "subs_inv t flags' subs"
    using distribute_safe [OF Some [unfolded r] _ _ assms(4)] assms(3) by (metis pub_env_now)
  then have inv: "pub_inv t flags' offered (p\<lparr>pu_subs := subs\<rparr>)" "offers t offered log = Some offered"
    using assms(1) quiet_log_offers by (auto simp: pub_inv_def)
  show ?thesis
    unfolding pub_safe_def pub_distribute_def Some r option.map option.case prod.case
    by (rule exI [of _ flags'], rule exI [of _ offered]) (simp add: inv 1(2) assms(2))
qed (simp add: pub_safe_def pub_distribute_def)

lemma pub_inv_simps [simp]:
  "pub_inv t flags offered (p\<lparr>pu_publishing := a\<rparr>) = pub_inv t flags offered p" "pub_inv t flags offered (p\<lparr>pu_new := b\<rparr>) = pub_inv t flags offered p"
  "pub_inv t flags offered (p\<lparr>pu_newLost := b\<rparr>) = pub_inv t flags offered p" "pub_inv t flags offered (p\<lparr>pu_latency := l\<rparr>) = pub_inv t flags offered p"
  "pub_inv t flags offered (p\<lparr>pu_version := v\<rparr>) = pub_inv t flags offered p" "pub_inv t flags offered (p\<lparr>pu_propVersion := v\<rparr>) = pub_inv t flags offered p"
  "pub_inv t flags offered (p\<lparr>pu_count := n\<rparr>) = pub_inv t flags offered p" "pub_inv t flags offered (p\<lparr>pu_audioTime := v\<rparr>) = pub_inv t flags offered p"
  "pub_inv t flags offered (p\<lparr>pu_videoTime := v\<rparr>) = pub_inv t flags offered p" "pub_inv t flags offered (p\<lparr>pu_audios := as\<rparr>) = pub_inv t flags offered p"
  "pub_inv t flags offered (p\<lparr>pu_datas := ds\<rparr>) = pub_inv t flags offered p"
  by (simp_all add: pub_inv_def)

lemma pub_lang_fields [simp]:
  "pub_inv t flags offered (pub_onParamChange key b p) = pub_inv t flags offered p" "pu_videos (pub_onParamChange key b p) = pu_videos p"
  "pu_publishing (pub_onParamChange key b p) = pu_publishing p" "pu_subs (pub_onParamChange key b p) = pu_subs p"
  by (auto simp: pub_onParamChange_def pub_lang_def split: prop_key.split)

lemma pub_addProperties_fields [simp]:
  "pub_inv t flags offered (pub_addProperties changes count p) = pub_inv t flags offered p"
  "pu_videos (pub_addProperties changes count p) = pu_videos p"
proof -
  have "pub_inv t flags offered (fold (\<lambda>(key, present). pub_onParamChange key present) changes p) = pub_inv t flags offered p
      \<and> pu_videos (fold (\<lambda>(key, present). pub_onParamChange key present) changes p) = pu_videos p"
    by (induction changes arbitrary: p) (simp_all add: case_prod_beta)
  then show "pub_inv t flags offered (pub_addProperties changes count p) = pub_inv t flags offered p"
    "pu_videos (pub_addProperties changes count p) = pu_videos p"
    by (simp_all add: pub_addProperties_def)
qed

lemma flushProperties_safe:
  assumes "pub_inv t flags offered p" "waiting p = ws" "clocked envs" "t \<noteq> 0"
  shows "pub_safe t flags offered (\<lambda>p. waiting p = ws) (flushProperties envs p)"
  unfolding flushProperties_def by (auto simp: assms intro!: pub_safe_ret pub_distribute_safe)

lemma pub_writeData_safe:
  assumes "pub_inv t flags offered p" "waiting p = ws" "clocked envs" "t \<noteq> 0"
  shows "pub_safe t flags offered (\<lambda>p. waiting p = ws) (pub_writeData envs type packet track properties p)"
proof -
  have sent: "pub_safe t flags offered (\<lambda>p. waiting p = ws)
      (pub_then (flushProperties envs p) (\<lambda>p. pub_distribute envs (\<lambda>s. Some (OpData type packet track)) (p\<lparr>pu_new := True\<rparr>)))"
    if "pub_inv t flags offered p" "waiting p = ws" for p
    by (rule pub_safe_then [OF flushProperties_safe [OF that assms(3,4)]]) (rule pub_distribute_safe, simp_all add: assms(3,4))
  define p1 where "p1 = (if track = 0 then p\<lparr>pu_publishing := 1\<rparr> else p\<lparr>pu_publishing := 1, pu_datas := grow False track (pu_datas p)\<rparr>)"
  define p2 where "p2 = (if track \<noteq> 0 \<and> \<not> pu_datas p1 ! (unat track - 1) \<and> type = 6
    then (pub_onParamChange (TextLang track) True p1)\<lparr>pu_count := pu_count p1 + 1\<rparr> else p1)"
  have p1: "pub_inv t flags offered p1" "waiting p1 = ws" using assms(1,2) by (simp_all add: p1_def)
  have p2: "pub_inv t flags offered p2" "waiting p2 = ws" using p1 by (simp_all add: p2_def)
  have "pub_writeData envs type packet track properties p =
      (if pu_publishing p = 0 then pub_ret p
       else case (if type \<noteq> 6 then properties else None) of
         Some (changes, count) \<Rightarrow> pub_ret (pub_addProperties changes count (p\<lparr>pu_publishing := 1\<rparr>))
       | None \<Rightarrow> pub_then (flushProperties envs p2) (\<lambda>p. pub_distribute envs (\<lambda>s. Some (OpData type packet track)) (p\<lparr>pu_new := True\<rparr>)))"
    unfolding pub_writeData_def Let_def p2_def p1_def by (cases "track = 0"; cases properties) simp_all
  then show ?thesis using sent [OF p2] assms(1,2) by (auto intro!: pub_safe_ret split: option.split)
qed

lemma pub_captions_safe:
  assumes "pub_inv t flags offered p" "waiting p = ws" "clocked envs" "t \<noteq> 0"
  shows "pub_safe t flags offered (\<lambda>p. waiting p = ws) (pub_captions envs track cs p)"
  using assms(1-3)
proof (induction envs track cs p arbitrary: flags offered rule: pub_captions.induct)
  case (2 envs track channel buf cs p)
  show ?case unfolding pub_captions.simps
    by (rule pub_safe_then [OF pub_writeData_safe [OF 2(2-4) assms(4)]]) (rule 2(1), simp_all add: 2(4))
next
  case (3 envs track channel present count cs p)
  show ?case unfolding pub_captions.simps by (rule 3(1)) (use 3(2-4) in simp_all)
qed (simp add: pub_safe_ret)


text \<open>The frames of a video and the losses.\<close>

lemma pub_safe_mono: "pub_safe t flags offered Q m \<Longrightarrow> (\<And>p. Q p \<Longrightarrow> R p) \<Longrightarrow> pub_safe t flags offered R m"
proof (cases m)
  case (Some r)
  then show "pub_safe t flags offered Q m \<Longrightarrow> (\<And>p. Q p \<Longrightarrow> R p) \<Longrightarrow> pub_safe t flags offered R m"
    by (cases r) (simp add: pub_safe_def, blast)
qed (simp add: pub_safe_def)

lemma waits_in_grow: "t \<noteq> 0 \<Longrightarrow> waits_in t ws \<Longrightarrow> waits_in t (grow True track ws)"
proof -
  assume t: "t \<noteq> 0" and ws: "waits_in t ws"
  have pos: "unat t > 0" using t by (simp add: unat_gt_0)
  show ?thesis
  proof (cases "unat t \<le> length ws")
    case True
    then have "unat t - 1 < length ws" using pos by linarith
    then show ?thesis using ws True by (simp add: waits_in_def grow_def nth_append)
  next
    case False
    then show ?thesis by (auto simp: waits_in_def grow_def nth_append)
  qed
qed

lemma map_grow: "map f (grow new track xs) = grow (f new) track (map f xs)"
  by (simp add: grow_def)

lemma pub_inv_grow:
  "pub_inv t flags offered p \<Longrightarrow> t \<noteq> 0 \<Longrightarrow> pub_inv t flags offered (p\<lparr>pu_videos := grow new_pub_video track (pu_videos p)\<rparr>)"
  by (auto simp: pub_inv_def map_grow new_pub_video_def waits_in_grow)

lemma pub_safe_log:
  assumes "offers t offered log = Some offered'" "pub_inv t flags offered' p" "Q p" "\<And>n. sub_log n log = []"
  shows "pub_safe t flags offered Q (Some (p, log))"
  using assms by (auto simp: pub_safe_def)

lemma track_nat_eq: "t \<noteq> 0 \<Longrightarrow> track \<noteq> 0 \<Longrightarrow> unat t - 1 = unat track - 1 \<longleftrightarrow> track = t"
proof -
  assume "t \<noteq> 0" "track \<noteq> 0"
  then have "unat track > 0" "unat t > 0" by (simp_all add: unat_gt_0)
  then have "unat t - 1 = unat track - 1 \<longleftrightarrow> unat track = unat t" by linarith
  then show ?thesis by (metis word_unat_eq_iff)
qed

lemma set_pub_wait_fields [simp]:
  "pu_subs (set_pub_wait track b p) = pu_subs p" "waiting (set_pub_wait track b p) = (waiting p)[unat track - 1 := b]"
  by (simp_all add: set_pub_wait_def map_update)

lemma waits_in_update:
  assumes "t \<noteq> 0" "track \<noteq> 0" "track \<noteq> t \<or> b"
  shows "waits_in t ws \<Longrightarrow> waits_in t (ws[unat track - 1 := b])"
proof -
  assume ws: "waits_in t ws"
  have "unat t > 0" using assms(1) by (simp add: unat_gt_0)
  then have "unat t - 1 < n" if "unat t \<le> n" for n using that by linarith
  then show ?thesis using ws track_nat_eq [OF assms(1,2)] assms(3) by (auto simp: waits_in_def nth_update_if)
qed


lemma pub_writeAudio_safe:
  assumes "pub_inv t flags offered p" "clocked envs" "t \<noteq> 0"
  shows "pub_safe t flags offered (\<lambda>p. True) (pub_writeAudio envs tag packet track p)"
proof -
  define p1 where "p1 = (if track = 0 then p\<lparr>pu_audioTime := at_time tag\<rparr>
    else p\<lparr>pu_audioTime := at_time tag, pu_audios := grow new_pub_audio track (pu_audios p)\<rparr>)"
  have p1: "pub_inv t flags offered p1" using assms(1) by (simp add: p1_def)
  have "pub_safe t flags offered (\<lambda>p. True) (pub_then (flushProperties envs p1) (\<lambda>p.
      pub_then (pub_distribute envs (\<lambda>s. Some (OpAudio tag packet track)) (p\<lparr>pu_new := True\<rparr>)) (\<lambda>p. pub_ret (f p))))"
    if "\<And>p. pu_subs (f p) = pu_subs p \<and> pu_videos (f p) = pu_videos p" for f
    by (rule pub_safe_then [OF flushProperties_safe [OF p1 refl assms(2,3)]],
        rule pub_safe_then [OF pub_distribute_safe [OF _ refl assms(2,3)]], simp, rule pub_safe_ret)
      (use that in \<open>simp_all add: pub_inv_def\<close>)
  note sent = this [of "\<lambda>p. if track \<noteq> 0 \<and> at_isConfig tag
                        then p\<lparr>pu_audios := (pu_audios p)[unat track - 1 := (pu_audios p ! (unat track - 1))
                               \<lparr>pa_config := audio_config_set tag packet (pa_config (pu_audios p ! (unat track - 1)))\<rparr>]\<rparr>
                        else p"]
  have "pub_writeAudio envs tag packet track p = (if pu_publishing p = 0 then pub_ret p else
      pub_then (flushProperties envs p1) (\<lambda>p.
        pub_then (pub_distribute envs (\<lambda>s. Some (OpAudio tag packet track)) (p\<lparr>pu_new := True\<rparr>)) (\<lambda>p. pub_ret (if track \<noteq> 0 \<and> at_isConfig tag
                        then p\<lparr>pu_audios := (pu_audios p)[unat track - 1 := (pu_audios p ! (unat track - 1))
                               \<lparr>pa_config := audio_config_set tag packet (pa_config (pu_audios p ! (unat track - 1)))\<rparr>]\<rparr>
                        else p))))"
    unfolding pub_writeAudio_def Let_def p1_def by (cases "track = 0") simp_all
  then show ?thesis using sent assms(1) by (simp add: pub_safe_ret)
qed

lemma pub_writeVideo_safe:
  assumes "pub_inv t flags offered p" "clocked envs" "t \<noteq> 0"
  shows "pub_safe t flags offered (\<lambda>p. True) (pub_writeVideo envs tag packet track captions offset p)"
proof (cases "pu_publishing p = 0")
  case False
  define p1 where "p1 = (if track = 0 then p\<lparr>pu_publishing := 1, pu_videoTime := vt_time tag\<rparr>
    else p\<lparr>pu_publishing := 1, pu_videoTime := vt_time tag, pu_videos := grow new_pub_video track (pu_videos p)\<rparr>)"
  define frame where "frame \<longleftrightarrow> vt_frame tag \<noteq> FRAME_CONFIG \<and> track \<noteq> 0"
  define p2 where "p2 = (if frame \<and> pub_video_waits track p1 then set_pub_wait track False p1 else p1)"
  define ending where "ending = (\<lambda>p :: publication. if track \<noteq> 0 \<and> vt_frame tag = FRAME_CONFIG \<and> packet \<noteq> []
                                 then p\<lparr>pu_videos := (pu_videos p)[unat track - 1 := (pu_videos p ! (unat track - 1))
                                        \<lparr>pv_config := video_config_set tag packet (pv_config (pu_videos p ! (unat track - 1)))\<rparr>]\<rparr>
                                 else p)"
  let ?drops = "frame \<and> pub_video_waits track p1 \<and> vt_frame tag \<noteq> FRAME_KEY"
  have eq: "pub_writeVideo envs tag packet track captions offset p =
      (if ?drops then Some (p1, [LGap track])
       else pub_then (Some (p2, [LOffer (vt_frame tag) track])) (\<lambda>p.
              pub_then (if frame then pub_captions envs track captions p else pub_ret p) (\<lambda>p.
                pub_then (flushProperties envs p) (\<lambda>p.
                  pub_then (pub_distribute envs (without_captions (if frame then offset else 0) tag packet track) (p\<lparr>pu_new := True\<rparr>))
                    (\<lambda>p. pub_ret (ending p))))))"
    using False unfolding pub_writeVideo_def Let_def p2_def p1_def frame_def ending_def by (cases "track = 0") simp_all
  have p1: "pub_inv t flags offered p1" using pub_inv_grow [of t flags offered "p\<lparr>pu_publishing := 1, pu_videoTime := vt_time tag\<rparr>" track] assms(1,3) by (simp add: p1_def)
  have there: "unat track - 1 < length (waiting p1)" if "track \<noteq> 0"
  proof -
    have "unat track > 0" using that by (simp add: unat_gt_0)
    then have "unat track - 1 < n + (unat track - n)" for n by linarith
    then show ?thesis using that by (simp add: p1_def grow_def)
  qed
  have waits1: "pub_video_waits track p1 = waiting p1 ! (unat track - 1)" if "track \<noteq> 0"
    using there [OF that] by (simp add: pub_video_waits_def)
  have ending: "pub_inv t flags offered (ending p) = pub_inv t flags offered p" for flags offered p
  proof -
    have "waiting (ending p) = waiting p"
      by (auto simp: ending_def map_update list_update_id) (metis (no_types, lifting) list_update_beyond list_update_id linorder_not_less length_map nth_map)
    then show ?thesis by (auto simp: pub_inv_def ending_def)
  qed
  show ?thesis
  proof (cases ?drops)
    case True
    then have "pub_inv t flags (offered \<and> track \<noteq> t) p1"
      using p1 waits1 by (auto simp: pub_inv_def frame_def waits_in_def)
    then show ?thesis using True by (simp add: eq pub_safe_log)
  next
    case False
    let ?offered = "offered \<or> (track = t \<and> frame)"
    have "offers t offered [LOffer (vt_frame tag) track] = Some ?offered"
      using False p1 waits1 assms(3) there by (auto simp: frame_def pub_inv_def waits_in_def split: if_splits)
    moreover have "pub_inv t flags ?offered p2"
      using p1 assms(3) waits_in_update [OF assms(3), of track False "waiting p1"] by (auto simp: p2_def pub_inv_def frame_def)
    ultimately have offer: "pub_safe t flags offered (\<lambda>p. True) (Some (p2, [LOffer (vt_frame tag) track]))"
      by (rule pub_safe_log) simp_all
    have captions: "pub_safe t flags offered (\<lambda>p. True) (if frame then pub_captions envs track captions p else pub_ret p)"
      if "pub_inv t flags offered p" for flags offered p
      using pub_captions_safe [OF that refl assms(2,3)] that by (auto intro: pub_safe_ret pub_safe_mono)
    show ?thesis unfolding eq if_not_P [OF False]
      by (rule pub_safe_then [OF offer], rule pub_safe_then [OF captions], assumption,
          rule pub_safe_then [OF flushProperties_safe [OF _ refl assms(2,3)]], assumption,
          rule pub_safe_then [OF pub_distribute_safe [OF _ refl assms(2,3)]], simp, rule pub_safe_ret)
        (simp_all add: ending)
  qed
qed (use assms in \<open>simp add: pub_writeVideo_def pub_safe_ret\<close>)


section \<open>All operations\<close>

lemma clearTracks_fields [simp]:
  "pu_subs (clearTracks erased cleared kept p) = pu_subs p" "pu_videos (clearTracks erased cleared kept p) = pu_videos p"
proof -
  have "pu_subs (fold (\<lambda>key. pub_onParamChange key False) erased p) = pu_subs p \<and>
      pu_videos (fold (\<lambda>key. pub_onParamChange key False) erased p) = pu_videos p"
    by (induction erased arbitrary: p) simp_all
  then show "pu_subs (clearTracks erased cleared kept p) = pu_subs p" "pu_videos (clearTracks erased cleared kept p) = pu_videos p"
    by (simp_all add: clearTracks_def Let_def pub_onParamClear_def)
qed

lemma pub_inv_cleared: "pub_inv t flags offered p \<Longrightarrow> t \<noteq> 0 \<Longrightarrow> pu_subs p' = pu_subs p \<Longrightarrow> pu_videos p' = [] \<Longrightarrow> pub_inv t flags offered p'"
  by (simp add: pub_inv_def waits_in_def unat_eq_zero)

lemma pub_reset_safe:
  assumes "pub_inv t flags offered p" "clocked envs" "t \<noteq> 0"
  shows "pub_safe t flags offered (\<lambda>p. True) (pub_reset envs erased cleared kept p)"
proof -
  have "pub_inv t flags offered (clearTracks erased cleared kept (p\<lparr>pu_publishing := -1, pu_audios := [], pu_videos := [], pu_datas := [],
      pu_latency := 0, pu_new := False, pu_newLost := False\<rparr>))"
    by (rule pub_inv_cleared [OF assms(1,3)]) simp_all
  note reset = pub_distribute_safe [OF this refl assms(2,3)]
  show ?thesis
    unfolding pub_reset_def Let_def
    by (simp add: pub_safe_ret assms(1)) (intro impI pub_safe_then [OF reset] pub_safe_ret, simp_all)
qed

lemma pub_flush_safe:
  assumes "pub_inv t flags offered p" "clocked envs" "t \<noteq> 0"
  shows "pub_safe t flags offered (\<lambda>p. True) (pub_flush envs ping p)"
proof -
  have flushed: "pub_safe t flags offered (\<lambda>p. True) (pub_then (flushProperties envs p) (\<lambda>p.
      if \<not> pu_new p then pub_ret p else pub_distribute envs (\<lambda>s. Some OpFlush) (p\<lparr>pu_new := False, pu_newLost := False\<rparr>)))"
    if "pub_inv t flags offered p" for p
  proof (rule pub_safe_then [OF flushProperties_safe [OF that refl assms(2,3)]])
    fix flags offered p assume inv: "pub_inv t flags offered p"
    then have "pub_inv t flags offered (p\<lparr>pu_new := False, pu_newLost := False\<rparr>)" by simp
    note flush = pub_distribute_safe [OF this refl assms(2,3)]
    show "pub_safe t flags offered (\<lambda>p. True)
        (if \<not> pu_new p then pub_ret p else pub_distribute envs (\<lambda>s. Some OpFlush) (p\<lparr>pu_new := False, pu_newLost := False\<rparr>))"
      using inv pub_safe_mono [OF flush] by (simp add: pub_safe_ret)
  qed
  show ?thesis unfolding pub_flush_def Let_def using assms(1) by (auto intro!: pub_safe_ret flushed)
qed

lemma pub_reportLost_safe:
  assumes "pub_inv t flags offered p" "t \<noteq> 0"
  shows "pub_safe t flags offered (\<lambda>p. True) (pub_reportLost type lost track p)"
proof -
  define lost_here where "lost_here \<longleftrightarrow> type = TYPE_VIDEO \<and> track = t \<and> lost \<noteq> 0"
  define p' where "p' = fst (the (pub_reportLost type lost track p))"
  have run: "pub_reportLost type lost track p = Some (p', [LLost type lost track])" by (simp add: p'_def pub_reportLost_def)
  have "pub_inv t flags (offered \<and> \<not> lost_here) p'"
  proof (cases "lost \<noteq> 0 \<and> type = TYPE_VIDEO \<and> track \<noteq> 0 \<and> unat track \<le> length (pu_videos p)")
    case True
    have "unat track > 0" using True by (simp add: unat_gt_0)
    then have "unat track - 1 < length (pu_videos p)" using True by linarith
    then have "waits_in t ((waiting p)[unat track - 1 := True])" if "offered \<longrightarrow> track = t"
      using that True assms waits_in_update [OF assms(2), of track True "waiting p"]
      by (cases "track = t") (auto simp: pub_inv_def waits_in_def)
    then show ?thesis using True assms(1) by (auto simp: p'_def pub_reportLost_def pub_inv_def lost_here_def)
  next
    case False
    have "waits_in t (waiting p)" if lost_here using that False assms(2) by (auto simp: lost_here_def waits_in_def)
    then show ?thesis using False assms(1) by (auto simp: p'_def pub_reportLost_def pub_inv_def)
  qed
  then show ?thesis by (simp add: run pub_safe_log lost_here_def)
qed

lemma subs_inv_subscribe:
  assumes "subs_inv t flags subs" "n \<notin> fst ` set subs" "vinv t (flags n) s"
  shows "subs_inv t flags (take place subs @ (n, s) # drop place subs)"
proof -
  have "distinct (map fst (take place subs) @ map fst (drop place subs))"
    using assms(1) by (simp add: subs_inv_def flip: map_append)
  moreover have "n \<notin> fst ` set (take place subs)" "n \<notin> fst ` set (drop place subs)"
    using assms(2) set_take_subset [of place subs] set_drop_subset [of place subs] by auto
  moreover have "list_all (\<lambda>(n, s). vinv t (flags n) s) (take place subs)" "list_all (\<lambda>(n, s). vinv t (flags n) s) (drop place subs)"
    using assms(1) by (auto simp: subs_inv_def list_all_iff dest: in_set_takeD in_set_dropD)
  ultimately show ?thesis using assms(3) by (auto simp: subs_inv_def)
qed

lemma vinv_new_any: "vinv t flag (new_subscription now multi)"
  using vinv_mono [OF vinv_new] by blast

lemma pub_step_safe:
  assumes "pub_inv t flags offered p" "clocked envs" "t \<noteq> 0"
  shows "pub_safe t flags offered (\<lambda>p. True) (pub_step envs oper p)"
proof (cases oper)
  case (PuStart erased cleared kept)
  then show ?thesis using pub_reset_safe [OF assms] assms(1) by (auto simp: pub_start_def intro!: pub_safe_ret)
next
  case (PuStop erased cleared kept)
  have "pub_inv t flags offered (if pu_publishing p > 0 then p\<lparr>pu_publishing := 2\<rparr> else p)" using assms(1) by simp
  from pub_reset_safe [OF this assms(2,3)] show ?thesis using PuStop assms(1)
    by (auto simp: pub_stop_def intro!: pub_safe_ret pub_safe_then [where Q = "\<lambda>p. True"])
next
  case (PuSubscribe place n now multi)
  have "pub_inv t flags offered (pub_subscribe place n now multi p)"
    using assms(1) subs_inv_subscribe [of t flags "pu_subs p" n] vinv_new_any by (auto simp: pub_subscribe_def pub_inv_def)
  then show ?thesis using PuSubscribe by (simp add: pub_safe_ret)
next
  case (PuUnsubscribe n)
  have "pub_inv t flags offered (pub_unsubscribe n p)"
    using assms(1) by (auto simp: pub_unsubscribe_def pub_inv_def subs_inv_def distinct_map_filter list_all_iff)
  then show ?thesis using PuUnsubscribe by (simp add: pub_safe_ret)
next
  case (PuOwn n own)
  show ?thesis
  proof (cases "\<not> own_op own \<or> sub_own (pub_env p (envs n)) n own (pu_subs p) = None")
    case True
    then show ?thesis using PuOwn assms(1) by (auto simp: pub_safe_ret) (simp add: pub_safe_def)
  next
    case False
    then obtain subs log where own: "sub_own (pub_env p (envs n)) n own (pu_subs p) = Some (subs, log)" by auto
    moreover have "subs_inv t flags (pu_subs p)" using assms(1) by (simp add: pub_inv_def)
    ultimately obtain flags' where 1: "quiet_log (fst ` set (pu_subs p)) log"
      "\<forall>n. track_history t (flags n) (sub_log n log) = Some (flags' n)" "subs_inv t flags' subs"
      using sub_own_safe [OF own _ _ assms(3)] assms(2) by (metis pub_env_now)
    then have inv: "pub_inv t flags' offered (p\<lparr>pu_subs := subs\<rparr>)" "offers t offered log = Some offered"
      using assms(1) quiet_log_offers by (auto simp: pub_inv_def)
    have "pub_safe t flags offered (\<lambda>p. True) (Some (p\<lparr>pu_subs := subs\<rparr>, log))"
      unfolding pub_safe_def option.case prod.case by (rule exI [of _ flags'], rule exI [of _ offered]) (simp add: inv 1(2))
    then show ?thesis using PuOwn False own by simp
  qed
next
  case (PuLost type lost track)
  then show ?thesis using pub_reportLost_safe [OF assms(1,3)] by simp
next
  case (PuData type packet track properties)
  then show ?thesis using pub_safe_mono [OF pub_writeData_safe [OF assms(1) refl assms(2,3)]] by simp
qed (use assms in \<open>simp_all add: pub_reset_safe pub_flush_safe pub_writeAudio_safe pub_writeVideo_safe pub_safe_ret\<close>)

lemma pub_run_safe:
  assumes "pub_inv t flags offered p" "list_all (\<lambda>(envs, oper). clocked envs) ops" "t \<noteq> 0"
  shows "pub_safe t flags offered (\<lambda>p. True) (pub_run ops p)"
  using assms(1,2)
proof (induction ops arbitrary: p flags offered)
  case (Cons eo ops)
  obtain envs oper where eo: "eo = (envs, oper)" by fastforce
  then have "clocked envs" using Cons.prems(2) by simp
  from pub_safe_then [OF pub_step_safe [OF Cons.prems(1) this assms(3)]] show ?case
    using Cons.IH Cons.prems(2) by (auto simp: eo)
qed (simp add: pub_safe_ret)

text \<open>C5. What the subscriptions of a publication play, in any run of a new publication and whatever subscriptions
  come and go: the frames of a video track (not 0) that it offers to all hold no inter frame behind a frame it dropped
  or a loss of video reported with the number of this track (one reported on the track 0 or of an unknown media does not
  stop the inter frames, \<open>Publication.cpp:75,86\<close>), and what each subscription gives to its target holds none behind
  what this subscription missed.  The clock never says 0.\<close>

theorem pub_video_continuous:
  assumes "pub_run ops new_publication = Some (p, log)" "list_all (\<lambda>(envs, oper). \<forall>n. en_now (envs n) \<noteq> 0) ops" "t \<noteq> 0"
  shows "offers t False log \<noteq> None \<and> track_history t False (sub_log n log) \<noteq> None"
proof -
  have "pub_inv t (\<lambda>n. False) False new_publication"
    using assms(3) by (simp add: new_publication_def pub_inv_def subs_inv_def waits_in_def unat_eq_zero)
  from pub_run_safe [OF this assms(2,3)] show ?thesis by (auto simp: pub_safe_def assms(1))
qed


definition pub_frame :: "u8 \<Rightarrow> u32 \<Rightarrow> pub_op" where
  "pub_frame frame time =
     PuVideo \<lparr>vt_time = time, vt_codec = VIDEO_CODEC_H264, vt_frame = frame, vt_composition = 0\<rparr> [0x65] 1 [] 0"

definition pub_ops :: "((nat \<Rightarrow> sub_env) \<times> pub_op) list" where
  "pub_ops = map (\<lambda>(now, oper). (\<lambda>n. quiet_env now, oper))
     [(1, PuStart [] False 0), (2, PuSubscribe 0 7 2 True), (3, pub_frame FRAME_KEY 0), (4, pub_frame FRAME_INTER 40),
      (5, PuSubscribe 1 8 5 True), (6, pub_frame FRAME_INTER 80), (7, PuLost TYPE_VIDEO 1 1), (8, pub_frame FRAME_INTER 120),
      (9, pub_frame FRAME_KEY 160), (10, PuFlush 20), (11, pub_frame FRAME_INTER 200), (12, PuStop [] False 0)]"

lemma pub_ops_log:
  "map_option (\<lambda>(p, log). (map (\<lambda>(oper, taken, es). delivered 1 es) (sub_log 7 log),
      map (\<lambda>(oper, taken, es). delivered 1 es) (sub_log 8 log))) (pub_run pub_ops new_publication)
     = Some ([True, True, True, True, False, True, False], [False, True, False, True, False])"
  by code_simp

theorem pub_video_continuous_witness:
  "\<exists>p log. pub_run pub_ops new_publication = Some (p, log)
     \<and> map (\<lambda>(oper, taken, es). delivered 1 es) (sub_log 8 log) = [False, True, False, True, False]
     \<and> offers 1 False log \<noteq> None \<and> track_history 1 False (sub_log 8 log) \<noteq> None"
proof -
  obtain p log where run: "pub_run pub_ops new_publication = Some (p, log)"
    "map (\<lambda>(oper, taken, es). delivered 1 es) (sub_log 8 log) = [False, True, False, True, False]"
    using pub_ops_log by auto
  moreover have "list_all (\<lambda>(envs, oper). \<forall>n. en_now (envs n) \<noteq> 0) pub_ops" by (simp add: pub_ops_def quiet_env_def)
  ultimately show ?thesis using pub_video_continuous [OF run(1), of 1 8] by auto
qed

end
