(* ===== verification/AMF.thy ===== *)
theory AMF
  imports Bytes "HOL-Library.AList"
begin

text \<open>
  The data of the Flash protocols: \<open>AMFWriter\<close> and \<open>AMFReader\<close>, in the formats AMF0 and AMF3, with the
  references of \<open>ReferableReader\<close>.  What a \<open>DataReader\<close> calls on a \<open>DataWriter\<close> is a list of events.  The
  reader runs with fuel for its recursion and its loops; a read of a null pointer is \<open>AmfCrash\<close>.  A target
  supports maps (the fallback through \<open>StringWriter\<close> is not modelled).
\<close>

section \<open>Numbers\<close>

text \<open>
  A double is its 64 bits.  \<open>double_int\<close> is the integer a double is, when its magnitude is below \<open>2 ^ 28\<close>
  (\<open>round(value) == value && abs(value) <= 0xFFFFFFF\<close>), \<open>double_of\<close> the double of an unsigned integer of 32 bits.
\<close>

definition double_int :: "u64 \<Rightarrow> int option" where
  "double_int d =
     (let n = unat d; e = n div 2 ^ 52 mod 2 ^ 11; m = n mod 2 ^ 52
      in if e = 0 \<and> m = 0 then Some 0
         else if e < 1023 \<or> e > 1050 then None
         else let x = 2 ^ 52 + m; s = 2 ^ (1075 - e)
              in if x mod s = 0 then Some (if n \<ge> 2 ^ 63 then - int (x div s) else int (x div s)) else None)"

fun log2 :: "nat \<Rightarrow> nat" where
  "log2 n = (if n < 2 then 0 else Suc (log2 (n div 2)))"

declare log2.simps [simp del]

definition double_of :: "nat \<Rightarrow> u64" where
  "double_of n =
     (if n = 0 then 0 else let k = log2 n in word_of_nat ((1023 + k) * 2 ^ 52 + (n * 2 ^ (52 - k) - 2 ^ 52)))"

text \<open>\<open>String::ToNumber<UInt32>\<close> in base 10, on exact numbers: sign, digits, and the power of ten behind the comma.\<close>

fun number_scan :: "bytes \<Rightarrow> bool \<Rightarrow> bool \<Rightarrow> int \<Rightarrow> int \<Rightarrow> (bool \<times> bool \<times> int \<times> int) option" where
  "number_scan [] beginning negative number comma = Some (beginning, negative, number, comma)"
| "number_scan (c # cs) beginning negative number comma =
     (if c = 0 then Some (beginning, negative, number, comma)
      else if c < 33 \<or> c = 127 then (if beginning then number_scan cs beginning negative number comma else None)
      else if c = 0x2B \<or> c = 0x2D then (if beginning then number_scan cs False (c = 0x2D \<or> negative) number comma else None)
      else if c = 0x2E \<or> c = 0x2C then
        (if beginning \<or> comma \<noteq> 0 then None else number_scan cs beginning negative number 1)
      else
        let v = sint (c - 0x30);
            v = (if v > 9 then (if v \<ge> 49 then v - 39 else if v \<ge> 17 then v - 7 else 10) else v)
        in if v \<ge> 10 then None else number_scan cs False negative (number * 10 + v) (comma * 10))"

definition ToNumber32 :: "bytes \<Rightarrow> u32 option" where
  "ToNumber32 text =
     (case number_scan text True False 0 0 of
        None \<Rightarrow> None
      | Some (beginning, negative, number, comma) \<Rightarrow>
          let unit = (if comma = 0 then 1 else comma)
          in if beginning \<or> number > 4294967295 * unit then None
             else let n = number div unit in Some (word_of_int (if negative then - n else n)))"

section \<open>The events of a writer\<close>

datatype data_event =
    EvNull
  | EvBoolean bool
  | EvNumber u64
  | EvString bytes
  | EvDate u64
  | EvByte bytes
  | EvBeginObject "bytes option"
  | EvEndObject
  | EvName bytes
  | EvBeginArray u32
  | EvEndArray
  | EvBeginObjectArray u32
  | EvBeginMap u32 bool
  | EvEndMap
  | EvRepeat nat

section \<open>AMFWriter\<close>

abbreviation AMF0_AMF3_OBJECT :: u8 where "AMF0_AMF3_OBJECT \<equiv> 0x11"

record amf_writer =
  aw_amf0 :: bool
  aw_amf3 :: bool
  aw_levels :: "bool list"
  aw_references :: "u8 list"
  aw_amf0References :: nat
  aw_strings :: "bytes list"
  aw_out :: bytes

definition new_amf_writer :: "bool \<Rightarrow> amf_writer" where
  "new_amf_writer amf0 =
     \<lparr>aw_amf0 = amf0, aw_amf3 = False, aw_levels = [], aw_references = [], aw_amf0References = 0, aw_strings = [], aw_out = []\<rparr>"

definition aw_append :: "bytes \<Rightarrow> amf_writer \<Rightarrow> amf_writer" where
  "aw_append data w = w\<lparr>aw_out := aw_out w @ data\<rparr>"

definition aw_7bit :: "nat \<Rightarrow> bytes" where
  "aw_7bit n = enc7Bit 4 (word_of_nat n :: u32)"

text \<open>The index of a string in the references.\<close>

fun index_of :: "'a \<Rightarrow> 'a list \<Rightarrow> nat option" where
  "index_of x [] = None"
| "index_of x (y # ys) = (if x = y then Some 0 else map_option Suc (index_of x ys))"

definition aw_text :: "bytes \<Rightarrow> amf_writer \<Rightarrow> amf_writer" where
  "aw_text value w =
     (if value \<noteq> [] then
        (case index_of value (aw_strings w) of
           Some i \<Rightarrow> aw_append (aw_7bit (2 * i)) w
         | None \<Rightarrow> aw_append (aw_7bit (2 * length value + 1) @ value) (w\<lparr>aw_strings := aw_strings w @ [value]\<rparr>))
      else aw_append (aw_7bit 1) w)"

text \<open>\<open>_references.emplace_back(type)\<close>, with the reference returned.\<close>

definition aw_reference :: "u8 \<Rightarrow> amf_writer \<Rightarrow> amf_writer \<times> nat" where
  "aw_reference type w =
     (w\<lparr>aw_references := aw_references w @ [type]\<rparr>, 2 * (length (aw_references w) + 1) + 1)"

text \<open>A value of AMF3: behind a marker when the writer is not inside AMF3.\<close>

definition aw_marker3 :: "amf_writer \<Rightarrow> bytes" where
  "aw_marker3 w = (if aw_amf3 w then [] else [AMF0_AMF3_OBJECT])"

definition aw_repeat :: "nat \<Rightarrow> amf_writer \<Rightarrow> amf_writer \<times> bool" where
  "aw_repeat ref w =
     (if odd ref then
        (if ref div 2 = 0 \<or> ref div 2 - 1 \<ge> length (aw_references w) then (w, False)
         else (aw_append (aw_marker3 w @ [aw_references w ! (ref div 2 - 1)] @ aw_7bit (2 * (ref div 2 - 1))) w, True))
      else if ref div 2 = 0 \<or> ref div 2 - 1 \<ge> aw_amf0References w then (w, False)
      else (aw_append ([0x07] @ net16 (word_of_nat (ref div 2 - 1))) w, True))"

definition aw_writeString :: "bytes \<Rightarrow> amf_writer \<Rightarrow> amf_writer" where
  "aw_writeString value w =
     (if \<not> aw_amf3 w \<and> aw_amf0 w then
        (if length value > 65535 then aw_append ([0x0C] @ net32 (word_of_nat (length value)) @ value) w
         else aw_append ([0x02] @ net16 (word_of_nat (length value)) @ value) w)
      else aw_text value (aw_append (aw_marker3 w @ [0x06]) w))"

definition aw_writePropertyName :: "bytes \<Rightarrow> amf_writer \<Rightarrow> amf_writer" where
  "aw_writePropertyName name w =
     (if aw_amf3 w then aw_text name w else aw_append (net16 (word_of_nat (length name)) @ name) w)"

definition aw_writeNull :: "amf_writer \<Rightarrow> amf_writer" where
  "aw_writeNull w = aw_append [if aw_amf3 w then 0x01 else 0x05] w"

definition aw_writeBoolean :: "bool \<Rightarrow> amf_writer \<Rightarrow> amf_writer" where
  "aw_writeBoolean value w =
     aw_append (if aw_amf3 w then [if value then 0x03 else 0x02] else [0x01, if value then 1 else 0]) w"

definition aw_writeDate :: "u64 \<Rightarrow> amf_writer \<Rightarrow> amf_writer \<times> nat" where
  "aw_writeDate date w =
     (if \<not> aw_amf3 w \<and> aw_amf0 w then (aw_append ([0x0B] @ net64 date @ net16 0) w, 0)
      else aw_reference 0x08 (aw_append (aw_marker3 w @ [0x08, 0x01] @ net64 date) w))"

definition aw_writeNumber :: "u64 \<Rightarrow> amf_writer \<Rightarrow> amf_writer" where
  "aw_writeNumber value w =
     (case (if aw_amf0 w then None else double_int value) of
        Some i \<Rightarrow> aw_append (aw_marker3 w @ [0x04] @ enc7Bit 4 (word_of_int (if i < 0 then i + 2 ^ 29 else i) :: u32)) w
      | None \<Rightarrow> aw_append ([if aw_amf3 w then 0x05 else 0x00] @ net64 value) w)"

definition aw_writeByte :: "bytes \<Rightarrow> amf_writer \<Rightarrow> amf_writer \<times> nat" where
  "aw_writeByte data w =
     aw_reference 0x0C (aw_append (aw_marker3 w @ [0x0C] @ aw_7bit (2 * length data + 1) @ data) w)"

text \<open>The format of a complex value: its former one goes on the levels.\<close>

definition aw_begin3 :: "amf_writer \<Rightarrow> amf_writer" where
  "aw_begin3 w = (aw_append (aw_marker3 w) w)\<lparr>aw_levels := aw_amf3 w # aw_levels w, aw_amf3 := True\<rparr>"

definition aw_begin0 :: "amf_writer \<Rightarrow> amf_writer \<times> nat" where
  "aw_begin0 w = (w\<lparr>aw_levels := False # aw_levels w, aw_amf0References := aw_amf0References w + 1\<rparr>, 2 * (aw_amf0References w + 1))"

definition aw_beginObject :: "bytes option \<Rightarrow> amf_writer \<Rightarrow> amf_writer \<times> nat" where
  "aw_beginObject type w =
     (if \<not> aw_amf3 w \<and> aw_amf0 w then
        aw_begin0 (aw_append (case type of None \<Rightarrow> [0x03] | Some t \<Rightarrow> [0x10] @ net16 (word_of_nat (length t)) @ take (length t mod 65536) t) w)
      else aw_reference 0x0A (aw_text (case type of None \<Rightarrow> [] | Some t \<Rightarrow> t) (aw_append ([0x0A] @ aw_7bit 11) (aw_begin3 w))))"

definition aw_beginArray :: "u32 \<Rightarrow> amf_writer \<Rightarrow> amf_writer \<times> nat" where
  "aw_beginArray sz w =
     (if \<not> aw_amf3 w \<and> aw_amf0 w then aw_begin0 (aw_append ([0x0A] @ net32 sz) w)
      else aw_reference 0x09 (aw_append ([0x09] @ enc7Bit 4 (push_bit 1 sz OR 1) @ [0x01]) (aw_begin3 w)))"

definition aw_beginObjectArray :: "u32 \<Rightarrow> amf_writer \<Rightarrow> amf_writer \<times> nat" where
  "aw_beginObjectArray sz w =
     (let w = aw_begin3 w
      in aw_reference 0x09 (aw_append ([0x09] @ enc7Bit 4 (push_bit 1 sz OR 1)) (w\<lparr>aw_levels := True # aw_levels w\<rparr>)))"

definition aw_beginMap :: "u32 \<Rightarrow> bool \<Rightarrow> amf_writer \<Rightarrow> amf_writer \<times> nat" where
  "aw_beginMap sz weakKeys w =
     aw_reference 0x11 (aw_append ([0x11] @ enc7Bit 4 (push_bit 1 sz OR 1) @ [if weakKeys then 1 else 0]) (aw_begin3 w))"

definition aw_endComplex :: "bool \<Rightarrow> amf_writer \<Rightarrow> amf_writer" where
  "aw_endComplex isObject w =
     (case aw_levels w of
        [] \<Rightarrow> w
      | level # levels \<Rightarrow>
          (if isObject then aw_append (if aw_amf3 w then [0x01] else net16 0 @ [0x09]) w else w)
            \<lparr>aw_levels := levels, aw_amf3 := level\<rparr>)"

text \<open>A call on the writer, its reference forgotten.\<close>

fun aw_event :: "data_event \<Rightarrow> amf_writer \<Rightarrow> amf_writer" where
  "aw_event EvNull w = aw_writeNull w"
| "aw_event (EvBoolean b) w = aw_writeBoolean b w"
| "aw_event (EvNumber d) w = aw_writeNumber d w"
| "aw_event (EvString s) w = aw_writeString s w"
| "aw_event (EvDate d) w = fst (aw_writeDate d w)"
| "aw_event (EvByte data) w = fst (aw_writeByte data w)"
| "aw_event (EvBeginObject type) w = fst (aw_beginObject type w)"
| "aw_event EvEndObject w = aw_endComplex True w"
| "aw_event (EvName name) w = aw_writePropertyName name w"
| "aw_event (EvBeginArray sz) w = fst (aw_beginArray sz w)"
| "aw_event EvEndArray w = aw_endComplex False w"
| "aw_event (EvBeginObjectArray sz) w = fst (aw_beginObjectArray sz w)"
| "aw_event (EvBeginMap sz weakKeys) w = fst (aw_beginMap sz weakKeys w)"
| "aw_event EvEndMap w = aw_endComplex False w"
| "aw_event (EvRepeat ref) w = fst (aw_repeat ref w)"

definition aw_events :: "data_event list \<Rightarrow> amf_writer \<Rightarrow> amf_writer" where
  "aw_events es w = fold aw_event es w"

end
