(* ===== verification/Base64.thy ===== *)
theory Base64
  imports Bytes
begin

text \<open>
  Base 64 of \<open>Util.h\<close>, with its two alphabets: the loops over an accumulator of 32 bits, and that what one
  writes the other reads back.
\<close>

section \<open>The code\<close>

definition B64Table :: bytes where
  "B64Table = map of_char ''ABCDEFGHIJKLMNOPQRSTUVWXYZabcdefghijklmnopqrstuvwxyz0123456789+/''"

definition B64urlTable :: bytes where
  "B64urlTable = map of_char ''ABCDEFGHIJKLMNOPQRSTUVWXYZabcdefghijklmnopqrstuvwxyz0123456789-_''"

definition ReverseB64Table :: "nat list" where
  "ReverseB64Table = [
     64, 64, 64, 64, 64, 64, 64, 64, 64, 64, 64, 64, 64, 64, 64, 64,
     64, 64, 64, 64, 64, 64, 64, 64, 64, 64, 64, 64, 64, 64, 64, 64,
     64, 64, 64, 64, 64, 64, 64, 64, 64, 64, 64, 62, 64, 64, 64, 63,
     52, 53, 54, 55, 56, 57, 58, 59, 60, 61, 64, 64, 64, 64, 64, 64,
     64, 0, 1, 2, 3, 4, 5, 6, 7, 8, 9, 10, 11, 12, 13, 14,
     15, 16, 17, 18, 19, 20, 21, 22, 23, 24, 25, 64, 64, 64, 64, 64,
     64, 26, 27, 28, 29, 30, 31, 32, 33, 34, 35, 36, 37, 38, 39, 40,
     41, 42, 43, 44, 45, 46, 47, 48, 49, 50, 51, 64, 64, 64, 64, 64]"

definition b64_char :: "bool \<Rightarrow> u32 \<Rightarrow> u8" where
  "b64_char url v = (if url then B64urlTable else B64Table) ! unat (v AND 0x3F)"

text \<open>The loop \<open>while (bits >= 6)\<close>, and the one over the data with what is missing at its end.\<close>

fun b64_drain :: "bool \<Rightarrow> u32 \<Rightarrow> nat \<Rightarrow> bytes \<times> nat" where
  "b64_drain url acc bits =
     (if bits \<ge> 6
      then let bits = bits - 6; (out, bits') = b64_drain url acc bits in (b64_char url (drop_bit bits acc) # out, bits')
      else ([], bits))"

declare b64_drain.simps [simp del]

fun b64_encode :: "bool \<Rightarrow> u32 \<Rightarrow> nat \<Rightarrow> bytes \<Rightarrow> bytes" where
  "b64_encode url acc bits [] = (if bits \<noteq> 0 then [b64_char url (push_bit (6 - bits) acc)] else [])"
| "b64_encode url acc bits (d # ds) =
     (let acc = push_bit 8 acc OR ucast d; (out, bits) = b64_drain url acc (bits + 8)
      in out @ b64_encode url acc bits ds)"

text \<open>The whole of \<open>ToBase64\<close>: the code with its padding, and its size without.\<close>

definition ToBase64 :: "bool \<Rightarrow> bytes \<Rightarrow> bytes \<times> nat" where
  "ToBase64 url data =
     (let code = b64_encode url 0 0 data; total = (length data + 2) div 3 * 4
      in (code @ replicate (total - length code) 0x3D, length code))"

definition is_space :: "u8 \<Rightarrow> bool" where
  "is_space c \<longleftrightarrow> 9 \<le> c \<and> c \<le> 13 \<or> c = 32"

text \<open>The value of a character, or none.\<close>

definition b64_value :: "bool \<Rightarrow> u8 \<Rightarrow> u32 option" where
  "b64_value url c =
     (let c = (if url then (if c = 0x5F then 0x2F else if c = 0x2D then 0x2B else c) else c)
      in if c > 127 \<or> ReverseB64Table ! unat c > 63 then None else Some (word_of_nat (ReverseB64Table ! unat c)))"

fun FromBase64 :: "bool \<Rightarrow> u32 \<Rightarrow> nat \<Rightarrow> bytes \<Rightarrow> bytes option" where
  "FromBase64 url acc bits [] = Some []"
| "FromBase64 url acc bits (c # cs) =
     (if is_space c \<or> c = 0x3D then FromBase64 url acc bits cs
      else case b64_value url c of
             None \<Rightarrow> None
           | Some v \<Rightarrow>
               let acc = push_bit 6 acc OR v; bits = bits + 6
               in if bits \<ge> 8
                  then map_option (Cons (ucast (drop_bit (bits - 8) acc AND 0xFF))) (FromBase64 url acc (bits - 8) cs)
                  else FromBase64 url acc bits cs)"

section \<open>Reading back\<close>

lemma b64_tables:
  "map (b64_value False) B64Table = map (\<lambda>n. Some (word_of_nat n)) [0..<64]"
  "map (b64_value True) B64urlTable = map (\<lambda>n. Some (word_of_nat n)) [0..<64]"
  by (simp_all add: B64Table_def B64urlTable_def b64_value_def ReverseB64Table_def upt_rec)

lemma b64_plain: "list_all (\<lambda>c. \<not> is_space c \<and> c \<noteq> 0x3D) B64Table" "list_all (\<lambda>c. \<not> is_space c \<and> c \<noteq> 0x3D) B64urlTable"
  by (simp_all add: B64Table_def B64urlTable_def is_space_def)

lemma six_bits: "unat (v AND 0x3F :: u32) < 64"
proof -
  have "(0x3F :: u32) = mask 6" by (simp add: mask_eq_exp_minus_1)
  then have "v AND 0x3F = take_bit 6 v" by (simp only: take_bit_eq_mask)
  moreover have "unat (take_bit 6 v) < 2 ^ 6" unfolding unsigned_take_bit_eq by (rule take_bit_nat_less_exp)
  ultimately show ?thesis by simp
qed

lemma b64_char_read:
  "b64_value url (b64_char url v) = Some (v AND 0x3F)" "\<not> is_space (b64_char url v)" "b64_char url v \<noteq> 0x3D"
proof -
  have len: "length B64Table = 64" "length B64urlTable = 64" by (simp_all add: B64Table_def B64urlTable_def)
  have n: "unat (v AND 0x3F) < 64" by (rule six_bits)
  have value': "b64_value u ((if u then B64urlTable else B64Table) ! unat (v AND 0x3F)) = Some (v AND 0x3F)" for u
    using arg_cong [OF b64_tables(1), of "\<lambda>xs. xs ! unat (v AND 0x3F)"] arg_cong [OF b64_tables(2), of "\<lambda>xs. xs ! unat (v AND 0x3F)"] n
    by (simp add: len)
  show "b64_value url (b64_char url v) = Some (v AND 0x3F)" using value' [of url] by (simp add: b64_char_def)
  show "\<not> is_space (b64_char url v)" "b64_char url v \<noteq> 0x3D"
    using b64_plain n len by (auto simp: b64_char_def list_all_length)
qed

lemma FromBase64_char:
  "FromBase64 url acc bits (b64_char url v # cs) =
     (let acc = push_bit 6 acc OR (v AND 0x3F); bits = bits + 6
      in if bits \<ge> 8
         then map_option (Cons (ucast (drop_bit (bits - 8) acc AND 0xFF))) (FromBase64 url acc (bits - 8) cs)
         else FromBase64 url acc bits cs)"
  by (simp add: b64_char_read Let_def)

lemma masks: "(0x3F :: u32) = mask 6" "(0xFF :: u32) = mask 8"
  by (simp_all add: mask_eq_exp_minus_1)

lemma back2: "2 \<le> n \<Longrightarrow> Suc (Suc (n - 2)) = n"
  by simp

text \<open>The bits of the three bytes of a block, and of a last block of two and of one.\<close>

lemma block_bytes:
  fixes a b c :: u8
  shows "ucast (drop_bit 4 (push_bit 6 (push_bit 6 x OR (drop_bit 2 (push_bit 8 y OR ucast a) AND 0x3F))
      OR (drop_bit 4 (push_bit 8 (push_bit 8 y OR ucast a) OR ucast b) AND 0x3F)) AND 0xFF :: u32) = a"
    "ucast (drop_bit 2 (push_bit 6 (push_bit 6 x OR (drop_bit 4 (push_bit 8 y OR ucast b) AND 0x3F))
      OR (drop_bit 6 (push_bit 8 (push_bit 8 y OR ucast b) OR ucast c) AND 0x3F)) AND 0xFF :: u32) = b"
    "ucast ((push_bit 6 (push_bit 6 x OR (drop_bit 6 (push_bit 8 y OR ucast c) AND 0x3F))
      OR ((push_bit 8 y OR ucast c) AND 0x3F)) AND 0xFF :: u32) = c"
    "ucast (drop_bit 4 (push_bit 6 (push_bit 6 x OR (drop_bit 2 (push_bit 8 y OR ucast a) AND 0x3F))
      OR (push_bit 4 (push_bit 8 y OR ucast a) AND 0x3F)) AND 0xFF :: u32) = a"
    "ucast (drop_bit 2 (push_bit 6 (push_bit 6 x OR (drop_bit 4 (push_bit 8 y OR ucast b) AND 0x3F))
      OR (push_bit 2 (push_bit 8 y OR ucast b) AND 0x3F)) AND 0xFF :: u32) = b"
  unfolding masks by (rule bit_word_eqI, auto simp: bit_simps back2 dest: bit_imp_le_length)+

lemma b64_drains:
  "b64_drain url acc 8 = ([b64_char url (drop_bit 2 acc)], 2)" "b64_drain url acc 10 = ([b64_char url (drop_bit 4 acc)], 4)"
  "b64_drain url acc 12 = ([b64_char url (drop_bit 6 acc), b64_char url acc], 0)"
  by (simp_all add: b64_drain.simps)

lemma decode_char:
  "FromBase64 url x 0 (b64_char url v # cs) = FromBase64 url (push_bit 6 x OR (v AND 0x3F)) 6 cs"
  "FromBase64 url x 6 (b64_char url v # cs) =
     map_option (Cons (ucast (drop_bit 4 (push_bit 6 x OR (v AND 0x3F)) AND 0xFF))) (FromBase64 url (push_bit 6 x OR (v AND 0x3F)) 4 cs)"
  "FromBase64 url x 4 (b64_char url v # cs) =
     map_option (Cons (ucast (drop_bit 2 (push_bit 6 x OR (v AND 0x3F)) AND 0xFF))) (FromBase64 url (push_bit 6 x OR (v AND 0x3F)) 2 cs)"
  "FromBase64 url x 2 (b64_char url v # cs) =
     map_option (Cons (ucast ((push_bit 6 x OR (v AND 0x3F)) AND 0xFF))) (FromBase64 url (push_bit 6 x OR (v AND 0x3F)) 0 cs)"
  by (simp_all only: FromBase64_char) (simp_all add: Let_def)

lemma encode_byte:
  "b64_encode url y 0 (a # ds) = b64_char url (drop_bit 2 (push_bit 8 y OR ucast a)) # b64_encode url (push_bit 8 y OR ucast a) 2 ds"
  "b64_encode url y 2 (a # ds) = b64_char url (drop_bit 4 (push_bit 8 y OR ucast a)) # b64_encode url (push_bit 8 y OR ucast a) 4 ds"
  "b64_encode url y 4 (a # ds) =
     b64_char url (drop_bit 6 (push_bit 8 y OR ucast a)) # b64_char url (push_bit 8 y OR ucast a) # b64_encode url (push_bit 8 y OR ucast a) 0 ds"
  "b64_encode url y 2 [] = [b64_char url (push_bit 4 y)]" "b64_encode url y 4 [] = [b64_char url (push_bit 2 y)]" "b64_encode url y 0 [] = []"
  by (simp_all add: b64_drains Let_def)

lemma decode_padding: "FromBase64 url x bits (replicate n 0x3D) = Some []"
  by (induction n) simp_all

lemma base64_loop: "FromBase64 url x 0 (b64_encode url y 0 ds @ replicate n 0x3D) = Some ds"
proof (induction "length ds" arbitrary: ds x y rule: less_induct)
  case less
  consider "ds = []" | a where "ds = [a]" | a b where "ds = [a, b]" | a b c es where "ds = a # b # c # es"
    by (metis list.exhaust)
  then show ?case
  proof cases
    case 4
    then have "FromBase64 url x' 0 (b64_encode url y' 0 es @ replicate n 0x3D) = Some es" for x' y' using less by simp
    then show ?thesis by (simp only: 4 encode_byte append_Cons decode_char block_bytes option.map)
  qed (simp_all only: encode_byte append_Cons append_Nil decode_char block_bytes decode_padding option.map)
qed

lemma FromBase64_ToBase64: "FromBase64 url 0 0 (fst (ToBase64 url data)) = Some data"
  by (simp add: ToBase64_def Let_def base64_loop)

lemma b64_encode_length:
  "length (b64_encode url y 0 ds) = (length ds * 4 + 2) div 3"
proof (induction "length ds" arbitrary: ds y rule: less_induct)
  case less
  consider "ds = []" | a where "ds = [a]" | a b where "ds = [a, b]" | a b c es where "ds = a # b # c # es"
    by (metis list.exhaust)
  then show ?case
  proof cases
    case 4
    then have "length (b64_encode url y' 0 es) = (length es * 4 + 2) div 3" for y' using less by simp
    then show ?thesis by (simp only: 4 encode_byte list.size) simp
  qed (simp_all only: encode_byte list.size, simp_all)
qed

end
