(* ===== verification/Segments.thy ===== *)
theory Segments
  imports Publication AMF Base64
begin

text \<open>
  Segments in memory: \<open>Segment\<close>, \<open>Segments::Writer\<close> that cuts the medias of a publication in front of key frames,
  \<open>Segments\<close> that keeps the last ones, \<open>Playlist\<close> and the playlist \<open>M3U8\<close> made of it, with the names of the segments.
  The front of an empty deque is no value: the operations of \<open>Segments\<close> are options.
\<close>

section \<open>Segment\<close>

record segment =
  sg_first :: "u32 option"
  sg_last :: u32
  sg_discontinuous :: bool
  sg_medias :: "media list"

definition new_segment :: segment where
  "new_segment = \<lparr>sg_first = None, sg_last = 0, sg_discontinuous = False, sg_medias = []\<rparr>"

definition sg_time :: "segment \<Rightarrow> u32" where
  "sg_time s = (case sg_first s of None \<Rightarrow> 0 | Some first \<Rightarrow> first)"

definition sg_duration :: "segment \<Rightarrow> u16" where
  "sg_duration s = (case sg_first s of None \<Rightarrow> 0 | Some first \<Rightarrow> word_of_int (distance first (sg_last s)))"

definition sg_reset :: "segment \<Rightarrow> segment" where
  "sg_reset s = s\<lparr>sg_discontinuous := True, sg_medias := [], sg_first := None\<rparr>"

definition sg_add_time :: "u32 \<Rightarrow> segment \<Rightarrow> bool \<times> segment" where
  "sg_add_time time s =
     (case sg_first s of
        None \<Rightarrow> (True, s\<lparr>sg_first := Some time, sg_last := time\<rparr>)
      | Some first \<Rightarrow>
          if distance (sg_last s) time \<le> 0 then (True, s)
          else if distance first (sg_last s) > 0xFFFF then (False, s)
          else (True, s\<lparr>sg_last := time\<rparr>))"

text \<open>A media that is rejected is taken off again.\<close>

definition sg_add :: "media \<Rightarrow> segment \<Rightarrow> segment" where
  "sg_add m s =
     (let (ok, s') = (if media_hasTime m then sg_add_time (media_time m) s else (True, s))
      in if ok then s'\<lparr>sg_medias := sg_medias s' @ [m]\<rparr> else s')"

text \<open>The segment left behind a move.\<close>

definition sg_moved :: "segment \<Rightarrow> segment" where
  "sg_moved s = s\<lparr>sg_first := None, sg_discontinuous := False, sg_medias := []\<rparr>"

text \<open>Its name, \<open>NAME.S###\<close>: the sequence in decimal and the duration in base 64, written and read.\<close>

fun decimal :: "nat \<Rightarrow> bytes" where
  "decimal n = (if n < 10 then [] else decimal (n div 10)) @ [0x30 + word_of_nat (n mod 10)]"

declare decimal.simps [simp del]

definition WriteDuration :: "u16 \<Rightarrow> bytes" where
  "WriteDuration duration = (let (code, n) = ToBase64 True (net16 duration) in take n code)"

definition WriteName :: "bytes \<Rightarrow> u32 \<Rightarrow> u16 \<Rightarrow> bytes" where
  "WriteName name sequence duration = name @ [0x2E] @ decimal (unat sequence) @ WriteDuration duration"

definition is_b64url :: "u8 \<Rightarrow> bool" where
  "is_b64url c \<longleftrightarrow> c \<in> set B64urlTable"

fun rfind :: "u8 \<Rightarrow> bytes \<Rightarrow> nat option" where
  "rfind c [] = None"
| "rfind c (x # xs) = (case rfind c xs of Some n \<Rightarrow> Some (n + 1) | None \<Rightarrow> if x = c then Some 0 else None)"

definition ReadName :: "bytes \<Rightarrow> (nat \<times> u32 \<times> u16) option" where
  "ReadName name =
     (case rfind 0x2E name of
        None \<Rightarrow> None
      | Some sz \<Rightarrow>
          let code = drop (length name - 3) name
          in if length name - sz < 5 \<or> \<not> list_all is_b64url code then None
             else case ToNumber32 (take (length name - 3 - (sz + 1)) (drop (sz + 1) name)) of
                    None \<Rightarrow> None
                  | Some sequence \<Rightarrow>
                      (case FromBase64 True 0 0 code of
                         None \<Rightarrow> None
                       | Some text \<Rightarrow> Some (sz, sequence, (if length text \<ge> 2 then be (take 2 text) else 0))))"

section \<open>Segments::Writer\<close>

text \<open>
  What the writer calls on the writer of the container, or on \<open>Segments\<close> itself, and the end of a segment.  A map
  by track is its content in the order of the keys.
\<close>

datatype seg_event =
    SBegin
  | SEnd
  | SSegment u16
  | SProperties u8 bytes
  | SAudio u8 audio_tag bytes
  | SVideo u8 video_tag bytes
  | SData u8 u8 bytes

fun track_put :: "u8 \<Rightarrow> 'a \<Rightarrow> (u8 \<times> 'a) list \<Rightarrow> (u8 \<times> 'a) list" where
  "track_put k v [] = [(k, v)]"
| "track_put k v ((k', v') # m) = (if k = k' then (k, v) # m else if k < k' then (k, v) # (k', v') # m else (k', v') # track_put k v m)"

definition track_get :: "'a \<Rightarrow> u8 \<Rightarrow> (u8 \<times> 'a) list \<Rightarrow> 'a" where
  "track_get new k m = (case map_of m k of None \<Rightarrow> new | Some v \<Rightarrow> v)"

definition track_erase :: "u8 \<Rightarrow> (u8 \<times> 'a) list \<Rightarrow> (u8 \<times> 'a) list" where
  "track_erase k m = filter (\<lambda>(k', v). k' \<noteq> k) m"

record seg_writer =
  sw_properties :: "(u8 \<times> bytes) option"
  sw_audioConfigs :: "(u8 \<times> audio_config) list"
  sw_videoConfigs :: "(u8 \<times> video_tag \<times> bytes) list"
  sw_keying :: bool
  sw_keys :: u8
  sw_first :: bool
  sw_segTime :: u32
  sw_lastTime :: u32
  sw_duration :: u16
  sw_maxDuration :: u16

definition sw_setDuration :: "u16 \<Rightarrow> seg_writer \<Rightarrow> seg_writer" where
  "sw_setDuration value w =
     (let w = w\<lparr>sw_duration := max value 1000\<rparr>
      in if sw_duration w > sw_maxDuration w then w\<lparr>sw_maxDuration := sw_duration w\<rparr> else w)"

text \<open>The members that the constructor leaves unset are arguments.\<close>

definition new_seg_writer :: "bool \<Rightarrow> u8 \<Rightarrow> bool \<Rightarrow> u32 \<Rightarrow> u32 \<Rightarrow> u16 \<Rightarrow> seg_writer" where
  "new_seg_writer keying keys first segTime lastTime duration =
     sw_setDuration duration
       \<lparr>sw_properties = None, sw_audioConfigs = [], sw_videoConfigs = [], sw_keying = keying, sw_keys = keys, sw_first = first,
        sw_segTime = segTime, sw_lastTime = lastTime, sw_duration = 0, sw_maxDuration = 0\<rparr>"

definition new_seg_video :: "video_tag \<times> bytes" where
  "new_seg_video = (\<lparr>vt_time = 0, vt_codec = 0, vt_frame = FRAME_CONFIG, vt_composition = 0\<rparr>, [])"

definition new_seg_audio :: audio_config where
  "new_seg_audio = \<lparr>ac_time = 1, ac_codec = 0, ac_channels = 0, ac_rate = 0, ac_packet = []\<rparr>"

text \<open>The configurations, at the time of a cut.\<close>

definition sw_timed :: "u32 \<Rightarrow> seg_writer \<Rightarrow> seg_writer" where
  "sw_timed time w =
     w\<lparr>sw_videoConfigs := map (\<lambda>(k, tag, packet). (k, tag\<lparr>vt_time := time\<rparr>, packet)) (sw_videoConfigs w)\<rparr>"

definition sw_video_events :: "seg_writer \<Rightarrow> seg_event list" where
  "sw_video_events w = map (\<lambda>(k, tag, packet). SVideo k tag packet) (sw_videoConfigs w)"

definition sw_audio_timed :: "u32 \<Rightarrow> seg_writer \<Rightarrow> seg_writer" where
  "sw_audio_timed time w = w\<lparr>sw_audioConfigs := map (\<lambda>(k, c). (k, c\<lparr>ac_time := time\<rparr>)) (sw_audioConfigs w)\<rparr>"

definition sw_audio_events :: "seg_writer \<Rightarrow> seg_event list" where
  "sw_audio_events w =
     map (\<lambda>(k, c). SAudio k \<lparr>at_time = ac_time c, at_codec = ac_codec c, at_isConfig = True, at_channels = ac_channels c, at_rate = ac_rate c\<rparr>
            (ac_packet c)) (sw_audioConfigs w)"

text \<open>The cut: no segment yet, or the time is too early, or no key frame to begin with.\<close>

definition sw_cuts :: "int \<Rightarrow> seg_writer \<Rightarrow> bool" where
  "sw_cuts duration w \<longleftrightarrow>
     duration \<ge> 0
     \<and> (if sw_keying w then sw_keys w \<noteq> 0 \<and> \<not> duration div 1000 < (uint (sw_maxDuration w) + 500) div 3000
        else sw_keys w = 0 \<and> \<not> duration < uint (sw_maxDuration w))"

definition newSegment :: "u32 \<Rightarrow> seg_writer \<Rightarrow> bool \<times> seg_writer \<times> seg_event list" where
  "newSegment time w =
     (if sw_first w then (False, w\<lparr>sw_first := False, sw_lastTime := time, sw_segTime := time\<rparr>, [])
      else
        let w = (if distance (sw_lastTime w) time > 0 then w\<lparr>sw_lastTime := time\<rparr> else w);
            duration = distance (sw_segTime w) time
        in if \<not> sw_cuts duration w then (False, w, [])
           else
             let w = (if duration > uint (sw_maxDuration w) then w\<lparr>sw_maxDuration := word_of_int duration\<rparr> else w);
                 w = sw_audio_timed time (sw_timed time (w\<lparr>sw_segTime := time, sw_keys := 0\<rparr>))
             in (True, w,
                 [SEnd, SSegment (word_of_int duration), SBegin]
                 @ (case sw_properties w of None \<Rightarrow> [] | Some (type, packet) \<Rightarrow> [SProperties type packet])
                 @ sw_video_events w @ sw_audio_events w))"

definition sw_beginMedia :: "seg_writer \<Rightarrow> seg_writer \<times> seg_event list" where
  "sw_beginMedia w = (w\<lparr>sw_first := True, sw_keying := False, sw_keys := 0, sw_maxDuration := sw_duration w\<rparr>, [SBegin])"

definition sw_endMedia :: "seg_writer \<Rightarrow> seg_writer \<times> seg_event list" where
  "sw_endMedia w =
     (w\<lparr>sw_audioConfigs := [], sw_videoConfigs := [], sw_properties := None\<rparr>,
      SEnd # (if sw_first w then [] else [SSegment (word_of_int (distance (sw_segTime w) (sw_lastTime w)))]))"

definition sw_writeProperties :: "u8 \<Rightarrow> bytes \<Rightarrow> seg_writer \<Rightarrow> seg_writer \<times> seg_event list" where
  "sw_writeProperties type packet w = (w\<lparr>sw_properties := Some (type, packet)\<rparr>, [SProperties type packet])"

definition sw_writeAudio :: "u8 \<Rightarrow> audio_tag \<Rightarrow> bytes \<Rightarrow> seg_writer \<Rightarrow> seg_writer \<times> seg_event list" where
  "sw_writeAudio track tag packet w =
     (if at_isConfig tag then
        (w\<lparr>sw_audioConfigs :=
             (if packet \<noteq> []
              then track_put track (audio_config_set tag packet (track_get new_seg_audio track (sw_audioConfigs w))) (sw_audioConfigs w)
              else track_erase track (sw_audioConfigs w))\<rparr>, [SAudio track tag packet])
      else let (cut, w, es) = newSegment (at_time tag) (w\<lparr>sw_keying := False\<rparr>) in (w, es @ [SAudio track tag packet]))"

definition sw_writeVideo :: "u8 \<Rightarrow> video_tag \<Rightarrow> bytes \<Rightarrow> seg_writer \<Rightarrow> seg_writer \<times> seg_event list" where
  "sw_writeVideo track tag packet w =
     (if vt_frame tag = FRAME_CONFIG then
        (w\<lparr>sw_videoConfigs :=
             (if packet \<noteq> []
              then track_put track (video_config_set tag packet (track_get new_seg_video track (sw_videoConfigs w))) (sw_videoConfigs w)
              else track_erase track (sw_videoConfigs w)),
           sw_keying := False\<rparr>, [])
      else if vt_frame tag = FRAME_KEY \<and> \<not> sw_keying w then
        (let (cut, w, es) = newSegment (vt_time tag) (w\<lparr>sw_keying := True\<rparr>);
             w = (if cut then w else sw_timed (vt_time tag) w);
             es = (if cut then es else es @ sw_video_events w)
         in (w\<lparr>sw_keys := sw_keys w + 1\<rparr>, es @ [SVideo track tag packet]))
      else if vt_frame tag = FRAME_KEY then (w, [SVideo track tag packet])
      else let (cut, w, es) = newSegment (vt_time tag) (w\<lparr>sw_keying := False\<rparr>) in (w, es @ [SVideo track tag packet]))"

definition sw_writeData :: "u8 \<Rightarrow> u8 \<Rightarrow> bytes \<Rightarrow> seg_writer \<Rightarrow> seg_writer \<times> seg_event list" where
  "sw_writeData track type packet w = (w, [SData track type packet])"

section \<open>Segments\<close>

record segments =
  se_segments :: "segment list"
  se_segment :: segment
  se_sequence :: u32
  se_maxSegments :: u8
  se_writer :: seg_writer
  se_started :: bool
  se_duration :: u32

definition new_segments :: "u8 \<Rightarrow> seg_writer \<Rightarrow> segments" where
  "new_segments maxSegments w =
     \<lparr>se_segments = [], se_segment = new_segment, se_sequence = 0, se_maxSegments = maxSegments, se_writer = w,
      se_started = False, se_duration = 0\<rparr>"

text \<open>The construction by a move: the new one, and what it leaves.\<close>

definition moved_segments :: "seg_writer \<Rightarrow> segments \<Rightarrow> segments \<times> segments" where
  "moved_segments w s =
     ((new_segments (se_maxSegments s) w)\<lparr>se_duration := se_duration s, se_sequence := se_sequence s, se_segments := se_segments s\<rparr>,
      s\<lparr>se_sequence := se_sequence s + word_of_nat (length (se_segments s)), se_duration := 0, se_segments := []\<rparr>)"

text \<open>The loop of \<open>setMaxSegments\<close>.\<close>

fun se_trim :: "nat \<Rightarrow> u32 \<Rightarrow> segment list \<Rightarrow> u32 \<Rightarrow> u32 \<Rightarrow> (segment list \<times> u32 \<times> u32) option" where
  "se_trim most maxDuration [] sequence duration = (if duration > maxDuration then None else Some ([], sequence, duration))"
| "se_trim most maxDuration (s # ss) sequence duration =
     (if length (s # ss) > most \<or> duration > maxDuration
      then se_trim most maxDuration ss (sequence + 1) (duration - ucast (sg_duration s))
      else Some (s # ss, sequence, duration))"

definition se_setMaxSegments :: "u8 \<Rightarrow> segments \<Rightarrow> segments option" where
  "se_setMaxSegments maxSegments s =
     (case se_trim (unat maxSegments + 1) (ucast maxSegments * ucast (sw_maxDuration (se_writer s))) (se_segments s) (se_sequence s) (se_duration s) of
        None \<Rightarrow> None
      | Some (ss, sequence, duration) \<Rightarrow>
          Some (s\<lparr>se_segments := ss, se_sequence := sequence, se_duration := duration, se_maxSegments := maxSegments\<rparr>))"

definition se_setMaxDuration :: "u16 \<Rightarrow> segments \<Rightarrow> segments" where
  "se_setMaxDuration value s = s\<lparr>se_writer := sw_setDuration value (se_writer s)\<rparr>"

text \<open>\<open>onSegment\<close> of the writer, and the medias it writes.\<close>

definition se_onSegment :: "u16 \<Rightarrow> segments \<Rightarrow> segments option" where
  "se_onSegment duration s =
     (let seg = snd (sg_add_time (sg_time (se_segment s) + ucast duration) (se_segment s))
      in se_setMaxSegments (se_maxSegments s)
           (s\<lparr>se_segment := sg_moved seg, se_duration := se_duration s + ucast duration, se_segments := se_segments s @ [seg]\<rparr>))"

definition se_add :: "media \<Rightarrow> segments \<Rightarrow> segments option" where
  "se_add m s = Some (s\<lparr>se_segment := sg_add m (se_segment s)\<rparr>)"

fun se_event :: "seg_event \<Rightarrow> segments \<Rightarrow> segments option" where
  "se_event SBegin s = Some s"
| "se_event SEnd s = Some s"
| "se_event (SSegment duration) s = se_onSegment duration s"
| "se_event (SProperties type packet) s = se_add (MediaData type packet 0 True) s"
| "se_event (SAudio track tag packet) s = se_add (MediaAudio tag packet track) s"
| "se_event (SVideo track tag packet) s = se_add (MediaVideo tag packet track) s"
| "se_event (SData track type packet) s = se_add (MediaData type packet track False) s"

fun se_events :: "seg_event list \<Rightarrow> segments \<Rightarrow> segments option" where
  "se_events [] s = Some s"
| "se_events (e # es) s = (case se_event e s of None \<Rightarrow> None | Some s \<Rightarrow> se_events es s)"

definition se_writes :: "(seg_writer \<Rightarrow> seg_writer \<times> seg_event list) \<Rightarrow> segments \<Rightarrow> segments option" where
  "se_writes f s = (let (w, es) = f (se_writer s) in se_events es (s\<lparr>se_writer := w\<rparr>))"

definition se_beginMedia :: "segments \<Rightarrow> segments option" where
  "se_beginMedia s =
     (case (if se_started s then se_writes sw_endMedia s else Some s) of
        None \<Rightarrow> None
      | Some s \<Rightarrow> se_writes sw_beginMedia (s\<lparr>se_started := True\<rparr>))"

definition se_endMedia :: "segments \<Rightarrow> segments option" where
  "se_endMedia s =
     (if \<not> se_started s then Some s
      else map_option (\<lambda>s. s\<lparr>se_segment := sg_reset (se_segment s)\<rparr>) (se_writes sw_endMedia (s\<lparr>se_started := False\<rparr>)))"

definition se_write :: "(seg_writer \<Rightarrow> seg_writer \<times> seg_event list) \<Rightarrow> segments \<Rightarrow> segments option" where
  "se_write f s =
     (case (if se_started s then Some s else se_beginMedia s) of None \<Rightarrow> None | Some s \<Rightarrow> se_writes f s)"

datatype seg_op =
    SeBegin
  | SeEnd
  | SeProperties u8 bytes
  | SeAudio u8 audio_tag bytes
  | SeVideo u8 video_tag bytes
  | SeData u8 u8 bytes
  | SeMaxSegments u8
  | SeMaxDuration u16

fun se_step :: "seg_op \<Rightarrow> segments \<Rightarrow> segments option" where
  "se_step SeBegin s = se_beginMedia s"
| "se_step SeEnd s = se_endMedia s"
| "se_step (SeProperties type packet) s = se_write (sw_writeProperties type packet) s"
| "se_step (SeAudio track tag packet) s = se_write (sw_writeAudio track tag packet) s"
| "se_step (SeVideo track tag packet) s = se_write (sw_writeVideo track tag packet) s"
| "se_step (SeData track type packet) s = se_write (sw_writeData track type packet) s"
| "se_step (SeMaxSegments maxSegments) s = se_setMaxSegments maxSegments s"
| "se_step (SeMaxDuration value) s = Some (se_setMaxDuration value s)"

fun se_run :: "seg_op list \<Rightarrow> segments \<Rightarrow> segments option" where
  "se_run [] s = Some s"
| "se_run (x # xs) s = (case se_step x s of None \<Rightarrow> None | Some s \<Rightarrow> se_run xs s)"

text \<open>\<open>operator()\<close>: a segment by its sequence, or from the end; \<open>None\<close> is \<open>Segment::Null\<close>.\<close>

definition se_get :: "u32 \<Rightarrow> segments \<Rightarrow> segment option" where
  "se_get sequence s =
     (let i = (if sint sequence < 0 then sequence + word_of_nat (length (se_segments s)) else sequence - se_sequence s)
      in if sint i < 0 \<or> unat i \<ge> length (se_segments s) then None else Some (se_segments s ! unat i))"

section \<open>Playlist\<close>

record playlist =
  pl_sequence :: u32
  pl_maxDuration :: u16
  pl_duration :: u32
  pl_durations :: "u16 list"

definition new_playlist :: playlist where
  "new_playlist = \<lparr>pl_sequence = 0, pl_maxDuration = 0, pl_duration = 0, pl_durations = []\<rparr>"

definition pl_addItem :: "u16 \<Rightarrow> playlist \<Rightarrow> playlist" where
  "pl_addItem duration p =
     p\<lparr>pl_maxDuration := (if duration > pl_maxDuration p then duration else pl_maxDuration p),
       pl_duration := pl_duration p + ucast duration, pl_durations := pl_durations p @ [duration]\<rparr>"

definition pl_removeItem :: "playlist \<Rightarrow> playlist" where
  "pl_removeItem p =
     (case pl_durations p of
        [] \<Rightarrow> p
      | d # ds \<Rightarrow> p\<lparr>pl_sequence := pl_sequence p + 1, pl_duration := pl_duration p - ucast d, pl_durations := ds\<rparr>)"

definition pl_reset :: "playlist \<Rightarrow> playlist" where
  "pl_reset p = p\<lparr>pl_sequence := 0, pl_maxDuration := 0, pl_duration := 0, pl_durations := []\<rparr>"

text \<open>\<open>Segments::to\<close>: all but the first one when they are full, a 0 in front of a discontinuity and at the end.\<close>

definition pl_segment :: "segment \<Rightarrow> playlist \<Rightarrow> playlist" where
  "pl_segment seg p = pl_addItem (sg_duration seg) (if sg_discontinuous seg then pl_addItem 0 p else p)"

definition se_to :: "segments \<Rightarrow> playlist \<Rightarrow> playlist" where
  "se_to s p =
     (let p = (pl_reset p)\<lparr>pl_sequence := se_sequence s, pl_maxDuration := sw_maxDuration (se_writer s)\<rparr>;
          full = (length (se_segments s) \<ge> unat (se_maxSegments s) \<and> se_segments s \<noteq> []);
          p = (if full then p\<lparr>pl_sequence := pl_sequence p + 1\<rparr> else p);
          p = fold pl_segment (if full then tl (se_segments s) else se_segments s) p
      in if se_started s then p else pl_addItem 0 p)"

text \<open>The lines of \<open>M3U8::Write\<close> behind its first line.\<close>

datatype m3u8_line =
    M3Version
  | M3Target nat
  | M3Sequence u32
  | M3Type bytes
  | M3NoCache
  | M3Item u16 bytes
  | M3Discontinuity
  | M3EndList

fun m3u8_items :: "bytes \<Rightarrow> bytes \<Rightarrow> nat \<Rightarrow> nat \<Rightarrow> u32 \<Rightarrow> u16 list \<Rightarrow> m3u8_line list" where
  "m3u8_items name ext count i sequence [] = []"
| "m3u8_items name ext count i sequence (d # ds) =
     (let i = i + 1
      in if d \<noteq> 0 then M3Item d (WriteName name sequence d @ [0x2E] @ ext) # m3u8_items name ext count i (sequence + 1) ds
         else if i = count then (if i < count then M3Discontinuity else M3EndList) # m3u8_items name ext count i sequence ds
         else m3u8_items name ext count i sequence ds)"

definition m3u8_write :: "bytes \<Rightarrow> bytes \<Rightarrow> bytes option \<Rightarrow> playlist \<Rightarrow> m3u8_line list" where
  "m3u8_write name ext type p =
     [M3Version, M3Target ((unat (pl_maxDuration p) + 500) div 1000), M3Sequence (pl_sequence p),
      (case type of Some t \<Rightarrow> M3Type t | None \<Rightarrow> M3NoCache)]
     @ m3u8_items name ext (length (pl_durations p)) 0 (pl_sequence p) (pl_durations p)"

section \<open>The names of the segments\<close>

lemma digit_cases: "d < 10 \<Longrightarrow> d = 0 \<or> d = 1 \<or> d = 2 \<or> d = 3 \<or> d = 4 \<or> d = 5 \<or> d = 6 \<or> d = 7 \<or> d = 8 \<or> d = (9 :: nat)"
  by arith

lemma digit_scan:
  assumes "d < 10"
  shows "number_scan ((0x30 + word_of_nat d) # cs) b negative n 0 = number_scan cs False negative (n * 10 + int d) 0"
  using digit_cases [OF assms] by (elim disjE) simp_all

lemma digit_no_dot: "d < 10 \<Longrightarrow> (0x30 + word_of_nat d :: u8) \<noteq> 0x2E"
  using digit_cases [of d] by auto

lemma decimal_scan: "number_scan (decimal n @ cs) b negative 0 0 = number_scan cs False negative (int n) 0"
proof (induction n arbitrary: cs b rule: decimal.induct)
  case (1 n)
  show ?case
  proof (cases "n < 10")
    case True
    then have "decimal n = [0x30 + word_of_nat n]" by (subst decimal.simps) simp
    then show ?thesis using digit_scan [OF True, of cs b negative 0] by (simp only: append_Cons append_Nil mult_zero_left add_0_left)
  next
    case False
    have "number_scan (decimal n @ cs) b negative 0 0
        = number_scan (decimal (n div 10) @ [0x30 + word_of_nat (n mod 10)] @ cs) b negative 0 0"
      using False by (subst decimal.simps) simp
    also have "\<dots> = number_scan cs False negative (int (n div 10) * 10 + int (n mod 10)) 0"
      using False 1 by (simp add: digit_scan del: number_scan.simps)
    also have "int (n div 10) * 10 + int (n mod 10) = int n" by (simp add: of_nat_div of_nat_mod)
    finally show ?thesis .
  qed
qed

lemma decimal_no_dot: "0x2E \<notin> set (decimal n)"
proof (induction n rule: decimal.induct)
  case (1 n)
  then show ?case using digit_no_dot [of "n mod 10"] by (subst decimal.simps) auto
qed

lemma decimal_nonempty: "decimal n \<noteq> []"
  by (subst decimal.simps) simp

lemma ToNumber32_decimal: "ToNumber32 (decimal (unat v)) = Some v"
proof -
  have "uint v < 2 ^ 32" using unsigned_less [of v] by simp
  then have "int (unat v) \<le> 4294967295" by simp
  then show ?thesis using decimal_scan [of "unat v" "[]" True False] by (simp add: ToNumber32_def Let_def)
qed

lemma duration_code: "WriteDuration d = b64_encode True 0 0 (net16 d)"
  by (simp add: WriteDuration_def ToBase64_def Let_def)

lemma length_WriteDuration [simp]: "length (WriteDuration d) = 3"
  by (simp add: duration_code b64_encode_length)

lemma FromBase64_WriteDuration: "FromBase64 True 0 0 (WriteDuration d) = Some (net16 d)"
  using base64_loop [of True 0 0 "net16 d" 0] by (simp add: duration_code)


lemma be_net16: "be (net16 d) = d"
  by (simp add: net_be be_be_bytes take_bit_word_eq_self)

lemma b64_char_table: "b64_char True v \<in> set B64urlTable"
  proof -
  have "length B64urlTable = 64" by (simp add: B64urlTable_def)
  then show ?thesis using six_bits [of v] by (simp add: b64_char_def)
qed

lemma b64_drain_table: "set (fst (b64_drain True acc bits)) \<subseteq> set B64urlTable"
proof (induction True acc bits rule: b64_drain.induct)
  case (1 acc bits)
  then show ?case by (subst b64_drain.simps) (auto simp: Let_def b64_char_table split: prod.splits)
qed

lemma b64_encode_table: "set (b64_encode True acc bits data) \<subseteq> set B64urlTable"
proof (induction data arbitrary: acc bits)
  case (Cons d ds)
  show ?case
    using Cons b64_drain_table [of "push_bit 8 acc OR ucast d" "bits + 8"]
    by (cases "b64_drain True (push_bit 8 acc OR ucast d) (bits + 8)") auto
qed (use b64_char_table in auto)

lemma WriteDuration_table: "list_all is_b64url (WriteDuration d)"
  using b64_encode_table [of 0 0 "net16 d"] by (auto simp: duration_code list_all_iff is_b64url_def)

lemma WriteDuration_no_dot: "0x2E \<notin> set (WriteDuration d)"
proof -
  have "0x2E \<notin> set B64urlTable" by (simp add: B64urlTable_def)
  then show ?thesis using b64_encode_table [of 0 0 "net16 d"] by (auto simp: duration_code)
qed

lemma rfind_none: "c \<notin> set xs \<Longrightarrow> rfind c xs = None"
  by (induction xs) auto

lemma rfind_last: "c \<notin> set ys \<Longrightarrow> rfind c (xs @ c # ys) = Some (length xs)"
  by (induction xs) (simp_all add: rfind_none)

lemma ReadName_WriteName: "ReadName (WriteName name sequence duration) = Some (length name, sequence, duration)"
proof -
  let ?w = "WriteName name sequence duration"
  have w: "?w = (name @ 0x2E # decimal (unat sequence)) @ WriteDuration duration" by (simp add: WriteName_def)
  have dot: "rfind 0x2E ?w = Some (length name)"
    using rfind_last [of "0x2E" "decimal (unat sequence) @ WriteDuration duration" name]
    by (simp add: WriteName_def decimal_no_dot WriteDuration_no_dot)
  have long: "\<not> length ?w - length name < 5"
    using decimal_nonempty [of "unat sequence"] by (cases "decimal (unat sequence)") (simp_all add: w)
  have seq: "take (length ?w - 3 - (length name + 1)) (drop (length name + 1) ?w) = decimal (unat sequence)"
    by (simp add: w)
  have code: "drop (length ?w - 3) ?w = WriteDuration duration" by (simp add: w)
  show ?thesis
    unfolding ReadName_def dot option.case code seq ToNumber32_decimal FromBase64_WriteDuration Let_def
    using long by (simp add: WriteDuration_table be_net16)
qed

section \<open>The sequence numbers\<close>

text \<open>Segments come at the end and go at the front, counted by the sequence: at most \<open>k\<close> come.\<close>

definition grown :: "nat \<Rightarrow> segments \<Rightarrow> segments \<Rightarrow> bool" where
  "grown k s s' \<longleftrightarrow>
     (\<exists>n new. length new \<le> k \<and> n \<le> length (se_segments s @ new) \<and> se_segments s' = drop n (se_segments s @ new)
       \<and> se_sequence s' = se_sequence s + word_of_nat n)"

lemma grown_same [intro]: "se_segments s' = se_segments s \<Longrightarrow> se_sequence s' = se_sequence s \<Longrightarrow> grown k s s'"
  unfolding grown_def by (intro exI [of _ 0] exI [of _ "[]"]) simp

lemma grown_trans: "grown j s t \<Longrightarrow> grown k t u \<Longrightarrow> grown (j + k) s u"
proof -
  assume "grown j s t"
  then obtain n new where a: "length new \<le> j" "n \<le> length (se_segments s @ new)" "se_segments t = drop n (se_segments s @ new)"
    "se_sequence t = se_sequence s + word_of_nat n" unfolding grown_def by blast
  assume "grown k t u"
  then obtain m new' where b: "length new' \<le> k" "m \<le> length (se_segments t @ new')" "se_segments u = drop m (se_segments t @ new')"
    "se_sequence u = se_sequence t + word_of_nat m" unfolding grown_def by blast
  have "drop n (se_segments s @ new) @ new' = drop n ((se_segments s @ new) @ new')"
    using a(2) by (subst (2) drop_append) simp
  then have "se_segments u = drop (n + m) (se_segments s @ new @ new')"
    unfolding b(3) a(3) by (simp only: drop_drop append.assoc add.commute)
  then show ?thesis
    using a b unfolding grown_def by (intro exI [of _ "n + m"] exI [of _ "new @ new'"]) auto
qed

lemma grown_mono: "grown j s t \<Longrightarrow> j \<le> k \<Longrightarrow> grown k s t"
  unfolding grown_def by (meson le_trans)

lemma se_trim_front:
  "se_trim most maxDuration ss sequence duration = Some (ss', sequence', duration') \<Longrightarrow>
     \<exists>n. n \<le> length ss \<and> ss' = drop n ss \<and> sequence' = sequence + word_of_nat n \<and> length ss' \<le> most"
proof (induction most maxDuration ss sequence duration rule: se_trim.induct)
  case (2 most maxDuration s ss sequence duration)
  show ?case
  proof (cases "length (s # ss) > most \<or> duration > maxDuration")
    case True
    with 2 obtain n where "n \<le> length ss" "ss' = drop n ss" "sequence' = sequence + 1 + word_of_nat n" "length ss' \<le> most" by auto
    then show ?thesis by (intro exI [of _ "Suc n"]) auto
  next
    case False
    with 2 show ?thesis by (intro exI [of _ 0]) auto
  qed
qed (auto split: if_splits)

lemma se_setMaxSegments_grown: "se_setMaxSegments m s = Some s' \<Longrightarrow> grown 0 s s'"
  using se_trim_front unfolding se_setMaxSegments_def grown_def by (fastforce split: option.splits)

lemma se_setMaxSegments_count: "se_setMaxSegments m s = Some s' \<Longrightarrow> length (se_segments s') \<le> unat m + 1 \<and> se_maxSegments s' = m"
  using se_trim_front unfolding se_setMaxSegments_def by (fastforce split: option.splits)

lemma se_onSegment_grown: "se_onSegment duration s = Some s' \<Longrightarrow> grown 1 s s'"
proof -
  assume a: "se_onSegment duration s = Some s'"
  let ?seg = "snd (sg_add_time (sg_time (se_segment s) + ucast duration) (se_segment s))"
  let ?t = "s\<lparr>se_segment := sg_moved ?seg, se_duration := se_duration s + ucast duration, se_segments := se_segments s @ [?seg]\<rparr>"
  have "grown 1 s ?t" unfolding grown_def by (intro exI [of _ 0] exI [of _ "[?seg]"]) simp
  moreover have "grown 0 ?t s'" using a by (intro se_setMaxSegments_grown) (simp add: se_onSegment_def Let_def)
  ultimately show ?thesis using grown_trans by fastforce
qed

text \<open>The cuts of a list of events.\<close>

fun is_cut :: "seg_event \<Rightarrow> bool" where
  "is_cut (SSegment d) = True"
| "is_cut e = False"

definition cuts :: "seg_event list \<Rightarrow> nat" where
  "cuts es = length (filter is_cut es)"

lemma cuts_simps [simp]:
  "cuts [] = 0" "cuts (e # es) = (if is_cut e then 1 else 0) + cuts es" "cuts (es @ fs) = cuts es + cuts fs"
  "cuts (sw_video_events w) = 0" "cuts (sw_audio_events w) = 0"
  by (auto simp: cuts_def sw_video_events_def sw_audio_events_def filter_empty_conv)

lemma se_event_grown: "se_event e s = Some s' \<Longrightarrow> grown (if is_cut e then 1 else 0) s s'"
  using se_onSegment_grown by (cases e) (auto simp: se_add_def)

lemma se_events_grown: "se_events es s = Some s' \<Longrightarrow> grown (cuts es) s s'"
proof (induction es arbitrary: s)
  case (Cons e es)
  then obtain t where "se_event e s = Some t" "se_events es t = Some s'" by (auto split: option.splits)
  then show ?case using grown_trans [OF se_event_grown Cons.IH, of e s t] by simp
qed auto

lemma se_writes_grown:
  assumes "se_writes f s = Some s'" and "\<And>w. cuts (snd (f w)) \<le> k"
  shows "grown k s s'"
proof -
  obtain w es where f: "f (se_writer s) = (w, es)" by fastforce
  then have "se_events es (s\<lparr>se_writer := w\<rparr>) = Some s'" using assms(1) by (simp add: se_writes_def)
  then have "grown (cuts es) (s\<lparr>se_writer := w\<rparr>) s'" by (rule se_events_grown)
  then have "grown (cuts es) s s'" unfolding grown_def by simp
  then show ?thesis using assms(2) [of "se_writer s"] f by (auto intro: grown_mono)
qed

lemma newSegment_cuts: "newSegment time w = (c, w', es) \<Longrightarrow> cuts es \<le> 1"
  by (auto simp: newSegment_def Let_def split: if_splits option.splits)

lemma writer_cuts:
  "cuts (snd (sw_endMedia w)) \<le> 1" "cuts (snd (sw_beginMedia w)) = 0" "cuts (snd (sw_writeProperties type packet w)) = 0"
  "cuts (snd (sw_writeAudio track atag packet w)) \<le> 1" "cuts (snd (sw_writeVideo track vtag packet w)) \<le> 1"
  "cuts (snd (sw_writeData track type packet w)) = 0"
  by (auto simp: sw_endMedia_def sw_beginMedia_def sw_writeProperties_def sw_writeAudio_def sw_writeVideo_def sw_writeData_def Let_def
    dest!: newSegment_cuts split: prod.splits)

lemma se_beginMedia_grown: "se_beginMedia s = Some s' \<Longrightarrow> grown (if se_started s then 1 else 0) s s'"
proof -
  assume a: "se_beginMedia s = Some s'"
  then obtain t where t: "(if se_started s then se_writes sw_endMedia s else Some s) = Some t"
    and u: "se_writes sw_beginMedia (t\<lparr>se_started := True\<rparr>) = Some s'" by (auto simp: se_beginMedia_def split: option.splits)
  have "grown 0 (t\<lparr>se_started := True\<rparr>) s'" using u by (rule se_writes_grown) (simp add: writer_cuts)
  then have "grown 0 t s'" unfolding grown_def by simp
  moreover have "grown (if se_started s then 1 else 0) s t"
    using t se_writes_grown [of sw_endMedia s t 1] by (auto simp: writer_cuts [simplified] split: if_splits)
  ultimately show ?thesis using grown_trans by fastforce
qed

lemma se_write_grown:
  assumes "se_write f s = Some s'" and "\<And>w. cuts (snd (f w)) \<le> 1"
  shows "grown 1 s s'"
proof -
  obtain t where t: "(if se_started s then Some s else se_beginMedia s) = Some t" and u: "se_writes f t = Some s'"
    using assms(1) by (auto simp: se_write_def split: option.splits)
  have "grown 0 s t" using t se_beginMedia_grown [of s t] by (auto split: if_splits)
  with se_writes_grown [OF u assms(2)] show ?thesis using grown_trans by fastforce
qed

lemma se_step_grown: "se_step x s = Some s' \<Longrightarrow> grown 1 s s'"
proof (cases x)
  assume a: "se_step x s = Some s'"
  {
    case SeBegin
    then show ?thesis using a grown_mono [OF se_beginMedia_grown] by (auto split: if_splits)
  next
    case SeEnd
    show ?thesis
    proof (cases "se_started s")
      case True
      then obtain t where "se_writes sw_endMedia (s\<lparr>se_started := False\<rparr>) = Some t" "s' = t\<lparr>se_segment := sg_reset (se_segment t)\<rparr>"
        using a SeEnd by (auto simp: se_endMedia_def)
      moreover from this have "grown 1 (s\<lparr>se_started := False\<rparr>) t" using se_writes_grown [of sw_endMedia _ t 1] by (simp add: writer_cuts [simplified])
      ultimately show ?thesis by (simp add: grown_def)
    qed (use a SeEnd in \<open>auto simp: se_endMedia_def\<close>)
  next
    case (SeMaxSegments m)
    then show ?thesis using a grown_mono [OF se_setMaxSegments_grown] by auto
  next
    case (SeMaxDuration d)
    then show ?thesis using a by (auto simp: se_setMaxDuration_def)
  }
qed (auto intro!: se_write_grown [simplified] simp: writer_cuts [simplified])

lemma se_run_grown: "se_run xs s = Some s' \<Longrightarrow> grown (length xs) s s'"
proof (induction xs arbitrary: s)
  case (Cons x xs)
  then obtain t where "se_step x s = Some t" "se_run xs t = Some s'" by (auto split: option.splits)
  then show ?case using grown_trans [OF se_step_grown Cons.IH] by fastforce
qed auto

lemma uint_sint32: "uint (x :: u32) = (if 0 \<le> sint x then sint x else sint x + 2 ^ 32)"
proof -
  have r: "- (2 ^ 31) \<le> sint x" "sint x < 2 ^ 31" using sint_range_size [of x] by (auto simp: word_size)
  have "uint x = uint (word_of_int (sint x) :: u32)" by simp
  also have "\<dots> = sint x mod 2 ^ 32" by (simp only: uint_word_of_int) simp
  finally have u: "uint x = sint x mod 2 ^ 32" .
  show ?thesis
  proof (cases "0 \<le> sint x")
    case False
    then have "(sint x + 2 ^ 32) mod 2 ^ 32 = sint x + 2 ^ 32" using r by (intro mod_pos_pos_trivial) auto
    with u False show ?thesis by simp
  qed (use u r in simp)
qed

lemma index_positive: "0 \<le> sint (i :: u32) \<longleftrightarrow> unat i < 2 ^ 31"
proof -
  have r: "- (2 ^ 31) \<le> sint i" "sint i < 2 ^ 31" using sint_range_size [of i] by (auto simp: word_size)
  have "unat i < 2 ^ 31 \<longleftrightarrow> uint i < 2 ^ 31" by (simp flip: nat_uint_eq add: nat_less_iff)
  then show ?thesis using uint_sint32 [of i] r by (auto split: if_splits)
qed

lemma index_back: "n \<le> unat i \<Longrightarrow> unat (i - word_of_nat n :: u32) = unat i - n"
proof -
  assume a: "n \<le> unat i"
  moreover have "unat i < 2 ^ LENGTH(32)" by (rule unsigned_less)
  ultimately have "n < 2 ^ LENGTH(32)" by (rule le_less_trans)
  then have "unat (word_of_nat n :: u32) = n" by (rule unat_of_nat_small)
  with a show ?thesis by (simp add: unat_sub word_le_nat_alt)
qed

lemma index_gone:
  assumes "unat i < n" "n \<le> 2 ^ 31"
  shows "sint (i - word_of_nat n :: u32) < 0"
proof -
  have n: "unat (word_of_nat n :: u32) = n" using assms(2) by (intro unat_of_nat_small) simp
  have "unat (i - word_of_nat n) = 2 ^ 32 + unat i - n"
    using assms n by (simp add: unat_sub_if' word_le_nat_alt)
  then have "\<not> unat (i - word_of_nat n) < 2 ^ 31" using assms by simp
  then have "\<not> 0 \<le> sint (i - word_of_nat n)" unfolding index_positive .
  then show ?thesis by simp
qed

text \<open>C19. A sequence number names one segment: what \<open>operator()\<close> returns for it is, after any operations that succeed, still
  the same segment, or none once it is gone.\<close>

theorem segment_kept:
  assumes "se_run xs s = Some s'" and "se_get sequence s = Some seg" and "0 \<le> sint sequence"
    and "length (se_segments s) + length xs \<le> 2 ^ 31"
  shows "se_get sequence s' = Some seg \<or> se_get sequence s' = None"
proof -
  obtain n new where g: "length new \<le> length xs" "n \<le> length (se_segments s @ new)" "se_segments s' = drop n (se_segments s @ new)"
    "se_sequence s' = se_sequence s + word_of_nat n"
    using se_run_grown [OF assms(1)] unfolding grown_def by blast
  define i where "i = sequence - se_sequence s"
  have i: "0 \<le> sint i" "unat i < length (se_segments s)" "seg = se_segments s ! unat i"
    using assms(2, 3) by (auto simp: se_get_def i_def Let_def split: if_splits)
  have i': "sequence - se_sequence s' = i - word_of_nat n" by (simp add: i_def g(4))
  show ?thesis
  proof (cases "n \<le> unat i")
    case True
    then have u: "unat (i - word_of_nat n) = unat i - n" by (rule index_back)
    then have "0 \<le> sint (i - word_of_nat n)" using i(1) by (simp add: index_positive)
    moreover have "se_segments s' ! (unat i - n) = seg" "unat i - n < length (se_segments s')"
      using True i(2,3) g by (auto simp: nth_append)
    ultimately show ?thesis using assms(3) by (simp add: se_get_def i' u Let_def)
  next
    case False
    then have "sint (i - word_of_nat n) < 0" using g(1,2) assms(4) by (intro index_gone) auto
    then show ?thesis using assms(3) by (simp add: se_get_def i' Let_def)
  qed
qed

section \<open>The playlist\<close>

fun m3_entries :: "m3u8_line list \<Rightarrow> (u16 \<times> bytes) list" where
  "m3_entries [] = []"
| "m3_entries (M3Item d file # ls) = (d, file) # m3_entries ls"
| "m3_entries (_ # ls) = m3_entries ls"

definition m3_entry :: "bytes \<Rightarrow> bytes \<Rightarrow> u32 \<Rightarrow> u16 \<Rightarrow> u16 \<times> bytes" where
  "m3_entry name ext sequence d = (d, WriteName name sequence d @ [0x2E] @ ext)"

definition se_full :: "segments \<Rightarrow> bool" where
  "se_full s \<longleftrightarrow> unat (se_maxSegments s) \<le> length (se_segments s) \<and> se_segments s \<noteq> []"

definition pl_items :: "segment \<Rightarrow> u16 list" where
  "pl_items seg = (if sg_discontinuous seg then [0] else []) @ [sg_duration seg]"

lemma pl_addItem_simps [simp]:
  "pl_durations (pl_addItem d p) = pl_durations p @ [d]" "pl_sequence (pl_addItem d p) = pl_sequence p"
  by (simp_all add: pl_addItem_def)

lemma pl_segments:
  "pl_durations (fold pl_segment segs p) = pl_durations p @ concat (map pl_items segs)"
  "pl_sequence (fold pl_segment segs p) = pl_sequence p"
  by (induction segs arbitrary: p) (simp_all add: pl_segment_def pl_items_def)

lemma se_to_list:
  "pl_sequence (se_to s p) = se_sequence s + (if se_full s then 1 else 0)"
  "pl_durations (se_to s p) =
     concat (map pl_items (drop (if se_full s then 1 else 0) (se_segments s))) @ (if se_started s then [] else [0])"
  by (auto simp: se_to_def se_full_def Let_def pl_segments pl_reset_def drop_Suc)

lemma m3u8_entries:
  "m3_entries (m3u8_items name ext count i sequence ds) =
     map2 (m3_entry name ext) (map (\<lambda>k. sequence + word_of_nat k) [0..<length (filter (\<lambda>d. d \<noteq> 0) ds)]) (filter (\<lambda>d. d \<noteq> 0) ds)"
proof (induction ds arbitrary: i sequence)
  case (Cons d ds)
  have "map (\<lambda>k. sequence + word_of_nat k) [0..<Suc n] = sequence # map (\<lambda>k. sequence + 1 + word_of_nat k) [0..<n]" for n
    by (simp add: upt_conv_Cons add.assoc del: upt_Suc flip: map_Suc_upt)
  then show ?case using Cons by (simp add: Let_def m3_entry_def del: upt_Suc)
qed simp

lemma pl_items_filter:
  "\<forall>seg \<in> set segs. sg_duration seg \<noteq> 0 \<Longrightarrow> filter (\<lambda>d. d \<noteq> 0) (concat (map pl_items segs)) = map sg_duration segs"
  by (induction segs) (auto simp: pl_items_def)

lemma se_get_index:
  assumes "unat (se_sequence s) + length (se_segments s) < 2 ^ 31" and "k < length (se_segments s)"
  shows "se_get (se_sequence s + word_of_nat k) s = Some (se_segments s ! k)"
proof -
  have k: "unat (word_of_nat k :: u32) = k" using assms by (intro unat_of_nat_small) simp
  have "unat (se_sequence s + word_of_nat k) = unat (se_sequence s) + k"
    using assms by (subst unat_plus_if') (simp add: k)
  then have "0 \<le> sint (se_sequence s + word_of_nat k)" "0 \<le> sint (word_of_nat k :: u32)"
    unfolding index_positive k using assms by simp_all
  then have p: "\<not> sint (se_sequence s + word_of_nat k) < 0" "\<not> sint (word_of_nat k :: u32) < 0" by simp_all
  have "\<not> length (se_segments s) \<le> k" using assms(2) by simp
  then show ?thesis by (simp only: se_get_def Let_def p if_False add_diff_cancel_left' k simp_thms)
qed

text \<open>C31. When no segment kept lasts 0 ms, the items of the playlist M3U8 made of the segments are, in order, one per segment
  kept (without the first one when they are full), each with the duration of its segment and its name, whose sequence gives
  \<open>operator()\<close> that very segment.\<close>

theorem playlist_names:
  assumes "\<forall>seg \<in> set (se_segments s). sg_duration seg \<noteq> 0" and "unat (se_sequence s) + length (se_segments s) < 2 ^ 31"
  shows "m3_entries (m3u8_write name ext type (se_to s p))
      = map (\<lambda>k. m3_entry name ext (se_sequence s + word_of_nat k) (sg_duration (se_segments s ! k)))
          [if se_full s then 1 else 0..<length (se_segments s)]
    \<and> (\<forall>k < length (se_segments s). se_get (se_sequence s + word_of_nat k) s = Some (se_segments s ! k))"
    (is "?lines \<and> ?get")
proof
  show ?get using se_get_index [OF assms(2)] by blast
  show ?lines
  proof -
    let ?n = "if se_full s then 1 else 0 :: nat"
    have "\<forall>seg \<in> set (drop ?n (se_segments s)). sg_duration seg \<noteq> 0" using assms(1) by (meson in_set_dropD)
    then have "filter (\<lambda>d. d \<noteq> 0) (pl_durations (se_to s p)) = map sg_duration (drop ?n (se_segments s))"
      unfolding se_to_list(2) filter_append by (subst pl_items_filter) simp_all
    then have "m3_entries (m3u8_write name ext type (se_to s p)) =
        map2 (m3_entry name ext) (map (\<lambda>k. pl_sequence (se_to s p) + word_of_nat k) [0..<length (se_segments s) - ?n])
          (map sg_duration (drop ?n (se_segments s)))"
      by (cases type) (simp_all add: m3u8_write_def m3u8_entries)
    also have "\<dots> = map (\<lambda>k. m3_entry name ext (se_sequence s + word_of_nat k) (sg_duration (se_segments s ! k)))
        [?n..<length (se_segments s)]"
      by (intro nth_equalityI) (auto simp: se_to_list(1) ac_simps)
    finally show ?thesis .
  qed
qed

section \<open>Timely runs\<close>

text \<open>
  A media is timely when it is not older than the one before, the segment does not reach 65536 ms with it, and key
  frames in a row have one time.  Its time is none for what has no time.
\<close>

fun se_time :: "seg_op \<Rightarrow> u32 option" where
  "se_time (SeAudio track tag packet) = (if at_isConfig tag then None else Some (at_time tag))"
| "se_time (SeVideo track tag packet) = (if vt_frame tag = FRAME_CONFIG then None else Some (vt_time tag))"
| "se_time _ = None"

fun is_key :: "seg_op \<Rightarrow> bool" where
  "is_key (SeVideo track tag packet) = (vt_frame tag = FRAME_KEY)"
| "is_key _ = False"

definition sw_timely :: "seg_op \<Rightarrow> u32 \<Rightarrow> seg_writer \<Rightarrow> bool" where
  "sw_timely x time w \<longleftrightarrow>
     0 \<le> distance (sw_lastTime w) time \<and> 0 \<le> distance (sw_segTime w) time \<and> distance (sw_segTime w) time \<le> 65535
     \<and> (is_key x \<and> sw_keying w \<longrightarrow> time = sw_lastTime w)"

definition timely :: "seg_op \<Rightarrow> segments \<Rightarrow> bool" where
  "timely x s \<longleftrightarrow>
     (case se_time x of
        None \<Rightarrow> True
      | Some time \<Rightarrow> se_started s \<longrightarrow> \<not> sw_first (se_writer s) \<longrightarrow> sw_timely x time (se_writer s))"

fun timely_run :: "seg_op list \<Rightarrow> segments \<Rightarrow> bool" where
  "timely_run [] s = True"
| "timely_run (x # xs) s = (timely x s \<and> (case se_step x s of None \<Rightarrow> True | Some s' \<Rightarrow> timely_run xs s'))"

lemma unat_u16_u32: "unat (ucast (d :: u16) :: u32) = unat d"
proof -
  have "unat d < 2 ^ LENGTH(32)" by (rule less_trans [OF unat_u16_less]) simp
  then show ?thesis by (simp add: unsigned_ucast_eq take_bit_nat_eq_self del: unat_u16_less)
qed

text \<open>What is kept, and its duration.\<close>

definition sum_duration :: "segment list \<Rightarrow> nat" where
  "sum_duration ss = sum_list (map (\<lambda>s. unat (sg_duration s)) ss)"

lemma sum_duration_simps [simp]:
  "sum_duration [] = 0" "sum_duration (s # ss) = unat (sg_duration s) + sum_duration ss"
  "sum_duration (ss @ ts) = sum_duration ss + sum_duration ts"
  by (simp_all add: sum_duration_def)

lemma sum_duration_bound: "sum_duration ss \<le> length ss * 65535"
proof (induction ss)
  case (Cons s ss)
  have "unat (sg_duration s) \<le> 65535" using unat_u16_less [of "sg_duration s"] by linarith
  then have "unat (sg_duration s) + sum_duration ss \<le> 65535 + length ss * 65535" using Cons by (rule add_mono)
  then show ?case by simp
qed simp

definition se_kept :: "segments \<Rightarrow> bool" where
  "se_kept s \<longleftrightarrow> unat (se_duration s) = sum_duration (se_segments s) \<and> length (se_segments s) \<le> unat (se_maxSegments s) + 1"

lemma se_trim_exact:
  "unat duration = sum_duration ss \<Longrightarrow>
     \<exists>ss' sequence' duration'. se_trim most maxDuration ss sequence duration = Some (ss', sequence', duration')
       \<and> unat duration' = sum_duration ss'"
proof (induction most maxDuration ss sequence duration rule: se_trim.induct)
  case (1 most maxDuration sequence duration)
  then have "duration = 0" by (simp add: unat_eq_zero)
  then show ?case by simp
next
  case (2 most maxDuration s ss sequence duration)
  show ?case
  proof (cases "length (s # ss) > most \<or> duration > maxDuration")
    case True
    have c: "unat (ucast (sg_duration s) :: u32) = unat (sg_duration s)" by (rule unat_u16_u32)
    have "(ucast (sg_duration s) :: u32) \<le> duration" using 2(2) by (simp add: word_le_nat_alt c)
    then have "unat (duration - ucast (sg_duration s)) = sum_duration ss" using 2(2) by (simp add: unat_sub c)
    with 2(1) True show ?thesis by simp
  next
    case False
    with 2(2) show ?thesis by auto
  qed
qed

lemma se_setMaxSegments_exact:
  assumes "unat (se_duration s) = sum_duration (se_segments s)"
  shows "\<exists>s'. se_setMaxSegments m s = Some s' \<and> se_kept s' \<and> se_segment s' = se_segment s \<and> se_writer s' = se_writer s
    \<and> se_started s' = se_started s \<and> se_maxSegments s' = m"
proof -
  let ?t = "se_trim (unat m + 1) (ucast m * ucast (sw_maxDuration (se_writer s))) (se_segments s) (se_sequence s) (se_duration s)"
  obtain ss sequence duration where t: "?t = Some (ss, sequence, duration)" and d: "unat duration = sum_duration ss"
    using se_trim_exact [OF assms] by blast
  have "length ss \<le> unat m + 1" using se_trim_front [OF t] by blast
  with t d show ?thesis by (auto simp: se_setMaxSegments_def se_kept_def)
qed

lemma se_kept_same:
  "se_kept s \<Longrightarrow> se_segments s' = se_segments s \<Longrightarrow> se_duration s' = se_duration s \<Longrightarrow> se_maxSegments s' = se_maxSegments s \<Longrightarrow> se_kept s'"
  by (simp add: se_kept_def)

text \<open>A segment from \<open>first\<close> to \<open>last\<close>, and one that a media of a time makes go there.\<close>

definition sg_from :: "u32 \<Rightarrow> u32 \<Rightarrow> segment \<Rightarrow> bool" where
  "sg_from first final seg \<longleftrightarrow> sg_first seg = Some first \<and> sg_last seg = final \<and> 0 \<le> distance first final \<and> distance first final \<le> 65535"

definition sg_opens :: "u32 \<Rightarrow> u32 \<Rightarrow> segment \<Rightarrow> bool" where
  "sg_opens first time seg \<longleftrightarrow>
     0 \<le> distance first time \<and> distance first time \<le> 65535
     \<and> (sg_first seg = None \<and> first = time \<or> (\<exists>final. sg_from first final seg \<and> 0 \<le> distance final time))"

lemma distance_same [simp]: "distance a a = 0"
  by (simp add: distance_eq)

lemma distance_zero: "distance a b = 0 \<Longrightarrow> b = a"
proof -
  assume "distance a b = 0"
  then have "word_of_int (sint (b - a)) = (word_of_int 0 :: u32)" by (simp add: distance_eq)
  then show "b = a" by simp
qed

lemma sg_from_opens: "sg_from first time seg \<Longrightarrow> sg_opens first time seg"
  by (auto simp: sg_from_def sg_opens_def)

lemma sg_add_time_from: "sg_opens first time seg \<Longrightarrow> fst (sg_add_time time seg) \<and> sg_from first time (snd (sg_add_time time seg))"
  using distance_zero [of "sg_last seg" time] by (auto simp: sg_opens_def sg_from_def sg_add_time_def)

lemma sg_add_from: "sg_opens first time seg \<Longrightarrow> media_hasTime m \<Longrightarrow> media_time m = time \<Longrightarrow> sg_from first time (sg_add m seg)"
  using sg_add_time_from [of first time seg] by (auto simp: sg_add_def sg_from_def split: prod.splits)

lemma sg_add_opens:
  "sg_opens first time seg \<Longrightarrow> media_hasTime m \<longrightarrow> media_time m = time \<Longrightarrow> sg_opens first time (sg_add m seg)"
proof (cases "media_hasTime m")
  case False
  assume "sg_opens first time seg"
  with False show ?thesis by (auto simp: sg_add_def sg_opens_def sg_from_def)
qed (auto intro: sg_from_opens sg_add_from)

lemma se_onSegment_exact:
  assumes "se_kept s" and "sg_opens first time (se_segment s)" and "sg_first (se_segment s) \<noteq> None"
  shows "\<exists>s'. se_onSegment (word_of_int (distance first time)) s = Some s' \<and> se_kept s' \<and> sg_first (se_segment s') = None
    \<and> se_writer s' = se_writer s \<and> se_started s' = se_started s"
proof -
  let ?d = "word_of_int (distance first time) :: u16"
  have r: "0 \<le> distance first time" "distance first time \<le> 65535" and f: "sg_time (se_segment s) = first"
    using assms(2, 3) by (auto simp: sg_opens_def sg_from_def sg_time_def)
  have d: "uint ?d = distance first time" using r by (simp add: uint_word_of_int_eq take_bit_int_eq_self)
  have "(ucast ?d :: u32) = word_of_int (uint ?d)" by simp
  also have "\<dots> = time - first" unfolding d by (simp add: distance_eq)
  finally have t: "first + ucast ?d = time" by simp
  define seg where "seg = snd (sg_add_time time (se_segment s))"
  have "sg_from first time seg" unfolding seg_def using sg_add_time_from [OF assms(2)] by simp
  then have sd: "sg_duration seg = ?d" by (auto simp: sg_from_def sg_duration_def)
  let ?s = "s\<lparr>se_segment := sg_moved seg, se_duration := se_duration s + ucast ?d, se_segments := se_segments s @ [seg]\<rparr>"
  have c: "unat (ucast ?d :: u32) = unat ?d" by (rule unat_u16_u32)
  have "length (se_segments s) \<le> 256"
    using unat_u8_less [of "se_maxSegments s"] assms(1) unfolding se_kept_def by linarith
  then have "sum_duration (se_segments s) \<le> 256 * 65535"
    by (intro order_trans [OF sum_duration_bound]) simp
  moreover have "unat (se_duration s) = sum_duration (se_segments s)" using assms(1) by (simp add: se_kept_def)
  ultimately have "unat (se_duration s) + unat ?d < 4294967296" using unat_u16_less [of ?d] by linarith
  then have "unat (se_duration s + ucast ?d) = unat (se_duration s) + unat ?d"
    by (subst unat_plus_if') (simp add: c)
  then have "unat (se_duration ?s) = sum_duration (se_segments ?s)" using assms(1) sd by (simp add: se_kept_def)
  from se_setMaxSegments_exact [OF this, of "se_maxSegments s"]
  show ?thesis unfolding se_onSegment_def f t seg_def [symmetric] Let_def by (auto simp: sg_moved_def)
qed

text \<open>The events that put nothing into a segment but what has no time or the time given.\<close>

fun quiet :: "u32 \<Rightarrow> seg_event \<Rightarrow> bool" where
  "quiet time (SSegment d) = False"
| "quiet time (SAudio track tag packet) = (at_isConfig tag \<or> at_time tag = time)"
| "quiet time (SVideo track tag packet) = (vt_frame tag = FRAME_CONFIG \<or> vt_time tag = time)"
| "quiet time _ = True"

lemma se_events_append:
  "se_events (es @ fs) s = (case se_events es s of None \<Rightarrow> None | Some s' \<Rightarrow> se_events fs s')"
  by (induction es arbitrary: s) (auto split: option.splits)

lemma se_event_quiet:
  "quiet time e \<Longrightarrow> sg_opens first time (se_segment s) \<Longrightarrow>
     \<exists>seg. se_event e s = Some (s\<lparr>se_segment := seg\<rparr>) \<and> sg_opens first time seg"
proof (cases e)
  assume o: "sg_opens first time (se_segment s)"
  {
    case SBegin
    then show ?thesis using o by (intro exI [of _ "se_segment s"]) simp
  next
    case SEnd
    then show ?thesis using o by (intro exI [of _ "se_segment s"]) simp
  }
qed (auto simp: se_add_def intro!: sg_add_opens exI)

lemma se_events_quiet:
  "list_all (quiet time) es \<Longrightarrow> sg_opens first time (se_segment s) \<Longrightarrow>
     \<exists>seg. se_events es s = Some (s\<lparr>se_segment := seg\<rparr>) \<and> sg_opens first time seg"
proof (induction es arbitrary: s)
  case Nil
  then show ?case by (intro exI [of _ "se_segment s"]) simp
next
  case (Cons e es)
  then obtain seg where e: "se_event e s = Some (s\<lparr>se_segment := seg\<rparr>)" and o: "sg_opens first time seg"
    using se_event_quiet [of time e first s] by auto
  have "list_all (quiet time) es" using Cons.prems(1) by simp
  from Cons.IH [OF this, of "s\<lparr>se_segment := seg\<rparr>"] o e show ?case by auto
qed

lemma sw_events_quiet: "list_all (quiet time) (sw_video_events (sw_timed time w))" "list_all (quiet time) (sw_audio_events w)"
  by (auto simp: sw_video_events_def sw_audio_events_def sw_timed_def list_all_iff)

lemma sw_events_timed: "sw_video_events (sw_audio_timed time w) = sw_video_events w"
  by (simp add: sw_video_events_def sw_audio_timed_def)

text \<open>The invariant between two operations.\<close>

definition se_fits :: "segments \<Rightarrow> bool" where
  "se_fits s \<longleftrightarrow>
     (if se_started s \<and> \<not> sw_first (se_writer s)
      then sg_from (sw_segTime (se_writer s)) (sw_lastTime (se_writer s)) (se_segment s)
      else sg_first (se_segment s) = None)
     \<and> (se_started s \<and> sw_first (se_writer s) \<longrightarrow> \<not> sw_keying (se_writer s))"

definition se_inv :: "segments \<Rightarrow> bool" where
  "se_inv s \<longleftrightarrow> se_kept s \<and> se_fits s"

lemma sg_first_opens: "sg_first seg = None \<Longrightarrow> sg_opens time time seg"
  by (simp add: sg_opens_def)

lemma se_add_kept [simp]: "se_kept (s\<lparr>se_segment := seg\<rparr>) = se_kept s" "se_kept (s\<lparr>se_writer := w\<rparr>) = se_kept s"
  "se_kept (s\<lparr>se_started := b\<rparr>) = se_kept s"
  by (simp_all add: se_kept_def)

text \<open>What comes before a media with a time.\<close>

definition ready :: "u32 \<Rightarrow> segments \<Rightarrow> bool" where
  "ready time s \<longleftrightarrow>
     se_kept s \<and> se_started s \<and> \<not> sw_first (se_writer s) \<and> sw_lastTime (se_writer s) = time
     \<and> sg_opens (sw_segTime (se_writer s)) time (se_segment s)"

lemma newSegment_ready:
  assumes "se_kept s" "se_started s" "se_segment s = seg"
    and "sw_first w \<Longrightarrow> sg_first seg = None"
    and "\<not> sw_first w \<Longrightarrow> sg_from (sw_segTime w) (sw_lastTime w) seg \<and> 0 \<le> distance (sw_lastTime w) time
      \<and> 0 \<le> distance (sw_segTime w) time \<and> distance (sw_segTime w) time \<le> 65535"
    and n: "newSegment time w = (c, w', es)"
  shows "\<exists>s'. se_events es (s\<lparr>se_writer := w'\<rparr>) = Some s' \<and> se_writer s' = w' \<and> ready time s'"
proof (cases "sw_first w")
  case True
  then have "w' = w\<lparr>sw_first := False, sw_lastTime := time, sw_segTime := time\<rparr>" "es = []" using n by (auto simp: newSegment_def)
  then show ?thesis using assms(1-4) True by (simp add: ready_def sg_first_opens)
next
  case False
  note begun = assms(5) [OF False]
  have last: "(if distance (sw_lastTime w) time > 0 then w\<lparr>sw_lastTime := time\<rparr> else w) = w\<lparr>sw_lastTime := time\<rparr>"
    using begun distance_zero [of "sw_lastTime w" time] by (cases "distance (sw_lastTime w) time = 0") auto
  have opens: "sg_opens (sw_segTime w) time seg" using begun by (auto simp: sg_opens_def)
  let ?w = "w\<lparr>sw_lastTime := time\<rparr>" and ?d = "distance (sw_segTime w) time"
  show ?thesis
  proof (cases "sw_cuts ?d ?w")
    case no: False
    then have "w' = ?w" "es = []" using n False by (auto simp: newSegment_def last Let_def)
    then show ?thesis using assms(1-3) opens False by (simp add: ready_def)
  next
    case True
    let ?p = "case sw_properties w' of None \<Rightarrow> [] | Some (type, packet) \<Rightarrow> [SProperties type packet]"
    let ?fs = "?p @ sw_video_events w' @ sw_audio_events w'"
    obtain m where w': "w' = sw_audio_timed time (sw_timed time (m\<lparr>sw_segTime := time, sw_keys := 0\<rparr>))"
      and m: "sw_first m = sw_first w" "sw_lastTime m = time"
      and es: "es = SEnd # SSegment (word_of_int ?d) # SBegin # ?fs"
    proof (cases "?d > uint (sw_maxDuration w)")
      case big: True
      show ?thesis using n False True big by (intro that [of "?w\<lparr>sw_maxDuration := word_of_int ?d\<rparr>"]) (auto simp: newSegment_def last Let_def)
    next
      case False
      show ?thesis using n \<open>\<not> sw_first w\<close> True False by (intro that [of ?w]) (auto simp: newSegment_def last Let_def)
    qed
    have fs: "list_all (quiet time) ?fs"
      unfolding w' by (auto simp: sw_events_quiet sw_events_timed split: option.splits)
    have "sg_opens (sw_segTime w) time (se_segment (s\<lparr>se_writer := w'\<rparr>))" "sg_first (se_segment (s\<lparr>se_writer := w'\<rparr>)) \<noteq> None"
      using opens begun assms(3) by (auto simp: sg_from_def)
    then obtain t where t: "se_onSegment (word_of_int ?d) (s\<lparr>se_writer := w'\<rparr>) = Some t" "se_kept t" "sg_first (se_segment t) = None"
      "se_writer t = w'" "se_started t" using se_onSegment_exact [of "s\<lparr>se_writer := w'\<rparr>"] assms(1,2) by fastforce
    obtain seg' where g: "se_events ?fs t = Some (t\<lparr>se_segment := seg'\<rparr>)" "sg_opens time time seg'"
      using se_events_quiet [OF fs sg_first_opens [OF t(3)]] by blast
    have v: "\<not> sw_first w'" "sw_lastTime w' = time" "sw_segTime w' = time"
      using False m by (simp_all add: w' sw_audio_timed_def sw_timed_def)
    show ?thesis using t g v by (simp add: es ready_def)
  qed
qed

fun dated :: "u32 \<Rightarrow> seg_event \<Rightarrow> bool" where
  "dated time (SAudio track tag packet) = (\<not> at_isConfig tag \<and> at_time tag = time)"
| "dated time (SVideo track tag packet) = (vt_frame tag \<noteq> FRAME_CONFIG \<and> vt_time tag = time)"
| "dated time _ = False"

lemma se_event_dated:
  assumes "dated time e" and "sg_opens first time (se_segment s)"
  shows "\<exists>seg. se_event e s = Some (s\<lparr>se_segment := seg\<rparr>) \<and> sg_from first time seg"
  using assms(1)
proof (cases e)
  case (SAudio track tag packet)
  then show ?thesis using assms sg_add_from [OF assms(2), of "MediaAudio tag packet track"] by (auto simp: se_add_def)
next
  case (SVideo track tag packet)
  then show ?thesis using assms sg_add_from [OF assms(2), of "MediaVideo tag packet track"] by (auto simp: se_add_def)
qed auto

definition same_times :: "seg_writer \<Rightarrow> seg_writer \<Rightarrow> bool" where
  "same_times w w' \<longleftrightarrow> sw_first w' = sw_first w \<and> sw_segTime w' = sw_segTime w \<and> sw_lastTime w' = sw_lastTime w
     \<and> sw_maxDuration w' = sw_maxDuration w"

text \<open>The events read nothing of the writer but its longest duration.\<close>

lemma se_event_writer:
  "sw_maxDuration w = sw_maxDuration (se_writer s) \<Longrightarrow>
     se_event e (s\<lparr>se_writer := w\<rparr>) = map_option (\<lambda>u. u\<lparr>se_writer := w\<rparr>) (se_event e s)"
  by (cases e) (auto simp: se_add_def se_onSegment_def se_setMaxSegments_def Let_def split: option.splits)

lemma se_event_same: "se_event e s = Some s' \<Longrightarrow> se_writer s' = se_writer s"
  by (cases e) (auto simp: se_add_def se_onSegment_def se_setMaxSegments_def Let_def split: option.splits)

lemma se_events_writer:
  "sw_maxDuration w = sw_maxDuration (se_writer s) \<Longrightarrow>
     se_events es (s\<lparr>se_writer := w\<rparr>) = map_option (\<lambda>u. u\<lparr>se_writer := w\<rparr>) (se_events es s)"
proof (induction es arbitrary: s)
  case (Cons e es)
  then show ?case
    by (cases "se_event e s") (auto simp: se_event_writer se_event_same simp del: se_event.simps)
qed simp

lemma ready_media:
  assumes "ready time s" and "list_all (quiet time) es" and "dated time e" and "same_times (se_writer s) w"
  shows "\<exists>s'. se_events (es @ [e]) (s\<lparr>se_writer := w\<rparr>) = Some s' \<and> se_inv s' \<and> se_started s'"
proof -
  let ?s = "s\<lparr>se_writer := w\<rparr>"
  have "sg_opens (sw_segTime w) time (se_segment ?s)" using assms(1, 4) by (simp add: ready_def same_times_def)
  then obtain seg where g: "se_events es ?s = Some (?s\<lparr>se_segment := seg\<rparr>)" "sg_opens (sw_segTime w) time seg"
    using se_events_quiet [OF assms(2)] by blast
  then obtain seg' where h: "se_event e (?s\<lparr>se_segment := seg\<rparr>) = Some (?s\<lparr>se_segment := seg'\<rparr>)" "sg_from (sw_segTime w) time seg'"
    using se_event_dated [OF assms(3), of "sw_segTime w" "?s\<lparr>se_segment := seg\<rparr>"] by auto
  show ?thesis
    using g(1) h assms(1, 4) by (simp add: se_events_append se_inv_def se_fits_def ready_def same_times_def)
qed

lemma same_times_simps [simp]:
  "same_times w w" "same_times w (w\<lparr>sw_keying := b\<rparr>)" "same_times w (w\<lparr>sw_keys := n\<rparr>)" "same_times w (sw_timed time w)"
  "same_times w (sw_timed time w\<lparr>sw_keys := n\<rparr>)"
  by (simp_all add: same_times_def sw_timed_def)

text \<open>A media that may cut.\<close>

lemma cutting_media:
  assumes i: "se_inv s" "se_started s" and t: "\<not> sw_first (se_writer s) \<Longrightarrow> sw_timely x time (se_writer s)"
    and n: "newSegment time ((se_writer s)\<lparr>sw_keying := b\<rparr>) = (c, w', es)"
    and "list_all (quiet time) fs" "dated time e" "same_times w' w"
  shows "\<exists>s'. se_events (es @ fs @ [e]) (s\<lparr>se_writer := w\<rparr>) = Some s' \<and> se_inv s' \<and> se_started s'"
proof -
  let ?w = "(se_writer s)\<lparr>sw_keying := b\<rparr>"
  have none: "sw_first ?w \<Longrightarrow> sg_first (se_segment s) = None" using i by (simp add: se_inv_def se_fits_def)
  have some: "\<not> sw_first ?w \<Longrightarrow> sg_from (sw_segTime ?w) (sw_lastTime ?w) (se_segment s) \<and> 0 \<le> distance (sw_lastTime ?w) time
      \<and> 0 \<le> distance (sw_segTime ?w) time \<and> distance (sw_segTime ?w) time \<le> 65535"
    using i t by (simp add: se_inv_def se_fits_def sw_timely_def)
  have "se_kept s" using i by (simp add: se_inv_def)
  from newSegment_ready [OF this i(2) refl none some n]
  obtain u where u: "se_events es (s\<lparr>se_writer := w'\<rparr>) = Some u" "se_writer u = w'" "ready time u" by blast
  have "se_events es (s\<lparr>se_writer := w\<rparr>) = map_option (\<lambda>u. u\<lparr>se_writer := w\<rparr>) (se_events es (s\<lparr>se_writer := w'\<rparr>))"
    using se_events_writer [of w "s\<lparr>se_writer := w'\<rparr>" es] assms(7) by (simp add: same_times_def)
  then show ?thesis
    using ready_media [OF u(3) assms(5, 6), of w] u assms(7) by (simp add: se_events_append)
qed

text \<open>The end of a sequence of medias, whatever becomes of the writer behind it.\<close>

lemma ending_media:
  assumes "se_kept s" "sw_first (se_writer s) \<Longrightarrow> sg_first (se_segment s) = None"
    and span: "\<not> sw_first (se_writer s) \<Longrightarrow> sg_from (sw_segTime (se_writer s)) (sw_lastTime (se_writer s)) (se_segment s)"
  shows "\<exists>s'. se_writes sw_endMedia s = Some s' \<and> se_kept s' \<and> sg_first (se_segment s') = None \<and> se_started s' = se_started s"
proof -
  obtain w es where f: "sw_endMedia (se_writer s) = (w, es)" by fastforce
  then have w: "sw_maxDuration w = sw_maxDuration (se_writer s)"
    and es: "es = SEnd # (if sw_first (se_writer s) then []
      else [SSegment (word_of_int (distance (sw_segTime (se_writer s)) (sw_lastTime (se_writer s))))])"
    by (auto simp: sw_endMedia_def)
  have e: "se_writes sw_endMedia s = map_option (\<lambda>u. u\<lparr>se_writer := w\<rparr>) (se_events es s)"
    using se_events_writer [OF w, of es] by (simp add: se_writes_def f)
  show ?thesis
  proof (cases "sw_first (se_writer s)")
    case True
    then show ?thesis using assms(1,2) by (simp add: e es)
  next
    case False
    then have s: "sg_from (sw_segTime (se_writer s)) (sw_lastTime (se_writer s)) (se_segment s)" by (rule span)
    then have "sg_first (se_segment s) \<noteq> None" by (simp add: sg_from_def)
    with se_onSegment_exact [OF assms(1) sg_from_opens [OF s]] False show ?thesis by (auto simp: e es)
  qed
qed

lemma se_beginMedia_timely:
  assumes "se_inv s"
  shows "\<exists>s'. se_beginMedia s = Some s' \<and> se_inv s' \<and> se_started s' \<and> sw_first (se_writer s')"
proof -
  have "\<exists>t. (if se_started s then se_writes sw_endMedia s else Some s) = Some t \<and> se_kept t \<and> sg_first (se_segment t) = None"
  proof (cases "se_started s")
    case True
    with assms have "se_kept s" "sw_first (se_writer s) \<Longrightarrow> sg_first (se_segment s) = None"
      "\<not> sw_first (se_writer s) \<Longrightarrow> sg_from (sw_segTime (se_writer s)) (sw_lastTime (se_writer s)) (se_segment s)"
      by (simp_all add: se_inv_def se_fits_def)
    from ending_media [OF this] True show ?thesis by auto
  qed (use assms in \<open>simp add: se_inv_def se_fits_def\<close>)
  then obtain t where "(if se_started s then se_writes sw_endMedia s else Some s) = Some t" "se_kept t" "sg_first (se_segment t) = None"
    by blast
  then show ?thesis by (simp add: se_beginMedia_def) (simp add: se_writes_def sw_beginMedia_def se_inv_def se_fits_def)
qed

lemma se_endMedia_timely:
  assumes "se_inv s"
  shows "\<exists>s'. se_endMedia s = Some s' \<and> se_inv s'"
proof (cases "se_started s")
  case True
  let ?s = "s\<lparr>se_started := False\<rparr>"
  from True assms have "se_kept ?s" "sw_first (se_writer ?s) \<Longrightarrow> sg_first (se_segment ?s) = None"
    "\<not> sw_first (se_writer ?s) \<Longrightarrow> sg_from (sw_segTime (se_writer ?s)) (sw_lastTime (se_writer ?s)) (se_segment ?s)"
    by (simp_all add: se_inv_def se_fits_def)
  from ending_media [OF this] have "\<exists>s'. se_writes sw_endMedia ?s = Some s' \<and> se_kept s' \<and> \<not> se_started s'" by auto
  then show ?thesis using True by (auto simp: se_endMedia_def sg_reset_def se_inv_def se_fits_def)
qed (use assms in \<open>auto simp: se_endMedia_def\<close>)

text \<open>The medias.\<close>

lemma untimed_event:
  assumes "se_inv s" "se_started s" and "same_times (se_writer s) w" and "sw_keying w \<longrightarrow> sw_keying (se_writer s)"
    and "es = [] \<or> es = [e] \<and> (\<exists>m. (\<forall>u. se_event e u = se_add m u) \<and> \<not> media_hasTime m)"
  shows "\<exists>s'. se_events es (s\<lparr>se_writer := w\<rparr>) = Some s' \<and> se_inv s'"
proof -
  obtain seg where "se_events es (s\<lparr>se_writer := w\<rparr>) = Some (s\<lparr>se_writer := w, se_segment := seg\<rparr>)"
    and "sg_first seg = sg_first (se_segment s)" "sg_last seg = sg_last (se_segment s)"
  proof (cases "es = []")
    case True
    then show ?thesis using that [of "se_segment s"] by simp
  next
    case False
    then obtain m where "es = [e]" "\<And>u. se_event e u = se_add m u" "\<not> media_hasTime m" using assms(5) by blast
    then show ?thesis using that [of "sg_add m (se_segment s)"] by (simp add: se_add_def sg_add_def)
  qed
  then show ?thesis using assms(1-4) by (auto simp: se_inv_def se_fits_def same_times_def sg_from_def split: if_splits)
qed

text \<open>Each call on the writer.\<close>

fun sw_op :: "seg_op \<Rightarrow> seg_writer \<Rightarrow> seg_writer \<times> seg_event list" where
  "sw_op (SeProperties type packet) = sw_writeProperties type packet"
| "sw_op (SeAudio track tag packet) = sw_writeAudio track tag packet"
| "sw_op (SeVideo track tag packet) = sw_writeVideo track tag packet"
| "sw_op (SeData track type packet) = sw_writeData track type packet"
| "sw_op _ = (\<lambda>w. (w, []))"

definition sw_timely_op :: "seg_op \<Rightarrow> seg_writer \<Rightarrow> bool" where
  "sw_timely_op x w \<longleftrightarrow> (\<forall>time. se_time x = Some time \<longrightarrow> \<not> sw_first w \<longrightarrow> sw_timely x time w)"

lemma se_audio_timely:
  assumes "se_inv s" "se_started s" "sw_timely_op (SeAudio track tag packet) (se_writer s)"
  shows "\<exists>s'. se_writes (sw_writeAudio track tag packet) s = Some s' \<and> se_inv s'"
proof (cases "at_isConfig tag")
  case True
  then obtain w where f: "sw_writeAudio track tag packet (se_writer s) = (w, [SAudio track tag packet])"
    and w: "same_times (se_writer s) w" "sw_keying w \<longrightarrow> sw_keying (se_writer s)"
    by (auto simp: sw_writeAudio_def same_times_def)
  have "\<exists>m. (\<forall>u. se_event (SAudio track tag packet) u = se_add m u) \<and> \<not> media_hasTime m"
    using True by (intro exI [of _ "MediaAudio tag packet track"]) simp
  then show ?thesis using untimed_event [OF assms(1,2) w, of "[SAudio track tag packet]"] by (simp add: se_writes_def f)
next
  case False
  obtain c w es where n: "newSegment (at_time tag) ((se_writer s)\<lparr>sw_keying := False\<rparr>) = (c, w, es)" by (metis prod_cases3)
  have "\<not> sw_first (se_writer s) \<Longrightarrow> sw_timely (SeAudio track tag packet) (at_time tag) (se_writer s)"
    using assms(3) False by (simp add: sw_timely_op_def)
  from cutting_media [OF assms(1,2) this n, of "[]" "SAudio track tag packet" w]
  show ?thesis using False n by (auto simp: se_writes_def sw_writeAudio_def)
qed

lemma newSegment_no_cut: "newSegment time w = (False, w', es) \<Longrightarrow> es = []"
  by (auto simp: newSegment_def Let_def split: if_splits)

lemma se_video_timely:
  assumes "se_inv s" "se_started s" "sw_timely_op (SeVideo track tag packet) (se_writer s)"
  shows "\<exists>s'. se_writes (sw_writeVideo track tag packet) s = Some s' \<and> se_inv s'"
proof -
  let ?e = "SVideo track tag packet" and ?w = "se_writer s"
  have t: "vt_frame tag \<noteq> FRAME_CONFIG \<Longrightarrow> \<not> sw_first ?w \<Longrightarrow> sw_timely (SeVideo track tag packet) (vt_time tag) ?w"
    using assms(3) by (simp add: sw_timely_op_def)
  consider "vt_frame tag = FRAME_CONFIG" | "vt_frame tag = FRAME_KEY" "sw_keying ?w" | "vt_frame tag = FRAME_KEY" "\<not> sw_keying ?w"
    | "vt_frame tag \<noteq> FRAME_CONFIG" "vt_frame tag \<noteq> FRAME_KEY" by blast
  then show ?thesis
  proof cases
    case 1
    then obtain w where "sw_writeVideo track tag packet ?w = (w, [])" "same_times ?w w" "\<not> sw_keying w"
      by (auto simp: sw_writeVideo_def same_times_def)
    then show ?thesis using untimed_event [OF assms(1,2), of w "[]"] by (simp add: se_writes_def)
  next
    case 2
    have "\<not> sw_first ?w" using 2 assms(1,2) by (auto simp: se_inv_def se_fits_def)
    then have "ready (vt_time tag) s"
      using 2 t assms(1,2) sg_from_opens by (auto simp: ready_def sw_timely_def se_inv_def se_fits_def)
    from ready_media [OF this, of "[]" ?e ?w] show ?thesis using 2 by (auto simp: se_writes_def sw_writeVideo_def)
  next
    case 3
    obtain c w es where n: "newSegment (vt_time tag) (?w\<lparr>sw_keying := True\<rparr>) = (c, w, es)" by (metis prod_cases3)
    let ?v = "if c then w else sw_timed (vt_time tag) w"
    let ?fs = "if c then [] else sw_video_events (sw_timed (vt_time tag) w)"
    have "same_times w (?v\<lparr>sw_keys := sw_keys ?v + 1\<rparr>)" by simp
    moreover have "list_all (quiet (vt_time tag)) ?fs" by (simp add: sw_events_quiet)
    ultimately show ?thesis
      using cutting_media [OF assms(1,2) t n, of ?fs ?e "?v\<lparr>sw_keys := sw_keys ?v + 1\<rparr>"] 3 n
      by (auto simp: se_writes_def sw_writeVideo_def Let_def split: if_splits)
  next
    case 4
    obtain c w es where n: "newSegment (vt_time tag) (?w\<lparr>sw_keying := False\<rparr>) = (c, w, es)" by (metis prod_cases3)
    from cutting_media [OF assms(1,2) t n, of "[]" ?e w] show ?thesis using 4 n by (auto simp: se_writes_def sw_writeVideo_def)
  qed
qed

lemma se_writes_timely:
  assumes "se_inv s" "se_started s" "sw_timely_op x (se_writer s)"
  shows "\<exists>s'. se_writes (sw_op x) s = Some s' \<and> se_inv s'"
proof (cases x)
  case (SeProperties type packet)
  have "\<exists>m. (\<forall>u. se_event (SProperties type packet) u = se_add m u) \<and> \<not> media_hasTime m"
    by (intro exI [of _ "MediaData type packet 0 True"]) simp
  then show ?thesis
    using untimed_event [OF assms(1,2), of "(se_writer s)\<lparr>sw_properties := Some (type, packet)\<rparr>" "[SProperties type packet]"] SeProperties
    by (simp add: se_writes_def sw_writeProperties_def same_times_def)
next
  case (SeData track type packet)
  have "\<exists>m. (\<forall>u. se_event (SData track type packet) u = se_add m u) \<and> \<not> media_hasTime m"
    by (intro exI [of _ "MediaData type packet track False"]) simp
  then show ?thesis
    using untimed_event [OF assms(1,2), of "se_writer s" "[SData track type packet]"] SeData
    by (simp add: se_writes_def sw_writeData_def)
next
  case (SeAudio track tag packet)
  then show ?thesis using se_audio_timely assms by simp
next
  case (SeVideo track tag packet)
  then show ?thesis using se_video_timely assms by simp
qed (use assms in \<open>simp_all add: se_writes_def\<close>)

lemma se_write_timely:
  assumes "se_inv s" "timely x s"
  shows "\<exists>s'. se_write (sw_op x) s = Some s' \<and> se_inv s'"
proof (cases "se_started s")
  case True
  then have "sw_timely_op x (se_writer s)" using assms(2) by (auto simp: timely_def sw_timely_op_def split: option.splits)
  from se_writes_timely [OF assms(1) True this] True show ?thesis by (simp add: se_write_def)
next
  case False
  obtain t where t: "se_beginMedia s = Some t" "se_inv t" "se_started t" "sw_first (se_writer t)"
    using se_beginMedia_timely [OF assms(1)] by blast
  then have "sw_timely_op x (se_writer t)" by (simp add: sw_timely_op_def)
  from se_writes_timely [OF t(2,3) this] t(1) False show ?thesis by (simp add: se_write_def)
qed

lemma se_step_timely:
  assumes "se_inv s" "timely x s"
  shows "\<exists>s'. se_step x s = Some s' \<and> se_inv s'"
proof (cases x)
  case SeBegin
  then show ?thesis using se_beginMedia_timely [OF assms(1)] by auto
next
  case SeEnd
  then show ?thesis using se_endMedia_timely [OF assms(1)] by simp
next
  case (SeMaxSegments m)
  have "unat (se_duration s) = sum_duration (se_segments s)" using assms(1) by (simp add: se_inv_def se_kept_def)
  from se_setMaxSegments_exact [OF this, of m]
  obtain s' where "se_setMaxSegments m s = Some s'" "se_kept s'" "se_segment s' = se_segment s" "se_writer s' = se_writer s"
    "se_started s' = se_started s" by blast
  then show ?thesis using assms(1) unfolding SeMaxSegments by (simp add: se_inv_def se_fits_def)
next
  case (SeMaxDuration d)
  then show ?thesis
    using assms(1) by (simp add: se_setMaxDuration_def sw_setDuration_def Let_def se_inv_def se_fits_def)
qed (use se_write_timely [OF assms] in simp_all)

lemma se_run_timely: "se_inv s \<Longrightarrow> timely_run xs s \<Longrightarrow> \<exists>s'. se_run xs s = Some s' \<and> se_inv s'"
proof (induction xs arbitrary: s)
  case (Cons x xs)
  then obtain t where "se_step x s = Some t" "se_inv t" using se_step_timely [of s x] by auto
  with Cons show ?case by simp
qed simp

lemma new_segments_inv: "se_inv (new_segments maxSegments w)"
  by (simp add: se_inv_def se_kept_def se_fits_def new_segments_def new_segment_def)

text \<open>C11. Any operations on new segments whose medias are timely return: the duration kept is the sum of the durations of the
  segments, and there is at most one segment more than the number wanted.\<close>

theorem timely_segments:
  assumes "timely_run xs (new_segments maxSegments w)"
  shows "\<exists>s. se_run xs (new_segments maxSegments w) = Some s
    \<and> unat (se_duration s) = sum_duration (se_segments s) \<and> length (se_segments s) \<le> unat (se_maxSegments s) + 1"
  using se_run_timely [OF new_segments_inv assms] by (auto simp: se_inv_def se_kept_def)

text \<open>Three key frames 10 ms apart with audio between them.\<close>

definition seg_video :: "u32 \<Rightarrow> seg_op" where
  "seg_video time = SeVideo 1 \<lparr>vt_time = time, vt_codec = 7, vt_frame = FRAME_KEY, vt_composition = 0\<rparr> [1]"

definition seg_audio :: "u32 \<Rightarrow> seg_op" where
  "seg_audio time = SeAudio 1 \<lparr>at_time = time, at_codec = 10, at_isConfig = False, at_channels = 2, at_rate = 44100\<rparr> [2]"

definition seg_start :: segments where
  "seg_start = new_segments 1 (new_seg_writer False 0 True 0 0 0)"

theorem timely_segments_witness:
  "\<exists>s. se_run [seg_video 0, seg_audio 5, seg_video 10, seg_audio 15, seg_video 20] seg_start = Some s
    \<and> unat (se_duration s) = sum_duration (se_segments s) \<and> length (se_segments s) \<le> unat (se_maxSegments s) + 1"
proof -
  have "timely_run [seg_video 0, seg_audio 5, seg_video 10, seg_audio 15, seg_video 20]
      (new_segments 1 (new_seg_writer False 0 True 0 0 0))"
    by code_simp
  from timely_segments [OF this] show ?thesis unfolding seg_start_def .
qed

text \<open>With audio half a second ahead of key frames 10 ms apart, the duration counted by the cuts falls behind the durations
  of the segments: at the third cut it wraps around below 0 and the loop of \<open>setMaxSegments\<close> takes the front of an
  empty deque, while the run without the last frame returns.\<close>

theorem segments_front_of_none:
  "se_run [seg_video 0, seg_audio 500, seg_video 10, seg_audio 510, seg_video 20, seg_audio 520, seg_video 30] seg_start = None
   \<and> se_run [seg_video 0, seg_audio 500, seg_video 10, seg_audio 510, seg_video 20, seg_audio 520] seg_start \<noteq> None"
  by code_simp

text \<open>Two segments of 1000 ms, and a third one that is open.\<close>

definition seg_run :: "seg_op list" where
  "seg_run = [SeMaxSegments 3, seg_video 0, seg_audio 500, seg_video 1000, seg_audio 1500, seg_video 2000]"

lemma seg_run_state:
  "case se_run seg_run seg_start of
     None \<Rightarrow> False
   | Some s \<Rightarrow> se_sequence s = 0 \<and> length (se_segments s) = 2 \<and> list_all (\<lambda>seg. sg_duration seg \<noteq> 0) (se_segments s)
       \<and> se_get 1 s \<noteq> None"
  by code_simp

lemma seg_run_some:
  obtains s seg where "se_run seg_run seg_start = Some s" "se_sequence s = 0" "length (se_segments s) = 2"
    "\<forall>seg \<in> set (se_segments s). sg_duration seg \<noteq> 0" "se_get 1 s = Some seg"
  using seg_run_state by (auto simp: list_all_iff split: option.splits)

theorem segment_kept_witness:
  "\<exists>s seg. se_run seg_run seg_start = Some s \<and> se_get 1 s = Some seg
     \<and> (\<forall>s'. se_run [seg_video 3000] s = Some s' \<longrightarrow> se_get 1 s' = Some seg \<or> se_get 1 s' = None)"
proof -
  obtain s seg where s: "se_run seg_run seg_start = Some s" "se_get 1 s = Some seg" "length (se_segments s) = 2"
    by (rule seg_run_some)
  have "se_get 1 s' = Some seg \<or> se_get 1 s' = None" if "se_run [seg_video 3000] s = Some s'" for s'
    by (rule segment_kept [OF that s(2)]) (simp_all add: s(3))
  with s show ?thesis by blast
qed

theorem playlist_names_witness:
  "\<exists>s. se_run seg_run seg_start = Some s
     \<and> m3_entries (m3u8_write [0x61] [0x74, 0x73] None (se_to s new_playlist))
       = map (\<lambda>k. m3_entry [0x61] [0x74, 0x73] (se_sequence s + word_of_nat k) (sg_duration (se_segments s ! k)))
           [if se_full s then 1 else 0..<length (se_segments s)]
     \<and> (\<forall>k < length (se_segments s). se_get (se_sequence s + word_of_nat k) s = Some (se_segments s ! k))"
proof -
  obtain s where s: "se_run seg_run seg_start = Some s" "se_sequence s = 0" "length (se_segments s) = 2"
    "\<forall>seg \<in> set (se_segments s). sg_duration seg \<noteq> 0"
    by (rule seg_run_some)
  have "unat (se_sequence s) + length (se_segments s) < 2 ^ 31" by (simp add: s(2,3))
  from playlist_names [OF s(4) this] s(1) show ?thesis by blast
qed

text \<open>C40. The name of a segment, whatever name stands in front, is read back: the size of that name, the sequence and the duration.\<close>

theorem segment_name_read: "ReadName (WriteName name sequence duration) = Some (length name, sequence, duration)"
  by (rule ReadName_WriteName)

section \<open>Segments in files\<close>

text \<open>\<open>ICompare\<close> with a C string.\<close>

definition lower_char :: "u8 \<Rightarrow> u8" where
  "lower_char c = (if 0x41 \<le> c \<and> c \<le> 0x5A then c + 0x20 else c)"

fun ICompare :: "bytes \<Rightarrow> bytes \<Rightarrow> int" where
  "ICompare [] [] = 0"
| "ICompare [] (v # vs) = - uint (lower_char v)"
| "ICompare (d # ds) [] = uint (lower_char d)"
| "ICompare (d # ds) (v # vs) =
     (let v = lower_char v; d = lower_char d in if d \<noteq> 0 \<and> d = v then ICompare ds vs else uint d - uint v)"

text \<open>\<open>Segments::Init\<close> on the files of the folder, in the order of the listing, and those it erases.\<close>

definition se_init_file :: "bool \<Rightarrow> bytes \<Rightarrow> bool \<times> bytes \<Rightarrow> playlist \<times> bytes list \<Rightarrow> playlist \<times> bytes list" where
  "se_init_file keeps name file p =
     (let (isFolder, baseName) = file; (pl, erased) = p
      in if isFolder then p
         else case ReadName baseName of
                None \<Rightarrow> p
              | Some (nameSize, sequence, duration) \<Rightarrow>
                  if duration = 0 then (pl, erased @ [baseName])
                  else if ICompare (take nameSize baseName) name \<noteq> 0 then p
                  else if \<not> keeps then (pl, erased @ [baseName])
                  else
                    let pl = pl_addItem duration pl
                    in if length (pl_durations pl) > 1
                       then (if sequence < pl_sequence pl then (pl\<lparr>pl_sequence := sequence\<rparr>, erased) else (pl, erased))
                       else (pl\<lparr>pl_sequence := sequence\<rparr>, erased))"

definition se_init :: "bool \<Rightarrow> bytes \<Rightarrow> (bool \<times> bytes) list \<Rightarrow> playlist \<Rightarrow> playlist \<times> bytes list" where
  "se_init keeps name files p = fold (se_init_file keeps name) files (pl_reset p, [])"

text \<open>\<open>Segments::Clear\<close>, with the names it erases; the front of an empty playlist is no value.\<close>

fun se_clear_loop :: "nat \<Rightarrow> u32 \<Rightarrow> bytes \<Rightarrow> u32 \<Rightarrow> u32 \<Rightarrow> u16 list \<Rightarrow> (u32 \<times> u32 \<times> u16 list \<times> bytes list) option" where
  "se_clear_loop most maxDuration name sequence duration [] =
     (if duration > maxDuration then None else Some (sequence, duration, [], []))"
| "se_clear_loop most maxDuration name sequence duration (d # ds) =
     (if length (d # ds) > most \<or> duration > maxDuration
      then map_option (\<lambda>(s, t, ds, erased). (s, t, ds, WriteName name sequence d # erased))
             (se_clear_loop most maxDuration name (sequence + 1) (duration - ucast d) ds)
      else Some (sequence, duration, d # ds, []))"

definition se_clear :: "bytes \<Rightarrow> u32 \<Rightarrow> playlist \<Rightarrow> (playlist \<times> bytes list) option" where
  "se_clear name maxSegments p =
     map_option (\<lambda>(s, t, ds, erased). (p\<lparr>pl_sequence := s, pl_duration := t, pl_durations := ds\<rparr>, erased))
       (se_clear_loop (unat (maxSegments + 1)) (maxSegments * ucast (pl_maxDuration p)) name (pl_sequence p) (pl_duration p) (pl_durations p))"

text \<open>\<open>Playlist::Writer::write\<close> with the lines of \<open>M3U8::Writer\<close>, and what its destruction adds.\<close>

definition m3u8_open :: "bytes \<Rightarrow> bytes \<Rightarrow> playlist \<Rightarrow> m3u8_line list" where
  "m3u8_open name ext p =
     m3u8_write name ext (Some (map of_char ''EVENT'')) p @ (if pl_durations p \<noteq> [] then [M3Discontinuity] else [])"

definition pl_write :: "bytes \<Rightarrow> bytes \<Rightarrow> u16 \<Rightarrow> bool \<times> playlist \<times> m3u8_line list \<Rightarrow> bool \<times> playlist \<times> m3u8_line list" where
  "pl_write name ext duration w =
     (let (opened, p, ls) = w;
          (p, ls) = (if opened then (p, ls)
                     else let p = p\<lparr>pl_maxDuration := max duration (pl_maxDuration p)\<rparr> in (p, ls @ m3u8_open name ext p))
      in (True, pl_addItem duration p,
          ls @ [M3Item duration (WriteName name (pl_sequence p + word_of_nat (length (pl_durations p))) duration @ [0x2E] @ ext)]))"

definition m3u8_close :: "bool \<times> playlist \<times> m3u8_line list \<Rightarrow> m3u8_line list" where
  "m3u8_close w = (let (opened, p, ls) = w in if opened then ls @ [M3EndList] else ls)"

text \<open>A name is no different from itself, whatever its case; files listed in the order of their sequence come back.\<close>

lemma ICompare_same: "ICompare ds ds = 0"
  by (induction ds) (simp_all add: Let_def)

lemma take_WriteName: "take (length name) (WriteName name sequence d) = name"
  by (simp add: WriteName_def)

lemma se_init_files:
  "pl_durations pl \<noteq> [] \<Longrightarrow> unat (pl_sequence pl) + length (pl_durations pl) + length ds < 2 ^ 32 \<Longrightarrow> \<forall>d \<in> set ds. d \<noteq> 0 \<Longrightarrow>
     fold (se_init_file True name)
       (map2 (\<lambda>k d. (False, WriteName name (pl_sequence pl + word_of_nat k) d)) [length (pl_durations pl)..<length (pl_durations pl) + length ds] ds)
       (pl, [])
     = (fold pl_addItem ds pl, [])"
proof (induction ds arbitrary: pl)
  case (Cons d ds)
  let ?n = "length (pl_durations pl)"
  have "unat (word_of_nat ?n :: u32) = ?n" using Cons.prems(2) by (intro unat_of_nat_small) simp
  then have "unat (pl_sequence pl + word_of_nat ?n) = unat (pl_sequence pl) + ?n"
    using Cons.prems(2) by (subst unat_plus_if') simp
  then have "\<not> pl_sequence pl + word_of_nat ?n < pl_sequence pl" by (simp add: word_less_nat_alt)
  then have step: "se_init_file True name (False, WriteName name (pl_sequence pl + word_of_nat ?n) d) (pl, []) = (pl_addItem d pl, [])"
    using Cons.prems by (simp add: se_init_file_def ReadName_WriteName ICompare_same take_WriteName Let_def)
  have u: "[?n..<?n + length (d # ds)] = ?n # [length (pl_durations (pl_addItem d pl))..<length (pl_durations (pl_addItem d pl)) + length ds]"
    by (subst upt_conv_Cons) (simp_all del: upt_Suc)
  have "fold (se_init_file True name)
       (map2 (\<lambda>k d. (False, WriteName name (pl_sequence (pl_addItem d' pl) + word_of_nat k) d))
         [length (pl_durations (pl_addItem d pl))..<length (pl_durations (pl_addItem d pl)) + length ds] ds) (pl_addItem d pl, [])
     = (fold pl_addItem ds (pl_addItem d pl), [])" for d'
    using Cons.IH [of "pl_addItem d pl"] Cons.prems by simp
  then show ?case unfolding u by (simp add: step)
qed simp

end
