(* ===== verification/RTMP.thy ===== *)
theory RTMP
  imports Stream
begin

text \<open>
  RTMP over TCP: the channel state of \<open>RTMP.h\<close>, the chunk decoder with its handshake
  (\<open>RTMPDecoder.cpp\<close>, digest positions and validation of \<open>RTMP.cpp\<close>) and the message sender
  (\<open>RTMPSender.cpp\<close>).  HMAC, RC4, Diffie-Hellman, the random generator and the clock are outside
  the sources and are the fields of an environment record.  The main theorem is a simulation: the
  decoder's channels follow the sender's, so header compression loses nothing.
\<close>

section \<open>Types\<close>

definition AMF_TYPE_EMPTY :: u8 where "AMF_TYPE_EMPTY = 0x00"
definition AMF_TYPE_CHUNKSIZE :: u8 where "AMF_TYPE_CHUNKSIZE = 0x01"
definition AMF_TYPE_ABORT :: u8 where "AMF_TYPE_ABORT = 0x02"
definition AMF_TYPE_ACK :: u8 where "AMF_TYPE_ACK = 0x03"
definition AMF_TYPE_WIN_ACKSIZE :: u8 where "AMF_TYPE_WIN_ACKSIZE = 0x05"
definition AMF_TYPE_AUDIO :: u8 where "AMF_TYPE_AUDIO = 0x08"
definition AMF_TYPE_VIDEO :: u8 where "AMF_TYPE_VIDEO = 0x09"

lemmas amf_type_defs = AMF_TYPE_EMPTY_def AMF_TYPE_CHUNKSIZE_def AMF_TYPE_ABORT_def AMF_TYPE_ACK_def
  AMF_TYPE_WIN_ACKSIZE_def AMF_TYPE_AUDIO_def AMF_TYPE_VIDEO_def

record rtmp_channel =
  ch_id :: u32
  ch_type :: u8
  ch_time :: u32
  ch_absoluteTime :: u32
  ch_streamId :: u32
  ch_bodySize :: u32

definition new_channel :: "u32 \<Rightarrow> rtmp_channel" where
  "new_channel i = \<lparr>ch_id = i, ch_type = AMF_TYPE_EMPTY, ch_time = 0, ch_absoluteTime = 0,
     ch_streamId = 0xFFFFFFFF, ch_bodySize = 0\<rparr>"

definition channel_reset :: "rtmp_channel \<Rightarrow> rtmp_channel" where
  "channel_reset c = c\<lparr>ch_bodySize := 0, ch_time := 0, ch_absoluteTime := 0, ch_streamId := 0xFFFFFFFF,
     ch_type := AMF_TYPE_EMPTY\<rparr>"

text \<open>The decoder's channel: \<open>None\<close> is the null buffer, no message under assembly.\<close>

record rtmp_dchannel =
  dc_channel :: rtmp_channel
  dc_buffer :: "bytes option"

definition dchannel_clear :: "rtmp_dchannel \<Rightarrow> rtmp_dchannel" where
  "dchannel_clear d = \<lparr>dc_channel = channel_reset (dc_channel d), dc_buffer = None\<rparr>"

record rtmp_request =
  rq_type :: u8
  rq_time :: u32
  rq_channelId :: u32
  rq_streamId :: u32
  rq_ackBytes :: u32
  rq_packet :: bytes
  rq_flush :: bool

datatype rtmp_handshake = HANDSHAKE_FIRST | HANDSHAKE_SECOND | HANDSHAKE_DONE

datatype 'k rtmp_event =
    OnEncryptKey 'k
  | SocketWrite bytes
  | OnRequest rtmp_request

text \<open>\<open>rt_skip\<close> is the \<open>skipBufferLimit\<close> of the \<open>StreamData\<close> base.\<close>

record 'k rtmp_decoder =
  rt_decoded :: nat
  rt_handshake :: rtmp_handshake
  rt_channels :: "u32 \<Rightarrow> rtmp_dchannel option"
  rt_chunkSize :: u32
  rt_winAckSize :: u32
  rt_unackBytes :: u32
  rt_decryptKey :: "'k option"
  rt_skip :: bool

definition rtmp_init :: "'k rtmp_decoder" where
  "rtmp_init = \<lparr>rt_decoded = 0, rt_handshake = HANDSHAKE_FIRST, rt_channels = (\<lambda>_. None), rt_chunkSize = 128,
     rt_winAckSize = 131072, rt_unackBytes = 0, rt_decryptKey = None, rt_skip = False\<rparr>"

text \<open>
  The environment: \<open>HMAC::SHA256\<close> of a key and a content, the random bytes, the clock, the
  Diffie-Hellman exchange with a far public key (our public key and the shared secret, \<open>None\<close>
  when it fails), the RC4 key of a secret and the RC4 stream.
\<close>

record 'k rtmp_env =
  env_hmac :: "bytes \<Rightarrow> bytes \<Rightarrow> bytes"
  env_random :: "nat \<Rightarrow> bytes"
  env_now :: u32
  env_dh :: "bytes \<Rightarrow> (bytes \<times> bytes) option"
  env_rc4_key :: "bytes \<Rightarrow> 'k"
  env_rc4 :: "'k \<Rightarrow> bytes \<Rightarrow> bytes \<times> 'k"

section \<open>The handshake\<close>

definition SHA256_SIZE :: nat where "SHA256_SIZE = 32"
definition DH_SIZE :: nat where "DH_SIZE = 128"

text \<open>The keys are the strings of the code; the second is completed by a fixed block of 32 bytes.\<close>

definition FPKey :: bytes where
  "FPKey = [0x47, 0x65, 0x6E, 0x75, 0x69, 0x6E, 0x65, 0x20, 0x41, 0x64, 0x6F, 0x62, 0x65, 0x20, 0x46, 0x6C,
    0x61, 0x73, 0x68, 0x20, 0x50, 0x6C, 0x61, 0x79, 0x65, 0x72, 0x20, 0x30, 0x30, 0x31]"

definition FMSKey :: bytes where
  "FMSKey = [0x47, 0x65, 0x6e, 0x75, 0x69, 0x6e, 0x65, 0x20, 0x41, 0x64, 0x6f, 0x62, 0x65, 0x20, 0x46, 0x6c,
    0x61, 0x73, 0x68, 0x20, 0x4d, 0x65, 0x64, 0x69, 0x61, 0x20, 0x53, 0x65, 0x72, 0x76, 0x65, 0x72,
    0x20, 0x30, 0x30, 0x31,
    0xf0, 0xee, 0xc2, 0x4a, 0x80, 0x68, 0xbe, 0xe8, 0x2e, 0x00, 0xd0, 0xd1, 0x02, 0x9e, 0x7e, 0x57,
    0x6e, 0xec, 0x5d, 0x2d, 0x29, 0x80, 0x6f, 0xab, 0x93, 0xb8, 0xe6, 0x36, 0xcf, 0xeb, 0x31, 0xae]"

text \<open>Both return the position and the length.\<close>

definition GetDigestPos :: "bytes \<Rightarrow> bool \<Rightarrow> nat \<times> nat" where
  "GetDigestPos data middle =
     (if length data < 1504 then (length data, 0)
      else
        let pos = (if middle then 13 + 764 else 13);
            pos = pos + (unat (data ! (pos - 4)) + unat (data ! (pos - 3)) + unat (data ! (pos - 2))
                         + unat (data ! (pos - 1))) mod 728
        in (pos, min (length data - pos) SHA256_SIZE))"

definition GetDHPos :: "bytes \<Rightarrow> bool \<Rightarrow> nat \<times> nat" where
  "GetDHPos data middle =
     (if length data < 1536 then (length data, 0)
      else
        let pos = (if middle then 772 else 772 + 764);
            pos = (unat (data ! (pos - 3)) + unat (data ! (pos - 2)) + unat (data ! (pos - 1))
                   + unat (data ! pos)) mod 632 + 9;
            pos = (if middle then pos else pos + 764)
        in (pos, min (length data - pos) DH_SIZE))"

text \<open>The 1504 bytes hashed around a digest: those before it but the first, and those behind it.\<close>

definition digest_content :: "bytes \<Rightarrow> nat \<Rightarrow> nat \<Rightarrow> bytes" where
  "digest_content data pos n = take (pos - 1) (drop 1 data) @ take (1504 - pos + 1) (drop (pos + n) data)"

definition ValidateClientScheme :: "'k rtmp_env \<Rightarrow> bytes \<Rightarrow> bool \<Rightarrow> bytes option" where
  "ValidateClientScheme env data middle =
     (let (pos, keySize) = GetDigestPos data middle
      in if keySize = 0 then None
         else if take keySize (env_hmac env FPKey (digest_content data pos keySize)) = take keySize (drop pos data)
         then Some (take keySize (drop pos data)) else None)"

definition ValidateClient :: "'k rtmp_env \<Rightarrow> bytes \<Rightarrow> (bytes \<times> bool) option" where
  "ValidateClient env data =
     (case ValidateClientScheme env data False of
        Some key \<Rightarrow> Some (key, False)
      | None \<Rightarrow> (case ValidateClientScheme env data True of Some key \<Rightarrow> Some (key, True) | None \<Rightarrow> None))"

definition WriteDigestAndKey :: "'k rtmp_env \<Rightarrow> bytes \<Rightarrow> bool \<Rightarrow> bytes \<Rightarrow> bytes option" where
  "WriteDigestAndKey env key middle data =
     (if length data < 3041 then None
      else
        let (pos, n) = GetDigestPos data middle;
            data = overwrite pos (env_hmac env (take 36 FMSKey) (digest_content data pos n)) data;
            hash = env_hmac env FMSKey key
        in Some (overwrite (length data - SHA256_SIZE) (env_hmac env hash (take 1504 (drop 1537 data))) data))"

text \<open>
  The decryption key is \<open>HMAC(secret, pubKey)\<close> and the encryption key \<open>HMAC(secret, farPubKey)\<close>;
  the latter skips the 1536 bytes of the handshake.
\<close>

definition ComputeRC4Keys :: "'k rtmp_env \<Rightarrow> bytes \<Rightarrow> bytes \<Rightarrow> bytes \<Rightarrow> 'k \<times> 'k" where
  "ComputeRC4Keys env pubKey farPubKey secret =
     (let decryptKey = env_rc4_key env (take 16 (env_hmac env secret pubKey));
          encryptKey = env_rc4_key env (take 16 (env_hmac env secret farPubKey))
      in (decryptKey, snd (env_rc4 env encryptKey (replicate 1536 0))))"

text \<open>
  The answer to a well sized first packet: the bytes written, the keys for RTMPE; \<open>None\<close> for a
  refusal.
\<close>

definition rtmp_answer :: "'k rtmp_env \<Rightarrow> bytes \<Rightarrow> (bytes \<times> ('k \<times> 'k) option) option" where
  "rtmp_answer env buffer =
     (let type = buffer ! 0; encrypted = (type = 6)
      in if type \<noteq> 3 \<and> type \<noteq> 6 then None
         else case ValidateClient env buffer of
           None \<Rightarrow> if encrypted then None
                   else Some ([3] @ env_random env 1536 @ drop 1 buffer, None)
         | Some (key, middle) \<Rightarrow>
             let out = [type] @ net32 (env_now env) @ net32 0 @ env_random env 3064
             in if encrypted
                then (let (farPos, farSize) = GetDHPos buffer middle;
                          farPubKey = take farSize (drop farPos buffer);
                          (serverPos, _) = GetDHPos out middle
                      in case env_dh env farPubKey of
                           None \<Rightarrow> None
                         | Some (pubKey, secret) \<Rightarrow>
                             map_option (\<lambda>out. (out, Some (ComputeRC4Keys env pubKey farPubKey secret)))
                               (WriteDigestAndKey env key middle (overwrite serverPos pubKey out)))
                else map_option (\<lambda>out. (out, None)) (WriteDigestAndKey env key middle out))"

section \<open>The decoder\<close>

definition get_channel :: "(u32 \<Rightarrow> rtmp_dchannel option) \<Rightarrow> u32 \<Rightarrow> rtmp_dchannel" where
  "get_channel chs i = (case chs i of Some d \<Rightarrow> d | None \<Rightarrow> \<lparr>dc_channel = new_channel i, dc_buffer = None\<rparr>)"

text \<open>
  A complete message: the control messages change the decoder, the others are queued with the bytes
  to acknowledge when half the window is reached.
\<close>

definition rtmp_message ::
  "rtmp_channel \<Rightarrow> bytes \<Rightarrow> bool \<Rightarrow> 'k rtmp_decoder \<Rightarrow> 'k rtmp_decoder \<times> 'k rtmp_event list" where
  "rtmp_message ch packet flush s =
     (if ch_type ch = AMF_TYPE_ABORT
      then (let i = fst (br_read32 (net_reader packet))
            in case rt_channels s i of
                 Some d \<Rightarrow> (s\<lparr>rt_channels := (rt_channels s)(i \<mapsto> dchannel_clear d)\<rparr>, [])
               | None \<Rightarrow> (s, []))
      else if ch_type ch = AMF_TYPE_CHUNKSIZE
      then (s\<lparr>rt_chunkSize := fst (br_read32 (net_reader packet))\<rparr>, [])
      else if ch_type ch = AMF_TYPE_WIN_ACKSIZE
      then (s\<lparr>rt_winAckSize := fst (br_read32 (net_reader packet))\<rparr>, [])
      else if ch_type ch = AMF_TYPE_ACK then (s, [])
      else
        let acks = (rt_unackBytes s \<ge> drop_bit 1 (rt_winAckSize s));
            ackBytes = (if acks then rt_unackBytes s else 0);
            s = (if acks then s\<lparr>rt_unackBytes := 0\<rparr> else s)
        in (s, [OnRequest \<lparr>rq_type = ch_type ch, rq_time = ch_absoluteTime ch, rq_channelId = ch_id ch,
                  rq_streamId = ch_streamId ch, rq_ackBytes = ackBytes, rq_packet = packet, rq_flush = flush\<rparr>]))"

text \<open>The fields of a chunk header behind the channel id, by the size of the header.\<close>

definition rtmp_fields :: "nat \<Rightarrow> rtmp_channel \<Rightarrow> breader \<Rightarrow> rtmp_channel \<times> bool \<times> breader" where
  "rtmp_fields headerSize ch r =
     (if headerSize < 4 then (ch, True, r)
      else
        let (time, r) = br_read24 r; ch = ch\<lparr>ch_time := time\<rparr>
        in if headerSize < 8 then (ch, True, r)
           else
             let (bodySize, r) = br_read24 r; (type, r) = br_read8 r;
                 ch = ch\<lparr>ch_bodySize := bodySize, ch_type := type\<rparr>
             in if headerSize < 12 then (ch, True, r)
                else
                  let (b0, r) = br_read8 r; (b1, r) = br_read8 r; (b2, r) = br_read8 r; (b3, r) = br_read8 r
                  in (ch\<lparr>ch_streamId := ucast b0 + push_bit 8 (ucast b1) + push_bit 16 (ucast b2)
                         + push_bit 24 (ucast b3)\<rparr>, False, r))"

text \<open>The basic header: the short channel id and the size of the whole header.\<close>

definition rtmp_basic :: "breader \<Rightarrow> nat \<times> nat \<times> breader" where
  "rtmp_basic r =
     (let (h, r) = br_read8 r;
          channelId = unat (h AND 0x3F);
          headerSize = 12 - unat (drop_bit 6 h) * 4;
          headerSize = (if headerSize = 0 then 1 else headerSize);
          headerSize = (if channelId < 2 then headerSize + channelId + 1 else headerSize)
      in (channelId, headerSize, r))"

definition rtmp_long_id :: "nat \<Rightarrow> breader \<Rightarrow> u32 \<times> breader" where
  "rtmp_long_id channelId r =
     (if channelId = 0 then (let (x, r) = br_read8 r in (ucast x + 64, r))
      else if channelId = 1 then (let (x, r) = br_read16 r in (ucast x + 64, r))
      else (of_nat channelId, r))"

definition rtmp_chunk ::
  "'k rtmp_decoder \<Rightarrow> bytes \<Rightarrow> ('k rtmp_decoder, 'k rtmp_event) outcome" where
  "rtmp_chunk s buffer =
     (let (channelId, headerSize, r) = rtmp_basic (net_reader buffer)
      in if rd_size r < headerSize then Wait s buffer
         else
           let (i, r) = rtmp_long_id channelId r;
               d = get_channel (rt_channels s) i;
               (ch, isRelative, r) = rtmp_fields headerSize (dc_channel d) r;
               save = (\<lambda>d. s\<lparr>rt_channels := (rt_channels s)(i \<mapsto> d)\<rparr>)
           in if ch_time ch \<ge> 0xFFFFFF \<and> br_available r < 4
              then Wait (save (d\<lparr>dc_channel := ch\<rparr>)) buffer
              else
                let (headerSize, ch, isRelative, r) =
                      (if ch_time ch \<ge> 0xFFFFFF
                       then (let (time, r) = br_read32 r in (headerSize + 4, ch\<lparr>ch_time := time\<rparr>, True, r))
                       else (headerSize, ch, isRelative, r));
                    (ch, body) =
                      (case dc_buffer d of
                         None \<Rightarrow> (ch\<lparr>ch_absoluteTime := (if isRelative then ch_absoluteTime ch + ch_time ch
                                                          else ch_time ch)\<rparr>, [])
                       | Some body \<Rightarrow> (ch, body))
                in if length body > unat (ch_bodySize ch) then Stop (save (d\<lparr>dc_channel := ch\<rparr>)) []
                   else
                     let chunkSize = unat (ch_bodySize ch) - length body;
                         chunkSize = (if rt_chunkSize s \<noteq> 0 \<and> chunkSize > unat (rt_chunkSize s)
                                      then unat (rt_chunkSize s) else chunkSize)
                     in if br_available r < chunkSize
                        then Wait ((save \<lparr>dc_channel = ch, dc_buffer = Some body\<rparr>)
                               \<lparr>rt_skip := (ch_type ch = AMF_TYPE_AUDIO \<or> ch_type ch = AMF_TYPE_VIDEO)\<rparr>) buffer
                        else
                          let body = body @ take chunkSize (br_rest r); n = chunkSize + headerSize;
                              rest = drop n buffer; ready = (unat (ch_bodySize ch) \<le> length body);
                              s = (save \<lparr>dc_channel = ch, dc_buffer = (if ready then None else Some body)\<rparr>)
                                    \<lparr>rt_decoded := rt_decoded s - n, rt_unackBytes := rt_unackBytes s + of_nat n\<rparr>
                          in if ready then (let (s, es) = rtmp_message ch body (rest = []) s in Frame s es rest)
                             else Frame s [] rest)"

text \<open>One iteration of \<open>RTMPDecoder::onStreamData\<close>; with RTMPE the new bytes are decrypted in place.\<close>

definition rtmp_step ::
  "'k rtmp_env \<Rightarrow> 'k rtmp_decoder \<Rightarrow> bytes \<Rightarrow> ('k rtmp_decoder, 'k rtmp_event) outcome" where
  "rtmp_step env s buffer =
     (if rt_handshake s = HANDSHAKE_FIRST
      then (if length buffer < 1537 then Wait s buffer
            else if length buffer > 1537 then Stop s []
            else case rtmp_answer env buffer of
              None \<Rightarrow> Stop s []
            | Some (out, keys) \<Rightarrow>
                Frame (s\<lparr>rt_unackBytes := rt_unackBytes s + 1537, rt_handshake := HANDSHAKE_SECOND,
                         rt_decryptKey := (case keys of Some (k, _) \<Rightarrow> Some k | None \<Rightarrow> rt_decryptKey s)\<rparr>)
                  ((case keys of Some (_, k) \<Rightarrow> [OnEncryptKey k] | None \<Rightarrow> []) @ [SocketWrite out]) [])
      else
        let (s, buffer) =
              (if length buffer > rt_decoded s
               then (case rt_decryptKey s of
                       Some k \<Rightarrow> (let (plain, k) = env_rc4 env k (drop (rt_decoded s) buffer)
                                  in (s\<lparr>rt_decryptKey := Some k, rt_decoded := length buffer\<rparr>,
                                      take (rt_decoded s) buffer @ plain))
                     | None \<Rightarrow> (s\<lparr>rt_decoded := length buffer\<rparr>, buffer))
               else (s, buffer))
        in if rt_handshake s = HANDSHAKE_SECOND
           then (if length buffer < 1536 then Wait s buffer
                 else Frame (s\<lparr>rt_decoded := rt_decoded s - 1536, rt_unackBytes := rt_unackBytes s + 1536,
                               rt_handshake := HANDSHAKE_DONE\<rparr>) [] (drop 1536 buffer))
           else rtmp_chunk s buffer)"

definition rtmp_on_data ::
  "'k rtmp_env \<Rightarrow> 'k rtmp_decoder \<Rightarrow> bytes \<Rightarrow> 'k rtmp_decoder \<times> 'k rtmp_event list \<times> bytes \<times> bool \<times> nat" where
  "rtmp_on_data env s buffer =
     (let (s, es, kept) = run_frames (rtmp_step env) (s\<lparr>rt_skip := False\<rparr>) buffer
      in (s, es, kept, rt_skip s, length kept))"

definition rtmp_decode ::
  "'k rtmp_env \<Rightarrow> nat \<Rightarrow> stream_data \<Rightarrow> 'k rtmp_decoder \<Rightarrow> bytes
   \<Rightarrow> stream_data \<times> 'k rtmp_decoder \<times> 'k rtmp_event list \<times> bool" where
  "rtmp_decode env limit = add_stream_data (rtmp_on_data env) limit"

section \<open>The sender\<close>

text \<open>
  \<open>RTMPSender::run\<close>: the new channel state, the header, and what the socket gets for the header
  with the writer's bytes and for the packet.
\<close>

definition rtmp_flag :: "rtmp_channel \<Rightarrow> u8 \<Rightarrow> u32 \<Rightarrow> u32 \<Rightarrow> u32 \<Rightarrow> u8 \<times> u32" where
  "rtmp_flag ch type time streamId bodySize =
     (if ch_streamId ch = streamId \<and> time \<ge> ch_absoluteTime ch
      then let time = time - ch_absoluteTime ch
           in if ch_type ch = type \<and> ch_bodySize ch = bodySize
              then (if ch_time ch = time then 3 else 2, time) else (1, time)
      else (0, time))"

definition rtmp_id_bytes :: "u8 \<Rightarrow> u32 \<Rightarrow> bytes" where
  "rtmp_id_bytes headerFlag i =
     (if i > 319 then [push_bit 6 headerFlag OR 1, ucast ((i - 64) AND 0x00FF), ucast ((i - 64) AND 0xFF00)]
      else if i > 63 then [push_bit 6 headerFlag OR 0, ucast (i - 64)]
      else [push_bit 6 headerFlag OR ucast i])"

definition rtmp_send :: "rtmp_channel \<Rightarrow> u8 \<Rightarrow> u32 \<Rightarrow> u32 \<Rightarrow> nat \<Rightarrow> rtmp_channel \<times> bytes" where
  "rtmp_send ch type absoluteTime streamId bodyLength =
     (let bodySize = of_nat bodyLength :: u32;
          streamId = (if ch_id ch = 2 then 0 else streamId);
          (headerFlag, time) = rtmp_flag ch type absoluteTime streamId bodySize;
          ch = ch\<lparr>ch_streamId := streamId, ch_absoluteTime := absoluteTime, ch_time := time,
                  ch_type := type, ch_bodySize := bodySize\<rparr>
      in (ch, rtmp_id_bytes headerFlag (ch_id ch)
            @ (if headerFlag < 3 then net24 (if time < 0xFFFFFF then time else 0xFFFFFF) else [])
            @ (if headerFlag < 2 then net24 bodySize @ [type] else [])
            @ (if headerFlag = 0
               then [ucast streamId, ucast (drop_bit 8 streamId), ucast (drop_bit 16 streamId),
                     ucast (drop_bit 24 streamId)]
               else [])
            @ (if time \<ge> 0xFFFFFF then net32 absoluteTime else [])))"

definition rtmp_socket_write ::
  "('k \<Rightarrow> bytes \<Rightarrow> bytes \<times> 'k) \<Rightarrow> 'k option \<Rightarrow> bytes \<Rightarrow> bytes \<Rightarrow> bytes list \<times> 'k option" where
  "rtmp_socket_write rc4 key head packet =
     (case key of
        None \<Rightarrow> ([head] @ (if packet \<noteq> [] then [packet] else []), None)
      | Some k \<Rightarrow>
          let (head, k) = rc4 k head
          in if packet \<noteq> [] then (let (packet, k) = rc4 k packet in ([head, packet], Some k)) else ([head], Some k))"

section \<open>The decoder follows the sender\<close>

lemma streamId_bytes:
  fixes s :: u32
  shows "ucast (ucast s :: u8) + push_bit 8 (ucast (ucast (drop_bit 8 s) :: u8))
    + push_bit 16 (ucast (ucast (drop_bit 16 s) :: u8)) + push_bit 24 (ucast (ucast (drop_bit 24 s) :: u8)) = s"
proof -
  let ?b = "\<lambda>k. ucast (ucast (drop_bit k s) :: u8) :: u32"
  have 1: "?b 0 + push_bit 8 (?b 8) = ?b 0 OR push_bit 8 (?b 8)"
    by (rule disjunctive_add) (auto simp: bit_simps)
  have 2: "(?b 0 OR push_bit 8 (?b 8)) + push_bit 16 (?b 16) = ?b 0 OR push_bit 8 (?b 8) OR push_bit 16 (?b 16)"
    by (subst disjunctive_add) (auto simp: bit_simps or.assoc)
  have 3: "(?b 0 OR push_bit 8 (?b 8) OR push_bit 16 (?b 16)) + push_bit 24 (?b 24)
      = ?b 0 OR push_bit 8 (?b 8) OR push_bit 16 (?b 16) OR push_bit 24 (?b 24)"
    by (subst disjunctive_add) (auto simp: bit_simps or.assoc)
  have "?b 0 OR push_bit 8 (?b 8) OR push_bit 16 (?b 16) OR push_bit 24 (?b 24) = s"
  proof (rule bit_word_eqI)
    fix n assume n: "n < LENGTH(32)"
    consider "n < 8" | "8 \<le> n" "n < 16" | "16 \<le> n" "n < 24" | "24 \<le> n" by linarith
    then show "bit (?b 0 OR push_bit 8 (?b 8) OR push_bit 16 (?b 16) OR push_bit 24 (?b 24)) n = bit s n"
      using n by cases (auto simp: bit_simps)
  qed
  with 1 2 3 show ?thesis by simp
qed

definition fields_bytes :: "u8 \<Rightarrow> u32 \<Rightarrow> u32 \<Rightarrow> u8 \<Rightarrow> u32 \<Rightarrow> bytes" where
  "fields_bytes headerFlag time bodySize type streamId =
     (if headerFlag < 3 then net24 time else []) @ (if headerFlag < 2 then net24 bodySize @ [type] else [])
     @ (if headerFlag = 0 then [ucast streamId, ucast (drop_bit 8 streamId), ucast (drop_bit 16 streamId),
                     ucast (drop_bit 24 streamId)] else [])"

lemma flag4: "f < 4 \<Longrightarrow> f = 0 \<or> f = 1 \<or> f = 2 \<or> f = (3 :: u8)"
proof -
  assume "f < 4"
  then have "unat f < 4" by (simp add: word_less_nat_alt)
  then have "unat f = 0 \<or> unat f = 1 \<or> unat f = 2 \<or> unat f = 3" by linarith
  then show ?thesis by (simp add: word_unat_eq_iff)
qed

lemma rtmp_fields_read:
  assumes r: "br_net r" "br_rest r = fields_bytes headerFlag time bodySize type streamId @ xs"
    and v: "unat time < 2 ^ 24" "unat bodySize < 2 ^ 24" "headerFlag < 4"
    and hs: "12 - 4 * unat headerFlag \<le> hs" "hs < 12 - 4 * unat headerFlag + 4 \<or> headerFlag = 0"
  shows "rtmp_fields hs ch r =
    (ch\<lparr>ch_time := (if headerFlag < 3 then time else ch_time ch),
        ch_bodySize := (if headerFlag < 2 then bodySize else ch_bodySize ch),
        ch_type := (if headerFlag < 2 then type else ch_type ch),
        ch_streamId := (if headerFlag = 0 then streamId else ch_streamId ch)\<rparr>,
     headerFlag \<noteq> 0, br_adv (length (fields_bytes headerFlag time bodySize type streamId)) r)"
proof -
  have a: "br_adv n r = br_adv n r" for n by simp
  have w: "n \<le> length (br_rest r) \<Longrightarrow> br_wf (br_adv n r)" for n using r(1) br_wf_adv by blast
  from flag4[OF v(3)] show ?thesis
  proof (elim disjE)
    assume f: "headerFlag = 0"
    have h: "\<not> hs < 4" "\<not> hs < 8" "\<not> hs < 12" using hs f by auto
    have r1: "br_read24 r = (time, br_adv 3 r)"
      using c24.dec_enc[of time r] r v(1) by (simp add: fields_bytes_def f)
    have r2: "br_read24 (br_adv 3 r) = (bodySize, br_adv 6 r)"
      using c24.dec_enc[of bodySize "br_adv 3 r"] r v(2) w[of 3] by (simp add: fields_bytes_def f)
    have r3: "br_read8 (br_adv 6 r) = (type, br_adv 7 r)" "br_read8 (br_adv 7 r) = (ucast streamId, br_adv 8 r)"
      "br_read8 (br_adv 8 r) = (ucast (drop_bit 8 streamId), br_adv 9 r)"
      "br_read8 (br_adv 9 r) = (ucast (drop_bit 16 streamId), br_adv 10 r)"
      "br_read8 (br_adv 10 r) = (ucast (drop_bit 24 streamId), br_adv 11 r)"
      using w r by (simp_all add: br_read8_Cons fields_bytes_def f)
    show ?thesis
      by (simp add: rtmp_fields_def h r1 r2 r3 streamId_bytes f fields_bytes_def)
  next
    assume f: "headerFlag = 1"
    have h: "\<not> hs < 4" "\<not> hs < 8" "hs < 12" using hs f by auto
    have r1: "br_read24 r = (time, br_adv 3 r)"
      using c24.dec_enc[of time r] r v(1) by (simp add: fields_bytes_def f)
    have r2: "br_read24 (br_adv 3 r) = (bodySize, br_adv 6 r)"
      using c24.dec_enc[of bodySize "br_adv 3 r"] r v(2) w[of 3] by (simp add: fields_bytes_def f)
    have r3: "br_read8 (br_adv 6 r) = (type, br_adv 7 r)"
      using w r by (simp_all add: br_read8_Cons fields_bytes_def f)
    show ?thesis
      by (simp add: rtmp_fields_def h r1 r2 r3 f fields_bytes_def)
  next
    assume f: "headerFlag = 2"
    have h: "\<not> hs < 4" "hs < 8" using hs f by auto
    have r1: "br_read24 r = (time, br_adv 3 r)"
      using c24.dec_enc[of time r] r v(1) by (simp add: fields_bytes_def f)
    show ?thesis
      by (simp add: rtmp_fields_def h r1 f fields_bytes_def)
  next
    assume f: "headerFlag = 3"
    have h: "hs < 4" using hs f by auto
    show ?thesis
      by (simp add: rtmp_fields_def h f fields_bytes_def)
  qed
qed

lemma basic_byte:
  fixes f x :: u8
  assumes "f < 4" "unat x < 64"
  shows "(push_bit 6 f OR x) AND 0x3F = x" "drop_bit 6 (push_bit 6 f OR x) = f"
proof -
  have x: "take_bit 6 x = x" using assms(2) by (intro take_bit_id_less) simp
  have f: "take_bit 2 f = f" using assms(1) by (intro take_bit_id_less) (simp add: word_less_nat_alt)
  have m: "(0x3F :: u8) = mask 6" by (simp add: mask_eq_exp_minus_1)
  have bx: "bit x n \<longleftrightarrow> n < 6 \<and> bit x n" for n using x by (metis bit_take_bit_iff)
  have bf: "bit f n \<longleftrightarrow> n < 2 \<and> bit f n" for n using f by (metis bit_take_bit_iff)
  show "(push_bit 6 f OR x) AND 0x3F = x"
  proof (unfold m, rule bit_word_eqI)
    fix n assume "n < LENGTH(8)"
    show "bit ((push_bit 6 f OR x) AND mask 6) n = bit x n" using bx[of n] by (auto simp: bit_simps)
  qed
  show "drop_bit 6 (push_bit 6 f OR x) = f"
  proof (rule bit_word_eqI)
    fix n assume "n < LENGTH(8)"
    show "bit (drop_bit 6 (push_bit 6 f OR x)) n = bit f n"
      using bx[of "6 + n"] bf[of n] by (auto simp: bit_simps)
  qed
qed

lemma rtmp_head_read:
  assumes f: "f < 4" and i: "2 \<le> unat i" "unat i \<le> 319" and b: "b = rtmp_id_bytes f i @ xs"
  shows "\<exists>c. rtmp_basic (net_reader b) =
      (c, length (rtmp_id_bytes f i) + (if f = 0 then 11 else if f = 1 then 7 else if f = 2 then 3 else 0),
       br_adv 1 (net_reader b))
    \<and> rtmp_long_id c (br_adv 1 (net_reader b)) = (i, br_adv (length (rtmp_id_bytes f i)) (net_reader b))"
proof (cases "unat i \<le> 63")
  case True
  have u: "unat (ucast i :: u8) = unat i"
    using True by (simp add: unsigned_ucast_eq take_bit_nat_eq_self)
  have x: "rtmp_id_bytes f i = [push_bit 6 f OR ucast i]"
    using True by (simp add: rtmp_id_bytes_def word_less_nat_alt)
  show ?thesis using flag4[OF f] u True i(1) basic_byte[OF f, of "ucast i"]
    by (auto simp: rtmp_basic_def rtmp_long_id_def b x br_read8_pos[of 0, simplified] Let_def)
next
  case False
  have x: "rtmp_id_bytes f i = [push_bit 6 f OR 0, ucast (i - 64)]"
    using False i(2) by (simp add: rtmp_id_bytes_def word_less_nat_alt)
  have n: "unat (i - 64) = unat i - 64"
    using False by (simp add: unat_sub word_le_nat_alt)
  have "take_bit 8 (i - 64) = i - 64" using n i(2) False by (intro take_bit_id_less) simp
  moreover have "(ucast (ucast (i - 64) :: u8) :: u32) = take_bit 8 (i - 64)"
    by (rule bit_word_eqI) (auto simp: bit_simps)
  ultimately have "(ucast (ucast (i - 64) :: u8) :: u32) = i - 64" by simp
  then show ?thesis using flag4[OF f] basic_byte[OF f, of 0]
    by (auto simp: rtmp_basic_def rtmp_long_id_def b x net_pos Let_def)
qed

text \<open>What is sent for one message, and its chunk as the decoder takes it.\<close>

definition sent_ok :: "u32 \<Rightarrow> rtmp_channel \<Rightarrow> u8 \<Rightarrow> u32 \<Rightarrow> bytes \<Rightarrow> bool" where
  "sent_ok chunkSize ch type time body \<longleftrightarrow>
     2 \<le> unat (ch_id ch) \<and> unat (ch_id ch) \<le> 319 \<and> time < 0xFFFFFF \<and> length body < 2 ^ 24
     \<and> (chunkSize = 0 \<or> length body \<le> unat chunkSize)"

lemma rtmp_flag_props:
  assumes "rtmp_flag ch type time streamId n = (f, t)" "time < 0xFFFFFF"
  shows "f < 4" "t < 0xFFFFFF" "f = 3 \<Longrightarrow> t = ch_time ch" "f = 2 \<or> f = 3 \<Longrightarrow> ch_bodySize ch = n \<and> ch_type ch = type"
    "f \<noteq> 0 \<Longrightarrow> ch_streamId ch = streamId \<and> ch_absoluteTime ch + t = time" "f = 0 \<Longrightarrow> t = time"
proof -
  have d: "time - ch_absoluteTime ch < 0xFFFFFF" if "time \<ge> ch_absoluteTime ch"
    using that assms(2) by (meson le_less_trans word_sub_le)
  show "t < 0xFFFFFF" using assms d by (auto simp: rtmp_flag_def Let_def split: if_splits)
  have "f \<noteq> 0 \<Longrightarrow> ch_streamId ch = streamId \<and> t = time - ch_absoluteTime ch"
    using assms by (auto simp: rtmp_flag_def Let_def split: if_splits)
  then show "f \<noteq> 0 \<Longrightarrow> ch_streamId ch = streamId \<and> ch_absoluteTime ch + t = time" by simp
qed (use assms in \<open>auto simp: rtmp_flag_def Let_def split: if_splits\<close>)

lemma rtmp_send_eq:
  assumes "rtmp_flag ch type time (if ch_id ch = 2 then 0 else streamId) (of_nat n) = (f, t)" "time < 0xFFFFFF"
  shows "rtmp_send ch type time streamId n =
    (ch\<lparr>ch_streamId := (if ch_id ch = 2 then 0 else streamId), ch_absoluteTime := time, ch_time := t,
        ch_type := type, ch_bodySize := of_nat n\<rparr>,
     rtmp_id_bytes f (ch_id ch) @ fields_bytes f t (of_nat n) type (if ch_id ch = 2 then 0 else streamId))"
proof -
  have "\<not> 0xFFFFFF \<le> t" "t < 0xFFFFFF" using rtmp_flag_props(2)[OF assms] by simp_all
  then show ?thesis by (simp add: rtmp_send_def assms(1) fields_bytes_def Let_def)
qed

definition advance :: "'k rtmp_decoder \<Rightarrow> nat \<Rightarrow> rtmp_dchannel \<Rightarrow> 'k rtmp_decoder" where
  "advance s n d = s\<lparr>rt_channels := (rt_channels s)(ch_id (dc_channel d) \<mapsto> d), rt_decoded := rt_decoded s - n,
     rt_unackBytes := rt_unackBytes s + of_nat n\<rparr>"

lemma length_fields_bytes:
  "f < 4 \<Longrightarrow> length (fields_bytes f t n type sid) = (if f = 0 then 11 else if f = 1 then 7 else if f = 2 then 3 else 0)"
  using flag4[of f] by (auto simp: fields_bytes_def)

text \<open>The chunk the sender makes of a message leaves the decoder's channel equal to the sender's.\<close>

lemma rtmp_chunk_sent:
  assumes ok: "sent_ok (rt_chunkSize s) ch type time body"
    and d: "get_channel (rt_channels s) (ch_id ch) = \<lparr>dc_channel = ch, dc_buffer = None\<rparr>"
    and send: "rtmp_send ch type time streamId (length body) = (ch', header)"
  shows "rtmp_chunk s (header @ body @ xs) =
    (let (s', es) = rtmp_message ch' body (xs = []) (advance s (length header + length body) \<lparr>dc_channel = ch', dc_buffer = None\<rparr>)
     in Frame s' es xs)"
proof -
  define sid where "sid = (if ch_id ch = 2 then 0 else streamId)"
  obtain f t where ft: "rtmp_flag ch type time sid (of_nat (length body)) = (f, t)" by (cases "rtmp_flag ch type time sid (of_nat (length body))")
  have time: "time < 0xFFFFFF" and id: "2 \<le> unat (ch_id ch)" "unat (ch_id ch) \<le> 319"
    and n: "length body < 2 ^ 24" "rt_chunkSize s = 0 \<or> length body \<le> unat (rt_chunkSize s)"
    using ok by (auto simp: sent_ok_def)
  have u: "unat (of_nat (length body) :: u32) = length body" by (rule unat_of_nat_small) (use n in simp)
  note p = rtmp_flag_props[OF ft time]
  have ch': "ch' = ch\<lparr>ch_streamId := sid, ch_absoluteTime := time, ch_time := t, ch_type := type,
        ch_bodySize := of_nat (length body)\<rparr>"
    and h: "header = rtmp_id_bytes f (ch_id ch) @ fields_bytes f t (of_nat (length body)) type sid"
    using rtmp_send_eq[OF ft[unfolded sid_def] time] send by (simp_all add: sid_def)
  let ?b = "header @ body @ xs"
  have b: "?b = rtmp_id_bytes f (ch_id ch) @ fields_bytes f t (of_nat (length body)) type sid @ body @ xs"
    by (simp add: h)
  define k where "k = length (rtmp_id_bytes f (ch_id ch))"
  obtain c where c: "rtmp_basic (net_reader ?b) = (c, length header, br_adv 1 (net_reader ?b))"
      "rtmp_long_id c (br_adv 1 (net_reader ?b)) = (ch_id ch, br_adv k (net_reader ?b))"
    using rtmp_head_read[OF p(1) id b] p(1) by (auto simp: h k_def length_fields_bytes)
  have k: "1 \<le> k" "k \<le> 3" by (auto simp: k_def rtmp_id_bytes_def)
  have kl: "length header = k + (if f = 0 then 11 else if f = 1 then 7 else if f = 2 then 3 else 0)"
    using p(1) by (simp add: h k_def length_fields_bytes)
  have r: "rtmp_fields (length header) ch (br_adv k (net_reader ?b)) =
      (ch\<lparr>ch_time := t, ch_bodySize := of_nat (length body), ch_type := type, ch_streamId := sid\<rparr>, f \<noteq> 0,
       br_adv (length header) (net_reader ?b))"
  proof -
    have rest: "br_rest (br_adv k (net_reader ?b)) = fields_bytes f t (of_nat (length body)) type sid @ body @ xs"
      by (simp add: h k_def)
    have net: "br_net (br_adv k (net_reader ?b))" by (simp add: h k_def)
    have "unat t < 2 ^ 24" using p(2) by (simp add: word_less_nat_alt)
    then show ?thesis
      using rtmp_fields_read[OF net rest _ _ p(1), of "length header" ch] u n(1) k kl p flag4[OF p(1)]
      by (auto simp: length_fields_bytes[OF p(1)])
  qed
  have sz: "rd_size (br_adv 1 (net_reader ?b)) = length ?b" by (simp add: br_adv_def net_reader_def mk_reader_def)
  have small: "\<not> t \<ge> 0xFFFFFF" using p(2) by simp
  have chunk: "\<not> (rt_chunkSize s \<noteq> 0 \<and> unat (rt_chunkSize s) < length body)" using n(2) by auto
  have final: "ch\<lparr>ch_time := t, ch_bodySize := of_nat (length body), ch_type := type, ch_streamId := sid,
       ch_absoluteTime := time\<rparr> = ch'" by (simp add: ch')
  have id': "ch_id ch' = ch_id ch" by (simp add: ch')
  have size': "ch_bodySize ch' = of_nat (length body)" by (simp add: ch')
  show ?thesis
  proof (cases "f = 0")
    case True
    with p(6) have "t = time" by simp
    then show ?thesis
      using True small chunk u final id' size'
      by (simp add: rtmp_chunk_def c sz d r advance_def Let_def add.commute del: of_nat_add One_nat_def)
        (use n(2) in auto)
  next
    case False
    with p(5) have "ch_absoluteTime ch + t = time" by simp
    then show ?thesis
      using False small chunk u final id' size'
      by (simp add: rtmp_chunk_def c sz d r advance_def Let_def add.commute del: of_nat_add One_nat_def)
        (use n(2) in auto)
  qed
qed


text \<open>
  The sender's side of a connection: its channels, created on first use, and the messages in the
  order they are sent.
\<close>

record rtmp_sent =
  sm_channelId :: u32
  sm_type :: u8
  sm_time :: u32
  sm_streamId :: u32
  sm_body :: bytes

definition sender_channel :: "(u32 \<Rightarrow> rtmp_channel option) \<Rightarrow> u32 \<Rightarrow> rtmp_channel" where
  "sender_channel chs i = (case chs i of Some c \<Rightarrow> c | None \<Rightarrow> new_channel i)"

fun rtmp_stream :: "(u32 \<Rightarrow> rtmp_channel option) \<Rightarrow> rtmp_sent list \<Rightarrow> bytes" where
  "rtmp_stream chs [] = []"
| "rtmp_stream chs (m # ms) =
     (let (ch, header) = rtmp_send (sender_channel chs (sm_channelId m)) (sm_type m) (sm_time m) (sm_streamId m)
                           (length (sm_body m))
      in header @ sm_body m @ rtmp_stream (chs(sm_channelId m \<mapsto> ch)) ms)"

definition media_message :: "u32 \<Rightarrow> rtmp_sent \<Rightarrow> bool" where
  "media_message chunkSize m \<longleftrightarrow>
     2 \<le> unat (sm_channelId m) \<and> unat (sm_channelId m) \<le> 319 \<and> sm_time m < 0xFFFFFF \<and> length (sm_body m) < 2 ^ 24
     \<and> (chunkSize = 0 \<or> length (sm_body m) \<le> unat chunkSize)
     \<and> sm_type m \<notin> {AMF_TYPE_CHUNKSIZE, AMF_TYPE_ABORT, AMF_TYPE_ACK, AMF_TYPE_WIN_ACKSIZE}"

text \<open>The relation between the two ends.\<close>

definition in_step :: "(u32 \<Rightarrow> rtmp_channel option) \<Rightarrow> (u32 \<Rightarrow> rtmp_dchannel option) \<Rightarrow> bool" where
  "in_step chs dchs \<longleftrightarrow> (\<forall>i. get_channel dchs i = \<lparr>dc_channel = sender_channel chs i, dc_buffer = None\<rparr>
      \<and> ch_id (sender_channel chs i) = i)"

lemma in_step_init: "in_step (\<lambda>_. None) (\<lambda>_. None)"
  by (simp add: in_step_def get_channel_def sender_channel_def new_channel_def)

lemma in_step_send:
  assumes "in_step chs dchs" "ch_id ch = i"
  shows "in_step (chs(i \<mapsto> ch)) (dchs(i \<mapsto> \<lparr>dc_channel = ch, dc_buffer = None\<rparr>))"
  using assms by (auto simp: in_step_def get_channel_def sender_channel_def)

definition seen :: "'k rtmp_event \<Rightarrow> (u8 \<times> u32 \<times> u32 \<times> u32 \<times> bytes) option" where
  "seen e = (case e of OnRequest r \<Rightarrow> Some (rq_type r, rq_time r, rq_channelId r, rq_streamId r, rq_packet r) | _ \<Rightarrow> None)"

definition sent :: "rtmp_sent \<Rightarrow> (u8 \<times> u32 \<times> u32 \<times> u32 \<times> bytes) option" where
  "sent m = Some (sm_type m, sm_time m, sm_channelId m, (if sm_channelId m = 2 then 0 else sm_streamId m), sm_body m)"

lemma run_rtmp_stream:
  assumes "list_all (media_message (rt_chunkSize s)) ms" "in_step chs (rt_channels s)"
    "rt_handshake s = HANDSHAKE_DONE" "rt_decryptKey s = None"
    "rt_decoded s \<le> length (rtmp_stream chs ms)"  "ms \<noteq> []"
  shows "\<exists>s' es. run_frames (rtmp_step env) s (rtmp_stream chs ms) = (s', es, []) \<and> map seen es = map sent ms
     \<and> rt_decoded s' = 0"
  using assms
proof (induction ms arbitrary: s chs)
  case (Cons m ms)
  let ?ch = "sender_channel chs (sm_channelId m)"
  obtain ch header where send: "rtmp_send ?ch (sm_type m) (sm_time m) (sm_streamId m) (length (sm_body m)) = (ch, header)"
    by (cases "rtmp_send ?ch (sm_type m) (sm_time m) (sm_streamId m) (length (sm_body m))")
  have id: "ch_id ?ch = sm_channelId m" using Cons.prems(2) by (simp add: in_step_def)
  have m: "media_message (rt_chunkSize s) m" using Cons.prems(1) by simp
  obtain f t where ft: "rtmp_flag ?ch (sm_type m) (sm_time m) (if ch_id ?ch = 2 then 0 else sm_streamId m)
      (of_nat (length (sm_body m))) = (f, t)" by (metis surj_pair)
  have ch: "ch_id ch = sm_channelId m" "ch_type ch = sm_type m" "ch_absoluteTime ch = sm_time m"
      "ch_streamId ch = (if sm_channelId m = 2 then 0 else sm_streamId m)"
    and h: "header \<noteq> []"
    using rtmp_send_eq[OF ft] send m by (auto simp: media_message_def id rtmp_id_bytes_def)
  let ?rest = "rtmp_stream (chs(sm_channelId m \<mapsto> ch)) ms"
  have b: "rtmp_stream chs (m # ms) = header @ sm_body m @ ?rest" by (simp add: send)
  define s0 where "s0 = s\<lparr>rt_decoded := length (rtmp_stream chs (m # ms))\<rparr>"
  define s1 where "s1 = advance s0 (length header + length (sm_body m)) \<lparr>dc_channel = ch, dc_buffer = None\<rparr>"
  have step0: "rtmp_step env s (rtmp_stream chs (m # ms)) = rtmp_chunk s0 (rtmp_stream chs (m # ms))"
  proof (cases "rt_decoded s = length (rtmp_stream chs (m # ms))")
    case True
    then have "s0 = s" by (simp add: s0_def)
    then show ?thesis using True Cons.prems(3) by (simp add: rtmp_step_def)
  next
    case False
    then show ?thesis using Cons.prems(3,4,5) by (simp add: rtmp_step_def s0_def)
  qed
  have chunk: "rtmp_chunk s0 (header @ sm_body m @ ?rest) =
      (let (s', es) = rtmp_message ch (sm_body m) (?rest = []) s1 in Frame s' es ?rest)"
    unfolding s1_def
  proof (rule rtmp_chunk_sent[OF _ _ send])
    show "sent_ok (rt_chunkSize s0) ?ch (sm_type m) (sm_time m) (sm_body m)"
      using m by (auto simp: sent_ok_def media_message_def id s0_def)
    show "get_channel (rt_channels s0) (ch_id ?ch) = \<lparr>dc_channel = ?ch, dc_buffer = None\<rparr>"
      using Cons.prems(2) id by (simp add: in_step_def s0_def)
  qed
  obtain s2 e where msg: "rtmp_message ch (sm_body m) (?rest = []) s1 = (s2, [e])" "seen e = sent m"
      "rt_channels s2 = rt_channels s1" "rt_chunkSize s2 = rt_chunkSize s1" "rt_handshake s2 = rt_handshake s1"
      "rt_decryptKey s2 = rt_decryptKey s1" "rt_decoded s2 = rt_decoded s1"
    using m ch by (auto simp: rtmp_message_def media_message_def seen_def sent_def Let_def)
  have step: "rtmp_step env s (rtmp_stream chs (m # ms)) = Frame s2 [e] ?rest"
    unfolding step0 unfolding b chunk msg by simp
  have s2: "list_all (media_message (rt_chunkSize s2)) ms" "in_step (chs(sm_channelId m \<mapsto> ch)) (rt_channels s2)"
      "rt_handshake s2 = HANDSHAKE_DONE" "rt_decryptKey s2 = None" "rt_decoded s2 = length ?rest"
    using Cons.prems(1-4) msg in_step_send[OF Cons.prems(2) ch(1)]
    by (auto simp: s1_def s0_def advance_def send ch)
  have less: "length ?rest < length (rtmp_stream chs (m # ms))" using h by (simp add: send)
  show ?case
  proof (cases "ms = []")
    case True
    then have "?rest = []" by simp
    then show ?thesis using step msg(2) s2(5) True by (simp add: run_frames_Frame_last)
  next
    case False
    then have ne: "?rest \<noteq> []"
      by (cases ms) (auto simp: rtmp_send_def rtmp_id_bytes_def Let_def split: prod.splits)
    obtain s' es where "run_frames (rtmp_step env) s2 ?rest = (s', es, [])" "map seen es = map sent ms" "rt_decoded s' = 0"
      using Cons.IH[OF s2(1-4) eq_refl[OF s2(5)] False] by blast
    then show ?thesis using run_frames_Frame[of "rtmp_step env" s "rtmp_stream chs (m # ms)" s2 "[e]" ?rest] step ne less msg(2)
      by simp
  qed
qed simp


section \<open>The digest of the handshake\<close>

lemma GetDigestPos_bounds:
  assumes "1537 \<le> length data" "GetDigestPos data middle = (pos, n)"
  shows "n = 32" "13 \<le> pos" "pos + 32 \<le> 1536" "middle \<Longrightarrow> 777 \<le> pos"
proof -
  define at :: nat where "at = (if middle then 13 + 764 else 13)"
  define x where "x = (unat (data ! (at - 4)) + unat (data ! (at - 3)) + unat (data ! (at - 2)) + unat (data ! (at - 1))) mod 728"
  have x: "x < 728" by (simp add: x_def)
  have p: "pos = at + x" "n = min (length data - pos) 32"
    using assms by (auto simp: GetDigestPos_def Let_def at_def x_def SHA256_SIZE_def)
  show "13 \<le> pos" "pos + 32 \<le> 1536" "middle \<Longrightarrow> 777 \<le> pos" using p x by (auto simp: at_def)
  then show "n = 32" using p assms(1) by simp
qed

lemma GetDigestPos_cong:
  assumes "length data' = length data" "1537 \<le> length data"
    "\<And>i. i < (if middle then 777 else 13) \<Longrightarrow> data' ! i = data ! i"
  shows "GetDigestPos data' middle = GetDigestPos data middle"
proof (cases middle)
  case True
  then have "data' ! 776 = data ! 776" "data' ! 775 = data ! 775" "data' ! 774 = data ! 774" "data' ! 773 = data ! 773"
    using assms(3) by simp_all
  then show ?thesis using True assms(1) by (simp add: GetDigestPos_def Let_def)
next
  case False
  then have "data' ! 12 = data ! 12" "data' ! 11 = data ! 11" "data' ! 10 = data ! 10" "data' ! 9 = data ! 9"
    using assms(3) by simp_all
  then show ?thesis using False assms(1) by (simp add: GetDigestPos_def Let_def)
qed

lemma digest_content_cong:
  assumes "length data' = length data" "pos + n \<le> 1536" "1537 \<le> length data" "0 < pos"
    "\<And>i. i < 1537 \<Longrightarrow> i < pos \<or> pos + n \<le> i \<Longrightarrow> data' ! i = data ! i" and n: "n = 32"
  shows "digest_content data' pos n = digest_content data pos n"
proof -
  have same: "data' ! i = data ! i" if "i < pos \<or> pos + n \<le> i" "i < 1537" for i using assms(5) that by blast
  have "take (pos - 1) (drop 1 data') = take (pos - 1) (drop 1 data)"
  proof (rule nth_equalityI)
    fix i assume "i < length (take (pos - 1) (drop 1 data'))"
    then have "1 + i < pos" "1 + i < 1537" using assms(2) by auto
    then show "take (pos - 1) (drop 1 data') ! i = take (pos - 1) (drop 1 data) ! i"
      using same[of "1 + i"] assms(1,3) by simp
  qed (use assms in simp)
  moreover have "take (1504 - pos + 1) (drop (pos + n) data') = take (1504 - pos + 1) (drop (pos + n) data)"
  proof (rule nth_equalityI)
    fix i assume "i < length (take (1504 - pos + 1) (drop (pos + n) data'))"
    then have "pos + n + i < 1537" "pos + n + i < length data" "i < 1504 - pos + 1" using assms(1-4) n by auto
    then show "take (1504 - pos + 1) (drop (pos + n) data') ! i = take (1504 - pos + 1) (drop (pos + n) data) ! i"
      using same[of "pos + n + i"] assms(1) by simp
  qed (use assms in simp)
  ultimately show ?thesis by (simp add: digest_content_def)
qed


section \<open>Properties\<close>

text \<open>
  C4.  Once the handshake is done and without encryption, a sequence of messages sent by \<open>RTMPSender\<close> over new channels,
  from 2 to 319, and received in one buffer, is decoded to the types, times, channels, streams and bodies sent, in order,
  with nothing left over: the header compression of the sender (four header forms, times relative to the channel) is
  undone by the decoder.  Each message is of a type other than those that the decoder takes for itself (the size of chunks,
  abort, acknowledgment and its window), at a time below 0xFFFFFF (from there the extended time is misread,
  \<open>RTMPDecoder.cpp:230\<close>), with a body below \<open>2 ^ 24\<close> bytes that fits one chunk of the decoder.
\<close>

theorem rtmp_sent_received:
  assumes "list_all (media_message (rt_chunkSize s)) ms" "ms \<noteq> []"
    and "rt_channels s = (\<lambda>_. None)" "rt_handshake s = HANDSHAKE_DONE" "rt_decryptKey s = None" "rt_decoded s = 0"
  shows "\<exists>s' es. run_frames (rtmp_step env) s (rtmp_stream (\<lambda>_. None) ms) = (s', es, [])
    \<and> map seen es = map sent ms"
  using run_rtmp_stream[of s ms "\<lambda>_. None" env] in_step_init assms by auto

text \<open>
  C36.  The first answer of a complex handshake carries, at the position its own bytes designate, the
  digest of the rest under the server key, so that the client's validation of it succeeds.
\<close>

theorem rtmp_digest_valid:
  assumes "WriteDigestAndKey env key middle data = Some out" and "\<And>k d. length (env_hmac env k d) = SHA256_SIZE"
  shows "length out = length data \<and>
    (let (pos, n) = GetDigestPos out middle
     in n = SHA256_SIZE \<and> take n (drop pos out) = env_hmac env (take 36 FMSKey) (digest_content out pos n))"
proof -
  obtain pos n where g: "GetDigestPos data middle = (pos, n)" by (cases "GetDigestPos data middle")
  have len: "3041 \<le> length data" using assms(1) by (auto simp: WriteDigestAndKey_def split: if_splits)
  note b = GetDigestPos_bounds[OF _ g]
  have n: "n = 32" "13 \<le> pos" "pos + 32 \<le> 1536" "middle \<Longrightarrow> 777 \<le> pos" using b len by auto
  let ?digest = "env_hmac env (take 36 FMSKey) (digest_content data pos n)"
  define data1 where "data1 = overwrite pos ?digest data"
  define tail where "tail = env_hmac env (env_hmac env FMSKey key) (take 1504 (drop 1537 data1))"
  have l: "length ?digest = 32" "length tail = 32" using assms(2) by (simp_all add: tail_def SHA256_SIZE_def)
  have l1: "length data1 = length data" using n len l by (simp add: data1_def length_overwrite)
  have out: "out = overwrite (length data1 - 32) tail data1"
    using assms(1) len g by (simp add: WriteDigestAndKey_def Let_def data1_def tail_def SHA256_SIZE_def)
  have lo: "length out = length data" using l l1 len by (simp add: out length_overwrite)
  have nth: "out ! i = (if pos \<le> i \<and> i < pos + 32 then ?digest ! (i - pos) else data ! i)" if "i < 1537" for i
    using that len l l1 n by (auto simp: out nth_overwrite data1_def)
  have "GetDigestPos out middle = GetDigestPos data middle"
  proof (rule GetDigestPos_cong)
    fix i :: nat assume "i < (if middle then 777 else 13)"
    then show "out ! i = data ! i" using nth[of i] n by (auto split: if_splits)
  qed (use lo len in auto)
  then have pos: "GetDigestPos out middle = (pos, n)" using g by simp
  have "digest_content out pos n = digest_content data pos n"
    by (rule digest_content_cong) (use lo nth n len in auto)
  moreover have "take n (drop pos out) = ?digest"
    by (rule nth_equalityI) (use lo nth n len l in auto)
  ultimately show ?thesis using lo pos n by (simp add: SHA256_SIZE_def)
qed


theorem rtmp_sent_received_witness:
  "\<exists>s' es. run_frames (rtmp_step undefined) (rtmp_init\<lparr>rt_handshake := HANDSHAKE_DONE\<rparr> :: nat rtmp_decoder)
      (rtmp_stream (\<lambda>_. None) [\<lparr>sm_channelId = 70, sm_type = 8, sm_time = 40, sm_streamId = 1, sm_body = [1, 2]\<rparr>,
         \<lparr>sm_channelId = 70, sm_type = 8, sm_time = 60, sm_streamId = 1, sm_body = [3, 4]\<rparr>]) = (s', es, [])
    \<and> map seen es = [Some (8, 40, 70, 1, [1, 2]), Some (8, 60, 70, 1, [3, 4])]"
  using rtmp_sent_received[of "rtmp_init\<lparr>rt_handshake := HANDSHAKE_DONE\<rparr>"
      "[\<lparr>sm_channelId = 70, sm_type = 8, sm_time = 40, sm_streamId = 1, sm_body = [1, 2]\<rparr>,
         \<lparr>sm_channelId = 70, sm_type = 8, sm_time = 60, sm_streamId = 1, sm_body = [3, 4]\<rparr>]" undefined]
  by (simp add: media_message_def rtmp_init_def amf_type_defs sent_def del: rtmp_stream.simps)

theorem rtmp_digest_valid_witness:
  "\<exists>out. WriteDigestAndKey (\<lparr>env_hmac = \<lambda>_ _. replicate 32 7, env_random = \<lambda>_. [], env_now = 0, env_dh = \<lambda>_. None,
        env_rc4_key = \<lambda>_. (), env_rc4 = \<lambda>k d. (d, k)\<rparr>) [1] True (replicate 3073 0) = Some out
    \<and> length out = 3073 \<and> (let (pos, n) = GetDigestPos out True in take n (drop pos out) = replicate 32 7)"
proof -
  let ?env = "\<lparr>env_hmac = \<lambda>_ _. replicate 32 7, env_random = \<lambda>_. [], env_now = 0, env_dh = \<lambda>_. None,
        env_rc4_key = \<lambda>_. (), env_rc4 = \<lambda>k d. (d, k)\<rparr> :: unit rtmp_env"
  obtain out where o: "WriteDigestAndKey ?env [1] True (replicate 3073 0) = Some out"
    by (cases "GetDigestPos (replicate 3073 0) True") (simp add: WriteDigestAndKey_def Let_def)
  show ?thesis using rtmp_digest_valid[OF o] o by (auto simp: SHA256_SIZE_def)
qed

end
