(* ===== verification/RendezVous.thy ===== *)
theory RendezVous
  imports Prelude
begin

text \<open>
  \<open>RendezVous.cpp\<close>, the meeting point of the peer to peer protocol: peers by id, peers by public
  address, and redirections.  A \<open>Peer*\<close> of the address index is the id of the peer it points to, so
  that a dangling pointer is an id without peer; \<open>std::map\<close>s are maps.  The operations form a step
  relation; the invariant of its reachable states is that no pointer of the index dangles.
\<close>

section \<open>State\<close>

type_synonym peer_id = bytes

record socket_address =
  sa_host :: bytes
  sa_port :: u16

record rv_peer =
  pe_address :: socket_address
  pe_serverAddress :: socket_address
  pe_addresses :: "socket_address list"
  pe_data :: nat

text \<open>\<open>rd_time\<close> is the time of the last \<open>set\<close>, in milliseconds; \<open>rd_timeout\<close> zero is no timeout.\<close>

record redirection =
  re_addresses :: "socket_address \<rightharpoonup> bool"
  re_time :: int
  re_timeout :: u32

record rendezvous =
  rv_redirections :: "peer_id \<rightharpoonup> redirection"
  rv_peers :: "peer_id \<rightharpoonup> rv_peer"
  rv_byAddress :: "socket_address \<rightharpoonup> peer_id"

definition rv_init :: rendezvous where
  "rv_init = \<lparr>rv_redirections = Map.empty, rv_peers = Map.empty, rv_byAddress = Map.empty\<rparr>"

section \<open>Operations\<close>

definition obsolete :: "int \<Rightarrow> redirection \<Rightarrow> bool" where
  "obsolete now r \<longleftrightarrow> re_timeout r \<noteq> 0 \<and> now - re_time r > uint (re_timeout r)"

text \<open>The timer, each 15 seconds.\<close>

definition rv_manage :: "int \<Rightarrow> rendezvous \<Rightarrow> rendezvous" where
  "rv_manage now s = s\<lparr>rv_redirections :=
     (\<lambda>i. case rv_redirections s i of Some r \<Rightarrow> if obsolete now r then None else Some r | None \<Rightarrow> None)\<rparr>"

definition rv_setRedirection ::
  "int \<Rightarrow> peer_id \<Rightarrow> (socket_address \<rightharpoonup> bool) \<Rightarrow> u32 \<Rightarrow> rendezvous \<Rightarrow> rendezvous" where
  "rv_setRedirection now i addresses timeout s =
     s\<lparr>rv_redirections := (rv_redirections s)(i \<mapsto> \<lparr>re_addresses = addresses, re_time = now, re_timeout = timeout\<rparr>)\<rparr>"

definition rv_eraseRedirection :: "peer_id \<Rightarrow> rendezvous \<Rightarrow> rendezvous" where
  "rv_eraseRedirection i s = s\<lparr>rv_redirections := (rv_redirections s)(i := None)\<rparr>"

text \<open>\<open>emplace\<close> keeps an entry that exists.\<close>

definition emplace :: "'k \<Rightarrow> 'v \<Rightarrow> ('k \<rightharpoonup> 'v) \<Rightarrow> ('k \<rightharpoonup> 'v)" where
  "emplace k v m = (case m k of Some _ \<Rightarrow> m | None \<Rightarrow> m(k \<mapsto> v))"

definition rv_setIntern ::
  "peer_id \<Rightarrow> socket_address \<Rightarrow> socket_address \<Rightarrow> socket_address list \<Rightarrow> nat \<Rightarrow> rendezvous \<Rightarrow> rendezvous" where
  "rv_setIntern i address serverAddress addresses data s =
     (let byAddress = (case rv_peers s i of
                         Some p \<Rightarrow> (rv_byAddress s)(pe_address p := None)
                       | None \<Rightarrow> rv_byAddress s)
      in s\<lparr>rv_peers := (rv_peers s)(i \<mapsto> \<lparr>pe_address = address, pe_serverAddress = serverAddress,
                                        pe_addresses = addresses, pe_data = data\<rparr>),
           rv_byAddress := emplace address i byAddress\<rparr>)"

definition rv_erase :: "peer_id \<Rightarrow> rendezvous \<Rightarrow> rendezvous" where
  "rv_erase i s =
     (case rv_peers s i of
        None \<Rightarrow> s
      | Some p \<Rightarrow> s\<lparr>rv_byAddress := (rv_byAddress s)(pe_address p := None), rv_peers := (rv_peers s)(i := None)\<rparr>)"

text \<open>
  The result of a meeting: the data of the peer found (0 stands for the rendezvous itself), \<open>None\<close>
  for a failure; the address of the peer asked for and the two address maps.
\<close>

record rv_met =
  mt_result :: "nat option"
  mt_aAddresses :: "socket_address \<rightharpoonup> bool"
  mt_bAddress :: socket_address
  mt_bAddresses :: "socket_address \<rightharpoonup> bool"

definition emplace_all :: "('k \<rightharpoonup> 'v) \<Rightarrow> ('k \<rightharpoonup> 'v) \<Rightarrow> ('k \<rightharpoonup> 'v)" where
  "emplace_all new m = new ++ m"

definition set_all :: "'k list \<Rightarrow> 'v \<Rightarrow> ('k \<rightharpoonup> 'v) \<Rightarrow> ('k \<rightharpoonup> 'v)" where
  "set_all ks v m = foldl (\<lambda>m k. m(k \<mapsto> v)) m ks"

definition rv_meet ::
  "socket_address \<Rightarrow> peer_id \<Rightarrow> (socket_address \<rightharpoonup> bool) \<Rightarrow> socket_address \<Rightarrow> (socket_address \<rightharpoonup> bool)
   \<Rightarrow> rendezvous \<Rightarrow> rv_met" where
  "rv_meet aAddress bId aAddresses bAddress bAddresses s =
     (case rv_redirections s bId of
        Some r \<Rightarrow> \<lparr>mt_result = None, mt_aAddresses = emplace_all (re_addresses r) aAddresses,
                   mt_bAddress = bAddress, mt_bAddresses = bAddresses\<rparr>
      | None \<Rightarrow>
          (case rv_peers s bId of
             None \<Rightarrow> \<lparr>mt_result = None, mt_aAddresses = aAddresses, mt_bAddress = bAddress, mt_bAddresses = bAddresses\<rparr>
           | Some b \<Rightarrow>
               let bAddress = pe_address b;
                   pA = (case rv_byAddress s aAddress of Some i \<Rightarrow> rv_peers s i | None \<Rightarrow> None);
                   exterior = (case pA of
                                 Some a \<Rightarrow> if sa_host (pe_serverAddress a) \<noteq> sa_host (pe_serverAddress b) then Some a else None
                               | None \<Rightarrow> None);
                   bAddresses = (set_all (pe_addresses b) False bAddresses)(bAddress \<mapsto> True);
                   bAddresses = (case exterior of
                                   Some a \<Rightarrow> bAddresses(\<lparr>sa_host = sa_host (pe_serverAddress a), sa_port = sa_port bAddress\<rparr> \<mapsto> True)
                                 | None \<Rightarrow> bAddresses);
                   aAddresses = (case pA of Some a \<Rightarrow> set_all (pe_addresses a) False aAddresses | None \<Rightarrow> aAddresses);
                   aAddresses = aAddresses(aAddress \<mapsto> True);
                   aAddresses = (case exterior of
                                   Some a \<Rightarrow> aAddresses(\<lparr>sa_host = sa_host (pe_serverAddress b), sa_port = sa_port aAddress\<rparr> \<mapsto> True)
                                 | None \<Rightarrow> aAddresses)
               in \<lparr>mt_result = Some (pe_data b), mt_aAddresses = aAddresses, mt_bAddress = bAddress, mt_bAddresses = bAddresses\<rparr>))"

section \<open>Steps and reachable states\<close>

inductive rv_step :: "rendezvous \<Rightarrow> rendezvous \<Rightarrow> bool" where
  manage: "rv_step s (rv_manage now s)"
| redirect: "rv_step s (rv_setRedirection now i addresses timeout s)"
| unredirect: "rv_step s (rv_eraseRedirection i s)"
| set: "rv_step s (rv_setIntern i address serverAddress addresses data s)"
| erase: "rv_step s (rv_erase i s)"

inductive_cases rv_stepE: "rv_step s t"

inductive rv_reachable :: "rendezvous \<Rightarrow> bool" where
  init: "rv_reachable rv_init"
| step: "rv_reachable s \<Longrightarrow> rv_step s t \<Longrightarrow> rv_reachable t"

text \<open>Every pointer of the index is to a live peer, registered with that address.\<close>

definition rv_inv :: "rendezvous \<Rightarrow> bool" where
  "rv_inv s \<longleftrightarrow> (\<forall>a i. rv_byAddress s a = Some i \<longrightarrow> (\<exists>p. rv_peers s i = Some p \<and> pe_address p = a))"

lemmas rv_ops = rv_manage_def rv_setRedirection_def rv_eraseRedirection_def rv_setIntern_def rv_erase_def

lemma rv_invI: "(\<And>a i. rv_byAddress s a = Some i \<Longrightarrow> \<exists>p. rv_peers s i = Some p \<and> pe_address p = a) \<Longrightarrow> rv_inv s"
  by (simp add: rv_inv_def)

lemma rv_invD:
  "rv_inv s \<Longrightarrow> rv_byAddress s a = Some i \<Longrightarrow> rv_peers s i = Some p \<Longrightarrow> pe_address p = a"
  "rv_inv s \<Longrightarrow> rv_byAddress s a = Some i \<Longrightarrow> \<exists>p. rv_peers s i = Some p \<and> pe_address p = a"
  by (fastforce simp: rv_inv_def)+

lemma rv_inv_setIntern: "rv_inv s \<Longrightarrow> rv_inv (rv_setIntern i address serverAddress addresses data s)"
  by (rule rv_invI)
    (auto simp: rv_setIntern_def emplace_def Let_def split: option.splits if_splits dest: rv_invD)

lemma rv_inv_erase: "rv_inv s \<Longrightarrow> rv_inv (rv_erase i s)"
  by (rule rv_invI) (auto simp: rv_erase_def split: option.splits if_splits dest: rv_invD)

lemma rv_inv_redirections: "rv_inv (s\<lparr>rv_redirections := r\<rparr>) = rv_inv s"
  by (simp add: rv_inv_def)

lemma rv_inv_step: "rv_step s t \<Longrightarrow> rv_inv s \<Longrightarrow> rv_inv t"
  by (erule rv_stepE)
    (simp_all add: rv_inv_setIntern rv_inv_erase rv_manage_def rv_setRedirection_def rv_eraseRedirection_def
      rv_inv_redirections)

lemma rv_inv_reachable: "rv_reachable s \<Longrightarrow> rv_inv s"
  by (induction rule: rv_reachable.induct) (auto simp: rv_inv_def rv_init_def dest: rv_inv_step)

text \<open>When addresses are not shared, every peer is found by its address.\<close>

definition rv_indexed :: "rendezvous \<Rightarrow> bool" where
  "rv_indexed s \<longleftrightarrow> (\<forall>i p. rv_peers s i = Some p \<longrightarrow> rv_byAddress s (pe_address p) = Some i)"

lemma rv_indexedD: "rv_indexed s \<Longrightarrow> rv_peers s i = Some p \<Longrightarrow> rv_byAddress s (pe_address p) = Some i"
  by (simp add: rv_indexed_def)

lemma rv_indexed_set:
  assumes "rv_indexed s" "rv_inv s" "\<And>j p. rv_peers s j = Some p \<Longrightarrow> j \<noteq> i \<Longrightarrow> pe_address p \<noteq> address"
  shows "rv_indexed (rv_setIntern i address serverAddress addresses data s)"
proof -
  define by1 where "by1 = (case rv_peers s i of Some p \<Rightarrow> (rv_byAddress s)(pe_address p := None) | None \<Rightarrow> rv_byAddress s)"
  have "by1 address = None"
  proof (rule ccontr)
    assume "by1 address \<noteq> None"
    then obtain j where j: "rv_byAddress s address = Some j" "\<And>p. rv_peers s i = Some p \<Longrightarrow> pe_address p \<noteq> address"
      by (auto simp: by1_def split: option.splits if_splits)
    then show False using rv_invD(2)[OF assms(2) j(1)] assms(3) by blast
  qed
  moreover have "by1 (pe_address p) = Some j" if "rv_peers s j = Some p" "j \<noteq> i" for j p
  proof -
    have "pe_address q \<noteq> pe_address p" if "rv_peers s i = Some q" for q
      using rv_indexedD[OF assms(1)] \<open>rv_peers s j = Some p\<close> that \<open>j \<noteq> i\<close> by (metis option.inject)
    then show ?thesis using rv_indexedD[OF assms(1) that(1)] by (auto simp: by1_def split: option.splits)
  qed
  ultimately show ?thesis
    using assms(3) by (auto simp: rv_indexed_def rv_setIntern_def by1_def[symmetric] emplace_def Let_def)
qed

lemma rv_indexed_erase:
  assumes "rv_indexed s" shows "rv_indexed (rv_erase i s)"
proof -
  have "pe_address p \<noteq> pe_address q" if "rv_peers s i = Some p" "rv_peers s j = Some q" "j \<noteq> i" for p q j
    using rv_indexedD[OF assms] that by (metis option.inject)
  then show ?thesis using assms by (auto simp: rv_indexed_def rv_erase_def split: option.splits) metis
qed

lemma set_all_apply: "set_all ks v m k = (if k \<in> set ks then Some v else m k)"
  by (induction ks arbitrary: m) (auto simp: set_all_def)

text \<open>
  The runs in which no peer is registered under an address that another one has: every peer stays in the index.
\<close>

inductive rv_sole :: "rendezvous \<Rightarrow> bool" where
  init: "rv_sole rv_init"
| set: "rv_sole s \<Longrightarrow> (\<And>j p. rv_peers s j = Some p \<Longrightarrow> j \<noteq> i \<Longrightarrow> pe_address p \<noteq> address) \<Longrightarrow>
    rv_sole (rv_setIntern i address serverAddress addresses data s)"
| erase: "rv_sole s \<Longrightarrow> rv_sole (rv_erase i s)"
| manage: "rv_sole s \<Longrightarrow> rv_sole (rv_manage now s)"
| redirect: "rv_sole s \<Longrightarrow> rv_sole (rv_setRedirection now i redirected timeout s)"
| unredirect: "rv_sole s \<Longrightarrow> rv_sole (rv_eraseRedirection i s)"

lemma rv_sole_indexed: "rv_sole s \<Longrightarrow> rv_inv s \<and> rv_indexed s"
proof (induction rule: rv_sole.induct)
  case init
  then show ?case by (simp add: rv_inv_def rv_indexed_def rv_init_def)
next
  case (set s i address serverAddress addresses data)
  then show ?case using rv_inv_setIntern rv_indexed_set by blast
next
  case (erase s i)
  then show ?case using rv_inv_erase rv_indexed_erase by blast
qed (simp_all add: rv_manage_def rv_setRedirection_def rv_eraseRedirection_def rv_inv_def rv_indexed_def)

text \<open>What a meeting gives of a peer: its local addresses, its public one, and where it is seen from the other side.\<close>

definition met_addresses :: "rv_peer \<Rightarrow> rv_peer \<Rightarrow> socket_address \<Rightarrow> bool option" where
  "met_addresses p other k =
     (if k = pe_address p \<or> sa_host (pe_serverAddress p) \<noteq> sa_host (pe_serverAddress other)
           \<and> k = \<lparr>sa_host = sa_host (pe_serverAddress other), sa_port = sa_port (pe_address p)\<rparr> then Some True
      else if k \<in> set (pe_addresses p) then Some False else None)"

lemma rv_meet_registered:
  assumes "rv_indexed s" "rv_redirections s bId = None" "rv_peers s aId = Some pa" "rv_peers s bId = Some pb"
  shows "rv_meet (pe_address pa) bId Map.empty any Map.empty s =
    \<lparr>mt_result = Some (pe_data pb), mt_aAddresses = met_addresses pa pb, mt_bAddress = pe_address pb,
     mt_bAddresses = met_addresses pb pa\<rparr>"
  using assms(2-4) rv_indexedD[OF assms(1,3)]
  by (auto simp: rv_meet_def Let_def set_all_apply met_addresses_def fun_eq_iff)

section \<open>Properties\<close>

text \<open>
  C10.  In every state the operations can reach, in any order, every pointer of the address index is
  to a peer that is still registered, under that very address: none dangles after an erase or a
  change of address.
\<close>

theorem rv_no_dangling:
  assumes "rv_reachable s" "rv_byAddress s a = Some i"
  shows "\<exists>p. rv_peers s i = Some p \<and> pe_address p = a"
  using rv_inv_reachable[OF assms(1)] assms(2) by (auto simp: rv_inv_def)

theorem rv_no_dangling_witness:
  "\<exists>p. rv_peers (rv_setIntern [1] \<lparr>sa_host = [9], sa_port = 7\<rparr> \<lparr>sa_host = [8], sa_port = 1\<rparr> [] 0 rv_init) [1] = Some p
    \<and> pe_address p = \<lparr>sa_host = [9], sa_port = 7\<rparr>"
  by (rule rv_no_dangling[OF rv_reachable.step[OF rv_reachable.init rv_step.set]])
    (simp add: rv_setIntern_def rv_init_def emplace_def)

text \<open>
  C29.  A meeting, in any run where no peer is registered under an address that another one has at this time: if two
  peers are registered and no redirection is set for the one that is asked for, the meeting succeeds, whatever was
  registered, moved or erased before.  Each side gets the public address of the other flagged public, its local
  addresses flagged local, and, when the two see the server under different hosts, the host under which its own side
  sees the server with the public port of the other; nothing else.  Asked from the other side, when it is not
  redirected either, the meeting gives the same two maps, exchanged.
\<close>

theorem rv_meet_introduces:
  assumes "rv_sole s" "rv_redirections s bId = None" "rv_peers s aId = Some pa" "rv_peers s bId = Some pb"
  shows "(let m = rv_meet (pe_address pa) bId Map.empty any Map.empty s;
              m' = rv_meet (pe_address pb) aId Map.empty any Map.empty s
     in mt_result m = Some (pe_data pb) \<and> mt_bAddress m = pe_address pb
      \<and> mt_bAddresses m = met_addresses pb pa \<and> mt_aAddresses m = met_addresses pa pb
      \<and> (rv_redirections s aId = None \<longrightarrow>
           mt_result m' = Some (pe_data pa) \<and> mt_aAddresses m' = mt_bAddresses m \<and> mt_bAddresses m' = mt_aAddresses m))"
  using rv_meet_registered[OF _ assms(2-4)] rv_meet_registered[OF _ _ assms(4,3)] rv_sole_indexed[OF assms(1)]
  by (simp add: Let_def)

text \<open>A peer comes, another one, which moves to a new address, and the first moves to the address the second had.\<close>

definition meeting :: rendezvous where
  "meeting = rv_setIntern [1] \<lparr>sa_host = [7], sa_port = 5\<rparr> \<lparr>sa_host = [8], sa_port = 1\<rparr> [] 6
     (rv_setIntern [2] \<lparr>sa_host = [6], sa_port = 5\<rparr> \<lparr>sa_host = [3], sa_port = 1\<rparr> [\<lparr>sa_host = [1], sa_port = 5\<rparr>] 4
       (rv_setIntern [2] \<lparr>sa_host = [7], sa_port = 5\<rparr> \<lparr>sa_host = [3], sa_port = 1\<rparr> [\<lparr>sa_host = [1], sa_port = 5\<rparr>] 4
         (rv_setIntern [1] \<lparr>sa_host = [9], sa_port = 7\<rparr> \<lparr>sa_host = [8], sa_port = 1\<rparr> [] 6 rv_init)))"

theorem rv_meet_introduces_witness:
  "(let m = rv_meet \<lparr>sa_host = [7], sa_port = 5\<rparr> [2] Map.empty \<lparr>sa_host = [], sa_port = 0\<rparr> Map.empty meeting
    in mt_result m = Some 4 \<and> mt_bAddress m = \<lparr>sa_host = [6], sa_port = 5\<rparr>
     \<and> mt_bAddresses m \<lparr>sa_host = [8], sa_port = 5\<rparr> = Some True \<and> mt_bAddresses m \<lparr>sa_host = [1], sa_port = 5\<rparr> = Some False)"
proof -
  have sole: "rv_sole meeting" unfolding meeting_def
    by (intro rv_sole.set rv_sole.init) (auto simp: rv_setIntern_def rv_init_def Let_def split: if_splits)
  show ?thesis
    using rv_meet_introduces[OF sole, of "[2]" "[1]" "\<lparr>pe_address = \<lparr>sa_host = [7], sa_port = 5\<rparr>,
        pe_serverAddress = \<lparr>sa_host = [8], sa_port = 1\<rparr>, pe_addresses = [], pe_data = 6\<rparr>"
        "\<lparr>pe_address = \<lparr>sa_host = [6], sa_port = 5\<rparr>, pe_serverAddress = \<lparr>sa_host = [3], sa_port = 1\<rparr>,
          pe_addresses = [\<lparr>sa_host = [1], sa_port = 5\<rparr>], pe_data = 4\<rparr>" "\<lparr>sa_host = [], sa_port = 0\<rparr>"]
    by (simp add: meeting_def rv_setIntern_def rv_init_def met_addresses_def Let_def)
qed

end
