(* ===== verification/RTMFPFlow.thy ===== *)
theory RTMFPFlow
  imports Bytes
begin

text \<open>
  \<open>RTMFPReceiver::Flow\<close>, the reassembly of a flow of the RTMFP protocol over UDP: fragments are
  numbered by stages, arrive in any order and any number of times, are kept in a map until their
  turn, and are concatenated into messages.  The map of fragments is its content in the order of the
  keys.  The events are the calls of \<open>_output\<close>: the bytes lost since the last one and the message,
  empty for the end of the flow.
\<close>

section \<open>The flow\<close>

definition MESSAGE_OPTIONS :: u8 where "MESSAGE_OPTIONS = 0x80"
definition MESSAGE_WITH_BEFOREPART :: u8 where "MESSAGE_WITH_BEFOREPART = 0x20"
definition MESSAGE_WITH_AFTERPART :: u8 where "MESSAGE_WITH_AFTERPART = 0x10"
definition MESSAGE_RELIABLE :: u8 where "MESSAGE_RELIABLE = 0x04"
definition MESSAGE_ABANDON :: u8 where "MESSAGE_ABANDON = 0x02"
definition MESSAGE_END :: u8 where "MESSAGE_END = 0x01"

lemmas message_flag_defs = MESSAGE_OPTIONS_def MESSAGE_WITH_BEFOREPART_def MESSAGE_WITH_AFTERPART_def
  MESSAGE_RELIABLE_def MESSAGE_ABANDON_def MESSAGE_END_def

definition SIZE_PACKET :: nat where "SIZE_PACKET = 1192"

type_synonym fragment = "u64 \<times> u8 \<times> bytes"

record flow =
  fl_fragmentation :: u32
  fl_stage :: u64
  fl_stageEnd :: u64
  fl_fragments :: "fragment list"
  fl_buffer :: "bytes option"
  fl_lost :: u32

definition new_flow :: flow where
  "new_flow = \<lparr>fl_fragmentation = 0, fl_stage = 0, fl_stageEnd = 0, fl_fragments = [], fl_buffer = None, fl_lost = 0\<rparr>"

definition fl_consumed :: "flow \<Rightarrow> bool" where
  "fl_consumed f \<longleftrightarrow> fl_stageEnd f \<noteq> 0 \<and> fl_fragments f = []"

type_synonym flow_output = "u32 \<times> bytes"

definition fl_output :: "bytes \<Rightarrow> flow \<Rightarrow> flow \<times> flow_output list" where
  "fl_output packet f = (f\<lparr>fl_lost := 0\<rparr>, [(fl_lost f, packet)])"

text \<open>The options in front of a continued fragment: lengths and contents up to a length of zero.\<close>

fun skip_options :: "bytes \<Rightarrow> bytes" where
  "skip_options [] = []"
| "skip_options (n # xs) = (if n = 0 then xs else skip_options (drop (unat n) xs))"

definition onFragment :: "u64 \<Rightarrow> u8 \<Rightarrow> bytes \<Rightarrow> flow \<Rightarrow> flow \<times> flow_output list" where
  "onFragment stage flags packet f =
     (let f = f\<lparr>fl_stage := stage\<rparr>
      in case fl_buffer f of
           Some buffer \<Rightarrow>
             let body = (if flags AND MESSAGE_OPTIONS \<noteq> 0 then skip_options packet else packet);
                 buffer = buffer @ body
             in if flags AND MESSAGE_WITH_AFTERPART \<noteq> 0 then (f\<lparr>fl_buffer := Some buffer\<rparr>, [])
                else if buffer \<noteq> [] then fl_output buffer (f\<lparr>fl_buffer := None\<rparr>)
                else (f\<lparr>fl_buffer := None\<rparr>, [])
         | None \<Rightarrow>
             if flags AND MESSAGE_WITH_BEFOREPART \<noteq> 0
             then (f\<lparr>fl_lost := fl_lost f + of_nat (length packet)\<rparr>, [])
             else
               let packet = (if flags AND MESSAGE_OPTIONS \<noteq> 0
                             then (case packet of [] \<Rightarrow> [] | b # bs \<Rightarrow> (b OR MESSAGE_OPTIONS) # bs) else packet)
               in if flags AND MESSAGE_WITH_AFTERPART \<noteq> 0 then (f\<lparr>fl_buffer := Some packet\<rparr>, [])
                  else if packet \<noteq> [] then fl_output packet f else (f, []))"

text \<open>\<open>emplace\<close> in the map of fragments; \<open>None\<close> if the stage is there.\<close>

fun insert_fragment :: "fragment \<Rightarrow> fragment list \<Rightarrow> fragment list option" where
  "insert_fragment x [] = Some [x]"
| "insert_fragment x (y # ys) =
     (if fst x < fst y then Some (x # y # ys)
      else if fst x = fst y then None
      else map_option ((#) y) (insert_fragment x ys))"

text \<open>The fragments that follow, \<open>while (it->first <= nextStage) onFragment(nextStage++, ...)\<close>.\<close>

fun fl_drain :: "u64 \<Rightarrow> fragment list \<Rightarrow> flow \<Rightarrow> flow \<times> flow_output list" where
  "fl_drain nextStage [] f = (f\<lparr>fl_fragments := []\<rparr>, [])"
| "fl_drain nextStage ((stage, flags, packet) # frs) f =
     (if stage \<le> nextStage
      then (let (f, es) = onFragment nextStage flags packet f;
                f = f\<lparr>fl_fragmentation := fl_fragmentation f - of_nat (length packet)\<rparr>;
                (f, es') = fl_drain (nextStage + 1) frs f
            in (f, es @ es'))
      else (f\<lparr>fl_fragments := (stage, flags, packet) # frs\<rparr>, []))"

text \<open>
  The treatment of an abandon: the fragments below are dropped, what is dropped is counted as lost
  with an estimation for the stages that never came.
\<close>

definition fl_abandon :: "u64 \<Rightarrow> u8 \<Rightarrow> flow \<Rightarrow> flow" where
  "fl_abandon stage flags f =
     (let nextStage = fl_stage f + 1;
          lost = (ucast ((stage - nextStage) * of_nat SIZE_PACKET) :: u32);
          lost = (if flags AND MESSAGE_END = 0 then lost + of_nat (SIZE_PACKET div 2) else lost);
          nextStage = stage + 1;
          obsolete = takeWhile (\<lambda>x. fst x < nextStage) (fl_fragments f);
          total = of_nat (sum_list (map (\<lambda>x. length (snd (snd x))) obsolete));
          lost = lost + total + (case fl_buffer f of Some b \<Rightarrow> of_nat (length b) | None \<Rightarrow> 0)
      in f\<lparr>fl_fragmentation := fl_fragmentation f - total,
           fl_fragments := dropWhile (\<lambda>x. fst x < nextStage) (fl_fragments f),
           fl_buffer := None, fl_lost := fl_lost f + lost, fl_stage := stage\<rparr>)"

definition fl_input :: "u64 \<Rightarrow> u8 \<Rightarrow> bytes \<Rightarrow> flow \<Rightarrow> flow \<times> flow_output list" where
  "fl_input stage flags packet f =
     (if fl_stageEnd f \<noteq> 0 \<and> fl_fragments f = [] then (f\<lparr>fl_stage := stage\<rparr>, [])
      else if fl_stageEnd f \<noteq> 0 \<and> stage > fl_stageEnd f then (f, [])
      else
        let f = (if fl_stageEnd f = 0 \<and> flags AND MESSAGE_END \<noteq> 0 then f\<lparr>fl_stageEnd := stage\<rparr> else f);
            nextStage = fl_stage f + 1
        in if stage < nextStage then (f, [])
           else if flags AND MESSAGE_ABANDON = 0 \<and> stage > nextStage
           then (case insert_fragment (stage, flags, packet) (fl_fragments f) of
                   Some frs \<Rightarrow> (f\<lparr>fl_fragments := frs, fl_fragmentation := fl_fragmentation f + of_nat (length packet)\<rparr>, [])
                 | None \<Rightarrow> (f, []))
           else
             let (f, es, nextStage) =
                   (if flags AND MESSAGE_ABANDON \<noteq> 0 then (fl_abandon stage flags f, [], stage + 1)
                    else (let (f, es) = onFragment nextStage flags packet f in (f, es, nextStage + 1)));
                 (f, es') = fl_drain nextStage (fl_fragments f) f;
                 (f, es'') = (if fl_fragments f = [] \<and> fl_stageEnd f \<noteq> 0 then fl_output [] f else (f, []))
             in (f, es @ es' @ es''))"

text \<open>\<open>buildAck\<close>: the cumulative stage and the list of lost and buffered counts.\<close>

fun ack_run :: "u64 \<Rightarrow> u64 \<Rightarrow> fragment list \<Rightarrow> u64 \<times> u64 \<times> fragment list" where
  "ack_run stage buffered [] = (stage, buffered, [])"
| "ack_run stage buffered (x # xs) =
     (if fst x = stage + 1 then ack_run (stage + 1) (buffered + 1) xs else (stage, buffered, x # xs))"

lemma ack_run_length: "ack_run s b xs = (s', b', ys) \<Longrightarrow> length ys \<le> length xs"
  by (induction s b xs rule: ack_run.induct) (auto split: if_splits)

function ack_losts :: "u64 \<Rightarrow> fragment list \<Rightarrow> u64 list" where
  "ack_losts stage [] = []"
| "ack_losts stage (x # xs) =
     (let (stage', buffered, rest) = ack_run (fst x) 0 xs
      in (fst x - stage - 2) # buffered # ack_losts stage' rest)"
  by pat_completeness auto
termination
  by (relation "measure (\<lambda>(s, xs). length xs)") (auto dest: ack_run_length[OF sym])

text \<open>The stage, the counts and the number of bytes they take.\<close>

definition fl_buildAck :: "flow \<Rightarrow> u64 \<times> u64 list \<times> nat" where
  "fl_buildAck f =
     (let losts = ack_losts (fl_stage f) (fl_fragments f)
      in (fl_stage f, losts, sum_list (map (Get7BitSize 10) losts)))"

section \<open>Reception in any order\<close>

text \<open>
  \<open>D i\<close> is the fragment of stage \<open>i\<close>, its flags and its bytes.  \<open>in_order\<close> is the reception of the
  stages one after the other, the contract of the flow; \<open>deliver\<close> is what happens.
\<close>

primrec in_order :: "(nat \<Rightarrow> u8 \<times> bytes) \<Rightarrow> nat \<Rightarrow> flow \<times> flow_output list" where
  "in_order D 0 = (new_flow, [])"
| "in_order D (Suc k) = (let (f, es) = in_order D k; (f, e) = onFragment (of_nat (Suc k)) (fst (D (Suc k))) (snd (D (Suc k))) f
                         in (f, es @ e))"

fun deliver :: "(nat \<Rightarrow> u8 \<times> bytes) \<Rightarrow> flow \<Rightarrow> nat list \<Rightarrow> flow \<times> flow_output list" where
  "deliver D f [] = (f, [])"
| "deliver D f (i # is) = (let (f, es) = fl_input (of_nat i) (fst (D i)) (snd (D i)) f; (f, es') = deliver D f is
                           in (f, es @ es'))"

abbreviation fr :: "(nat \<Rightarrow> u8 \<times> bytes) \<Rightarrow> nat \<Rightarrow> fragment" where
  "fr D i \<equiv> (of_nat i, D i)"

abbreviation total :: "(nat \<Rightarrow> u8 \<times> bytes) \<Rightarrow> nat list \<Rightarrow> u32" where
  "total D L \<equiv> of_nat (sum_list (map (\<lambda>i. length (snd (D i))) L))"

definition holding :: "(nat \<Rightarrow> u8 \<times> bytes) \<Rightarrow> nat \<Rightarrow> nat list \<Rightarrow> flow" where
  "holding D k L = (fst (in_order D k))\<lparr>fl_fragments := map (fr D) L, fl_fragmentation := total D L\<rparr>"

lemma onFragment_frame:
  "onFragment s fl p (f\<lparr>fl_fragments := X, fl_fragmentation := Y\<rparr>) =
     (let (g, es) = onFragment s fl p f in (g\<lparr>fl_fragments := X, fl_fragmentation := Y\<rparr>, es))"
  by (auto simp: onFragment_def fl_output_def Let_def split: option.splits)

lemma onFragment_keeps:
  assumes "onFragment s fl p f = (g, es)"
  shows "fl_fragments g = fl_fragments f" "fl_fragmentation g = fl_fragmentation f" "fl_stageEnd g = fl_stageEnd f"
    "fl_stage g = s"
  using assms by (auto simp: onFragment_def fl_output_def Let_def split: option.splits if_splits)

lemma in_order_fields:
  "fl_stage (fst (in_order D k)) = of_nat k \<and> fl_stageEnd (fst (in_order D k)) = 0
   \<and> fl_fragments (fst (in_order D k)) = [] \<and> fl_fragmentation (fst (in_order D k)) = 0"
proof (induction k)
  case 0
  then show ?case by (simp add: new_flow_def)
next
  case (Suc k)
  obtain f es where f: "in_order D k = (f, es)" by fastforce
  obtain g e where g: "onFragment (of_nat (Suc k)) (fst (D (Suc k))) (snd (D (Suc k))) f = (g, e)" by fastforce
  show ?case using onFragment_keeps[OF g] Suc f g by simp
qed

lemma in_order_next:
  assumes "onFragment (of_nat (Suc k)) (fst (D (Suc k))) (snd (D (Suc k))) (fst (in_order D k)) = (g, e)"
  shows "in_order D (Suc k) = (g, snd (in_order D k) @ e)"
  using assms by (auto split: prod.splits)

lemma word_le_of_nat: "a < 2 ^ 64 \<Longrightarrow> b < 2 ^ 64 \<Longrightarrow> (of_nat a :: u64) \<le> of_nat b \<longleftrightarrow> a \<le> b"
  "a < 2 ^ 64 \<Longrightarrow> b < 2 ^ 64 \<Longrightarrow> (of_nat a :: u64) < of_nat b \<longleftrightarrow> a < b"
  "a < 2 ^ 64 \<Longrightarrow> b < 2 ^ 64 \<Longrightarrow> (of_nat a :: u64) = of_nat b \<longleftrightarrow> a = b"
  by (simp_all add: word_le_nat_alt word_less_nat_alt word_unat_eq_iff unat_of_nat_small)

lemma drain_in_order:
  assumes "sorted_wrt (<) L" "\<forall>i\<in>set L. k < i \<and> i < 2 ^ 64 - 1" "k < 2 ^ 64 - 1"
  shows "\<exists>j es. fl_drain (of_nat (Suc k)) (map (fr D) L) ((fst (in_order D k))\<lparr>fl_fragments := Z, fl_fragmentation := total D L\<rparr>)
      = (holding D j (filter ((<) j) L), es)
    \<and> k \<le> j \<and> {k<..j} \<subseteq> set L \<and> Suc j \<notin> set L \<and> snd (in_order D k) @ es = snd (in_order D j)"
  using assms
proof (induction L arbitrary: k)
  case Nil
  then show ?case by (auto simp: holding_def intro!: exI[of _ k])
next
  case (Cons i L)
  show ?case
  proof (cases "i = Suc k")
    case True
    obtain g e where g: "onFragment (of_nat (Suc k)) (fst (D (Suc k))) (snd (D (Suc k))) (fst (in_order D k)) = (g, e)" by fastforce
    note n = in_order_next[OF g]
    have d: "fl_drain (of_nat (Suc k)) (map (fr D) (i # L)) ((fst (in_order D k))\<lparr>fl_fragments := Z, fl_fragmentation := total D (i # L)\<rparr>)
        = (let (f, es') = fl_drain (of_nat (Suc (Suc k))) (map (fr D) L)
             ((fst (in_order D (Suc k)))\<lparr>fl_fragments := Z, fl_fragmentation := total D L\<rparr>) in (f, e @ es'))"
      unfolding n using g True by (cases "D (Suc k)") (simp add: onFragment_frame add.commute)
    obtain j es where j: "fl_drain (of_nat (Suc (Suc k))) (map (fr D) L)
             ((fst (in_order D (Suc k)))\<lparr>fl_fragments := Z, fl_fragmentation := total D L\<rparr>) = (holding D j (filter ((<) j) L), es)"
        "Suc k \<le> j" "{Suc k<..j} \<subseteq> set L" "Suc j \<notin> set L" "snd (in_order D (Suc k)) @ es = snd (in_order D j)"
      using Cons.IH[of "Suc k"] Cons.prems True by fastforce
    have "{k<..j} \<subseteq> set (i # L)" using j(3) True by (auto simp: subset_iff) (metis Suc_lessI greaterThanAtMost_iff)
    then show ?thesis
      unfolding d using j True n by (intro exI[of _ j] exI[of _ "e @ es"]) auto
  next
    case False
    have "\<not> (of_nat i :: u64) \<le> of_nat (Suc k)"
      using False Cons.prems by (simp add: word_le_of_nat del: of_nat_Suc)
    moreover have "filter ((<) k) (i # L) = i # L" using Cons.prems by (auto intro: filter_True)
    moreover have "Suc k \<notin> set (i # L)" using False Cons.prems by fastforce
    ultimately show ?thesis
      by (intro exI[of _ k] exI[of _ "[]"]) (cases "D i", simp add: holding_def)
  qed
qed

definition plain :: "(nat \<Rightarrow> u8 \<times> bytes) \<Rightarrow> nat \<Rightarrow> bool" where
  "plain D i \<longleftrightarrow> 1 \<le> i \<and> i < 2 ^ 64 - 1 \<and> fst (D i) AND MESSAGE_END = 0 \<and> fst (D i) AND MESSAGE_ABANDON = 0"

lemma insert_fragment_nat:
  assumes "sorted_wrt (<) L" "\<forall>j\<in>set L. j < 2 ^ 64" "i < 2 ^ 64"
  shows "insert_fragment (fr D i) (map (fr D) L) = (if i \<in> set L then None else Some (map (fr D) (insort i L)))"
  using assms by (induction L) (auto simp: word_le_of_nat)

lemma strict_insort: "sorted_wrt (<) L \<Longrightarrow> i \<notin> set L \<Longrightarrow> sorted_wrt (<) (insort (i :: nat) L)"
  by (induction L) (auto simp: set_insort_key)

lemma total_insort: "total D (insort i L) = total D L + of_nat (length (snd (D i)))"
  by (induction L) auto

lemma input_step:
  assumes L: "sorted_wrt (<) L" "set L = {i \<in> S. k < i}" and S: "{0<..k} \<subseteq> S" "Suc k \<notin> S" "\<forall>i\<in>S. plain D i"
    and i: "plain D i" and k: "k < 2 ^ 64 - 1"
  shows "\<exists>j L' es. fl_input (of_nat i) (fst (D i)) (snd (D i)) (holding D k L) = (holding D j L', es)
    \<and> sorted_wrt (<) L' \<and> set L' = {m \<in> insert i S. j < m} \<and> {0<..j} \<subseteq> insert i S \<and> Suc j \<notin> insert i S
    \<and> snd (in_order D k) @ es = snd (in_order D j) \<and> j < 2 ^ 64 - 1"
proof -
  have b: "\<forall>j\<in>set L. j < 2 ^ 64 - 1" using L(2) S(3) by (auto simp: plain_def)
  have n: "fl_stage (holding D k L) + 1 = of_nat (Suc k)" "fl_stageEnd (holding D k L) = 0"
    "fl_fragments (holding D k L) = map (fr D) L" "fl_fragmentation (holding D k L) = total D L"
    using in_order_fields[of D k] by (simp_all add: holding_def)
  consider (old) "i \<le> k" | (nxt) "i = Suc k" | (later) "Suc k < i" by linarith
  then show ?thesis
  proof cases
    case old
    then have "(of_nat i :: u64) < of_nat (Suc k)" using k by (simp add: word_le_of_nat del: of_nat_Suc)
    then have "fl_input (of_nat i) (fst (D i)) (snd (D i)) (holding D k L) = (holding D k L, [])"
      using n i by (simp add: fl_input_def plain_def del: of_nat_Suc)
    moreover have "insert i S = S" using old S(1) i by (auto simp: plain_def)
    ultimately show ?thesis using L S k by auto
  next
    case later
    have nb: "\<not> (of_nat i :: u64) < of_nat (Suc k)" "(of_nat (Suc k) :: u64) < of_nat i"
      using later i by (simp_all add: word_le_of_nat plain_def del: of_nat_Suc)
    have ins: "insert_fragment (of_nat i, fst (D i), snd (D i)) (map (fr D) L)
        = (if i \<in> set L then None else Some (map (fr D) (insort i L)))"
      using insert_fragment_nat[OF L(1), of i D] b i by (fastforce simp: plain_def)
    show ?thesis
    proof (cases "i \<in> set L")
      case True
      then have "fl_input (of_nat i) (fst (D i)) (snd (D i)) (holding D k L) = (holding D k L, [])"
        using n i nb ins by (simp add: fl_input_def plain_def del: of_nat_Suc)
      moreover have "insert i S = S" using True L(2) by auto
      ultimately show ?thesis using L S k by auto
    next
      case False
      have "(holding D k L)\<lparr>fl_fragments := map (fr D) (insort i L), fl_fragmentation := total D L + of_nat (length (snd (D i)))\<rparr>
          = holding D k (insort i L)" by (simp add: holding_def total_insort)
      then have "fl_input (of_nat i) (fst (D i)) (snd (D i)) (holding D k L) = (holding D k (insort i L), [])"
        using n i nb ins False by (simp add: fl_input_def plain_def del: of_nat_Suc)
      then show ?thesis
        using L S k later False by (intro exI[of _ k] exI[of _ "insort i L"]) (auto simp: strict_insort set_insort_key)
    qed
  next
    case nxt
    obtain g e where g: "onFragment (of_nat (Suc k)) (fst (D (Suc k))) (snd (D (Suc k))) (fst (in_order D k)) = (g, e)" by fastforce
    note m = in_order_next[OF g]
    have k1: "Suc k < 2 ^ 64 - 1" using i nxt by (simp add: plain_def)
    have o: "onFragment (of_nat (Suc k)) (fst (D i)) (snd (D i)) (holding D k L)
        = ((fst (in_order D (Suc k)))\<lparr>fl_fragments := map (fr D) L, fl_fragmentation := total D L\<rparr>, e)"
      using g nxt m by (simp add: holding_def onFragment_frame)
    have Lk: "\<forall>i\<in>set L. Suc k < i \<and> i < 2 ^ 64 - 1" using L(2) S(2) b by (metis (mono_tags, lifting) Suc_lessI mem_Collect_eq)
    obtain j es where j: "fl_drain (of_nat (Suc (Suc k))) (map (fr D) L)
          ((fst (in_order D (Suc k)))\<lparr>fl_fragments := map (fr D) L, fl_fragmentation := total D L\<rparr>)
        = (holding D j (filter ((<) j) L), es)"
      "Suc k \<le> j" "{Suc k<..j} \<subseteq> set L" "Suc j \<notin> set L" "snd (in_order D (Suc k)) @ es = snd (in_order D j)"
      using drain_in_order[OF L(1) Lk k1] by blast
    have "fl_stageEnd (holding D j (filter ((<) j) L)) = 0" using in_order_fields[of D j] by (simp add: holding_def)
    moreover have "(of_nat (Suc k) :: u64) + 1 = of_nat (Suc (Suc k))" by simp
    ultimately have "fl_input (of_nat i) (fst (D i)) (snd (D i)) (holding D k L) = (holding D j (filter ((<) j) L), e @ es)"
      using n i nxt o j(1) by (simp add: fl_input_def plain_def del: of_nat_Suc)
    moreover have "j < 2 ^ 64 - 1"
      using j(2,3) k1 b by (cases "j = Suc k") (auto simp: subset_iff)
    moreover have "{0<..j} \<subseteq> insert i S"
    proof
      fix x assume x: "x \<in> {0<..j}"
      consider "x \<le> k" | "x = Suc k" | "Suc k < x" by linarith
      then show "x \<in> insert i S" using x S(1) nxt j(3) L(2) by cases auto
    qed
    moreover have "Suc j \<notin> insert i S" using j(2,4) nxt L(2) by auto
    moreover have "set (filter ((<) j) L) = {m \<in> insert i S. j < m}"
      unfolding set_filter L(2) using nxt j(2) by auto
    ultimately show ?thesis
      using j(5) m L(1) by (intro exI[of _ j] exI[of _ "filter ((<) j) L"] exI[of _ "e @ es"])
        (auto intro: sorted_wrt_filter)
  qed
qed

lemma deliver_in_order:
  assumes "sorted_wrt (<) L" "set L = {i \<in> S. k < i}" "{0<..k} \<subseteq> S" "Suc k \<notin> S" "\<forall>i\<in>S. plain D i"
    "\<forall>i\<in>set is. plain D i" "k < 2 ^ 64 - 1"
  shows "\<exists>j L' es. deliver D (holding D k L) is = (holding D j L', es)
    \<and> sorted_wrt (<) L' \<and> set L' = {m \<in> S \<union> set is. j < m} \<and> {0<..j} \<subseteq> S \<union> set is \<and> Suc j \<notin> S \<union> set is
    \<and> snd (in_order D k) @ es = snd (in_order D j)"
  using assms
proof (induction "is" arbitrary: k L S)
  case Nil
  then show ?case by auto
next
  case (Cons i "is")
  obtain j L' es where j: "fl_input (of_nat i) (fst (D i)) (snd (D i)) (holding D k L) = (holding D j L', es)"
    "sorted_wrt (<) L'" "set L' = {m \<in> insert i S. j < m}" "{0<..j} \<subseteq> insert i S" "Suc j \<notin> insert i S"
    "snd (in_order D k) @ es = snd (in_order D j)" "j < 2 ^ 64 - 1"
    using input_step[OF Cons.prems(1-5) _ Cons.prems(7), of i] Cons.prems(6) by auto
  have p: "\<forall>m\<in>insert i S. plain D m" "\<forall>i\<in>set is. plain D i" using Cons.prems by auto
  obtain j2 L2 es2 where "deliver D (holding D j L') is = (holding D j2 L2, es2)" "sorted_wrt (<) L2"
    "set L2 = {m \<in> insert i S \<union> set is. j2 < m}" "{0<..j2} \<subseteq> insert i S \<union> set is" "Suc j2 \<notin> insert i S \<union> set is"
    "snd (in_order D j) @ es2 = snd (in_order D j2)"
    using Cons.IH[OF j(2-5) p j(7)] by blast
  then show ?case
    using j(1,6) by (intro exI[of _ j2] exI[of _ L2] exI[of _ "es @ es2"]) (auto simp flip: append_assoc)
qed

section \<open>The acknowledgement\<close>

text \<open>
  How the peer reads an acknowledgement: behind the cumulative stage, pairs of the number of lost
  stages and the number of received ones, both less one.
\<close>

fun expand :: "nat \<Rightarrow> nat list \<Rightarrow> nat list" where
  "expand s (l # b # r) = [s + l + 2..<s + l + b + 3] @ expand (s + l + b + 2) r"
| "expand s _ = []"

lemma ack_run_nat:
  assumes "sorted_wrt (<) L" "\<forall>i\<in>set L. s < i \<and> i < 2 ^ 64 - 1" "s + length L < 2 ^ 64" "b + length L < 2 ^ 64"
  shows "\<exists>m rest. ack_run (of_nat s) (of_nat b) (map (fr D) L) = (of_nat (s + m), of_nat (b + m), map (fr D) rest)
    \<and> L = [s + 1..<s + m + 1] @ rest \<and> (\<forall>i\<in>set rest. s + m + 1 < i)"
  using assms
proof (induction L arbitrary: s b)
  case Nil
  then show ?case by (auto intro!: exI[of _ 0] exI[of _ "[]"])
next
  case (Cons i L)
  show ?case
  proof (cases "i = Suc s")
    case True
    obtain m rest where m: "ack_run (of_nat (Suc s)) (of_nat (Suc b)) (map (fr D) L) = (of_nat (Suc s + m), of_nat (Suc b + m), map (fr D) rest)"
      "L = [Suc s + 1..<Suc s + m + 1] @ rest" "\<forall>i\<in>set rest. Suc s + m + 1 < i"
      using Cons.IH[of "Suc s" "Suc b"] Cons.prems True by fastforce
    have "ack_run (of_nat s) (of_nat b) (map (fr D) (i # L)) = ack_run (of_nat (Suc s)) (of_nat (Suc b)) (map (fr D) L)"
      by (simp add: True add.commute)
    moreover have "i # L = [s + 1..<s + Suc m + 1] @ rest"
      using m(2) True by (simp add: upt_conv_Cons del: upt_Suc)
    moreover have "Suc s + m = s + Suc m" "Suc b + m = b + Suc m" by simp_all
    ultimately show ?thesis
      using m(1,3) by (intro exI[of _ "Suc m"] exI[of _ rest]) (simp only: add_Suc add_Suc_right simp_thms)
  next
    case False
    then have "(of_nat i :: u64) \<noteq> of_nat (Suc s)"
      using Cons.prems by (subst word_le_of_nat(3)) auto
    then have "(of_nat i :: u64) \<noteq> of_nat s + 1" by (simp add: add.commute)
    moreover have "\<forall>x\<in>set (i # L). s + 1 < x" using Cons.prems False by fastforce
    ultimately show ?thesis by (intro exI[of _ 0] exI[of _ "i # L"]) simp
  qed
qed

lemma ack_losts_expand:
  assumes "sorted_wrt (<) L" "\<forall>i\<in>set L. s + 1 < i \<and> i + length L < 2 ^ 63"
  shows "expand s (map unat (ack_losts (of_nat s) (map (fr D) L))) = L"
  using assms
proof (induction "length L" arbitrary: L s rule: less_induct)
  case less
  show ?case
  proof (cases L)
    case (Cons i L1)
    have p: "i + length L < 2 ^ 63" "\<forall>x\<in>set L1. x + length L < 2 ^ 63" "s + 1 < i" "length L = Suc (length L1)"
      using less.prems Cons by simp_all
    have l: "sorted_wrt (<) L1" "\<forall>x\<in>set L1. i < x \<and> x < 2 ^ 64 - 1" "i + length L1 < 2 ^ 64" "0 + length L1 < 2 ^ 64"
      using less.prems(1) p Cons by fastforce+
    obtain m rest where m: "ack_run (of_nat i) (of_nat 0) (map (fr D) L1) = (of_nat (i + m), of_nat (0 + m), map (fr D) rest)"
      "L1 = [i + 1..<i + m + 1] @ rest" "\<forall>x\<in>set rest. i + m + 1 < x"
      using ack_run_nat[OF l, of D] by blast
    have ls: "length rest < length L" using m(2) Cons by simp
    have sr: "sorted_wrt (<) rest" using l(1) unfolding m(2) by (simp add: sorted_wrt_append)
    have br: "\<forall>x\<in>set rest. i + m + 1 < x \<and> x + length rest < 2 ^ 63"
    proof
      fix x assume x: "x \<in> set rest"
      then have "x \<in> set L1" using m(2) by simp
      then have "x + length L < 2 ^ 63" using p(2) by blast
      then show "i + m + 1 < x \<and> x + length rest < 2 ^ 63" using m(3) x ls by simp
    qed
    have ih: "expand (i + m) (map unat (ack_losts (of_nat (i + m)) (map (fr D) rest))) = rest"
      using less.hyps[OF ls sr br] .
    have s: "s + 1 < i" "i < 2 ^ 63" using p by simp_all
    then have sub: "(of_nat i :: u64) - of_nat s - 2 = of_nat (i - s - 2)" by (simp add: of_nat_diff)
    have u: "unat (of_nat (i - s - 2) :: u64) = i - s - 2" by (rule unat_of_nat_small) (use s in simp)
    have um: "unat (of_nat m :: u64) = m"
      using m(2) l(4) by (intro unat_of_nat_small) (simp del: upt_Suc)
    have a: "ack_losts (of_nat s) (map (fr D) L)
        = of_nat (i - s - 2) # of_nat m # ack_losts (of_nat (i + m)) (map (fr D) rest)"
      using sub m(1) Cons by simp
    have e: "s + (i - s - 2) + 2 = i" "s + (i - s - 2) + m + 3 = i + m + 1" "s + (i - s - 2) + m + 2 = i + m"
      using s by simp_all
    have "expand s (map unat (ack_losts (of_nat s) (map (fr D) L))) = [i..<i + m + 1] @ rest"
      unfolding a list.map u um expand.simps e ih ..
    then show ?thesis using m(2) Cons by (simp add: upt_conv_Cons del: upt_Suc)
  qed simp
qed

section \<open>Messages in fragments\<close>

text \<open>
  A message cut in pieces and the flags of each: all but the first continue a message, all but the
  last are continued.
\<close>

fun tail_pieces :: "bytes list \<Rightarrow> (u8 \<times> bytes) list" where
  "tail_pieces [] = []"
| "tail_pieces [p] = [(MESSAGE_WITH_BEFOREPART, p)]"
| "tail_pieces (p # ps) = (MESSAGE_WITH_BEFOREPART OR MESSAGE_WITH_AFTERPART, p) # tail_pieces ps"

fun pieces :: "bytes list \<Rightarrow> (u8 \<times> bytes) list" where
  "pieces [] = []"
| "pieces [p] = [(0, p)]"
| "pieces (p # ps) = (MESSAGE_WITH_AFTERPART, p) # tail_pieces ps"

fun take_in :: "nat \<Rightarrow> (u8 \<times> bytes) list \<Rightarrow> flow \<Rightarrow> flow \<times> flow_output list" where
  "take_in k [] f = (f, [])"
| "take_in k ((flags, p) # xs) f = (let (f, e) = onFragment (of_nat (Suc k)) flags p f; (f, es) = take_in (Suc k) xs f in (f, e @ es))"

lemma take_in_append:
  "take_in k (xs @ ys) f = (let (f, e) = take_in k xs f; (f, es) = take_in (k + length xs) ys f in (f, e @ es))"
  by (induction k xs f rule: take_in.induct) (auto split: prod.splits)

lemma in_order_take_in:
  assumes "\<And>i. i < length xs \<Longrightarrow> D (Suc i) = xs ! i" "k \<le> length xs"
  shows "in_order D k = take_in 0 (take k xs) new_flow"
  using assms(2)
proof (induction k)
  case (Suc k)
  have t: "take (Suc k) xs = take k xs @ [xs ! k]" using Suc.prems by (simp add: take_Suc_conv_app_nth)
  have l: "length (take k xs) = k" using Suc.prems by simp
  show ?case using Suc assms(1)[of k] unfolding t take_in_append l
    by (cases "xs ! k") (auto split: prod.splits)
qed simp

lemma take_tail_pieces:
  assumes "ps \<noteq> []" "fl_buffer f = Some b" "b @ concat ps \<noteq> []"
  shows "\<exists>g. take_in k (tail_pieces ps) f = (g, [(fl_lost f, b @ concat ps)]) \<and> fl_buffer g = None \<and> fl_lost g = 0"
  using assms
proof (induction ps arbitrary: k f b rule: tail_pieces.induct)
  case (3 p q qs)
  let ?f = "f\<lparr>fl_stage := of_nat (Suc k), fl_buffer := Some (b @ p)\<rparr>"
  have "onFragment (of_nat (Suc k)) (MESSAGE_WITH_BEFOREPART OR MESSAGE_WITH_AFTERPART) p f = (?f, [])"
    using "3.prems" by (simp add: onFragment_def message_flag_defs Let_def)
  then show ?case using "3.IH"[of ?f "b @ p" "Suc k"] "3.prems" by (auto simp del: of_nat_Suc)
qed (auto simp: onFragment_def fl_output_def message_flag_defs Let_def)

lemma take_pieces:
  assumes "ps \<noteq> []" "fl_buffer f = None" "concat ps \<noteq> []"
  shows "\<exists>g. take_in k (pieces ps) f = (g, [(fl_lost f, concat ps)]) \<and> fl_buffer g = None \<and> fl_lost g = 0"
proof (cases ps rule: pieces.cases)
  case (3 p q qs)
  have "onFragment (of_nat (Suc k)) MESSAGE_WITH_AFTERPART p f = (f\<lparr>fl_stage := of_nat (Suc k), fl_buffer := Some p\<rparr>, [])"
    using assms(2) by (simp add: onFragment_def message_flag_defs Let_def)
  then show ?thesis
    using take_tail_pieces[of "q # qs" "f\<lparr>fl_stage := of_nat (Suc k), fl_buffer := Some p\<rparr>" p "Suc k"] assms(3) 3
    by auto
qed (use assms in \<open>auto simp: onFragment_def fl_output_def message_flag_defs Let_def\<close>)

lemma take_messages:
  assumes "list_all (\<lambda>ps. concat ps \<noteq> []) mss" "fl_buffer f = None" "fl_lost f = 0"
  shows "snd (take_in k (concat (map pieces mss)) f) = map (\<lambda>ps. (0, concat ps)) mss"
  using assms
proof (induction mss arbitrary: k f)
  case (Cons ps mss)
  then have ne: "ps \<noteq> []" "concat ps \<noteq> []" by auto
  obtain g where g: "take_in k (pieces ps) f = (g, [(0, concat ps)])" "fl_buffer g = None" "fl_lost g = 0"
    using take_pieces[OF ne(1) Cons.prems(2) ne(2), of k] Cons.prems(3) by auto
  then show ?case using Cons.IH[OF _ g(2,3), of "k + length (pieces ps)"] Cons.prems(1)
    by (auto simp: take_in_append split: prod.splits)
qed simp

lemma pieces_flags: "x \<in> set (pieces ps) \<Longrightarrow> fst x AND MESSAGE_END = 0 \<and> fst x AND MESSAGE_ABANDON = 0"
  "x \<in> set (tail_pieces ps) \<Longrightarrow> fst x AND MESSAGE_END = 0 \<and> fst x AND MESSAGE_ABANDON = 0"
proof -
  show t: "x \<in> set (tail_pieces ps) \<Longrightarrow> fst x AND MESSAGE_END = 0 \<and> fst x AND MESSAGE_ABANDON = 0" for ps
    by (induction ps rule: tail_pieces.induct) (auto simp: message_flag_defs)
  show "x \<in> set (pieces ps) \<Longrightarrow> fst x AND MESSAGE_END = 0 \<and> fst x AND MESSAGE_ABANDON = 0"
    using t by (cases ps rule: pieces.cases) (auto simp: message_flag_defs)
qed

section \<open>Properties\<close>

text \<open>
  C3.  Messages cut in fragments of any sizes and received over UDP in any order, with any
  repetitions, are output exactly once each, whole and in the order sent, with no byte counted as
  lost; when all fragments have come nothing is kept.
\<close>

theorem flow_delivers:
  fixes mss :: "bytes list list"
  defines "xs \<equiv> concat (map pieces mss)"
  assumes "list_all (\<lambda>ps. concat ps \<noteq> []) mss" "length xs < 2 ^ 64 - 1"
    and "\<And>i. i < length xs \<Longrightarrow> D (Suc i) = xs ! i"
    and "set is = {1..length xs}"
  shows "\<exists>f. deliver D new_flow is = (f, map (\<lambda>ps. (0, concat ps)) mss)
    \<and> fl_fragments f = [] \<and> fl_fragmentation f = 0 \<and> fl_stage f = of_nat (length xs)"
proof -
  have plain: "\<forall>i\<in>set is. plain D i"
  proof
    fix i assume "i \<in> set is"
    then have "1 \<le> i" "i \<le> length xs" using assms(5) by auto
    then obtain m where i: "i = Suc m" "m < length xs" by (cases i) auto
    then have "D i \<in> set xs" using assms(4) by simp
    then obtain ps where "D i \<in> set (pieces ps)" by (auto simp: xs_def)
    then show "plain D i" using i assms(3) pieces_flags(1)[of "D i" ps] by (simp add: plain_def)
  qed
  have h: "holding D 0 [] = new_flow" by (simp add: holding_def new_flow_def)
  obtain j L es where d: "deliver D new_flow is = (holding D j L, es)" "set L = {m \<in> set is. j < m}"
      "{0<..j} \<subseteq> set is" "Suc j \<notin> set is" "es = snd (in_order D j)"
    using deliver_in_order[of "[]" "{}" 0 D "is"] plain unfolding h by auto
  have j: "j = length xs"
  proof (rule antisym)
    show "j \<le> length xs" using d(3) assms(5) by (cases j) (auto simp: subset_iff)
    show "length xs \<le> j" using d(4) assms(5) by auto
  qed
  then have "set L = {}" unfolding d(2) assms(5) by auto
  then have L: "L = []" by simp
  have "in_order D j = take_in 0 xs new_flow"
    using in_order_take_in[OF assms(4), of j] j by simp
  then have "es = map (\<lambda>ps. (0, concat ps)) mss"
    using d(5) take_messages[OF assms(2), of new_flow 0] by (simp add: xs_def new_flow_def)
  then show ?thesis using d(1) L j in_order_fields[of D j] by (auto simp: holding_def)
qed

text \<open>
  C28.  Whatever plain fragments of a flow have come, in any order and any of them again, the acknowledgement built tells the
  peer exactly which ones: those up to its cumulative stage and those its counts expand to.  A plain fragment has
  neither the flag of the end of the flow nor that of an abandon (an abandon is acknowledged with all the stages below it,
  received or not), and its stage with the number of fragments stays below \<open>2 ^ 63\<close>.
\<close>

theorem flow_ack_exact:
  assumes "\<forall>i\<in>set is. plain D i \<and> i + length is < 2 ^ 63"
  shows "(let (stage, losts, _) = fl_buildAck (fst (deliver D new_flow is))
    in set is = {1..unat stage} \<union> set (expand (unat stage) (map unat losts)))"
proof -
  have h: "holding D 0 [] = new_flow" by (simp add: holding_def new_flow_def)
  obtain j L es where d: "deliver D new_flow is = (holding D j L, es)" "set L = {m \<in> set is. j < m}"
      "{0<..j} \<subseteq> set is" "Suc j \<notin> set is" "sorted_wrt (<) L"
    using deliver_in_order[of "[]" "{}" 0 D "is"] assms unfolding h by auto
  have j: "j < 2 ^ 64"
  proof -
    have "j = 0 \<or> j \<in> set is" using d(3) by auto
    then show ?thesis using assms by (auto simp: plain_def)
  qed
  have "length L \<le> length is"
    using d(2,5) by (metis (no_types, lifting) card_length card_mono distinct_card finite_set le_trans mem_Collect_eq
        strict_sorted_iff subsetI)
  have "\<forall>i\<in>set L. j + 1 < i \<and> i + length L < 2 ^ 63"
  proof
    fix i assume "i \<in> set L"
    then have i: "i \<in> set is" "j < i" "i \<noteq> Suc j" using d(2,4) by auto
    then have "i + length is < 2 ^ 63" using assms by blast
    then show "j + 1 < i \<and> i + length L < 2 ^ 63" using i \<open>length L \<le> length is\<close> by simp
  qed
  then have e: "expand j (map unat (ack_losts (of_nat j) (map (fr D) L))) = L"
    by (rule ack_losts_expand[OF d(5)])
  have s: "fl_stage (holding D j L) = of_nat j" "fl_fragments (holding D j L) = map (fr D) L"
    using in_order_fields[of D j] by (simp_all add: holding_def)
  have pos: "i \<in> set is \<Longrightarrow> 0 < i" for i using assms by (auto simp: plain_def Suc_le_eq)
  have "set is = {1..j} \<union> set L"
  proof (intro equalityI subsetI)
    fix i assume "i \<in> set is"
    then show "i \<in> {1..j} \<union> set L" using pos[of i] d(2) by (cases "i \<le> j") simp_all
  next
    fix i assume "i \<in> {1..j} \<union> set L"
    then show "i \<in> set is"
    proof
      assume "i \<in> {1..j}"
      then have "i \<in> {0<..j}" by simp
      with d(3) show ?thesis by (rule subsetD)
    next
      assume "i \<in> set L"
      then show ?thesis unfolding d(2) by simp
    qed
  qed
  then show ?thesis using d(1) e s j by (simp add: fl_buildAck_def unat_of_nat_small Let_def)
qed

theorem flow_delivers_witness:
  "\<exists>f. deliver (\<lambda>i. [(MESSAGE_WITH_AFTERPART, [1]), (MESSAGE_WITH_BEFOREPART, [2]), (0, [3])] ! (i - 1))
      new_flow [3, 1, 1, 2] = (f, [(0, [1, 2]), (0, [3])])
    \<and> fl_fragments f = [] \<and> fl_fragmentation f = 0 \<and> fl_stage f = 3"
proof -
  let ?D = "\<lambda>i. [(MESSAGE_WITH_AFTERPART, [1]), (MESSAGE_WITH_BEFOREPART, [2]), (0, [3])] ! (i - 1) :: u8 \<times> bytes"
  let ?mss = "[[[1], [2]], [[3]]] :: bytes list list"
  have x: "concat (map pieces ?mss) = [(MESSAGE_WITH_AFTERPART, [1]), (MESSAGE_WITH_BEFOREPART, [2]), (0, [3])]"
    by simp
  have set: "set [3, 1, 1, 2 :: nat] = {1..length (concat (map pieces ?mss))}"
  proof -
    have "length (concat (map pieces ?mss)) = 3" unfolding x by simp
    then show ?thesis by (auto simp: le_Suc_eq)
  qed
  have "\<exists>f. deliver ?D new_flow [3, 1, 1, 2] = (f, map (\<lambda>ps. (0, concat ps)) ?mss)
    \<and> fl_fragments f = [] \<and> fl_fragmentation f = 0 \<and> fl_stage f = of_nat (length (concat (map pieces ?mss)))"
    by (rule flow_delivers[OF _ _ _ set]) (simp_all add: x)
  then show ?thesis by (simp add: x del: deliver.simps)
qed

theorem flow_ack_exact_witness:
  "(let (stage, losts, _) = fl_buildAck (fst (deliver (\<lambda>i. (0, [7])) new_flow [5, 1, 4]))
    in {1, 4, 5} = {1..unat stage} \<union> set (expand (unat stage) (map unat losts)))"
proof -
  have s: "set [5, 1, 4] = {1, 4, 5 :: nat}" by auto
  show ?thesis unfolding s[symmetric] by (rule flow_ack_exact) (simp add: plain_def)
qed

end
