(* ===== verification/RTMFP.thy ===== *)
theory RTMFP
  imports RTMFPFlow
begin

text \<open>
  RTMFP over UDP: packets and their encryption (\<open>RTMFP.cpp\<close>, with the checksum of \<open>Crypto.cpp\<close>),
  the exchange of group members, the receiver of a session (\<open>RTMFPReceiver.cpp\<close>) and the senders
  with their queue of packets (\<open>RTMFPSender.cpp\<close>).  AES in CBC mode is outside the sources and is a
  pair of functions.  Times are milliseconds.
\<close>

section \<open>Packets\<close>

definition TIMESTAMP_SCALE :: int where "TIMESTAMP_SCALE = 4"
definition SENDABLE_MAX :: nat where "SENDABLE_MAX = 6"
definition SIZE_HEADER :: nat where "SIZE_HEADER = 11"

definition rtmfp_time :: "int \<Rightarrow> u16" where
  "rtmfp_time ms = word_of_int (ms div TIMESTAMP_SCALE)"

text \<open>Six bytes are reserved in front for the id and the checksum.\<close>

definition InitBuffer :: "int \<Rightarrow> u8 \<Rightarrow> bytes" where
  "InitBuffer now marker = replicate 6 0 @ [marker] @ net16 (rtmfp_time now)"

definition InitBufferEcho :: "int \<Rightarrow> int \<Rightarrow> u8 \<Rightarrow> bytes" where
  "InitBufferEcho now initiatorTime marker =
     (if initiatorTime = 0 \<or> now - initiatorTime > 262140 then InitBuffer now marker
      else replicate 6 0 @ [marker + 4] @ net16 (rtmfp_time now) @ net16 (rtmfp_time (now - initiatorTime)))"

fun sum16 :: "bytes \<Rightarrow> u32" where
  "sum16 [] = 0"
| "sum16 [b] = ucast b"
| "sum16 (a # b # xs) = ucast (be [a, b] :: u16) + sum16 xs"

definition ComputeChecksum :: "bytes \<Rightarrow> u16" where
  "ComputeChecksum data =
     (let sum = sum16 data; sum = drop_bit 16 sum + (sum AND 0xFFFF); sum = sum + drop_bit 16 sum
      in ucast (NOT sum))"

definition engine_encode :: "(bytes \<Rightarrow> bytes) \<Rightarrow> u32 \<Rightarrow> bytes \<Rightarrow> bytes" where
  "engine_encode cbc farId buffer =
     (let n = (0xFFFFFFFF - of_nat (length buffer) + 5 :: u32) AND 0x0F;
          data = buffer @ replicate (unat n) 0xFF;
          data = overwrite 4 (net16 (ComputeChecksum (drop 6 data))) data;
          data = take 4 data @ cbc (drop 4 data);
          r = br_adv 4 (net_reader data); (x, r) = br_read32 r; (y, r) = br_read32 r
      in overwrite 0 (net32 (x XOR y XOR farId)) data)"

definition ReadID :: "bytes \<Rightarrow> u32 \<times> bytes" where
  "ReadID buffer =
     (let r = net_reader buffer; (x, r) = br_read32 r; (y, r) = br_read32 r; (z, r) = br_read32 r
      in (x XOR y XOR z, drop 4 buffer))"

definition engine_decode :: "(bytes \<Rightarrow> bytes) \<Rightarrow> bytes \<Rightarrow> bytes option" where
  "engine_decode cbc buffer =
     (let buffer = cbc buffer; (crc, r) = br_read16 (net_reader buffer)
      in if ComputeChecksum (br_rest r) \<noteq> crc then None else Some (drop 2 buffer))"

section \<open>Group exchange\<close>

text \<open>
  \<open>Group::exchange\<close> on the ring of members in key order, given by whether each has a writer;
  positions are returned in the order the members are sent the peer.  \<open>sz\<close> counts the members left
  to look at, \<open>count\<close> those left to send.
\<close>

fun left_side :: "bool list \<Rightarrow> nat \<Rightarrow> nat \<Rightarrow> nat \<Rightarrow> nat list \<times> nat" where
  "left_side members at 0 count = ([], 0)"
| "left_side members at (Suc sz) count =
     (let at = (if at = 0 then length members else at) - 1;
          (now, count) = (if members ! at then ([at], count - 1) else ([], count))
      in if sz \<noteq> 0 \<and> count \<noteq> 0 then (let (later, sz) = left_side members at sz count in (now @ later, sz)) else (now, sz))"

fun right_side :: "bool list \<Rightarrow> nat \<Rightarrow> nat \<Rightarrow> nat \<Rightarrow> nat list" where
  "right_side members at 0 count = []"
| "right_side members at (Suc sz) count =
     (let at = (if at = length members then 0 else at);
          (now, count) = (if members ! at then ([at], count - 1) else ([], count))
      in if sz \<noteq> 0 \<and> count \<noteq> 0 then now @ right_side members (at + 1) sz count else now)"

definition group_exchange :: "bool list \<Rightarrow> nat \<Rightarrow> nat list" where
  "group_exchange members lower =
     (if members = [] then []
      else (let (left, sz) = left_side members lower (length members) 3
            in if sz = 0 then left else left @ right_side members lower sz 3))"

section \<open>The receiver\<close>

record receiver =
  rr_flows :: "u64 \<Rightarrow> flow option"
  rr_buffer :: "bytes option"
  rr_died :: bool
  rr_initiatorTime :: int

datatype receiver_event =
    OnMessage u64 u32 bytes
  | Sent bytes
  | OnFlush int bool bool "u64 \<Rightarrow> bytes option"

text \<open>
  The variables of \<open>receive\<close>.  \<open>rl_mem\<close> is the memory the packet lies in: a message takes the size
  it announces, which nothing compares with the end of the packet.
\<close>

record receive_locals =
  rl_mem :: bytes
  rl_flow :: "u64 option"
  rl_flowId :: u64
  rl_stage :: u64
  rl_acks :: "u64 \<Rightarrow> bytes option"
  rl_keepalive :: bool
  rl_ping :: int

definition rr_write :: "int \<Rightarrow> u8 \<Rightarrow> u16 \<Rightarrow> bytes \<Rightarrow> receiver \<Rightarrow> receiver \<times> receiver_event list" where
  "rr_write now type sz body s =
     (let (s, es) = (case rr_buffer s of
            Some b \<Rightarrow> if unat sz > unat (of_nat SIZE_PACKET - of_nat (length b) :: u32)
                      then (s\<lparr>rr_buffer := None\<rparr>, [Sent b]) else (s, [])
          | None \<Rightarrow> (s, []));
          (s, b) = (case rr_buffer s of
            Some b \<Rightarrow> (s, b)
          | None \<Rightarrow> (s\<lparr>rr_initiatorTime := 0\<rparr>, InitBufferEcho now (rr_initiatorTime s) 0x4a))
      in (s\<lparr>rr_buffer := Some (b @ [type] @ net16 sz @ body)\<rparr>, es))"

text \<open>\<open>KILL\<close>: the session dies, the rest of the packet is skipped.\<close>

definition kill :: "int \<Rightarrow> receiver \<Rightarrow> receive_locals \<Rightarrow> receiver \<times> receive_locals" where
  "kill error s l = (s\<lparr>rr_buffer := None, rr_died := True\<rparr>, l\<lparr>rl_ping := error\<rparr>)"

text \<open>The count of lost stages of an acknowledgement in bits, up to the first bit set.\<close>

fun zeros :: "nat \<Rightarrow> u8 \<Rightarrow> nat \<times> bool" where
  "zeros 0 bits = (0, False)"
| "zeros (Suc n) bits = (if bits AND 1 \<noteq> 0 then (0, True) else (let (k, stop) = zeros n (drop_bit 1 bits) in (Suc k, stop)))"

fun lost_bits :: "bytes \<Rightarrow> nat" where
  "lost_bits [] = 0"
| "lost_bits (b # bs) = (let (k, stop) = zeros 8 b in if stop then k else k + lost_bits bs)"

definition message_ack :: "u8 \<Rightarrow> nat \<Rightarrow> nat \<Rightarrow> receiver \<Rightarrow> receive_locals \<Rightarrow> receiver \<times> receive_locals \<times> bool" where
  "message_ack type at sz s l =
     (let m = net_reader (take sz (drop at (rl_mem l)));
          (i, m) = br_read7Bit 10 m :: u64 \<times> breader; (bufferSize, m) = br_read7Bit 10 m :: u64 \<times> breader
      in if bufferSize \<noteq> 0
         then (if rl_acks l i = None \<or> rl_acks l i \<noteq> Some []
               then (if type = 0x50
                     then (let begin = br_position m; (_, m) = br_read7Bit 10 m :: u64 \<times> breader;
                               count = enc7Bit 9 (of_nat (lost_bits (br_rest m)) :: u64); stop = br_position m;
                               mem = overwrite (at + stop) count (rl_mem l)
                           in (s, l\<lparr>rl_mem := mem,
                                    rl_acks := (rl_acks l)(i \<mapsto> take (stop - begin + length count) (drop (at + begin) mem))\<rparr>, False))
                     else (s, l\<lparr>rl_acks := (rl_acks l)(i \<mapsto> br_rest m)\<rparr>, False))
               else (s, l, False))
         else if rl_acks l i \<noteq> Some []
         then (let (s, l) = kill 104 s l in (s, l, True))
         else (s, l, False))"

text \<open>
  A request, 0x10 with its header or 0x11 following one.  \<open>recv\<close> is the receive buffer size of the
  socket.
\<close>

definition message_request ::
  "int \<Rightarrow> nat \<Rightarrow> u8 \<Rightarrow> bytes \<Rightarrow> receiver \<Rightarrow> receive_locals \<Rightarrow> receiver \<times> receive_locals \<times> receiver_event list \<times> bool" where
  "message_request now recv type body s l =
     (let m = net_reader body; (flags, m) = br_read8 m;
          (s, l, es, m) =
            (if type = 0x10
             then (let (flowId, m) = br_read7Bit 10 m :: u64 \<times> breader; (stage, m) = br_read7Bit 10 m :: u64 \<times> breader;
                       (_, m) = br_read7Bit 10 m :: u64 \<times> breader; l = l\<lparr>rl_flowId := flowId, rl_stage := stage - 1\<rparr>
                   in if flags AND MESSAGE_OPTIONS \<noteq> 0
                      then (s\<lparr>rr_flows := (case rr_flows s flowId of Some _ \<Rightarrow> rr_flows s | None \<Rightarrow> (rr_flows s)(flowId \<mapsto> new_flow))\<rparr>,
                            l\<lparr>rl_flow := Some flowId\<rparr>, [], m)
                      else (case rr_flows s flowId of
                              Some _ \<Rightarrow> (s, l\<lparr>rl_flow := Some flowId\<rparr>, [], m)
                            | None \<Rightarrow> (let (s, es) = rr_write now 0x5e (of_nat (1 + Get7BitSize 10 flowId)) (enc7Bit 10 flowId @ [0]) s
                                       in (s, l, es, m))))
             else (s, l, [], m))
      in if type = 0x11 \<and> rl_stage l = 0 then (s, l, es, False)
         else
           let l = l\<lparr>rl_stage := rl_stage l + 1\<rparr>
           in case rl_flow l of
                None \<Rightarrow> (s, l, es, False)
              | Some i \<Rightarrow>
                  (case rr_flows s i of
                     None \<Rightarrow> (s, l, es, False)
                   | Some f \<Rightarrow>
                       let (f, outs) = fl_input (rl_stage l) flags (br_rest m) f;
                           s = s\<lparr>rr_flows := (rr_flows s)(i \<mapsto> f)\<rparr>;
                           es = es @ map (\<lambda>(lost, p). OnMessage i lost p) outs
                       in if unat (fl_fragmentation f) > recv
                          then (let (s, l) = kill (- 101) s l in (s, l, es, True)) else (s, l, es, False)))"

text \<open>One message; the flag of the result is the one of \<open>KILL\<close>.\<close>

definition rr_message ::
  "int \<Rightarrow> nat \<Rightarrow> u8 \<Rightarrow> nat \<Rightarrow> nat \<Rightarrow> receiver \<Rightarrow> receive_locals \<Rightarrow> receiver \<times> receive_locals \<times> receiver_event list \<times> bool" where
  "rr_message now recv type at sz s l =
     (let body = take sz (drop at (rl_mem l))
      in if type = 0x0c
         then (let b = InitBuffer now 0x4a @ net24 (push_bit 16 0x4c); (s, l) = kill 0 (s\<lparr>rr_buffer := None\<rparr>) l
               in (s, l, [Sent b], True))
         else if type = 0x4c then (let (s, l) = kill 0 s l in (s, l, [], True))
         else if type = 0x01 then (let (s, es) = rr_write now 0x41 0 [] s in (s, l, es, False))
         else if type = 0x41 then (s, l\<lparr>rl_keepalive := True\<rparr>, [], False)
         else if type = 0x5e
         then (let (i, _) = br_read7Bit 10 (net_reader body) :: u64 \<times> breader;
                   (s, es) = rr_write now 0x10 (of_nat (3 + Get7BitSize 10 i))
                               ([MESSAGE_ABANDON OR MESSAGE_END] @ enc7Bit 10 i @ net16 0) s
               in (s, l\<lparr>rl_acks := (rl_acks l)(i \<mapsto> [])\<rparr>, es, False))
         else if type = 0x18 then (let (s, l) = kill 104 s l in (s, l, [], True))
         else if type = 0x50 \<or> type = 0x51 then (let (s, l, k) = message_ack type at sz s l in (s, l, [], k))
         else if type = 0x10 \<or> type = 0x11 then message_request now recv type body s l
         else (s, l, [], False))"

text \<open>The commit of a flow behind its last message: its acknowledgement, and its end when consumed.\<close>

definition rr_commit :: "int \<Rightarrow> receiver \<Rightarrow> receive_locals \<Rightarrow> receiver \<times> receive_locals \<times> receiver_event list" where
  "rr_commit now s l =
     (case rl_flow l of
        Some i \<Rightarrow>
          (case rr_flows s i of
             None \<Rightarrow> (s, l\<lparr>rl_flow := None, rl_stage := 0\<rparr>, [])
           | Some f \<Rightarrow>
               let (stage, losts, n) = fl_buildAck f;
                   sz = of_nat (n + Get7BitSize 10 i + Get7BitSize 9 (0xFF7F :: u64) + Get7BitSize 10 stage);
                   (s, es) = rr_write now 0x51 sz
                     (enc7Bit 10 i @ enc7Bit 9 (0xFF7F :: u64) @ enc7Bit 10 stage @ concat (map (enc7Bit 10) losts)) s;
                   s = (if fl_consumed f then s\<lparr>rr_flows := (rr_flows s)(i := None)\<rparr> else s)
               in (s, l\<lparr>rl_flow := None, rl_stage := 0\<rparr>, es))
      | None \<Rightarrow>
          let (s, es) = rr_write now 0x51 (of_nat (1 + Get7BitSize 10 (rl_flowId l) + Get7BitSize 10 (rl_stage l)))
                (enc7Bit 10 (rl_flowId l) @ enc7Bit 9 (0 :: u64) @ enc7Bit 10 (rl_stage l)) s
          in (s, l\<lparr>rl_stage := 0\<rparr>, es))"

text \<open>
  The loop over the messages of a packet of \<open>stop\<close> bytes; \<open>at\<close> is the cursor behind the type just
  read, so that each turn moves it by three at least, or to the end.
\<close>

function rr_loop ::
  "int \<Rightarrow> nat \<Rightarrow> nat \<Rightarrow> u8 \<Rightarrow> nat \<Rightarrow> receiver \<Rightarrow> receive_locals \<Rightarrow> receiver \<times> receive_locals \<times> receiver_event list" where
  "rr_loop now recv stop type at s l =
     (if type = 0 \<or> type = 0xFF then (s, l, [])
      else
        let (sz, at1) = (if at + 2 \<le> stop then (unat (be (take 2 (drop at (rl_mem l))) :: u16), at + 2) else (0, stop));
            (s, l, es, killed) = rr_message now recv type at1 sz s l;
            at2 = (if killed then stop else min (at1 + sz) stop);
            (type, at3) = (if at2 < stop then (rl_mem l ! at2, at2 + 1) else (0, stop));
            (s, l, es') = (if rl_stage l \<noteq> 0 \<and> type \<noteq> 0x11 then rr_commit now s l else (s, l, []))
        in if at3 \<le> at \<or> type = 0 then (s, l, es @ es')
           else (let (s, l, es'') = rr_loop now recv stop type at3 s l in (s, l, es @ es' @ es'')))"
  by pat_completeness auto
termination
  by (relation "measure (\<lambda>(now, recv, stop, type, at, s, l). stop - at)") (auto split: if_splits)

declare rr_loop.simps [simp del]

text \<open>The end of \<open>receive\<close>, from the first message of a decrypted packet lying in front of \<open>slack\<close>.\<close>

definition rr_messages ::
  "int \<Rightarrow> nat \<Rightarrow> bytes \<Rightarrow> bytes \<Rightarrow> nat \<Rightarrow> int \<Rightarrow> receiver \<Rightarrow> receiver \<times> receiver_event list" where
  "rr_messages now recv packet slack at ping s =
     (let l = \<lparr>rl_mem = packet @ slack, rl_flow = None, rl_flowId = 0, rl_stage = 0, rl_acks = (\<lambda>_. None),
               rl_keepalive = False, rl_ping = ping\<rparr>;
          stop = length packet;
          (type, at) = (if at < stop then (packet ! at, at + 1) else (0, stop));
          (s, l, es) = rr_loop now recv stop type at s l;
          (s, es') = (case rr_buffer s of Some b \<Rightarrow> (s\<lparr>rr_buffer := None\<rparr>, [Sent b]) | None \<Rightarrow> (s, []))
      in (s, es @ es' @ [OnFlush (rl_ping l) (rl_keepalive l) (rr_died s) (rl_acks l)]))"

section \<open>Encryption and identification\<close>

lemma padding_aligned:
  assumes "length buffer < 2 ^ 31"
  shows "(length buffer + unat ((0xFFFFFFFF - of_nat (length buffer) + 5 :: u32) AND 0x0F)) mod 16 = 4"
proof -
  let ?k = "length buffer" and ?n = "of_nat (length buffer) :: u32"
  have m: "(0x0F :: u32) = mask 4" by (simp add: mask_eq_exp_minus_1)
  have "(0xFFFFFFFF :: u32) + 5 = 4" by simp
  then have e: "0xFFFFFFFF - ?n + 5 = 4 - ?n" by (metis add.commute add_diff_eq)
  have n: "uint ?n = int ?k" using assms by (simp add: unsigned_of_nat take_bit_nat_eq_self)
  have "uint ((0xFFFFFFFF - ?n + 5) AND 0x0F) = take_bit 4 (uint (4 - ?n))"
    unfolding m e by (simp add: take_bit_eq_mask[symmetric] unsigned_take_bit_eq)
  also have "uint (4 - ?n) = take_bit 32 (4 - int ?k)"
    by (simp add: uint_word_ariths take_bit_eq_mod n)
  finally have u: "uint ((0xFFFFFFFF - ?n + 5) AND 0x0F) = (4 - int ?k) mod 16"
    by (simp add: take_bit_eq_mod mod_mod_cancel)
  have "int ((?k + unat ((0xFFFFFFFF - ?n + 5) AND 0x0F)) mod 16) = (int ?k + uint ((0xFFFFFFFF - ?n + 5) AND 0x0F)) mod 16"
    by (simp add: zmod_int)
  also have "\<dots> = 4" unfolding u by (simp add: mod_simps)
  finally show ?thesis by linarith
qed

definition padding :: "bytes \<Rightarrow> bytes" where
  "padding buffer = replicate (unat ((0xFFFFFFFF - of_nat (length buffer) + 5 :: u32) AND 0x0F)) 0xFF"

lemma length_padding: "length (padding buffer) < 16"
proof -
  have m: "(0x0F :: u32) = mask 4" by (simp add: mask_eq_exp_minus_1)
  have "unat (w AND mask 4 :: u32) < 16" for w
    unfolding take_bit_eq_mask[symmetric] unsigned_take_bit_eq take_bit_nat_def by simp
  then show ?thesis unfolding padding_def m length_replicate .
qed

text \<open>What is encrypted: the checksum and the content with its padding.\<close>

definition plaintext :: "bytes \<Rightarrow> bytes" where
  "plaintext buffer = net16 (ComputeChecksum (drop 6 (buffer @ padding buffer))) @ drop 6 (buffer @ padding buffer)"

lemma plaintext_aligned:
  assumes "6 \<le> length buffer" "length buffer < 2 ^ 31"
  shows "16 dvd length (plaintext buffer)" "16 \<le> length (plaintext buffer)"
proof -
  let ?n = "length buffer + length (padding buffer)"
  have l: "length (plaintext buffer) = ?n - 4"
    using assms(1) by (simp add: plaintext_def)
  have "?n mod 16 = 4"
    using padding_aligned[OF assms(2)] by (simp add: padding_def)
  then have m: "length (plaintext buffer) = 16 * (?n div 16)"
    unfolding l using minus_mod_eq_mult_div[of ?n 16] by simp
  then show d: "16 dvd length (plaintext buffer)" by simp
  have "0 < length (plaintext buffer)" unfolding l using assms(1) by simp
  with d show "16 \<le> length (plaintext buffer)" by (rule dvd_imp_le)
qed

lemma engine_encode_eq:
  assumes "6 \<le> length buffer" "16 \<le> length (cbc (plaintext buffer))"
  shows "engine_encode cbc farId buffer =
    net32 (be (take 4 (cbc (plaintext buffer))) XOR be (take 4 (drop 4 (cbc (plaintext buffer)))) XOR farId) @ cbc (plaintext buffer)"
proof -
  let ?C = "cbc (plaintext buffer)" and ?data = "buffer @ padding buffer"
  have o: "overwrite 4 (net16 c) ?data = take 4 buffer @ net16 c @ drop 6 ?data" for c
    using assms(1) by (simp add: overwrite_def)
  let ?d = "take 4 buffer @ ?C"
  have l: "length (take 4 buffer) = 4" using assms(1) by simp
  have "4 \<le> length ?C - 4" using assms(2) by linarith
  have r: "br_read32 (br_adv 4 (net_reader ?d)) = (be (take 4 ?C), br_adv 8 (net_reader ?d))"
    "br_read32 (br_adv 8 (net_reader ?d)) = (be (take 4 (drop 4 ?C)), br_adv 12 (net_reader ?d))"
    using assms l \<open>4 \<le> length ?C - 4\<close> by (simp_all add: br_read32_net)
  define c where "c = ComputeChecksum (drop 6 ?data)"
  have t: "take 4 (overwrite 4 (net16 c) ?data) = take 4 buffer" "drop 4 (overwrite 4 (net16 c) ?data) = plaintext buffer"
    unfolding o plaintext_def c_def[symmetric] using l by simp_all
  have "engine_encode cbc farId buffer = (let r = br_adv 4 (net_reader ?d); (x, r) = br_read32 r; (y, r) = br_read32 r
      in overwrite 0 (net32 (x XOR y XOR farId)) ?d)"
    unfolding engine_encode_def Let_def padding_def[symmetric] c_def[symmetric] t ..
  then show ?thesis using r l by (simp add: overwrite_def)
qed

text \<open>
  C15.  A packet encoded for a session is identified and decoded by the receiver: \<open>ReadID\<close> gives the
  far id and the decoding the content of the packet, followed by less than 16 padding bytes 0xFF that
  the receiver takes for the end of the messages.
\<close>

theorem rtmfp_engine_roundtrip:
  assumes "\<And>x. 16 dvd length x \<Longrightarrow> length (enc x) = length x \<and> dec (enc x) = x"
    and "6 \<le> length buffer" "length buffer < 2 ^ 31"
  shows "let (i, rest) = ReadID (engine_encode enc farId buffer)
    in i = farId \<and> (\<exists>n < 16. engine_decode dec rest = Some (drop 6 buffer @ replicate n 0xFF))"
proof -
  let ?C = "enc (plaintext buffer)"
  have c: "length ?C = length (plaintext buffer)" "dec ?C = plaintext buffer" "16 \<le> length ?C"
    using assms(1) plaintext_aligned[OF assms(2,3)] by auto
  have "4 \<le> length ?C - 4" using c(3) by linarith
  define k where "k = be (take 4 ?C) XOR be (take 4 (drop 4 ?C)) XOR farId"
  have e: "engine_encode enc farId buffer = net32 k @ ?C"
    using engine_encode_eq[OF assms(2)] c(3) by (simp add: k_def)
  have b: "be (take 4 (net32 k)) = k" using c32.dec_net_reader[of k "[]"] by (simp add: net_be be_be_bytes take_bit_word_eq_self)
  have "ReadID (net32 k @ ?C) = (k XOR be (take 4 ?C) XOR be (take 4 (drop 4 ?C)), ?C)"
    using c(3) b \<open>4 \<le> length ?C - 4\<close> by (simp add: ReadID_def br_read32_net)
  moreover have "k XOR be (take 4 ?C) XOR be (take 4 (drop 4 ?C)) = farId"
    unfolding k_def by (simp add: xor.assoc xor.left_commute)
  moreover have "engine_decode dec ?C = Some (drop 6 (buffer @ padding buffer))"
    using c(2) by (simp add: engine_decode_def plaintext_def c16.dec_net_reader)
  moreover have "length (padding buffer) < 16" by (rule length_padding)
  ultimately show ?thesis
    unfolding e using assms(2) by (auto simp: padding_def)
qed

theorem rtmfp_engine_roundtrip_witness:
  "let (i, rest) = ReadID (engine_encode rev 77 [0, 0, 0, 0, 0, 0, 0x4a, 1, 2])
    in i = 77 \<and> (\<exists>n < 16. engine_decode rev rest = Some ([0x4a, 1, 2] @ replicate n 0xFF))"
  using rtmfp_engine_roundtrip[of rev rev "[0, 0, 0, 0, 0, 0, 0x4a, 1, 2]" 77] by simp


section \<open>The members an arrival is announced to\<close>

lemma left_side_ring:
  assumes "n = length ms" "0 < n" "at \<le> n" "sz \<le> n" "left_side ms at sz count = (ps, sz')"
  shows "\<exists>m. sz = m + sz' \<and> ps = filter (\<lambda>i. ms ! i) (map (\<lambda>j. (at + n - 1 - j) mod n) [0..<m]) \<and> length ps \<le> max 1 count"
  using assms
proof (induction sz arbitrary: at count ps sz')
  case 0
  then show ?case by auto
next
  case (Suc sz)
  let ?at = "(if at = 0 then n else at) - 1"
  have at: "?at = (at + n - 1) mod n" "?at < n"
    using Suc.prems(2,3) by (auto simp: mod_if)
  define now c where "now = (if ms ! ?at then [?at] else [])" and "c = (if ms ! ?at then count - 1 else count)"
  show ?case
  proof (cases "sz \<noteq> 0 \<and> c \<noteq> 0")
    case False
    then have "ps = now" "sz' = sz"
      using Suc.prems(1,5) by (auto simp: now_def c_def Let_def split: if_splits)
    then show ?thesis using at by (intro exI[of _ 1]) (auto simp: now_def)
  next
    case True
    obtain later sz2 where l: "left_side ms ?at sz c = (later, sz2)" by fastforce
    have r: "ps = now @ later" "sz' = sz2"
      using True l Suc.prems(1,5) by (auto simp: now_def c_def Let_def split: if_splits)
    obtain m where m: "sz = m + sz2" "later = filter (\<lambda>i. ms ! i) (map (\<lambda>j. (?at + n - 1 - j) mod n) [0..<m])"
        "length later \<le> max 1 c"
      using Suc.IH[OF Suc.prems(1,2) _ _ l] at(2) Suc.prems(4) by auto
    have shift: "(?at + n - 1 - j) mod n = (at + n - 1 - Suc j) mod n" if "j < m" for j
    proof (cases "at = 0")
      case True
      have "j < n" using that m(1) Suc.prems(4) by simp
      then have "?at + n - 1 - j = (at + n - 1 - Suc j) + n \<or> (j = n - 1)" using True by auto
      then show ?thesis
      proof
        assume "j = n - 1"
        then show ?thesis using that m(1) Suc.prems(4) by simp
      qed simp
    next
      case False
      then have "?at + n - 1 - j = at + n - 1 - Suc j" by simp
      then show ?thesis by simp
    qed
    have "map (\<lambda>j. (at + n - 1 - j) mod n) [0..<Suc m] = (at + n - 1) mod n # map (\<lambda>j. (?at + n - 1 - j) mod n) [0..<m]"
      using shift by (simp add: upt_conv_Cons map_Suc_upt[symmetric] comp_def del: upt_Suc)
    then have "ps = filter (\<lambda>i. ms ! i) (map (\<lambda>j. (at + n - 1 - j) mod n) [0..<Suc m])"
      using r(1) m(2) at(1) by (simp add: now_def)
    moreover have "length ps \<le> max 1 count" using r(1) m(3) True by (auto simp: now_def c_def)
    ultimately show ?thesis using m(1) r(2) by (intro exI[of _ "Suc m"]) simp
  qed
qed

lemma right_side_ring:
  assumes "n = length ms" "0 < n" "at \<le> n" "sz \<le> n" "right_side ms at sz count = ps"
  shows "\<exists>m \<le> sz. ps = filter (\<lambda>i. ms ! i) (map (\<lambda>j. (at + j) mod n) [0..<m]) \<and> length ps \<le> max 1 count"
  using assms
proof (induction sz arbitrary: at count ps)
  case 0
  then show ?case by auto
next
  case (Suc sz)
  let ?at = "if at = n then 0 else at"
  have at: "?at = at mod n" "?at < n" using Suc.prems(2,3) by auto
  define now c where "now = (if ms ! ?at then [?at] else [])" and "c = (if ms ! ?at then count - 1 else count)"
  show ?case
  proof (cases "sz \<noteq> 0 \<and> c \<noteq> 0")
    case False
    then have "ps = now" using Suc.prems(1,5) by (auto simp: now_def c_def Let_def split: if_splits)
    then show ?thesis using at by (intro exI[of _ 1]) (auto simp: now_def)
  next
    case True
    have r: "ps = now @ right_side ms (?at + 1) sz c"
      using True Suc.prems(1,5) by (auto simp: now_def c_def Let_def split: if_splits)
    obtain m where m: "m \<le> sz" "right_side ms (?at + 1) sz c = filter (\<lambda>i. ms ! i) (map (\<lambda>j. (?at + 1 + j) mod n) [0..<m])"
        "length (right_side ms (?at + 1) sz c) \<le> max 1 c"
      using Suc.IH[OF Suc.prems(1,2) _ _ refl, of "?at + 1" c] at(2) Suc.prems(4) by auto
    have "map (\<lambda>j. (at + j) mod n) [0..<Suc m] = at mod n # map (\<lambda>j. (?at + 1 + j) mod n) [0..<m]"
    proof -
      have "(at + Suc j) mod n = (?at + 1 + j) mod n" for j
        by (cases "at = n") (simp_all del: add_Suc_right, simp)
      then show ?thesis by (simp only: upt_conv_Cons map_Suc_upt[symmetric] zero_less_Suc list.map list.map_comp comp_def add_0_right)
    qed
    then have "ps = filter (\<lambda>i. ms ! i) (map (\<lambda>j. (at + j) mod n) [0..<Suc m])"
      using r m(2) at(1) by (simp add: now_def)
    moreover have "length ps \<le> max 1 count" using r m(3) True by (auto simp: now_def c_def)
    ultimately show ?thesis using m(1) by (intro exI[of _ "Suc m"]) simp
  qed
qed

lemma inj_mod_interval: "b - a \<le> n \<Longrightarrow> inj_on (\<lambda>x. x mod n) {a..<b :: nat}"
proof (rule inj_onI)
  fix x y assume n: "b - a \<le> n" and xy: "x \<in> {a..<b}" "y \<in> {a..<b}" "x mod n = y mod n"
  have "x = y" if "x \<le> y" "x mod n = y mod n" "x \<in> {a..<b}" "y \<in> {a..<b}" for x y
  proof -
    have "n dvd y - x" using that(1,2) mod_eq_dvd_iff_nat by metis
    moreover have "y - x < n" using that(3,4) n by auto
    ultimately show ?thesis using that(1) by (auto dest: dvd_imp_le)
  qed
  then show "x = y" using xy by (metis nat_le_linear)
qed

text \<open>
  C34.  A new member of a group is announced to at most six members, each in the group, alive, and
  none twice, whatever their number and wherever its id falls among theirs.
\<close>

theorem group_exchange_members:
  assumes "lower \<le> length members"
  shows "distinct (group_exchange members lower) \<and> length (group_exchange members lower) \<le> 6
    \<and> (\<forall>i\<in>set (group_exchange members lower). i < length members \<and> members ! i)"
proof (cases "members = []")
  case False
  let ?n = "length members"
  have n: "0 < ?n" using False by simp
  obtain ps sz where l: "left_side members lower ?n 3 = (ps, sz)" by fastforce
  obtain m where m: "?n = m + sz" "ps = filter (\<lambda>i. members ! i) (map (\<lambda>j. (lower + ?n - 1 - j) mod ?n) [0..<m])" "length ps \<le> 3"
    using left_side_ring[OF refl n assms order_refl l] by auto
  define qs where "qs = (if sz = 0 then [] else right_side members lower sz 3)"
  obtain k where k: "k \<le> sz" "qs = filter (\<lambda>i. members ! i) (map (\<lambda>j. (lower + j) mod ?n) [0..<k])" "length qs \<le> 3"
  proof (cases "sz = 0")
    case True
    then show ?thesis using that[of 0] by (simp add: qs_def)
  next
    case False
    have "sz \<le> ?n" using m(1) by simp
    then show ?thesis using right_side_ring[OF refl n assms _ refl, of sz 3] that False by (auto simp: qs_def)
  qed
  have g: "group_exchange members lower = ps @ qs" using False l by (simp add: group_exchange_def qs_def)
  define pos where "pos = map (\<lambda>j. lower + ?n - 1 - j) [0..<m] @ map (\<lambda>j. lower + ?n + j) [0..<k]"
  have gs: "ps @ qs = filter (\<lambda>i. members ! i) (map (\<lambda>x. x mod ?n) pos)"
  proof -
    have "(lower + ?n + j) mod ?n = (lower + j) mod ?n" for j
      using mod_add_self2[of "lower + j" ?n] by (simp add: add_ac)
    then show ?thesis unfolding m(2) k(2) pos_def map_append filter_append list.map_comp comp_def by simp
  qed
  have sub: "set pos \<subseteq> {lower + ?n - m..<lower + ?n + k}"
    using m(1) by (auto simp: pos_def)
  have "distinct pos" using m(1) by (auto simp: pos_def distinct_map inj_on_def)
  moreover have "inj_on (\<lambda>x. x mod ?n) (set pos)"
    by (rule inj_on_subset[OF inj_mod_interval sub]) (use m(1) k(1) in auto)
  ultimately have "distinct (ps @ qs)" unfolding gs by (intro distinct_filter) (simp add: distinct_map)
  moreover have "\<forall>i\<in>set (ps @ qs). i < ?n \<and> members ! i" unfolding gs using n by auto
  ultimately show ?thesis using m(3) k(3) unfolding g by simp
qed (simp add: group_exchange_def)

theorem group_exchange_members_witness:
  "distinct (group_exchange [True, False, True, True] 1) \<and> length (group_exchange [True, False, True, True] 1) \<le> 6"
  using group_exchange_members[of 1 "[True, False, True, True]"] by simp

end
