(* ===== verification/RTMFPSend.thy ===== *)
theory RTMFPSend
  imports RTMFP
begin

text \<open>
  \<open>RTMFPSender.cpp\<close>: the queue of packets of a writer and the runners that fill it (\<open>RTMFPMessenger\<close>),
  send it, acknowledge it (\<open>RTMFPAcquiter\<close>) and repeat it (\<open>RTMFPRepeater\<close>).  A packet of the
  queue is what \<open>Engine::encode\<close> made of the buffer of the messenger, with its padding and checksum, encrypted
  by \<open>cbc\<close> for the session \<open>farId\<close>.  Sockets accept or refuse a packet as an argument says.
\<close>

section \<open>The queue\<close>

record out_packet =
  pk_data :: bytes
  pk_fragments :: u32
  pk_reliable :: bool
  pk_sizeSent :: nat

definition set_sent :: "out_packet \<Rightarrow> out_packet" where
  "set_sent p = (if pk_sizeSent p \<noteq> 0 then p
     else (let p = p\<lparr>pk_sizeSent := length (pk_data p)\<rparr> in if pk_reliable p then p else p\<lparr>pk_data := []\<rparr>))"

record out_queue =
  q_id :: u64
  q_flowId :: u64
  q_signature :: bytes
  q_stage :: u64
  q_stageSending :: u64
  q_stageAck :: u64
  q_packets :: "out_packet list"
  q_sending :: "out_packet list"

definition new_queue :: "u64 \<Rightarrow> u64 \<Rightarrow> bytes \<Rightarrow> out_queue" where
  "new_queue i flowId signature = \<lparr>q_id = i, q_flowId = flowId, q_signature = signature, q_stage = 0,
     q_stageSending = 0, q_stageAck = 0, q_packets = [], q_sending = []\<rparr>"

text \<open>\<open>RTMFPSender::run\<close> behind the runner itself; \<open>accepts\<close> is the answer of the socket for a packet.\<close>

function flush_queue ::
  "(bytes \<Rightarrow> bool) \<Rightarrow> nat \<Rightarrow> out_queue \<Rightarrow> nat \<times> out_queue \<times> bytes list" where
  "flush_queue accepts sendable q =
     (case q_packets q of
        [] \<Rightarrow> (sendable, q, [])
      | p # ps \<Rightarrow>
          if sendable = 0 then (sendable, q, [])
          else if \<not> accepts (pk_data p) then (0, q, [])
          else (let (n, q', out) = flush_queue accepts (sendable - 1)
                      (q\<lparr>q_packets := ps, q_sending := q_sending q @ [set_sent p],
                         q_stageSending := q_stageSending q + ucast (pk_fragments p)\<rparr>)
                in (n, q', pk_data p # out)))"
  by pat_completeness auto
termination
  by (relation "measure (\<lambda>(a, n, q). length (q_packets q))") auto

declare flush_queue.simps [simp del]

text \<open>\<open>RTMFPAcquiter\<close>: the flag tells that something was acknowledged, which resets \<open>sendable\<close>.\<close>

function acquit_loop :: "u64 \<Rightarrow> out_queue \<Rightarrow> out_queue \<times> bool" where
  "acquit_loop stageAck q =
     (case q_sending q of
        [] \<Rightarrow> (q, False)
      | p # ps \<Rightarrow>
          if stageAck > q_stageAck q
          then (fst (acquit_loop stageAck (q\<lparr>q_stageAck := q_stageAck q + ucast (pk_fragments p), q_sending := ps\<rparr>)), True)
          else (q, False))"
  by pat_completeness auto
termination
  by (relation "measure (\<lambda>(a, q). length (q_sending q))") auto

declare acquit_loop.simps [simp del]

definition acquit :: "u64 \<Rightarrow> nat \<Rightarrow> out_queue \<Rightarrow> nat \<times> out_queue" where
  "acquit stageAck sendable q =
     (let stageAck = (if stageAck > q_stageSending q then q_stageSending q else stageAck);
          (q, progressed) = acquit_loop stageAck q
      in (if progressed then SENDABLE_MAX else sendable, q))"

text \<open>\<open>RTMFPRepeater\<close>: what is sent again, the reliable packets and the abandons of the others.\<close>

datatype repeated = Again bytes | Abandon u64

definition abandon_bytes :: "(bytes \<Rightarrow> bytes) \<Rightarrow> u32 \<Rightarrow> int \<Rightarrow> int \<Rightarrow> out_queue \<Rightarrow> u64 \<Rightarrow> bytes" where
  "abandon_bytes cbc farId now initiatorTime q stage = engine_encode cbc farId (InitBufferEcho now initiatorTime 0x4a @ [0x10]
     @ net16 (of_nat (2 + Get7BitSize 10 (q_id q) + Get7BitSize 10 stage))
     @ [MESSAGE_ABANDON] @ enc7Bit 10 (q_id q) @ enc7Bit 10 stage @ [0])"

fun repeat_loop ::
  "(bytes \<Rightarrow> bool) \<Rightarrow> out_packet list \<Rightarrow> u64 \<Rightarrow> bool \<Rightarrow> u64 \<Rightarrow> nat \<Rightarrow> u32 \<Rightarrow> repeated list \<times> bool" where
  "repeat_loop accepts [] stage oneReliable abandonStage sendable fragments =
     (if abandonStage \<noteq> 0 then [Abandon abandonStage] else [], True)"
| "repeat_loop accepts (p # ps) stage oneReliable abandonStage sendable fragments =
     (let stage = stage + ucast (pk_fragments p);
          stop = (\<lambda>a. if a \<noteq> 0 then [Abandon a] else [])
      in if pk_reliable p
         then (let first = stop abandonStage
               in if \<not> accepts (pk_data p) then (first, False)
                  else if sendable - 1 = 0 then (first @ [Again (pk_data p)], True)
                  else if fragments \<noteq> 0 \<and> pk_fragments p \<ge> fragments then (first @ [Again (pk_data p)], True)
                  else (let (out, ok) = repeat_loop accepts ps stage True 0 (sendable - 1)
                                (if fragments \<noteq> 0 then fragments - pk_fragments p else 0)
                        in (first @ Again (pk_data p) # out, ok)))
         else (let abandonStage = (if oneReliable then abandonStage else stage)
               in if fragments \<noteq> 0 \<and> pk_fragments p \<ge> fragments then (stop abandonStage, True)
                  else repeat_loop accepts ps stage oneReliable abandonStage sendable
                         (if fragments \<noteq> 0 then fragments - pk_fragments p else 0)))"

definition repeat_queue :: "(bytes \<Rightarrow> bool) \<Rightarrow> u32 \<Rightarrow> nat \<Rightarrow> out_queue \<Rightarrow> nat \<times> repeated list" where
  "repeat_queue accepts fragments sendable q =
     (let (out, ok) = repeat_loop accepts (q_sending q) (q_stageAck q) False 0 SENDABLE_MAX fragments
      in (if ok then sendable else 0, out))"

section \<open>The messenger\<close>

definition messenger_header :: "out_queue \<Rightarrow> nat" where
  "messenger_header q =
     Get7BitSize 10 (q_id q) + Get7BitSize 10 (q_stage q) + Get7BitSize 10 (q_stage q - q_stageAck q)
     + (if q_stageAck q \<noteq> 0 then 0
        else length (q_signature q) + (if q_flowId q \<noteq> 0 then 4 + Get7BitSize 10 (q_flowId q) else 2))"

definition messenger_header_bytes :: "out_queue \<Rightarrow> bytes" where
  "messenger_header_bytes q =
     enc7Bit 10 (q_id q) @ enc7Bit 10 (q_stage q) @ enc7Bit 10 (q_stage q - q_stageAck q)
     @ (if q_stageAck q \<noteq> 0 then []
        else [of_nat (length (q_signature q))] @ q_signature q
          @ (if q_flowId q \<noteq> 0
             then [of_nat (1 + Get7BitSize 10 (q_flowId q)), 0x0a] @ enc7Bit 10 (q_flowId q) else [])
          @ [0])"

record messenger =
  ms_queue :: out_queue
  ms_buffer :: "bytes option"
  ms_fragments :: u32
  ms_flags :: u8

definition messenger_flush :: "(bytes \<Rightarrow> bytes) \<Rightarrow> u32 \<Rightarrow> messenger \<Rightarrow> messenger" where
  "messenger_flush cbc farId m =
     (case ms_buffer m of
        None \<Rightarrow> m
      | Some b \<Rightarrow>
          m\<lparr>ms_queue := (ms_queue m)\<lparr>q_packets := q_packets (ms_queue m)
              @ [\<lparr>pk_data = engine_encode cbc farId b, pk_fragments = ms_fragments m, pk_reliable = (ms_flags m AND MESSAGE_RELIABLE \<noteq> 0),
                  pk_sizeSent = 0\<rparr>]\<rparr>,
            ms_buffer := None\<rparr>)"

definition messenger_start :: "(nat \<Rightarrow> int \<times> int) \<Rightarrow> nat \<Rightarrow> bytes" where
  "messenger_start clock k = InitBufferEcho (fst (clock k)) (snd (clock k)) 0x4a"

text \<open>
  The place of the next fragment: in the packet under construction, or in a new one when its header
  and sixteen bytes do not fit or the reliability changes.  \<open>n\<close> is the size of what is left of the
  message, \<open>header\<close> tells that a 0x10 header is due, and \<open>clock k\<close> the time and the time of the initiator
  when the packet that follows \<open>k\<close> others in the queue is opened.  Returned are the size of the header, whether it is a
  0x10 one, and the size of the content.
\<close>

definition messenger_room ::
  "(bytes \<Rightarrow> bytes) \<Rightarrow> u32 \<Rightarrow> (nat \<Rightarrow> int \<times> int) \<Rightarrow> bool \<Rightarrow> bool \<Rightarrow> nat \<Rightarrow> messenger \<Rightarrow> messenger \<times> nat \<times> bool \<times> nat" where
  "messenger_room cbc farId clock reliable header n m =
     (let headerSize = SIZE_HEADER + 4 + (if header then messenger_header (ms_queue m) else 0);
          availableToWrite = SIZE_PACKET - (case ms_buffer m of Some b \<Rightarrow> length b | None \<Rightarrow> 0)
      in if ms_buffer m = None \<or> headerSize + 16 > availableToWrite
            \<or> reliable \<noteq> (ms_flags m AND MESSAGE_RELIABLE \<noteq> 0)
         then (let m = messenger_flush cbc farId m;
                   headerSize = (if header then headerSize else headerSize + messenger_header (ms_queue m))
               in (m\<lparr>ms_buffer := Some (messenger_start clock (length (q_packets (ms_queue m)))), ms_fragments := 1\<rparr>, headerSize, True,
                   if headerSize + n > SIZE_PACKET then SIZE_PACKET - headerSize else n))
         else (m\<lparr>ms_fragments := ms_fragments m + 1\<rparr>, headerSize, header,
               if headerSize + n > availableToWrite then availableToWrite - headerSize else n))"

text \<open>
  One turn of the loop of \<open>RTMFPMessenger::run\<close> for a message with the bytes \<open>body\<close> left (the
  writer's bytes and the packet, whose copy in two parts the code does by hand).  Returned are the
  bytes left then.
\<close>

definition messenger_turn :: "(bytes \<Rightarrow> bytes) \<Rightarrow> u32 \<Rightarrow> (nat \<Rightarrow> int \<times> int) \<Rightarrow> bool \<Rightarrow> bool \<Rightarrow> bytes \<Rightarrow> messenger \<Rightarrow> bytes \<times> messenger" where
  "messenger_turn cbc farId clock reliable header body m =
     (let m = m\<lparr>ms_queue := (ms_queue m)\<lparr>q_stage := q_stage (ms_queue m) + 1\<rparr>\<rparr>;
          (m, headerSize, header, contentSize) = messenger_room cbc farId clock reliable header (length body) m;
          content = take contentSize body; rest = drop contentSize body;
          flags = (if contentSize \<noteq> 0
                   then (if ms_flags m AND MESSAGE_WITH_AFTERPART \<noteq> 0 then MESSAGE_WITH_BEFOREPART else 0)
                        OR (if q_stageAck (ms_queue m) = 0 \<and> header then MESSAGE_OPTIONS else 0)
                        OR (if rest \<noteq> [] then MESSAGE_WITH_AFTERPART else 0)
                   else MESSAGE_ABANDON OR MESSAGE_END);
          bytes = [if header then 0x10 else 0x11] @ net16 (of_nat (headerSize - SIZE_HEADER - 3 + contentSize)) @ [flags]
            @ (if header then messenger_header_bytes (ms_queue m) else []) @ content
      in (rest, m\<lparr>ms_flags := (if reliable then flags OR MESSAGE_RELIABLE else flags),
                  ms_buffer := map_option (\<lambda>b. b @ bytes) (ms_buffer m)\<rparr>))"

text \<open>
  The loop over one message; \<open>None\<close> is a loop that makes no progress (a header as large as the
  packet).
\<close>

fun messenger_message :: "nat \<Rightarrow> (bytes \<Rightarrow> bytes) \<Rightarrow> u32 \<Rightarrow> (nat \<Rightarrow> int \<times> int) \<Rightarrow> bool \<Rightarrow> bool \<Rightarrow> bytes \<Rightarrow> messenger \<Rightarrow> messenger option" where
  "messenger_message 0 cbc farId clock reliable header body m = None"
| "messenger_message (Suc fuel) cbc farId clock reliable header body m =
     (let (rest, m) = messenger_turn cbc farId clock reliable header body m
      in if rest = [] then Some m else messenger_message fuel cbc farId clock reliable False rest m)"

text \<open>The messages of a messenger; the fuel of each is its size and one turn.\<close>

fun messenger_messages :: "(bytes \<Rightarrow> bytes) \<Rightarrow> u32 \<Rightarrow> (nat \<Rightarrow> int \<times> int) \<Rightarrow> (bool \<times> bytes) list \<Rightarrow> messenger \<Rightarrow> messenger option" where
  "messenger_messages cbc farId clock [] m = Some m"
| "messenger_messages cbc farId clock ((reliable, body) # ms) m =
     (case messenger_message (length body + 1) cbc farId clock reliable (ms_buffer m = None) body m of
        None \<Rightarrow> None
      | Some m \<Rightarrow> messenger_messages cbc farId clock ms m)"

definition messenger_run :: "(bytes \<Rightarrow> bytes) \<Rightarrow> u32 \<Rightarrow> (nat \<Rightarrow> int \<times> int) \<Rightarrow> (bool \<times> bytes) list \<Rightarrow> out_queue \<Rightarrow> out_queue option" where
  "messenger_run cbc farId clock messages q =
     map_option (\<lambda>m. ms_queue (messenger_flush cbc farId m))
       (messenger_messages cbc farId clock messages \<lparr>ms_queue = q, ms_buffer = None, ms_fragments = 0, ms_flags = 0\<rparr>)"

section \<open>Sizes and stages\<close>

lemma size7_loop_le: "size7_loop n r v \<le> max r n"
  by (induction n r v rule: size7_loop.induct) (subst size7_loop.simps, auto simp: Let_def)

lemma Get7BitSize_le: "Get7BitSize 10 (v :: u64) \<le> 10"
  using size7_loop_le[of 10 1 v] by (simp add: Get7BitSize_def)

lemma messenger_header_le: "messenger_header q \<le> length (q_signature q) + 44"
  using Get7BitSize_le[of "q_id q"] Get7BitSize_le[of "q_stage q"] Get7BitSize_le[of "q_stage q - q_stageAck q"]
    Get7BitSize_le[of "q_flowId q"]
  by (simp add: messenger_header_def)

lemma length_messenger_header_bytes: "length (messenger_header_bytes q) = messenger_header q"
  by (simp add: messenger_header_def messenger_header_bytes_def Get7BitSize_enc7Bit)

definition staged :: "out_packet list \<Rightarrow> u64" where
  "staged ps = sum_list (map (\<lambda>p. ucast (pk_fragments p)) ps)"

lemma staged_simps [simp]: "staged [] = 0" "staged (p # ps) = ucast (pk_fragments p) + staged ps"
  "staged (ps @ qs) = staged ps + staged qs"
  by (simp_all add: staged_def)

text \<open>The counters account for the packets not yet sent and for those sent and not acknowledged.\<close>

definition queue_inv :: "out_queue \<Rightarrow> bool" where
  "queue_inv q \<longleftrightarrow> q_stageSending q = q_stageAck q + staged (q_sending q)
     \<and> q_stage q = q_stageSending q + staged (q_packets q)"

lemma pk_fragments_set_sent [simp]: "pk_fragments (set_sent p) = pk_fragments p"
  by (simp add: set_sent_def Let_def)

lemma queue_inv_flush: "queue_inv q \<Longrightarrow> flush_queue accepts n q = (n', q', out) \<Longrightarrow> queue_inv q'"
proof (induction accepts n q arbitrary: n' q' out rule: flush_queue.induct)
  case (1 accepts n q)
  show ?case
  proof (cases "q_packets q")
    case Nil
    then show ?thesis using "1.prems" by (simp add: flush_queue.simps)
  next
    case (Cons p ps)
    then show ?thesis using "1.prems" "1.IH"[OF Cons] Cons
      by (auto simp: flush_queue.simps[of accepts n q] queue_inv_def add_ac split: if_splits prod.splits)
  qed
qed

lemma queue_inv_acquit_loop: "queue_inv q \<Longrightarrow> queue_inv (fst (acquit_loop a q))"
proof (induction a q rule: acquit_loop.induct)
  case (1 a q)
  show ?case
  proof (cases "q_sending q")
    case Nil
    then show ?thesis using "1.prems" by (simp add: acquit_loop.simps)
  next
    case (Cons p ps)
    then show ?thesis using "1.prems" "1.IH"[OF Cons]
      by (auto simp: acquit_loop.simps[of a q] queue_inv_def add_ac)
  qed
qed

text \<open>
  What a queue holds: a packet that waits is the encoding of a buffer within the RTMFP size; one that was sent is
  still this encoding if it is reliable, and is released otherwise.
\<close>

definition encoded :: "(bytes \<Rightarrow> bytes) \<Rightarrow> u32 \<Rightarrow> bytes \<Rightarrow> bool" where
  "encoded cbc farId data \<longleftrightarrow>
     (\<exists>buffer. 9 \<le> length buffer \<and> length buffer \<le> SIZE_PACKET \<and> data = engine_encode cbc farId buffer)"

definition packets_ok :: "(bytes \<Rightarrow> bytes) \<Rightarrow> u32 \<Rightarrow> out_queue \<Rightarrow> bool" where
  "packets_ok cbc farId q \<longleftrightarrow>
     (\<forall>p\<in>set (q_packets q). encoded cbc farId (pk_data p) \<and> pk_sizeSent p = 0)
     \<and> (\<forall>p\<in>set (q_sending q). if pk_reliable p then encoded cbc farId (pk_data p) else pk_data p = [])"

lemma length_messenger_start: "9 \<le> length (messenger_start clock k) \<and> length (messenger_start clock k) \<le> SIZE_HEADER"
  by (simp add: messenger_start_def InitBufferEcho_def InitBuffer_def SIZE_HEADER_def)

lemma encoded_nonempty: "encoded cbc farId data \<Longrightarrow> data \<noteq> []"
proof -
  have "engine_encode cbc farId buffer \<noteq> []" for buffer
    unfolding engine_encode_def Let_def case_prod_beta overwrite_def by (simp add: length_0_conv [symmetric] del: length_0_conv)
  then show "encoded cbc farId data \<Longrightarrow> data \<noteq> []" by (auto simp: encoded_def)
qed

lemma length_engine_encode:
  assumes "6 \<le> length buffer" "length buffer < 2 ^ 31" "\<And>x. 16 dvd length x \<Longrightarrow> length (cbc x) = length x"
  shows "length (engine_encode cbc farId buffer) = length buffer + length (padding buffer)"
proof -
  have "length (cbc (plaintext buffer)) = length (plaintext buffer)" "16 \<le> length (plaintext buffer)"
    using plaintext_aligned[OF assms(1,2)] assms(3) by auto
  then show ?thesis using engine_encode_eq[of buffer cbc farId] assms(1) by (simp add: plaintext_def)
qed

lemma length_encoded:
  assumes "encoded cbc farId data" "\<And>x. 16 dvd length x \<Longrightarrow> length (cbc x) = length x"
  shows "length data \<le> SIZE_PACKET + 12"
proof -
  obtain buffer where b: "9 \<le> length buffer" "length buffer \<le> SIZE_PACKET" "data = engine_encode cbc farId buffer"
    using assms(1) by (auto simp: encoded_def)
  then have small: "length buffer < 2 ^ 31" by (simp add: SIZE_PACKET_def)
  have "length data mod 16 = 4" "length data < length buffer + 16"
    using b length_engine_encode[of buffer cbc farId] small assms(2) padding_aligned[OF small] length_padding[of buffer]
    by (auto simp: padding_def)
  moreover from this obtain k where "length data = 16 * k + 4" by (metis mult_div_mod_eq)
  ultimately show ?thesis using b(2) unfolding SIZE_PACKET_def by presburger
qed

lemma packets_ok_new:
  "packets_ok cbc farId (q\<lparr>q_packets := q_packets q @ [\<lparr>pk_data = engine_encode cbc farId b, pk_fragments = f, pk_reliable = r, pk_sizeSent = 0\<rparr>]\<rparr>)"
  if "packets_ok cbc farId q" "9 \<le> length b" "length b \<le> SIZE_PACKET"
  using that by (auto simp: packets_ok_def encoded_def)

lemma packets_ok_new_stage:
  "packets_ok cbc farId (q\<lparr>q_stage := n, q_packets := q_packets q @ [\<lparr>pk_data = engine_encode cbc farId b, pk_fragments = f, pk_reliable = r, pk_sizeSent = 0\<rparr>]\<rparr>)"
  if "packets_ok cbc farId q" "9 \<le> length b" "length b \<le> SIZE_PACKET"
  using that by (auto simp: packets_ok_def encoded_def)

lemma packets_ok_stage [simp]: "packets_ok cbc farId (q\<lparr>q_stage := n\<rparr>) = packets_ok cbc farId q"
  by (simp add: packets_ok_def)

definition messenger_inv :: "(bytes \<Rightarrow> bytes) \<Rightarrow> u32 \<Rightarrow> messenger \<Rightarrow> bool" where
  "messenger_inv cbc farId m \<longleftrightarrow> length (q_signature (ms_queue m)) \<le> 1000
     \<and> packets_ok cbc farId (ms_queue m)
     \<and> q_stageSending (ms_queue m) = q_stageAck (ms_queue m) + staged (q_sending (ms_queue m))
     \<and> (case ms_buffer m of
          None \<Rightarrow> q_stage (ms_queue m) = q_stageSending (ms_queue m) + staged (q_packets (ms_queue m))
        | Some b \<Rightarrow> 9 \<le> length b \<and> length b \<le> SIZE_PACKET \<and> 4 * unat (ms_fragments m) \<le> length b
            \<and> q_stage (ms_queue m) = q_stageSending (ms_queue m) + staged (q_packets (ms_queue m)) + ucast (ms_fragments m))"

lemma messenger_inv_flush: "messenger_inv cbc farId m \<Longrightarrow> messenger_inv cbc farId (messenger_flush cbc farId m)"
  by (auto simp: messenger_inv_def messenger_flush_def packets_ok_new split: option.splits)

lemma ucast_Suc_small:
  assumes "unat (f :: u32) < 2 ^ 32 - 1"
  shows "(ucast (f + 1) :: u64) = ucast f + 1" "unat (f + 1) = unat f + 1"
proof -
  show u: "unat (f + 1) = unat f + 1" using assms by (simp add: unat_word_ariths)
  have "unat (ucast f + 1 :: u64) = unat f + 1" using assms by (simp add: unat_word_ariths unsigned_ucast_eq take_bit_nat_eq_self)
  then show "(ucast (f + 1) :: u64) = ucast f + 1"
    using u assms by (simp add: word_unat_eq_iff unsigned_ucast_eq take_bit_nat_eq_self)
qed

text \<open>What the place of a fragment guarantees.\<close>

definition roomy :: "(bytes \<Rightarrow> bytes) \<Rightarrow> u32 \<Rightarrow> messenger \<Rightarrow> nat \<Rightarrow> bool \<Rightarrow> nat \<Rightarrow> nat \<Rightarrow> bool" where
  "roomy cbc farId m hs header k n \<longleftrightarrow> length (q_signature (ms_queue m)) \<le> 1000
     \<and> packets_ok cbc farId (ms_queue m)
     \<and> q_stageSending (ms_queue m) = q_stageAck (ms_queue m) + staged (q_sending (ms_queue m))
     \<and> hs = SIZE_HEADER + 4 + (if header then messenger_header (ms_queue m) else 0)
     \<and> k \<le> n \<and> (n \<noteq> 0 \<longrightarrow> k \<noteq> 0)
     \<and> (\<exists>b. ms_buffer m = Some b \<and> 9 \<le> length b \<and> length b + (hs - SIZE_HEADER) + k \<le> SIZE_PACKET
          \<and> 4 * unat (ms_fragments m) \<le> length b + 4
          \<and> q_stage (ms_queue m) = q_stageSending (ms_queue m) + staged (q_packets (ms_queue m)) + ucast (ms_fragments m))"

lemma messenger_header_flush [simp]: "messenger_header (ms_queue (messenger_flush cbc farId m)) = messenger_header (ms_queue m)"
  by (simp add: messenger_header_def messenger_flush_def split: option.splits)

lemma messenger_room_new:
  assumes inv: "messenger_inv cbc farId m"
    and m0: "m0 = m\<lparr>ms_queue := (ms_queue m)\<lparr>q_stage := q_stage (ms_queue m) + 1\<rparr>\<rparr>"
    and hs: "hs = SIZE_HEADER + 4 + messenger_header (ms_queue m0)"
    and m': "m' = (messenger_flush cbc farId m0)\<lparr>ms_buffer := Some (messenger_start clock i), ms_fragments := 1\<rparr>"
  shows "roomy cbc farId m' hs True (if hs + n > SIZE_PACKET then SIZE_PACKET - hs else n) n"
proof -
  have sig: "length (q_signature (ms_queue m0)) \<le> 1000" using inv by (simp add: m0 messenger_inv_def)
  then have "hs \<le> 1059" using messenger_header_le[of "ms_queue m0"] by (simp add: hs SIZE_HEADER_def)
  moreover have "messenger_header (ms_queue m') = messenger_header (ms_queue m0)"
    by (simp add: m')
  moreover have "q_stage (ms_queue m') = q_stageSending (ms_queue m') + staged (q_packets (ms_queue m')) + 1"
    using inv by (auto simp: m' m0 messenger_flush_def messenger_inv_def packets_ok_new_stage split: option.splits)
  moreover have "length (q_signature (ms_queue m')) \<le> 1000"
    "packets_ok cbc farId (ms_queue m')"
    "q_stageSending (ms_queue m') = q_stageAck (ms_queue m') + staged (q_sending (ms_queue m'))"
    using inv by (auto simp: m' m0 messenger_flush_def messenger_inv_def packets_ok_new_stage split: option.splits)
  ultimately show ?thesis
    using length_messenger_start[of clock i] by (auto simp: roomy_def m' hs SIZE_PACKET_def SIZE_HEADER_def)
qed

lemma messenger_room_inv:
  assumes inv: "messenger_inv cbc farId m"
    and r: "messenger_room cbc farId clock reliable header n (m\<lparr>ms_queue := (ms_queue m)\<lparr>q_stage := q_stage (ms_queue m) + 1\<rparr>\<rparr>)
      = (m', hs, header', k)"
  shows "roomy cbc farId m' hs header' k n"
proof -
  define m0 where "m0 = m\<lparr>ms_queue := (ms_queue m)\<lparr>q_stage := q_stage (ms_queue m) + 1\<rparr>\<rparr>"
  define h0 where "h0 = SIZE_HEADER + 4 + (if header then messenger_header (ms_queue m0) else 0)"
  define avail where "avail = SIZE_PACKET - (case ms_buffer m0 of Some b \<Rightarrow> length b | None \<Rightarrow> 0)"
  show ?thesis
  proof (cases "ms_buffer m0 = None \<or> h0 + 16 > avail \<or> reliable \<noteq> (ms_flags m0 AND MESSAGE_RELIABLE \<noteq> 0)")
    case True
    have "messenger_room cbc farId clock reliable header n m0 =
        ((messenger_flush cbc farId m0)\<lparr>ms_buffer := Some (messenger_start clock (length (q_packets (ms_queue (messenger_flush cbc farId m0))))), ms_fragments := 1\<rparr>,
         SIZE_HEADER + 4 + messenger_header (ms_queue m0), True,
         if SIZE_HEADER + 4 + messenger_header (ms_queue m0) + n > SIZE_PACKET
         then SIZE_PACKET - (SIZE_HEADER + 4 + messenger_header (ms_queue m0)) else n)"
      using True unfolding messenger_room_def Let_def h0_def[symmetric] avail_def[symmetric] by (simp add: h0_def)
    then show ?thesis
      using messenger_room_new[OF inv m0_def refl refl, where i = "length (q_packets (ms_queue (messenger_flush cbc farId m0)))" and n = n] r
      unfolding m0_def[symmetric] by simp
  next
    case False
    then obtain b where b: "ms_buffer m0 = Some b" by auto
    have e: "m' = m0\<lparr>ms_fragments := ms_fragments m0 + 1\<rparr>" "hs = h0" "header' = header"
        "k = (if h0 + n > avail then avail - h0 else n)"
      using False r unfolding m0_def[symmetric] messenger_room_def Let_def h0_def[symmetric] avail_def[symmetric] by auto
    have nine: "9 \<le> length b" using inv b by (simp add: messenger_inv_def m0_def)
    have i: "length b \<le> SIZE_PACKET" "4 * unat (ms_fragments m) \<le> length b"
      "q_stage (ms_queue m0) = q_stageSending (ms_queue m0) + staged (q_packets (ms_queue m0)) + ucast (ms_fragments m) + 1"
      using inv b by (auto simp: messenger_inv_def m0_def)
    have "unat (ms_fragments m) < 2 ^ 32 - 1" using i(1,2) by (simp add: SIZE_PACKET_def)
    note f = ucast_Suc_small[OF this]
    have a: "h0 + 16 \<le> avail" "avail = SIZE_PACKET - length b" using False b by (simp_all add: avail_def)
    have k: "k \<le> n" "n \<noteq> 0 \<longrightarrow> k \<noteq> 0" "h0 + k \<le> avail" using e(4) a(1) by (auto split: if_splits)
    have "length b + (h0 - SIZE_HEADER) + k \<le> SIZE_PACKET" using k(3) a i(1) by linarith
    moreover have "messenger_header (ms_queue m') = messenger_header (ms_queue m0)" by (simp add: e(1))
    moreover have "4 * unat (ms_fragments m') \<le> length b + 4" "ms_buffer m' = Some b"
      "q_stage (ms_queue m') = q_stageSending (ms_queue m') + staged (q_packets (ms_queue m')) + ucast (ms_fragments m')"
      using i(2,3) f b by (simp_all add: e(1)) (simp_all add: m0_def)
    moreover have "length (q_signature (ms_queue m')) \<le> 1000"
      "packets_ok cbc farId (ms_queue m')"
      "q_stageSending (ms_queue m') = q_stageAck (ms_queue m') + staged (q_sending (ms_queue m'))"
      using inv by (simp_all add: e(1) m0_def messenger_inv_def)
    ultimately show ?thesis
      using k(1,2) nine unfolding roomy_def e(2,3) by (simp add: h0_def)
  qed
qed

lemma messenger_turn_inv:
  assumes inv: "messenger_inv cbc farId m"
    and t: "messenger_turn cbc farId clock reliable header body m = (rest, m')"
  shows "messenger_inv cbc farId m' \<and> (body \<noteq> [] \<longrightarrow> length rest < length body) \<and> ms_buffer m' \<noteq> None"
proof -
  obtain m1 hs h k where r: "messenger_room cbc farId clock reliable header (length body)
      (m\<lparr>ms_queue := (ms_queue m)\<lparr>q_stage := q_stage (ms_queue m) + 1\<rparr>\<rparr>) = (m1, hs, h, k)" by (metis prod_cases4)
  note room = messenger_room_inv[OF inv r, unfolded roomy_def]
  obtain b where b: "ms_buffer m1 = Some b" using room by blast
  have rest: "rest = drop k body" using t by (simp add: messenger_turn_def r Let_def)
  obtain flags bytes where m': "m' = m1\<lparr>ms_flags := flags, ms_buffer := Some (b @ bytes)\<rparr>"
    and l: "length bytes = hs - SIZE_HEADER + k"
  proof
    show "m' = m1\<lparr>ms_flags := ms_flags m', ms_buffer := Some (b @ (drop (length b) (the (ms_buffer m'))))\<rparr>"
      using t b by (auto simp: messenger_turn_def r Let_def)
    show "length (drop (length b) (the (ms_buffer m'))) = hs - SIZE_HEADER + k"
      using t b room by (auto simp: messenger_turn_def r Let_def length_messenger_header_bytes)
  qed
  have "4 \<le> length bytes" using l room by (auto split: if_splits)
  then show ?thesis
    using room b unfolding m' rest messenger_inv_def by (auto simp: l)
qed

lemma messenger_message_inv:
  assumes "messenger_inv cbc farId m" "length body < fuel"
  shows "\<exists>m'. messenger_message fuel cbc farId clock reliable header body m = Some m' \<and> messenger_inv cbc farId m'"
  using assms
proof (induction fuel arbitrary: header body m)
  case (Suc fuel)
  obtain rest m1 where t: "messenger_turn cbc farId clock reliable header body m = (rest, m1)" by fastforce
  note i = messenger_turn_inv[OF Suc.prems(1) t]
  show ?case
  proof (cases "rest = []")
    case False
    then have "length rest < fuel" using i Suc.prems(2) t
      by (cases "body = []") (auto simp: messenger_turn_def Let_def split: prod.splits)
    then show ?thesis using Suc.IH[of m1 rest False] i t False by simp
  qed (use i t in simp)
qed simp

lemma messenger_messages_inv:
  assumes "messenger_inv cbc farId m"
  shows "\<exists>m'. messenger_messages cbc farId clock ms m = Some m' \<and> messenger_inv cbc farId m'"
  using assms(1)
proof (induction ms arbitrary: m)
  case (Cons x ms)
  obtain r body where x: "x = (r, body)" by fastforce
  obtain m1 where "messenger_message (length body + 1) cbc farId clock r (ms_buffer m = None) body m = Some m1" "messenger_inv cbc farId m1"
    using messenger_message_inv[OF Cons.prems, of body "length body + 1"] by (metis less_add_one)
  then show ?case using Cons.IH[of m1] x by simp
qed simp

lemma messenger_run_inv:
  assumes "queue_inv q" "length (q_signature q) \<le> 1000" "packets_ok cbc farId q"
  shows "\<exists>q'. messenger_run cbc farId clock ms q = Some q' \<and> queue_inv q' \<and> length (q_signature q') \<le> 1000
    \<and> packets_ok cbc farId q'"
proof -
  let ?m = "\<lparr>ms_queue = q, ms_buffer = None, ms_fragments = 0, ms_flags = 0\<rparr>"
  have "messenger_inv cbc farId ?m" using assms by (auto simp: messenger_inv_def queue_inv_def)
  then obtain m' where m': "messenger_messages cbc farId clock ms ?m = Some m'" "messenger_inv cbc farId m'"
    using messenger_messages_inv by blast
  then have "messenger_inv cbc farId (messenger_flush cbc farId m')" "ms_buffer (messenger_flush cbc farId m') = None"
    by (simp_all add: messenger_inv_flush) (simp add: messenger_flush_def split: option.splits)
  then show ?thesis using m'(1) by (auto simp: messenger_run_def messenger_inv_def queue_inv_def)
qed

text \<open>The life of a queue of a session that encodes by \<open>cbc\<close> for \<open>farId\<close>: the runners in any order.\<close>

inductive queue_step :: "(bytes \<Rightarrow> bytes) \<Rightarrow> u32 \<Rightarrow> out_queue \<Rightarrow> out_queue \<Rightarrow> bool" for cbc farId where
  message: "messenger_run cbc farId clock ms q = Some q' \<Longrightarrow> queue_step cbc farId q q'"
| send: "flush_queue accepts n q = (n', q', out) \<Longrightarrow> queue_step cbc farId q q'"
| acknowledge: "acquit a n q = (n', q') \<Longrightarrow> queue_step cbc farId q q'"

inductive_cases queue_stepE: "queue_step cbc farId q q'"

inductive queue_reachable :: "(bytes \<Rightarrow> bytes) \<Rightarrow> u32 \<Rightarrow> out_queue \<Rightarrow> bool" for cbc farId where
  created: "length signature \<le> 1000 \<Longrightarrow> queue_reachable cbc farId (new_queue i flowId signature)"
| stepped: "queue_reachable cbc farId q \<Longrightarrow> queue_step cbc farId q q' \<Longrightarrow> queue_reachable cbc farId q'"

definition queue_ok :: "(bytes \<Rightarrow> bytes) \<Rightarrow> u32 \<Rightarrow> out_queue \<Rightarrow> bool" where
  "queue_ok cbc farId q \<longleftrightarrow> queue_inv q \<and> length (q_signature q) \<le> 1000 \<and> packets_ok cbc farId q"

lemma flush_queue_keeps:
  "flush_queue accepts n q = (n', q', out) \<Longrightarrow> packets_ok cbc farId q \<Longrightarrow>
     q_signature q' = q_signature q \<and> packets_ok cbc farId q'"
proof (induction accepts n q arbitrary: n' q' out rule: flush_queue.induct)
  case (1 accepts n q)
  show ?case
  proof (cases "q_packets q")
    case Nil
    then show ?thesis using "1.prems" by (simp add: flush_queue.simps)
  next
    case (Cons p ps)
    have "packets_ok cbc farId (q\<lparr>q_packets := ps, q_sending := q_sending q @ [set_sent p], q_stageSending := x\<rparr>)" for x
      using "1.prems"(2) Cons by (auto simp: packets_ok_def set_sent_def Let_def)
    note sent = this
    show ?thesis
    proof (cases "n = 0 \<or> \<not> accepts (pk_data p)")
      case True
      then have "q' = q" using "1.prems" Cons by (simp add: flush_queue.simps[of accepts n q] split: if_splits)
      then show ?thesis using "1.prems" by simp
    next
      case False
      obtain n1 q1 out1 where rec: "flush_queue accepts (n - 1) (q\<lparr>q_packets := ps, q_sending := q_sending q @ [set_sent p],
          q_stageSending := q_stageSending q + ucast (pk_fragments p)\<rparr>) = (n1, q1, out1)" by (metis prod_cases3)
      then have "q' = q1" using "1.prems"(1) Cons False by (simp add: flush_queue.simps[of accepts n q])
      then show ?thesis using "1.IH"[OF Cons _ _ rec sent] False by simp
    qed
  qed
qed

lemma acquit_loop_keeps:
  "q_signature (fst (acquit_loop a q)) = q_signature q \<and> q_packets (fst (acquit_loop a q)) = q_packets q"
proof (induction a q rule: acquit_loop.induct)
  case (1 a q)
  then show ?case by (cases "q_sending q") (auto simp: acquit_loop.simps[of a q])
qed

lemma acquit_loop_sending: "set (q_sending (fst (acquit_loop a q))) \<subseteq> set (q_sending q)"
proof (induction a q rule: acquit_loop.induct)
  case (1 a q)
  show ?case
  proof (cases "q_sending q")
    case (Cons p ps)
    then show ?thesis using "1.IH"[OF Cons] by (cases "a > q_stageAck q") (auto simp: acquit_loop.simps[of a q])
  qed (simp add: acquit_loop.simps[of a q])
qed

lemma queue_ok_acquit:
  assumes "queue_ok cbc farId q"
  shows "queue_ok cbc farId (snd (acquit a n q))"
proof -
  have "queue_ok cbc farId (fst (acquit_loop b q))" for b
    using assms acquit_loop_keeps[of b q] acquit_loop_sending[of b q] queue_inv_acquit_loop[of q b] by (auto simp: queue_ok_def packets_ok_def)
  then show ?thesis by (simp add: acquit_def Let_def split: prod.splits) (metis fst_conv)
qed

lemma queue_ok_step: "queue_step cbc farId q q' \<Longrightarrow> queue_ok cbc farId q \<Longrightarrow> queue_ok cbc farId q'"
proof (erule queue_stepE)
  fix clock ms assume "messenger_run cbc farId clock ms q = Some q'" "queue_ok cbc farId q"
  then show "queue_ok cbc farId q'" using messenger_run_inv[of q cbc farId clock ms] by (auto simp: queue_ok_def)
next
  fix accepts n n' out assume "flush_queue accepts n q = (n', q', out)" "queue_ok cbc farId q"
  then show "queue_ok cbc farId q'" using flush_queue_keeps[of accepts n q] queue_inv_flush[of q accepts n]
    by (fastforce simp: queue_ok_def)
next
  fix a n n' assume "acquit a n q = (n', q')" "queue_ok cbc farId q"
  then show "queue_ok cbc farId q'" using queue_ok_acquit[of cbc farId q a n] by simp
qed

lemma queue_reachable_ok: "queue_reachable cbc farId q \<Longrightarrow> queue_ok cbc farId q"
proof (induction rule: queue_reachable.induct)
  case (created signature i flowId)
  then show ?case by (simp add: queue_ok_def queue_inv_def packets_ok_def new_queue_def)
next
  case (stepped q q')
  then show ?case using queue_ok_step by blast
qed

section \<open>Properties\<close>

text \<open>
  C9.  Whatever messages are written, sent, refused by the socket and acknowledged, in any order, the
  three stages of a queue account exactly for its packets: the stage sending is the stage
  acknowledged and the fragments of the packets sent and not acknowledged, the stage is the stage
  sending and the fragments of the packets waiting.  Each packet that waits is the encoding for the session of a
  buffer of at most 1192 bytes, its size with the padding at most 1204, and what is kept of a packet sent is such
  an encoding when it is reliable and nothing when it is not.  The cipher keeps the size of whole blocks, the
  signature has at most 1000 bytes.
\<close>

theorem queue_accounts:
  assumes "queue_reachable cbc farId q" "\<And>x. 16 dvd length x \<Longrightarrow> length (cbc x) = length x"
  shows "q_stageSending q = q_stageAck q + (\<Sum>p\<leftarrow>q_sending q. ucast (pk_fragments p))
    \<and> q_stage q = q_stageSending q + (\<Sum>p\<leftarrow>q_packets q. ucast (pk_fragments p))
    \<and> (\<forall>p\<in>set (q_packets q). encoded cbc farId (pk_data p) \<and> length (pk_data p) \<le> SIZE_PACKET + 12)
    \<and> (\<forall>p\<in>set (q_sending q). if pk_reliable p then encoded cbc farId (pk_data p) \<and> length (pk_data p) \<le> SIZE_PACKET + 12
                             else pk_data p = [])"
  using queue_reachable_ok[OF assms(1)] length_encoded[OF _ assms(2)]
  by (auto simp: queue_ok_def queue_inv_def packets_ok_def staged_def)

text \<open>Four messages of alternate reliability in three packets; two packets are sent, the first is acknowledged.\<close>

definition sample_messages :: "(bool \<times> bytes) list" where
  "sample_messages = [(True, [1, 2, 3]), (False, [4, 5]), (False, [6]), (True, [7, 8])]"

definition sample_queue :: out_queue where
  "sample_queue = snd (acquit 1 0 (fst (snd (flush_queue (\<lambda>_. True) 2
     (the (messenger_run rev 77 (\<lambda>_. (4000, 0)) sample_messages (new_queue 2 0 [1, 2])))))))"

lemma sample_run:
  "map_option (\<lambda>q. map pk_fragments (q_packets q)) (messenger_run rev 77 (\<lambda>_. (4000, 0)) sample_messages (new_queue 2 0 [1, 2])) = Some [1, 2, 1]"
  "q_stageAck sample_queue = 1" "map pk_fragments (q_sending sample_queue) = [2]" "map pk_fragments (q_packets sample_queue) = [1]"
  "map pk_reliable (q_sending sample_queue) = [False]" "map (\<lambda>p. length (pk_data p)) (q_packets sample_queue) = [36]"
  by code_simp+

lemma sample_reachable: "queue_reachable rev 77 sample_queue"
proof -
  obtain q1 where run: "messenger_run rev 77 (\<lambda>_. (4000, 0)) sample_messages (new_queue 2 0 [1, 2]) = Some q1"
    using sample_run(1) by (cases "messenger_run rev 77 (\<lambda>_. (4000, 0)) sample_messages (new_queue 2 0 [1, 2])") simp_all
  obtain n q out where sent: "flush_queue (\<lambda>_. True) 2 q1 = (n, q, out)" by (metis prod_cases3)
  have "queue_reachable rev 77 (new_queue 2 0 [1, 2])" by (rule queue_reachable.created) simp
  from queue_reachable.stepped [OF this queue_step.message [OF run]] have "queue_reachable rev 77 q1" .
  from queue_reachable.stepped [OF this queue_step.send [OF sent]] have "queue_reachable rev 77 q" .
  from queue_reachable.stepped [OF this queue_step.acknowledge [of 1 0 q "fst (acquit 1 0 q)" "snd (acquit 1 0 q)"]]
  show ?thesis by (simp add: sample_queue_def run sent)
qed

theorem queue_accounts_witness:
  "q_stageSending sample_queue = 3 \<and> q_stage sample_queue = 4 \<and> map pk_data (q_sending sample_queue) = [[]]
    \<and> list_all (encoded rev 77) (map pk_data (q_packets sample_queue))"
proof -
  have "map pk_reliable (q_sending sample_queue) = [False]" by (rule sample_run)
  then show ?thesis
    using queue_accounts[OF sample_reachable] sample_run(2-4) by (auto simp: map_eq_Cons_conv list_all_iff)
qed

text \<open>
  C27.  A messenger always comes to its end, on messages of any number and sizes (empty ones, which
  close the flow, included), over any queue whose signature is at most 1000 bytes.
\<close>

theorem messenger_terminates:
  assumes "queue_reachable cbc farId q"
  shows "\<exists>q'. messenger_run cbc farId clock ms q = Some q' \<and> queue_reachable cbc farId q'"
proof -
  obtain q' where "messenger_run cbc farId clock ms q = Some q'"
    using messenger_run_inv[of q cbc farId clock ms] queue_reachable_ok[OF assms] by (auto simp: queue_ok_def)
  then show ?thesis using queue_reachable.stepped[OF assms queue_step.message] by blast
qed

theorem messenger_terminates_witness:
  "\<exists>q'. messenger_run rev 77 (\<lambda>_. (4000, 1000)) [(True, [1, 2, 3]), (False, [])] (new_queue 2 0 [1, 2]) = Some q'
    \<and> queue_reachable rev 77 q'"
  using messenger_terminates[OF queue_reachable.created[of "[1, 2]" rev 77 2 0], of "\<lambda>_. (4000, 1000)"]
  by simp

text \<open>
  What a repeater looks at of the packets sent: all, or, told of a number of fragments, those up to the one that reaches it.
\<close>

fun covering :: "u32 \<Rightarrow> out_packet list \<Rightarrow> out_packet list" where
  "covering fragments [] = []"
| "covering fragments (p # ps) =
     p # (if fragments \<noteq> 0 \<and> pk_fragments p \<ge> fragments then []
          else covering (if fragments \<noteq> 0 then fragments - pk_fragments p else 0) ps)"

text \<open>What is sent for the packets \<open>ps\<close> looked at.\<close>

definition repeats :: "(bytes \<Rightarrow> bool) \<Rightarrow> out_packet list \<Rightarrow> u64 \<Rightarrow> bool \<Rightarrow> u64 \<Rightarrow> nat \<Rightarrow> repeated list \<times> bool" where
  "repeats accepts ps stage one a sendable =
    (let us = (if one then [] else takeWhile (\<lambda>p. \<not> pk_reliable p) ps);
         abandon = (if us = [] then a else stage + staged us);
         datas = take sendable (map pk_data (filter pk_reliable ps))
     in ((if abandon \<noteq> 0 then [Abandon abandon] else []) @ map Again (takeWhile accepts datas), list_all accepts datas))"

lemma repeats_Nil: "repeats accepts [] stage one a sendable = (if a \<noteq> 0 then [Abandon a] else [], True)"
  by (simp add: repeats_def)

lemma repeats_reliable:
  assumes "pk_reliable p" "0 < sendable"
  shows "repeats accepts (p # ps) stage one a sendable =
    (if \<not> accepts (pk_data p) then (if a \<noteq> 0 then [Abandon a] else [], False)
     else ((if a \<noteq> 0 then [Abandon a] else []) @ Again (pk_data p) # fst (repeats accepts ps stage' True 0 (sendable - 1)),
           snd (repeats accepts ps stage' True 0 (sendable - 1))))"
  using assms by (cases sendable) (simp_all add: repeats_def Let_def)

lemma repeats_unreliable:
  assumes "\<not> pk_reliable p" "one \<Longrightarrow> a = 0"
  shows "repeats accepts (p # ps) stage one a sendable =
    repeats accepts ps (stage + ucast (pk_fragments p)) one (if one then a else stage + ucast (pk_fragments p)) sendable"
  using assms by (auto simp: repeats_def Let_def add_ac)

lemma repeats_0: "repeats accepts ps stage True 0 0 = ([], True)"
  by (simp add: repeats_def)

lemma repeat_loop_covering:
  assumes "0 < sendable" "one \<Longrightarrow> a = 0"
  shows "repeat_loop accepts ps stage one a sendable fragments = repeats accepts (covering fragments ps) stage one a sendable"
  using assms
proof (induction ps arbitrary: stage one a sendable fragments)
  case (Cons p ps)
  define stops where "stops \<longleftrightarrow> fragments \<noteq> 0 \<and> pk_fragments p \<ge> fragments"
  define left where "left = (if fragments \<noteq> 0 then fragments - pk_fragments p else 0)"
  define nstage where "nstage = stage + ucast (pk_fragments p)"
  define abandons where "abandons a = (if a \<noteq> 0 then [Abandon a] else [])" for a
  have cover: "covering fragments (p # ps) = p # (if stops then [] else covering left ps)"
    by (simp add: stops_def left_def)
  show ?case
  proof (cases "pk_reliable p")
    case True
    let ?r = "repeat_loop accepts ps nstage True 0 (sendable - 1) left"
    have eq: "repeat_loop accepts (p # ps) stage one a sendable fragments =
        (if \<not> accepts (pk_data p) then (abandons a, False)
         else if sendable - 1 = 0 \<or> stops then (abandons a @ [Again (pk_data p)], True)
         else (abandons a @ Again (pk_data p) # fst ?r, snd ?r))"
      unfolding repeat_loop.simps Let_def if_P[OF True] nstage_def stops_def left_def abandons_def by (simp split: prod.split)
    note reps = repeats_reliable[OF True Cons.prems(1), of accepts _ stage one a nstage, folded abandons_def]
    show ?thesis
    proof (cases "sendable - 1 = 0 \<or> stops")
      case True
      then show ?thesis unfolding eq cover reps by (auto simp: repeats_Nil repeats_0)
    next
      case False
      then have "?r = repeats accepts (covering left ps) nstage True 0 (sendable - 1)" by (intro Cons.IH) simp_all
      then show ?thesis using False unfolding eq cover reps by simp
    qed
  next
    case False
    let ?a = "if one then a else nstage"
    have eq: "repeat_loop accepts (p # ps) stage one a sendable fragments =
        (if stops then (abandons ?a, True) else repeat_loop accepts ps nstage one ?a sendable left)"
      unfolding repeat_loop.simps Let_def if_not_P[OF False] nstage_def stops_def left_def abandons_def by simp
    have "repeat_loop accepts ps nstage one ?a sendable left = repeats accepts (covering left ps) nstage one ?a sendable"
      using Cons.prems by (intro Cons.IH) simp_all
    moreover have "repeats accepts (p # qs) stage one a sendable = repeats accepts qs nstage one ?a sendable" for qs
      unfolding nstage_def by (rule repeats_unreliable[OF False]) (rule Cons.prems(2))
    ultimately show ?thesis unfolding eq cover by (cases stops) (simp_all add: repeats_Nil abandons_def)
  qed
qed (simp add: repeats_Nil)

text \<open>
  C32.  What a repeater sends, on any queue and whatever the socket accepts.  It looks at the packets sent and not
  acknowledged, up to the one that covers the fragments it is told of (all for 0).  If they begin with unreliable ones it
  abandons these first, once, up to the stage of the last of them; then it sends again the reliable ones, in their order,
  at most six and up to the first one that the socket refuses, and such a refusal stops the session from sending.
\<close>

theorem repeat_queue_exact:
  "repeat_queue accepts fragments sendable q =
    (let ps = covering fragments (q_sending q);
         us = takeWhile (\<lambda>p. \<not> pk_reliable p) ps;
         abandon = (if us = [] then 0 else q_stageAck q + (\<Sum>p\<leftarrow>us. ucast (pk_fragments p)));
         datas = take 6 (map pk_data (filter pk_reliable ps))
     in (if list_all accepts datas then sendable else 0,
         (if abandon \<noteq> 0 then [Abandon abandon] else []) @ map Again (takeWhile accepts datas)))"
  by (simp add: repeat_queue_def repeat_loop_covering repeats_def SENDABLE_MAX_def staged_def Let_def)

end
