(* ===== verification/Bits.thy ===== *)
theory Bits
  imports Bytes
begin

text \<open>
  Reading bits: \<open>BitReader\<close> of \<open>MonaBase\<close> and its subclass \<open>BitstreamReader\<close> of \<open>HEVC.cpp\<close>, which
  skips the emulation byte 3 behind two zero bytes.  The subclass overrides the virtual \<open>read\<close> and
  \<open>next\<close>; the field \<open>bt_emulation\<close> is the dynamic class of the object.  The abstraction \<open>bits_rest\<close>
  is the list of the bits still to come, and the operations of the two classes refine the obvious ones
  on that list; the parsers of \<open>MPEG4\<close>, \<open>AVC\<close> and \<open>HEVC\<close> are reasoned about on it.
\<close>

section \<open>The readers\<close>

record bit_reader =
  bt_data :: bytes
  bt_size :: nat
  bt_cur :: nat
  bt_end :: nat
  bt_bit :: nat
  bt_emulation :: bool

definition bit_reader_of :: "bytes \<Rightarrow> nat \<Rightarrow> bit_reader" where
  "bit_reader_of data sz =
     \<lparr>bt_data = data, bt_size = sz, bt_cur = 0, bt_end = sz, bt_bit = 0, bt_emulation = False\<rparr>"

definition bitstream_reader_of :: "bytes \<Rightarrow> nat \<Rightarrow> bit_reader" where
  "bitstream_reader_of data sz = (bit_reader_of data sz)\<lparr>bt_emulation := True\<rparr>"

definition bt_position :: "bit_reader \<Rightarrow> nat" where
  "bt_position r = bt_cur r * 8 + bt_bit r"

definition bt_available :: "bit_reader \<Rightarrow> nat" where
  "bt_available r = (bt_end r - bt_cur r) * 8 - bt_bit r"

text \<open>The step to the next byte: plain, and past an emulation byte.\<close>

definition next_byte :: "bit_reader \<Rightarrow> bit_reader" where
  "next_byte r = r\<lparr>bt_bit := 0, bt_cur := bt_cur r + 1\<rparr>"

definition next_bitstream_byte :: "bit_reader \<Rightarrow> bit_reader" where
  "next_bitstream_byte r =
     (let r = r\<lparr>bt_bit := 0, bt_cur := bt_cur r + 1\<rparr>
      in if bt_cur r \<noteq> bt_end r \<and> bt_position r \<ge> 16 \<and> bt_data r ! bt_cur r = 3
            \<and> bt_data r ! (bt_cur r - 1) = 0 \<and> bt_data r ! (bt_cur r - 2) = 0
         then r\<lparr>bt_cur := bt_cur r + 1\<rparr> else r)"

definition bt_advance :: "bit_reader \<Rightarrow> bit_reader" where
  "bt_advance r =
     (if bt_bit r + 1 = 8 then (if bt_emulation r then next_bitstream_byte r else next_byte r)
      else r\<lparr>bt_bit := bt_bit r + 1\<rparr>)"

definition bt_read :: "bit_reader \<Rightarrow> bool \<times> bit_reader" where
  "bt_read r =
     (if bt_cur r = bt_end r then (False, r)
      else (bt_data r ! bt_cur r AND drop_bit (bt_bit r) 0x80 \<noteq> 0, bt_advance r))"

fun bt_next :: "nat \<Rightarrow> bit_reader \<Rightarrow> nat \<times> bit_reader" where
  "bt_next 0 r = (0, r)"
| "bt_next (Suc count) r =
     (if bt_cur r = bt_end r then (0, r)
      else let (gotten, r) = bt_next count (bt_advance r) in (gotten + 1, r))"

text \<open>
  \<open>read<ResultType>(count)\<close>: a set bit that does not fit the result stops the read with the largest
  value.
\<close>

fun bt_reads :: "nat \<Rightarrow> 'a::len word \<Rightarrow> bit_reader \<Rightarrow> 'a word \<times> bit_reader" where
  "bt_reads 0 result r = (result, r)"
| "bt_reads (Suc count) result r =
     (if bt_cur r = bt_end r then (result, r)
      else let result = push_bit 1 result; (b, r) = bt_read r
           in if \<not> b then bt_reads count result r
              else if count \<ge> LENGTH('a) then (- 1, r)
              else bt_reads count (result OR 1) r)"

definition bt_read_word :: "nat \<Rightarrow> bit_reader \<Rightarrow> 'a::len word \<times> bit_reader" where
  "bt_read_word count r = bt_reads count 0 r"

definition bt_reset :: "nat \<Rightarrow> bit_reader \<Rightarrow> bit_reader" where
  "bt_reset position r =
     (let by = position div 8
      in r\<lparr>bt_cur := (if by > bt_size r then bt_size r else by), bt_bit := position mod 8\<rparr>)"

definition bt_shrink :: "nat \<Rightarrow> bit_reader \<Rightarrow> nat \<times> bit_reader" where
  "bt_shrink available r =
     (let rest = bt_available r
      in if available > rest then (rest, r)
         else (available, r\<lparr>bt_end := bt_cur r + available div 8, bt_size := bt_cur r + available div 8,
                            bt_bit := available mod 8\<rparr>))"

section \<open>The bits to come\<close>

definition byte_bits :: "u8 \<Rightarrow> bool list" where
  "byte_bits b = map (\<lambda>i. bit b (7 - i)) [0..<8]"

definition skip_emulation :: "bool \<Rightarrow> bytes \<Rightarrow> nat \<Rightarrow> nat \<Rightarrow> nat" where
  "skip_emulation emu data stop k =
     (if emu \<and> k < stop \<and> k \<ge> 2 \<and> data ! k = 3 \<and> data ! (k - 1) = 0 \<and> data ! (k - 2) = 0
      then k + 1 else k)"

lemma skip_emulation_ge: "k \<le> skip_emulation emu data stop k"
  by (simp add: skip_emulation_def)

lemma skip_emulation_le: "k \<le> stop \<Longrightarrow> skip_emulation emu data stop k \<le> stop"
  by (simp add: skip_emulation_def)

function bits_at :: "bool \<Rightarrow> bytes \<Rightarrow> nat \<Rightarrow> nat \<Rightarrow> bool list" where
  "bits_at emu data stop k =
     (if k < stop then byte_bits (data ! k) @ bits_at emu data stop (skip_emulation emu data stop (k + 1))
      else [])"
  by pat_completeness auto
termination
proof (relation "measure (\<lambda>(emu, data, stop, k). stop - k)")
  fix emu data stop k assume "k < (stop :: nat)"
  then show "((emu, data, stop, skip_emulation emu data stop (k + 1)), emu, data, stop, k)
      \<in> measure (\<lambda>(emu, data, stop, k). stop - k)"
    using skip_emulation_ge[of "k + 1" emu data stop] by simp
qed simp

declare bits_at.simps [simp del]

definition bits_rest :: "bit_reader \<Rightarrow> bool list" where
  "bits_rest r = drop (bt_bit r) (bits_at (bt_emulation r) (bt_data r) (bt_end r) (bt_cur r))"

definition bt_wf :: "bit_reader \<Rightarrow> bool" where
  "bt_wf r \<longleftrightarrow> bt_cur r \<le> bt_end r \<and> bt_end r \<le> length (bt_data r) \<and> bt_bit r < 8
     \<and> (bt_cur r = bt_end r \<longrightarrow> bt_bit r = 0)"

lemma length_byte_bits [simp]: "length (byte_bits b) = 8"
  by (simp add: byte_bits_def)

lemma nth_byte_bits: "i < 8 \<Longrightarrow> byte_bits b ! i = bit b (7 - i)"
  by (simp add: byte_bits_def)

text \<open>One bit read is the head of the list; this holds for both classes.\<close>

lemma bt_advance_bits:
  assumes "bt_wf r" "bt_cur r \<noteq> bt_end r"
  shows "bt_wf (bt_advance r)" and "bits_rest r = bit (bt_data r ! bt_cur r) (7 - bt_bit r) # bits_rest (bt_advance r)"
proof -
  have c: "bt_cur r < bt_end r" "bt_bit r < 8" "bt_end r \<le> length (bt_data r)" using assms by (auto simp: bt_wf_def)
  let ?skip = "skip_emulation (bt_emulation r) (bt_data r) (bt_end r) (bt_cur r + 1)"
  have at: "bits_at (bt_emulation r) (bt_data r) (bt_end r) (bt_cur r) =
      byte_bits (bt_data r ! bt_cur r) @ bits_at (bt_emulation r) (bt_data r) (bt_end r) ?skip"
    using c by (subst bits_at.simps) simp
  have adv: "bt_advance r = (if bt_bit r = 7 then r\<lparr>bt_bit := 0, bt_cur := ?skip\<rparr> else r\<lparr>bt_bit := bt_bit r + 1\<rparr>)"
    using c by (auto simp: bt_advance_def next_byte_def next_bitstream_byte_def skip_emulation_def bt_position_def Let_def)
  have d: "drop (bt_bit r) (byte_bits b) = bit b (7 - bt_bit r) # drop (Suc (bt_bit r)) (byte_bits b)" for b
    using c(2) by (simp add: Cons_nth_drop_Suc[symmetric] nth_byte_bits)
  show "bt_wf (bt_advance r)"
    using c skip_emulation_le[of "bt_cur r + 1" "bt_end r"] by (auto simp: bt_wf_def adv)
  show "bits_rest r = bit (bt_data r ! bt_cur r) (7 - bt_bit r) # bits_rest (bt_advance r)"
    using c(2) by (simp add: bits_rest_def at adv d)
qed

lemma and_bit_test:
  assumes "i < 8"
  shows "(b AND drop_bit i 0x80 \<noteq> 0) = bit (b :: u8) (7 - i)"
proof -
  have "i \<in> {0, 1, 2, 3, 4, 5, 6, 7}" using assms by auto
  then have "drop_bit i (0x80 :: u8) = 2 ^ (7 - i)" by auto
  then show ?thesis by (simp only: and_exp_eq_0_iff_not_bit) simp
qed

lemma bits_at_end: "bits_at emu data stop stop = []"
  by (subst bits_at.simps) simp

lemma bits_rest_Nil_iff:
  assumes "bt_wf r"
  shows "bits_rest r = [] \<longleftrightarrow> bt_cur r = bt_end r"
proof (cases "bt_cur r = bt_end r")
  case True
  then show ?thesis by (simp add: bits_rest_def bits_at_end)
next
  case False
  then show ?thesis using bt_advance_bits(2)[OF assms False] by simp
qed

lemma bt_available_0_iff: "bt_wf r \<Longrightarrow> bt_available r = 0 \<longleftrightarrow> bits_rest r = []"
  by (auto simp: bits_rest_Nil_iff bt_available_def bt_wf_def)

lemma bt_read_Nil: "bt_wf r \<Longrightarrow> bits_rest r = [] \<Longrightarrow> bt_read r = (False, r)"
  by (simp add: bits_rest_Nil_iff bt_read_def)

lemma bt_read_Cons:
  assumes "bt_wf r" "bits_rest r = b # bs"
  shows "bt_read r = (b, bt_advance r) \<and> bt_wf (bt_advance r) \<and> bits_rest (bt_advance r) = bs"
proof -
  have c: "bt_cur r \<noteq> bt_end r" using assms bits_rest_Nil_iff[of r] by auto
  have "bt_bit r < 8" using assms(1) by (simp add: bt_wf_def)
  then show ?thesis
    using bt_advance_bits[OF assms(1) c] assms(2) c by (simp add: bt_read_def and_bit_test)
qed

lemma bt_wf_of: "sz \<le> length data \<Longrightarrow> bt_wf (bit_reader_of data sz)"
    "sz \<le> length data \<Longrightarrow> bt_wf (bitstream_reader_of data sz)"
  by (simp_all add: bt_wf_def bit_reader_of_def bitstream_reader_of_def)

section \<open>The contract of a field of bits\<close>

text \<open>
  A field written as a list of bits and the routine that reads it: the routine returns the value and
  leaves exactly the bits behind the field, on both readers.
\<close>

locale bit_field =
  fixes enc :: "'v \<Rightarrow> bool list"
    and dec :: "bit_reader \<Rightarrow> 'r \<times> bit_reader"
    and val :: "'v \<Rightarrow> 'r"
    and ok :: "'v \<Rightarrow> bool"
  assumes dec_enc: "ok v \<Longrightarrow> bt_wf r \<Longrightarrow> bits_rest r = enc v @ xs \<Longrightarrow>
                    fst (dec r) = val v \<and> bt_wf (snd (dec r)) \<and> bits_rest (snd (dec r)) = xs"
begin

lemma decE:
  assumes "ok v" "bt_wf r" "bits_rest r = enc v @ xs"
  obtains r' where "dec r = (val v, r')" "bt_wf r'" "bits_rest r' = xs"
  using dec_enc[OF assms] by (metis prod.collapse)

text \<open>The same field several times, its values dropped.\<close>

fun skip_many :: "nat \<Rightarrow> bit_reader \<Rightarrow> bit_reader" where
  "skip_many 0 r = r"
| "skip_many (Suc n) r = skip_many n (snd (dec r))"

lemma skip_many_enc:
  "list_all ok vs \<Longrightarrow> bt_wf r \<Longrightarrow> bits_rest r = concat (map enc vs) @ xs \<Longrightarrow>
   bt_wf (skip_many (length vs) r) \<and> bits_rest (skip_many (length vs) r) = xs"
proof (induction vs arbitrary: r)
  case (Cons v vs)
  then have "bt_wf (snd (dec r)) \<and> bits_rest (snd (dec r)) = concat (map enc vs) @ xs"
    using dec_enc[of v r "concat (map enc vs) @ xs"] by simp
  then show ?case using Cons by simp
qed simp

end

interpretation flag: bit_field "\<lambda>b. [b]" bt_read id "\<lambda>_. True"
proof
  fix b :: bool and r xs
  assume "bt_wf r" "bits_rest r = [b] @ xs"
  then show "fst (bt_read r) = id b \<and> bt_wf (snd (bt_read r)) \<and> bits_rest (snd (bt_read r)) = xs"
    using bt_read_Cons[of r b xs] by simp
qed

text \<open>The value of bits, most significant first, on a word.\<close>

definition push_bits :: "'a::len word \<Rightarrow> bool list \<Rightarrow> 'a word" where
  "push_bits = foldl (\<lambda>w b. push_bit 1 w OR of_bool b)"

lemma push_bits_simps [simp]:
  "push_bits w [] = w" "push_bits w (b # bs) = push_bits (push_bit 1 w OR of_bool b) bs"
  by (simp_all add: push_bits_def)

lemma bt_reads_bits:
  "bt_wf r \<Longrightarrow> bits_rest r = bs @ xs \<Longrightarrow> length bs \<le> LENGTH('a) \<Longrightarrow>
   fst (bt_reads (length bs) (w :: 'a::len word) r) = push_bits w bs
   \<and> bt_wf (snd (bt_reads (length bs) w r)) \<and> bits_rest (snd (bt_reads (length bs) w r)) = xs"
proof (induction bs arbitrary: r w)
  case (Cons b bs)
  have "bt_cur r \<noteq> bt_end r" using Cons.prems bits_rest_Nil_iff[of r] by auto
  moreover note bt_read_Cons[of r b "bs @ xs"]
  ultimately show ?case using Cons by simp
qed simp

interpretation bits: bit_field "id :: bool list \<Rightarrow> bool list" "bt_read_word n :: bit_reader \<Rightarrow> 'a::len word \<times> bit_reader"
    "push_bits 0" "\<lambda>bs. length bs = n \<and> n \<le> LENGTH('a)"
  for n
proof
  fix bs :: "bool list" and r xs
  assume "length bs = n \<and> n \<le> LENGTH('a)" "bt_wf r" "bits_rest r = id bs @ xs"
  then show "fst (bt_read_word n r :: 'a word \<times> bit_reader) = push_bits 0 bs
      \<and> bt_wf (snd (bt_read_word n r :: 'a word \<times> bit_reader))
      \<and> bits_rest (snd (bt_read_word n r :: 'a word \<times> bit_reader)) = xs"
    using bt_reads_bits[of r bs xs "0 :: 'a word"] by (auto simp: bt_read_word_def)
qed

text \<open>Skipping bits goes no further than the end.\<close>

lemma bt_next_bits:
  "bt_wf r \<Longrightarrow> fst (bt_next n r) = min n (length (bits_rest r)) \<and> bt_wf (snd (bt_next n r))
     \<and> bits_rest (snd (bt_next n r)) = drop n (bits_rest r)"
proof (induction n arbitrary: r)
  case (Suc n)
  show ?case
  proof (cases "bt_cur r = bt_end r")
    case True
    then show ?thesis using Suc.prems bits_rest_Nil_iff[of r] by simp
  next
    case False
    then show ?thesis
      using Suc bt_advance_bits[OF Suc.prems False] by (simp add: split_beta)
  qed
qed simp

lemma bt_next_skip:
  assumes "bt_wf r" "bits_rest r = bs @ xs" "length bs = n"
  shows "bt_wf (snd (bt_next n r)) \<and> bits_rest (snd (bt_next n r)) = xs"
  using bt_next_bits[OF assms(1), of n] assms(2,3) by auto

end
