(* ===== verification/MPEG4.thy ===== *)
theory MPEG4
  imports Bits Media
begin

text \<open>
  \<open>MPEG4.h\<close> and \<open>MPEG4.cpp\<close>: the two byte AAC configuration, the table of the sampling rates, and the
  Exponential-Golomb codes of the video parameter sets.  An array read out of bounds is not a value:
  \<open>RateFromIndex\<close> returns \<open>None\<close> for the index its array of fifteen does not have.
\<close>

section \<open>AAC configuration\<close>

definition mpeg4_rates :: "u32 list" where
  "mpeg4_rates = [96000, 88200, 64000, 48000, 44100, 32000, 24000, 22050, 16000, 12000, 11025, 8000, 7350, 48000, 48000]"

definition RateFromIndex :: "u8 \<Rightarrow> u32 option" where
  "RateFromIndex index =
     (if unat index < length mpeg4_rates then Some (mpeg4_rates ! unat index) else None)"

text \<open>The ordered map of \<open>RateToIndex\<close>, and its search with \<open>lower_bound\<close>.\<close>

definition mpeg4_rate_map :: "(u32 \<times> u8) list" where
  "mpeg4_rate_map = [(7350, 12), (8000, 11), (11025, 10), (12000, 9), (16000, 8), (22050, 7), (24000, 6),
     (32000, 5), (44100, 4), (48000, 3), (64000, 2), (88200, 1), (96000, 0)]"

fun lower_bound :: "'k::linorder \<Rightarrow> ('k \<times> 'v) list \<Rightarrow> ('k \<times> 'v) option" where
  "lower_bound k [] = None"
| "lower_bound k ((k', v) # xs) = (if k \<le> k' then Some (k', v) else lower_bound k xs)"

definition RateToIndex :: "u32 \<Rightarrow> u8" where
  "RateToIndex rate =
     (case lower_bound rate mpeg4_rate_map of Some (_, index) \<Rightarrow> index
      | None \<Rightarrow> snd (hd mpeg4_rate_map))"

text \<open>
  \<open>ReadAudioConfig\<close> with a rate index: the object type, 0 when the packet is not a configuration;
  index and channels are only assigned otherwise.
\<close>

definition ReadAudioConfig_index :: "bytes \<Rightarrow> u8 \<Rightarrow> u8 \<Rightarrow> u8 \<times> u8 \<times> u8" where
  "ReadAudioConfig_index data rateIndex channels =
     (if length data < 2 then (0, rateIndex, channels)
      else let type = drop_bit 3 (data ! 0)
           in if type = 0 then (0, rateIndex, channels)
              else (type, push_bit 1 (data ! 0 AND 3) OR drop_bit 7 (data ! 1), drop_bit 3 (data ! 1) AND 0x0F))"

definition ReadAudioConfig :: "bytes \<Rightarrow> u32 \<Rightarrow> u8 \<Rightarrow> (u8 \<times> u32 \<times> u8) option" where
  "ReadAudioConfig data rate channels =
     (let (type, rateIndex, channels) = ReadAudioConfig_index data 0 channels
      in if type = 0 then Some (0, rate, channels)
         else (case RateFromIndex rateIndex of None \<Rightarrow> None | Some rate \<Rightarrow> Some (type, rate, channels)))"

definition WriteAudioConfig_index :: "u8 \<Rightarrow> u8 \<Rightarrow> u8 \<Rightarrow> bytes" where
  "WriteAudioConfig_index type rateIndex channels =
     [push_bit 3 type OR drop_bit 1 (rateIndex AND 0x0F),
      push_bit 7 (rateIndex AND 0x01) OR push_bit 3 (channels AND 0x0F)]"

definition WriteAudioConfig :: "u8 \<Rightarrow> u32 \<Rightarrow> u8 \<Rightarrow> bytes" where
  "WriteAudioConfig type rate channels = WriteAudioConfig_index type (RateToIndex rate) channels"

section \<open>Exponential-Golomb codes\<close>

text \<open>The loop counts the zero bits in a \<open>UInt8\<close>; every iteration takes a bit of those available.\<close>

lemma bt_read_available:
  assumes "bt_available r \<noteq> 0"
  shows "bt_available (snd (bt_read r)) < bt_available r"
proof -
  have "bt_available (bt_advance r) < bt_available r"
  proof -
    have c: "bt_cur r < bt_end r" "bt_bit r < (bt_end r - bt_cur r) * 8"
      using assms by (auto simp: bt_available_def)
    then have d: "(bt_end r - bt_cur r) * 8 = 8 + (bt_end r - Suc (bt_cur r)) * 8" by simp
    show ?thesis
      using c d by (auto simp: bt_available_def bt_advance_def next_byte_def next_bitstream_byte_def Let_def)
  qed
  moreover have "bt_cur r \<noteq> bt_end r" using assms by (auto simp: bt_available_def)
  ultimately show ?thesis by (simp add: bt_read_def)
qed

function golomb_zeros :: "u8 \<Rightarrow> bit_reader \<Rightarrow> u8 \<times> bit_reader" where
  "golomb_zeros i r =
     (if bt_available r = 0 then (i, r)
      else let (b, r) = bt_read r in if b then (i, r) else golomb_zeros (i + 1) r)"
  by pat_completeness auto
termination
  using bt_read_available by (relation "measure (\<lambda>(i, r). bt_available r)") (auto, metis snd_conv)

declare golomb_zeros.simps [simp del]

definition ReadExpGolomb :: "bit_reader \<Rightarrow> u16 \<times> bit_reader" where
  "ReadExpGolomb r =
     (let (i, r) = golomb_zeros 0 r;
          (result, r) = bt_read_word (unat i) r
      in if i > 15 then (0, r) else (result + push_bit (unat i) 1 - 1, r))"


section \<open>What the codes decode to\<close>

text \<open>The code of a number: \<open>i\<close> zeros, then the \<open>i + 1\<close> bits of its successor, the first of them set.\<close>

fun ilog :: "nat \<Rightarrow> nat" where
  "ilog n = (if n \<le> 1 then 0 else Suc (ilog (n div 2)))"

declare ilog.simps [simp del]

definition low_bits :: "nat \<Rightarrow> nat \<Rightarrow> bool list" where
  "low_bits i n = map (\<lambda>k. odd (n div 2 ^ (i - 1 - k))) [0..<i]"

definition exp_golomb :: "nat \<Rightarrow> bool list" where
  "exp_golomb v = (let i = ilog (v + 1) in replicate i False @ True # low_bits i (v + 1))"

lemma ilog_bounds: "0 < n \<Longrightarrow> 2 ^ ilog n \<le> n \<and> n < 2 * 2 ^ ilog n"
proof (induction n rule: ilog.induct)
  case (1 n)
  show ?case
  proof (cases "n \<le> 1")
    case True
    then show ?thesis using 1 by (subst (1 2) ilog.simps) auto
  next
    case False
    then have "2 ^ ilog (n div 2) \<le> n div 2 \<and> n div 2 < 2 * 2 ^ ilog (n div 2)" using 1 by auto
    then show ?thesis using False by (subst (1 2) ilog.simps) auto
  qed
qed

lemma length_low_bits [simp]: "length (low_bits i n) = i"
  by (simp add: low_bits_def)

lemma low_bits_Suc: "low_bits (Suc i) n = low_bits i (n div 2) @ [odd n]"
  by (auto simp: low_bits_def div_mult2_eq[symmetric] Suc_diff_Suc simp flip: power_Suc intro!: map_cong)

lemma push_bits_append: "push_bits w (xs @ ys) = push_bits (push_bits w xs) ys"
  by (simp add: push_bits_def)

lemma push_bit_or_bool: "push_bit 1 w OR of_bool b = 2 * w + of_bool (b :: bool)" for w :: "'a::len word"
  by (cases b) (simp_all add: push_bit_eq_mult or_one_eq mult.commute)

lemma push_bits_low_bits: "push_bits w (low_bits i n) = 2 ^ i * w + of_nat (n mod 2 ^ i)" for w :: "'a::len word"
proof (induction i arbitrary: n)
  case (Suc i)
  have n: "n mod 2 ^ Suc i = 2 * (n div 2 mod 2 ^ i) + of_bool (odd n)"
    by (simp only: power_Suc mod_mult2_eq) (simp add: mod2_eq_if)
  have "push_bits w (low_bits (Suc i) n) = 2 * push_bits w (low_bits i (n div 2)) + of_bool (odd n)"
    by (simp only: low_bits_Suc push_bits_append push_bits_simps push_bit_or_bool)
  also have "\<dots> = 2 ^ Suc i * w + of_nat (2 * (n div 2 mod 2 ^ i) + of_bool (odd n))"
    unfolding Suc by (simp only: of_nat_add of_nat_mult of_nat_of_bool of_nat_numeral power_Suc distrib_left mult.assoc add.assoc)
  finally show ?case unfolding n .
qed (simp add: low_bits_def)

lemma golomb_zeros_bits:
  "bt_wf r \<Longrightarrow> bits_rest r = replicate k False @ True # bs \<Longrightarrow>
   \<exists>r'. golomb_zeros i r = (i + of_nat k, r') \<and> bt_wf r' \<and> bits_rest r' = bs"
proof (induction k arbitrary: i r)
  case 0
  then have "bt_available r \<noteq> 0" using bt_available_0_iff[of r] by simp
  then show ?case
    using bt_read_Cons[of r True bs] 0 by (subst golomb_zeros.simps) auto
next
  case (Suc k)
  then have a: "bt_available r \<noteq> 0" using bt_available_0_iff[of r] by simp
  have b: "bt_read r = (False, bt_advance r)" "bt_wf (bt_advance r)"
    "bits_rest (bt_advance r) = replicate k False @ True # bs"
    using bt_read_Cons[of r False] Suc.prems by auto
  have "golomb_zeros i r = golomb_zeros (i + 1) (bt_advance r)"
    using a b(1) by (subst golomb_zeros.simps) simp
  moreover obtain r' where "golomb_zeros (i + 1) (bt_advance r) = (i + 1 + of_nat k, r')"
      "bt_wf r'" "bits_rest r' = bs"
    using Suc.IH[OF b(2,3), of "i + 1"] by blast
  ultimately show ?case by (auto simp: algebra_simps)
qed

lemma ilog_less_16: "v < 65535 \<Longrightarrow> ilog (v + 1) \<le> 15"
proof (rule ccontr)
  assume v: "v < 65535" and "\<not> ilog (v + 1) \<le> 15"
  then have "(2 :: nat) ^ 16 \<le> 2 ^ ilog (v + 1)" by (intro power_increasing) auto
  also have "\<dots> \<le> v + 1" using ilog_bounds[of "v + 1"] by simp
  finally show False using v by simp
qed

lemma ReadExpGolomb_bits:
  assumes "v < 65535" "bt_wf r" "bits_rest r = exp_golomb v @ xs"
  shows "fst (ReadExpGolomb r) = of_nat v \<and> bt_wf (snd (ReadExpGolomb r)) \<and> bits_rest (snd (ReadExpGolomb r)) = xs"
proof -
  define i where "i = ilog (v + 1)"
  have i: "i \<le> 15" unfolding i_def by (rule ilog_less_16[OF assms(1)])
  have b: "bits_rest r = replicate i False @ True # low_bits i (v + 1) @ xs"
    using assms(3) by (simp add: exp_golomb_def i_def Let_def)
  obtain r1 where r1: "golomb_zeros 0 r = (of_nat i, r1)" "bt_wf r1" "bits_rest r1 = low_bits i (v + 1) @ xs"
    using golomb_zeros_bits[OF assms(2) b, of 0] by auto
  have u: "unat (of_nat i :: u8) = i" "\<not> (of_nat i :: u8) > 15"
    using i by (simp_all add: unat_of_nat_small word_less_nat_alt)
  have o: "length (low_bits i (v + 1)) = i \<and> i \<le> LENGTH(16)" using i by simp
  obtain r2 where r2: "bt_read_word i r1 = (push_bits 0 (low_bits i (v + 1)) :: u16, r2)" "bt_wf r2" "bits_rest r2 = xs"
    by (rule bits.decE[OF o r1(2), where xs = xs]) (use r1(3) in auto)
  have "2 ^ i \<le> v + 1 \<and> v + 1 < 2 * 2 ^ i" using ilog_bounds[of "v + 1"] by (simp add: i_def)
  then have n: "v + 1 = 2 ^ i + (v + 1) mod 2 ^ i"
    by (metis add.commute div_mult_mod_eq div_nat_eqI mult.commute mult_1 mult_2 nat_mult_1_right plus_1_eq_Suc one_add_one)
  have "push_bits 0 (low_bits i (v + 1)) + push_bit i 1 = (of_nat (v + 1) :: u16)"
    by (subst (2) n) (simp add: push_bits_low_bits push_bit_eq_mult)
  then have "push_bits 0 (low_bits i (v + 1)) + push_bit i 1 - 1 = (of_nat v :: u16)" by simp
  then show ?thesis
    using u r1 r2 by (simp add: ReadExpGolomb_def)
qed

interpretation golomb: bit_field exp_golomb ReadExpGolomb "of_nat :: nat \<Rightarrow> u16" "\<lambda>v. v < 65535"
  by unfold_locales (rule ReadExpGolomb_bits)

text \<open>
  C38. On either reader, the bits of the Exponential-Golomb code of a number below 65535 are read as
  that number, and the reader is left on the bit behind the code, whatever follows.
\<close>

theorem exp_golomb_decodes:
  assumes "v < 65535" "bt_wf r" "bits_rest r = exp_golomb v @ xs"
  shows "\<exists>r'. ReadExpGolomb r = (of_nat v, r') \<and> bt_wf r' \<and> bits_rest r' = xs"
  using golomb.decE[OF assms] by metis

theorem exp_golomb_decodes_witness:
  "\<exists>r'. ReadExpGolomb (bit_reader_of [0x2C] 1) = (4, r') \<and> bt_wf r' \<and> bits_rest r' = [True, False, False]"
proof -
  have b: "bits_rest (bit_reader_of [0x2C] 1) = exp_golomb 4 @ [True, False, False]"
  proof -
    have "bits_at False [0x2C] 1 0 = byte_bits 0x2C"
      using bits_at_end[of False "[0x2C]" 1] by (subst bits_at.simps) (simp add: skip_emulation_def)
    moreover have "byte_bits 0x2C = [False, False, True, False, True, True, False, False]"
      by (simp add: byte_bits_def upt_rec)
    moreover have "exp_golomb 4 = [False, False, True, False, True]"
      by (simp add: exp_golomb_def ilog.simps low_bits_def upt_rec)
    ultimately show ?thesis by (simp add: bits_rest_def bit_reader_of_def)
  qed
  show ?thesis
    using exp_golomb_decodes[of 4 "bit_reader_of [0x2C] 1" "[True, False, False]", OF _ _ b] by (simp add: bt_wf_of)
qed

lemma RateToIndex_found:
  assumes "rate \<le> 96000"
  shows "\<exists>r. RateFromIndex (RateToIndex rate) = Some r \<and> rate \<le> r \<and> (\<forall>r' \<in> set mpeg4_rates. rate \<le> r' \<longrightarrow> r \<le> r')"
  using assms by (auto simp: RateToIndex_def mpeg4_rate_map_def RateFromIndex_def mpeg4_rates_def)

lemma lower_bound_None: "list_all (\<lambda>(k', v). k' < k) xs \<Longrightarrow> lower_bound k xs = None"
  by (induction xs) auto

lemma RateToIndex_above:
  assumes "\<not> rate \<le> 96000"
  shows "RateFromIndex (RateToIndex rate) = Some 7350"
proof -
  have "list_all (\<lambda>(k, v). k \<le> 96000) mpeg4_rate_map" by (simp add: mpeg4_rate_map_def)
  then have "list_all (\<lambda>(k, v). k < rate) mpeg4_rate_map"
    using assms by (auto simp: list_all_iff)
  then have "lower_bound rate mpeg4_rate_map = None" by (rule lower_bound_None)
  then have "RateToIndex rate = 12" unfolding RateToIndex_def by (simp add: mpeg4_rate_map_def)
  then show ?thesis by (simp add: RateFromIndex_def mpeg4_rates_def)
qed

text \<open>
  C39. The index chosen for a sampling rate names the smallest rate of the table that is not below it;
  a rate over 96000 gets the index of 7350, the first entry of the ordered map, although the message
  logged there says 96000.
\<close>

theorem aac_rate_index:
  "if rate \<le> 96000
   then \<exists>r. RateFromIndex (RateToIndex rate) = Some r \<and> rate \<le> r
          \<and> (\<forall>r' \<in> set mpeg4_rates. rate \<le> r' \<longrightarrow> r \<le> r')
   else RateFromIndex (RateToIndex rate) = Some 7350"
  using RateToIndex_found[of rate] RateToIndex_above[of rate] by simp

theorem aac_rate_index_witness: "RateFromIndex (RateToIndex 176400) = Some 7350 \<and> (\<exists>r. RateFromIndex (RateToIndex 44000) = Some r \<and> 44000 \<le> r)"
  using aac_rate_index[of 176400] aac_rate_index[of 44000] by auto

text \<open>Reading back a written configuration.\<close>

lemma aac_config_bits:
  fixes type rateIndex channels :: u8
  assumes "unat type < 32" "unat channels < 16"
  shows "drop_bit 3 (push_bit 3 type OR drop_bit 1 (rateIndex AND 0x0F)) = type"
    and "push_bit 1 ((push_bit 3 type OR drop_bit 1 (rateIndex AND 0x0F)) AND 3)
         OR drop_bit 7 (push_bit 7 (rateIndex AND 1) OR push_bit 3 (channels AND 0x0F)) = rateIndex AND 7"
    and "drop_bit 3 (push_bit 7 (rateIndex AND 1) OR push_bit 3 (channels AND 0x0F)) AND 0x0F = channels"
proof -
  have m: "(0x0F :: u8) = mask 4" "(7 :: u8) = mask 3" "(3 :: u8) = mask 2" "(1 :: u8) = mask 1"
    by (simp_all add: mask_eq_exp_minus_1)
  have t: "bit type n \<Longrightarrow> n < 5" for n
    using take_bit_id_less[of type 5] assms(1) bit_take_bit_iff[of 5 type n] by simp
  have c: "bit channels n \<Longrightarrow> n < 4" for n
    using take_bit_id_less[of channels 4] assms(2) bit_take_bit_iff[of 4 channels n] by simp
  show "drop_bit 3 (push_bit 3 type OR drop_bit 1 (rateIndex AND 0x0F)) = type"
    unfolding m by (rule bit_word_eqI) (auto simp: bit_simps dest: t)
  show "push_bit 1 ((push_bit 3 type OR drop_bit 1 (rateIndex AND 0x0F)) AND 3)
         OR drop_bit 7 (push_bit 7 (rateIndex AND 1) OR push_bit 3 (channels AND 0x0F)) = rateIndex AND 7"
  proof -
    obtain k :: nat where k: "k = 1" "\<forall>n. k \<le> n \<longleftrightarrow> 0 < n" "\<forall>n. n - k + 1 = (if n = 0 then 1 else n)" "\<forall>n. n - k < 2 \<longleftrightarrow> n < 3" by (rule that[of 1]) auto
    show ?thesis
      unfolding m unfolding k(1)[symmetric] using k(2,3,4)
      by (intro bit_word_eqI) (auto simp: bit_simps dest: t simp del: One_nat_def)
  qed
  show "drop_bit 3 (push_bit 7 (rateIndex AND 1) OR push_bit 3 (channels AND 0x0F)) AND 0x0F = channels"
    unfolding m by (rule bit_word_eqI) (auto simp: bit_simps dest: c)
qed


text \<open>
  Reading a written AAC configuration gives back the object type and the channels, and the rate
  index modulo 8: the reader keeps two of the three high bits of the index, so the index of a rate of
  16000 or less (8 and above) is read as one of the high rates.
\<close>

theorem aac_config_roundtrip:
  assumes "unat type < 32" "type \<noteq> 0" "unat channels < 16"
  shows "ReadAudioConfig_index (WriteAudioConfig_index type rateIndex channels @ xs) i c
    = (type, rateIndex AND 7, channels)"
  using aac_config_bits[OF assms(1,3), of rateIndex] assms(2)
  by (simp add: ReadAudioConfig_index_def WriteAudioConfig_index_def Let_def)

theorem aac_config_roundtrip_witness:
  "(\<forall>i c. ReadAudioConfig_index (WriteAudioConfig_index 2 4 2 @ []) i c = (2, 4, 2))
   \<and> (\<forall>i c. ReadAudioConfig_index (WriteAudioConfig_index 2 (RateToIndex 16000) 2 @ []) i c = (2, 0, 2))"
  using aac_config_roundtrip[of 2 2 4 "[]"] aac_config_roundtrip[of 2 2 "RateToIndex 16000" "[]"]
  by (simp add: RateToIndex_def mpeg4_rate_map_def)

end
