(* ===== verification/VideoConfig.thy ===== *)
theory VideoConfig
  imports MPEG4
begin

text \<open>
  \<open>AVC\<close> and \<open>HEVC\<close>: the NAL types of the two video codecs and the frame they belong to, the
  configuration of a decoder in its three forms (parameter sets behind 32 bit sizes, the MP4 record
  read and written, the sets as packets), and the video dimension found in a sequence parameter set.
  A read behind the end of the data is no value: those operations return an option.
\<close>

section \<open>Frames of the NAL types\<close>

definition avc_frames :: "u8 list" where
  "avc_frames = [FRAME_UNSPECIFIED, FRAME_INTER, FRAME_INTER, FRAME_INTER, FRAME_INTER, FRAME_KEY, FRAME_INFO,
     FRAME_CONFIG, FRAME_CONFIG]"

definition hevc_frames :: "u8 list" where
  "hevc_frames = replicate 10 FRAME_INTER @ replicate 6 FRAME_UNSPECIFIED @ replicate 6 FRAME_KEY
     @ [FRAME_UNSPECIFIED, FRAME_KEY] @ replicate 8 FRAME_UNSPECIFIED @ replicate 3 FRAME_CONFIG
     @ replicate 4 FRAME_UNSPECIFIED @ replicate 2 FRAME_INFO"

definition frame_of :: "u8 list \<Rightarrow> u8 \<Rightarrow> u8 option" where
  "frame_of frames type = (if unat type < length frames then Some (frames ! unat type) else None)"

definition avc_NalType :: "u8 \<Rightarrow> u8" where
  "avc_NalType byte = byte AND 0x1F"

definition hevc_NalType :: "u8 \<Rightarrow> u8" where
  "hevc_NalType byte = drop_bit 1 (byte AND 0x7F)"

text \<open>The part the two \<open>UpdateFrame\<close> have in common, from the frame of the new type.\<close>

definition merge_frame :: "u8 \<Rightarrow> u8 \<Rightarrow> u8" where
  "merge_frame type frame =
     (if frame = 0 then type
      else if type = FRAME_UNSPECIFIED then frame
      else if type = FRAME_KEY \<or> type = FRAME_CONFIG \<or> type = FRAME_INTER then type
      else if frame = FRAME_INTER \<or> frame = FRAME_DISPOSABLE_INTER then frame else type)"

definition avc_UpdateFrame :: "u8 \<Rightarrow> u8 \<Rightarrow> u8" where
  "avc_UpdateFrame type frame =
     (if frame = FRAME_KEY \<or> frame = FRAME_CONFIG then frame
      else merge_frame (if type > 8 then FRAME_UNSPECIFIED else avc_frames ! unat type) frame)"

definition hevc_UpdateFrame :: "u8 \<Rightarrow> u8 \<Rightarrow> u8 option" where
  "hevc_UpdateFrame type frame =
     (if frame = FRAME_KEY \<or> frame = FRAME_CONFIG then Some frame
      else map_option (\<lambda>type. merge_frame type frame) (frame_of hevc_frames type))"

section \<open>NAL units behind their size\<close>

text \<open>
  The loop over \<open>{size32}{NALU}\<close> that \<open>AVC::ParseVideoConfig\<close>, \<open>HEVC::ParseVideoConfig\<close> and
  \<open>NALNetWriter::writeVideo\<close> share: a size beyond the end is cut to it, an empty unit is passed over.
\<close>

lemma br_read32_less: "(x, r') = br_read32 r \<Longrightarrow> br_available r \<noteq> 0 \<Longrightarrow> br_available r' < br_available r"
  by (auto simp: br_read32_def br_read_def br_available_def Let_def split: prod.splits if_splits)

lemma br_read16_less: "(x, r') = br_read16 r \<Longrightarrow> br_available r \<noteq> 0 \<Longrightarrow> br_available r' < br_available r"
  by (auto simp: br_read16_def br_read_def br_available_def Let_def split: prod.splits if_splits)

lemma br_read8_le: "(x, r') = br_read8 r \<Longrightarrow> br_available r' \<le> br_available r"
  by (auto simp: br_read8_def br_available_def split: if_splits)

lemma br_next_le: "br_available (snd (br_next n r)) \<le> br_available r"
  by (simp add: br_next_def br_available_def Let_def)

function fold_nals :: "(bytes \<Rightarrow> 's \<Rightarrow> 's) \<Rightarrow> breader \<Rightarrow> 's \<Rightarrow> 's" where
  "fold_nals body r s =
     (if br_available r = 0 then s
      else let (size, r) = br_read32 r;
               size = min (unat size) (br_available r)
           in if size = 0 then fold_nals body r s
              else fold_nals body (snd (br_next size r)) (body (take size (drop (rd_cur r) (rd_data r))) s))"
  by pat_completeness auto
termination
  by (relation "measure (\<lambda>(body, r, s). br_available r)")
     (auto dest!: br_read32_less intro: le_less_trans[OF br_next_le])

declare fold_nals.simps [simp del]

section \<open>H264 configuration\<close>

definition avc_parse_nal :: "bytes \<Rightarrow> bytes \<times> bytes \<Rightarrow> bytes \<times> bytes" where
  "avc_parse_nal nal = (\<lambda>(sps, pps).
     let id = hd nal AND 0x1F in if id = 7 then (nal, pps) else if id = 8 then (sps, nal) else (sps, pps))"

definition avc_ParseVideoConfig :: "bytes \<Rightarrow> bytes \<times> bytes \<Rightarrow> bool \<times> bytes \<times> bytes" where
  "avc_ParseVideoConfig packet sets =
     (let (sps, pps) = fold_nals avc_parse_nal (net_reader packet) sets in (sps \<noteq> [], sps, pps))"

text \<open>The loop over the units of the record, first the SPS then, once, the PPS.\<close>

function avc_read_loop :: "breader \<Rightarrow> u8 \<Rightarrow> bool \<Rightarrow> bytes \<Rightarrow> bytes" where
  "avc_read_loop r count isPPS buffer =
     (if \<not> (br_available r \<ge> 2 \<and> count \<noteq> 0) then buffer
      else let count = count - 1;
               (size, r) = br_read16 r;
               size = min (unat size) (br_available r);
               buffer = buffer @ net32 (of_nat size) @ take size (drop (rd_cur r) (rd_data r));
               r = snd (br_next size r)
           in if count \<noteq> 0 then avc_read_loop r count isPPS buffer
              else if isPPS then buffer
              else let (count, r) = br_read8 r in avc_read_loop r count True buffer)"
  by pat_completeness auto
termination
  by (relation "measure (\<lambda>(r, count, isPPS, buffer). br_available r)")
     (auto dest!: br_read16_less br_read8_le intro: le_less_trans[OF br_next_le] le_less_trans[OF le_trans[OF _ br_next_le]])

declare avc_read_loop.simps [simp del]

definition avc_ReadVideoConfig :: "bytes \<Rightarrow> bytes \<Rightarrow> bytes" where
  "avc_ReadVideoConfig data buffer =
     (let r = snd (br_next 5 (net_reader data)); (count, r) = br_read8 r
      in avc_read_loop r (count AND 0x1F) False buffer)"

definition avc_WriteVideoConfig :: "bytes \<Rightarrow> bytes \<Rightarrow> bytes option" where
  "avc_WriteVideoConfig sps pps =
     (if length sps < 4 then None
      else Some ([0x01] @ take 3 (drop 1 sps) @ [0xFF]
        @ [0xE1] @ net16 (of_nat (length sps)) @ sps
        @ [0x01] @ net16 (of_nat (length pps)) @ pps))"

section \<open>HEVC configuration\<close>

definition hevc_parse_nal :: "bytes \<Rightarrow> bytes \<times> bytes \<times> bytes \<Rightarrow> bytes \<times> bytes \<times> bytes" where
  "hevc_parse_nal nal = (\<lambda>(vps, sps, pps).
     let id = drop_bit 1 (hd nal AND 0x7F)
     in if id = 32 then (nal, sps, pps) else if id = 33 then (vps, nal, pps)
        else if id = 34 then (vps, sps, nal) else (vps, sps, pps))"

definition hevc_ParseVideoConfig :: "bytes \<Rightarrow> bytes \<times> bytes \<times> bytes \<Rightarrow> bool \<times> bytes \<times> bytes \<times> bytes" where
  "hevc_ParseVideoConfig packet sets =
     (let (vps, sps, pps) = fold_nals hevc_parse_nal (net_reader packet) sets
      in (sps \<noteq> [] \<and> vps \<noteq> [], vps, sps, pps))"

text \<open>
  The units of one array, put one behind the other; \<open>writer.write(reader.current(), nalULength)\<close> takes
  the length from the data and does not look at what is left.
\<close>

fun hevc_nalus :: "nat \<Rightarrow> breader \<Rightarrow> bytes \<Rightarrow> (bytes \<times> breader) option" where
  "hevc_nalus 0 r out = Some (out, r)"
| "hevc_nalus (Suc n) r out =
     (let (len, r) = br_read16 r
      in if unat len > br_available r then None
         else hevc_nalus n (snd (br_next (unat len) r)) (out @ take (unat len) (drop (rd_cur r) (rd_data r))))"

lemma br_read16_le: "(x, r') = br_read16 r \<Longrightarrow> br_available r' \<le> br_available r"
  by (auto simp: br_read16_def br_read_def br_available_def Let_def split: prod.splits if_splits)

lemma hevc_nalus_le: "hevc_nalus n r out = Some (out', r') \<Longrightarrow> br_available r' \<le> br_available r"
proof (induction n r out rule: hevc_nalus.induct)
  case (2 n r out)
  obtain len r1 where r1: "br_read16 r = (len, r1)" by fastforce
  have "br_available r' \<le> br_available (snd (br_next (unat len) r1))"
    using 2 by (simp add: r1 split: if_splits)
  also have "\<dots> \<le> br_available r1" by (rule br_next_le)
  also have "\<dots> \<le> br_available r" using br_read16_le[of len r1 r] by (simp add: r1)
  finally show ?case .
qed simp

text \<open>\<open>fresh\<close> is what the four bytes reserved for the size hold until it is written.\<close>

function hevc_read_loop :: "bytes \<Rightarrow> breader \<Rightarrow> u8 \<Rightarrow> bytes \<Rightarrow> bytes option" where
  "hevc_read_loop fresh r numOfArrays buffer =
     (if \<not> (br_available r \<ge> 3 \<and> numOfArrays \<noteq> 0) then Some buffer
      else let (nalType, r) = br_read8 r;
               (nalus, r) = br_read16 r;
               type = nalType AND 0x3F
           in if type \<noteq> 0x20 \<and> type \<noteq> 0x21 \<and> type \<noteq> 0x22 then Some (buffer @ fresh)
              else (case hevc_nalus (unat nalus) r [] of
                      None \<Rightarrow> None
                    | Some (units, r) \<Rightarrow>
                        let buffer = buffer @ net32 (of_nat (length units)) @ units
                        in if type = 0x22 then Some buffer
                           else hevc_read_loop fresh r (numOfArrays - 1) buffer))"
  by pat_completeness auto
termination
proof -
  have le: "br_available r2 < br_available r"
    if "(a, r1) = br_read8 r" "(b, r') = br_read16 r1" "hevc_nalus n r' [] = Some (u, r2)" "3 \<le> br_available r"
    for a b n u and r r' r1 r2 :: breader
  proof -
    have "br_available r' < br_available r"
    proof (cases "br_available r1 = 0")
      case True
      then show ?thesis using br_read16_le[OF that(2)] that(4) by simp
    next
      case False
      then show ?thesis using br_read16_less[OF that(2)] br_read8_le[OF that(1)] by simp
    qed
    then show ?thesis using hevc_nalus_le[OF that(3)] by simp
  qed
  show ?thesis
    by (relation "measure (\<lambda>(fresh, r, n, b). br_available r)") (auto intro: le)
qed

declare hevc_read_loop.simps [simp del]

definition hevc_ReadVideoConfig :: "bytes \<Rightarrow> bytes \<Rightarrow> bytes \<Rightarrow> bytes option" where
  "hevc_ReadVideoConfig fresh data buffer =
     (let r = snd (br_next 22 (net_reader data)); (numOfArrays, r) = br_read8 r
      in hevc_read_loop fresh r numOfArrays buffer)"

definition hevc_header :: bytes where
  "hevc_header = [1, 1, 0x60, 0, 0, 0, 0x90, 0, 0, 0, 0, 0, 0x3C, 0xF0, 0, 0xFC, 0xFD, 0xF8, 0xF8, 0, 0, 0x0F]"

definition hevc_array :: "u8 \<Rightarrow> bytes \<Rightarrow> bytes" where
  "hevc_array type nal = [type] @ net16 1 @ net16 (of_nat (length nal)) @ nal"

definition hevc_WriteVideoConfig :: "bytes \<Rightarrow> bytes \<Rightarrow> bytes \<Rightarrow> bytes" where
  "hevc_WriteVideoConfig vps sps pps =
     hevc_header @ [3] @ hevc_array 0x20 vps @ hevc_array 0x21 sps @ hevc_array 0x22 pps"

section \<open>Video dimension\<close>

text \<open>Sequencing of the reads of a parameter set whose value is not used.\<close>

definition skip_bits :: "nat \<Rightarrow> bit_reader \<Rightarrow> bit_reader" where
  "skip_bits n r = snd (bt_next n r)"

definition skip_golomb :: "bit_reader \<Rightarrow> bit_reader" where
  "skip_golomb r = snd (ReadExpGolomb r)"

fun skip_golombs :: "nat \<Rightarrow> bit_reader \<Rightarrow> bit_reader" where
  "skip_golombs 0 r = r"
| "skip_golombs (Suc n) r = skip_golombs n (skip_golomb r)"

text \<open>
  One scaling list: the \<open>Int16\<close> delta, the scale in a \<open>UInt8\<close> (the remainder of C by 256 and its
  conversion are the remainder modulo 256), and the early end on a scale of 0.
\<close>

definition scaling_delta :: "u16 \<Rightarrow> int" where
  "scaling_delta v = (let delta = sint v in if odd delta then (delta + 1) div 2 else - (delta div 2))"

fun avc_scaling_list :: "nat \<Rightarrow> u8 \<Rightarrow> bit_reader \<Rightarrow> bit_reader" where
  "avc_scaling_list 0 scale r = r"
| "avc_scaling_list (Suc n) scale r =
     (let (v, r) = ReadExpGolomb r;
          scale = word_of_int (uint scale + scaling_delta v + 256) :: u8
      in if scale = 0 then r else avc_scaling_list n scale r)"

fun avc_scaling_lists :: "nat list \<Rightarrow> bit_reader \<Rightarrow> bit_reader" where
  "avc_scaling_lists [] r = r"
| "avc_scaling_lists (i # is) r =
     (let (present, r) = bt_read r
      in avc_scaling_lists is (if present then avc_scaling_list (if i < 6 then 16 else 64) 8 r else r))"

definition avc_high_profile :: "u8 \<Rightarrow> bool" where
  "avc_high_profile idc \<longleftrightarrow> idc \<in> {100, 110, 122, 144, 44, 83, 86, 118}"

definition avc_chroma :: "bit_reader \<Rightarrow> u16 \<times> u16 \<times> bit_reader" where
  "avc_chroma r =
     (let (format, r) = ReadExpGolomb r;
          (subWidthC, subHeightC, r) =
            (if format = 1 then (2, 2, r)
             else if format = 2 then (2, 1, r)
             else if format = 3 then (let (separate, r) = bt_read r in if separate then (0, 0, r) else (1, 1, r))
             else (0, 0, r));
          r = skip_golomb r; r = skip_golomb r; r = skip_bits 1 r;
          (matrix, r) = bt_read r;
          r = (if matrix then avc_scaling_lists [0..<8] r else r)
      in (subWidthC, subHeightC, r))"

definition avc_poc :: "bit_reader \<Rightarrow> bit_reader" where
  "avc_poc r =
     (let (picOrderCntType, r) = ReadExpGolomb r
      in if picOrderCntType = 0 then skip_golomb r
         else if picOrderCntType = 1 then
           (let r = skip_bits 1 r; r = skip_golomb r; r = skip_golomb r; (refFrames, r) = ReadExpGolomb r
            in skip_golombs (unat refFrames) r)
         else r)"

definition avc_crop :: "bit_reader \<Rightarrow> (u16 \<times> u16 \<times> u16 \<times> u16)" where
  "avc_crop r =
     (let (cropping, r) = bt_read r
      in if \<not> cropping then (0, 0, 0, 0)
         else let (left, r) = ReadExpGolomb r; (right, r) = ReadExpGolomb r;
                  (top, r) = ReadExpGolomb r; (bottom, r) = ReadExpGolomb r
              in (left, right, top, bottom))"

text \<open>The dimension, the width in the high half; the differences are those of 32 bit integers.\<close>

definition avc_dimension :: "u16 \<Rightarrow> u16 \<Rightarrow> u16 \<Rightarrow> u16 \<Rightarrow> (u16 \<times> u16 \<times> u16 \<times> u16) \<Rightarrow> u32" where
  "avc_dimension picWidth picHeight subWidthC subHeightC = (\<lambda>(left, right, top, bottom).
     push_bit 16 (ucast picWidth - ucast subWidthC * (ucast left + ucast right))
       OR (ucast picHeight - ucast subHeightC * (ucast top + ucast bottom)))"

definition avc_SPSToVideoDimension :: "bytes \<Rightarrow> u32 option" where
  "avc_SPSToVideoDimension data =
     (if data = [] then None
      else if hd data AND 0x1F \<noteq> 7 then Some 0
      else let r = bit_reader_of (tl data) (length data - 1);
               (idc, r) = bt_read_word 8 r :: u8 \<times> bit_reader;
               r = skip_bits 16 r;
               r = skip_golomb r;
               (subWidthC, subHeightC, r) = (if avc_high_profile idc then avc_chroma r else (0, 0, r));
               r = skip_golomb r;
               r = avc_poc r;
               r = skip_golomb r; r = skip_bits 1 r;
               (w, r) = ReadExpGolomb r;
               (h, r) = ReadExpGolomb r;
               picWidth = (w + 1) * 16; picHeight = (h + 1) * 16;
               (frame_mbs_only, r) = bt_read r;
               (picHeight, subHeightC, r) =
                 (if frame_mbs_only then (picHeight, subHeightC, r)
                  else (picHeight * 2, subHeightC * 2, skip_bits 1 r));
               r = skip_bits 1 r
           in Some (avc_dimension picWidth picHeight subWidthC subHeightC (avc_crop r)))"

text \<open>HEVC: the profile, tier and level, whose sub layers come as a list of two flags each.\<close>

fun hevc_sub_layers :: "nat \<Rightarrow> bit_reader \<Rightarrow> (bool \<times> bool) list \<times> bit_reader" where
  "hevc_sub_layers 0 r = ([], r)"
| "hevc_sub_layers (Suc n) r =
     (let (profile, r) = bt_read r; (level, r) = bt_read r; (layers, r) = hevc_sub_layers n r
      in ((profile, level) # layers, r))"

fun hevc_skip_layers :: "(bool \<times> bool) list \<Rightarrow> bit_reader \<Rightarrow> bit_reader" where
  "hevc_skip_layers [] r = r"
| "hevc_skip_layers ((profile, level) # layers) r =
     (let r = (if profile then skip_bits 12 (skip_bits 32 (skip_bits 4 (skip_bits 32 (skip_bits 8 r)))) else r);
          r = (if level then skip_bits 8 r else r)
      in hevc_skip_layers layers r)"

definition ProcessProfileTierLevel :: "u8 \<Rightarrow> bit_reader \<Rightarrow> bit_reader" where
  "ProcessProfileTierLevel max_sub_layers_minus1 r =
     (let r = skip_bits 8 (skip_bits 12 (skip_bits 32 (skip_bits 4 (skip_bits 32 (skip_bits 8 r)))));
          (layers, r) = hevc_sub_layers (unat max_sub_layers_minus1) r;
          r = (if max_sub_layers_minus1 > 0
               then ((skip_bits 2) ^^ (8 - unat max_sub_layers_minus1)) r else r)
      in hevc_skip_layers layers r)"

definition hevc_SPSToVideoDimension :: "bytes \<Rightarrow> u32" where
  "hevc_SPSToVideoDimension data =
     (let r = bitstream_reader_of data (length data);
          (type, r) = bt_read_word 7 r :: u8 \<times> bit_reader
      in if type AND 0x3F \<noteq> 33 then 0
         else let r = skip_bits 9 r;
                  r = skip_bits 4 r;
                  (max_sub_layers_minus1, r) = bt_read_word 3 r :: u8 \<times> bit_reader;
                  r = skip_bits 1 r;
                  r = ProcessProfileTierLevel max_sub_layers_minus1 r;
                  r = skip_golomb r;
                  (chroma_format_idc, r) = ReadExpGolomb r;
                  r = (if chroma_format_idc = 3 then skip_bits 1 r else r);
                  (w, r) = ReadExpGolomb r;
                  (h, r) = ReadExpGolomb r
              in push_bit 16 (ucast w) OR ucast h)"

section \<open>Units behind their size\<close>

definition nal_stream :: "bytes list \<Rightarrow> bytes" where
  "nal_stream nals = concat (map (\<lambda>nal. net32 (of_nat (length nal)) @ nal) nals)"

lemma br_slice:
  "br_wf r \<Longrightarrow> n \<le> length (br_rest r) \<Longrightarrow> take n (drop (rd_cur r) (rd_data r)) = take n (br_rest r)"
  by (auto simp: br_rest_def br_wf_def drop_take min_def split: if_splits)

lemma br_next_adv: "br_wf r \<Longrightarrow> n \<le> length (br_rest r) \<Longrightarrow> snd (br_next n r) = br_adv n r"
  by (simp add: br_next_def br_adv_def length_br_rest)

lemma fold_nals_Nil: "br_wf r \<Longrightarrow> br_rest r = [] \<Longrightarrow> fold_nals body r s = s"
  using length_br_rest[of r] by (subst fold_nals.simps) simp

lemma fold_nals_stream:
  "br_net r \<Longrightarrow> br_rest r = nal_stream nals \<Longrightarrow> list_all (\<lambda>nal. length nal < 2 ^ 32) nals \<Longrightarrow>
   fold_nals body r s = fold body (filter (\<lambda>nal. nal \<noteq> []) nals) s"
proof (induction nals arbitrary: r s)
  case Nil
  then show ?case by (simp add: nal_stream_def fold_nals_Nil)
next
  case (Cons nal nals)
  let ?n = "length nal"
  have rest: "br_rest r = net32 (of_nat ?n) @ nal @ nal_stream nals" and n: "?n < 2 ^ 32"
    using Cons.prems by (simp_all add: nal_stream_def)
  have w: "br_net (br_adv 4 r)" "br_net (br_adv (4 + ?n) r)" "br_rest (br_adv 4 r) = nal @ nal_stream nals"
    "br_rest (br_adv (4 + ?n) r) = nal_stream nals"
    using Cons.prems(1) rest by (auto intro!: br_wf_adv)
  have a: "br_available r \<noteq> 0" using Cons.prems(1) rest length_br_rest[of r] by (metis add_is_0 length_append length_net(3) zero_neq_numeral)
  have rd: "br_read32 r = (of_nat ?n, br_adv 4 r)"
    using c32.dec_enc[of r "of_nat ?n"] Cons.prems(1) rest by auto
  have u: "unat (of_nat ?n :: u32) = ?n" using n by (simp add: unat_of_nat_small)
  have m: "min ?n (br_available (br_adv 4 r)) = ?n" using w length_br_rest[of "br_adv 4 r"] by simp
  have t: "take ?n (drop (rd_cur (br_adv 4 r)) (rd_data (br_adv 4 r))) = nal"
    using br_slice[of "br_adv 4 r" ?n] by (simp del: br_rest_adv add: w)
  have x: "snd (br_next ?n (br_adv 4 r)) = br_adv (4 + ?n) r" using br_next_adv[of "br_adv 4 r" ?n] by (simp del: br_rest_adv add: w)
  have IH: "fold_nals body (br_adv (4 + ?n) r) s' = fold body (filter (\<lambda>nal. nal \<noteq> []) nals) s'" for s'
    using Cons.IH[OF w(2,4)] Cons.prems(3) by simp
  show ?case
    by (subst fold_nals.simps) (use a rd u m t x IH in \<open>auto simp: Let_def\<close>)
qed


lemma fold_nals_net:
  "list_all (\<lambda>nal. length nal < 2 ^ 32) nals \<Longrightarrow>
   fold_nals body (net_reader (nal_stream nals)) s = fold body (filter (\<lambda>nal. nal \<noteq> []) nals) s"
  by (rule fold_nals_stream) simp_all

section \<open>Configurations are read back\<close>

text \<open>One unit of 16 bit size taken off the reader.\<close>

lemma read_unit16:
  assumes "br_net r" "br_rest r = net16 (of_nat (length nal)) @ nal @ xs" "length nal < 65536"
  shows "br_read16 r = (of_nat (length nal), br_adv 2 r)"
    and "unat (of_nat (length nal) :: u16) = length nal"
    and "length nal \<le> br_available (br_adv 2 r)"
    and "take (length nal) (drop (rd_cur (br_adv 2 r)) (rd_data (br_adv 2 r))) = nal"
    and "snd (br_next (length nal) (br_adv 2 r)) = br_adv (2 + length nal) r"
    and "br_net (br_adv (2 + length nal) r)" and "br_rest (br_adv (2 + length nal) r) = xs"
proof -
  have w: "br_net (br_adv 2 r)" "br_rest (br_adv 2 r) = nal @ xs"
    using assms(1,2) by (auto intro!: br_wf_adv)
  show "br_read16 r = (of_nat (length nal), br_adv 2 r)"
    using c16.dec_enc[of r "of_nat (length nal)"] assms(1,2) by auto
  show "unat (of_nat (length nal) :: u16) = length nal" using assms(3) by (simp add: unat_of_nat_small)
  show "length nal \<le> br_available (br_adv 2 r)" using w length_br_rest[of "br_adv 2 r"] by simp
  show "take (length nal) (drop (rd_cur (br_adv 2 r)) (rd_data (br_adv 2 r))) = nal"
    using br_slice[of "br_adv 2 r" "length nal"] w(1) by (simp del: br_rest_adv add: w(2))
  show "snd (br_next (length nal) (br_adv 2 r)) = br_adv (2 + length nal) r"
    using br_next_adv[of "br_adv 2 r" "length nal"] w(1) by (simp del: br_rest_adv add: w(2))
  show "br_net (br_adv (2 + length nal) r)" "br_rest (br_adv (2 + length nal) r) = xs"
    using assms(1,2) by (auto intro!: br_wf_adv)
qed

text \<open>The parameter sets \<open>WriteVideoConfig\<close> is for.\<close>

definition avc_sets :: "bytes \<Rightarrow> bytes \<Rightarrow> bool" where
  "avc_sets sps pps \<longleftrightarrow> 4 \<le> length sps \<and> length sps < 65536 \<and> length pps < 65536
     \<and> hd sps AND 0x1F = 7 \<and> (pps \<noteq> [] \<longrightarrow> hd pps AND 0x1F = 8)"

lemma avc_read_written:
  assumes "avc_sets sps pps" "avc_WriteVideoConfig sps pps = Some config"
  shows "avc_ReadVideoConfig (config @ xs) buffer = buffer @ nal_stream [sps, pps]"
proof -
  have c: "config @ xs = ([0x01] @ take 3 (drop 1 sps) @ [0xFF]) @ [0xE1] @ net16 (of_nat (length sps)) @ sps
      @ [0x01] @ net16 (of_nat (length pps)) @ pps @ xs"
    and l: "4 \<le> length sps" "length sps < 65536" "length pps < 65536"
    using assms by (auto simp: avc_WriteVideoConfig_def avc_sets_def)
  let ?r = "net_reader (config @ xs)"
  have 5: "snd (br_next 5 ?r) = br_adv 5 ?r" using c l by (intro br_next_adv) simp_all
  have w5: "br_net (br_adv 5 ?r)" "br_rest (br_adv 5 ?r) = [0xE1] @ net16 (of_nat (length sps)) @ sps
      @ [0x01] @ net16 (of_nat (length pps)) @ pps @ xs"
    using l by (simp_all add: c)
  have 6: "br_read8 (br_adv 5 ?r) = (0xE1, br_adv 6 ?r)" using w5 by (simp add: br_read8_rest)
  define r1 where "r1 = br_adv 6 ?r"
  have w6: "br_net r1" "br_rest r1 = net16 (of_nat (length sps)) @ sps @ [0x01] @ net16 (of_nat (length pps)) @ pps @ xs"
    using l by (simp_all add: r1_def c)
  note s = read_unit16[OF w6 l(2)]
  define r2 where "r2 = br_adv (2 + length sps) r1"
  have r2: "br_net r2" "br_rest r2 = [0x01] @ net16 (of_nat (length pps)) @ pps @ xs" using s(6,7) by (simp_all add: r2_def)
  have 8: "br_read8 r2 = (1, br_adv 1 r2)" using r2 by (simp add: br_read8_rest)
  have w8: "br_net (br_adv 1 r2)" "br_rest (br_adv 1 r2) = net16 (of_nat (length pps)) @ pps @ xs"
    using r2 by (auto intro!: br_wf_adv)
  note p = read_unit16[OF w8 l(3)]
  have a1: "br_available r1 \<ge> 2" "br_available (br_adv 1 r2) \<ge> 2"
    using w6 w8 length_br_rest[of r1] length_br_rest[of "br_adv 1 r2"] by auto
  have pps: "avc_read_loop (br_adv 1 r2) 1 True b = b @ net32 (of_nat (length pps)) @ pps" for b
    by (subst avc_read_loop.simps) (use a1 p in \<open>simp add: min_absorb1\<close>)
  have "avc_read_loop r1 1 False buffer = avc_read_loop (br_adv 1 r2) 1 True (buffer @ net32 (of_nat (length sps)) @ sps)"
    by (subst avc_read_loop.simps) (use a1 s 8 in \<open>simp add: min_absorb1 r2_def Let_def\<close>)
  then show ?thesis
    unfolding avc_ReadVideoConfig_def 5 Let_def 6 prod.case r1_def[symmetric]
    by (simp add: pps nal_stream_def del: One_nat_def)
qed

lemma avc_parse_stream:
  assumes "avc_sets sps pps"
  shows "avc_ParseVideoConfig (nal_stream [sps, pps]) ([], []) = (True, sps, pps)"
proof -
  have "list_all (\<lambda>nal. length nal < 2 ^ 32) [sps, pps]" "sps \<noteq> []" using assms by (auto simp: avc_sets_def)
  then show ?thesis
    using assms by (auto simp: avc_ParseVideoConfig_def fold_nals_net avc_parse_nal_def avc_sets_def)
qed

text \<open>
  C20. The MP4 record of an H264 configuration is read back: for an SPS of at least 4 bytes and a PPS
  (or none), both shorter than 64 KiB, \<open>WriteVideoConfig\<close> succeeds, \<open>ReadVideoConfig\<close> on what it
  wrote, whatever follows, appends the two sets behind their sizes, and \<open>ParseVideoConfig\<close> on that
  finds exactly the two sets.
\<close>

theorem avc_config_roundtrip:
  assumes "avc_sets sps pps"
  shows "\<exists>config. avc_WriteVideoConfig sps pps = Some config
    \<and> avc_ReadVideoConfig (config @ xs) buffer = buffer @ nal_stream [sps, pps]
    \<and> avc_ParseVideoConfig (avc_ReadVideoConfig (config @ xs) []) ([], []) = (True, sps, pps)"
proof -
  obtain config where c: "avc_WriteVideoConfig sps pps = Some config"
    using assms by (simp add: avc_WriteVideoConfig_def avc_sets_def)
  then show ?thesis
    using avc_read_written[OF assms c] avc_parse_stream[OF assms] by simp
qed

theorem avc_config_roundtrip_witness:
  "\<exists>config. avc_WriteVideoConfig [0x67, 66, 0, 30] [0x68, 1] = Some config
    \<and> avc_ReadVideoConfig (config @ []) [] = nal_stream [[0x67, 66, 0, 30], [0x68, 1]]
    \<and> avc_ParseVideoConfig (avc_ReadVideoConfig (config @ []) []) ([], []) = (True, [0x67, 66, 0, 30], [0x68, 1])"
  using avc_config_roundtrip[of "[0x67, 66, 0, 30]" "[0x68, 1]" "[]" "[]"] by (simp add: avc_sets_def)


lemma hevc_read_array:
  assumes "br_net r" "br_rest r = hevc_array type nal @ xs" "length nal < 65536" "count \<noteq> 0"
    and "type = 0x20 \<or> type = 0x21 \<or> type = 0x22"
  shows "hevc_read_loop fresh r count buffer =
     (let buffer = buffer @ net32 (of_nat (length nal)) @ nal
      in if type = 0x22 then Some buffer else hevc_read_loop fresh (br_adv (5 + length nal) r) (count - 1) buffer)"
proof -
  have rest: "br_rest r = [type] @ net16 1 @ net16 (of_nat (length nal)) @ nal @ xs"
    using assms(2) by (simp add: hevc_array_def)
  have w: "br_net (br_adv 1 r)" "br_rest (br_adv 1 r) = net16 1 @ net16 (of_nat (length nal)) @ nal @ xs"
    "br_net (br_adv 3 r)" "br_rest (br_adv 3 r) = net16 (of_nat (length nal)) @ nal @ xs"
    using assms(1) rest by (auto intro!: br_wf_adv simp: numeral_3_eq_3 numeral_2_eq_2)
  have r8: "br_read8 r = (type, br_adv 1 r)" using assms(1) rest by (simp add: br_read8_rest)
  have r16: "br_read16 (br_adv 1 r) = (1, br_adv 3 r)"
    using c16.dec_enc[of "br_adv 1 r" 1] w(1,2) by (auto simp: numeral_3_eq_3)
  note u = read_unit16[OF w(3,4) assms(3)]
  have n: "hevc_nalus 1 (br_adv 3 r) [] = Some (nal, br_adv (5 + length nal) r)"
    using u by (simp add: add.assoc[symmetric])
  have a: "3 \<le> br_available r" using assms(1) rest length_br_rest[of r] by simp
  have t: "type AND 0x3F = type" using assms(5) by auto
  show "hevc_read_loop fresh r count buffer =
     (let buffer = buffer @ net32 (of_nat (length nal)) @ nal
      in if type = 0x22 then Some buffer else hevc_read_loop fresh (br_adv (5 + length nal) r) (count - 1) buffer)"
    by (subst hevc_read_loop.simps) (use a r8 r16 n t assms(4,5) in \<open>auto simp: Let_def simp del: One_nat_def hevc_nalus.simps\<close>)
qed

lemma hevc_array_adv:
  assumes "br_net r" "br_rest r = hevc_array type nal @ xs"
  shows "br_net (br_adv (5 + length nal) r)" and "br_rest (br_adv (5 + length nal) r) = xs"
proof -
  let ?p = "hevc_array type nal"
  have p: "5 + length nal = length ?p" by (simp add: hevc_array_def)
  show "br_net (br_adv (5 + length nal) r)" "br_rest (br_adv (5 + length nal) r) = xs"
    using assms unfolding p by (auto intro!: br_wf_adv)
qed

definition hevc_sets :: "bytes \<Rightarrow> bytes \<Rightarrow> bytes \<Rightarrow> bool" where
  "hevc_sets vps sps pps \<longleftrightarrow> vps \<noteq> [] \<and> sps \<noteq> [] \<and> length vps < 65536 \<and> length sps < 65536 \<and> length pps < 65536
     \<and> hevc_NalType (hd vps) = 32 \<and> hevc_NalType (hd sps) = 33 \<and> (pps \<noteq> [] \<longrightarrow> hevc_NalType (hd pps) = 34)"

lemma hevc_read_written:
  assumes "hevc_sets vps sps pps"
  shows "hevc_ReadVideoConfig fresh (hevc_WriteVideoConfig vps sps pps @ xs) buffer
    = Some (buffer @ nal_stream [vps, sps, pps])"
proof -
  have l: "length vps < 65536" "length sps < 65536" "length pps < 65536" using assms by (auto simp: hevc_sets_def)
  let ?r = "net_reader (hevc_WriteVideoConfig vps sps pps @ xs)"
  have h: "length hevc_header = 22" by (simp add: hevc_header_def)
  have w22: "br_net (br_adv 22 ?r)" "br_rest (br_adv 22 ?r) = [3] @ hevc_array 0x20 vps @ hevc_array 0x21 sps @ hevc_array 0x22 pps @ xs"
    using h by (simp_all add: hevc_WriteVideoConfig_def)
  have 22: "snd (br_next 22 ?r) = br_adv 22 ?r" using h by (intro br_next_adv) (simp_all add: hevc_WriteVideoConfig_def)
  have 23: "br_read8 (br_adv 22 ?r) = (3, br_adv 1 (br_adv 22 ?r))" using w22 by (simp add: br_read8_rest)
  define r0 where "r0 = br_adv 1 (br_adv 22 ?r)"
  have w: "br_net r0" "br_rest r0 = hevc_array 0x20 vps @ hevc_array 0x21 sps @ hevc_array 0x22 pps @ xs"
    using w22 unfolding r0_def by (auto intro!: br_wf_adv simp del: br_adv_adv)
  note w1 = hevc_array_adv[OF w]
  note w2 = hevc_array_adv[OF w1]
  have "hevc_read_loop fresh r0 3 buffer = Some (buffer @ nal_stream [vps, sps, pps])"
    using hevc_read_array[OF w l(1), of 3 fresh] hevc_read_array[OF w1 l(2), of 2 fresh]
      hevc_read_array[OF w2 l(3), of 1 fresh] by (simp add: nal_stream_def)
  then show ?thesis
    unfolding hevc_ReadVideoConfig_def 22 Let_def 23 prod.case r0_def[symmetric] .
qed

lemma hevc_parse_stream:
  assumes "hevc_sets vps sps pps"
  shows "hevc_ParseVideoConfig (nal_stream [vps, sps, pps]) ([], [], []) = (True, vps, sps, pps)"
proof -
  have "list_all (\<lambda>nal. length nal < 2 ^ 32) [vps, sps, pps]" "vps \<noteq> []" "sps \<noteq> []"
    using assms by (auto simp: hevc_sets_def)
  then show ?thesis
    using assms by (auto simp: hevc_ParseVideoConfig_def fold_nals_net hevc_parse_nal_def hevc_sets_def hevc_NalType_def)
qed

text \<open>
  C21. The MP4 record of an HEVC configuration is read back: what \<open>WriteVideoConfig\<close> wrote for a VPS,
  an SPS and a PPS (or none), each shorter than 64 KiB and of its NAL type, is read without a read
  behind the data, whatever follows, as the three sets behind their sizes, and \<open>ParseVideoConfig\<close> on
  that finds exactly the three sets.
\<close>

theorem hevc_config_roundtrip:
  assumes "hevc_sets vps sps pps"
  shows "hevc_ReadVideoConfig fresh (hevc_WriteVideoConfig vps sps pps @ xs) buffer
      = Some (buffer @ nal_stream [vps, sps, pps])
    \<and> hevc_ParseVideoConfig (nal_stream [vps, sps, pps]) ([], [], []) = (True, vps, sps, pps)"
  using hevc_read_written[OF assms] hevc_parse_stream[OF assms] by simp

theorem hevc_config_roundtrip_witness:
  "hevc_ReadVideoConfig [0, 0, 0, 0] (hevc_WriteVideoConfig [0x40, 1] [0x42, 1] [0x44, 1] @ [9]) []
      = Some (nal_stream [[0x40, 1], [0x42, 1], [0x44, 1]])"
  using hevc_config_roundtrip[of "[0x40, 1]" "[0x42, 1]" "[0x44, 1]" "[0, 0, 0, 0]" "[9]" "[]"]
  by (simp add: hevc_sets_def hevc_NalType_def)

end
