(* ===== verification/SPS.thy ===== *)
theory SPS
  imports VideoConfig
begin

text \<open>
  What \<open>SPSToVideoDimension\<close> finds in a sequence parameter set.  A set is described by its fields and
  written as bits with the codes of the standard; the parsers of \<open>AVC\<close> and \<open>HEVC\<close> are then run on those
  bits, followed by anything.
\<close>

section \<open>Steps over a field\<close>

definition reads :: "bit_reader \<Rightarrow> bool list \<Rightarrow> bool" where
  "reads r bs \<longleftrightarrow> bt_wf r \<and> bits_rest r = bs"

lemma reads_golomb:
  assumes "reads r (exp_golomb v @ xs)" "v < 65535"
  obtains r' where "ReadExpGolomb r = (of_nat v, r')" "reads r' xs"
  using assms golomb.decE[of v r xs] by (auto simp: reads_def)

lemma reads_skip_golomb: "reads r (exp_golomb v @ xs) \<Longrightarrow> v < 65535 \<Longrightarrow> reads (skip_golomb r) xs"
  by (erule reads_golomb) (auto simp: skip_golomb_def)

lemma reads_skip_golombs:
  "reads r (concat (map exp_golomb vs) @ xs) \<Longrightarrow> list_all (\<lambda>v. v < 65535) vs \<Longrightarrow> reads (skip_golombs (length vs) r) xs"
proof (induction vs arbitrary: r)
  case (Cons v vs)
  then have "reads (skip_golomb r) (concat (map exp_golomb vs) @ xs)"
    using reads_skip_golomb[of r v] by simp
  then show ?case using Cons by simp
qed simp

lemma reads_flag:
  assumes "reads r (b # xs)"
  obtains r' where "bt_read r = (b, r')" "reads r' xs"
  using assms bt_read_Cons[of r b xs] by (auto simp: reads_def)

lemma reads_skip: "reads r (bs @ xs) \<Longrightarrow> length bs = n \<Longrightarrow> reads (skip_bits n r) xs"
  using bt_next_skip[of r bs xs n] by (simp add: reads_def skip_bits_def)

lemma reads_skip1: "reads r (b # xs) \<Longrightarrow> reads (skip_bits 1 r) xs"
  using reads_skip[of r "[b]" xs 1] by simp

lemma reads_word:
  fixes w :: "'a::len word"
  assumes "reads r (low_bits n v @ xs)" "n \<le> LENGTH('a)" "v < 2 ^ n"
  obtains r' where "bt_read_word n r = (of_nat v :: 'a word, r')" "reads r' xs"
proof -
  have "length (low_bits n v) = n \<and> n \<le> LENGTH('a)" using assms(2) by simp
  moreover have "bt_wf r" "bits_rest r = id (low_bits n v) @ xs" using assms(1) by (simp_all add: reads_def)
  ultimately obtain r' where "bt_read_word n r = (push_bits 0 (low_bits n v) :: 'a word, r')" "bt_wf r'" "bits_rest r' = xs"
    by (rule bits.decE)
  then show ?thesis using assms(3) that by (simp add: push_bits_low_bits reads_def)
qed

section \<open>H264\<close>

datatype poc = Poc0 nat | Poc1 bool nat nat "nat list" | PocOther nat

record avc_sps =
  ss_idc :: u8
  ss_constraints :: "bool list"
  ss_id :: nat
  ss_chroma :: nat
  ss_separate :: bool
  ss_depths :: "nat \<times> nat"
  ss_bypass :: bool
  ss_frame_num :: nat
  ss_poc :: poc
  ss_refs :: nat
  ss_gaps :: bool
  ss_width :: nat
  ss_height :: nat
  ss_frame_mbs_only :: bool
  ss_mbaff :: bool
  ss_direct :: bool
  ss_crop :: "(nat \<times> nat \<times> nat \<times> nat) option"

fun poc_bits :: "poc \<Rightarrow> bool list" where
  "poc_bits (Poc0 v) = exp_golomb 0 @ exp_golomb v"
| "poc_bits (Poc1 b v w offsets) = exp_golomb 1 @ [b] @ exp_golomb v @ exp_golomb w
     @ exp_golomb (length offsets) @ concat (map exp_golomb offsets)"
| "poc_bits (PocOther t) = exp_golomb t"

fun poc_ok :: "poc \<Rightarrow> bool" where
  "poc_ok (Poc0 v) \<longleftrightarrow> v < 65535"
| "poc_ok (Poc1 b v w offsets) \<longleftrightarrow> v < 65535 \<and> w < 65535 \<and> length offsets < 65535 \<and> list_all (\<lambda>v. v < 65535) offsets"
| "poc_ok (PocOther t) \<longleftrightarrow> 2 \<le> t \<and> t < 65535"

definition chroma_bits :: "avc_sps \<Rightarrow> bool list" where
  "chroma_bits s = exp_golomb (ss_chroma s) @ (if ss_chroma s = 3 then [ss_separate s] else [])
     @ exp_golomb (fst (ss_depths s)) @ exp_golomb (snd (ss_depths s)) @ [ss_bypass s] @ [False]"

definition crop_bits :: "(nat \<times> nat \<times> nat \<times> nat) option \<Rightarrow> bool list" where
  "crop_bits crop = (case crop of None \<Rightarrow> [False]
     | Some (l, r, t, b) \<Rightarrow> [True] @ exp_golomb l @ exp_golomb r @ exp_golomb t @ exp_golomb b)"

text \<open>The profiles whose set carries a chroma format, from the syntax of the standard (H.264, 7.3.2.1.1).\<close>

definition carries_chroma :: "nat \<Rightarrow> bool" where
  "carries_chroma profile_idc \<longleftrightarrow> profile_idc \<in> {100, 110, 122, 244, 44, 83, 86, 118, 128, 138, 139, 134, 135}"

definition avc_sps_bits :: "avc_sps \<Rightarrow> bool list" where
  "avc_sps_bits s = low_bits 8 (unat (ss_idc s)) @ ss_constraints s @ exp_golomb (ss_id s)
     @ (if carries_chroma (unat (ss_idc s)) then chroma_bits s else [])
     @ exp_golomb (ss_frame_num s) @ poc_bits (ss_poc s) @ exp_golomb (ss_refs s) @ [ss_gaps s]
     @ exp_golomb (ss_width s) @ exp_golomb (ss_height s) @ [ss_frame_mbs_only s]
     @ (if ss_frame_mbs_only s then [] else [ss_mbaff s]) @ [ss_direct s] @ crop_bits (ss_crop s)"

text \<open>The size of a cropping unit as the code takes it: 0 without a chroma format in the set.\<close>

definition read_unit :: "avc_sps \<Rightarrow> nat \<times> nat" where
  "read_unit s =
     (let (x, y) = (if \<not> avc_high_profile (ss_idc s) then (0, 0)
                    else if ss_chroma s = 1 then (2, 2) else if ss_chroma s = 2 then (2, 1)
                    else if ss_chroma s = 3 \<and> \<not> ss_separate s then (1, 1) else (0, 0))
      in (x, if ss_frame_mbs_only s then y else y * 2))"

definition crop_of :: "avc_sps \<Rightarrow> nat \<times> nat \<times> nat \<times> nat" where
  "crop_of s = (case ss_crop s of None \<Rightarrow> (0, 0, 0, 0) | Some c \<Rightarrow> c)"

definition coded_size :: "avc_sps \<Rightarrow> nat \<times> nat" where
  "coded_size s = ((ss_width s + 1) * 16, (ss_height s + 1) * 16 * (if ss_frame_mbs_only s then 1 else 2))"

definition avc_read_ok :: "avc_sps \<Rightarrow> bool" where
  "avc_read_ok s \<longleftrightarrow> length (ss_constraints s) = 16 \<and> ss_id s < 65535 \<and> ss_chroma s < 65535
     \<and> fst (ss_depths s) < 65535 \<and> snd (ss_depths s) < 65535 \<and> ss_frame_num s < 65535 \<and> poc_ok (ss_poc s)
     \<and> ss_refs s < 65535 \<and> fst (coded_size s) < 65536 \<and> snd (coded_size s) < 65536
     \<and> (let (l, r, t, b) = crop_of s; (x, y) = read_unit s in l < 65535 \<and> r < 65535 \<and> t < 65535 \<and> b < 65535
        \<and> x * (l + r) \<le> fst (coded_size s) \<and> y * (t + b) \<le> snd (coded_size s))"

lemma of_nat_u16_eq: "v < 65536 \<Longrightarrow> (of_nat v :: u16) = w \<longleftrightarrow> v = unat w"
  by (auto simp: unat_of_nat_small)

lemma avc_chroma_reads:
  assumes "reads r (chroma_bits s @ xs)" "ss_chroma s < 65535" "fst (ss_depths s) < 65535" "snd (ss_depths s) < 65535"
  shows "\<exists>r'. avc_chroma r =
      (if ss_chroma s = 1 \<or> ss_chroma s = 2 then 2 else if ss_chroma s = 3 \<and> \<not> ss_separate s then 1 else 0,
       if ss_chroma s = 1 then 2 else if ss_chroma s = 2 \<or> ss_chroma s = 3 \<and> \<not> ss_separate s then 1 else 0,
       r') \<and> reads r' xs"
    (is "\<exists>r'. _ = (?x, ?y, r') \<and> _")
proof -
  let ?xs1 = "exp_golomb (fst (ss_depths s)) @ exp_golomb (snd (ss_depths s)) @ [ss_bypass s] @ [False] @ xs"
  obtain r1 where r1: "ReadExpGolomb r = (of_nat (ss_chroma s), r1)"
      "reads r1 ((if ss_chroma s = 3 then [ss_separate s] else []) @ ?xs1)"
    using assms(1,2) by (auto simp: chroma_bits_def elim: reads_golomb)
  have c: "(of_nat (ss_chroma s) :: u16) = w \<longleftrightarrow> ss_chroma s = unat w" for w
    using assms(2) of_nat_u16_eq by simp
  obtain r2 where r2: "reads r2 ?xs1"
    "(if (of_nat (ss_chroma s) :: u16) = 1 then (2, 2, r1)
      else if (of_nat (ss_chroma s) :: u16) = 2 then (2, 1, r1)
      else if (of_nat (ss_chroma s) :: u16) = 3
        then (let (separate, r) = bt_read r1 in if separate then (0, 0, r) else (1, 1, r)) else (0, 0, r1))
     = (?x, ?y, r2)"
  proof (cases "ss_chroma s = 3")
    case True
    then obtain r2 where "bt_read r1 = (ss_separate s, r2)" "reads r2 ?xs1"
      using r1(2) by (auto elim: reads_flag)
    then show ?thesis using that[of r2] True by (simp add: c)
  next
    case False
    then show ?thesis using that[of r1] r1(2) by (simp add: c)
  qed
  define r3 where "r3 = skip_bits 1 (skip_golomb (skip_golomb r2))"
  have "reads r3 ([False] @ xs)"
    unfolding r3_def
    by (rule reads_skip1[where b = "ss_bypass s"]) (use reads_skip_golomb[OF reads_skip_golomb[OF r2(1) assms(3)] assms(4)] in simp)
  then obtain r4 where "bt_read r3 = (False, r4)" "reads r4 xs" by (auto elim: reads_flag)
  then show ?thesis
    unfolding avc_chroma_def r1(1) prod.case Let_def r2(2)[unfolded Let_def] by (simp add: r3_def)
qed


lemma avc_poc_reads:
  assumes "reads r (poc_bits p @ xs)" "poc_ok p"
  shows "reads (avc_poc r) xs"
proof (cases p)
  case (Poc0 v)
  then obtain r1 where "ReadExpGolomb r = (0, r1)" "reads r1 (exp_golomb v @ xs)"
    using reads_golomb[of r 0 "exp_golomb v @ xs"] assms(1) by auto
  then show ?thesis using assms(2) Poc0 reads_skip_golomb[of r1 v xs] by (simp add: avc_poc_def)
next
  case (Poc1 b v w offsets)
  let ?xs = "exp_golomb (length offsets) @ concat (map exp_golomb offsets) @ xs"
  have ok: "v < 65535" "w < 65535" "length offsets < 65535" "list_all (\<lambda>v. v < 65535) offsets"
    using assms(2) Poc1 by simp_all
  obtain r1 where r1: "ReadExpGolomb r = (1, r1)" "reads r1 (b # exp_golomb v @ exp_golomb w @ ?xs)"
    using reads_golomb[of r 1 "b # exp_golomb v @ exp_golomb w @ ?xs"] assms(1) Poc1 by auto
  have "reads (skip_golomb (skip_golomb (skip_bits 1 r1))) ?xs"
    using reads_skip_golomb[OF reads_skip_golomb[OF reads_skip1[OF r1(2)] ok(1)] ok(2)] .
  then obtain r2 where r2: "ReadExpGolomb (skip_golomb (skip_golomb (skip_bits 1 r1))) = (of_nat (length offsets), r2)"
      "reads r2 (concat (map exp_golomb offsets) @ xs)"
    by (rule reads_golomb[OF _ ok(3)])
  have "unat (of_nat (length offsets) :: u16) = length offsets" using ok(3) by (simp add: unat_of_nat_small)
  then show ?thesis
    using reads_skip_golombs[OF r2(2) ok(4)] unfolding avc_poc_def r1(1) prod.case Let_def r2(1) by simp
next
  case (PocOther t)
  then have t: "2 \<le> t" "t < 65535" "reads r (exp_golomb t @ xs)" using assms by simp_all
  obtain r1 where "ReadExpGolomb r = (of_nat t, r1)" "reads r1 xs" by (rule reads_golomb[OF t(3,2)])
  then show ?thesis using t by (simp add: avc_poc_def of_nat_u16_eq)
qed

lemma avc_crop_None:
  assumes "reads r (crop_bits None @ xs)"
  shows "avc_crop r = (0, 0, 0, 0)"
proof -
  obtain r1 where "bt_read r = (False, r1)" using assms reads_flag[of r False xs] by (auto simp: crop_bits_def)
  then show ?thesis by (simp add: avc_crop_def)
qed

lemma avc_crop_Some:
  assumes "reads r (crop_bits (Some (left, right, tp, bt)) @ xs)"
    and ok: "left < 65535" "right < 65535" "tp < 65535" "bt < 65535"
  shows "avc_crop r = (of_nat left, of_nat right, of_nat tp, of_nat bt)"
proof -
  obtain r1 where r1: "bt_read r = (True, r1)" "reads r1 (exp_golomb left @ exp_golomb right @ exp_golomb tp @ exp_golomb bt @ xs)"
    using assms(1) by (rule_tac reads_flag) (simp add: crop_bits_def)
  obtain r2 where r2: "ReadExpGolomb r1 = (of_nat left, r2)" "reads r2 (exp_golomb right @ exp_golomb tp @ exp_golomb bt @ xs)"
    by (rule reads_golomb[OF r1(2) ok(1)])
  obtain r3 where r3: "ReadExpGolomb r2 = (of_nat right, r3)" "reads r3 (exp_golomb tp @ exp_golomb bt @ xs)"
    by (rule reads_golomb[OF r2(2) ok(2)])
  obtain r4 where r4: "ReadExpGolomb r3 = (of_nat tp, r4)" "reads r4 (exp_golomb bt @ xs)"
    by (rule reads_golomb[OF r3(2) ok(3)])
  obtain r5 where "ReadExpGolomb r4 = (of_nat bt, r5)"
    by (rule reads_golomb[OF r4(2) ok(4)])
  then show ?thesis by (simp add: avc_crop_def r1(1) r2(1) r3(1) r4(1))
qed

text \<open>The two differences of the dimension, when the cropping does not exceed the picture.\<close>

lemma u16_u32: "v < 65536 \<Longrightarrow> (ucast (of_nat v :: u16) :: u32) = of_nat v"
  by (rule ucast_of_nat_small) simp

lemma dimension_halves:
  assumes "w < 65536" "h < 65536"
  shows "push_bit 16 (of_nat w :: u32) OR of_nat h = of_nat (w * 65536 + h)"
proof -
  have h: "bit (of_nat h :: u32) n \<Longrightarrow> n < 16" for n
    using assms(2) take_bit_id_less[of "of_nat h :: u32" 16] bit_take_bit_iff[of 16 "of_nat h :: u32" n]
    by (simp add: unat_of_nat_small)
  have "push_bit 16 (of_nat w :: u32) AND of_nat h = 0"
    by (rule bit_word_eqI) (use h in \<open>force simp: bit_and_iff bit_push_bit_iff\<close>)
  then have "push_bit 16 (of_nat w :: u32) OR of_nat h = push_bit 16 (of_nat w) + of_nat h"
    by (rule disjunctive_add_eq_or[symmetric])
  then show ?thesis by (simp add: push_bit_eq_mult)
qed

lemma avc_dimension_crop:
  assumes "w < 65536" "h < 65536" "x \<le> 2" "y \<le> 4" "l < 65535" "r < 65535" "t < 65535" "b < 65535"
    and "x * (l + r) \<le> w" "y * (t + b) \<le> h"
  shows "avc_dimension (of_nat w) (of_nat h) (of_nat x) (of_nat y) (of_nat l, of_nat r, of_nat t, of_nat b)
    = of_nat ((w - x * (l + r)) * 65536 + (h - y * (t + b)))"
proof -
  have "(ucast (of_nat w :: u16) - ucast (of_nat x :: u16) * (ucast (of_nat l :: u16) + ucast (of_nat r :: u16)) :: u32)
      = of_nat (w - x * (l + r))"
    using assms by (simp add: u16_u32 of_nat_diff)
  moreover have "(ucast (of_nat h :: u16) - ucast (of_nat y :: u16) * (ucast (of_nat t :: u16) + ucast (of_nat b :: u16)) :: u32)
      = of_nat (h - y * (t + b))"
    using assms by (simp add: u16_u32 of_nat_diff)
  ultimately show ?thesis
    using assms(1,2) by (simp only: avc_dimension_def prod.case) (simp only: dimension_halves less_imp_diff_less)
qed


lemma avc_high_reads:
  assumes "reads r ((if high then chroma_bits s else []) @ xs)" "avc_read_ok s" "high = avc_high_profile (ss_idc s)"
  obtains r' x y where "(if high then avc_chroma r else (0, 0, r)) = (of_nat x, of_nat y, r')" "reads r' xs"
    "read_unit s = (x, if ss_frame_mbs_only s then y else y * 2)" "x \<le> 2" "y \<le> 2"
proof (cases high)
  case False
  then show thesis using that[of 0 0 r] assms by (auto simp: read_unit_def)
next
  case True
  have "reads r (chroma_bits s @ xs)" "ss_chroma s < 65535" "fst (ss_depths s) < 65535" "snd (ss_depths s) < 65535"
    using assms(1,2) True by (auto simp: avc_read_ok_def)
  from avc_chroma_reads[OF this] obtain r' where "avc_chroma r =
      (if ss_chroma s = 1 \<or> ss_chroma s = 2 then 2 else if ss_chroma s = 3 \<and> \<not> ss_separate s then 1 else 0,
       if ss_chroma s = 1 then 2 else if ss_chroma s = 2 \<or> ss_chroma s = 3 \<and> \<not> ss_separate s then 1 else 0, r')"
    and r': "reads r' xs" by auto
  then show thesis
    using assms(3) True
    by (intro that[of "if ss_chroma s = 1 \<or> ss_chroma s = 2 then 2 else if ss_chroma s = 3 \<and> \<not> ss_separate s then 1 else 0"
          "if ss_chroma s = 1 then 2 else if ss_chroma s = 2 \<or> ss_chroma s = 3 \<and> \<not> ss_separate s then 1 else 0" r'])
       (auto simp: read_unit_def)
qed

lemma avc_crop_value:
  assumes "reads r (crop_bits (ss_crop s) @ xs)" "avc_read_ok s"
  shows "avc_crop r = (case crop_of s of (l, rt, t, b) \<Rightarrow> (of_nat l, of_nat rt, of_nat t, of_nat b))"
proof (cases "ss_crop s")
  case None
  then show ?thesis using assms(1) avc_crop_None by (simp add: crop_of_def)
next
  case (Some c)
  obtain l rt t b where c: "c = (l, rt, t, b)" by (metis prod_cases4)
  have "l < 65535" "rt < 65535" "t < 65535" "b < 65535"
    using assms(2) Some c by (auto simp: avc_read_ok_def crop_of_def split: prod.splits)
  then show ?thesis using avc_crop_Some[of r l rt t b xs] assms(1) Some c by (simp add: crop_of_def)
qed

text \<open>The end of the set, from the coded size on.\<close>

definition avc_tail :: "u16 \<Rightarrow> u16 \<Rightarrow> bit_reader \<Rightarrow> u32" where
  "avc_tail subWidthC subHeightC r =
     (let (w, r) = ReadExpGolomb r;
          (h, r) = ReadExpGolomb r;
          picWidth = (w + 1) * 16; picHeight = (h + 1) * 16;
          (frame_mbs_only, r) = bt_read r;
          (picHeight, subHeightC, r) =
            (if frame_mbs_only then (picHeight, subHeightC, r)
             else (picHeight * 2, subHeightC * 2, skip_bits 1 r));
          r = skip_bits 1 r
      in avc_dimension picWidth picHeight subWidthC subHeightC (avc_crop r))"

definition read_size :: "avc_sps \<Rightarrow> nat \<times> nat" where
  "read_size s =
     (let (w, h) = coded_size s; (x, y) = read_unit s; (l, r, t, b) = crop_of s
      in (w - x * (l + r), h - y * (t + b)))"

lemma avc_tail_reads:
  assumes "reads r (exp_golomb (ss_width s) @ exp_golomb (ss_height s) @ [ss_frame_mbs_only s]
      @ (if ss_frame_mbs_only s then [] else [ss_mbaff s]) @ [ss_direct s] @ crop_bits (ss_crop s) @ xs)"
    and ok: "avc_read_ok s" and unit: "read_unit s = (x, if ss_frame_mbs_only s then y else y * 2)" "x \<le> 2" "y \<le> 2"
  shows "avc_tail (of_nat x) (of_nat y) r = of_nat (fst (read_size s) * 65536 + snd (read_size s))"
proof -
  have w: "ss_width s < 65535" "ss_height s < 65535"
    using ok by (auto simp: avc_read_ok_def coded_size_def split: if_splits)
  obtain r1 where r1: "ReadExpGolomb r = (of_nat (ss_width s), r1)" and "reads r1 (exp_golomb (ss_height s) @ [ss_frame_mbs_only s]
      @ (if ss_frame_mbs_only s then [] else [ss_mbaff s]) @ [ss_direct s] @ crop_bits (ss_crop s) @ xs)"
    using reads_golomb[OF assms(1) w(1)] by auto
  then obtain r2 where r2: "ReadExpGolomb r1 = (of_nat (ss_height s), r2)" and "reads r2 (ss_frame_mbs_only s
      # (if ss_frame_mbs_only s then [] else [ss_mbaff s]) @ [ss_direct s] @ crop_bits (ss_crop s) @ xs)"
    using reads_golomb[of r1 "ss_height s"] w(2) by auto
  then obtain r3 where r3: "bt_read r2 = (ss_frame_mbs_only s, r3)" and
    r3': "reads r3 ((if ss_frame_mbs_only s then [] else [ss_mbaff s]) @ ss_direct s # crop_bits (ss_crop s) @ xs)"
    using reads_flag[of r2 "ss_frame_mbs_only s"] by auto
  define r4 where "r4 = (if ss_frame_mbs_only s then r3 else skip_bits 1 r3)"
  have "reads r4 (ss_direct s # crop_bits (ss_crop s) @ xs)"
    using r3' reads_skip1[of r3 "ss_mbaff s"] by (auto simp: r4_def split: if_splits)
  then have crop: "avc_crop (skip_bits 1 r4) = (case crop_of s of (l, rt, t, b) \<Rightarrow> (of_nat l, of_nat rt, of_nat t, of_nat b))"
    using avc_crop_value[OF reads_skip1 ok] by blast
  obtain l rt t b where c: "crop_of s = (l, rt, t, b)" by (metis prod_cases4)
  have "avc_tail (of_nat x) (of_nat y) r = avc_dimension (of_nat (fst (coded_size s))) (of_nat (snd (coded_size s)))
      (of_nat (fst (read_unit s))) (of_nat (snd (read_unit s))) (of_nat l, of_nat rt, of_nat t, of_nat b)"
    using crop by (simp add: avc_tail_def r1 r2 r3 r4_def[symmetric] coded_size_def unit(1) c algebra_simps)
      (simp add: r4_def split: if_splits)
  also have "\<dots> = of_nat ((fst (coded_size s) - fst (read_unit s) * (l + rt)) * 65536
      + (snd (coded_size s) - snd (read_unit s) * (t + b)))"
    using ok unit by (intro avc_dimension_crop) (auto simp: avc_read_ok_def c split: prod.splits)
  finally show ?thesis by (simp add: read_size_def c split: prod.splits)
qed

lemma avc_SPS_tail:
  "avc_SPSToVideoDimension data =
     (if data = [] then None
      else if hd data AND 0x1F \<noteq> 7 then Some 0
      else let (idc, r) = bt_read_word 8 (bit_reader_of (tl data) (length data - 1)) :: u8 \<times> bit_reader;
               r = skip_golomb (skip_bits 16 r);
               (x, y, r) = (if avc_high_profile idc then avc_chroma r else (0, 0, r))
           in Some (avc_tail x y (skip_bits 1 (skip_golomb (avc_poc (skip_golomb r))))))"
  unfolding avc_SPSToVideoDimension_def avc_tail_def Let_def by (simp split: prod.splits if_splits)

lemma avc_SPS_reads:
  assumes "data \<noteq> []" "hd data AND 0x1F = 7" "avc_read_ok s"
    and "bits_rest (bit_reader_of (tl data) (length data - 1)) = avc_sps_bits s @ xs"
    and high: "carries_chroma (unat (ss_idc s)) = avc_high_profile (ss_idc s)"
  shows "avc_SPSToVideoDimension data = Some (of_nat (fst (read_size s) * 65536 + snd (read_size s)))"
proof -
  let ?r0 = "bit_reader_of (tl data) (length data - 1)"
  let ?tail = "exp_golomb (ss_width s) @ exp_golomb (ss_height s) @ [ss_frame_mbs_only s]
      @ (if ss_frame_mbs_only s then [] else [ss_mbaff s]) @ [ss_direct s] @ crop_bits (ss_crop s) @ xs"
  let ?xs2 = "exp_golomb (ss_frame_num s) @ poc_bits (ss_poc s) @ exp_golomb (ss_refs s) @ [ss_gaps s] @ ?tail"
  let ?xs1 = "(if avc_high_profile (ss_idc s) then chroma_bits s else []) @ ?xs2"
  have ok: "length (ss_constraints s) = 16" "ss_id s < 65535" "ss_frame_num s < 65535" "poc_ok (ss_poc s)" "ss_refs s < 65535"
    using assms(3) by (simp_all add: avc_read_ok_def)
  have "reads ?r0 (low_bits 8 (unat (ss_idc s)) @ ss_constraints s @ exp_golomb (ss_id s) @ ?xs1)"
    using assms(4) by (simp add: reads_def bt_wf_of avc_sps_bits_def high)
  then obtain r1 where r1: "bt_read_word 8 ?r0 = (ss_idc s, r1)" "reads r1 (ss_constraints s @ exp_golomb (ss_id s) @ ?xs1)"
    by (rule reads_word[where 'a = 8]) (use unat_u8_less[of "ss_idc s"] in simp_all)
  have "reads (skip_golomb (skip_bits 16 r1)) ?xs1"
    by (rule reads_skip_golomb[OF reads_skip[OF r1(2) ok(1)] ok(2)])
  then obtain r2 x y where r2: "(if avc_high_profile (ss_idc s) then avc_chroma (skip_golomb (skip_bits 16 r1))
      else (0, 0, skip_golomb (skip_bits 16 r1))) = (of_nat x, of_nat y, r2)" "reads r2 ?xs2"
    and unit: "read_unit s = (x, if ss_frame_mbs_only s then y else y * 2)" "x \<le> 2" "y \<le> 2"
    using assms(3) by (rule avc_high_reads) simp_all
  have "reads (avc_poc (skip_golomb r2)) (exp_golomb (ss_refs s) @ [ss_gaps s] @ ?tail)"
    by (rule avc_poc_reads[OF reads_skip_golomb[OF r2(2) ok(3)] ok(4)])
  then have "reads (skip_bits 1 (skip_golomb (avc_poc (skip_golomb r2)))) ?tail"
    using reads_skip_golomb[OF _ ok(5)] reads_skip1 by (metis append_Cons append_Nil)
  then have "avc_tail (of_nat x) (of_nat y) (skip_bits 1 (skip_golomb (avc_poc (skip_golomb r2))))
      = of_nat (fst (read_size s) * 65536 + snd (read_size s))"
    using assms(3) unit by (rule avc_tail_reads)
  then show ?thesis
    using assms(1,2) unfolding avc_SPS_tail r1(1) by (simp add: r2(1) Let_def)
qed


section \<open>The standard\<close>

text \<open>
  The cropping unit of the standard (H.264, 7.4.2.1.1): a set without a chroma format is in 4:2:0, and without chroma
  samples in the picture (4:0:0, or three separate planes) the unit is one luma sample.
\<close>

definition chroma_format :: "avc_sps \<Rightarrow> nat" where
  "chroma_format s = (if carries_chroma (unat (ss_idc s)) then ss_chroma s else 1)"

definition crop_unit :: "avc_sps \<Rightarrow> nat \<times> nat" where
  "crop_unit s =
     (let (subWidthC, subHeightC) = (if chroma_format s = 1 then (2, 2) else if chroma_format s = 2 then (2, 1) else (1, 1))
      in (subWidthC, subHeightC * (if ss_frame_mbs_only s then 1 else 2)))"

definition displayed_size :: "avc_sps \<Rightarrow> nat \<times> nat" where
  "displayed_size s =
     (let (w, h) = coded_size s; (x, y) = crop_unit s; (l, r, t, b) = crop_of s
      in (w - x * (l + r), h - y * (t + b)))"

text \<open>The fields in their ranges, the coded size in 16 bits, and the cropping within the picture.\<close>

definition avc_sps_ok :: "avc_sps \<Rightarrow> bool" where
  "avc_sps_ok s \<longleftrightarrow> length (ss_constraints s) = 16 \<and> ss_id s < 65535 \<and> ss_chroma s \<le> 3
     \<and> fst (ss_depths s) < 65535 \<and> snd (ss_depths s) < 65535 \<and> ss_frame_num s < 65535 \<and> poc_ok (ss_poc s)
     \<and> ss_refs s < 65535 \<and> fst (coded_size s) < 65536 \<and> snd (coded_size s) < 65536
     \<and> (let (l, r, t, b) = crop_of s; (x, y) = crop_unit s in l < 65535 \<and> r < 65535 \<and> t < 65535 \<and> b < 65535
        \<and> x * (l + r) \<le> fst (coded_size s) \<and> y * (t + b) \<le> snd (coded_size s))"

text \<open>
  What the code has as the standard has it: the profile is none of those it forgets in its list (it has 144, which is no
  profile, for 244), and a picture that is cropped has a chroma format in its set, with chroma samples.
\<close>

definition avc_handled :: "avc_sps \<Rightarrow> bool" where
  "avc_handled s \<longleftrightarrow> unat (ss_idc s) \<notin> {144, 244, 128, 138, 139, 134, 135}
     \<and> (ss_crop s = None \<or> carries_chroma (unat (ss_idc s)) \<and> ss_chroma s \<noteq> 0 \<and> \<not> (ss_chroma s = 3 \<and> ss_separate s))"

lemma carries_chroma_high:
  assumes "unat (idc :: u8) \<notin> {144, 244, 128, 138, 139, 134, 135}"
  shows "carries_chroma (unat idc) = avc_high_profile idc"
proof -
  have "idc = of_nat n \<longleftrightarrow> unat idc = n" if "n < 256" for n
    using that by (auto simp: unat_of_nat_small)
  from this[of 100] this[of 110] this[of 122] this[of 144] this[of 44] this[of 83] this[of 86] this[of 118]
  show ?thesis using assms by (auto simp: carries_chroma_def avc_high_profile_def)
qed

lemma handled_unit:
  assumes "avc_handled s" "avc_sps_ok s" "ss_crop s \<noteq> None"
  shows "read_unit s = crop_unit s"
proof -
  have c: "carries_chroma (unat (ss_idc s))" "ss_chroma s \<noteq> 0" "\<not> (ss_chroma s = 3 \<and> ss_separate s)" "ss_chroma s \<le> 3"
    using assms by (auto simp: avc_handled_def avc_sps_ok_def)
  then have "carries_chroma (unat (ss_idc s))" "ss_chroma s = 1 \<or> ss_chroma s = 2 \<or> ss_chroma s = 3 \<and> \<not> ss_separate s" by auto
  moreover have "avc_high_profile (ss_idc s)"
    using calculation(1) carries_chroma_high assms(1) unfolding avc_handled_def by blast
  ultimately show ?thesis by (auto simp: read_unit_def crop_unit_def chroma_format_def)
qed

lemma handled_read:
  assumes "avc_handled s" "avc_sps_ok s"
  shows "avc_read_ok s \<and> read_size s = displayed_size s"
proof (cases "ss_crop s = None")
  case True
  then show ?thesis using assms(2)
    by (auto simp: avc_sps_ok_def avc_read_ok_def read_size_def displayed_size_def crop_of_def split: prod.splits)
next
  case False
  then show ?thesis using assms(2) handled_unit[OF assms False]
    by (simp add: avc_sps_ok_def avc_read_ok_def read_size_def displayed_size_def)
qed

text \<open>
  C22. The dimension of an H264 sequence parameter set, described by its fields and written as the bits of the standard
  (its profiles with a chroma format, its cropping unit), behind an SPS header byte, without emulation bytes (this parser
  does not remove them) and followed by anything: the result has in its high half the coded width and in its low half
  the coded height, each less its cropping.  The set has no scaling matrix, its fields are in range, its profile
  is not one of those that the code misses (128, 134, 135, 138, 139, 244) or has in excess (144), and if it is
  cropped it carries a chroma format, neither 4:0:0 nor separate planes: the cropping of the others is ignored.
\<close>

theorem avc_sps_dimension:
  assumes "data \<noteq> []" "hd data AND 0x1F = 7" "avc_sps_ok s" "avc_handled s"
    and "bits_rest (bit_reader_of (tl data) (length data - 1)) = avc_sps_bits s @ xs"
  shows "avc_SPSToVideoDimension data = Some (of_nat (fst (displayed_size s) * 65536 + snd (displayed_size s)))"
  using avc_SPS_reads[OF assms(1,2) _ assms(5) carries_chroma_high] handled_read[OF assms(4,3)] assms(4)
  unfolding avc_handled_def by metis

definition sps_1080 :: "u8 \<Rightarrow> avc_sps" where
  "sps_1080 idc = \<lparr>ss_idc = idc, ss_constraints = low_bits 16 40, ss_id = 0, ss_chroma = 1, ss_separate = False,
     ss_depths = (0, 0), ss_bypass = False, ss_frame_num = 0, ss_poc = PocOther 2, ss_refs = 1, ss_gaps = False,
     ss_width = 119, ss_height = 67, ss_frame_mbs_only = True, ss_mbaff = False, ss_direct = True,
     ss_crop = Some (0, 0, 0, 4)\<rparr>"

text \<open>Evaluation on a concrete set: the bits of the bytes, and of the codes of the fields.\<close>

lemma bits_at_plain:
  "stop \<le> length data \<Longrightarrow> bits_at False data stop k = concat (map byte_bits (drop k (take stop data)))"
proof (induction "stop - k" arbitrary: k)
  case 0
  then show ?case by (subst bits_at.simps) simp
next
  case (Suc n)
  then have k: "k < stop" "k < length (take stop data)" by simp_all
  then have "drop k (take stop data) = data ! k # drop (Suc k) (take stop data)"
    by (simp add: Cons_nth_drop_Suc[symmetric])
  moreover have "n = stop - Suc k" using Suc.hyps(2) by simp
  ultimately show ?case
    using Suc.hyps(1)[of "Suc k"] Suc.prems Suc.hyps(2) by (subst bits_at.simps) (simp add: skip_emulation_def k)
qed

lemma bits_rest_plain: "bits_rest (bit_reader_of data (length data)) = concat (map byte_bits data)"
  by (simp add: bits_rest_def bit_reader_of_def bits_at_plain)

lemma byte_bits_eval: "byte_bits b = [bit b 7, bit b 6, bit b 5, bit b 4, bit b 3, bit b 2, bit b 1, bit b 0]"
  by (simp add: byte_bits_def upt_rec)

lemma low_bits_eval: "low_bits 0 n = []" "low_bits (Suc i) n = low_bits i (n div 2) @ [odd n]"
    "low_bits (numeral k) n = low_bits (pred_numeral k) (n div 2) @ [odd n]"
  by (simp_all add: low_bits_Suc numeral_eq_Suc) (simp add: low_bits_def)

lemma ilog_eval: "ilog 1 = 0" "ilog (Suc 0) = 0" "ilog (numeral (num.Bit0 k)) = Suc (ilog (numeral k))"
    "ilog (numeral (num.Bit1 k)) = Suc (ilog (numeral k))"
  by (subst ilog.simps; simp)+

lemma ilog_2: "ilog (Suc (Suc 0)) = Suc 0"
  using ilog_eval(3)[of num.One] by (simp add: ilog_eval numeral_2_eq_2)

lemmas golomb_eval = ilog_2 exp_golomb_def low_bits_eval ilog_eval Let_def

lemma sps_1080_bits: "concat (map byte_bits [100, 0, 40, 172, 180, 3, 192, 17, 63, 44]) = avc_sps_bits (sps_1080 100) @ [True, False, False]"
    "concat (map byte_bits [66, 0, 40, 218, 1, 224, 8, 159, 150]) = avc_sps_bits (sps_1080 66) @ [True, False]"
  by (simp_all add: avc_sps_bits_def sps_1080_def chroma_bits_def crop_bits_def carries_chroma_def byte_bits_eval golomb_eval)

lemma sps_1080_sizes:
  "avc_sps_ok (sps_1080 100)" "avc_handled (sps_1080 100)" "displayed_size (sps_1080 100) = (1920, 1080)"
  "avc_read_ok (sps_1080 66)" "read_size (sps_1080 66) = (1920, 1088)" "displayed_size (sps_1080 66) = (1920, 1080)"
  by (simp_all add: avc_sps_ok_def avc_handled_def avc_read_ok_def sps_1080_def displayed_size_def read_size_def coded_size_def crop_of_def
      crop_unit_def read_unit_def chroma_format_def carries_chroma_def avc_high_profile_def)

theorem avc_sps_dimension_witness:
  "avc_SPSToVideoDimension [0x67, 100, 0, 40, 172, 180, 3, 192, 17, 63, 44] = Some (1920 * 65536 + 1080)"
  using avc_sps_dimension[OF _ _ sps_1080_sizes(1,2), of "[0x67, 100, 0, 40, 172, 180, 3, 192, 17, 63, 44]" "[True, False, False]"]
    bits_rest_plain[of "[100, 0, 40, 172, 180, 3, 192, 17, 63, 44]"]
  by (simp add: sps_1080_bits sps_1080_sizes del: concat.simps list.map)

text \<open>The same 1080 lines are not found in the set of a Baseline profile, which has no chroma format.\<close>

lemma avc_baseline_cropping:
  "displayed_size (sps_1080 66) = (1920, 1080)
   \<and> concat (map byte_bits [66, 0, 40, 218, 1, 224, 8, 159, 150]) = avc_sps_bits (sps_1080 66) @ [True, False]
   \<and> avc_SPSToVideoDimension [0x67, 66, 0, 40, 218, 1, 224, 8, 159, 150] = Some (1920 * 65536 + 1088)"
proof -
  have "carries_chroma (unat (ss_idc (sps_1080 66))) = avc_high_profile (ss_idc (sps_1080 66))"
    by (simp add: carries_chroma_def avc_high_profile_def sps_1080_def)
  then have "avc_SPSToVideoDimension [0x67, 66, 0, 40, 218, 1, 224, 8, 159, 150] = Some (1920 * 65536 + 1088)"
    using avc_SPS_reads[OF _ _ sps_1080_sizes(4), of "[0x67, 66, 0, 40, 218, 1, 224, 8, 159, 150]" "[True, False]"]
      bits_rest_plain[of "[66, 0, 40, 218, 1, 224, 8, 159, 150]"]
    by (simp add: sps_1080_bits sps_1080_sizes del: concat.simps list.map)
  then show ?thesis using sps_1080_bits(2) sps_1080_sizes(6) by blast
qed

section \<open>HEVC\<close>

text \<open>A sub layer has, or has not, its 88 bits of profile and its 8 bits of level.\<close>

type_synonym sub_layer = "bool list option \<times> bool list option"

definition opt_bits :: "bool list option \<Rightarrow> bool list" where
  "opt_bits b = (case b of None \<Rightarrow> [] | Some bs \<Rightarrow> bs)"

definition layer_ok :: "sub_layer \<Rightarrow> bool" where
  "layer_ok l \<longleftrightarrow> (case fst l of None \<Rightarrow> True | Some bs \<Rightarrow> length bs = 88)
     \<and> (case snd l of None \<Rightarrow> True | Some bs \<Rightarrow> length bs = 8)"

definition layer_flags :: "sub_layer \<Rightarrow> bool \<times> bool" where
  "layer_flags l = (fst l \<noteq> None, snd l \<noteq> None)"

record hevc_sps =
  hs_layer_id :: "bool list"
  hs_vps_id :: "bool list"
  hs_nesting :: bool
  hs_general :: "bool list"
  hs_sub_layers :: "sub_layer list"
  hs_reserved :: "bool list"
  hs_id :: nat
  hs_chroma :: nat
  hs_separate :: bool
  hs_width :: nat
  hs_height :: nat

definition level_bits :: "hevc_sps \<Rightarrow> bool list" where
  "level_bits s = hs_general s
     @ concat (map (\<lambda>l. [fst l \<noteq> None, snd l \<noteq> None]) (hs_sub_layers s))
     @ (if hs_sub_layers s = [] then [] else hs_reserved s)
     @ concat (map (\<lambda>l. opt_bits (fst l) @ opt_bits (snd l)) (hs_sub_layers s))"

definition hevc_sps_bits :: "hevc_sps \<Rightarrow> bool list" where
  "hevc_sps_bits s = low_bits 7 33 @ hs_layer_id s @ hs_vps_id s @ low_bits 3 (length (hs_sub_layers s))
     @ [hs_nesting s] @ level_bits s @ exp_golomb (hs_id s) @ exp_golomb (hs_chroma s)
     @ (if hs_chroma s = 3 then [hs_separate s] else []) @ exp_golomb (hs_width s) @ exp_golomb (hs_height s)"

definition hevc_sps_ok :: "hevc_sps \<Rightarrow> bool" where
  "hevc_sps_ok s \<longleftrightarrow> length (hs_layer_id s) = 9 \<and> length (hs_vps_id s) = 4 \<and> length (hs_general s) = 96
     \<and> length (hs_sub_layers s) \<le> 7 \<and> length (hs_reserved s) = 2 * (8 - length (hs_sub_layers s))
     \<and> list_all layer_ok (hs_sub_layers s) \<and> hs_id s < 65535 \<and> hs_chroma s < 65535
     \<and> hs_width s < 65535 \<and> hs_height s < 65535"

lemma skip_bits_skip: "reads r bs \<Longrightarrow> reads (skip_bits n r) (drop n bs)"
  using bt_next_bits[of r n] by (simp add: reads_def skip_bits_def)

lemma skip_bits_pow: "reads r bs \<Longrightarrow> reads ((skip_bits n ^^ k) r) (drop (n * k) bs)"
proof (induction k)
  case (Suc k)
  then show ?case using skip_bits_skip[of "(skip_bits n ^^ k) r" "drop (n * k) bs" n] by (simp add: add.commute)
qed simp

lemma skip_many_bits:
  assumes "reads r (bs @ xs)"
  shows "length bs = 88 \<Longrightarrow> reads (skip_bits 12 (skip_bits 32 (skip_bits 4 (skip_bits 32 (skip_bits 8 r))))) xs"
    and "length bs = 96 \<Longrightarrow> reads (skip_bits 8 (skip_bits 12 (skip_bits 32 (skip_bits 4 (skip_bits 32 (skip_bits 8 r)))))) xs"
proof -
  have r: "reads (skip_bits 12 (skip_bits 32 (skip_bits 4 (skip_bits 32 (skip_bits 8 r))))) (drop 88 (bs @ xs))"
    using skip_bits_skip[OF skip_bits_skip[OF skip_bits_skip[OF skip_bits_skip[OF skip_bits_skip[OF assms]]]], of 12 32 4 32 8]
    by (simp only: drop_drop) simp
  show "length bs = 88 \<Longrightarrow> reads (skip_bits 12 (skip_bits 32 (skip_bits 4 (skip_bits 32 (skip_bits 8 r))))) xs"
    using r by simp
  show "length bs = 96 \<Longrightarrow> reads (skip_bits 8 (skip_bits 12 (skip_bits 32 (skip_bits 4 (skip_bits 32 (skip_bits 8 r)))))) xs"
    using skip_bits_skip[OF r, of 8] by (simp only: drop_drop) simp
qed

lemma hevc_sub_layers_reads:
  "reads r (concat (map (\<lambda>l. [fst l \<noteq> None, snd l \<noteq> None]) layers) @ xs) \<Longrightarrow>
   \<exists>r'. hevc_sub_layers (length layers) r = (map layer_flags layers, r') \<and> reads r' xs"
proof (induction layers arbitrary: r)
  case (Cons l layers)
  obtain r1 where r1: "bt_read r = (fst l \<noteq> None, r1)"
      "reads r1 ((snd l \<noteq> None) # concat (map (\<lambda>l. [fst l \<noteq> None, snd l \<noteq> None]) layers) @ xs)"
    using Cons.prems reads_flag[of r "fst l \<noteq> None"] by auto
  obtain r2 where r2: "bt_read r1 = (snd l \<noteq> None, r2)"
      "reads r2 (concat (map (\<lambda>l. [fst l \<noteq> None, snd l \<noteq> None]) layers) @ xs)"
    by (rule reads_flag[OF r1(2)])
  from Cons.IH[OF r2(2)] show ?case by (auto simp: r1 r2 layer_flags_def)
qed simp

lemma hevc_skip_layers_reads:
  "reads r (concat (map (\<lambda>l. opt_bits (fst l) @ opt_bits (snd l)) layers) @ xs) \<Longrightarrow> list_all layer_ok layers \<Longrightarrow>
   reads (hevc_skip_layers (map layer_flags layers) r) xs"
proof (induction layers arbitrary: r)
  case (Cons l layers)
  let ?xs = "concat (map (\<lambda>l. opt_bits (fst l) @ opt_bits (snd l)) layers) @ xs"
  define r1 where "r1 = (if fst l \<noteq> None then skip_bits 12 (skip_bits 32 (skip_bits 4 (skip_bits 32 (skip_bits 8 r)))) else r)"
  define r2 where "r2 = (if snd l \<noteq> None then skip_bits 8 r1 else r1)"
  have "reads r (opt_bits (fst l) @ opt_bits (snd l) @ ?xs)" using Cons.prems(1) by simp
  then have "reads r1 (opt_bits (snd l) @ ?xs)"
    using Cons.prems(2) skip_many_bits(1)[of r] by (auto simp: r1_def opt_bits_def layer_ok_def split: option.splits)
  then have "reads r2 ?xs"
    using Cons.prems(2) reads_skip[of r1] by (auto simp: r2_def opt_bits_def layer_ok_def split: option.splits)
  moreover have "hevc_skip_layers (map layer_flags (l # layers)) r = hevc_skip_layers (map layer_flags layers) r2"
    by (cases "fst l"; cases "snd l") (simp_all add: layer_flags_def r1_def r2_def)
  ultimately show ?case using Cons.IH[of r2] Cons.prems(2) by simp
qed simp


lemma level_reads:
  assumes "reads r (level_bits s @ xs)" "hevc_sps_ok s"
  shows "reads (ProcessProfileTierLevel (of_nat (length (hs_sub_layers s))) r) xs"
proof -
  let ?n = "length (hs_sub_layers s)"
  let ?c = "concat (map (\<lambda>l. opt_bits (fst l) @ opt_bits (snd l)) (hs_sub_layers s)) @ xs"
  let ?f = "concat (map (\<lambda>l. [fst l \<noteq> None, snd l \<noteq> None]) (hs_sub_layers s))"
  let ?p = "if hs_sub_layers s = [] then [] else hs_reserved s"
  have ok: "length (hs_general s) = 96" "?n \<le> 7" "length (hs_reserved s) = 2 * (8 - ?n)" "list_all layer_ok (hs_sub_layers s)"
    using assms(2) by (simp_all add: hevc_sps_ok_def)
  have n: "unat (of_nat ?n :: u8) = ?n" using ok(2) by (simp add: unat_of_nat_small)
  have z: "(of_nat ?n :: u8) > 0 \<longleftrightarrow> hs_sub_layers s \<noteq> []"
    using n by (simp add: word_less_nat_alt)
  let ?r1 = "skip_bits 8 (skip_bits 12 (skip_bits 32 (skip_bits 4 (skip_bits 32 (skip_bits 8 r)))))"
  have "reads ?r1 (?f @ ?p @ ?c)"
    using skip_many_bits(2)[of r "hs_general s"] ok(1) assms(1) by (simp add: level_bits_def)
  then obtain r2 where r2: "hevc_sub_layers ?n ?r1 = (map layer_flags (hs_sub_layers s), r2)" "reads r2 (?p @ ?c)"
    using hevc_sub_layers_reads by blast
  define r3 where "r3 = (if (of_nat ?n :: u8) > 0 then ((skip_bits 2) ^^ (8 - ?n)) r2 else r2)"
  have "reads r3 ?c"
    using r2(2) skip_bits_pow[of r2 "?p @ ?c" "8 - ?n" 2] ok(3) by (auto simp: r3_def z split: if_splits)
  then have "reads (hevc_skip_layers (map layer_flags (hs_sub_layers s)) r3) xs"
    using ok(4) by (rule hevc_skip_layers_reads)
  then show ?thesis
    by (auto simp: ProcessProfileTierLevel_def n r2(1) r3_def Let_def split: if_splits)
qed

lemma hevc_SPS_reads:
  assumes "hevc_sps_ok s" "bits_rest (bitstream_reader_of data (length data)) = hevc_sps_bits s @ xs"
  shows "hevc_SPSToVideoDimension data = of_nat (hs_width s * 65536 + hs_height s)"
proof -
  let ?r0 = "bitstream_reader_of data (length data)"
  let ?g4 = "exp_golomb (hs_height s) @ xs"
  let ?g3 = "exp_golomb (hs_width s) @ ?g4"
  let ?g2 = "(if hs_chroma s = 3 then [hs_separate s] else []) @ ?g3"
  let ?g1 = "level_bits s @ exp_golomb (hs_id s) @ exp_golomb (hs_chroma s) @ ?g2"
  let ?n = "length (hs_sub_layers s)"
  have ok: "length (hs_layer_id s) = 9" "length (hs_vps_id s) = 4" "?n \<le> 7" "hs_id s < 65535" "hs_chroma s < 65535"
      "hs_width s < 65535" "hs_height s < 65535"
    using assms(1) by (simp_all add: hevc_sps_ok_def)
  have "reads ?r0 (low_bits 7 33 @ hs_layer_id s @ hs_vps_id s @ low_bits 3 ?n @ hs_nesting s # ?g1)"
    using assms(2) by (simp add: reads_def bt_wf_of hevc_sps_bits_def)
  then obtain r1 where r1: "bt_read_word 7 ?r0 = (33 :: u8, r1)" "reads r1 (hs_layer_id s @ hs_vps_id s @ low_bits 3 ?n @ hs_nesting s # ?g1)"
    by (rule reads_word[where 'a = 8]) simp_all
  have "reads (skip_bits 4 (skip_bits 9 r1)) (low_bits 3 ?n @ hs_nesting s # ?g1)"
    by (rule reads_skip[OF reads_skip[OF r1(2) ok(1)] ok(2)])
  then obtain r2 where r2: "bt_read_word 3 (skip_bits 4 (skip_bits 9 r1)) = (of_nat ?n :: u8, r2)" "reads r2 (hs_nesting s # ?g1)"
    by (rule reads_word[where 'a = 8]) (use ok(3) in simp_all)
  let ?r3 = "ProcessProfileTierLevel (of_nat ?n) (skip_bits 1 r2)"
  have "reads ?r3 (exp_golomb (hs_id s) @ exp_golomb (hs_chroma s) @ ?g2)"
    by (rule level_reads[OF reads_skip1[OF r2(2)] assms(1)])
  then obtain r4 where r4: "ReadExpGolomb (skip_golomb ?r3) = (of_nat (hs_chroma s), r4)" "reads r4 ?g2"
    using reads_golomb[OF reads_skip_golomb[OF _ ok(4)] ok(5)] by blast
  define r5 where "r5 = (if (of_nat (hs_chroma s) :: u16) = 3 then skip_bits 1 r4 else r4)"
  have r5: "reads r5 ?g3"
    using r4(2) ok(5) reads_skip1[of r4] by (auto simp: r5_def of_nat_u16_eq split: if_splits)
  obtain r6 where r6: "ReadExpGolomb r5 = (of_nat (hs_width s), r6)" "reads r6 ?g4" by (rule reads_golomb[OF r5 ok(6)])
  obtain r7 where r7: "ReadExpGolomb r6 = (of_nat (hs_height s), r7)" by (rule reads_golomb[OF r6(2) ok(7)])
  have "hevc_SPSToVideoDimension data = push_bit 16 (ucast (of_nat (hs_width s) :: u16)) OR ucast (of_nat (hs_height s) :: u16)"
    unfolding hevc_SPSToVideoDimension_def Let_def r1(1) prod.case r2(1) r4(1) r5_def[symmetric] r6(1) r7 by simp
  then show ?thesis
    using ok(6,7) dimension_halves[of "hs_width s" "hs_height s"] by (simp only: u16_u32 less_trans[of _ 65535 65536])
qed

text \<open>
  C23. The dimension of an HEVC sequence parameter set, whatever sub layers its profile has: once the
  emulation bytes are taken out, a set whose fields are in range, followed by anything, gives its
  width in the high half and its height in the low half.
\<close>

theorem hevc_sps_dimension:
  assumes "hevc_sps_ok s" "bits_rest (bitstream_reader_of data (length data)) = hevc_sps_bits s @ xs"
  shows "hevc_SPSToVideoDimension data = of_nat (hs_width s * 65536 + hs_height s)"
  by (rule hevc_SPS_reads[OF assms])


text \<open>
  The bytes without their emulation bytes: the first two arguments are the two bytes in front; the byte
  behind an emulation byte is taken as it is.
\<close>

fun unescape :: "u8 \<Rightarrow> u8 \<Rightarrow> bytes \<Rightarrow> bytes" where
  "unescape x y [] = []"
| "unescape x y (z # zs) =
     (if x = 0 \<and> y = 0 \<and> z = 3 then (case zs of [] \<Rightarrow> [] | w # ws \<Rightarrow> w # unescape z w ws)
      else z # unescape y z zs)"

definition before :: "nat \<Rightarrow> bytes \<Rightarrow> nat \<Rightarrow> u8" where
  "before j data k = (if j \<le> k then data ! (k - j) else 1)"

lemma bits_at_unescape:
  "k \<le> length data \<Longrightarrow> bits_at True data (length data) (skip_emulation True data (length data) k)
     = concat (map byte_bits (unescape (before 2 data k) (before 1 data k) (drop k data)))"
proof (induction "length data - k" arbitrary: k rule: less_induct)
  case less
  show ?case
  proof (cases "k = length data")
    case True
    then show ?thesis by (simp add: skip_emulation_def bits_at_end)
  next
    case False
    then have k: "k < length data" using less.prems by simp
    then have d: "drop k data = data ! k # drop (Suc k) data" by (simp add: Cons_nth_drop_Suc)
    show ?thesis
    proof (cases "before 2 data k = 0 \<and> before 1 data k = 0 \<and> data ! k = 3")
      case True
      then have "skip_emulation True data (length data) k = Suc k"
        using k by (auto simp: skip_emulation_def before_def split: if_splits)
      moreover have "bits_at True data (length data) (Suc k) =
          concat (map byte_bits (case drop (Suc k) data of [] \<Rightarrow> [] | w # ws \<Rightarrow> w # unescape 3 w ws))"
      proof (cases "Suc k = length data")
        case True
        then show ?thesis by (simp add: bits_at_end)
      next
        case False
        then have l: "Suc k < length data" using k by simp
        have "before 2 data (k + 2) = 3" "before 1 data (k + 2) = data ! Suc k"
          using True by (simp_all add: before_def)
        then show ?thesis
          using l less.hyps[of "k + 2"] by (subst bits_at.simps) (simp add: Cons_nth_drop_Suc[symmetric])
      qed
      ultimately show ?thesis using True by (simp add: d)
    next
      case False
      then have "skip_emulation True data (length data) k = k"
        using k by (auto simp: skip_emulation_def before_def)
      moreover have "before 2 data (k + 1) = before 1 data k" "before 1 data (k + 1) = data ! k"
        by (simp_all add: before_def)
      moreover have "unescape (before 2 data k) (before 1 data k) (drop k data)
          = data ! k # unescape (before 1 data k) (data ! k) (drop (Suc k) data)"
        unfolding d using False by (simp only: unescape.simps if_False)
      ultimately show ?thesis
        using k less.hyps[of "k + 1"] by (subst bits_at.simps) simp
    qed
  qed
qed

lemma bits_rest_bitstream:
  "bits_rest (bitstream_reader_of data (length data)) = concat (map byte_bits (unescape 1 1 data))"
  using bits_at_unescape[of 0 data]
  by (simp add: bits_rest_def bitstream_reader_of_def bit_reader_of_def before_def) (simp add: skip_emulation_def)

text \<open>Reading bit after bit.\<close>

fun bt_read_list :: "nat \<Rightarrow> bit_reader \<Rightarrow> bool list \<times> bit_reader" where
  "bt_read_list 0 r = ([], r)"
| "bt_read_list (Suc n) r = (let (b, r) = bt_read r; (bs, r) = bt_read_list n r in (b # bs, r))"

lemma bt_read_list_reads:
  "reads r (bs @ xs) \<Longrightarrow> \<exists>r'. bt_read_list (length bs) r = (bs, r') \<and> reads r' xs"
proof (induction bs arbitrary: r)
  case (Cons b bs)
  obtain r1 where "bt_read r = (b, r1)" "reads r1 (bs @ xs)"
    using Cons.prems reads_flag[of r b "bs @ xs"] by auto
  then show ?case using Cons.IH[of r1] by auto
qed simp

text \<open>
  C37. Read bit after bit, a \<open>BitstreamReader\<close> gives the bits of the data without its emulation bytes:
  of the bytes left when every byte 3 behind two zero bytes is dropped.  After them nothing is
  available.
\<close>

theorem bitstream_unescapes:
  "\<exists>r. bt_read_list (8 * length (unescape 1 1 data)) (bitstream_reader_of data (length data))
      = (concat (map byte_bits (unescape 1 1 data)), r) \<and> bt_available r = 0"
proof -
  let ?bs = "concat (map byte_bits (unescape 1 1 data))"
  have "length ?bs = 8 * length (unescape 1 1 data)"
    by (simp add: length_concat comp_def sum_list_triv)
  moreover have "reads (bitstream_reader_of data (length data)) (?bs @ [])"
    by (simp add: reads_def bt_wf_of bits_rest_bitstream)
  from bt_read_list_reads[OF this] obtain r where
    "bt_read_list (length ?bs) (bitstream_reader_of data (length data)) = (?bs, r)" "reads r []" by blast
  ultimately show ?thesis by (auto simp: reads_def bt_available_0_iff)
qed

definition sps_hevc_data :: bytes where
  "sps_hevc_data = [66, 1, 1, 1, 96, 0, 0, 3, 0, 144, 15, 15, 15, 15, 15, 93, 160, 3, 192, 128, 16, 230]"

definition sps_hevc :: hevc_sps where
  "sps_hevc = \<lparr>hs_layer_id = low_bits 9 1, hs_vps_id = low_bits 4 0, hs_nesting = True,
     hs_general = concat (map byte_bits [1, 96, 0, 0, 0, 144, 15, 15, 15, 15, 15, 93]), hs_sub_layers = [],
     hs_reserved = replicate 16 False, hs_id = 0, hs_chroma = 1, hs_separate = False, hs_width = 1920, hs_height = 1080\<rparr>"

lemma sps_hevc_bits:
  "bits_rest (bitstream_reader_of sps_hevc_data (length sps_hevc_data)) = hevc_sps_bits sps_hevc @ [True, False]"
  unfolding bits_rest_bitstream
  by (simp add: sps_hevc_data_def sps_hevc_def hevc_sps_bits_def level_bits_def byte_bits_eval golomb_eval)

theorem hevc_sps_dimension_witness: "hevc_SPSToVideoDimension sps_hevc_data = 1920 * 65536 + 1080"
  using hevc_sps_dimension[OF _ sps_hevc_bits]
  by (simp add: hevc_sps_ok_def sps_hevc_def length_concat byte_bits_eval low_bits_def)

end
