(* ===== verification/ADTS.thy ===== *)
theory ADTS
  imports MPEG4
begin

text \<open>
  \<open>ADTSReader\<close> and \<open>ADTSWriter\<close>, the AAC frames of a transport stream or of an \<open>.aac\<close> file, with the part
  of \<open>MediaTrackReader\<close> they use (track, time).  A frame whose rate index is the one the rate table does
  not have makes the reader read behind an array: \<open>adts_parse\<close> is \<open>None\<close> there.
\<close>

section \<open>Reader\<close>

record adts_reader =
  ad_track :: u8
  ad_time :: u32
  ad_compositionOffset :: u16
  ad_size :: u16
  ad_syncError :: bool
  ad_tag :: audio_tag
  ad_infos :: u16

definition new_adts_reader :: "u8 \<Rightarrow> audio_tag \<Rightarrow> adts_reader" where
  "new_adts_reader track tag =
     \<lparr>ad_track = (if track \<noteq> 0 then track else 1), ad_time = 0, ad_compositionOffset = 0, ad_size = 0,
      ad_syncError = False, ad_tag = tag, ad_infos = 0\<rparr>"

text \<open>
  \<open>UInt32(round(1024000.0 / rate))\<close>: the nearest integer, halves upwards.
\<close>

definition aac_duration :: "u32 \<Rightarrow> u32" where
  "aac_duration rate = of_nat ((2 * 1024000 + unat rate) div (2 * unat rate))"

text \<open>One of the three tests on what changed since the configuration was sent.\<close>

definition adts_changed :: "bool \<Rightarrow> u16 \<Rightarrow> adts_reader \<Rightarrow> adts_reader" where
  "adts_changed changed infos s =
     (if changed then s\<lparr>ad_infos := ad_infos s OR infos, ad_tag := (ad_tag s)\<lparr>at_isConfig := True\<rparr>\<rparr> else s)"

definition adts_frame_size :: "bytes \<Rightarrow> u16" where
  "adts_frame_size header =
     (let size = push_bit 3 (ucast (header ! 4)) OR drop_bit 5 (ucast (header ! 5 AND 0xE0))
      in if header ! 1 AND 0x08 \<noteq> 0 then size else size OR push_bit 11 (ucast (header ! 3 AND 0x03)))"

definition adts_channels :: "bytes \<Rightarrow> u8" where
  "adts_channels header =
     (let channels = push_bit 2 (header ! 2 AND 0x01) OR (drop_bit 6 (header ! 3) AND 0x03)
      in if channels = 0 then 2 else channels)"

text \<open>The header of a frame once its size is accepted: tag, time and, when something changed, the configuration.\<close>

definition adts_header :: "bytes \<Rightarrow> adts_reader \<Rightarrow> (adts_reader \<times> media_event list) option" where
  "adts_header header s =
     (let value = drop_bit 6 (header ! 2);
          s = adts_changed (drop_bit 12 (ad_infos s) \<noteq> ucast value) (push_bit 12 (ucast value)) s;
          s = s\<lparr>ad_tag := (ad_tag s)\<lparr>at_codec := (if value > 30 \<and> value < 34 then AUDIO_CODEC_MP3 else AUDIO_CODEC_AAC)\<rparr>\<rparr>;
          value = drop_bit 2 (header ! 2) AND 0x0F;
          s = adts_changed (drop_bit 8 (ad_infos s) AND 0x0F \<noteq> ucast value) (push_bit 8 (ucast value)) s
      in case RateFromIndex value of None \<Rightarrow> None
         | Some rate \<Rightarrow>
           let s = s\<lparr>ad_tag := (ad_tag s)\<lparr>at_rate := rate, at_time := ad_time s\<rparr>,
                     ad_time := ad_time s + aac_duration rate\<rparr>;
               channels = adts_channels header;
               s = s\<lparr>ad_tag := (ad_tag s)\<lparr>at_channels := channels\<rparr>\<rparr>;
               s = adts_changed (ad_infos s AND 0xFF \<noteq> ucast channels) (ucast channels) s
           in if at_isConfig (ad_tag s)
              then Some (s\<lparr>ad_tag := (ad_tag s)\<lparr>at_isConfig := False\<rparr>\<rparr>,
                         [WriteAudio (ad_tag s) (WriteAudioConfig_index (drop_bit 6 (header ! 2) + 1) value channels) (ad_track s)])
              else Some (s, []))"

text \<open>
  \<open>parse\<close>; the third component is what stays in the buffer.  A header of which only the first 7 or 8 of
  9 bytes are there returns \<open>reader.current() - header\<close>, which is 0.
\<close>

function adts_parse :: "adts_reader \<Rightarrow> bytes \<Rightarrow> (adts_reader \<times> media_event list \<times> bytes) option" where
  "adts_parse s b =
     (if b = [] then Some (s, [], [])
      else if ad_size s \<noteq> 0 then
        (if length b < unat (ad_size s) then Some (s, [], b)
         else map_option (\<lambda>(s', es, k). (s', WriteAudio (ad_tag s) (take (unat (ad_size s)) b) (ad_track s) # es, k))
                (adts_parse (s\<lparr>ad_size := 0\<rparr>) (drop (unat (ad_size s)) b)))
      else if length b < 7 then Some (s, [], b)
      else if b ! 0 \<noteq> 0xFF \<or> b ! 1 AND 0xF0 \<noteq> 0xF0 then
        adts_parse (s\<lparr>ad_syncError := True\<rparr>) (drop (if b ! 0 \<noteq> 0xFF then 1 else 2) b)
      else let s = s\<lparr>ad_syncError := False\<rparr>;
               headerSize = (if b ! 1 AND 0x01 \<noteq> 0 then 7 else 9)
           in if length b < headerSize then Some (s, [], [])
              else let size = adts_frame_size b
                   in if unat size < headerSize then adts_parse s (drop headerSize b)
                      else (case adts_header b (s\<lparr>ad_size := size - of_nat headerSize\<rparr>) of None \<Rightarrow> None
                            | Some (s, config) \<Rightarrow>
                              let b = drop headerSize b
                              in if length b < unat (ad_size s) then Some (s, config, b)
                                 else map_option (\<lambda>(s', es, k). (s', config @
                                        WriteAudio (ad_tag s) (take (unat (ad_size s)) b) (ad_track s) # es, k))
                                        (adts_parse (s\<lparr>ad_size := 0\<rparr>) (drop (unat (ad_size s)) b))))"
  by pat_completeness auto
termination
  by (relation "measure (\<lambda>(s, b). length b)") (auto simp: unat_gt_0 split: if_splits)

declare adts_parse.simps [simp del]

text \<open>\<open>onFlush\<close> with what was left in the buffer, then the reset of \<open>MediaTrackReader::flush\<close>.\<close>

definition adts_flush :: "bytes \<Rightarrow> adts_reader \<Rightarrow> adts_reader \<times> media_event list" where
  "adts_flush buffer s =
     (s\<lparr>ad_size := 0, ad_infos := 0, ad_syncError := False, ad_time := 0, ad_compositionOffset := 0\<rparr>,
      if ad_size s \<noteq> 0 then [WriteAudio (ad_tag s) buffer (ad_track s)] else [])"

section \<open>Writer\<close>

record adts_writer =
  aw_codecType :: u8
  aw_rateIndex :: u8
  aw_channels :: u8

definition adts_beginMedia :: "adts_writer \<Rightarrow> adts_writer" where
  "adts_beginMedia w = w\<lparr>aw_codecType := 0, aw_channels := 0\<rparr>"

text \<open>The object type of an MP3 frame from its own header, when it is there.\<close>

definition mp3_codecType :: "bytes \<Rightarrow> u8 \<Rightarrow> u8" where
  "mp3_codecType packet codecType =
     (if length packet > 1 \<and> packet ! 0 = 0xFF
      then let layerBits = drop_bit 1 (packet ! 1) AND 0x03
           in 35 - (if layerBits = 0 then 1 else layerBits)
      else codecType)"

definition adts_frame_header :: "adts_writer \<Rightarrow> audio_tag \<Rightarrow> u16 \<Rightarrow> u32 \<Rightarrow> bytes" where
  "adts_frame_header w tag sync finalSize =
     (let channels = (if aw_channels w \<noteq> 0 then aw_channels w else at_channels tag)
      in net16 sync
         @ [push_bit 6 (aw_codecType w)
            OR push_bit 2 (if aw_codecType w \<noteq> 0 then aw_rateIndex w else RateToIndex (at_rate tag))
            OR (drop_bit 2 channels AND 0x01)]
         @ net32 (push_bit 30 (ucast (channels AND 0x03)) OR push_bit 13 (finalSize AND 0x1FFF) OR 0x1FFC))"

text \<open>\<open>writeAudio\<close> with a listener: the new state and the packets handed to it.\<close>

definition adts_writeAudio :: "audio_tag \<Rightarrow> bytes \<Rightarrow> adts_writer \<Rightarrow> adts_writer \<times> bytes list" where
  "adts_writeAudio tag packet w =
     (if at_codec tag \<noteq> AUDIO_CODEC_AAC \<and> at_codec tag \<noteq> AUDIO_CODEC_MP3 then (w, [])
      else if at_isConfig tag then
        (let (type, rateIndex, channels) = ReadAudioConfig_index (take 2 packet) (aw_rateIndex w) (aw_channels w);
             w = w\<lparr>aw_rateIndex := rateIndex, aw_channels := channels\<rparr>
         in (if type \<noteq> 0 then w\<lparr>aw_codecType := type - 1\<rparr> else w, []))
      else let finalSize = of_nat (length packet + 7);
               w = (if at_codec tag = AUDIO_CODEC_AAC then w
                    else w\<lparr>aw_codecType := mp3_codecType packet (aw_codecType w)\<rparr>);
               sync = (if at_codec tag = AUDIO_CODEC_AAC then 0xFFF1 else 0xFFF9)
           in (w, [adts_frame_header w tag sync finalSize, packet]))"

section \<open>The fields of a written header\<close>

lemma be_bytes_4: "be_bytes 4 v = [ucast (drop_bit 24 v), ucast (drop_bit 16 v), ucast (drop_bit 8 v), ucast v]"
  by (simp add: be_bytes_def numeral_eq_Suc)

lemma be_bytes_2: "be_bytes 2 v = [ucast (drop_bit 8 v), ucast v]"
  by (simp add: be_bytes_def numeral_eq_Suc)

lemma bit_small: "unat (v :: 'a::len word) < 2 ^ n \<Longrightarrow> bit v i \<Longrightarrow> i < n"
  using take_bit_id_less[of v n] bit_take_bit_iff[of n v i] by simp

lemma adts_byte2:
  fixes ct ri c :: u8
  assumes "unat ct < 4" "unat ri < 16"
  shows "drop_bit 6 (push_bit 6 ct OR push_bit 2 ri OR (drop_bit 2 c AND 1)) = ct"
    and "drop_bit 2 (push_bit 6 ct OR push_bit 2 ri OR (drop_bit 2 c AND 1)) AND 0x0F = ri"
    and "(push_bit 6 ct OR push_bit 2 ri OR (drop_bit 2 c AND 1)) AND 1 = drop_bit 2 c AND 1"
proof -
  have m: "(0x0F :: u8) = mask 4" "(1 :: u8) = mask 1" by (simp_all add: mask_eq_exp_minus_1)
  have b: "bit ct i \<Longrightarrow> i < 2" "bit ri i \<Longrightarrow> i < 4" for i
    using assms by (auto intro: bit_small[of ct 2] bit_small[of ri 4])
  show "drop_bit 6 (push_bit 6 ct OR push_bit 2 ri OR (drop_bit 2 c AND 1)) = ct"
    unfolding m by (rule bit_word_eqI) (auto simp: bit_simps dest: b)
  show "drop_bit 2 (push_bit 6 ct OR push_bit 2 ri OR (drop_bit 2 c AND 1)) AND 0x0F = ri"
    unfolding m by (rule bit_word_eqI) (auto simp: bit_simps dest: b)
  show "(push_bit 6 ct OR push_bit 2 ri OR (drop_bit 2 c AND 1)) AND 1 = drop_bit 2 c AND 1"
    unfolding m by (rule bit_word_eqI) (auto simp: bit_simps)
qed

lemma mask_1FFC: "(0x1FFC :: u32) = push_bit 2 (mask 11)" and mask_1FFF: "(0x1FFF :: u32) = mask 13"
  and mask_E0: "(0xE0 :: u8) = push_bit 5 (mask 3)" and mask_3: "(3 :: u8) = mask 2"
  by (simp_all add: mask_eq_exp_minus_1 push_bit_eq_mult)

definition adts_word :: "u8 \<Rightarrow> u32 \<Rightarrow> u32" where
  "adts_word c fs = push_bit 30 (ucast (c AND 3)) OR push_bit 13 (fs AND 0x1FFF) OR 0x1FFC"

lemma adts_word_channels: "drop_bit 6 (ucast (drop_bit 24 (adts_word c fs)) :: u8) AND 3 = c AND 3"
  unfolding adts_word_def mask_1FFC mask_1FFF mask_3
  by (rule bit_word_eqI) (auto simp: bit_simps)

lemma size_bits:
  fixes v :: u32
  shows "push_bit 3 (ucast (ucast (drop_bit 16 v) :: u8)) OR
   drop_bit 5 (ucast ((ucast (drop_bit 8 v) :: u8) AND 0xE0)) OR
   push_bit 11 (ucast ((ucast (drop_bit 24 v) :: u8) AND 3)) = (ucast (drop_bit 13 v) AND mask 13 :: u16)"
    (is "?l = ?r")
proof (rule bit_word_eqI)
  fix i assume "i < LENGTH(16)"
  then consider "i < 3" | "3 \<le> i" "i < 11" | "11 \<le> i" "i < 13" | "13 \<le> i" "i < 16" by fastforce
  then show "bit ?l i = bit ?r i"
    unfolding mask_3 mask_E0
    by cases (auto simp: bit_simps algebra_simps)
qed

lemma adts_word_drop: "ucast (drop_bit 13 (adts_word c fs)) AND mask 13 = (ucast (fs AND 0x1FFF) :: u16)"
  unfolding adts_word_def mask_1FFC mask_1FFF mask_3
  by (rule bit_word_eqI) (auto simp: bit_simps)


definition written_rate :: "adts_writer \<Rightarrow> audio_tag \<Rightarrow> u8" where
  "written_rate w tag = (if aw_codecType w \<noteq> 0 then aw_rateIndex w else RateToIndex (at_rate tag))"

definition written_channels :: "adts_writer \<Rightarrow> audio_tag \<Rightarrow> u8" where
  "written_channels w tag = (if aw_channels w \<noteq> 0 then aw_channels w else at_channels tag)"

lemma adts_frame_header_bytes:
  "adts_frame_header w tag 0xFFF1 fs =
     (let v = adts_word (written_channels w tag) fs
      in [0xFF, 0xF1, push_bit 6 (aw_codecType w) OR push_bit 2 (written_rate w tag) OR (drop_bit 2 (written_channels w tag) AND 1),
          ucast (drop_bit 24 v), ucast (drop_bit 16 v), ucast (drop_bit 8 v), ucast v])"
  by (simp add: adts_frame_header_def adts_word_def written_rate_def written_channels_def net_be be_bytes_2 be_bytes_4 Let_def)

lemma channels_parts:
  assumes "c \<noteq> 0" "unat (c :: u8) < 8"
  shows "(let channels = push_bit 2 (drop_bit 2 c AND 1) OR (c AND 3) in if channels = 0 then 2 else channels) = c"
proof -
  have "push_bit 2 (drop_bit 2 c AND 1) OR (c AND 3) = c"
  proof (rule bit_word_eqI)
    fix i assume i: "i < LENGTH(8)"
    have b: "bit c i \<Longrightarrow> i < 3" using assms(2) by (auto intro: bit_small[of c 3])
    define d where "d = drop_bit 2 c AND 1"
    have d: "bit d j \<longleftrightarrow> j = 0 \<and> bit c 2" for j
      by (auto simp: d_def bit_and_iff bit_1_iff bit_drop_bit_eq numeral_2_eq_2)
    have "bit (push_bit 2 d) i = (i = 2 \<and> bit c i)" using i by (auto simp: bit_push_bit_iff d)
    moreover have "bit (c AND 3) i = (i < 2 \<and> bit c i)" using i unfolding mask_3 by (auto simp: bit_simps)
    ultimately show "bit (push_bit 2 (drop_bit 2 c AND 1) OR (c AND 3)) i = bit c i"
      using b unfolding d_def[symmetric] by (auto simp: bit_or_iff)
  qed
  then show ?thesis using assms(1) by simp
qed

definition adts_writable :: "adts_writer \<Rightarrow> audio_tag \<Rightarrow> bool" where
  "adts_writable w tag \<longleftrightarrow> at_codec tag = AUDIO_CODEC_AAC \<and> \<not> at_isConfig tag \<and> unat (aw_codecType w) < 4
     \<and> unat (written_rate w tag) < 15 \<and> written_channels w tag \<noteq> 0 \<and> unat (written_channels w tag) < 8"

text \<open>What the reader takes out of a written header, whatever follows it.\<close>

lemma written_header:
  fixes n :: nat and xs :: bytes
  assumes "adts_writable w tag" "n + 7 < 8192"
  defines "h \<equiv> adts_frame_header w tag 0xFFF1 (of_nat (n + 7)) @ xs"
  shows "length h \<ge> 7" "h ! 0 = 0xFF" "h ! 1 = 0xF1" "drop 7 h = xs"
    "adts_frame_size h = of_nat (n + 7)" "adts_channels h = written_channels w tag"
    "drop_bit 6 (h ! 2) = aw_codecType w" "drop_bit 2 (h ! 2) AND 0x0F = written_rate w tag"
proof -
  let ?c = "written_channels w tag" and ?fs = "of_nat (n + 7) :: u32"
  have w: "unat (aw_codecType w) < 4" "unat (written_rate w tag) < 16" "?c \<noteq> 0" "unat ?c < 8"
    using assms(1) by (simp_all add: adts_writable_def)
  note h = h_def adts_frame_header_bytes Let_def
  show "length h \<ge> 7" "h ! 0 = 0xFF" "h ! 1 = 0xF1" "drop 7 h = xs" by (simp_all add: h)
  have fs: "?fs AND 0x1FFF = ?fs"
    using take_bit_id_less[of ?fs 13] assms(2) by (simp add: mask_1FFF take_bit_eq_mask unat_of_nat_small del: of_nat_add)
  have "adts_frame_size h = ucast (?fs AND 0x1FFF)"
    unfolding adts_word_drop[of ?c, symmetric] size_bits[symmetric]
    by (simp add: adts_frame_size_def h or.assoc)
  also have "\<dots> = of_nat (n + 7)"
    unfolding fs by (rule ucast_of_nat_small) (use assms(2) in simp)
  finally show "adts_frame_size h = of_nat (n + 7)" .
  show "adts_channels h = ?c"
    using channels_parts[OF w(3,4)]
    by (simp add: adts_channels_def h adts_byte2[OF w(1,2)] adts_word_channels)
  have h2: "h ! 2 = push_bit 6 (aw_codecType w) OR push_bit 2 (written_rate w tag) OR (drop_bit 2 ?c AND 1)"
    by (simp add: h)
  show "drop_bit 6 (h ! 2) = aw_codecType w" "drop_bit 2 (h ! 2) AND 0x0F = written_rate w tag"
    by (simp_all only: h2 adts_byte2[OF w(1,2)])
qed


section \<open>Written frames are read\<close>

definition infos_of :: "u8 \<Rightarrow> u8 \<Rightarrow> u8 \<Rightarrow> u16" where
  "infos_of ct ri c = push_bit 12 (ucast ct) OR push_bit 8 (ucast ri) OR ucast c"

lemma infos_of_fields:
  assumes "unat ct < 4" "unat ri < 16"
  shows "drop_bit 12 (infos_of ct ri c) = ucast ct" "drop_bit 8 (infos_of ct ri c) AND 0x0F = ucast ri"
    "infos_of ct ri c AND 0xFF = ucast c"
proof -
  have m: "(0x0F :: u16) = mask 4" "(0xFF :: u16) = mask 8" by (simp_all add: mask_eq_exp_minus_1)
  have b: "bit ct i \<Longrightarrow> i < 2" "bit ri i \<Longrightarrow> i < 4" for i
    using assms by (auto intro: bit_small[of ct 2] bit_small[of ri 4])
  have e: "bit (infos_of ct ri c) i \<longleftrightarrow> (12 \<le> i \<and> i < 16 \<and> bit ct (i - 12)) \<or> (8 \<le> i \<and> i < 12 \<and> bit ri (i - 8)) \<or> (i < 8 \<and> bit c i)" for i
    using b(1)[of "i - 12"] b(2)[of "i - 8"] bit_imp_le_length[of c i] by (auto simp: infos_of_def bit_simps)
  show "drop_bit 12 (infos_of ct ri c) = ucast ct"
  proof (rule bit_word_eqI)
    fix n show "bit (drop_bit 12 (infos_of ct ri c)) n = bit (ucast ct :: u16) n" if "n < LENGTH(16)"
      using b(1)[of n] that by (auto simp: bit_drop_bit_eq e bit_ucast_iff)
  qed
  show "drop_bit 8 (infos_of ct ri c) AND 0x0F = ucast ri"
    unfolding m
  proof (rule bit_word_eqI)
    fix n show "bit (drop_bit 8 (infos_of ct ri c) AND mask 4) n = bit (ucast ri :: u16) n" if "n < LENGTH(16)"
      using b(2)[of n] that by (auto simp: bit_drop_bit_eq bit_and_iff bit_mask_iff e bit_ucast_iff)
  qed
  show "infos_of ct ri c AND 0xFF = ucast c"
    unfolding m
  proof (rule bit_word_eqI)
    fix n show "bit (infos_of ct ri c AND mask 8) n = bit (ucast c :: u16) n" if "n < LENGTH(16)"
      using bit_imp_le_length[of c n] that by (auto simp: bit_and_iff bit_mask_iff e bit_ucast_iff)
  qed
qed

lemma infos_of_0: "infos_of ct 0 0 = push_bit 12 (ucast ct)" "infos_of ct ri 0 = push_bit 12 (ucast ct) OR push_bit 8 (ucast ri)"
  by (simp_all add: infos_of_def)

definition aac_tag :: "u32 \<Rightarrow> bool \<Rightarrow> u8 \<Rightarrow> u32 \<Rightarrow> audio_tag" where
  "aac_tag time isConfig c rate =
     \<lparr>at_time = time, at_codec = AUDIO_CODEC_AAC, at_isConfig = isConfig, at_channels = c, at_rate = rate\<rparr>"

lemma codecType_AAC: "unat (v :: u8) < 4 \<Longrightarrow> \<not> (v > 30 \<and> v < 34)"
  by (simp add: word_less_nat_alt)

text \<open>The header of a frame like the one before, and of the first frame.\<close>

lemma header_same:
  assumes "drop_bit 6 (h ! 2) = ct" "drop_bit 2 (h ! 2) AND 0x0F = ri" "adts_channels h = c"
    and "unat ct < 4" "unat ri < 16" "RateFromIndex ri = Some rate"
    and "ad_infos s = infos_of ct ri c" "\<not> at_isConfig (ad_tag s)"
  shows "adts_header h s =
    Some (s\<lparr>ad_tag := aac_tag (ad_time s) False c rate, ad_time := ad_time s + aac_duration rate\<rparr>, [])"
  using assms(7,8) infos_of_fields[OF assms(4,5), of c] codecType_AAC[OF assms(4)]
  unfolding adts_header_def assms(1,2,3) by (simp add: Let_def assms(6) adts_changed_def aac_tag_def)

lemma header_first:
  assumes "drop_bit 6 (h ! 2) = ct" "drop_bit 2 (h ! 2) AND 0x0F = ri" "adts_channels h = c"
    and "unat ct < 4" "unat ri < 16" "RateFromIndex ri = Some rate" "c \<noteq> 0"
    and "ad_infos s = 0" "\<not> at_isConfig (ad_tag s)"
  shows "adts_header h s =
    Some (s\<lparr>ad_infos := infos_of ct ri c, ad_tag := aac_tag (ad_time s) False c rate, ad_time := ad_time s + aac_duration rate\<rparr>,
      [WriteAudio (aac_tag (ad_time s) True c rate) (WriteAudioConfig_index (ct + 1) ri c) (ad_track s)])"
proof -
  have z: "(0 :: u16) = ucast (v :: u8) \<longleftrightarrow> v = 0" for v
  proof -
    have "unat v < 2 ^ 16" by (rule order.strict_trans[OF unat_u8_less]) simp
    then have "unat (ucast v :: u16) = unat v"
      by (simp add: unsigned_ucast_eq take_bit_nat_eq_self del: unat_u8_less)
    then show ?thesis by (simp add: word_unat_eq_iff)
  qed
  have i: "infos_of ct ri 0 AND 0xFF = 0" "drop_bit 8 (infos_of ct 0 0) AND 0x0F = 0"
    using infos_of_fields[OF assms(4,5), of 0] infos_of_fields[OF assms(4), of 0 0] by simp_all
  have u: "adts_changed ch x s' = s'\<lparr>ad_infos := ad_infos s' OR x, ad_tag := (ad_tag s')\<lparr>at_isConfig := at_isConfig (ad_tag s') \<or> ch\<rparr>\<rparr>"
    if "ch \<or> x = 0" for ch x s'
    using that by (auto simp: adts_changed_def)
  have "adts_changed (drop_bit 12 (ad_infos s) \<noteq> ucast ct) (push_bit 12 (ucast ct)) s =
      s\<lparr>ad_infos := infos_of ct 0 0, ad_tag := (ad_tag s)\<lparr>at_isConfig := ct \<noteq> 0\<rparr>\<rparr>"
    using assms(8,9) by (subst u) (auto simp: z infos_of_def)
  moreover have "adts_changed (drop_bit 8 (infos_of ct 0 0) AND 0x0F \<noteq> ucast ri) (push_bit 8 (ucast ri)) s' =
      s'\<lparr>ad_infos := infos_of ct ri 0, ad_tag := (ad_tag s')\<lparr>at_isConfig := at_isConfig (ad_tag s') \<or> ri \<noteq> 0\<rparr>\<rparr>"
    if "ad_infos s' = infos_of ct 0 0" for s'
    unfolding i using that by (subst u) (auto simp: z infos_of_def)
  moreover have "adts_changed (infos_of ct ri 0 AND 0xFF \<noteq> ucast c) (ucast c) s' =
      s'\<lparr>ad_infos := infos_of ct ri c, ad_tag := (ad_tag s')\<lparr>at_isConfig := True\<rparr>\<rparr>"
    if "ad_infos s' = infos_of ct ri 0" for s'
    unfolding i using that assms(7) by (subst u) (auto simp: z infos_of_def or.assoc)
  ultimately show ?thesis
    using codecType_AAC[OF assms(4)] unfolding adts_header_def assms(1,2,3)
    by (simp add: Let_def assms(6) aac_tag_def)
qed


text \<open>A written frame in front of the buffer, and the rest of it.\<close>

definition written_frame :: "adts_writer \<Rightarrow> audio_tag \<Rightarrow> bytes \<Rightarrow> bytes" where
  "written_frame w tag packet = concat (snd (adts_writeAudio tag packet w))"

lemma written_frame:
  "adts_writable w tag \<Longrightarrow> written_frame w tag packet = adts_frame_header w tag 0xFFF1 (of_nat (length packet + 7)) @ packet"
  by (simp add: written_frame_def adts_writeAudio_def adts_writable_def)

lemma adts_parse_written:
  assumes "adts_writable w tag" "length packet + 7 < 8192" "ad_size s = 0"
    and "adts_header h (s\<lparr>ad_syncError := False, ad_size := of_nat (length packet)\<rparr>) = Some (s', config)"
    and "h = written_frame w tag packet @ xs" "ad_size s' = of_nat (length packet)"
  shows "adts_parse s h =
    map_option (\<lambda>(s'', es, k). (s'', config @ WriteAudio (ad_tag s') packet (ad_track s') # es, k))
      (adts_parse (s'\<lparr>ad_size := 0\<rparr>) xs)"
proof -
  have h: "h = adts_frame_header w tag 0xFFF1 (of_nat (length packet + 7)) @ packet @ xs"
    using assms(5) written_frame[OF assms(1)] by simp
  note f = written_header[OF assms(1,2), of "packet @ xs", folded h]
  have n: "unat (of_nat (length packet + 7) :: u16) = length packet + 7" "unat (of_nat (length packet) :: u16) = length packet"
    using assms(2) by (simp_all add: unat_of_nat_small del: of_nat_add)
  obtain sz where sz: "adts_frame_size h = sz" "unat sz = length packet + 7" "sz - 7 = of_nat (length packet)"
    using f(5) n(1) by (metis add_diff_cancel_right' of_nat_add of_nat_numeral)
  have ne: "h \<noteq> []" using f(1) by auto
  have l: "length (drop 7 h) = length packet + length xs" "take (length packet) (drop 7 h) = packet"
      "drop (length packet) (drop 7 h) = xs"
    by (simp_all only: f(4)) simp_all
  show ?thesis
    using f(1) ne assms(3,4)
    by (subst adts_parse.simps) (simp add: f(2) f(3)[simplified] sz n Let_def assms(6) l l(1)[simplified] del: drop_drop of_nat_add)
qed


text \<open>The calls expected for frames at a rate: one per packet, each at the time the durations before it add up to.\<close>

fun adts_calls :: "u32 \<Rightarrow> u8 \<Rightarrow> u8 \<Rightarrow> u32 \<Rightarrow> bytes list \<Rightarrow> media_event list" where
  "adts_calls rate c track time [] = []"
| "adts_calls rate c track time (p # ps) =
     WriteAudio (aac_tag time False c rate) p track # adts_calls rate c track (time + aac_duration rate) ps"

definition adts_stream :: "adts_writer \<Rightarrow> audio_tag \<Rightarrow> bytes list \<Rightarrow> bytes" where
  "adts_stream w tag packets = concat (map (written_frame w tag) packets)"

lemma adts_read_same:
  assumes "adts_writable w tag" "RateFromIndex (written_rate w tag) = Some rate"
  shows "list_all (\<lambda>p. length p + 7 < 8192) ps \<Longrightarrow> ad_size s = 0 \<Longrightarrow> \<not> at_isConfig (ad_tag s) \<Longrightarrow>
    ad_infos s = infos_of (aw_codecType w) (written_rate w tag) (written_channels w tag) \<Longrightarrow>
    \<exists>s'. adts_parse s (adts_stream w tag ps) =
      Some (s', adts_calls rate (written_channels w tag) (ad_track s) (ad_time s) ps, [])"
proof (induction ps arbitrary: s)
  case Nil
  then show ?case by (subst adts_parse.simps) (simp add: adts_stream_def)
next
  case (Cons p ps)
  have w: "unat (aw_codecType w) < 4" "unat (written_rate w tag) < 16" using assms(1) by (simp_all add: adts_writable_def)
  have p: "length p + 7 < 8192" using Cons.prems(1) by simp
  define h where "h = written_frame w tag p @ adts_stream w tag ps"
  have h: "adts_stream w tag (p # ps) = h" by (simp add: h_def adts_stream_def)
  have hh: "h = adts_frame_header w tag 0xFFF1 (of_nat (length p + 7)) @ p @ adts_stream w tag ps"
    using written_frame[OF assms(1), of p] by (simp add: h_def)
  note f = written_header[OF assms(1) p, of "p @ adts_stream w tag ps", folded hh]
  let ?s0 = "s\<lparr>ad_syncError := False, ad_size := of_nat (length p)\<rparr>"
  let ?s1 = "?s0\<lparr>ad_tag := aac_tag (ad_time s) False (written_channels w tag) rate, ad_time := ad_time s + aac_duration rate\<rparr>"
  have "adts_header h ?s0 = Some (?s1, [])"
    using header_same[OF f(7,8,6) w assms(2), of ?s0] Cons.prems(3,4) by simp
  from adts_parse_written[OF assms(1) p Cons.prems(2) this h_def]
  have "adts_parse s h = map_option (\<lambda>(s'', es, k). (s'', WriteAudio (aac_tag (ad_time s) False (written_channels w tag) rate) p (ad_track s) # es, k))
      (adts_parse (?s1\<lparr>ad_size := 0\<rparr>) (adts_stream w tag ps))" by simp
  moreover from Cons.IH[of "?s1\<lparr>ad_size := 0\<rparr>"] obtain s' where
    "adts_parse (?s1\<lparr>ad_size := 0\<rparr>) (adts_stream w tag ps) =
      Some (s', adts_calls rate (written_channels w tag) (ad_track s) (ad_time s + aac_duration rate) ps, [])"
    using Cons.prems by (auto simp: aac_tag_def)
  ultimately show ?case unfolding h by simp
qed

lemma adts_read_first:
  assumes "adts_writable w tag" "RateFromIndex (written_rate w tag) = Some rate"
    and "list_all (\<lambda>p. length p + 7 < 8192) (p # ps)"
    and "ad_size s = 0" "\<not> at_isConfig (ad_tag s)" "ad_infos s = 0"
  shows "\<exists>s'. adts_parse s (adts_stream w tag (p # ps)) =
      Some (s', WriteAudio (aac_tag (ad_time s) True (written_channels w tag) rate)
          (WriteAudioConfig_index (aw_codecType w + 1) (written_rate w tag) (written_channels w tag)) (ad_track s)
        # adts_calls rate (written_channels w tag) (ad_track s) (ad_time s) (p # ps), [])"
proof -
  have w: "unat (aw_codecType w) < 4" "unat (written_rate w tag) < 16" "written_channels w tag \<noteq> 0"
    using assms(1) by (simp_all add: adts_writable_def)
  have p: "length p + 7 < 8192" using assms(3) by simp
  define h where "h = written_frame w tag p @ adts_stream w tag ps"
  have h: "adts_stream w tag (p # ps) = h" by (simp add: h_def adts_stream_def)
  have hh: "h = adts_frame_header w tag 0xFFF1 (of_nat (length p + 7)) @ p @ adts_stream w tag ps"
    using written_frame[OF assms(1), of p] by (simp add: h_def)
  note f = written_header[OF assms(1) p, of "p @ adts_stream w tag ps", folded hh]
  let ?s0 = "s\<lparr>ad_syncError := False, ad_size := of_nat (length p)\<rparr>"
  let ?c = "WriteAudio (aac_tag (ad_time s) True (written_channels w tag) rate)
          (WriteAudioConfig_index (aw_codecType w + 1) (written_rate w tag) (written_channels w tag)) (ad_track s)"
  let ?s1 = "?s0\<lparr>ad_infos := infos_of (aw_codecType w) (written_rate w tag) (written_channels w tag),
      ad_tag := aac_tag (ad_time s) False (written_channels w tag) rate, ad_time := ad_time s + aac_duration rate\<rparr>"
  have "adts_header h ?s0 = Some (?s1, [?c])"
    using header_first[OF f(7,8,6) w(1,2) assms(2) w(3), of ?s0] assms(5,6) by simp
  from adts_parse_written[OF assms(1) p assms(4) this h_def]
  have "adts_parse s h = map_option (\<lambda>(s'', es, k). (s'', ?c # WriteAudio (aac_tag (ad_time s) False (written_channels w tag) rate) p (ad_track s) # es, k))
      (adts_parse (?s1\<lparr>ad_size := 0\<rparr>) (adts_stream w tag ps))" by simp
  moreover from adts_read_same[OF assms(1,2), of ps "?s1\<lparr>ad_size := 0\<rparr>"] obtain s' where
    "adts_parse (?s1\<lparr>ad_size := 0\<rparr>) (adts_stream w tag ps) =
      Some (s', adts_calls rate (written_channels w tag) (ad_track s) (ad_time s + aac_duration rate) ps, [])"
    using assms(3) by (auto simp: aac_tag_def)
  ultimately show ?thesis unfolding h by simp
qed

text \<open>
  C17. AAC frames written by \<open>ADTSWriter\<close> are read by a fresh \<open>ADTSReader\<close> as they were: one
  configuration that carries the object type, rate index and channels of the writer, then every packet
  with its content, in order, each at the time the durations of the frames before it add up to, and
  nothing stays in the buffer.  The packets are below 8185 bytes, the 13 bits of the frame size.
\<close>

theorem adts_written_read:
  assumes "adts_writable w tag" "RateFromIndex (written_rate w tag) = Some rate"
    and "list_all (\<lambda>p. length p + 7 < 8192) (p # ps)" "\<not> at_isConfig tag0"
  shows "\<exists>s'. adts_parse (new_adts_reader track tag0) (adts_stream w tag (p # ps)) =
      Some (s', WriteAudio (aac_tag 0 True (written_channels w tag) rate)
          (WriteAudioConfig_index (aw_codecType w + 1) (written_rate w tag) (written_channels w tag)) (if track \<noteq> 0 then track else 1)
        # adts_calls rate (written_channels w tag) (if track \<noteq> 0 then track else 1) 0 (p # ps), [])"
  using adts_read_first[OF assms(1-3), of "new_adts_reader track tag0"] assms(4) by (simp add: new_adts_reader_def)

theorem adts_written_read_witness:
  "\<exists>s'. adts_parse (new_adts_reader 1 (new_audio_tag 0))
      (adts_stream \<lparr>aw_codecType = 1, aw_rateIndex = 4, aw_channels = 2\<rparr> (new_audio_tag AUDIO_CODEC_AAC) [[1, 2, 3], [4]]) =
    Some (s', [WriteAudio (aac_tag 0 True 2 44100) [0x12, 0x10] 1, WriteAudio (aac_tag 0 False 2 44100) [1, 2, 3] 1,
      WriteAudio (aac_tag 23 False 2 44100) [4] 1], [])"
  using adts_written_read[of "\<lparr>aw_codecType = 1, aw_rateIndex = 4, aw_channels = 2\<rparr>" "new_audio_tag AUDIO_CODEC_AAC" 44100
      "[1, 2, 3]" "[[4]]" "new_audio_tag 0" 1]
  by (simp add: adts_writable_def written_rate_def written_channels_def new_audio_tag_def RateFromIndex_def
      mpeg4_rates_def WriteAudioConfig_index_def aac_duration_def)

end
