(* ===== verification/FLV.thy ===== *)
theory FLV
  imports VideoConfig
begin

text \<open>
  \<open>FLVReader\<close> and \<open>FLVWriter\<close>.  The reader keeps between two receptions where it is inside a tag
  (\<open>fr_type\<close> and \<open>fr_size\<close>) and the tags and audio configuration read before; what it skips it drops at
  once.  A comparison behind the end of the buffer (the name of a metadata packet) and an array or a
  configuration read out of bounds are no value: \<open>flv_parse\<close> is \<open>None\<close> there.
\<close>

section \<open>Reader\<close>

abbreviation FLV_VIDEO :: u8 where "FLV_VIDEO \<equiv> 0x09"
abbreviation FLV_AUDIO :: u8 where "FLV_AUDIO \<equiv> 0x08"

record flv_reader =
  fr_begin :: bool
  fr_size :: u32
  fr_type :: u8
  fr_syncError :: bool
  fr_video :: video_tag
  fr_audio :: audio_tag
  fr_audioConfig :: audio_config

















definition flv_flush :: "flv_reader \<Rightarrow> flv_reader \<times> media_event list" where
  "flv_flush s =
     (s\<lparr>fr_begin := True, fr_size := 0, fr_type := 0, fr_audioConfig := audio_config_reset (fr_audioConfig s),
        fr_syncError := False\<rparr>, [SourceReset, SourceFlush])"

section \<open>Writer\<close>




text \<open>The size of a tag with the parameter sets of a configuration; \<open>None\<close> when nothing is to be written.\<close>

record flv_sizes =
  fs_size :: u32
  fs_avc :: bool
  fs_codecs :: u8
  fs_vps :: bytes
  fs_sps :: bytes
  fs_pps :: bytes

definition flv_config_sets :: "u8 \<Rightarrow> bytes \<Rightarrow> bool \<times> bytes \<times> bytes \<times> bytes" where
  "flv_config_sets cdc packet =
     (if cdc = VIDEO_CODEC_H264 then (let (ok, sps, pps) = avc_ParseVideoConfig packet ([], []) in (ok, [], sps, pps))
      else hevc_ParseVideoConfig packet ([], [], []))"

definition flv_sizes_of :: "u8 \<Rightarrow> u8 \<Rightarrow> bool \<Rightarrow> bytes \<Rightarrow> flv_sizes option" where
  "flv_sizes_of type codecs isConfig packet =
     (let size = of_nat (length packet) :: u32;
          plain = \<lparr>fs_size = size, fs_avc = False, fs_codecs = codecs, fs_vps = [], fs_sps = [], fs_pps = []\<rparr>
      in if type = FLV_VIDEO then
           (let cdc = codecs AND 0x0F; avc = (cdc = VIDEO_CODEC_H264 \<or> cdc = VIDEO_CODEC_HEVC); size = size + 1
            in if \<not> avc then Some (plain\<lparr>fs_size := size\<rparr>)
               else let size = size + 4
                    in if \<not> isConfig then Some (plain\<lparr>fs_size := size, fs_avc := True\<rparr>)
                       else let (ok, vps, sps, pps) = flv_config_sets cdc packet
                            in if \<not> ok then None
                               else Some (plain\<lparr>fs_size := size - of_nat (length packet)
                                    + of_nat (length vps + length sps + length pps) + (if cdc = VIDEO_CODEC_H264 then 11 else 38),
                                  fs_avc := True, fs_vps := vps, fs_sps := sps, fs_pps := pps\<rparr>))
         else if type = FLV_AUDIO then
           (let (size, codecs) = (if packet \<noteq> [] \<or> \<not> isConfig then (size + 1, codecs) else (size, 0));
                avc = (drop_bit 4 codecs = AUDIO_CODEC_AAC)
            in Some (plain\<lparr>fs_size := (if avc then size + 1 else size), fs_avc := avc, fs_codecs := codecs\<rparr>))
         else Some plain)"

text \<open>\<open>write\<close> with a listener: the packets handed to it.\<close>

definition flv_write :: "u8 \<Rightarrow> u8 \<Rightarrow> u8 \<Rightarrow> bool \<Rightarrow> u32 \<Rightarrow> u16 \<Rightarrow> bytes \<Rightarrow> bytes list option" where
  "flv_write track type codecs isConfig time compositionOffset packet =
     (case flv_sizes_of type codecs isConfig packet of
        None \<Rightarrow> Some []
      | Some z \<Rightarrow>
          let header = [type] @ net24 (fs_size z) @ net24 time @ [ucast (drop_bit 24 time)] @ net24 (ucast track)
                @ (if fs_codecs z \<noteq> 0 then [fs_codecs z] else [])
                @ (if fs_avc z then [if isConfig then 0 else 1] @ (if type = FLV_VIDEO then net24 (ucast compositionOffset) else [])
                   else []);
              footer = net32 (11 + fs_size z)
          in if fs_sps z = [] then Some ([header] @ (if packet \<noteq> [] then [packet] else []) @ [footer])
             else if fs_vps z \<noteq> [] then Some [header @ hevc_WriteVideoConfig (fs_vps z) (fs_sps z) (fs_pps z) @ footer]
             else map_option (\<lambda>config. [header @ config @ footer]) (avc_WriteVideoConfig (fs_sps z) (fs_pps z)))"




text \<open>\<open>writeProperties\<close> with the packet \<open>properties.data(TYPE_AMF)\<close>: the tag type is \<open>TYPE_EMPTY\<close>.\<close>

definition flv_writeProperties :: "bytes \<Rightarrow> bytes list option" where
  "flv_writeProperties amf = flv_write 0 0 0 False 0 0 amf"

section \<open>The frame of a tag\<close>

definition tag_prefix :: "u32 \<Rightarrow> u8 \<Rightarrow> bytes" where
  "tag_prefix time track = net24 time @ [ucast (drop_bit 24 time)] @ net24 (ucast track)"

lemma length_tag_prefix [simp]: "length (tag_prefix time track) = 7"
  by (simp add: tag_prefix_def)








section \<open>The header of a content\<close>








section \<open>What the writer emits\<close>


lemma codecs_distinct: "((12 :: u8) = 7) = False" "((7 :: u8) = 12) = False"
  by simp_all








section \<open>A stream written and read\<close>















lemma audio_config_set_null [simp]: "\<not> audio_config_null (audio_config_set tag packet config)"
  by (simp add: audio_config_null_def audio_config_set_def)


















end
