(* ===== verification/NAL.thy ===== *)
theory NAL
  imports VideoConfig "HOL-Library.Sublist"
begin

text \<open>
  \<open>NALNetReader\<close> and \<open>NALNetWriter\<close>: the byte stream of NAL units behind start codes, cut into video
  packets of units behind 32 bit sizes, and back.  Both are templates over \<open>AVC\<close> and \<open>HEVC\<close>.  An array or
  a buffer used out of its bounds is no value: the operations of the reader and of the writer are options
  (\<open>nal_parse_safe\<close> shows that the reader never is).  The four bytes reserved for a size hold zeros until it
  is written over them.
\<close>

section \<open>The video type\<close>

datatype video_type = AVC | HEVC

fun CODEC :: "video_type \<Rightarrow> u8" where
  "CODEC AVC = VIDEO_CODEC_H264"
| "CODEC HEVC = VIDEO_CODEC_HEVC"

fun NalType :: "video_type \<Rightarrow> u8 \<Rightarrow> u8" where
  "NalType AVC byte = avc_NalType byte"
| "NalType HEVC byte = hevc_NalType byte"

fun NAL_AUD :: "video_type \<Rightarrow> u8" where
  "NAL_AUD AVC = 9"
| "NAL_AUD HEVC = 35"

fun NAL_SPS :: "video_type \<Rightarrow> u8" where
  "NAL_SPS AVC = 7"
| "NAL_SPS HEVC = 33"

fun nal_frame :: "video_type \<Rightarrow> u8 \<Rightarrow> u8 option" where
  "nal_frame AVC type = frame_of avc_frames type"
| "nal_frame HEVC type = frame_of hevc_frames type"

fun UpdateFrame :: "video_type \<Rightarrow> u8 \<Rightarrow> u8 \<Rightarrow> u8 option" where
  "UpdateFrame AVC type frame = Some (avc_UpdateFrame type frame)"
| "UpdateFrame HEVC type frame = hevc_UpdateFrame type frame"

section \<open>Reader\<close>

record nal_reader =
  nr_track :: u8
  nr_time :: u32
  nr_composition :: u16
  nr_type :: u8
  nr_tag :: video_tag
  nr_state :: u8
  nr_position :: nat
  nr_nal :: "bytes option"

definition new_nal_reader :: "video_type \<Rightarrow> u8 \<Rightarrow> nal_reader" where
  "new_nal_reader v track =
     \<lparr>nr_track = (if track \<noteq> 0 then track else 1), nr_time = 0, nr_composition = 0, nr_type = 0xFF,
      nr_tag = new_video_tag (CODEC v), nr_state = 0, nr_position = 0, nr_nal = None\<rparr>"

abbreviation nr_frame :: "nal_reader \<Rightarrow> u8" where "nr_frame s \<equiv> vt_frame (nr_tag s)"

definition nr_setFrame :: "u8 \<Rightarrow> nal_reader \<Rightarrow> nal_reader" where
  "nr_setFrame frame s = s\<lparr>nr_tag := (nr_tag s)\<lparr>vt_frame := frame\<rparr>\<rparr>"

text \<open>The size of the unit at \<open>_position\<close>, written in front of it.\<close>

definition nal_sized :: "nat \<Rightarrow> bytes \<Rightarrow> bytes option" where
  "nal_sized pos b = (if length b < pos + 4 then None else Some (overwrite pos (net32 (of_nat (length b - pos - 4))) b))"

definition flushNal :: "nal_reader \<Rightarrow> (nal_reader \<times> media_event list) option" where
  "flushNal s =
     (case nr_nal s of
        None \<Rightarrow> Some (s, [])
      | Some b \<Rightarrow>
          map_option (\<lambda>nal.
            (nr_setFrame FRAME_UNSPECIFIED (s\<lparr>nr_nal := None\<rparr>),
             if nr_frame s = FRAME_CONFIG \<or> length nal > 4 then [WriteVideo (nr_tag s) nal (nr_track s)] else []))
            (nal_sized (nr_position s) b))"

text \<open>
  The beginning of a unit that is kept: what of the units before is flushed or dropped, the frame they make
  together, and whether the configuration is complete with this one.
\<close>

definition nal_update :: "video_type \<Rightarrow> u8 \<Rightarrow> nal_reader \<times> media_event list \<Rightarrow> (nal_reader \<times> media_event list \<times> bool) option" where
  "nal_update v frame = (\<lambda>(s, es).
     map_option (\<lambda>f. (nr_setFrame f s, es, False)) (UpdateFrame v (nr_type s) frame))"

definition nal_group :: "video_type \<Rightarrow> nal_reader \<Rightarrow> (nal_reader \<times> media_event list \<times> bool) option" where
  "nal_group v s =
     (if nr_frame s = FRAME_CONFIG then
        (case nr_nal s of
           None \<Rightarrow> None
         | Some b \<Rightarrow>
             if length b \<le> nr_position s + 4 then None
             else let prevType = NalType v (b ! (nr_position s + 4))
                  in if nr_type s = prevType then Some (s\<lparr>nr_nal := None\<rparr>, [], False)
                     else case nal_frame v (nr_type s) of
                            None \<Rightarrow> None
                          | Some frame \<Rightarrow>
                              if frame \<noteq> FRAME_CONFIG then
                                Option.bind (if prevType = NAL_SPS v then flushNal s else Some (s\<lparr>nr_nal := None\<rparr>, []))
                                  (nal_update v FRAME_UNSPECIFIED)
                              else Some (s, [], True))
      else case nal_frame v (nr_type s) of
             None \<Rightarrow> None
           | Some frame \<Rightarrow>
               Option.bind
                 (if frame = FRAME_CONFIG then flushNal s
                  else if vt_time (nr_tag s) \<noteq> nr_time s \<or> vt_composition (nr_tag s) \<noteq> nr_composition s then flushNal s
                  else Some (s, []))
                 (\<lambda>(s, es). nal_update v (nr_frame s) (s, es)))"

definition nal_open :: "nal_reader \<Rightarrow> nal_reader option" where
  "nal_open s =
     (case nr_nal s of
        Some b \<Rightarrow> map_option (\<lambda>nal. s\<lparr>nr_nal := Some (nal @ [0, 0, 0, 0]), nr_position := length nal\<rparr>) (nal_sized (nr_position s) b)
      | None \<Rightarrow> Some (s\<lparr>nr_tag := (nr_tag s)\<lparr>vt_time := nr_time s, vt_composition := nr_composition s\<rparr>,
                       nr_position := 0, nr_nal := Some [0, 0, 0, 0]\<rparr>))"

text \<open>The end of \<open>writeNal\<close>: the bytes are appended, the start code behind them is trimmed off.\<close>

definition nal_append :: "bytes \<Rightarrow> bool \<Rightarrow> nal_reader \<Rightarrow> nal_reader option" where
  "nal_append data eon s =
     (case nr_nal s of
        None \<Rightarrow> None
      | Some b \<Rightarrow>
          let b = b @ data; n = unat (nr_state s) + 1
          in if \<not> eon then Some (s\<lparr>nr_nal := Some b\<rparr>)
             else if length b < n then None
             else Some (s\<lparr>nr_nal := Some (take (length b - n) b)\<rparr>))"

definition NAL_MAX :: nat where
  "NAL_MAX = 0xA00000"

definition writeNal :: "video_type \<Rightarrow> nal_reader \<Rightarrow> bytes \<Rightarrow> bool \<Rightarrow> (nal_reader \<times> media_event list) option" where
  "writeNal v s data eon =
     (if nr_type s = 0xFF then
        (let s = s\<lparr>nr_type := NalType v (hd data)\<rparr>
         in if nr_type s \<ge> NAL_AUD v then flushNal s
            else Option.bind (nal_group v s) (\<lambda>(s, es, flush).
                   Option.bind (nal_open s) (\<lambda>s.
                     Option.bind (nal_append data eon s) (\<lambda>s.
                       if flush then map_option (\<lambda>(s, es'). (s, es @ es')) (flushNal s) else Some (s, es)))))
      else case nr_nal s of
             None \<Rightarrow> Some (s, [])
           | Some b \<Rightarrow>
               if length b + length data > NAL_MAX then Some (nr_setFrame FRAME_UNSPECIFIED (s\<lparr>nr_nal := None\<rparr>), [])
               else map_option (\<lambda>s. (s, [])) (nal_append data eon s))"

text \<open>The state of the search of a start code behind a byte, \<open>None\<close> when the byte ends one.\<close>

definition start_code :: "u8 \<Rightarrow> u8 \<Rightarrow> u8 option" where
  "start_code state value =
     (if state = 0 then Some (if value = 0 then 1 else 0)
      else if state = 1 then Some (if value = 0 then 2 else 0)
      else if state = 2 \<or> state = 3 then
        (if value = 0 then Some 3 else if value = 1 then None else Some 0)
      else Some 0)"

text \<open>The loop of \<open>parse\<close>: \<open>pending\<close> are the bytes from \<open>nal\<close> to \<open>cur\<close>.\<close>

fun nal_scan :: "video_type \<Rightarrow> nal_reader \<Rightarrow> bytes \<Rightarrow> bytes \<Rightarrow> (nal_reader \<times> media_event list) option" where
  "nal_scan v s pending [] = (if pending \<noteq> [] then writeNal v s pending False else Some (s, []))"
| "nal_scan v s pending (value # rest) =
     (case start_code (nr_state s) value of
        Some state \<Rightarrow> nal_scan v (s\<lparr>nr_state := state\<rparr>) (pending @ [value]) rest
      | None \<Rightarrow>
          Option.bind (writeNal v s (pending @ [value]) True) (\<lambda>(s, es).
            map_option (\<lambda>(s, es'). (s, es @ es')) (nal_scan v (s\<lparr>nr_type := 0xFF, nr_state := 0\<rparr>) [] rest)))"

definition nal_parse :: "video_type \<Rightarrow> nal_reader \<Rightarrow> bytes \<Rightarrow> (nal_reader \<times> media_event list) option" where
  "nal_parse v s buffer = nal_scan v s [] buffer"

definition nal_onFlush :: "nal_reader \<Rightarrow> (nal_reader \<times> media_event list) option" where
  "nal_onFlush s = map_option (\<lambda>(s, es). (s\<lparr>nr_type := 0xFF, nr_state := 0\<rparr>, es)) (flushNal s)"

definition nal_flush :: "nal_reader \<Rightarrow> (nal_reader \<times> media_event list) option" where
  "nal_flush s = map_option (\<lambda>(s, es). (s\<lparr>nr_time := 0, nr_composition := 0\<rparr>, es)) (nal_onFlush s)"

section \<open>Writer\<close>

datatype nal_class = NAL_UNDEFINED | NAL_VCL | NAL_CONFIG | NAL_START

record nal_writer =
  nw_time :: u32
  nw_nal :: nal_class

definition nal_beginMedia :: nal_writer where
  "nal_beginMedia = \<lparr>nw_time = 0, nw_nal = NAL_START\<rparr>"

fun nal_Unit :: "video_type \<Rightarrow> bytes" where
  "nal_Unit AVC = [0, 0, 0, 1, 0x09, 0xF0, 0, 0, 0, 1]"
| "nal_Unit HEVC = [0, 0, 0, 1, 0x46, 0x01, 0x50, 0, 0, 0, 1]"

definition nal_class_of :: "u8 \<Rightarrow> nal_class" where
  "nal_class_of frame =
     (if frame = FRAME_INTER \<or> frame = FRAME_KEY then NAL_VCL
      else if frame = FRAME_CONFIG then NAL_CONFIG else NAL_UNDEFINED)"

text \<open>The prefix of a unit, and the class behind it.\<close>

definition nal_prefix :: "video_type \<Rightarrow> nal_class \<Rightarrow> nal_class \<Rightarrow> bytes" where
  "nal_prefix v nal newNal =
     (if nal = NAL_START \<or> (nal \<noteq> NAL_UNDEFINED \<and> newNal \<noteq> nal) then nal_Unit v
      else if newNal = NAL_CONFIG then take 4 (nal_Unit v)
      else take 3 (drop 1 (nal_Unit v)))"

text \<open>The body of the two loops: the size first, then the packets given to the listener.\<close>

definition nal_size_step :: "video_type \<Rightarrow> bytes \<Rightarrow> (u32 \<times> nal_class) option \<Rightarrow> (u32 \<times> nal_class) option" where
  "nal_size_step v unit = (\<lambda>acc. Option.bind acc (\<lambda>(finalSize, nal).
     let type = NalType v (hd unit)
     in if type \<noteq> NAL_AUD v then
          map_option (\<lambda>frame.
            let newNal = nal_class_of frame;
                n = (if nal = NAL_START \<or> (nal \<noteq> NAL_UNDEFINED \<and> newNal \<noteq> nal) then of_nat (length (nal_Unit v))
                     else if newNal = NAL_CONFIG then 4 else 3)
            in (finalSize + n + of_nat (length unit), newNal)) (nal_frame v type)
        else Some (finalSize, NAL_START)))"

definition nal_write_step :: "video_type \<Rightarrow> bytes \<Rightarrow> (bytes list \<times> nal_class) option \<Rightarrow> (bytes list \<times> nal_class) option" where
  "nal_write_step v unit = (\<lambda>acc. Option.bind acc (\<lambda>(out, nal).
     let type = NalType v (hd unit)
     in if type \<noteq> NAL_AUD v then
          map_option (\<lambda>frame.
            let newNal = nal_class_of frame
            in (out @ [nal_prefix v nal newNal, unit], newNal)) (nal_frame v type)
        else Some (out, NAL_START)))"

text \<open>\<open>writeVideo\<close> with a listener: the writer, the packets given to it and \<open>finalSize\<close>.\<close>

definition nal_writeVideo :: "video_type \<Rightarrow> nal_writer \<Rightarrow> video_tag \<Rightarrow> bytes \<Rightarrow> u32
    \<Rightarrow> (nal_writer \<times> bytes list \<times> u32) option" where
  "nal_writeVideo v w tag packet finalSize =
     (if vt_codec tag \<noteq> CODEC v then Some (w, [], finalSize)
      else let w = (if nw_time w \<noteq> vt_time tag then w\<lparr>nw_time := vt_time tag, nw_nal := NAL_START\<rparr> else w)
           in Option.bind (fold_nals (nal_size_step v) (net_reader packet) (Some (0, nw_nal w))) (\<lambda>(finalSize, _).
                map_option (\<lambda>(out, nal). (w\<lparr>nw_nal := nal\<rparr>, out, finalSize))
                  (fold_nals (nal_write_step v) (net_reader packet) (Some ([], nw_nal w)))))"

section \<open>The size the writer announces\<close>

lemma fold_nals_rel:
  assumes "R s t" "\<And>nal s t. R s t \<Longrightarrow> R (f nal s) (g nal t)"
  shows "R (fold_nals f r s) (fold_nals g r t)"
  using assms
proof (induction f r s arbitrary: t rule: fold_nals.induct)
  case (1 f r s)
  obtain n r' where r: "br_read32 r = (n, r')" by (cases "br_read32 r")
  note unfold = fold_nals.simps[of f r] fold_nals.simps[of g r] Let_def r prod.case
  show ?case
  proof (cases "br_available r = 0 \<or> min (unat n) (br_available r') = 0")
    case True
    then show ?thesis using 1(1)[OF _ refl r[symmetric] refl _ 1(3,4)] 1(3) unfolding unfold by (cases "br_available r = 0") simp_all
  next
    case False
    then have "R (fold_nals f (snd (br_next (min (unat n) (br_available r')) r'))
          (f (take (min (unat n) (br_available r')) (drop (rd_cur r') (rd_data r'))) s))
        (fold_nals g (snd (br_next (min (unat n) (br_available r')) r'))
          (g (take (min (unat n) (br_available r')) (drop (rd_cur r') (rd_data r'))) t))"
      by (intro 1(2)[OF _ refl r[symmetric] refl] 1(3,4)) (use 1(4) in auto)
    then show ?thesis unfolding unfold using False by (simp only: de_Morgan_disj if_False simp_thms)
  qed
qed

lemma nal_Unit_length: "length (nal_Unit AVC) = 10" "length (nal_Unit HEVC) = 11" by simp_all

lemma nal_prefix_length:
  "(of_nat (length (nal_prefix v nal newNal)) :: u32) =
     (if nal = NAL_START \<or> (nal \<noteq> NAL_UNDEFINED \<and> newNal \<noteq> nal) then of_nat (length (nal_Unit v))
      else if newNal = NAL_CONFIG then 4 else 3)"
  by (cases v) (simp_all add: nal_prefix_def)

definition sized_as :: "(u32 \<times> nal_class) option \<Rightarrow> (bytes list \<times> nal_class) option \<Rightarrow> bool" where
  "sized_as a b \<longleftrightarrow> rel_option (\<lambda>(n, x) (out, y). x = y \<and> n = of_nat (length (concat out))) a b"

lemma sized_as_step: "sized_as a b \<Longrightarrow> sized_as (nal_size_step v unit a) (nal_write_step v unit b)"
proof (cases a)
  case (Some p)
  assume ab: "sized_as a b"
  then obtain n x out where p: "p = (n, x)" "b = Some (out, x)" "n = of_nat (length (concat out))"
    using Some by (cases p; cases b) (auto simp: sized_as_def)
  show ?thesis
  proof (cases "NalType v (hd unit) = NAL_AUD v")
    case False
    then show ?thesis
      using Some p nal_prefix_length[of v x]
      by (cases "nal_frame v (NalType v (hd unit))")
        (simp_all add: sized_as_def nal_size_step_def nal_write_step_def Let_def)
  qed (use Some p in \<open>simp add: sized_as_def nal_size_step_def nal_write_step_def\<close>)
qed (simp add: sized_as_def nal_size_step_def nal_write_step_def)

lemma final_size_of:
  assumes "nal_writeVideo v w tag packet n = Some (w', out, finalSize)" "vt_codec tag = CODEC v"
  shows "finalSize = of_nat (length (concat out))"
proof -
  let ?w = "if nw_time w \<noteq> vt_time tag then w\<lparr>nw_time := vt_time tag, nw_nal := NAL_START\<rparr> else w"
  have "sized_as (fold_nals (nal_size_step v) (net_reader packet) (Some (0, nw_nal ?w)))
      (fold_nals (nal_write_step v) (net_reader packet) (Some ([], nw_nal ?w)))"
    by (rule fold_nals_rel) (simp_all add: sized_as_step sized_as_def[of "Some _"])
  then show ?thesis
    using assms by (auto simp: nal_writeVideo_def sized_as_def Let_def bind_eq_Some_conv rel_option_iff split: option.splits)
qed

text \<open>C35. For a packet of the codec of the writer, in any state, the final size that \<open>writeVideo\<close> computes in its first loop
  is the total size, modulo \<open>2 ^ 32\<close>, of the packets that its second loop gives to the listener.\<close>

theorem nal_final_size:
  assumes "nal_writeVideo v w tag packet n = Some (w', out, finalSize)" "vt_codec tag = CODEC v"
  shows "finalSize = of_nat (length (concat out))"
  using assms by (rule final_size_of)

section \<open>The buffer of the reader\<close>

definition nal_holds :: "nal_reader \<Rightarrow> bytes list \<Rightarrow> bytes \<Rightarrow> bool" where
  "nal_holds s units cur \<longleftrightarrow> (\<exists>x. length x = 4 \<and> nr_nal s = Some (nal_stream units @ x @ cur))
     \<and> nr_position s = length (nal_stream units)"

lemma nal_stream_snoc: "nal_stream (units @ [u]) = nal_stream units @ net32 (of_nat (length u)) @ u"
  by (simp add: nal_stream_def)

lemma nal_sized_holds:
  assumes "length x = 4"
  shows "nal_sized (length (nal_stream units)) (nal_stream units @ x @ cur) = Some (nal_stream (units @ [cur]))"
  using assms by (simp add: nal_sized_def overwrite_def nal_stream_snoc)

lemma nal_stream_len: "units \<noteq> [] \<Longrightarrow> 4 \<le> length (nal_stream units)"
  by (cases units) (simp_all add: nal_stream_def)

lemma flushNal_holds:
  assumes "nal_holds s units cur"
  shows "flushNal s = Some (nr_setFrame FRAME_UNSPECIFIED (s\<lparr>nr_nal := None\<rparr>),
    if nr_frame s = FRAME_CONFIG \<or> units \<noteq> [] \<or> cur \<noteq> []
    then [WriteVideo (nr_tag s) (nal_stream (units @ [cur])) (nr_track s)] else [])"
proof -
  obtain x where x: "length x = 4" "nr_nal s = Some (nal_stream units @ x @ cur)" "nr_position s = length (nal_stream units)"
    using assms by (auto simp: nal_holds_def)
  have "length (nal_stream (units @ [cur])) > 4 \<longleftrightarrow> units \<noteq> [] \<or> cur \<noteq> []"
    using nal_stream_len[of units] by (cases "units = []") (auto simp: nal_stream_snoc nal_stream_def[of "[_]"])
  then show ?thesis by (simp add: flushNal_def x nal_sized_holds)
qed

lemma flushNal_none: "nr_nal s = None \<Longrightarrow> flushNal s = Some (s, [])"
  by (simp add: flushNal_def)

text \<open>The fields that opening and filling a buffer leave alone.\<close>

definition nal_same :: "nal_reader \<Rightarrow> nal_reader \<Rightarrow> bool" where
  "nal_same s' s \<longleftrightarrow> nr_track s' = nr_track s \<and> nr_time s' = nr_time s \<and> nr_composition s' = nr_composition s
     \<and> nr_type s' = nr_type s \<and> nr_state s' = nr_state s"

lemma nal_open_holds:
  assumes "nal_holds s units cur"
  shows "\<exists>s'. nal_open s = Some s' \<and> nal_holds s' (units @ [cur]) [] \<and> nal_same s' s \<and> nr_tag s' = nr_tag s"
  using assms by (auto simp: nal_holds_def nal_open_def nal_sized_holds nal_same_def)

lemma nal_open_none:
  assumes "nr_nal s = None"
  shows "\<exists>s'. nal_open s = Some s' \<and> nal_holds s' [] [] \<and> nal_same s' s
    \<and> nr_tag s' = (nr_tag s)\<lparr>vt_time := nr_time s, vt_composition := nr_composition s\<rparr>"
  using assms by (auto simp: nal_holds_def nal_open_def nal_stream_def nal_same_def)

text \<open>The bytes appended to the unit and the start code trimmed off.\<close>

definition trimmed :: "bool \<Rightarrow> u8 \<Rightarrow> bytes \<Rightarrow> bytes" where
  "trimmed eon state b = (if eon then take (length b - (unat state + 1)) b else b)"

lemma nal_append_holds:
  assumes "nal_holds s units cur" "eon \<Longrightarrow> unat (nr_state s) + 1 \<le> length (cur @ data)"
  shows "\<exists>s'. nal_append data eon s = Some s' \<and> nal_holds s' units (trimmed eon (nr_state s) (cur @ data))
    \<and> nal_same s' s \<and> nr_tag s' = nr_tag s"
  using assms by (auto simp: nal_holds_def nal_append_def trimmed_def Let_def nal_same_def)

section \<open>The reader never leaves its buffers\<close>

text \<open>No start code, that is no byte 1 behind two zeros.\<close>

definition no_start :: "bytes \<Rightarrow> bool" where
  "no_start xs \<longleftrightarrow> \<not> sublist [0, 0, 1] xs"

text \<open>
  The state of the search is the number of zeros at the end of the bytes read, 3 standing for three or more, and they hold
  no start code.
\<close>

definition zeros_end :: "u8 \<Rightarrow> bytes \<Rightarrow> bool" where
  "zeros_end state xs \<longleftrightarrow> no_start xs
     \<and> (\<exists>ys. xs = ys @ replicate (unat state) 0 \<and> (state = 3 \<or> ys = [] \<or> last ys \<noteq> 0))"

text \<open>A buffer whose units, the current one included, hold no start code.\<close>

definition nal_keeps :: "nal_reader \<Rightarrow> bytes list \<Rightarrow> bytes \<Rightarrow> bool" where
  "nal_keeps s units cur \<longleftrightarrow> nal_holds s units cur \<and> list_all no_start units \<and> no_start cur"

definition is_config :: "video_type \<Rightarrow> bytes \<Rightarrow> bool" where
  "is_config v cur \<longleftrightarrow> cur \<noteq> [] \<and> nal_frame v (NalType v (hd cur)) = Some FRAME_CONFIG"

text \<open>
  Units behind their sizes then what is there of the current one, whose last bytes with those \<open>pending\<close> are the zeros
  counted; a configuration that waits has a parameter set as its last unit; without a buffer no frame.
\<close>

definition nal_inv :: "video_type \<Rightarrow> nal_reader \<Rightarrow> bytes \<Rightarrow> bool" where
  "nal_inv v s pending \<longleftrightarrow> unat (nr_state s) \<le> 3 \<and> vt_codec (nr_tag s) = CODEC v \<and>
     (nr_nal s = None \<and> nr_frame s = FRAME_UNSPECIFIED \<and> (nr_type s = 0xFF \<longrightarrow> zeros_end (nr_state s) pending)
      \<or> (\<exists>units cur. nal_keeps s units cur \<and> (nr_frame s = FRAME_CONFIG \<longrightarrow> is_config v cur)
          \<and> zeros_end (nr_state s) ((if nr_type s = 0xFF then [] else cur) @ pending)))"

text \<open>What the reader gives to its source: byte strings without a start code, at least one, each behind its size.\<close>

fun nal_event :: "video_type \<Rightarrow> media_event \<Rightarrow> bool" where
  "nal_event v (WriteVideo tag packet track) \<longleftrightarrow> vt_codec tag = CODEC v \<and> 
     (\<exists>units. units \<noteq> [] \<and> list_all no_start units \<and> packet = nal_stream units)"
| "nal_event v _ \<longleftrightarrow> False"

lemma u8_le_3:
  assumes "unat (x :: u8) \<le> 3"
  shows "x = 0 \<or> x = 1 \<or> x = 2 \<or> x = 3"
proof -
  have "unat x = unat (0 :: u8) \<or> unat x = unat (1 :: u8) \<or> unat x = unat (2 :: u8) \<or> unat x = unat (3 :: u8)"
    using assms by simp arith
  then show ?thesis by (simp only: word_unat_eq_iff)
qed

lemma unat_u8_123: "unat (1 :: u8) = Suc 0" "unat (2 :: u8) = Suc (Suc 0)" "unat (3 :: u8) = Suc (Suc (Suc 0))"
  by simp_all

lemma no_start_prefix: "no_start (xs @ ys) \<Longrightarrow> no_start xs"
  by (auto simp: no_start_def sublist_append)

lemma no_start_replicate [simp]: "no_start (replicate n 0)" "no_start []"
proof -
  show "no_start (replicate n 0)" unfolding no_start_def
  proof
    assume "sublist [0, 0, 1] (replicate n (0 :: u8))"
    then have "set [0, 0, 1] \<subseteq> set (replicate n (0 :: u8))" by (rule set_mono_sublist)
    then show False by (auto split: if_splits)
  qed
qed (simp add: no_start_def)

lemma no_start_snoc:
  assumes "no_start xs" "value = 1 \<Longrightarrow> \<nexists>ys. xs = ys @ [0, 0]"
  shows "no_start (xs @ [value])"
  unfolding no_start_def
proof
  assume "sublist [0, 0, 1] (xs @ [value])"
  then obtain a b where e: "xs @ [value] = a @ [0, 0, 1] @ b" by (auto simp: sublist_def)
  show False
  proof (cases b rule: rev_cases)
    case Nil
    then have "xs = a @ [0, 0]" "value = 1" using e by (simp_all add: append_eq_append_conv2 append_eq_Cons_conv)
    then show False using assms(2) by blast
  next
    case (snoc c x)
    then have "xs = a @ [0, 0, 1] @ c" using e by (simp flip: append_assoc)
    then show False using assms(1) unfolding no_start_def sublist_def by blast
  qed
qed

lemma zeros_start_code:
  assumes "unat state \<le> 3" "zeros_end state xs" "start_code state value = Some state'"
  shows "unat state' \<le> 3 \<and> zeros_end state' (xs @ [value])"
proof -
  obtain ys where ys: "xs = ys @ replicate (unat state) 0" "state = 3 \<or> ys = [] \<or> last ys \<noteq> 0" and free: "no_start xs"
    using assms(2) by (auto simp: zeros_end_def)
  have "no_start (xs @ [value])"
  proof (rule no_start_snoc [OF free], rule)
    assume one: "value = 1" "\<exists>zs. xs = zs @ [0, 0]"
    then have "state = 0 \<or> state = 1" using assms(3) u8_le_3 [OF assms(1)] by (auto simp: start_code_def)
    then show False using one(2) ys by (auto simp: append_eq_append_conv2 append_eq_Cons_conv)
  qed
  note new = this
  have nonzero: "zeros_end 0 (xs @ [value])" if "value \<noteq> 0" using new that by (simp add: zeros_end_def)
  have zero: "state = 0 \<Longrightarrow> value = 0 \<Longrightarrow> zeros_end 1 (xs @ [0])" "state = 1 \<Longrightarrow> value = 0 \<Longrightarrow> zeros_end 2 (xs @ [0])"
    using new ys by (simp_all only: zeros_end_def unat_u8_123) (auto intro!: exI[of _ ys])
  have "zeros_end 3 (xs @ [0])" if "state = 2 \<or> state = 3" "value = 0"
    using that new ys by (elim disjE; simp only: zeros_end_def unat_u8_123) (auto intro: exI[of _ ys] exI[of _ "ys @ [0]"])
  then show ?thesis
    using u8_le_3[OF assms(1)] assms(3) nonzero zero by (auto simp: start_code_def split: if_splits)
qed

lemma start_code_None: "start_code state value = None \<longleftrightarrow> value = 1 \<and> (state = 2 \<or> state = 3)"
  by (auto simp: start_code_def)

lemma NalType_less: "unat (NalType v byte) < 64"
proof (cases v)
  case AVC
  have "byte AND 0x1F = take_bit 5 byte" by (simp add: take_bit_eq_mask mask_eq_exp_minus_1)
  then show ?thesis using AVC take_bit_nat_less_exp[of 5 "unat byte"] by (simp add: avc_NalType_def unsigned_take_bit_eq)
next
  case HEVC
  have "byte AND 0x7F = take_bit 7 byte" by (simp add: take_bit_eq_mask mask_eq_exp_minus_1)
  then show ?thesis
    using HEVC take_bit_nat_less_exp[of 7 "unat byte"]
    by (simp add: hevc_NalType_def unat_drop_bit unsigned_take_bit_eq)
qed

lemma NalType_not_FF: "NalType v byte \<noteq> 0xFF"
  using NalType_less[of v byte] by auto

lemma NalType_0 [simp]: "NalType v 0 = 0"
  by (cases v) (simp_all add: avc_NalType_def hevc_NalType_def)

lemma nal_frame_0: "nal_frame v 0 \<noteq> Some FRAME_CONFIG"
  by (cases v) (simp_all add: frame_of_def avc_frames_def hevc_frames_def nth_append)

lemma is_config_hd: "is_config v cur \<Longrightarrow> hd cur \<noteq> 0"
  using nal_frame_0[of v] by (auto simp: is_config_def)

lemma nal_frame_in: "type < NAL_AUD v \<Longrightarrow> nal_frame v type \<noteq> None"
  by (cases v) (simp_all add: frame_of_def avc_frames_def hevc_frames_def word_less_nat_alt)

lemma UpdateFrame_in: "type < NAL_AUD v \<Longrightarrow> UpdateFrame v type frame \<noteq> None"
  by (cases v) (simp_all add: hevc_UpdateFrame_def frame_of_def hevc_frames_def word_less_nat_alt)

lemma UpdateFrame_config:
  assumes "type < NAL_AUD v" "UpdateFrame v type frame = Some f" "f = FRAME_CONFIG"
  shows "frame = FRAME_CONFIG \<or> nal_frame v type = Some FRAME_CONFIG"
  using assms by (cases v)
    (auto simp: avc_UpdateFrame_def hevc_UpdateFrame_def merge_frame_def frame_of_def avc_frames_def word_less_nat_alt
      split: if_splits)

lemma trimmed_zeros:
  assumes "eon \<Longrightarrow> zeros_end state b"
  shows "\<exists>cur. trimmed eon state (b @ (if eon then [1] else [])) = cur
    \<and> b = cur @ (if eon then replicate (unat state) 0 else [])"
  using assms by (cases eon) (auto simp: trimmed_def zeros_end_def)

lemma nal_holds_update [simp]:
  "nal_holds (s\<lparr>nr_type := t\<rparr>) = nal_holds s" "nal_holds (s\<lparr>nr_state := n\<rparr>) = nal_holds s"
  "nal_holds (s\<lparr>nr_tag := tag\<rparr>) = nal_holds s"
  by (simp_all add: nal_holds_def fun_eq_iff)

lemma nal_keeps_update [simp]:
  "nal_keeps (s\<lparr>nr_type := t\<rparr>) = nal_keeps s" "nal_keeps (s\<lparr>nr_state := n\<rparr>) = nal_keeps s"
  "nal_keeps (s\<lparr>nr_tag := tag\<rparr>) = nal_keeps s" "nal_keeps (nr_setFrame f s) = nal_keeps s"
  by (simp_all add: nal_keeps_def fun_eq_iff nr_setFrame_def)

lemma flushNal_ok:
  assumes "vt_codec (nr_tag s) = CODEC v"
    and "nr_nal s = None \<and> nr_frame s = FRAME_UNSPECIFIED \<or> (\<exists>units cur. nal_keeps s units cur)"
  shows "\<exists>es. flushNal s = Some (nr_setFrame FRAME_UNSPECIFIED (s\<lparr>nr_nal := None\<rparr>), es) \<and> list_all (nal_event v) es"
  using assms(2)
proof
  assume n: "nr_nal s = None \<and> nr_frame s = FRAME_UNSPECIFIED"
  then have "nr_setFrame FRAME_UNSPECIFIED (s\<lparr>nr_nal := None\<rparr>) = s"
    by (cases s; cases "nr_tag s") (simp add: nr_setFrame_def)
  then show ?thesis using n by (simp add: flushNal_none)
next
  assume "\<exists>units cur. nal_keeps s units cur"
  then obtain units cur where h: "nal_holds s units cur" "list_all no_start (units @ [cur])" by (auto simp: nal_keeps_def)
  then have "list_all (nal_event v) [WriteVideo (nr_tag s) (nal_stream (units @ [cur])) (nr_track s)]"
    using assms(1) by (auto intro!: exI[of _ "units @ [cur]"])
  then show ?thesis unfolding flushNal_holds[OF h(1)] by simp
qed

text \<open>Behind \<open>nal_group\<close>: a unit can be opened.\<close>

definition group_ok :: "video_type \<Rightarrow> nal_reader \<Rightarrow> nal_reader \<times> media_event list \<times> bool \<Rightarrow> bool" where
  "group_ok v s = (\<lambda>(s', es, flush).
     nr_type s' = nr_type s \<and> nr_state s' = nr_state s \<and> nr_time s' = nr_time s \<and> vt_codec (nr_tag s') = CODEC v
     \<and> list_all (nal_event v) es \<and> (nr_nal s' = None \<or> (\<exists>units cur. nal_keeps s' units cur))
     \<and> (nr_frame s' = FRAME_CONFIG \<longrightarrow> nal_frame v (nr_type s) = Some FRAME_CONFIG))"

lemma setFrame_simps [simp]:
  "nr_nal (nr_setFrame f s) = nr_nal s" "nr_type (nr_setFrame f s) = nr_type s" "nr_state (nr_setFrame f s) = nr_state s"
  "nr_position (nr_setFrame f s) = nr_position s" "nr_track (nr_setFrame f s) = nr_track s"
  "nr_time (nr_setFrame f s) = nr_time s" "nr_composition (nr_setFrame f s) = nr_composition s"
  "nr_tag (nr_setFrame f s) = (nr_tag s)\<lparr>vt_frame := f\<rparr>" "nal_holds (nr_setFrame f s) = nal_holds s"
  by (simp_all add: nr_setFrame_def nal_holds_def fun_eq_iff)

lemma nal_group_ok:
  assumes inv: "nal_inv v s pending" and t: "t < NAL_AUD v"
  shows "\<exists>g. nal_group v (s\<lparr>nr_type := t\<rparr>) = Some g \<and> group_ok v (s\<lparr>nr_type := t\<rparr>) g"
proof -
  define s' where "s' = s\<lparr>nr_type := t\<rparr>"
  have type: "nr_type s' < NAL_AUD v" using t by (simp add: s'_def)
  obtain frame where frame: "nal_frame v (nr_type s') = Some frame" using nal_frame_in[OF type] by auto
  define up where "up f = the (UpdateFrame v (nr_type s') f)" for f
  have up: "UpdateFrame v (nr_type s') f = Some (up f)" for f using UpdateFrame_in[OF type, of f] by (auto simp: up_def)
  have up_config: "up f = FRAME_CONFIG \<Longrightarrow> f = FRAME_CONFIG \<or> frame = FRAME_CONFIG" for f
    using UpdateFrame_config[OF type up] frame by auto
  have codec: "vt_codec (nr_tag s') = CODEC v" using inv by (simp add: nal_inv_def s'_def)
  have pre: "nr_nal s' = None \<and> nr_frame s' = FRAME_UNSPECIFIED \<or>
      (\<exists>units cur. nal_keeps s' units cur \<and> (nr_frame s' = FRAME_CONFIG \<longrightarrow> is_config v cur))"
    using inv by (auto simp: nal_inv_def s'_def)
  have fl: "\<exists>es. flushNal s' = Some (nr_setFrame FRAME_UNSPECIFIED (s'\<lparr>nr_nal := None\<rparr>), es) \<and> list_all (nal_event v) es"
    by (rule flushNal_ok[OF codec]) (use pre in blast)
  then obtain es where es: "flushNal s' = Some (nr_setFrame FRAME_UNSPECIFIED (s'\<lparr>nr_nal := None\<rparr>), es)" "list_all (nal_event v) es"
    by auto
  have "\<exists>g. nal_group v s' = Some g \<and> group_ok v s' g"
  proof (cases "nr_frame s' = FRAME_CONFIG")
    case True
    then obtain units cur x where h: "nal_keeps s' units cur" "is_config v cur" "length x = 4"
        "nr_nal s' = Some (nal_stream units @ x @ cur)" "nr_position s' = length (nal_stream units)"
      using pre by (auto simp: nal_keeps_def nal_holds_def)
    have prev: "(nal_stream units @ x @ cur) ! (nr_position s' + 4) = hd cur" "nr_position s' + 4 < length (nal_stream units @ x @ cur)"
      using h(2,3,5) by (simp_all add: nth_append hd_conv_nth is_config_def)
    have group: "nal_group v s' =
        (if nr_type s' = NalType v (hd cur) then Some (s'\<lparr>nr_nal := None\<rparr>, [], False)
         else if frame \<noteq> FRAME_CONFIG then
           Option.bind (if NalType v (hd cur) = NAL_SPS v then flushNal s' else Some (s'\<lparr>nr_nal := None\<rparr>, [])) (nal_update v FRAME_UNSPECIFIED)
         else Some (s', [], True))"
      unfolding nal_group_def if_P[OF True] h(4) option.case prev(1) if_not_P[OF prev(2)[folded not_le]] Let_def frame ..
    have "nr_type s' = NalType v (hd cur) \<Longrightarrow> frame = FRAME_CONFIG" using h(2) frame by (simp add: is_config_def)
    then show ?thesis
      unfolding group using h(1) es codec frame up_config[of FRAME_UNSPECIFIED]
      by (cases "nr_type s' = NalType v (hd cur)"; cases "frame = FRAME_CONFIG"; cases "NalType v (hd cur) = NAL_SPS v")
        (auto simp: nal_update_def group_ok_def up)
  next
    case False
    have group: "nal_group v s' = Option.bind
        (if frame = FRAME_CONFIG then flushNal s'
         else if vt_time (nr_tag s') \<noteq> nr_time s' \<or> vt_composition (nr_tag s') \<noteq> nr_composition s' then flushNal s'
         else Some (s', []))
        (\<lambda>(s, es). nal_update v (nr_frame s) (s, es))"
      unfolding nal_group_def if_not_P[OF False] frame option.case ..
    have "nr_nal s' = None \<or> (\<exists>units cur. nal_keeps s' units cur)" using pre by blast
    then show ?thesis
      unfolding group using es codec frame False up_config[of FRAME_UNSPECIFIED] up_config[of "nr_frame s'"]
      by (cases "frame = FRAME_CONFIG"; cases "vt_time (nr_tag s') \<noteq> nr_time s' \<or> vt_composition (nr_tag s') \<noteq> nr_composition s'")
        (auto simp: nal_update_def group_ok_def up)
  qed
  then show ?thesis by (simp only: s'_def)
qed

text \<open>Behind \<open>writeNal\<close>: of a part of a unit, or of its end with the start code.\<close>

definition write_ok :: "video_type \<Rightarrow> nal_reader \<Rightarrow> bool \<Rightarrow> nal_reader \<times> media_event list \<Rightarrow> bool" where
  "write_ok v s eon = (\<lambda>(s', es). list_all (nal_event v) es
     \<and> nal_inv v (if eon then s'\<lparr>nr_type := 0xFF, nr_state := 0\<rparr> else s') []
     \<and> nr_state s' = nr_state s \<and> (\<not> eon \<longrightarrow> nr_type s' \<noteq> 0xFF))"

lemma nal_inv_None:
  "nr_nal s = None \<Longrightarrow> nr_frame s = FRAME_UNSPECIFIED \<Longrightarrow> unat (nr_state s) \<le> 3 \<Longrightarrow> vt_codec (nr_tag s) = CODEC v \<Longrightarrow>
    nr_type s \<noteq> 0xFF \<Longrightarrow> nal_inv v s pending" 
  "nr_nal s = None \<Longrightarrow> nr_frame s = FRAME_UNSPECIFIED \<Longrightarrow> vt_codec (nr_tag s) = CODEC v \<Longrightarrow>
    nal_inv v (s\<lparr>nr_type := t, nr_state := 0\<rparr>) []"
  by (auto simp: nal_inv_def zeros_end_def)

lemma append_ok:
  assumes h: "nal_keeps s units cur0" and st: "unat (nr_state s) \<le> 3" "vt_codec (nr_tag s) = CODEC v"
    and z: "zeros_end (nr_state s) (cur0 @ data0)" and t: "nr_type s \<noteq> 0xFF"
    and cfg: "nr_frame s = FRAME_CONFIG \<Longrightarrow> is_config v (cur0 @ data0)"
  shows "\<exists>s' cur. nal_append (data0 @ (if eon then [1] else [])) eon s = Some s' \<and> nal_keeps s' units cur
    \<and> nal_same s' s \<and> nr_tag s' = nr_tag s \<and> (nr_frame s = FRAME_CONFIG \<longrightarrow> is_config v cur) \<and> write_ok v s eon (s', [])"
proof -
  let ?data = "data0 @ (if eon then [1] else [])"
  obtain cur where cur: "trimmed eon (nr_state s) ((cur0 @ data0) @ (if eon then [1] else [])) = cur"
    and c: "cur0 @ data0 = cur @ (if eon then replicate (unat (nr_state s)) 0 else [])"
    using trimmed_zeros[of eon "nr_state s" "cur0 @ data0"] z by blast
  have len: "eon \<Longrightarrow> unat (nr_state s) + 1 \<le> length (cur0 @ ?data)"
    using arg_cong[OF c, of length] by simp
  have free: "no_start cur" using z c no_start_prefix by (metis append_Nil2 zeros_end_def)
  obtain s' where s': "nal_append ?data eon s = Some s'" "nal_keeps s' units cur" "nal_same s' s" "nr_tag s' = nr_tag s"
    using nal_append_holds[OF h[unfolded nal_keeps_def, THEN conjunct1] len] cur h free by (auto simp: nal_keeps_def)
  have cfg': "is_config v cur" if "nr_frame s = FRAME_CONFIG"
  proof -
    note i = cfg[OF that]
    have "cur \<noteq> []"
    proof
      assume e: "cur = []"
      then have "cur0 @ data0 = (if eon then replicate (unat (nr_state s)) 0 else [])" using c by simp
      moreover have "hd (cur0 @ data0) \<noteq> 0" "cur0 @ data0 \<noteq> []" using is_config_hd[OF i] i by (auto simp: is_config_def)
      ultimately show False by (auto split: if_splits)
    qed
    moreover from this have "hd cur = hd (cur0 @ data0)" using c by (metis hd_append2)
    ultimately show ?thesis using i by (simp add: is_config_def)
  qed
  have fields: "nr_tag s' = nr_tag s" "nr_state s' = nr_state s" "nr_type s' = nr_type s"
    using s'(3,4) by (simp_all add: nal_same_def)
  have "nal_inv v (if eon then s'\<lparr>nr_type := 0xFF, nr_state := 0\<rparr> else s') []"
  proof (cases eon)
    case True
    have "nal_keeps (s'\<lparr>nr_type := 0xFF, nr_state := 0\<rparr>) units cur" using s'(2) by simp
    then show ?thesis using True cfg' fields st(2) by (auto simp: nal_inv_def zeros_end_def)
  next
    case False
    then show ?thesis using s'(2) cfg' fields st t z c by (auto simp: nal_inv_def)
  qed
  then show ?thesis using s' cfg' fields t by (intro exI[of _ s'] exI[of _ cur]) (simp add: write_ok_def)
qed

lemma writeNal_ok:
  assumes inv: "nal_inv v s data0" and data: "data0 @ (if eon then [1] else []) \<noteq> []" and eon: "eon \<Longrightarrow> nr_state s = 2 \<or> nr_state s = 3"
  shows "\<exists>r. writeNal v s (data0 @ (if eon then [1] else [])) eon = Some r \<and> write_ok v s eon r"
proof (cases "nr_type s = 0xFF")
  case True
  let ?data = "data0 @ (if eon then [1] else [])"
  have z: "zeros_end (nr_state s) data0" and st: "unat (nr_state s) \<le> 3" "vt_codec (nr_tag s) = CODEC v"
    using inv True by (auto simp: nal_inv_def)
  have ne: "data0 \<noteq> []" using data z eon by (cases eon) (auto simp: zeros_end_def)
  then have hd: "hd ?data = hd data0" by simp
  define t where "t = NalType v (hd data0)"
  have t: "t \<noteq> 0xFF" by (simp add: t_def NalType_not_FF)
  define s1 where "s1 = s\<lparr>nr_type := t\<rparr>"
  have w: "writeNal v s ?data eon =
      (if t \<ge> NAL_AUD v then flushNal s1
       else Option.bind (nal_group v s1) (\<lambda>(s, es, flush).
              Option.bind (nal_open s) (\<lambda>s. Option.bind (nal_append ?data eon s) (\<lambda>s.
                if flush then map_option (\<lambda>(s, es'). (s, es @ es')) (flushNal s) else Some (s, es)))))"
    by (simp add: writeNal_def True hd t_def[symmetric] s1_def Let_def)
  show ?thesis
  proof (cases "t \<ge> NAL_AUD v")
    case True
    have "nr_nal s1 = None \<and> nr_frame s1 = FRAME_UNSPECIFIED \<or> (\<exists>units cur. nal_keeps s1 units cur)"
      using inv by (auto simp: nal_inv_def s1_def)
    then obtain es where es: "flushNal s1 = Some (nr_setFrame FRAME_UNSPECIFIED (s1\<lparr>nr_nal := None\<rparr>), es)" "list_all (nal_event v) es"
      using flushNal_ok[of s1 v] st(2) by (auto simp: s1_def)
    then show ?thesis using w True st t nal_inv_None by (auto simp: write_ok_def s1_def)
  next
    case False
    then obtain s2 es flush where g: "nal_group v s1 = Some (s2, es, flush)" "group_ok v s1 (s2, es, flush)"
      using nal_group_ok[OF inv, of t] by (auto simp: s1_def not_le)
    note g2 = g(2)[unfolded group_ok_def prod.case]
    have "\<exists>s3 units. nal_open s2 = Some s3 \<and> nal_keeps s3 units [] \<and> nal_same s3 s2
        \<and> nr_frame s3 = nr_frame s2 \<and> vt_codec (nr_tag s3) = vt_codec (nr_tag s2)"
    proof (cases "nr_nal s2")
      case None
      from nal_open_none[OF this] show ?thesis by (fastforce simp: nal_keeps_def)
    next
      case (Some b)
      then obtain units cur where "nal_keeps s2 units cur" using g2 by auto
      then have k: "list_all no_start (units @ [cur])" "nal_holds s2 units cur" by (simp_all add: nal_keeps_def)
      obtain s3 where "nal_open s2 = Some s3" "nal_holds s3 (units @ [cur]) []" "nal_same s3 s2" "nr_tag s3 = nr_tag s2"
        using nal_open_holds[OF k(2)] by blast
      then show ?thesis using k(1) by (intro exI[of _ s3] exI[of _ "units @ [cur]"]) (simp add: nal_keeps_def)
    qed
    then obtain s3 units where s3: "nal_open s2 = Some s3" "nal_keeps s3 units []" "nr_type s3 = t" "nr_state s3 = nr_state s"
        "vt_codec (nr_tag s3) = CODEC v" "nr_frame s3 = FRAME_CONFIG \<Longrightarrow> nal_frame v t = Some FRAME_CONFIG"
      using g2 by (auto simp: s1_def nal_same_def)
    obtain s4 cur where s4: "nal_append ?data eon s3 = Some s4" "nal_keeps s4 units cur" "nal_same s4 s3" "nr_tag s4 = nr_tag s3"
        "write_ok v s3 eon (s4, [])"
      using append_ok[OF s3(2), of v data0 eon] s3 st z t ne by (auto simp: is_config_def t_def)
    show ?thesis
    proof (cases flush)
      case True
      have s4': "nr_type s4 = t" "nr_state s4 = nr_state s" "vt_codec (nr_tag s4) = CODEC v"
        using s4(3-4) s3(3-5) by (auto simp: nal_same_def)
      obtain es' where "flushNal s4 = Some (nr_setFrame FRAME_UNSPECIFIED (s4\<lparr>nr_nal := None\<rparr>), es')" "list_all (nal_event v) es'"
        using flushNal_ok[of s4 v] s4'(3) s4(2) by auto
      then show ?thesis
        using w \<open>\<not> t \<ge> NAL_AUD v\<close> g(1) g2 s3(1) s4(1) True st t s4' nal_inv_None by (auto simp: write_ok_def)
    next
      case False
      then show ?thesis using w \<open>\<not> t \<ge> NAL_AUD v\<close> g(1) g2 s3 s4 by (auto simp: write_ok_def)
    qed
  qed
next
  case False
  have st: "unat (nr_state s) \<le> 3" "vt_codec (nr_tag s) = CODEC v" using inv by (auto simp: nal_inv_def)
  show ?thesis
  proof (cases "nr_nal s")
    case None
    then have "nr_frame s = FRAME_UNSPECIFIED" using inv by (auto simp: nal_inv_def nal_keeps_def nal_holds_def)
    then show ?thesis using None False st nal_inv_None by (auto simp: writeNal_def write_ok_def)
  next
    case (Some b)
    then obtain units cur where h: "nal_keeps s units cur" "nr_frame s = FRAME_CONFIG \<longrightarrow> is_config v cur"
        "zeros_end (nr_state s) (cur @ data0)"
      using inv False by (auto simp: nal_inv_def)
    have cfg: "nr_frame s = FRAME_CONFIG \<Longrightarrow> is_config v (cur @ data0)" using h(2) by (auto simp: is_config_def)
    obtain s' where s': "nal_append (data0 @ (if eon then [1] else [])) eon s = Some s'" "write_ok v s eon (s', [])"
      using append_ok[OF h(1) st h(3) False cfg, of eon] by blast
    show ?thesis
    proof (cases "length b + length (data0 @ (if eon then [1] else [])) > NAL_MAX")
      case True
      then show ?thesis using Some False st nal_inv_None by (auto simp: writeNal_def write_ok_def)
    next
      case False
      then show ?thesis unfolding writeNal_def if_not_P[OF \<open>nr_type s \<noteq> 0xFF\<close>] Some option.case if_not_P[OF False] s'(1) using s'(2) by simp
    qed
  qed
qed

lemma nal_scan_ok:
  assumes "nal_inv v s pending"
  shows "\<exists>s' es. nal_scan v s pending bs = Some (s', es) \<and> nal_inv v s' [] \<and> list_all (nal_event v) es"
  using assms
proof (induction bs arbitrary: s pending)
  case Nil
  show ?case
  proof (cases "pending = []")
    case False
    then show ?thesis using writeNal_ok[OF Nil, of False] by (auto simp: write_ok_def)
  qed (use Nil in simp)
next
  case (Cons byte bs)
  have st: "unat (nr_state s) \<le> 3" using Cons.prems by (simp add: nal_inv_def)
  show ?case
  proof (cases "start_code (nr_state s) byte")
    case (Some state)
    have "unat state \<le> 3" and z: "zeros_end (nr_state s) xs \<Longrightarrow> zeros_end state (xs @ [byte])" for xs
      using zeros_start_code[OF st _ Some] zeros_start_code[OF st _ Some, of "replicate (unat (nr_state s)) 0"]
      by (auto simp: zeros_end_def)
    then have z: "unat state \<le> 3" "zeros_end (nr_state s) (xs @ pending) \<Longrightarrow> zeros_end state (xs @ pending @ [byte])" for xs
      using z[of "xs @ pending"] by simp_all
    note inv = Cons.prems[unfolded nal_inv_def]
    have "nal_inv v (s\<lparr>nr_state := state\<rparr>) (pending @ [byte])"
      unfolding nal_inv_def
      using inv z(1) z(2)[of "[]"] z(2) by (elim conjE disjE exE) fastforce+
    from Cons.IH[OF this] Some show ?thesis by simp
  next
    case None
    then have n: "byte = 1" "nr_state s = 2 \<or> nr_state s = 3" by (simp_all add: start_code_None)
    obtain s1 es where w: "writeNal v s (pending @ [1]) True = Some (s1, es)" "write_ok v s True (s1, es)"
      using writeNal_ok[OF Cons.prems, of True] n(2) by auto
    then show ?thesis using Cons.IH[of "s1\<lparr>nr_type := 0xFF, nr_state := 0\<rparr>" "[]"] None n(1) by (auto simp: write_ok_def)
  qed
qed

definition nal_reader_ok :: "video_type \<Rightarrow> nal_reader \<Rightarrow> bool" where
  "nal_reader_ok v s \<longleftrightarrow> nal_inv v s []"

text \<open>C30. In every state that satisfies the invariant, as a new reader does, the parse of any bytes has a value, that is the
  reader does not leave its buffers, and keeps the invariant, and so does the flush behind.  Each packet given, by the
  parse or the flush, has the codec of the reader and is a sequence of byte strings, at least one, each behind its size
  of four bytes and none with a start code in it.  They need not be whole units: a parameter set that completes a
  configuration is given at the end of the reception it starts in, and what follows of it is lost
  (\<open>NALNetReader.cpp:141\<close>).\<close>

theorem nal_parse_safe:
  assumes "nal_reader_ok v s"
  shows "\<exists>s' es. nal_parse v s buffer = Some (s', es) \<and> nal_reader_ok v s' \<and> list_all (nal_event v) es
    \<and> (\<exists>s'' es'. nal_flush s' = Some (s'', es') \<and> nal_reader_ok v s'' \<and> nr_nal s'' = None \<and> list_all (nal_event v) es')"
proof -
  obtain s' es where s': "nal_parse v s buffer = Some (s', es)" "nal_inv v s' []" "list_all (nal_event v) es"
    using nal_scan_ok[of v s "[]" buffer] assms by (auto simp: nal_parse_def nal_reader_ok_def)
  have c: "vt_codec (nr_tag s') = CODEC v" using s'(2) by (simp add: nal_inv_def)
  obtain es' where "flushNal s' = Some (nr_setFrame FRAME_UNSPECIFIED (s'\<lparr>nr_nal := None\<rparr>), es')" "list_all (nal_event v) es'"
    using flushNal_ok[OF c] s'(2) by (auto simp: nal_inv_def)
  moreover have "nal_inv v (s0\<lparr>nr_type := 0xFF, nr_state := 0, nr_time := 0, nr_composition := 0\<rparr>) []"
    if "nr_nal s0 = None" "nr_frame s0 = FRAME_UNSPECIFIED" "vt_codec (nr_tag s0) = CODEC v" for s0
    using that by (auto simp: nal_inv_def zeros_end_def)
  ultimately show ?thesis using s' c by (auto simp: nal_flush_def nal_onFlush_def nal_reader_ok_def)
qed

lemma new_nal_reader_ok: "nal_reader_ok v (new_nal_reader v track)"
  by (simp add: nal_reader_ok_def nal_inv_def new_nal_reader_def new_video_tag_def zeros_end_def)

theorem nal_parse_safe_witness:
  "\<exists>s' es. nal_parse AVC (new_nal_reader AVC 1) [0, 0, 0, 1, 0x67, 9, 0, 0, 1, 0x68, 8, 0, 0] = Some (s', es) \<and> nal_reader_ok AVC s'"
  using nal_parse_safe[OF new_nal_reader_ok] by blast

end
