(* ===== verification/NALStream.thy ===== *)
theory NALStream
  imports NAL
begin

text \<open>
  \<open>NALNetWriter\<close> and \<open>NALNetReader\<close> together: the access units of a stream.  A unit without a start code in
  it is scanned as it is; a reader between two units either waits or holds units behind their sizes; the
  units of a frame, written with their delimiter, are read as one packet.
\<close>

section \<open>Scanning\<close>

text \<open>Emulation prevention: no start code, and no three zeros, inside a unit, which does not end with a zero.\<close>

fun escaped :: "bytes \<Rightarrow> bool" where
  "escaped (a # b # c # xs) \<longleftrightarrow> \<not> (a = 0 \<and> b = 0 \<and> (c = 0 \<or> c = 1)) \<and> escaped (b # c # xs)"
| "escaped _ \<longleftrightarrow> True"

definition clean :: "bytes \<Rightarrow> bool" where
  "clean u \<longleftrightarrow> u \<noteq> [] \<and> escaped u \<and> last u \<noteq> 0"

definition code :: "nat \<Rightarrow> bytes" where
  "code k = replicate k 0 @ [1]"

lemma replicate_23: "replicate 2 a = [a, a]" "replicate 3 a = [a, a, a]"
  by (simp_all add: numeral_2_eq_2 numeral_3_eq_3)

lemma escaped_tl: "escaped (a # xs) \<Longrightarrow> escaped xs"
  by (cases xs rule: escaped.cases) auto

lemma scan_escaped:
  assumes "escaped (replicate (unat (nr_state s)) 0 @ u)" "unat (nr_state s) \<le> 2" "u = [] \<longrightarrow> nr_state s = 0" "u \<noteq> [] \<longrightarrow> last u \<noteq> 0"
  shows "nal_scan v s pending (u @ rest) = nal_scan v (s\<lparr>nr_state := 0\<rparr>) (pending @ u) rest"
  using assms
proof (induction u arbitrary: s pending)
  case Nil
  then have "s\<lparr>nr_state := 0\<rparr> = s" by simp
  then show ?case by simp
next
  case (Cons x u)
  have st: "nr_state s = 0 \<or> nr_state s = 1 \<or> nr_state s = 2" using u8_le_3[of "nr_state s"] Cons.prems(2) by auto
  show ?case
  proof (cases "x = 0")
    case True
    then have u: "u \<noteq> []" "last u \<noteq> 0" using Cons.prems(4) by (auto split: if_splits)
    have n2: "nr_state s \<noteq> 2" using Cons.prems(1) True by (auto simp: replicate_23)
    then have "start_code (nr_state s) x = Some (nr_state s + 1)" and n: "unat (nr_state s + 1) = Suc (unat (nr_state s))"
      using st True by (auto simp: start_code_def)
    moreover have "escaped (replicate (unat (nr_state s + 1)) 0 @ u)" "unat (nr_state s + 1) \<le> 2"
      using Cons.prems(1) True n st n2 by (auto simp: replicate_append_same[symmetric])
    ultimately show ?thesis using Cons.IH[of "s\<lparr>nr_state := nr_state s + 1\<rparr>" "pending @ [x]"] u by simp
  next
    case False
    have "escaped u" using Cons.prems(1) st by (auto simp: replicate_23 dest!: escaped_tl)
    moreover have "start_code (nr_state s) x = Some 0"
      using st False Cons.prems(1) by (auto simp: start_code_def replicate_23)
    ultimately show ?thesis using Cons.IH[of "s\<lparr>nr_state := 0\<rparr>" "pending @ [x]"] Cons.prems(4) by (cases "u = []") simp_all
  qed
qed


lemma scan_clean: "clean u \<Longrightarrow> nr_state s = 0 \<Longrightarrow> nal_scan v s pending (u @ rest) = nal_scan v s (pending @ u) rest"
proof -
  assume u: "clean u" and z: "nr_state s = 0"
  then have e: "s\<lparr>nr_state := 0\<rparr> = s" by simp
  show ?thesis using scan_escaped[of s u v pending rest, unfolded e] u z by (auto simp: clean_def)
qed

definition codes :: "nat set" where
  "codes = {2, 3}"

lemma codes_cases: "k \<in> codes \<Longrightarrow> k = 2 \<or> k = 3"
  by (auto simp: codes_def)

text \<open>A unit and its end: with a start code, or at the end of the buffer.\<close>

definition ending :: "nat option \<Rightarrow> bytes" where
  "ending k = (case k of None \<Rightarrow> [] | Some k \<Rightarrow> code k)"

definition ended :: "nat option \<Rightarrow> nal_reader \<Rightarrow> nal_reader" where
  "ended k s = s\<lparr>nr_state := (case k of None \<Rightarrow> 0 | Some k \<Rightarrow> of_nat k)\<rparr>"

definition write_unit :: "video_type \<Rightarrow> nal_reader \<Rightarrow> bytes \<Rightarrow> nat option \<Rightarrow> (nal_reader \<times> media_event list) option" where
  "write_unit v s u k = writeNal v (ended k s) (u @ ending k) (k \<noteq> None)"

definition restart :: "nal_reader \<Rightarrow> nal_reader" where
  "restart s = s\<lparr>nr_type := 0xFF, nr_state := 0\<rparr>"

lemma scan_code:
  assumes "k \<in> codes" "nr_state s = 0"
  shows "nal_scan v s u (code k @ rest) =
    Option.bind (write_unit v s u (Some k)) (\<lambda>(s, es).
      map_option (\<lambda>(s, es'). (s, es @ es')) (nal_scan v (restart s) [] rest))"
  using codes_cases[OF assms(1)] assms(2)
  by (auto simp: code_def start_code_def write_unit_def ended_def ending_def restart_def replicate_23)

section \<open>A reader between two units\<close>

record nal_params =
  np_track :: u8
  np_time :: u32
  np_composition :: u16

definition params :: "nal_reader \<Rightarrow> nal_params" where
  "params s = \<lparr>np_track = nr_track s, np_time = nr_time s, np_composition = nr_composition s\<rparr>"

definition nal_idle :: "video_type \<Rightarrow> nal_params \<Rightarrow> nal_reader \<Rightarrow> bool" where
  "nal_idle v p s \<longleftrightarrow> params s = p \<and> nr_nal s = None \<and> nr_frame s = FRAME_UNSPECIFIED \<and> vt_codec (nr_tag s) = CODEC v"

definition nal_tag :: "video_type \<Rightarrow> nal_params \<Rightarrow> u8 \<Rightarrow> video_tag" where
  "nal_tag v p frame = \<lparr>vt_time = np_time p, vt_codec = CODEC v, vt_frame = frame, vt_composition = np_composition p\<rparr>"

definition nal_filling :: "video_type \<Rightarrow> nal_params \<Rightarrow> u8 \<Rightarrow> bytes list \<Rightarrow> bytes \<Rightarrow> nal_reader \<Rightarrow> bool" where
  "nal_filling v p frame units cur s \<longleftrightarrow> params s = p \<and> nal_holds s units cur \<and> nr_tag s = nal_tag v p frame"

lemma params_update [simp]:
  "params (s\<lparr>nr_type := t\<rparr>) = params s" "params (s\<lparr>nr_state := n\<rparr>) = params s" "params (s\<lparr>nr_nal := b\<rparr>) = params s"
  "params (nr_setFrame f s) = params s" "params (restart s) = params s" "params (ended k s) = params s"
  by (simp_all add: params_def restart_def ended_def)

lemma restart_simps [simp]:
  "nal_idle v p (restart s) = nal_idle v p s" "nal_filling v p f us u (restart s) = nal_filling v p f us u s"
  "nr_type (restart s) = 0xFF" "nr_state (restart s) = 0"
  by (simp_all add: nal_idle_def nal_filling_def) (simp_all add: restart_def)

lemma nal_filling_flush:
  assumes "nal_filling v p frame units cur s"
  shows "\<exists>s'. flushNal s = Some (s', if frame = FRAME_CONFIG \<or> units \<noteq> [] \<or> cur \<noteq> []
    then [WriteVideo (nal_tag v p frame) (nal_stream (units @ [cur])) (np_track p)] else []) \<and> nal_idle v p s'"
  using assms flushNal_holds[of s units cur]
  by (auto simp: nal_filling_def nal_idle_def nal_tag_def params_def)

lemma nal_idle_flush: "nal_idle v p s \<Longrightarrow> flushNal s = Some (s, [])"
  by (simp add: nal_idle_def flushNal_none)

section \<open>The steps of a unit\<close>

definition unit_type :: "video_type \<Rightarrow> bytes \<Rightarrow> nat option \<Rightarrow> u8" where
  "unit_type v u k = NalType v (hd (u @ ending k))"

definition end_ok :: "nat option \<Rightarrow> bool" where
  "end_ok k \<longleftrightarrow> (case k of None \<Rightarrow> True | Some k \<Rightarrow> k \<in> codes)"

lemma ended_simps [simp]:
  "nr_nal (ended k s) = nr_nal s" "nr_type (ended k s) = nr_type s" "nr_position (ended k s) = nr_position s"
  "nr_tag (ended k s) = nr_tag s" "nal_holds (ended k s) = nal_holds s" "nr_time (ended k s) = nr_time s"
  "nr_composition (ended k s) = nr_composition s" "nr_track (ended k s) = nr_track s"
  by (simp_all add: ended_def)

lemma trimmed_unit: "end_ok k \<Longrightarrow> trimmed (k \<noteq> None) (nr_state (ended k s)) (u @ ending k) = u"
  "end_ok k \<Longrightarrow> k \<noteq> None \<Longrightarrow> unat (nr_state (ended k s)) + 1 \<le> length (u @ ending k)"
  by (auto simp: trimmed_def ended_def ending_def code_def end_ok_def codes_def split: option.splits)

text \<open>The state in which \<open>nal_group\<close> runs.\<close>

definition begun :: "video_type \<Rightarrow> nal_reader \<Rightarrow> bytes \<Rightarrow> nat option \<Rightarrow> nal_reader" where
  "begun v s u k = (ended k s)\<lparr>nr_type := unit_type v u k\<rparr>"

lemma begun_simps [simp]:
  "nr_nal (begun v s u k) = nr_nal s" "nr_type (begun v s u k) = unit_type v u k" "nr_position (begun v s u k) = nr_position s"
  "nr_tag (begun v s u k) = nr_tag s" "nal_holds (begun v s u k) = nal_holds s" "nr_time (begun v s u k) = nr_time s"
  "nr_composition (begun v s u k) = nr_composition s" "nr_track (begun v s u k) = nr_track s" "params (begun v s u k) = params s"
  "nal_idle v p (begun v s u k) = nal_idle v p s" "nal_filling v p f us c (begun v s u k) = nal_filling v p f us c s"
  by (simp_all add: begun_def nal_idle_def nal_filling_def)

lemma write_unit_kept:
  assumes k: "end_ok k" and type: "nr_type s = 0xFF" "unit_type v u k < NAL_AUD v"
    and g: "nal_group v (begun v s u k) = Some (s2, es, flush)" "nr_state s2 = nr_state (ended k s)"
    and o: "nal_open s2 = Some s3" "nal_holds s3 units []" "nal_same s3 s2"
  shows "\<exists>s4. nal_holds s4 units u \<and> nal_same s4 s3 \<and> nr_tag s4 = nr_tag s3 \<and>
    write_unit v s u k = (if flush then map_option (\<lambda>(s, es'). (s, es @ es')) (flushNal s4) else Some (s4, es))"
proof -
  have st: "nr_state s3 = nr_state (ended k s)" using g(2) o(3) by (simp add: nal_same_def)
  obtain s4 where s4: "nal_append (u @ ending k) (k \<noteq> None) s3 = Some s4" "nal_holds s4 units u" "nal_same s4 s3" "nr_tag s4 = nr_tag s3"
    using nal_append_holds[OF o(2), of "k \<noteq> None" "u @ ending k", unfolded st append_Nil trimmed_unit(1)[OF k], OF trimmed_unit(2)[OF k]]
    by blast
  have "write_unit v s u k = (if flush then map_option (\<lambda>(s, es'). (s, es @ es')) (flushNal s4) else Some (s4, es))"
    using type(1) g o(1) s4(1) linorder_not_le[THEN iffD2, OF type(2)]
    by (simp add: write_unit_def writeNal_def unit_type_def[symmetric] begun_def[symmetric] Let_def del: not_None_eq not_Some_eq)
  then show ?thesis using s4(2-4) by blast
qed

lemma write_unit_AUD:
  assumes "nr_type s = 0xFF" "unit_type v u k \<ge> NAL_AUD v"
  shows "write_unit v s u k = flushNal (begun v s u k)"
  using assms by (simp add: write_unit_def writeNal_def unit_type_def[symmetric] begun_def[symmetric] Let_def)

definition merged :: "video_type \<Rightarrow> u8 \<Rightarrow> u8 \<Rightarrow> u8" where
  "merged v frame type = the (UpdateFrame v type frame)"

lemma merged: "type < NAL_AUD v \<Longrightarrow> UpdateFrame v type frame = Some (merged v frame type)"
  using UpdateFrame_in[of type v frame] by (auto simp: merged_def)

text \<open>The first unit of a packet.\<close>

lemma unit_first:
  assumes k: "end_ok k" and type: "nr_type s = 0xFF" "unit_type v u k < NAL_AUD v" and s: "nal_idle v p s"
  shows "\<exists>s'. write_unit v s u k = Some (s', []) \<and> nal_filling v p (merged v FRAME_UNSPECIFIED (unit_type v u k)) [] u s'"
proof -
  let ?s = "begun v s u k" and ?t = "unit_type v u k"
  obtain frame where frame: "nal_frame v ?t = Some frame" using nal_frame_in[OF type(2)] by auto
  have f: "nr_frame s = FRAME_UNSPECIFIED" "nr_nal s = None" "params s = p" "vt_codec (nr_tag s) = CODEC v"
    using s by (auto simp: nal_idle_def)
  let ?s2 = "nr_setFrame (merged v FRAME_UNSPECIFIED ?t) ?s"
  have g: "nal_group v ?s = Some (?s2, [], False)"
    using frame f flushNal_none[of ?s] by (simp add: nal_group_def nal_update_def merged[OF type(2)])
  have st: "nr_state ?s2 = nr_state (ended k s)" by (simp add: begun_def)
  obtain s3 where s3: "nal_open ?s2 = Some s3" "nal_holds s3 [] []" "nal_same s3 ?s2"
    "nr_tag s3 = (nr_tag ?s2)\<lparr>vt_time := nr_time ?s2, vt_composition := nr_composition ?s2\<rparr>"
    using nal_open_none[of ?s2] f(2) by auto
  obtain s4 where s4: "nal_holds s4 [] u" "nal_same s4 s3" "nr_tag s4 = nr_tag s3" "write_unit v s u k = Some (s4, [])"
    using write_unit_kept[OF k type g st s3(1-3)] by auto
  have "nr_tag s4 = nal_tag v p (merged v FRAME_UNSPECIFIED ?t)"
    using s4(3) s3(4) f(3,4) by (cases "nr_tag s") (auto simp: nal_tag_def params_def)
  moreover have "params s4 = p" using s4(2) s3(3) f(3) by (simp add: params_def nal_same_def)
  ultimately show ?thesis using s4 by (auto simp: nal_filling_def)
qed

text \<open>One more unit.\<close>

lemma unit_next:
  assumes k: "end_ok k" and type: "nr_type s = 0xFF" "unit_type v u k < NAL_AUD v" and s: "nal_filling v p f units cur s"
    and f: "f \<noteq> FRAME_CONFIG" "nal_frame v (unit_type v u k) \<noteq> Some FRAME_CONFIG"
  shows "\<exists>s'. write_unit v s u k = Some (s', []) \<and> nal_filling v p (merged v f (unit_type v u k)) (units @ [cur]) u s'"
proof -
  let ?s = "begun v s u k" and ?t = "unit_type v u k"
  obtain frame where frame: "nal_frame v ?t = Some frame" "frame \<noteq> FRAME_CONFIG" using nal_frame_in[OF type(2)] f(2) by auto
  have h: "nal_holds s units cur" "params s = p" "nr_tag s = nal_tag v p f" using s by (auto simp: nal_filling_def)
  let ?s2 = "nr_setFrame (merged v f ?t) ?s"
  have tm: "nr_time s = np_time p" "nr_composition s = np_composition p" using h(2) by (auto simp: params_def)
  have g: "nal_group v ?s = Some (?s2, [], False)"
    using frame f(1) h(3) tm by (simp add: nal_group_def nal_update_def merged[OF type(2)] nal_tag_def)
  have st: "nr_state ?s2 = nr_state (ended k s)" by (simp add: begun_def)
  have "nal_holds ?s2 units cur" using h(1) by simp
  from nal_open_holds[OF this] obtain s3 where s3: "nal_open ?s2 = Some s3" "nal_holds s3 (units @ [cur]) []" "nal_same s3 ?s2"
    "nr_tag s3 = nr_tag ?s2" by auto
  obtain s4 where s4: "nal_holds s4 (units @ [cur]) u" "nal_same s4 s3" "nr_tag s4 = nr_tag s3" "write_unit v s u k = Some (s4, [])"
    using write_unit_kept[OF k type g st s3(1-3)] by auto
  have "nr_tag s4 = nal_tag v p (merged v f ?t)" using s4(3) s3(4) h(3) by (simp add: nal_tag_def)
  moreover have "params s4 = p" using s4(2) s3(3) h(2) by (simp add: params_def nal_same_def)
  ultimately show ?thesis using s4 by (auto simp: nal_filling_def)
qed

text \<open>The second parameter set: the configuration is given at once.\<close>

lemma unit_config:
  assumes k: "end_ok k" and type: "nr_type s = 0xFF" "unit_type v u k < NAL_AUD v" and s: "nal_filling v p FRAME_CONFIG [] cur s"
    and f: "nal_frame v (unit_type v u k) = Some FRAME_CONFIG" "cur \<noteq> []" "unit_type v u k \<noteq> NalType v (hd cur)"
  shows "\<exists>s'. write_unit v s u k = Some (s', [WriteVideo (nal_tag v p FRAME_CONFIG) (nal_stream [cur, u]) (np_track p)]) \<and> nal_idle v p s'"
proof -
  let ?s = "begun v s u k" and ?t = "unit_type v u k"
  have h: "nal_holds s [] cur" "params s = p" "nr_tag s = nal_tag v p FRAME_CONFIG" using s by (auto simp: nal_filling_def)
  then obtain x where x: "length x = 4" "nr_nal s = Some (x @ cur)" "nr_position s = 0"
    by (auto simp: nal_holds_def nal_stream_def)
  have "(x @ cur) ! 4 = hd cur" "length (x @ cur) > 4" using x(1) f(2) by (simp_all add: nth_append hd_conv_nth)
  then have g: "nal_group v ?s = Some (?s, [], True)"
    using f h(3) x by (simp add: nal_group_def nal_tag_def Let_def)
  have st: "nr_state ?s = nr_state (ended k s)" by (simp add: begun_def)
  have "nal_holds ?s [] cur" using h(1) by simp
  from nal_open_holds[OF this] obtain s3 where s3: "nal_open ?s = Some s3" "nal_holds s3 [cur] []" "nal_same s3 ?s"
    "nr_tag s3 = nr_tag ?s" by auto
  obtain s4 where s4: "nal_holds s4 [cur] u" "nal_same s4 s3" "nr_tag s4 = nr_tag s3"
      "write_unit v s u k = map_option (\<lambda>(s, es'). (s, [] @ es')) (flushNal s4)"
    using write_unit_kept[OF k type g st s3(1-3)] by auto
  have "nal_filling v p FRAME_CONFIG [cur] u s4"
    using s4 s3 h(2,3) by (simp add: nal_filling_def params_def nal_same_def)
  from nal_filling_flush[OF this] s4(4) show ?thesis by auto
qed

section \<open>The units of a frame\<close>

definition unit_ok :: "video_type \<Rightarrow> bytes \<Rightarrow> bool" where
  "unit_ok v u \<longleftrightarrow> clean u \<and> length u < 2 ^ 32 \<and> NalType v (hd u) < NAL_AUD v"

definition config_unit :: "video_type \<Rightarrow> bytes \<Rightarrow> bool" where
  "config_unit v u \<longleftrightarrow> nal_frame v (NalType v (hd u)) = Some FRAME_CONFIG"

definition unit_class :: "video_type \<Rightarrow> bytes \<Rightarrow> nal_class" where
  "unit_class v u = nal_class_of (the (nal_frame v (NalType v (hd u))))"

text \<open>No delimiter is written between two units of the frame.\<close>

fun grouped :: "video_type \<Rightarrow> bytes list \<Rightarrow> bool" where
  "grouped v (a # b # us) \<longleftrightarrow> (unit_class v a = NAL_UNDEFINED \<or> unit_class v a = unit_class v b) \<and> grouped v (b # us)"
| "grouped v _ \<longleftrightarrow> True"

definition merges :: "video_type \<Rightarrow> u8 \<Rightarrow> bytes list \<Rightarrow> u8" where
  "merges v f units = foldl (merged v) f (map (\<lambda>u. NalType v (hd u)) units)"

text \<open>The bytes of units behind one of a class, and the events that writing a state out gives.\<close>

fun joined :: "video_type \<Rightarrow> nal_class \<Rightarrow> bytes list \<Rightarrow> bytes" where
  "joined v nal [] = []"
| "joined v nal (u # us) = nal_prefix v nal (unit_class v u) @ u @ joined v (unit_class v u) us"

definition settled :: "video_type \<Rightarrow> nal_params \<Rightarrow> media_event list \<Rightarrow> nal_reader \<Rightarrow> media_event list \<Rightarrow> bool" where
  "settled v p es s es1 \<longleftrightarrow> nal_idle v p s \<and> es1 = es \<or>
     (\<exists>f units cur. nal_filling v p f units cur s \<and> es1 = [] \<and>
        es = (if f = FRAME_CONFIG \<or> units \<noteq> [] \<or> cur \<noteq> []
              then [WriteVideo (nal_tag v p f) (nal_stream (units @ [cur])) (np_track p)] else []))"

lemma settled_flush: "settled v p es s es1 \<Longrightarrow> \<exists>s2 es2. flushNal s = Some (s2, es2) \<and> es1 @ es2 = es \<and> nal_idle v p s2"
  unfolding settled_def by (elim disjE exE conjE) (auto simp: nal_idle_flush dest!: nal_filling_flush)

lemma settled_update [simp]: "settled v p es (restart s) es1 = settled v p es s es1" "settled v p es (begun v s u k) es1 = settled v p es s es1"
  by (simp_all add: settled_def)

text \<open>The scan of the units, \<open>u\<close> pending in \<open>s\<close>, will give these events.\<close>

definition closing :: "video_type \<Rightarrow> nal_params \<Rightarrow> nal_reader \<Rightarrow> bytes \<Rightarrow> media_event list \<Rightarrow> bool" where
  "closing v p s u es \<longleftrightarrow> nr_type s = 0xFF \<and> nr_state s = 0 \<and>
     (\<forall>k. end_ok k \<longrightarrow> (u = [] \<longrightarrow> k \<noteq> None) \<longrightarrow> (\<exists>s1 es1. write_unit v s u k = Some (s1, es1) \<and> settled v p es s1 es1))"

lemma closingD:
  assumes "closing v p s u es" "end_ok k" "u = [] \<Longrightarrow> k \<noteq> None"
  shows "\<exists>s1 es1. write_unit v s u k = Some (s1, es1) \<and> settled v p es s1 es1"
  using assms unfolding closing_def by blast

lemma end_ok_simps [simp]: "end_ok None" "end_ok (Some 2)" "end_ok (Some 3)"
  by (simp_all add: end_ok_def codes_def)

definition nal_at :: "video_type \<Rightarrow> nal_params \<Rightarrow> u8 \<Rightarrow> bytes list \<Rightarrow> nal_reader \<Rightarrow> bool" where
  "nal_at v p f acc s \<longleftrightarrow> nr_type s = 0xFF \<and> nr_state s = 0 \<and>
     (if acc = [] then nal_idle v p s \<and> f = FRAME_UNSPECIFIED else nal_filling v p f (butlast acc) (last acc) s)"

lemma unit_type_hd: "u \<noteq> [] \<Longrightarrow> unit_type v u k = NalType v (hd u)"
  by (simp add: unit_type_def)

lemma unit_okD: "unit_ok v u \<Longrightarrow> clean u \<and> u \<noteq> [] \<and> NalType v (hd u) < NAL_AUD v"
  by (auto simp: unit_ok_def clean_def)

lemma nal_at_step:
  assumes "nal_at v p f acc s" "f \<noteq> FRAME_CONFIG" "unit_ok v u" "\<not> config_unit v u" "end_ok k"
  shows "\<exists>s'. write_unit v s u k = Some (s', []) \<and> nal_at v p (merged v f (NalType v (hd u))) (acc @ [u]) (restart s')
    \<and> nal_filling v p (merged v f (NalType v (hd u))) acc u s'"
proof -
  note u = unit_okD[OF assms(3)]
  have t: "unit_type v u k < NAL_AUD v" "unit_type v u k = NalType v (hd u)" using u by (simp_all add: unit_type_hd)
  show ?thesis
  proof (cases "acc = []")
    case True
    then show ?thesis using unit_first[OF assms(5) _ t(1), of s p] assms(1) by (auto simp: nal_at_def t(2))
  next
    case False
    then have "nal_filling v p f (butlast acc) (last acc) s" "nr_type s = 0xFF" using assms(1) by (auto simp: nal_at_def)
    from unit_next[OF assms(5) this(2) t(1) this(1) assms(2)] show ?thesis
      using assms(4) False by (auto simp: t(2) config_unit_def nal_at_def)
  qed
qed

lemma merged_no_config:
  assumes "unit_ok v u" "\<not> config_unit v u" "f \<noteq> FRAME_CONFIG"
  shows "merged v f (NalType v (hd u)) \<noteq> FRAME_CONFIG"
  using UpdateFrame_config[OF _ merged, of "NalType v (hd u)" v f] assms unit_okD[of v u] by (auto simp: config_unit_def)

lemma scan_code_settled:
  assumes "k \<in> codes" "nr_state s = 0" "write_unit v s u (Some k) = Some (s1, es1)"
  shows "nal_scan v s u (code k @ rest) = map_option (\<lambda>(s, es). (s, es1 @ es)) (nal_scan v (restart s1) [] rest)"
  by (simp add: scan_code[OF assms(1,2)] assms(3))

lemma nal_prefix_code:
  assumes "nal \<noteq> NAL_START" "nal = NAL_UNDEFINED \<or> nal = new"
  shows "\<exists>k \<in> codes. nal_prefix v nal new = code k"
proof -
  have "take 4 (nal_Unit v) = code 3" "take 3 (drop 1 (nal_Unit v)) = code 2"
    by (cases v; simp add: code_def replicate_23)+
  then show ?thesis using assms by (auto simp: nal_prefix_def codes_def)
qed

lemma unit_class_start [simp]: "unit_class v u \<noteq> NAL_START"
  by (simp add: unit_class_def nal_class_of_def)

lemma scan_units:
  assumes "nal_at v p f acc s" "f \<noteq> FRAME_CONFIG" "\<forall>u \<in> set (u # us). unit_ok v u \<and> \<not> config_unit v u" "grouped v (u # us)"
  shows "\<exists>s' u'. (\<forall>rest. nal_scan v s [] (u @ joined v (unit_class v u) us @ rest) = nal_scan v s' u' rest) \<and> u' \<noteq> []
    \<and> closing v p s' u' [WriteVideo (nal_tag v p (merges v f (u # us))) (nal_stream (acc @ u # us)) (np_track p)]"
  using assms
proof (induction us arbitrary: u acc f s)
  case Nil
  then have u: "unit_ok v u" "\<not> config_unit v u" "nr_state s = 0" by (auto simp: nal_at_def)
  have "closing v p s u [WriteVideo (nal_tag v p (merges v f [u])) (nal_stream (acc @ [u])) (np_track p)]"
    using nal_at_step[OF Nil(1,2) u(1,2)] Nil(1) unit_okD[OF u(1)]
    by (fastforce simp: closing_def nal_at_def settled_def merges_def)
  then show ?case using unit_okD[OF u(1)] scan_clean[OF _ u(3)] by (intro exI[of _ s] exI[of _ u]) simp
next
  case (Cons u2 us)
  then have u: "unit_ok v u" "\<not> config_unit v u" "nr_state s = 0" by (auto simp: nal_at_def)
  obtain k where k: "k \<in> codes" "nal_prefix v (unit_class v u) (unit_class v u2) = code k"
    using nal_prefix_code[of "unit_class v u" "unit_class v u2"] Cons.prems(4) by auto
  obtain s1 where s1: "write_unit v s u (Some k) = Some (s1, [])" "nal_at v p (merged v f (NalType v (hd u))) (acc @ [u]) (restart s1)"
    using nal_at_step[OF Cons.prems(1,2) u(1,2), of "Some k"] k(1) by (auto simp: end_ok_def)
  have scan: "nal_scan v s [] (u @ joined v (unit_class v u) (u2 # us) @ rest) =
      nal_scan v (restart s1) [] (u2 @ joined v (unit_class v u2) us @ rest)" for rest
    using scan_clean[OF _ u(3)] scan_code_settled[OF k(1) u(3) s1(1)] unit_okD[OF u(1)] k(2)
    by (simp add: option.map_id case_prod_beta)
  have "merges v f (u # u2 # us) = merges v (merged v f (NalType v (hd u))) (u2 # us)" by (simp add: merges_def)
  moreover have "\<forall>x \<in> set (u2 # us). unit_ok v x \<and> \<not> config_unit v x" "grouped v (u2 # us)" using Cons.prems(3,4) by auto
  note Cons.IH[OF s1(2) merged_no_config[OF u(1,2) Cons.prems(2)] this]
  ultimately show ?case by (simp only: scan append_assoc append_Cons append_Nil)
qed

text \<open>Two parameter sets.\<close>

lemma scan_config:
  assumes "nal_at v p FRAME_UNSPECIFIED [] s" "unit_ok v a" "unit_ok v b" "config_unit v a" "config_unit v b"
    and "NalType v (hd a) \<noteq> NalType v (hd b)"
  shows "\<exists>s' u'. (\<forall>rest. nal_scan v s [] (a @ joined v (unit_class v a) [b] @ rest) = nal_scan v s' u' rest) \<and> u' \<noteq> []
    \<and> closing v p s' u' [WriteVideo (nal_tag v p FRAME_CONFIG) (nal_stream [a, b]) (np_track p)]"
proof -
  note a = unit_okD[OF assms(2)] and b = unit_okD[OF assms(3)]
  have s: "nr_type s = 0xFF" "nr_state s = 0" "nal_idle v p s" using assms(1) by (auto simp: nal_at_def)
  have cls: "unit_class v a = NAL_CONFIG" "unit_class v b = NAL_CONFIG"
    using assms(4,5) by (simp_all add: config_unit_def unit_class_def nal_class_of_def)
  obtain k where k: "k \<in> codes" "nal_prefix v NAL_CONFIG NAL_CONFIG = code k"
    using nal_prefix_code[of NAL_CONFIG NAL_CONFIG] by auto
  have "UpdateFrame v (NalType v (hd a)) FRAME_UNSPECIFIED = Some FRAME_CONFIG"
    using assms(4) by (cases v) (auto simp: config_unit_def avc_UpdateFrame_def hevc_UpdateFrame_def merge_frame_def frame_of_def
        avc_frames_def word_less_nat_alt split: if_splits)
  then have m: "merged v FRAME_UNSPECIFIED (NalType v (hd a)) = FRAME_CONFIG" by (simp add: merged_def)
  obtain s1 where s1: "write_unit v s a (Some k) = Some (s1, [])" "nal_filling v p FRAME_CONFIG [] a s1"
    using unit_first[of "Some k" s v a p] a s k(1) by (auto simp: end_ok_def unit_type_hd m)
  have "\<exists>s'. write_unit v (restart s1) b k' = Some (s', [WriteVideo (nal_tag v p FRAME_CONFIG) (nal_stream [a, b]) (np_track p)])
      \<and> nal_idle v p s'" if "end_ok k'" for k'
    by (rule unit_config) (use that s1 a b assms(5,6) in \<open>simp_all add: unit_type_hd config_unit_def\<close>)
  then have "closing v p (restart s1) b [WriteVideo (nal_tag v p FRAME_CONFIG) (nal_stream [a, b]) (np_track p)]"
    by (fastforce simp: closing_def settled_def)
  moreover have "nal_scan v s [] (a @ joined v (unit_class v a) [b] @ rest) = nal_scan v (restart s1) b rest" for rest
    using scan_clean[OF _ s(2), of a] scan_code_settled[OF k(1) s(2) s1(1)] scan_clean[of b "restart s1" v "[]"] a b k(2)
    by (simp add: cls option.map_id case_prod_beta)
  ultimately show ?thesis using b by blast
qed

section \<open>The frames of a stream\<close>

definition frame_ok :: "video_type \<Rightarrow> bytes list \<Rightarrow> bool" where
  "frame_ok v units \<longleftrightarrow> units \<noteq> [] \<and> list_all (unit_ok v) units \<and>
     (list_all (\<lambda>u. \<not> config_unit v u) units \<and> grouped v units
      \<or> (\<exists>a b. units = [a, b] \<and> config_unit v a \<and> config_unit v b \<and> NalType v (hd a) \<noteq> NalType v (hd b)))"

definition frame_of_units :: "video_type \<Rightarrow> bytes list \<Rightarrow> u8" where
  "frame_of_units v units = (if config_unit v (hd units) then FRAME_CONFIG else merges v FRAME_UNSPECIFIED units)"

definition frame_event :: "video_type \<Rightarrow> nal_params \<Rightarrow> bytes list \<Rightarrow> media_event" where
  "frame_event v p units = WriteVideo (nal_tag v p (frame_of_units v units)) (nal_stream units) (np_track p)"

lemma scan_frame:
  assumes "nal_at v p FRAME_UNSPECIFIED [] s" "frame_ok v units"
  shows "\<exists>s' u'. (\<forall>rest. nal_scan v s [] (hd units @ joined v (unit_class v (hd units)) (tl units) @ rest) = nal_scan v s' u' rest)
    \<and> u' \<noteq> [] \<and> closing v p s' u' [frame_event v p units]"
proof -
  obtain u us where units: "units = u # us" using assms(2) by (cases units) (auto simp: frame_ok_def)
  show ?thesis
  proof (cases "config_unit v u")
    case True
    then obtain b where b: "us = [b]" "config_unit v b" "NalType v (hd u) \<noteq> NalType v (hd b)" "unit_ok v u" "unit_ok v b"
      using assms(2) by (auto simp: frame_ok_def units)
    show ?thesis using scan_config[OF assms(1) b(4,5) True b(2,3)] True by (simp add: units b(1) frame_event_def frame_of_units_def)
  next
    case False
    then have "\<forall>x \<in> set (u # us). unit_ok v x \<and> \<not> config_unit v x" "grouped v (u # us)"
      using assms(2) by (auto simp: frame_ok_def units list_all_iff)
    from scan_units[OF assms(1) _ this] False show ?thesis by (simp add: units frame_event_def frame_of_units_def)
  qed
qed

text \<open>The delimiter.\<close>

definition aud :: "video_type \<Rightarrow> bytes" where
  "aud v = (case v of AVC \<Rightarrow> [0x09, 0xF0] | HEVC \<Rightarrow> [0x46, 0x01, 0x50])"

lemma nal_Unit_codes: "nal_Unit v = code 3 @ aud v @ code 3"
  by (cases v) (simp_all add: code_def aud_def replicate_23)

lemma aud_clean: "clean (aud v)" "NalType v (hd (aud v)) \<ge> NAL_AUD v"
  by (cases v; simp add: clean_def aud_def avc_NalType_def hevc_NalType_def)+

lemma scan_delimiter:
  assumes "closing v p s u es"
  shows "\<exists>s'. nal_at v p FRAME_UNSPECIFIED [] s' \<and>
    (\<forall>rest. nal_scan v s u (nal_Unit v @ rest) = map_option (\<lambda>(s, es'). (s, es @ es')) (nal_scan v s' [] rest))"
proof -
  have s: "nr_type s = 0xFF" "nr_state s = 0" using assms by (auto simp: closing_def)
  obtain s1 es1 where s1: "write_unit v s u (Some 3) = Some (s1, es1)" "settled v p es s1 es1"
    using closingD[OF assms, of "Some 3"] by auto
  let ?s = "begun v (restart s1) (aud v) (Some 3)"
  have "settled v p es ?s es1" using s1(2) by simp
  then obtain s2 es2 where s2: "flushNal ?s = Some (s2, es2)" "es1 @ es2 = es" "nal_idle v p s2" using settled_flush by blast
  have t: "unit_type v (aud v) (Some 3) \<ge> NAL_AUD v" using aud_clean by (simp add: unit_type_hd clean_def)
  have w: "write_unit v (restart s1) (aud v) (Some 3) = Some (s2, es2)"
    using write_unit_AUD[OF _ t, of "restart s1"] s2(1) by simp
  have c3: "3 \<in> codes" by (simp add: codes_def)
  have "nal_scan v s u (nal_Unit v @ rest) = map_option (\<lambda>(s, es'). (s, es @ es')) (nal_scan v (restart s2) [] rest)" for rest
    using scan_code_settled[OF c3 s(2) s1(1)] scan_code_settled[OF c3 _ w] scan_clean[OF aud_clean(1), of "restart s1" v "[]"]
    by (simp add: nal_Unit_codes option.map_comp comp_def case_prod_unfold s2(2)[symmetric])
  then show ?thesis using s2(3) by (intro exI[of _ "restart s2"]) (simp add: nal_at_def)
qed

lemma joined_start: "units \<noteq> [] \<Longrightarrow> joined v NAL_START units = nal_Unit v @ hd units @ joined v (unit_class v (hd units)) (tl units)"
  by (cases units) (simp_all add: nal_prefix_def)

lemma scan_frames:
  assumes "closing v p s u es" "list_all (frame_ok v) frames" "u \<noteq> [] \<or> frames \<noteq> []"
  shows "\<exists>s1 es1 s2 es2. nal_scan v s u (concat (map (joined v NAL_START) frames)) = Some (s1, es1)
    \<and> flushNal s1 = Some (s2, es2) \<and> es1 @ es2 = es @ map (frame_event v p) frames"
  using assms
proof (induction frames arbitrary: s u es)
  case Nil
  then have s: "nr_state s = 0" by (simp add: closing_def)
  then have e: "ended None s = s" by (simp add: ended_def)
  obtain s1 es1 where s1: "write_unit v s u None = Some (s1, es1)" "settled v p es s1 es1"
    using closingD[OF Nil(1), of None] Nil(3) by auto
  have "nal_scan v s u [] = Some (s1, es1)" using s1(1) Nil(3) by (simp add: write_unit_def ending_def e)
  then show ?case using settled_flush[OF s1(2)] by auto
next
  case (Cons units frames)
  have ok: "frame_ok v units" "units \<noteq> []" using Cons.prems(2) by (auto simp: frame_ok_def)
  obtain s1 where s1: "nal_at v p FRAME_UNSPECIFIED [] s1"
    "\<And>rest. nal_scan v s u (nal_Unit v @ rest) = map_option (\<lambda>(s, es'). (s, es @ es')) (nal_scan v s1 [] rest)"
    using scan_delimiter[OF Cons.prems(1)] by blast
  obtain s2 u2 where s2: "\<And>rest. nal_scan v s1 [] (hd units @ joined v (unit_class v (hd units)) (tl units) @ rest) = nal_scan v s2 u2 rest"
    "u2 \<noteq> []" "closing v p s2 u2 [frame_event v p units]"
    using scan_frame[OF s1(1) ok(1)] by blast
  have "list_all (frame_ok v) frames" using Cons.prems(2) by simp
  from Cons.IH[OF s2(3) this] s2(2) obtain s3 es3 s4 es4 where
    ih: "nal_scan v s2 u2 (concat (map (joined v NAL_START) frames)) = Some (s3, es3)"
      "flushNal s3 = Some (s4, es4)" "es3 @ es4 = [frame_event v p units] @ map (frame_event v p) frames"
    by blast
  show ?case
    using ih by (simp add: joined_start[OF ok(2)] s1(2) s2(1))
qed

section \<open>The writer\<close>

lemma write_step_unit:
  assumes "unit_ok v u"
  shows "nal_write_step v u (Some (out, nal)) = Some (out @ [nal_prefix v nal (unit_class v u), u], unit_class v u)"
proof -
  note u = unit_okD[OF assms]
  obtain f where f: "nal_frame v (NalType v (hd u)) = Some f" using u nal_frame_in by blast
  have "NalType v (hd u) \<noteq> NAL_AUD v" using u by auto
  then show ?thesis by (simp add: nal_write_step_def f unit_class_def Let_def)
qed

lemma write_units:
  assumes "list_all (unit_ok v) units"
  shows "\<exists>out' nal'. fold (nal_write_step v) units (Some (out, nal)) = Some (out @ out', nal') \<and> concat out' = joined v nal units"
  using assms
proof (induction units arbitrary: out nal)
  case (Cons u us)
  then have u: "unit_ok v u" "list_all (unit_ok v) us" by auto
  show ?case using Cons.IH[OF u(2), of "out @ [nal_prefix v nal (unit_class v u), u]" "unit_class v u"]
    by (auto simp: write_step_unit[OF u(1)])
qed simp

lemma writeVideo_units:
  assumes "list_all (unit_ok v) units" "vt_codec tag = CODEC v" "nw_time w \<noteq> vt_time tag \<or> nw_nal w = NAL_START"
  shows "\<exists>w' out size. nal_writeVideo v w tag (nal_stream units) n = Some (w', out, size) \<and> nw_time w' = vt_time tag
    \<and> concat out = joined v NAL_START units"
proof -
  let ?w = "if nw_time w \<noteq> vt_time tag then w\<lparr>nw_time := vt_time tag, nw_nal := NAL_START\<rparr> else w"
  have w: "nw_nal ?w = NAL_START" "nw_time ?w = vt_time tag" using assms(3) by auto
  have "list_all (\<lambda>u. length u < 2 ^ 32) units" "filter (\<lambda>u. u \<noteq> []) units = units"
    using assms(1) by (auto simp: list_all_iff unit_ok_def clean_def filter_id_conv)
  then have f: "fold_nals (nal_write_step v) (net_reader (nal_stream units)) s = fold (nal_write_step v) units s" for s
    using fold_nals_net[of units "nal_write_step v" s] by simp
  obtain out nal where o: "fold (nal_write_step v) units (Some ([], NAL_START)) = Some (out, nal)" "concat out = joined v NAL_START units"
    using write_units[OF assms(1), of "[]" NAL_START] by auto
  have "sized_as (fold_nals (nal_size_step v) (net_reader (nal_stream units)) (Some (0, NAL_START)))
      (fold_nals (nal_write_step v) (net_reader (nal_stream units)) (Some ([], NAL_START)))"
    by (rule fold_nals_rel) (simp_all add: sized_as_step sized_as_def[of "Some _"])
  then obtain size nal' where z: "fold_nals (nal_size_step v) (net_reader (nal_stream units)) (Some (0, NAL_START)) = Some (size, nal')"
    using o(1) by (auto simp: f sized_as_def rel_option_iff split: option.splits)
  have "nal_writeVideo v w tag (nal_stream units) n = Some (?w\<lparr>nw_nal := nal\<rparr>, out, size)"
    using assms(2) w z o(1) by (simp add: nal_writeVideo_def Let_def f)
  then show ?thesis using o(2) w(2) by auto
qed

text \<open>A stream written: packets with their tag, each at another time than the one before.\<close>

fun nal_written :: "video_type \<Rightarrow> nal_writer \<Rightarrow> (video_tag \<times> bytes list) list \<Rightarrow> bytes option" where
  "nal_written v w [] = Some []"
| "nal_written v w ((tag, units) # frames) =
     Option.bind (nal_writeVideo v w tag (nal_stream units) 0) (\<lambda>(w, out, _).
       map_option (\<lambda>b. concat out @ b) (nal_written v w frames))"

fun times_change :: "u32 \<Rightarrow> (video_tag \<times> bytes list) list \<Rightarrow> bool" where
  "times_change time [] \<longleftrightarrow> True"
| "times_change time ((tag, units) # frames) \<longleftrightarrow> vt_time tag \<noteq> time \<and> times_change (vt_time tag) frames"

definition stream_ok :: "video_type \<Rightarrow> (video_tag \<times> bytes list) list \<Rightarrow> bool" where
  "stream_ok v frames \<longleftrightarrow> list_all (\<lambda>(tag, units). vt_codec tag = CODEC v \<and> frame_ok v units) frames
     \<and> (case frames of [] \<Rightarrow> True | (tag, units) # rest \<Rightarrow> times_change (vt_time tag) rest)"

lemma nal_written_joined:
  assumes "list_all (\<lambda>(tag, units). vt_codec tag = CODEC v \<and> frame_ok v units) frames" "times_change (nw_time w) frames"
  shows "nal_written v w frames = Some (concat (map (joined v NAL_START \<circ> snd) frames))"
  using assms
proof (induction frames arbitrary: w)
  case (Cons f frames)
  obtain tag units where f: "f = (tag, units)" by (cases f)
  have ok: "list_all (unit_ok v) units" "vt_codec tag = CODEC v" "nw_time w \<noteq> vt_time tag"
    using Cons.prems by (auto simp: f frame_ok_def)
  obtain w' out n where "nal_writeVideo v w tag (nal_stream units) 0 = Some (w', out, n)" "nw_time w' = vt_time tag"
      "concat out = joined v NAL_START units"
    using writeVideo_units[OF ok(1,2), of w 0] ok(3) by blast
  then show ?case using Cons.IH[of w'] Cons.prems by (simp add: f)
qed simp

lemma stream_written:
  assumes "stream_ok v frames"
  shows "nal_written v nal_beginMedia frames = Some (concat (map (joined v NAL_START \<circ> snd) frames))"
proof (cases frames)
  case (Cons f rest)
  obtain tag units where f: "f = (tag, units)" by (cases f)
  have ok: "list_all (unit_ok v) units" "vt_codec tag = CODEC v" using assms by (auto simp: Cons f frame_ok_def stream_ok_def)
  obtain w' out n where "nal_writeVideo v nal_beginMedia tag (nal_stream units) 0 = Some (w', out, n)" "nw_time w' = vt_time tag"
      "concat out = joined v NAL_START units"
    using writeVideo_units[OF ok, of nal_beginMedia 0] by (auto simp: nal_beginMedia_def)
  then show ?thesis using nal_written_joined[of v rest w'] assms by (simp add: Cons f stream_ok_def)
qed simp

lemma closing_begin:
  assumes "nr_type s = 0xFF" "nr_state s = 0" "nal_idle v p s"
  shows "closing v p s [] []"
proof -
  have "\<exists>s1 es1. write_unit v s [] k = Some (s1, es1) \<and> settled v p [] s1 es1" if k: "end_ok k" "k \<noteq> None" for k
  proof -
    have hd: "unit_type v [] k = 0" using k by (auto simp: unit_type_def ending_def code_def end_ok_def codes_def numeral_2_eq_2 numeral_3_eq_3)
    have z: "0 < NAL_AUD v" by (cases v) simp_all
    have "merged v FRAME_UNSPECIFIED 0 \<noteq> FRAME_CONFIG"
      using UpdateFrame_config[OF z merged[OF z], of FRAME_UNSPECIFIED] nal_frame_0[of v] by auto
    moreover obtain s' where "write_unit v s [] k = Some (s', [])" "nal_filling v p (merged v FRAME_UNSPECIFIED 0) [] [] s'"
      using unit_first[OF k(1) assms(1) _ assms(3), of "[]"] z unfolding hd by blast
    ultimately show ?thesis by (auto simp: settled_def)
  qed
  then show ?thesis using assms(1,2) by (auto simp: closing_def)
qed

text \<open>C6. Frames written by \<open>NALNetWriter\<close> one behind another, each at another time than the one before, and given whole to a
  new \<open>NALNetReader\<close> are, with those of the flush, the same packets of units in order, with the frame that their units
  make, the time and the composition of the reader and its track (1 for 0).  At least one frame is written, and each is of
  one or more units below \<open>2 ^ 32\<close> bytes of a type below the delimiter (the writer leaves its table for some of those above,
  \<open>NALNetWriter.cpp:75\<close>), not empty, without a start code or three zeros in them and without a zero at their end.  They
  are two parameter sets of different types, or none of them is a parameter set and the writer puts no delimiter between two of
  them (\<open>grouped\<close>: behind a slice come slices, and SEI come before them).\<close>

theorem nal_written_read:
  assumes "stream_ok v frames" "frames \<noteq> []"
  shows "\<exists>b s1 es1 s2 es2. nal_written v nal_beginMedia frames = Some b
    \<and> nal_parse v ((new_nal_reader v track)\<lparr>nr_time := time, nr_composition := composition\<rparr>) b = Some (s1, es1)
    \<and> nal_flush s1 = Some (s2, es2)
    \<and> es1 @ es2 = map (\<lambda>(tag, units).
        WriteVideo \<lparr>vt_time = time, vt_codec = CODEC v, vt_frame = frame_of_units v units, vt_composition = composition\<rparr>
          (nal_stream units) (if track \<noteq> 0 then track else 1)) frames"
proof -
  let ?s = "(new_nal_reader v track)\<lparr>nr_time := time, nr_composition := composition\<rparr>"
  let ?p = "\<lparr>np_track = (if track \<noteq> 0 then track else 1), np_time = time, np_composition = composition\<rparr>"
  have "closing v ?p ?s [] []"
    by (rule closing_begin) (simp_all add: new_nal_reader_def nal_idle_def params_def new_video_tag_def)
  moreover have "list_all (frame_ok v) (map snd frames)" using assms(1) by (auto simp: stream_ok_def list_all_iff)
  ultimately obtain s1 es1 s2 es2 where r: "nal_scan v ?s [] (concat (map (joined v NAL_START) (map snd frames))) = Some (s1, es1)"
      "flushNal s1 = Some (s2, es2)" "es1 @ es2 = [] @ map (frame_event v ?p) (map snd frames)"
    using scan_frames[of v ?p ?s "[]" "[]" "map snd frames"] assms(2) by blast
  then show ?thesis
    using stream_written[OF assms(1)]
    by (simp add: nal_parse_def nal_flush_def nal_onFlush_def frame_event_def[abs_def] nal_tag_def comp_def case_prod_unfold)
qed

lemma unit_ok_simple: "unit_ok AVC [0x65, 7]" "unit_ok AVC [0x67, 1]" "unit_ok AVC [0x68, 2]" "unit_ok AVC [0x06, 5]"
  by (simp_all add: unit_ok_def clean_def avc_NalType_def)

theorem nal_written_read_witness:
  "\<exists>b s1 es1 s2 es2. nal_written AVC nal_beginMedia
        [(\<lparr>vt_time = 0, vt_codec = 7, vt_frame = 7, vt_composition = 0\<rparr>, [[0x67, 1], [0x68, 2]]),
         (\<lparr>vt_time = 40, vt_codec = 7, vt_frame = 1, vt_composition = 0\<rparr>, [[0x06, 5], [0x65, 7]])] = Some b
    \<and> nal_parse AVC ((new_nal_reader AVC 0)\<lparr>nr_time := 9, nr_composition := 0\<rparr>) b = Some (s1, es1)
    \<and> nal_flush s1 = Some (s2, es2)
    \<and> es1 @ es2 =
       [WriteVideo \<lparr>vt_time = 9, vt_codec = 7, vt_frame = FRAME_CONFIG, vt_composition = 0\<rparr> (nal_stream [[0x67, 1], [0x68, 2]]) 1,
        WriteVideo \<lparr>vt_time = 9, vt_codec = 7, vt_frame = FRAME_KEY, vt_composition = 0\<rparr> (nal_stream [[0x06, 5], [0x65, 7]]) 1]"
proof -
  let ?frames = "[(\<lparr>vt_time = 0, vt_codec = 7, vt_frame = 7, vt_composition = 0\<rparr>, [[0x67, 1], [0x68, 2]]),
         (\<lparr>vt_time = 40, vt_codec = 7, vt_frame = 1, vt_composition = 0\<rparr>, [[0x06, 5], [0x65, 7]])] :: (video_tag \<times> bytes list) list"
  have t: "avc_NalType 0x67 = 7" "avc_NalType 0x68 = 8" "avc_NalType 0x06 = 6" "avc_NalType 0x65 = 5" by (simp_all add: avc_NalType_def)
  have f: "frame_of avc_frames 7 = Some FRAME_CONFIG" "frame_of avc_frames 8 = Some FRAME_CONFIG"
    "frame_of avc_frames 6 = Some FRAME_INFO" "frame_of avc_frames 5 = Some FRAME_KEY"
    by (simp_all add: frame_of_def avc_frames_def)
  have g: "grouped AVC [[0x06, 5], [0x65, 7]]" by (simp add: unit_class_def t f nal_class_of_def)
  have c: "config_unit AVC [0x67, 1]" "config_unit AVC [0x68, 2]" "\<not> config_unit AVC [0x06, 5]" "\<not> config_unit AVC [0x65, 7]"
    by (simp_all add: config_unit_def t f)
  have ok: "frame_ok AVC [[0x67, 1], [0x68, 2]]" "frame_ok AVC [[0x06, 5], [0x65, 7]]"
    using unit_ok_simple g c by (auto simp: frame_ok_def t)
  have s: "stream_ok AVC ?frames" using ok by (simp add: stream_ok_def)
  have u: "avc_UpdateFrame 6 FRAME_UNSPECIFIED = FRAME_INFO" "avc_UpdateFrame 5 FRAME_INFO = FRAME_KEY"
    by (simp_all add: avc_UpdateFrame_def merge_frame_def avc_frames_def)
  have m: "frame_of_units AVC [[0x67, 1], [0x68, 2]] = FRAME_CONFIG" "frame_of_units AVC [[0x06, 5], [0x65, 7]] = FRAME_KEY"
    using c by (simp_all add: frame_of_units_def merges_def merged_def t u)
  show ?thesis using nal_written_read[OF s, of 0 9 0] by (simp add: m)
qed

theorem nal_final_size_witness:
  "\<exists>w out. nal_writeVideo AVC nal_beginMedia \<lparr>vt_time = 0, vt_codec = 7, vt_frame = 1, vt_composition = 0\<rparr>
      (nal_stream [[0x65, 7]]) 0 = Some (w, out, 12) \<and> length (concat out) = 12"
proof -
  obtain w out size where w: "nal_writeVideo AVC nal_beginMedia \<lparr>vt_time = 0, vt_codec = 7, vt_frame = 1, vt_composition = 0\<rparr>
      (nal_stream [[0x65, 7]]) 0 = Some (w, out, size)" and out: "concat out = joined AVC NAL_START [[0x65, 7]]"
    using writeVideo_units[of AVC "[[0x65, 7]]" "\<lparr>vt_time = 0, vt_codec = 7, vt_frame = 1, vt_composition = 0\<rparr>" nal_beginMedia 0]
      unit_ok_simple by (auto simp: nal_beginMedia_def)
  have "length (concat out) = 12" unfolding out by (simp add: nal_prefix_def)
  moreover from this have "size = 12" using nal_final_size[OF w] by simp
  ultimately show ?thesis using w by blast
qed

section \<open>A configuration of HEVC\<close>

text \<open>A unit of another frame behind a parameter set that is not an SPS: the set is dropped.\<close>

lemma unit_drops_set:
  assumes k: "end_ok k" and type: "nr_type s = 0xFF" "unit_type v u k < NAL_AUD v" and s: "nal_filling v p FRAME_CONFIG [] cur s"
    and f: "nal_frame v (unit_type v u k) \<noteq> Some FRAME_CONFIG" "cur \<noteq> []" "NalType v (hd cur) \<noteq> NAL_SPS v" "config_unit v cur"
  shows "\<exists>s'. write_unit v s u k = Some (s', []) \<and> nal_filling v p (merged v FRAME_UNSPECIFIED (unit_type v u k)) [] u s'"
proof -
  let ?s = "begun v s u k" and ?t = "unit_type v u k"
  obtain frame where frame: "nal_frame v ?t = Some frame" "frame \<noteq> FRAME_CONFIG" using nal_frame_in[OF type(2)] f(1) by auto
  have h: "nal_holds s [] cur" "params s = p" "nr_tag s = nal_tag v p FRAME_CONFIG" using s by (auto simp: nal_filling_def)
  then obtain x where x: "length x = 4" "nr_nal s = Some (x @ cur)" "nr_position s = 0"
    by (auto simp: nal_holds_def nal_stream_def)
  have i: "(x @ cur) ! 4 = hd cur" "length (x @ cur) > 4" using x(1) f(2) by (simp_all add: nth_append hd_conv_nth)
  have ne: "?t \<noteq> NalType v (hd cur)" using frame f(4) by (auto simp: config_unit_def)
  let ?s2 = "nr_setFrame (merged v FRAME_UNSPECIFIED ?t) (?s\<lparr>nr_nal := None\<rparr>)"
  have g: "nal_group v ?s = Some (?s2, [], False)"
    using frame f(3) h(3) x i ne by (simp add: nal_group_def nal_tag_def Let_def nal_update_def merged[OF type(2)])
  have st: "nr_state ?s2 = nr_state (ended k s)" by (simp add: begun_def)
  obtain s3 where s3: "nal_open ?s2 = Some s3" "nal_holds s3 [] []" "nal_same s3 ?s2"
    "nr_tag s3 = (nr_tag ?s2)\<lparr>vt_time := nr_time ?s2, vt_composition := nr_composition ?s2\<rparr>"
    using nal_open_none[of ?s2] by auto
  obtain s4 where s4: "nal_holds s4 [] u" "nal_same s4 s3" "nr_tag s4 = nr_tag s3" "write_unit v s u k = Some (s4, [])"
    using write_unit_kept[OF k type g st s3(1-3)] by auto
  have "nr_tag s4 = nal_tag v p (merged v FRAME_UNSPECIFIED ?t)"
    using s4(3) s3(4) h(2,3) by (auto simp: nal_tag_def params_def)
  moreover have "params s4 = p" using s4(2) s3(3) h(2) by (simp add: params_def nal_same_def)
  ultimately show ?thesis using s4 by (auto simp: nal_filling_def)
qed

text \<open>A stream with a whole configuration.\<close>

theorem hevc_pps_dropped:
  assumes "unit_ok HEVC vps" "unit_ok HEVC sps" "unit_ok HEVC pps" "unit_ok HEVC coded"
    and "NalType HEVC (hd vps) = 32" "NalType HEVC (hd sps) = 33" "NalType HEVC (hd pps) = 34" "\<not> config_unit HEVC coded"
  shows "\<exists>s1 es1 s2 es2.
    nal_parse HEVC (new_nal_reader HEVC 1) (nal_Unit HEVC @ vps @ code 3 @ sps @ code 3 @ pps @ code 3 @ coded) = Some (s1, es1)
    \<and> nal_flush s1 = Some (s2, es2)
    \<and> es1 @ es2 = [WriteVideo \<lparr>vt_time = 0, vt_codec = CODEC HEVC, vt_frame = FRAME_CONFIG, vt_composition = 0\<rparr> (nal_stream [vps, sps]) 1,
        WriteVideo \<lparr>vt_time = 0, vt_codec = CODEC HEVC, vt_frame = frame_of_units HEVC [coded], vt_composition = 0\<rparr> (nal_stream [coded]) 1]"
proof -
  let ?v = HEVC and ?s = "new_nal_reader HEVC 1" and ?p = "\<lparr>np_track = 1, np_time = 0, np_composition = 0\<rparr>"
  have c3: "3 \<in> codes" "end_ok (Some 3)" by (simp_all add: codes_def)
  have fr: "frame_of hevc_frames 32 = Some FRAME_CONFIG" "frame_of hevc_frames 33 = Some FRAME_CONFIG" "frame_of hevc_frames 34 = Some FRAME_CONFIG"
    by (simp_all add: frame_of_def hevc_frames_def nth_append)
  have cfg: "config_unit ?v vps" "config_unit ?v sps" "config_unit ?v pps"
    unfolding config_unit_def assms(5-7) nal_frame.simps by (rule fr)+
  note ok = unit_okD[OF assms(1)] unit_okD[OF assms(2)] unit_okD[OF assms(3)] unit_okD[OF assms(4)]
  have m: "merged ?v FRAME_UNSPECIFIED (NalType ?v (hd vps)) = FRAME_CONFIG" "merged ?v FRAME_UNSPECIFIED (NalType ?v (hd pps)) = FRAME_CONFIG"
    unfolding assms(5,7) merged_def UpdateFrame.simps hevc_UpdateFrame_def fr by (simp_all add: merge_frame_def)
  have idle: "nal_idle ?v ?p ?s" "nr_type ?s = 0xFF" "nr_state ?s = 0"
    by (simp_all add: new_nal_reader_def nal_idle_def params_def new_video_tag_def)
  have "closing ?v ?p ?s [] []" by (rule closing_begin[OF idle(2,3,1)])
  from scan_delimiter[OF this] obtain s0 where s0: "nal_at ?v ?p FRAME_UNSPECIFIED [] s0"
      "\<And>rest. nal_scan ?v ?s [] (nal_Unit ?v @ rest) = map_option (\<lambda>(s, es'). (s, [] @ es')) (nal_scan ?v s0 [] rest)" by blast
  have i0: "nal_idle ?v ?p s0" "nr_type s0 = 0xFF" "nr_state s0 = 0" using s0(1) by (auto simp: nal_at_def)
  obtain s1 where s1: "write_unit ?v s0 vps (Some 3) = Some (s1, [])" "nal_filling ?v ?p FRAME_CONFIG [] vps s1"
    using unit_first[OF c3(2) i0(2) _ i0(1), of vps] ok by (auto simp: unit_type_hd m[unfolded NalType.simps])
  let ?config = "WriteVideo (nal_tag ?v ?p FRAME_CONFIG) (nal_stream [vps, sps]) 1"
  have "\<exists>s'. write_unit ?v (restart s1) sps (Some 3) = Some (s', [WriteVideo (nal_tag ?v ?p FRAME_CONFIG) (nal_stream [vps, sps]) (np_track ?p)])
      \<and> nal_idle ?v ?p s'"
    by (rule unit_config[where cur = vps]) (use s1 ok cfg assms(5-7) in \<open>simp_all add: unit_type_hd config_unit_def\<close>)
  then obtain s2 where s2: "write_unit ?v (restart s1) sps (Some 3) = Some (s2, [?config])" "nal_idle ?v ?p s2" by auto
  obtain s3 where s3: "write_unit ?v (restart s2) pps (Some 3) = Some (s3, [])" "nal_filling ?v ?p FRAME_CONFIG [] pps s3"
    using unit_first[OF c3(2), of "restart s2" ?v pps ?p] s2(2) ok by (auto simp: unit_type_hd m[unfolded NalType.simps])
  have "\<exists>s'. write_unit ?v (restart s3) coded None = Some (s', [])
      \<and> nal_filling ?v ?p (merged ?v FRAME_UNSPECIFIED (unit_type ?v coded None)) [] coded s'"
    by (rule unit_drops_set[where cur = pps]) (use s3 ok cfg assms(7,8) in \<open>simp_all add: unit_type_hd config_unit_def\<close>)
  then obtain s4 where s4: "write_unit ?v (restart s3) coded None = Some (s4, [])"
      "nal_filling ?v ?p (frame_of_units ?v [coded]) [] coded s4"
    using ok assms(8) by (auto simp: unit_type_hd frame_of_units_def merges_def)
  have e: "ended None (restart s3) = restart s3" by (simp add: ended_def restart_def)
  have "nal_scan ?v (restart s3) coded [] = Some (s4, [])"
    using s4(1) ok by (simp add: write_unit_def ending_def e)
  then have "nal_parse ?v ?s (nal_Unit ?v @ vps @ code 3 @ sps @ code 3 @ pps @ code 3 @ coded) = Some (s4, [?config])"
    unfolding nal_parse_def s0(2)
    using scan_clean[of vps s0 ?v "[]"] scan_clean[of sps "restart s1" ?v "[]"] scan_clean[of pps "restart s2" ?v "[]"]
      scan_clean[of coded "restart s3" ?v "[]" "[]"] ok i0(3)
      scan_code_settled[OF c3(1) i0(3) s1(1)] scan_code_settled[OF c3(1) _ s2(1)] scan_code_settled[OF c3(1) _ s3(1)]
    by (simp add: option.map_id)
  then show ?thesis
    using nal_filling_flush[OF s4(2)] ok by (auto simp: nal_flush_def nal_onFlush_def nal_tag_def)
qed

theorem hevc_pps_dropped_witness:
  "\<exists>s1 es1 s2 es2.
    nal_parse HEVC (new_nal_reader HEVC 1) (nal_Unit HEVC @ [0x40, 1] @ code 3 @ [0x42, 1] @ code 3 @ [0x44, 1] @ code 3 @ [0x26, 1]) = Some (s1, es1)
    \<and> nal_flush s1 = Some (s2, es2) \<and> length (es1 @ es2) = 2"
proof -
  have ok: "unit_ok HEVC [0x40, 1]" "unit_ok HEVC [0x42, 1]" "unit_ok HEVC [0x44, 1]" "unit_ok HEVC [0x26, 1]"
    by (simp_all add: unit_ok_def clean_def hevc_NalType_def)
  have "frame_of hevc_frames 19 = Some FRAME_KEY" by (simp add: frame_of_def hevc_frames_def nth_append)
  then have t: "NalType HEVC (hd [0x40, 1]) = 32" "NalType HEVC (hd [0x42, 1]) = 33" "NalType HEVC (hd [0x44, 1]) = 34"
    "\<not> config_unit HEVC [0x26, 1]"
    by (simp_all add: config_unit_def hevc_NalType_def)
  obtain s1 es1 s2 es2 where r:
    "nal_parse HEVC (new_nal_reader HEVC 1) (nal_Unit HEVC @ [0x40, 1] @ code 3 @ [0x42, 1] @ code 3 @ [0x44, 1] @ code 3 @ [0x26, 1]) = Some (s1, es1)"
    "nal_flush s1 = Some (s2, es2)" and es: "es1 @ es2 = [WriteVideo \<lparr>vt_time = 0, vt_codec = CODEC HEVC, vt_frame = FRAME_CONFIG, vt_composition = 0\<rparr> (nal_stream [[0x40, 1], [0x42, 1]]) 1,
        WriteVideo \<lparr>vt_time = 0, vt_codec = CODEC HEVC, vt_frame = frame_of_units HEVC [[0x26, 1]], vt_composition = 0\<rparr> (nal_stream [[0x26, 1]]) 1]"
    using hevc_pps_dropped[OF ok t] by blast
  have "length (es1 @ es2) = 2" unfolding es by simp
  with r show ?thesis by blast
qed

end
