(* ===== verification/TSWriter.thy ===== *)
theory TSWriter
  imports NAL ADTS Subscription
begin

text \<open>
  \<open>TSWriter\<close>: the packets of 188 bytes of MPEG-TS with their tables, the time reference of one program, the headers and the
  filling of the elementary streams of any audio and video tracks, and \<open>Crypto::ComputeCRC32\<close>.
  A result of none is a use of memory out of the bounds, or a loop that does not end.
\<close>

section \<open>The checksum\<close>

definition CRC32 :: "u32 list" where
  "CRC32 = [
     0x00000000, 0x04c11db7, 0x09823b6e, 0x0d4326d9, 0x130476dc, 0x17c56b6b, 0x1a864db2, 0x1e475005,
     0x2608edb8, 0x22c9f00f, 0x2f8ad6d6, 0x2b4bcb61, 0x350c9b64, 0x31cd86d3, 0x3c8ea00a, 0x384fbdbd,
     0x4c11db70, 0x48d0c6c7, 0x4593e01e, 0x4152fda9, 0x5f15adac, 0x5bd4b01b, 0x569796c2, 0x52568b75,
     0x6a1936c8, 0x6ed82b7f, 0x639b0da6, 0x675a1011, 0x791d4014, 0x7ddc5da3, 0x709f7b7a, 0x745e66cd,
     0x9823b6e0, 0x9ce2ab57, 0x91a18d8e, 0x95609039, 0x8b27c03c, 0x8fe6dd8b, 0x82a5fb52, 0x8664e6e5,
     0xbe2b5b58, 0xbaea46ef, 0xb7a96036, 0xb3687d81, 0xad2f2d84, 0xa9ee3033, 0xa4ad16ea, 0xa06c0b5d,
     0xd4326d90, 0xd0f37027, 0xddb056fe, 0xd9714b49, 0xc7361b4c, 0xc3f706fb, 0xceb42022, 0xca753d95,
     0xf23a8028, 0xf6fb9d9f, 0xfbb8bb46, 0xff79a6f1, 0xe13ef6f4, 0xe5ffeb43, 0xe8bccd9a, 0xec7dd02d,
     0x34867077, 0x30476dc0, 0x3d044b19, 0x39c556ae, 0x278206ab, 0x23431b1c, 0x2e003dc5, 0x2ac12072,
     0x128e9dcf, 0x164f8078, 0x1b0ca6a1, 0x1fcdbb16, 0x018aeb13, 0x054bf6a4, 0x0808d07d, 0x0cc9cdca,
     0x7897ab07, 0x7c56b6b0, 0x71159069, 0x75d48dde, 0x6b93dddb, 0x6f52c06c, 0x6211e6b5, 0x66d0fb02,
     0x5e9f46bf, 0x5a5e5b08, 0x571d7dd1, 0x53dc6066, 0x4d9b3063, 0x495a2dd4, 0x44190b0d, 0x40d816ba,
     0xaca5c697, 0xa864db20, 0xa527fdf9, 0xa1e6e04e, 0xbfa1b04b, 0xbb60adfc, 0xb6238b25, 0xb2e29692,
     0x8aad2b2f, 0x8e6c3698, 0x832f1041, 0x87ee0df6, 0x99a95df3, 0x9d684044, 0x902b669d, 0x94ea7b2a,
     0xe0b41de7, 0xe4750050, 0xe9362689, 0xedf73b3e, 0xf3b06b3b, 0xf771768c, 0xfa325055, 0xfef34de2,
     0xc6bcf05f, 0xc27dede8, 0xcf3ecb31, 0xcbffd686, 0xd5b88683, 0xd1799b34, 0xdc3abded, 0xd8fba05a,
     0x690ce0ee, 0x6dcdfd59, 0x608edb80, 0x644fc637, 0x7a089632, 0x7ec98b85, 0x738aad5c, 0x774bb0eb,
     0x4f040d56, 0x4bc510e1, 0x46863638, 0x42472b8f, 0x5c007b8a, 0x58c1663d, 0x558240e4, 0x51435d53,
     0x251d3b9e, 0x21dc2629, 0x2c9f00f0, 0x285e1d47, 0x36194d42, 0x32d850f5, 0x3f9b762c, 0x3b5a6b9b,
     0x0315d626, 0x07d4cb91, 0x0a97ed48, 0x0e56f0ff, 0x1011a0fa, 0x14d0bd4d, 0x19939b94, 0x1d528623,
     0xf12f560e, 0xf5ee4bb9, 0xf8ad6d60, 0xfc6c70d7, 0xe22b20d2, 0xe6ea3d65, 0xeba91bbc, 0xef68060b,
     0xd727bbb6, 0xd3e6a601, 0xdea580d8, 0xda649d6f, 0xc423cd6a, 0xc0e2d0dd, 0xcda1f604, 0xc960ebb3,
     0xbd3e8d7e, 0xb9ff90c9, 0xb4bcb610, 0xb07daba7, 0xae3afba2, 0xaafbe615, 0xa7b8c0cc, 0xa379dd7b,
     0x9b3660c6, 0x9ff77d71, 0x92b45ba8, 0x9675461f, 0x8832161a, 0x8cf30bad, 0x81b02d74, 0x857130c3,
     0x5d8a9099, 0x594b8d2e, 0x5408abf7, 0x50c9b640, 0x4e8ee645, 0x4a4ffbf2, 0x470cdd2b, 0x43cdc09c,
     0x7b827d21, 0x7f436096, 0x7200464f, 0x76c15bf8, 0x68860bfd, 0x6c47164a, 0x61043093, 0x65c52d24,
     0x119b4be9, 0x155a565e, 0x18197087, 0x1cd86d30, 0x029f3d35, 0x065e2082, 0x0b1d065b, 0x0fdc1bec,
     0x3793a651, 0x3352bbe6, 0x3e119d3f, 0x3ad08088, 0x2497d08d, 0x2056cd3a, 0x2d15ebe3, 0x29d4f654,
     0xc5a92679, 0xc1683bce, 0xcc2b1d17, 0xc8ea00a0, 0xd6ad50a5, 0xd26c4d12, 0xdf2f6bcb, 0xdbee767c,
     0xe3a1cbc1, 0xe760d676, 0xea23f0af, 0xeee2ed18, 0xf0a5bd1d, 0xf464a0aa, 0xf9278673, 0xfde69bc4,
     0x89b8fd09, 0x8d79e0be, 0x803ac667, 0x84fbdbd0, 0x9abc8bd5, 0x9e7d9662, 0x933eb0bb, 0x97ffad0c,
     0xafb010b1, 0xab710d06, 0xa6322bdf, 0xa2f33668, 0xbcb4666d, 0xb8757bda, 0xb5365d03, 0xb1f740b4]"

definition crc_step :: "u8 \<Rightarrow> u32 \<Rightarrow> u32" where
  "crc_step b crc = push_bit 8 crc XOR CRC32 ! unat (drop_bit 24 crc XOR ucast b)"

definition ComputeCRC32 :: "bytes \<Rightarrow> u32" where
  "ComputeCRC32 data = fold crc_step data 0xFFFFFFFF"

section \<open>The state\<close>

abbreviation FIRST_VIDEO_PID :: u16 where "FIRST_VIDEO_PID \<equiv> 33"
abbreviation FIRST_AUDIO_PID :: u16 where "FIRST_AUDIO_PID \<equiv> 256"
abbreviation PCR_OFFSET :: u32 where "PCR_OFFSET \<equiv> 200"

datatype track_writer =
    TwNone
  | TwADTS adts_writer
  | TwNAL video_type nal_writer

record ts_track =
  tt_codec :: u8
  tt_writer :: track_writer
  tt_langs :: "bytes list"

text \<open>A map by track is its content in the order of the keys; a counter that is not in \<open>_pids\<close> comes there as 0.\<close>

record ts_writer =
  ts_videos :: "(u8 \<times> ts_track) list"
  ts_audios :: "(u8 \<times> ts_track) list"
  ts_version :: u8
  ts_changed :: bool
  ts_timePMT :: u32
  ts_pids :: "u16 \<Rightarrow> u8"
  ts_pidPCR :: u16
  ts_firstPCR :: bool
  ts_timePCR :: u32
  ts_canWrite :: u8
  ts_toWrite :: u32

text \<open>The members that the constructor leaves unset are those of the argument.\<close>

definition new_ts_writer :: "ts_writer \<Rightarrow> ts_writer" where
  "new_ts_writer w = w\<lparr>ts_videos := [], ts_audios := [], ts_version := 0, ts_pids := (\<lambda>_. 0)\<rparr>"

definition ts_beginMedia :: "ts_writer \<Rightarrow> ts_writer" where
  "ts_beginMedia w =
     w\<lparr>ts_timePCR := 0, ts_toWrite := 0, ts_canWrite := 0, ts_firstPCR := True, ts_timePMT := 0, ts_changed := True\<rparr>"

definition ts_endMedia :: "ts_writer \<Rightarrow> ts_writer" where
  "ts_endMedia w = w\<lparr>ts_videos := [], ts_audios := []\<rparr>"

section \<open>The languages\<close>

text \<open>The property \<open>textLang\<close> of a track is given by the number written in front of it.\<close>

definition addLang :: "bytes option \<Rightarrow> bytes list \<Rightarrow> bool \<times> bytes list" where
  "addLang textLang langs =
     (case textLang of
        None \<Rightarrow> (False, langs)
      | Some l \<Rightarrow> let l = takeWhile (\<lambda>c. c \<noteq> 0) l in if length l < 3 then (False, langs) else (True, langs @ [l]))"

definition parseLang_audio :: "u8 \<Rightarrow> (nat \<Rightarrow> bytes option) \<Rightarrow> ts_track \<Rightarrow> bool \<times> ts_track" where
  "parseLang_audio track lang t = (let (changed, langs) = addLang (lang (unat track)) [] in (changed, t\<lparr>tt_langs := langs\<rparr>))"

definition parseLang_video :: "u8 \<Rightarrow> (nat \<Rightarrow> bytes option) \<Rightarrow> ts_track \<Rightarrow> bool \<times> ts_track" where
  "parseLang_video track lang t =
     (let (changed, langs) =
        fold (\<lambda>i (changed, langs). let (added, langs) = addLang (lang (unat track + i)) langs in (changed \<or> added, langs))
          [1..<5] (False, [])
      in (changed, t\<lparr>tt_langs := langs\<rparr>))"

definition ts_writeProperties :: "(nat \<Rightarrow> bytes option) \<Rightarrow> ts_writer \<Rightarrow> ts_writer" where
  "ts_writeProperties lang w =
     (let audios = map (\<lambda>(k, t). (k, parseLang_audio k lang t)) (ts_audios w);
          videos = map (\<lambda>(k, t). (k, parseLang_video k lang t)) (ts_videos w)
      in w\<lparr>ts_audios := map (\<lambda>(k, c, t). (k, t)) audios, ts_videos := map (\<lambda>(k, c, t). (k, t)) videos,
           ts_changed := (ts_changed w \<or> list_ex (\<lambda>(k, c, t). c) audios \<or> list_ex (\<lambda>(k, c, t). c) videos)\<rparr>)"

section \<open>The tables\<close>

definition video_pid :: "u8 \<Rightarrow> u16" where
  "video_pid track = FIRST_VIDEO_PID + ucast track"

definition audio_pid :: "u8 \<Rightarrow> u16" where
  "audio_pid track = FIRST_AUDIO_PID + ucast track"

text \<open>A counter of a packet, and the filling of a packet to its end.\<close>

definition ts_count :: "u16 \<Rightarrow> ts_writer \<Rightarrow> ts_writer" where
  "ts_count pid w = w\<lparr>ts_pids := (ts_pids w)(pid := ts_pids w pid + 1)\<rparr>"

definition ts_counter :: "u8 \<Rightarrow> u16 \<Rightarrow> ts_writer \<Rightarrow> u8" where
  "ts_counter flags pid w = flags OR ts_pids w pid mod 0x10"

definition ts_pad :: "bytes \<Rightarrow> bytes option" where
  "ts_pad b = (if length b \<le> 188 then Some (b @ replicate (188 - length b) 0xFF) else None)"

definition ts_table :: "bytes \<Rightarrow> bytes option" where
  "ts_table b = ts_pad (b @ net32 (ComputeCRC32 (drop 5 b)))"

definition ts_PAT :: "u8 \<Rightarrow> bytes" where
  "ts_PAT counter = [0x47, 0x60, 0x00, counter, 0x00, 0x00, 0xB0, 0x0D, 0x00, 0x01, 0xC1, 0x00, 0x00, 0x00, 0x01, 0xE0, 0x20]"

definition pmt_pcr :: "bool \<Rightarrow> u16 \<Rightarrow> bytes" where
  "pmt_pcr begins pid = (if begins then net16 (0xE000 OR pid) @ net16 0xF000 else [])"

definition pmt_video :: "u8 \<Rightarrow> ts_track \<Rightarrow> bytes" where
  "pmt_video k t =
     (let n = length (tt_langs t); esiSize = (if n = 0 then 0 else word_of_nat n * 6 + 3 :: u16)
      in [if tt_codec t = VIDEO_CODEC_HEVC then 0x24 else 0x1B] @ net16 (0xE000 OR video_pid k) @ net16 (0xF000 OR esiSize)
         @ (if esiSize = 0 then []
            else [0xE0 OR ucast (esiSize - 2)]
              @ concat (map (\<lambda>i. take 3 (tt_langs t ! i) @ [0xC0 OR (k * 4 + word_of_nat i)] @ net16 0x3FFF) [0..<n])))"

definition pmt_audio :: "u8 \<Rightarrow> ts_track \<Rightarrow> bytes" where
  "pmt_audio k t =
     (let esiSize = (if tt_langs t = [] then 0 else 6 :: u16)
      in [if tt_writer t \<noteq> TwNone then 0x0F else 0x03] @ net16 (0xE000 OR audio_pid k) @ net16 (0xF000 OR esiSize)
         @ (if esiSize \<noteq> 0 then [0x0A, 4] @ take 3 (hd (tt_langs t)) @ [0] else []))"

text \<open>The program of the time reference is the first one.\<close>

definition pmt_pidPCR :: "ts_writer \<Rightarrow> u16" where
  "pmt_pidPCR w =
     (case ts_videos w of
        (k, t) # _ \<Rightarrow> video_pid k
      | [] \<Rightarrow> (case ts_audios w of (k, t) # _ \<Rightarrow> audio_pid k | [] \<Rightarrow> 0))"

definition pmt_programs :: "ts_writer \<Rightarrow> bytes" where
  "pmt_programs w =
     pmt_pcr (ts_videos w \<noteq> [] \<or> ts_audios w \<noteq> []) (pmt_pidPCR w)
     @ concat (map (\<lambda>(k, t). pmt_video k t) (ts_videos w)) @ concat (map (\<lambda>(k, t). pmt_audio k t) (ts_audios w))"

definition ts_PMT :: "u8 \<Rightarrow> ts_writer \<Rightarrow> bytes" where
  "ts_PMT counter w =
     (let body = net16 1 @ [0xC1 OR push_bit 1 (ts_version w mod 32)] @ net16 0 @ pmt_programs w;
          len = 0xB000 OR ((word_of_nat (8 + length body) - 4) AND 0x3FF)
      in [0x47, 0x60, 0x20, counter] @ net16 2 @ net16 len @ body)"

definition writePMT :: "u32 \<Rightarrow> ts_writer \<Rightarrow> (bytes \<times> ts_writer) option" where
  "writePMT time w =
     (let w = (if ts_changed w then w\<lparr>ts_version := ts_version w + 1, ts_changed := False\<rparr> else w);
          PAT = ts_PAT (ts_counter 0x10 0 w);
          w = ts_count 0 w;
          PMT = ts_PMT (ts_counter 0x10 0x20 w) w;
          w = (ts_count 0x20 w)\<lparr>ts_pidPCR := pmt_pidPCR w, ts_timePMT := time\<rparr>
      in Option.bind (ts_table PAT) (\<lambda>PAT. map_option (\<lambda>PMT. (PAT @ PMT, w)) (ts_table PMT)))"

section \<open>The packets of an elementary stream\<close>

text \<open>A field of \<open>fillSize\<close> bytes in all, not 0, with the time reference when it is that of the program.\<close>

definition writeAdaptiveHeader :: "u16 \<Rightarrow> u32 \<Rightarrow> bool \<Rightarrow> u8 \<Rightarrow> ts_writer \<Rightarrow> bytes \<times> ts_writer" where
  "writeAdaptiveHeader pid time randomAccess fillSize w =
     (let fillSize = fillSize - 1;
          pcr = ucast (time * 90) :: u64;
          timed = (fillSize \<ge> 7 \<and> pid = ts_pidPCR w \<and> time > ts_timePCR w);
          b = [fillSize] @ (if timed then [if randomAccess then 0x50 else 0x10] @ net32 (ucast (drop_bit 1 pcr)) @ net16 (push_bit 15 (ucast (pcr AND 1)))
                            else if fillSize \<noteq> 0 then [0] else []);
          w = (if timed then w\<lparr>ts_timePCR := time, ts_firstPCR := False\<rparr> else w)
      in (b @ replicate (unat (fillSize + 1) - length b) 0xFF, w))"

text \<open>A packet behind the first one of the unit, and how much of it is free.\<close>

definition writePES_next :: "u16 \<Rightarrow> u32 \<Rightarrow> bool \<Rightarrow> u32 \<Rightarrow> ts_writer \<Rightarrow> bytes \<times> u8 \<times> ts_writer" where
  "writePES_next pid time randomAccess sz w =
     (if sz \<ge> 184 then ([0x47] @ net16 pid @ [ts_counter 0x10 pid w], 184, ts_count pid w)
      else let (field, w') = writeAdaptiveHeader pid time randomAccess (184 - ucast sz) (ts_count pid w)
           in ([0x47] @ net16 pid @ [ts_counter 0x30 pid w] @ field, ucast sz, w'))"

definition ts_stamp :: "u64 \<Rightarrow> bytes" where
  "ts_stamp t =
     [ucast (drop_bit 29 t AND 0x0E OR 0x21)] @ net16 (ucast (drop_bit 14 t AND 0xFFFE OR 1)) @ net16 (ucast (push_bit 1 t AND 0xFFFE OR 1))"

text \<open>The header of a unit with no, one or two times; a size of 0 is a packet for the time reference alone.\<close>

definition pes_times :: "u32 \<Rightarrow> u16 \<Rightarrow> u32 \<Rightarrow> u8 \<times> u8 \<times> u64 \<times> u64" where
  "pes_times time compositionOffset sz =
     (if sz = 0 then (0, 0, 0, 0)
      else let t = ucast ((time + PCR_OFFSET) * 90)
           in if compositionOffset \<noteq> 0 then (0xC0, 10, 90 * ucast compositionOffset + t, t) else (0x80, 5, t, 0))"

definition pes_header :: "u16 \<Rightarrow> u32 \<Rightarrow> u16 \<Rightarrow> u32 \<Rightarrow> bytes" where
  "pes_header pid time compositionOffset sz =
     (let (flags, len, pts, dts) = pes_times time compositionOffset sz; total = sz + (3 + ucast len)
      in net32 (if sz = 0 then 0x1FF else if pid < FIRST_AUDIO_PID then 0x1E0 else 0x1C0)
         @ net16 (if total > 0xFFFF then 0 else ucast total) @ [0x80, flags, len]
         @ (if pts \<noteq> 0 then ts_stamp pts else []) @ (if dts \<noteq> 0 then ts_stamp dts else []))"

definition pes_fill :: "u16 \<Rightarrow> u32 \<Rightarrow> u8" where
  "pes_fill compositionOffset sz =
     (let fillSize = 175 - (if sz = 0 then 0 else if compositionOffset \<noteq> 0 then 10 else 5) :: u8
      in if sz \<ge> ucast fillSize then 0 else fillSize - ucast sz)"

definition pes_packet :: "u16 \<Rightarrow> u32 \<Rightarrow> u16 \<Rightarrow> bool \<Rightarrow> u32 \<Rightarrow> u8 \<Rightarrow> ts_writer \<Rightarrow> bytes \<times> u8 \<times> ts_writer" where
  "pes_packet pid time compositionOffset randomAccess sz fillSize w =
     (let (field, w') = (if fillSize \<noteq> 0 then writeAdaptiveHeader pid time randomAccess fillSize (ts_count pid w) else ([], ts_count pid w));
          b = [0x47] @ net16 (0x4000 OR pid) @ [ts_counter (if fillSize \<noteq> 0 then 0x30 else 0x10) pid w] @ field
              @ pes_header pid time compositionOffset sz
      in (b, 188 - word_of_nat (length b), w'))"

definition pes_tables :: "u32 \<Rightarrow> ts_writer \<Rightarrow> (bytes \<times> ts_writer) option" where
  "pes_tables time w = (if ts_changed w \<or> distance (ts_timePMT w) time \<ge> 1000 then writePMT time w else Some ([], w))"

text \<open>The call of itself with the size 0, filled to its end.\<close>

definition writePES_PCR :: "u32 \<Rightarrow> u16 \<Rightarrow> ts_writer \<Rightarrow> (bytes \<times> ts_writer) option" where
  "writePES_PCR time compositionOffset w =
     Option.bind (pes_tables time w) (\<lambda>(tables, w).
       let (b, free, w) = pes_packet (ts_pidPCR w) time compositionOffset False 0 (pes_fill compositionOffset 0) w
       in if free \<le> 188 then Some (tables @ b @ replicate (unat free) 0xFF, w) else None)"

definition writePES :: "u16 \<Rightarrow> u32 \<Rightarrow> u16 \<Rightarrow> bool \<Rightarrow> u32 \<Rightarrow> ts_writer \<Rightarrow> (bytes \<times> u8 \<times> ts_writer) option" where
  "writePES pid time compositionOffset randomAccess sz w =
     Option.bind (pes_tables time w) (\<lambda>(tables, w).
       let fillSize = pes_fill compositionOffset sz;
           delta = sint (time - ts_timePCR w);
           due = (fillSize < 8 \<and> (ts_firstPCR w \<or> delta \<ge> 100));
           fillSize = (if due \<and> pid = ts_pidPCR w then 8 else fillSize)
       in map_option (\<lambda>(pcr, w).
            let (b, free, w) = pes_packet pid time compositionOffset randomAccess sz fillSize w in (tables @ pcr @ b, free, w))
          (if due \<and> pid \<noteq> ts_pidPCR w \<and> delta \<ge> 500 then writePES_PCR time compositionOffset w else Some ([], w)))"

section \<open>Elementary streams\<close>

partial_function (option) writeES ::
  "u16 \<Rightarrow> u32 \<Rightarrow> u16 \<Rightarrow> u32 \<Rightarrow> bool \<Rightarrow> bytes \<Rightarrow> ts_writer \<Rightarrow> (bytes \<times> ts_writer) option" where
  "writeES pid time compositionOffset esSize randomAccess playload w =
     (if playload = [] then Some ([], w)
      else
        Option.bind
          (if ts_toWrite w = 0 then
             map_option (\<lambda>(b, free, w). (replicate (unat (ts_canWrite w)) 0xFF @ b, w\<lparr>ts_canWrite := free\<rparr>))
               (writePES pid time compositionOffset randomAccess esSize (w\<lparr>ts_toWrite := esSize\<rparr>))
           else if ts_canWrite w = 0 then
             (let (b, free, w) = writePES_next pid time randomAccess (ts_toWrite w) w in Some (b, w\<lparr>ts_canWrite := free\<rparr>))
           else Some ([], w))
          (\<lambda>(head, w).
             let n = min (length playload) (unat (ts_canWrite w));
                 w = w\<lparr>ts_canWrite := ts_canWrite w - word_of_nat n,
                       ts_toWrite := (if n > unat (ts_toWrite w) then 0 else ts_toWrite w - word_of_nat n)\<rparr>
             in Option.bind (writeES pid time compositionOffset esSize randomAccess (drop n playload) w)
                  (\<lambda>(b, w). Some (head @ take n playload @ b, w))))"

declare writeES.simps [code]

text \<open>The packets that the writer of a track gives, one call each.\<close>

fun writeESs ::
  "u16 \<Rightarrow> u32 \<Rightarrow> u16 \<Rightarrow> u32 \<Rightarrow> bool \<Rightarrow> bytes list \<Rightarrow> ts_writer \<Rightarrow> (bytes \<times> ts_writer) option" where
  "writeESs pid time compositionOffset esSize randomAccess [] w = Some ([], w)"
| "writeESs pid time compositionOffset esSize randomAccess (p # ps) w =
     Option.bind (writeES pid time compositionOffset esSize randomAccess p w) (\<lambda>(b, w).
       map_option (\<lambda>(b', w). (b @ b', w)) (writeESs pid time compositionOffset esSize randomAccess ps w))"

section \<open>Medias\<close>

definition ts_set :: "u8 \<Rightarrow> ts_track \<Rightarrow> (u8 \<times> ts_track) list \<Rightarrow> (u8 \<times> ts_track) list" where
  "ts_set k t m = map (\<lambda>(k', t'). (k', if k' = k then t else t')) m"

definition ts_index :: "u8 \<Rightarrow> u8" where
  "ts_index track = (if track \<noteq> 0 then track - 1 else track)"

definition ts_out :: "bytes \<times> ts_writer \<Rightarrow> bytes list \<times> ts_writer" where
  "ts_out r = (let (b, w) = r in (if b \<noteq> [] then [b] else [], w))"

text \<open>The track of an audio, added or changed; \<open>adts\<close> is a new \<open>ADTSWriter\<close>.\<close>

definition ts_audio_track :: "adts_writer \<Rightarrow> u8 \<Rightarrow> u8 \<Rightarrow> ts_writer \<Rightarrow> (ts_track \<times> ts_writer) option" where
  "ts_audio_track adts k codecId w =
     (let aac = TwADTS (adts_beginMedia adts)
      in case map_of (ts_audios w) k of
           None \<Rightarrow>
             if codecId \<noteq> AUDIO_CODEC_AAC \<and> codecId \<noteq> AUDIO_CODEC_MP3 then None
             else if length (ts_videos w) + length (ts_audios w) = 33 then None
             else let t = \<lparr>tt_codec = codecId, tt_writer = (if codecId = AUDIO_CODEC_AAC then aac else TwNone), tt_langs = []\<rparr>
                  in Some (t, w\<lparr>ts_audios := insort_key fst (k, t) (ts_audios w), ts_changed := True\<rparr>)
         | Some t \<Rightarrow>
             if codecId = AUDIO_CODEC_AAC then
               (if tt_writer t = TwNone
                then let t = t\<lparr>tt_writer := aac\<rparr> in Some (t, w\<lparr>ts_audios := ts_set k t (ts_audios w), ts_changed := True\<rparr>)
                else Some (t, w))
             else if tt_writer t \<noteq> TwNone
             then let t = t\<lparr>tt_writer := TwNone\<rparr> in Some (t, w\<lparr>ts_audios := ts_set k t (ts_audios w), ts_changed := True\<rparr>)
             else Some (t, w))"

definition ts_writeAudio :: "adts_writer \<Rightarrow> u8 \<Rightarrow> audio_tag \<Rightarrow> bytes \<Rightarrow> ts_writer \<Rightarrow> (bytes list \<times> ts_writer) option" where
  "ts_writeAudio adts track tag packet w =
     (let k = ts_index track
      in case ts_audio_track adts k (at_codec tag) w of
           None \<Rightarrow> Some ([], w)
         | Some (t, w) \<Rightarrow>
             (case tt_writer t of
                TwADTS a \<Rightarrow>
                  let (a, out) = adts_writeAudio tag packet a; w = w\<lparr>ts_audios := ts_set k (t\<lparr>tt_writer := TwADTS a\<rparr>) (ts_audios w)\<rparr>
                  in map_option ts_out (writeESs (audio_pid k) (at_time tag) 0 (word_of_nat (length packet + 7)) True out w)
              | _ \<Rightarrow> map_option ts_out (writeESs (audio_pid k) (at_time tag) 0 (word_of_nat (length packet)) True [packet] w)))"

definition ts_video_track :: "u8 \<Rightarrow> u8 \<Rightarrow> ts_writer \<Rightarrow> (ts_track \<times> ts_writer) option" where
  "ts_video_track k codecId w =
     (case map_of (ts_videos w) k of
        None \<Rightarrow>
          if codecId \<noteq> VIDEO_CODEC_H264 \<and> codecId \<noteq> VIDEO_CODEC_HEVC then None
          else if length (ts_videos w) + length (ts_audios w) = 33 then None
          else let t = \<lparr>tt_codec = codecId, tt_writer = TwNAL (if codecId = VIDEO_CODEC_H264 then AVC else HEVC) nal_beginMedia, tt_langs = []\<rparr>
               in Some (t, w\<lparr>ts_videos := insort_key fst (k, t) (ts_videos w), ts_changed := True\<rparr>)
      | Some t \<Rightarrow> Some (t, w))"

definition ts_writeVideo :: "u8 \<Rightarrow> video_tag \<Rightarrow> bytes \<Rightarrow> ts_writer \<Rightarrow> (bytes list \<times> ts_writer) option" where
  "ts_writeVideo track tag packet w =
     (let k = ts_index track
      in case ts_video_track k (vt_codec tag) w of
           None \<Rightarrow> Some ([], w)
         | Some (t, w) \<Rightarrow>
             (case tt_writer t of
                TwNAL v n \<Rightarrow>
                  Option.bind (nal_writeVideo v n tag packet 0) (\<lambda>(n, out, finalSize).
                    map_option ts_out
                      (writeESs (video_pid k) (vt_time tag) (vt_composition tag) finalSize (vt_frame tag = FRAME_KEY) out
                        (w\<lparr>ts_videos := ts_set k (t\<lparr>tt_writer := TwNAL v n\<rparr>) (ts_videos w)\<rparr>)))
              | _ \<Rightarrow> None))"

datatype ts_op =
    TsProperties "nat \<Rightarrow> bytes option"
  | TsAudio u8 audio_tag bytes
  | TsVideo u8 video_tag bytes

fun ts_step :: "adts_writer \<Rightarrow> ts_op \<Rightarrow> ts_writer \<Rightarrow> (bytes list \<times> ts_writer) option" where
  "ts_step adts (TsProperties lang) w = Some ([], ts_writeProperties lang w)"
| "ts_step adts (TsAudio track tag packet) w = ts_writeAudio adts track tag packet w"
| "ts_step adts (TsVideo track tag packet) w = ts_writeVideo track tag packet w"

fun ts_run :: "adts_writer \<Rightarrow> ts_op list \<Rightarrow> ts_writer \<Rightarrow> (bytes list \<times> ts_writer) option" where
  "ts_run adts [] w = Some ([], w)"
| "ts_run adts (x # xs) w =
     Option.bind (ts_step adts x w) (\<lambda>(out, w). map_option (\<lambda>(out', w). (out @ out', w)) (ts_run adts xs w))"

end
