(* ===== verification/TSReader.thy ===== *)
theory TSReader
  imports Media "HOL-Library.AList"
begin

text \<open>
  \<open>TSReader\<close>: the packets of MPEG-TS read, with the tables of programs, the languages, losses, and the times and bytes
  given to the reader of each track.  A time is a number of ticks of 90 kHz: the code has it in milliseconds as a
  \<open>double\<close>, whose roundings agree with those written here but for a difference of two times just between two
  milliseconds, which \<open>tie\<close> decides.
\<close>

section \<open>The state\<close>

datatype program_type = PtNone | PtVideo | PtAudio

datatype track_reader = TrNone | TrAVC | TrHEVC | TrADTS | TrMP3

record ts_program =
  tp_type :: program_type
  tp_waitHeader :: bool
  tp_sequence :: u8
  tp_reader :: track_reader
  tp_track :: u8
  tp_time :: u32
  tp_composition :: u16

definition new_program :: ts_program where
  "new_program =
     \<lparr>tp_type = PtNone, tp_waitHeader = True, tp_sequence = 0xFF, tp_reader = TrNone, tp_track = 1, tp_time = 0, tp_composition = 0\<rparr>"

text \<open>A property is the number in front of \<open>audioLang\<close> or of \<open>textLang\<close>.\<close>

record ts_reader =
  tr_programs :: "(u16 \<times> ts_program) list"
  tr_properties :: "((int \<times> bool) \<times> bytes) list"
  tr_propChanged :: bool
  tr_audioTrack :: u8
  tr_videoTrack :: u8
  tr_pmts :: "(u16 \<times> u8) list"
  tr_crcPAT :: u32
  tr_syncFound :: bool
  tr_syncError :: bool
  tr_startTime :: "int option"

definition new_ts_reader :: ts_reader where
  "new_ts_reader =
     \<lparr>tr_programs = [], tr_properties = [], tr_propChanged = False, tr_audioTrack = 0, tr_videoTrack = 0, tr_pmts = [], tr_crcPAT = 0,
      tr_syncFound = False, tr_syncError = False, tr_startTime = None\<rparr>"

text \<open>The calls on the reader of a track, by its program, and on the source.\<close>

datatype ts_call =
    TsRead u16 track_reader u8 u32 u16 bytes
  | TsFlush u16 track_reader
  | TsLost program_type u32 u8
  | TsProps "((int \<times> bool) \<times> bytes) list"
  | TsReset
  | TsSourceFlush

definition tr_put :: "u16 \<Rightarrow> ts_program \<Rightarrow> ts_reader \<Rightarrow> ts_reader" where
  "tr_put pid p s =
     s\<lparr>tr_programs := insort_key fst (pid, p) (filter (\<lambda>(k, _). k \<noteq> pid) (tr_programs s))\<rparr>"

definition flushed :: "ts_program \<Rightarrow> ts_program" where
  "flushed p = p\<lparr>tp_time := 0, tp_composition := 0\<rparr>"

definition program_flushes :: "ts_reader \<Rightarrow> ts_call list" where
  "program_flushes s =
     concat (map (\<lambda>(pid, p). if tp_reader p \<noteq> TrNone then [TsFlush pid (tp_reader p)] else []) (tr_programs s))"

section \<open>The tables\<close>

definition tr_setString :: "int \<times> bool \<Rightarrow> bytes \<Rightarrow> ts_reader \<Rightarrow> ts_reader" where
  "tr_setString key value s =
     (if map_of (tr_properties s) key = Some value then s
      else s\<lparr>tr_properties := AList.update key value (tr_properties s), tr_propChanged := True\<rparr>)"

fun pmt_pids :: "nat \<Rightarrow> breader \<Rightarrow> (u16 \<times> u8) list \<Rightarrow> (u16 \<times> u8) list \<times> breader" where
  "pmt_pids 0 r pmts = (pmts, r)"
| "pmt_pids (Suc n) r pmts =
     (if br_available r > 4 then
        (let r = snd (br_next 2 r); (v, r) = br_read16 r; pid = v AND 0x1FFF
         in pmt_pids n r (if pid \<in> fst ` set pmts then pmts else insort_key fst (pid, 0xFF) pmts))
      else (pmts, r))"

definition parsePAT :: "bytes \<Rightarrow> ts_reader \<Rightarrow> ts_reader \<times> ts_call list" where
  "parsePAT data s =
     (let r = net_reader data;
          (skip, r) = br_read8 r; r = snd (br_next (unat skip) r);
          (table, r) = br_read8 r
      in if table \<noteq> 0 then (s, [])
         else
           let (v, r) = br_read16 r; r = snd (br_shrink (unat (v AND 0x03FF)) r);
               r = snd (br_next 5 r);
               (pmts, r) = pmt_pids (br_available r) r [];
               (crc, r) = br_read32 r
           in if tr_crcPAT s = crc then (s, [])
              else
                let (s, es) = (if tr_crcPAT s = 0 then (s, [])
                               else (s\<lparr>tr_programs := [], tr_properties := [], tr_propChanged := False, tr_startTime := None,
                                       tr_audioTrack := 0, tr_videoTrack := 0\<rparr>,
                                     program_flushes s @ [TsReset]))
                in (s\<lparr>tr_pmts := pmts, tr_crcPAT := crc\<rparr>, es))"

text \<open>The languages of a program.\<close>

fun esi_channels :: "nat \<Rightarrow> u8 \<Rightarrow> breader \<Rightarrow> ts_reader \<Rightarrow> ts_reader" where
  "esi_channels 0 track r s = s"
| "esi_channels (Suc count) track r s =
     (let lang = br_rest r; (n, r) = br_next 3 r; (channel, r) = br_read8 r; c = channel AND 0x3F;
          s = (if channel AND 0x80 \<noteq> 0 \<and> c \<noteq> 0 \<and> c < 5
               then tr_setString ((uint track - 1) * 4 + uint c, False) (take n lang) s else s)
      in esi_channels count track (snd (br_next 2 r)) s)"

definition esi_descriptor :: "u8 \<Rightarrow> u8 \<Rightarrow> bytes \<Rightarrow> ts_reader \<Rightarrow> ts_reader" where
  "esi_descriptor track type data s =
     (if type = 0x0A then
        (let lang = dropWhile (\<lambda>c. c = 0) (take 3 data) in if lang \<noteq> [] then tr_setString (uint track, True) lang s else s)
      else if type = 0x86 then
        (let (count, desc) = br_read8 (net_reader data) in esi_channels (unat (count AND 0x1F)) track desc s)
      else s)"

text \<open>The loop of \<open>readESI\<close>: its count is of 16 bits and goes below 0; every turn reads a byte.\<close>

fun esi_loop :: "nat \<Rightarrow> u8 \<Rightarrow> u16 \<Rightarrow> breader \<Rightarrow> ts_reader \<Rightarrow> breader \<times> ts_reader" where
  "esi_loop 0 track available r s = (r, s)"
| "esi_loop (Suc n) track available r s =
     (if available = 0 \<or> br_available r = 0 then (r, s)
      else
        let available = available - 1; (type, r) = br_read8 r
        in if type = 0xFF then esi_loop n track available r s
           else if available = 0 then esi_loop n track (available - 1) r s
           else
             let available = available - 1; (sz, r) = br_read8 r; data = br_rest r; (m, r) = br_next (unat sz) r
             in esi_loop n track (available - word_of_nat m) r (esi_descriptor track type (take m data) s))"

definition readESI :: "u8 \<Rightarrow> breader \<Rightarrow> ts_reader \<Rightarrow> breader \<times> ts_reader" where
  "readESI track r s = (let (v, r) = br_read16 r in esi_loop (br_available r) track (v AND 0x0FFF) r s)"

definition program_kind :: "u8 \<Rightarrow> (program_type \<times> track_reader) option" where
  "program_kind value =
     (if value = 0x1B then Some (PtVideo, TrAVC) else if value = 0x24 then Some (PtVideo, TrHEVC)
      else if value = 0x0F then Some (PtAudio, TrADTS) else if value = 0x03 \<or> value = 0x04 then Some (PtAudio, TrMP3) else None)"

text \<open>\<open>Program::set\<close> and \<open>Program::reset\<close>: a new reader has the track 1.\<close>

definition program_flush :: "u16 \<Rightarrow> ts_program \<Rightarrow> ts_call list" where
  "program_flush pid p = (if tp_reader p \<noteq> TrNone then [TsFlush pid (tp_reader p)] else [])"

definition program_set :: "u16 \<Rightarrow> program_type \<Rightarrow> track_reader \<Rightarrow> ts_program \<Rightarrow> ts_program \<times> ts_call list" where
  "program_set pid type reader p =
     (if tp_reader p = reader then (p, [])
      else (p\<lparr>tp_type := type, tp_reader := reader, tp_track := 1, tp_time := 0, tp_composition := 0\<rparr>, program_flush pid p))"

definition program_reset :: "u16 \<Rightarrow> ts_program \<Rightarrow> ts_program \<times> ts_call list" where
  "program_reset pid p = (p\<lparr>tp_reader := TrNone\<rparr>, program_flush pid p)"

definition program_at :: "u16 \<Rightarrow> ts_reader \<Rightarrow> ts_program" where
  "program_at pid s = (case map_of (tr_programs s) pid of None \<Rightarrow> new_program | Some p \<Rightarrow> p)"

fun pmt_loop :: "nat \<Rightarrow> breader \<Rightarrow> ts_reader \<Rightarrow> ts_reader \<times> ts_call list" where
  "pmt_loop 0 r s = (s, [])"
| "pmt_loop (Suc n) r s =
     (if br_available r > 4 then
        (let (value, r) = br_read8 r; (v, r) = br_read16 r; pid = v AND 0x1FFF; p = program_at pid s
         in case program_kind value of
              None \<Rightarrow>
                let (p, es) = program_reset pid p; (v, r) = br_read16 r;
                    (s, es') = pmt_loop n (snd (br_next (unat (v AND 0x0FFF)) r)) (tr_put pid p s)
                in (s, es @ es')
            | Some (type, reader) \<Rightarrow>
                let old = tp_type p;
                    (p, es) = program_set pid type reader p;
                    s = (if old \<noteq> type \<and> type = PtAudio then s\<lparr>tr_audioTrack := tr_audioTrack s + 1\<rparr>
                         else if old \<noteq> type then s\<lparr>tr_videoTrack := tr_videoTrack s + 1\<rparr> else s);
                    p = (if old \<noteq> type then p\<lparr>tp_track := (if type = PtAudio then tr_audioTrack s else tr_videoTrack s)\<rparr> else p);
                    (r, s) = readESI (tp_track p) r (tr_put pid p s);
                    (s, es') = pmt_loop n r s
                in (s, es @ es'))
      else (s, []))"

definition parsePMT :: "u16 \<Rightarrow> u8 \<Rightarrow> bytes \<Rightarrow> ts_reader \<Rightarrow> ts_reader \<times> ts_call list" where
  "parsePMT pid version data s =
     (let r = net_reader data; (v, r) = br_read16 r; r = snd (br_shrink (unat (v AND 0x03FF)) r)
      in if br_available r < 9 then (s, [])
         else
           let r = snd (br_next 2 r); (b, r) = br_read8 r; value = drop_bit 1 b AND 0x1F; r = snd (br_next 2 r)
           in if value = version then (s, [])
              else
                let s = s\<lparr>tr_pmts := map (\<lambda>(k, x). (k, if k = pid then value else x)) (tr_pmts s)\<rparr>;
                    r = snd (br_next 2 r); (v, r) = br_read16 r; r = snd (br_next (unat (v AND 0x0FFF)) r);
                    (s, es) = pmt_loop (br_available r) r s
                in if tr_propChanged s then (s\<lparr>tr_propChanged := False\<rparr>, es @ [TsProps (tr_properties s)]) else (s, es))"

fun parsePSI :: "u16 \<Rightarrow> u8 \<Rightarrow> bytes \<Rightarrow> ts_reader \<Rightarrow> ts_reader \<times> ts_call list" where
  "parsePSI pid version [] s = (s, [])"
| "parsePSI pid version (skip # data) s =
     (if unat skip \<ge> length data then (s, [])
      else let data = drop (unat skip) data in if hd data = 0x02 then parsePMT pid version (tl data) s else (s, []))"

section \<open>The header of a unit\<close>

definition read_stamp :: "breader \<Rightarrow> u64 \<times> breader" where
  "read_stamp r =
     (let (a, r) = br_read8 r; (b, r) = br_read16 r; (c, r) = br_read16 r
      in (push_bit 29 (ucast a AND 0x0E) OR push_bit 14 (ucast b AND 0xFFFE) OR drop_bit 1 (ucast c AND 0xFFFE), r))"

definition stamp_round :: "int \<Rightarrow> int" where
  "stamp_round ticks = (ticks + 45) div 90"

definition stamp_difference :: "(int \<Rightarrow> int \<Rightarrow> bool) \<Rightarrow> int \<Rightarrow> int \<Rightarrow> int" where
  "stamp_difference tie pts dts = (pts - dts + 44) div 90 + (if (pts - dts) mod 90 = 45 \<and> tie pts dts then 1 else 0)"

definition program_stamp ::
  "(int \<Rightarrow> int \<Rightarrow> bool) \<Rightarrow> int \<Rightarrow> int \<Rightarrow> ts_program \<Rightarrow> ts_reader \<Rightarrow> ts_program \<times> ts_reader" where
  "program_stamp tie pts dts p s =
     (let start = (case tr_startTime s of None \<Rightarrow> dts - min 18000 dts | Some t \<Rightarrow> if t > dts then dts else t)
      in (p\<lparr>tp_time := word_of_int (max 0 (stamp_round dts * 90 - start) div 90),
           tp_composition := word_of_int (stamp_difference tie pts dts)\<rparr>,
          s\<lparr>tr_startTime := Some start\<rparr>))"

definition readPESHeader ::
  "(int \<Rightarrow> int \<Rightarrow> bool) \<Rightarrow> breader \<Rightarrow> ts_program \<Rightarrow> ts_reader \<Rightarrow> breader \<times> ts_program \<times> ts_reader" where
  "readPESHeader tie r p s =
     (let (value, r) = br_read32 r
      in if value AND 0xFFC0 \<noteq> 0x1C0 then (r, p, s)
         else
           let p = p\<lparr>tp_waitHeader := False\<rparr>; r = snd (br_next 3 r);
               (b, r) = br_read8 r; flags = drop_bit 6 (b AND 0xC0); (len, r) = br_read8 r
           in if flags AND 0x02 = 0 then (snd (br_next (unat len) r), p, s)
              else
                let (pts, r) = read_stamp r; len = len - 5;
                    (dts, len, r) = (if flags = 0x03 then let (dts, r) = read_stamp r in (dts, len - 5, r) else (pts, len, r));
                    dts = (if pts < dts then pts else dts);
                    (p, s) = program_stamp tie (uint pts) (uint dts) p s
                in (snd (br_next (unat len) r), p, s))"

section \<open>Packets\<close>

text \<open>The adaptation field, passed over.\<close>

definition ts_adaptation :: "breader \<Rightarrow> breader" where
  "ts_adaptation r =
     (let (len, r) = br_read8 r
      in if len \<ge> 7 then
           let (b, r) = br_read8 r; (n, r) = (if b AND 0x10 \<noteq> 0 then br_next 6 r else (0, r))
           in snd (br_next (unat (len - word_of_nat n - 1)) r)
         else snd (br_next (unat len) r))"

definition program_packet ::
  "(int \<Rightarrow> int \<Rightarrow> bool) \<Rightarrow> u16 \<Rightarrow> bool \<Rightarrow> bool \<Rightarrow> u8 \<Rightarrow> breader \<Rightarrow> ts_program \<Rightarrow> ts_reader \<Rightarrow> ts_reader \<times> ts_call list" where
  "program_packet tie pid hasHeader hasContent sequence r p s =
     (let lost = ucast sequence - ucast (tp_sequence p) - (if hasContent then 1 else 0) :: u32;
          lost = (lost AND 0x0F) * 184;
          (p, es) =
            (if lost \<noteq> 0 then
               ((if tp_waitHeader p then p else flushed (p\<lparr>tp_waitHeader := True\<rparr>)),
                (if tp_waitHeader p then [] else [TsFlush pid (tp_reader p)])
                @ (if tp_sequence p \<noteq> 0xFF then [TsLost (tp_type p) lost (tp_track p)] else []))
             else (p, []));
          p = p\<lparr>tp_sequence := sequence\<rparr>;
          (r, p, s) = (if hasHeader then readPESHeader tie r p s else (r, p, s));
          s = tr_put pid p s
      in (s, es @ (if hasContent \<and> \<not> tp_waitHeader p
                   then [TsRead pid (tp_reader p) (tp_track p) (tp_time p) (tp_composition p) (br_rest r)] else [])))"

text \<open>The 187 bytes behind \<open>0x47\<close>.\<close>

definition ts_packet :: "(int \<Rightarrow> int \<Rightarrow> bool) \<Rightarrow> bytes \<Rightarrow> ts_reader \<Rightarrow> ts_reader \<times> ts_call list" where
  "ts_packet tie data s =
     (let (b, r) = br_read8 (net_reader data); hasHeader = (b AND 0x40 \<noteq> 0); (c, r) = br_read8 r;
          pid = push_bit 8 (ucast (b AND 0x1F)) OR ucast c;
          (b, r) = br_read8 r; hasContent = (b AND 0x10 \<noteq> 0);
          r = (if b AND 0x20 \<noteq> 0 then ts_adaptation r else r)
      in if pid = 0 then (if hasHeader \<and> hasContent then parsePAT (br_rest r) s else (s, []))
         else if pid = 0x1FFF then (s, [])
         else case map_of (tr_programs s) pid of
                None \<Rightarrow>
                  (if \<not> hasHeader \<or> \<not> hasContent then (s, [])
                   else case map_of (tr_pmts s) pid of None \<Rightarrow> (s, []) | Some version \<Rightarrow> parsePSI pid version (br_rest r) s)
              | Some p \<Rightarrow>
                  if tp_reader p = TrNone then (s, [])
                  else program_packet tie pid hasHeader hasContent (b AND 0x0F) r p s)"

fun ts_sync :: "bytes \<Rightarrow> bytes option" where
  "ts_sync [] = None"
| "ts_sync (c # cs) = (if c = 0x47 then Some cs else ts_sync cs)"

lemma ts_sync_shorter: "ts_sync b = Some c \<Longrightarrow> length c < length b"
  by (induction b) (auto split: if_splits)

text \<open>\<open>parse\<close>, and what it leaves for the next time.\<close>

function ts_parse :: "(int \<Rightarrow> int \<Rightarrow> bool) \<Rightarrow> bytes \<Rightarrow> ts_reader \<Rightarrow> ts_reader \<times> ts_call list \<times> bytes" where
  "ts_parse tie b s =
     (case (if tr_syncFound s then Some b else ts_sync b) of
        None \<Rightarrow> (s\<lparr>tr_syncError := True\<rparr>, [], [])
      | Some c \<Rightarrow>
          let s = (if tr_syncFound s then s else s\<lparr>tr_syncFound := True, tr_syncError := False\<rparr>)
          in if length c < 187 then (s, [], c)
             else
               let (s, es) = ts_packet tie (take 187 c) (s\<lparr>tr_syncFound := False\<rparr>)
               in if drop 187 c = [] then (s, es, [])
                  else let (s, es', rest) = ts_parse tie (drop 187 c) s in (s, es @ es', rest))"
  by pat_completeness auto

termination
  by (relation "measure (\<lambda>(tie, b, s). length b)") (auto dest: ts_sync_shorter split: if_splits)

declare ts_parse.simps [simp del]

definition ts_onFlush :: "ts_reader \<Rightarrow> ts_reader \<times> ts_call list" where
  "ts_onFlush s = (new_ts_reader, program_flushes s @ [TsReset, TsSourceFlush])"

end
