(* ===== verification/TSTrip.thy ===== *)
theory TSTrip
  imports TSWriter TSReader
begin

text \<open>
  What \<open>TSWriter\<close> writes, \<open>TSReader\<close> reads: the packets one after another, and the bytes and times of each program.
\<close>

section \<open>A reader and what is left of it\<close>

declare br_adv_adv [simp del]

definition rests :: "breader \<Rightarrow> bytes \<Rightarrow> bool" where
  "rests r xs \<longleftrightarrow> br_net r \<and> br_rest r = xs"

lemma rests_reader: "rests (net_reader xs) xs"
  by (simp add: rests_def)

lemma rests_adv: "rests r (ys @ xs) \<Longrightarrow> length ys = n \<Longrightarrow> rests (br_adv n r) xs"
  by (auto simp: rests_def intro: br_wf_adv)

lemma rests_read8: "rests r (a # xs) \<Longrightarrow> br_read8 r = (a, br_adv (Suc 0) r) \<and> rests (br_adv (Suc 0) r) xs"
  using rests_adv [of r "[a]" xs 1] by (simp add: rests_def br_read8_Cons)

lemma be_net16': "be (net16 v) = v" and be_net32': "be (net32 u) = u"
  by (simp_all add: net_be be_be_bytes take_bit_word_eq_self)

lemma rests_read16: "rests r (net16 v @ xs) \<Longrightarrow> br_read16 r = (v, br_adv 2 r) \<and> rests (br_adv 2 r) xs"
  using rests_adv [of r "net16 v" xs 2] by (auto simp: rests_def br_read16_net be_net16')

lemma rests_read32: "rests r (net32 v @ xs) \<Longrightarrow> br_read32 r = (v, br_adv 4 r) \<and> rests (br_adv 4 r) xs"
  using rests_adv [of r "net32 v" xs 4] by (auto simp: rests_def br_read32_net be_net32')

lemma rests_next: "rests r (ys @ xs) \<Longrightarrow> length ys = n \<Longrightarrow> br_next n r = (n, br_adv n r) \<and> rests (br_adv n r) xs"
  using rests_adv [of r ys xs n] by (auto simp: rests_def br_next_def br_adv_def length_br_rest [symmetric])

lemma rests_length: "rests r xs \<Longrightarrow> br_available r = length xs"
  by (auto simp: rests_def length_br_rest [symmetric])

lemma rests_rest: "rests r xs \<Longrightarrow> br_rest r = xs"
  by (simp add: rests_def)

section \<open>Headers\<close>

text \<open>An adaptation field is passed over whatever it holds.\<close>

lemma adaptation_passed:
  assumes "rests r (len # ys @ xs)" and "length ys = unat len"
  shows "rests (ts_adaptation r) xs"
proof -
  have r1: "br_read8 r = (len, br_adv (Suc 0) r)" "rests (br_adv (Suc 0) r) (ys @ xs)" using rests_read8 [OF assms(1)] by auto
  show ?thesis
  proof (cases "len \<ge> 7")
    case False
    then show ?thesis using rests_next [OF r1(2) assms(2)] by (simp add: ts_adaptation_def r1(1))
  next
    case True
    then have long: "7 \<le> unat len" by (simp add: word_le_nat_alt)
    then obtain b zs where y: "ys = b # zs" using assms(2) by (cases ys) auto
    have r2: "br_read8 (br_adv (Suc 0) r) = (b, br_adv (Suc 0) (br_adv (Suc 0) r))" "rests (br_adv (Suc 0) (br_adv (Suc 0) r)) (zs @ xs)"
      using rests_read8 [of "br_adv (Suc 0) r" b "zs @ xs"] r1(2) y by auto
    have u: "unat (len - 6 - 1) = unat len - 7" "unat (len - 0 - 1) = unat len - 1"
      using long by (simp_all add: unat_sub_if' word_le_nat_alt)
    show ?thesis
    proof (cases "b AND 0x10 \<noteq> 0")
      case b: True
      have t: "rests (br_adv (Suc 0) (br_adv (Suc 0) r)) (take 6 zs @ drop 6 zs @ xs)"
        using r2(2) by (simp only: append_take_drop_id append.assoc [symmetric])
      have r3: "br_next 6 (br_adv (Suc 0) (br_adv (Suc 0) r)) = (6, br_adv 6 (br_adv (Suc 0) (br_adv (Suc 0) r)))"
        "rests (br_adv 6 (br_adv (Suc 0) (br_adv (Suc 0) r))) (drop 6 zs @ xs)"
        using rests_next [OF t, of 6] y assms(2) long by auto
      have "length (drop 6 zs) = unat len - 7" using y assms(2) by simp
      from rests_next [OF r3(2) this] show ?thesis
        using True b u(1) by (simp add: ts_adaptation_def r1(1) r2(1) r3(1) Let_def)
    next
      case False
      have "length zs = unat len - 1" using y assms(2) by simp
      from rests_next [OF r2(2) this] show ?thesis
        using True False u(2) by (simp add: ts_adaptation_def r1(1) r2(1) Let_def)
    qed
  qed
qed

lemma length_stamp: "length (ts_stamp t) = 5"
  by (simp add: ts_stamp_def)

lemma bit_0x21: "bit (0x21 :: u64) n \<longleftrightarrow> n = 0 \<or> n = 5"
proof -
  have "(0x21 :: u64) = 2 ^ 5 OR 1" by simp
  then show ?thesis by (auto simp only: bit_or_iff bit_exp_iff bit_1_iff) simp_all
qed

lemma bit_0x0E: "bit (0x0E :: u64) n \<longleftrightarrow> 1 \<le> n \<and> n < 4"
proof -
  have "(0x0E :: u64) = push_bit 1 (mask 3)" by (simp add: mask_eq_exp_minus_1 push_bit_eq_mult)
  then show ?thesis by (auto simp only: bit_push_bit_iff bit_mask_iff possible_bit_word) simp_all
qed

lemma bit_0xFFFE: "bit (0xFFFE :: u64) n \<longleftrightarrow> 1 \<le> n \<and> n < 16"
proof -
  have "(0xFFFE :: u64) = push_bit 1 (mask 15)" by (simp add: mask_eq_exp_minus_1 push_bit_eq_mult)
  then show ?thesis by (auto simp only: bit_push_bit_iff bit_mask_iff possible_bit_word) simp_all
qed

lemmas stamp_bit_simps = bit_or_iff bit_and_iff bit_push_bit_iff bit_drop_bit_eq bit_unsigned_iff possible_bit_word bit_0x0E bit_0xFFFE bit_0x21
  bit_1_iff o_apply

lemma stamp_bits:
  assumes "unat (t :: u64) < 2 ^ 33"
  shows "push_bit 29 (ucast (ucast (drop_bit 29 t AND 0x0E OR 0x21) :: u8) AND 0x0E)
      OR push_bit 14 (ucast (ucast (drop_bit 14 t AND 0xFFFE OR 1) :: u16) AND 0xFFFE)
      OR drop_bit 1 (ucast (ucast (push_bit 1 t AND 0xFFFE OR 1) :: u16) AND 0xFFFE) = t" (is "?a OR ?b OR ?c = t")
proof -
  have b: "bit t i \<Longrightarrow> i < 33" for i using assms by (rule bit_small)
  have a: "bit ?a i \<longleftrightarrow> 30 \<le> i \<and> bit t i" for i
    using b [of i] by (simp only: stamp_bit_simps) auto
  have b': "bit ?b i \<longleftrightarrow> 15 \<le> i \<and> i < 30 \<and> bit t i" for i
    by (simp only: stamp_bit_simps) auto
  have c: "bit ?c i \<longleftrightarrow> i < 15 \<and> bit t i" for i
    by (simp only: stamp_bit_simps) auto
  show ?thesis by (rule bit_word_eqI) (auto simp only: bit_or_iff a b' c)
qed

lemma read_stamp_written:
  assumes "rests r (ts_stamp t @ xs)" and "unat t < 2 ^ 33"
  shows "\<exists>r'. read_stamp r = (t, r') \<and> rests r' xs"
proof -
  let ?a = "ucast (drop_bit 29 t AND 0x0E OR 0x21) :: u8"
  let ?b = "ucast (drop_bit 14 t AND 0xFFFE OR 1) :: u16" and ?c = "ucast (push_bit 1 t AND 0xFFFE OR 1) :: u16"
  have "rests r (?a # net16 ?b @ net16 ?c @ xs)" using assms(1) by (simp only: ts_stamp_def append_Cons append_Nil append.assoc)
  from rests_read8 [OF this] have 1: "br_read8 r = (?a, br_adv (Suc 0) r)" "rests (br_adv (Suc 0) r) (net16 ?b @ net16 ?c @ xs)" by auto
  from rests_read16 [OF 1(2)]
  have 2: "br_read16 (br_adv (Suc 0) r) = (?b, br_adv 2 (br_adv (Suc 0) r))" "rests (br_adv 2 (br_adv (Suc 0) r)) (net16 ?c @ xs)" by auto
  from rests_read16 [OF 2(2)]
  have 3: "br_read16 (br_adv 2 (br_adv (Suc 0) r)) = (?c, br_adv 2 (br_adv 2 (br_adv (Suc 0) r)))" "rests (br_adv 2 (br_adv 2 (br_adv (Suc 0) r))) xs" by auto
  show ?thesis
    unfolding read_stamp_def 1(1) Let_def prod.case 2(1) 3(1) stamp_bits [OF assms(2)] using 3(2) by blast
qed

text \<open>The times of a unit, in ticks.\<close>

definition unit_dts :: "u32 \<Rightarrow> int" where
  "unit_dts time = (uint time + 200) * 90"

definition unit_pts :: "u32 \<Rightarrow> u16 \<Rightarrow> int" where
  "unit_pts time composition = unit_dts time + 90 * uint composition"

definition in_time :: "u32 \<Rightarrow> bool" where
  "in_time time \<longleftrightarrow> unit_dts time < 2 ^ 32"

lemma uint_sum: "uint a + uint b < 2 ^ LENGTH('a) \<Longrightarrow> uint (a + b :: 'a::len word) = uint a + uint b"
  by (simp add: uint_word_ariths)

lemma uint_product: "uint a * uint b < 2 ^ LENGTH('a) \<Longrightarrow> uint (a * b :: 'a::len word) = uint a * uint b"
  by (simp add: uint_word_ariths)

lemma uint_ucast_64: "LENGTH('a) \<le> 64 \<Longrightarrow> uint (ucast (c :: 'a::len word) :: u64) = uint c"
proof -
  assume "LENGTH('a) \<le> 64"
  then have "(2 :: int) ^ LENGTH('a) \<le> 2 ^ 64" by (rule power_increasing) simp
  moreover have "uint c < 2 ^ LENGTH('a)" by (rule unsigned_less)
  ultimately have "uint c < 2 ^ 64" by (rule order.strict_trans2 [rotated])
  then show ?thesis by (simp add: unsigned_ucast_eq take_bit_int_eq_self)
qed

lemma written_dts: "in_time time \<Longrightarrow> uint (ucast ((time + PCR_OFFSET) * 90) :: u64) = unit_dts time"
proof -
  assume a: "in_time time"
  then have "uint time + 200 < 2 ^ 32" by (simp add: in_time_def unit_dts_def)
  then have s: "uint (time + PCR_OFFSET) = uint time + 200" by (subst uint_sum) simp_all
  have "uint ((time + PCR_OFFSET) * 90) = (uint time + 200) * 90"
    using a by (subst uint_product) (simp_all add: s in_time_def unit_dts_def)
  then show ?thesis by (subst uint_ucast_64) (simp_all only: unit_dts_def, simp)
qed

lemma written_pts:
  assumes "in_time time"
  shows "uint (90 * ucast composition + ucast ((time + PCR_OFFSET) * 90) :: u64) = unit_pts time composition"
proof -
  have c: "uint (ucast (composition :: u16) :: u64) = uint composition" "uint composition < 2 ^ 16"
    by (rule uint_ucast_64, simp) (use unsigned_less [of composition] in simp)
  have p: "uint (90 * ucast composition :: u64) = 90 * uint composition" using c by (subst uint_product) simp_all
  show ?thesis using assms c(2) by (subst uint_sum) (simp_all only: p written_dts, simp_all add: unit_pts_def in_time_def)
qed

lemma stamp_small: "uint (t :: u64) < 2 ^ 33 \<Longrightarrow> unat t < 2 ^ 33"
  by (simp flip: nat_uint_eq add: nat_less_iff)

lemma pts_small: "in_time time \<Longrightarrow> unit_pts time composition < 2 ^ 33"
proof -
  have "uint composition < 2 ^ LENGTH(16)" by (rule unsigned_less)
  moreover assume "in_time time"
  ultimately show ?thesis by (simp add: in_time_def unit_pts_def)
qed

lemma pes_prefix_read:
  assumes "rests r (net32 v @ net16 n @ [0x80, flags, len] @ xs)"
  shows "\<exists>r'. rests r' xs \<and> br_read32 r = (v, br_adv 4 r) \<and> br_read8 (snd (br_next 3 (br_adv 4 r))) = (flags, br_adv (Suc 0) (br_adv 3 (br_adv 4 r)))
    \<and> br_read8 (br_adv (Suc 0) (br_adv 3 (br_adv 4 r))) = (len, r')"
proof -
  from rests_read32 [OF assms]
  have 1: "br_read32 r = (v, br_adv 4 r)" "rests (br_adv 4 r) ((net16 n @ [0x80]) @ flags # len # xs)" by auto
  from rests_next [OF 1(2)] have 2: "br_next 3 (br_adv 4 r) = (3, br_adv 3 (br_adv 4 r))" "rests (br_adv 3 (br_adv 4 r)) (flags # len # xs)"
    by auto
  from rests_read8 [OF 2(2)] have 3: "br_read8 (br_adv 3 (br_adv 4 r)) = (flags, br_adv (Suc 0) (br_adv 3 (br_adv 4 r)))"
    "rests (br_adv (Suc 0) (br_adv 3 (br_adv 4 r))) (len # xs)" by auto
  from rests_read8 [OF 3(2)] show ?thesis using 1(1) 2(1) 3(1) by auto
qed

definition unit_program :: "(int \<Rightarrow> int \<Rightarrow> bool) \<Rightarrow> u32 \<Rightarrow> u16 \<Rightarrow> ts_program \<Rightarrow> ts_reader \<Rightarrow> ts_program \<times> ts_reader" where
  "unit_program tie time composition p s =
     program_stamp tie (unit_pts time composition) (unit_dts time) (p\<lparr>tp_waitHeader := False\<rparr>) s"

lemma pes_header_read:
  assumes "rests r (pes_header pid time composition sz @ xs)" and "sz \<noteq> 0" and "in_time time"
  shows "\<exists>r'. readPESHeader tie r p s = (r', unit_program tie time composition p s) \<and> rests r' xs"
proof -
  let ?v = "if pid < FIRST_AUDIO_PID then 0x1E0 else 0x1C0 :: u32"
  let ?d = "ucast ((time + PCR_OFFSET) * 90) :: u64" and ?p = "90 * ucast composition + ucast ((time + PCR_OFFSET) * 90) :: u64"
  have v: "?v AND 0xFFC0 = 0x1C0" by simp
  have d: "uint ?d = unit_dts time" and q: "uint ?p = unit_pts time composition"
    using written_dts written_pts assms(3) by blast+
  have ds: "unat ?d < 2 ^ 33" "unat ?p < 2 ^ 33"
    using assms(3) pts_small by (auto intro!: stamp_small simp only: d q) (simp add: in_time_def)
  have pos: "0 < unit_dts time" "0 \<le> uint composition" by (simp_all add: unit_dts_def add_nonneg_pos)
  then have dn: "?d \<noteq> 0" "?p \<noteq> 0" using d q by (metis unsigned_0 less_irrefl, metis unit_pts_def unsigned_0 add_pos_nonneg less_irrefl mult_nonneg_nonneg zero_le_numeral)
  show ?thesis
  proof (cases "composition = 0")
    case True
    let ?n = "sz + (3 + ucast (5 :: u8))"
    have h: "pes_header pid time composition sz = net32 ?v @ net16 (if ?n > 0xFFFF then 0 else ucast ?n) @ [0x80, 0x80, 5] @ ts_stamp ?d"
      using assms(2) True dn by (simp add: pes_header_def pes_times_def Let_def)
    have "rests r (net32 ?v @ net16 (if ?n > 0xFFFF then 0 else ucast ?n) @ [0x80, 0x80, 5] @ ts_stamp ?d @ xs)"
      using assms(1) unfolding h by (simp only: append.assoc)
    from pes_prefix_read [OF this] obtain r1 where r1: "rests r1 (ts_stamp ?d @ xs)" "br_read32 r = (?v, br_adv 4 r)"
      "br_read8 (snd (br_next 3 (br_adv 4 r))) = (0x80, br_adv (Suc 0) (br_adv 3 (br_adv 4 r)))"
      "br_read8 (br_adv (Suc 0) (br_adv 3 (br_adv 4 r))) = (5, r1)" by blast
    from read_stamp_written [OF r1(1) ds(1)] obtain r2 where r2: "read_stamp r1 = (?d, r2)" "rests r2 xs" by blast
    have pd: "unit_pts time composition = unit_dts time" using True by (simp add: unit_pts_def)
    have z: "br_next 0 r2 = (0, r2)" by (simp add: br_next_def)
    show ?thesis
      using r2(2) by (simp add: readPESHeader_def r1(2) v r1(3,4) r2(1) d [simplified] z unit_program_def pd)
  next
    case False
    let ?n = "sz + (3 + ucast (10 :: u8))"
    have h: "pes_header pid time composition sz = net32 ?v @ net16 (if ?n > 0xFFFF then 0 else ucast ?n) @ [0x80, 0xC0, 10] @ ts_stamp ?p @ ts_stamp ?d"
      using assms(2) False dn by (simp add: pes_header_def pes_times_def Let_def)
    have "rests r (net32 ?v @ net16 (if ?n > 0xFFFF then 0 else ucast ?n) @ [0x80, 0xC0, 10] @ ts_stamp ?p @ ts_stamp ?d @ xs)"
      using assms(1) unfolding h by (simp only: append.assoc)
    from pes_prefix_read [OF this] obtain r1 where r1: "rests r1 (ts_stamp ?p @ ts_stamp ?d @ xs)" "br_read32 r = (?v, br_adv 4 r)"
      "br_read8 (snd (br_next 3 (br_adv 4 r))) = (0xC0, br_adv (Suc 0) (br_adv 3 (br_adv 4 r)))"
      "br_read8 (br_adv (Suc 0) (br_adv 3 (br_adv 4 r))) = (10, r1)" by blast
    from read_stamp_written [OF r1(1) ds(2)] obtain r2 where r2: "read_stamp r1 = (?p, r2)" "rests r2 (ts_stamp ?d @ xs)" by blast
    from read_stamp_written [OF r2(2) ds(1)] obtain r3 where r3: "read_stamp r2 = (?d, r3)" "rests r3 xs" by blast
    have "uint ?d \<le> uint ?p" unfolding d q by (simp add: unit_pts_def)
    then have le: "\<not> ?p < ?d" by (simp add: word_less_def)
    have z: "br_next 0 r3 = (0, r3)" by (simp add: br_next_def)
    show ?thesis
      using r3(2) le by (simp add: readPESHeader_def r1(2) v r1(3,4) r2(1) r3(1) d [simplified] q [simplified] z unit_program_def)
  qed
qed

lemma pcr_header_read:
  assumes "rests r (pes_header pid time composition 0 @ xs)"
  shows "\<exists>r'. readPESHeader tie r p s = (r', p\<lparr>tp_waitHeader := False\<rparr>, s) \<and> rests r' xs"
proof -
  have "rests r (net32 0x1FF @ net16 3 @ [0x80, 0, 0] @ xs)"
    using assms by (simp add: pes_header_def pes_times_def Let_def)
  from pes_prefix_read [OF this] obtain r1 where r1: "rests r1 xs" "br_read32 r = (0x1FF, br_adv 4 r)"
      "br_read8 (snd (br_next 3 (br_adv 4 r))) = (0, br_adv (Suc 0) (br_adv 3 (br_adv 4 r)))"
      "br_read8 (br_adv (Suc 0) (br_adv 3 (br_adv 4 r))) = (0, r1)" by blast
  have z: "br_next 0 r1 = (0, r1)" by (simp add: br_next_def)
  show ?thesis using r1(1) by (simp add: readPESHeader_def r1(2-4) z)
qed

section \<open>Packets\<close>

lemma net16_bytes: "net16 v = [ucast (drop_bit 8 v), ucast v]"
  by (simp add: net_be be_bytes_2)

text \<open>The two bytes of a program behind \<open>0x47\<close>, with the flag of a start.\<close>

lemma pid_bits:
  assumes "unat (pid :: u16) < 2 ^ 13"
  shows "push_bit 8 (ucast (ucast (drop_bit 8 (0x4000 OR pid)) AND 0x1F :: u8)) OR ucast (ucast (0x4000 OR pid) :: u8) = pid"
    and "push_bit 8 (ucast (ucast (drop_bit 8 pid) AND 0x1F :: u8)) OR ucast (ucast pid :: u8) = pid"
    and "(ucast (drop_bit 8 (0x4000 OR pid)) :: u8) AND 0x40 \<noteq> 0"
    and "(ucast (drop_bit 8 pid) :: u8) AND 0x40 = 0"
proof -
  have b: "bit pid i \<Longrightarrow> i < 13" for i using assms by (rule bit_small)
  have e: "(0x4000 :: u16) = 2 ^ 14" "(0x40 :: u8) = 2 ^ 6" by simp_all
  have m: "bit (0x1F :: u8) i \<longleftrightarrow> i < 5" for i
  proof -
    have "(0x1F :: u8) = mask 5" by (simp add: mask_eq_exp_minus_1)
    then show ?thesis by (auto simp only: bit_mask_iff possible_bit_word) simp_all
  qed
  have k: "bit (0x4000 :: u16) i \<longleftrightarrow> i = 14" "bit (0x40 :: u8) i \<longleftrightarrow> i = 6" for i
    unfolding e by (auto simp only: bit_exp_iff possible_bit_word) simp_all
  note bs = bit_or_iff bit_and_iff bit_push_bit_iff bit_drop_bit_eq bit_unsigned_iff possible_bit_word m k o_apply
  show "push_bit 8 (ucast (ucast (drop_bit 8 (0x4000 OR pid)) AND 0x1F :: u8)) OR ucast (ucast (0x4000 OR pid) :: u8) = pid"
    by (rule bit_word_eqI, simp only: bs) (auto dest: b)
  show "push_bit 8 (ucast (ucast (drop_bit 8 pid) AND 0x1F :: u8)) OR ucast (ucast pid :: u8) = pid"
    by (rule bit_word_eqI, simp only: bs) (auto dest: b)
  have "bit ((ucast (drop_bit 8 (0x4000 OR pid)) :: u8) AND 0x40) 6" by (simp only: bs) simp
  then show "(ucast (drop_bit 8 (0x4000 OR pid)) :: u8) AND 0x40 \<noteq> 0" by auto
  show "(ucast (drop_bit 8 pid) :: u8) AND 0x40 = 0"
    by (rule bit_word_eqI, simp only: bs) (auto dest: b)
qed

lemma counter_bits:
  "(0x10 OR c mod 0x10 :: u8) AND 0x10 \<noteq> 0" "(0x30 OR c mod 0x10 :: u8) AND 0x10 \<noteq> 0"
  "(0x10 OR c mod 0x10 :: u8) AND 0x20 = 0" "(0x30 OR c mod 0x10 :: u8) AND 0x20 \<noteq> 0"
  "(0x10 OR c mod 0x10 :: u8) AND 0x0F = c mod 0x10" "(0x30 OR c mod 0x10 :: u8) AND 0x0F = c mod 0x10"
proof -
  have t: "c mod 0x10 = take_bit 4 c" by (simp add: take_bit_eq_mod)
  have e: "(0x10 :: u8) = 2 ^ 4" "(0x20 :: u8) = 2 ^ 5" "(0x0F :: u8) = mask 4" by (simp_all add: mask_eq_exp_minus_1)
  have k: "bit (0x10 :: u8) i \<longleftrightarrow> i = 4" "bit (0x20 :: u8) i \<longleftrightarrow> i = 5" "bit (0x0F :: u8) i \<longleftrightarrow> i < 4" for i
    unfolding e by (auto simp only: bit_exp_iff bit_mask_iff possible_bit_word) simp_all
  have f: "(0x30 :: u8) = 0x10 OR 0x20" by simp
  have k3: "bit (0x30 :: u8) i \<longleftrightarrow> i = 4 \<or> i = 5" for i unfolding f by (simp only: bit_or_iff k)
  note bs = bit_or_iff bit_and_iff bit_take_bit_iff k k3
  have "bit ((0x10 OR take_bit 4 c) AND 0x10) 4" "bit ((0x30 OR take_bit 4 c) AND 0x10) 4" "bit ((0x30 OR take_bit 4 c) AND 0x20) 5"
    by (simp_all only: bs) simp_all
  then show "(0x10 OR c mod 0x10 :: u8) AND 0x10 \<noteq> 0" "(0x30 OR c mod 0x10 :: u8) AND 0x10 \<noteq> 0" "(0x30 OR c mod 0x10 :: u8) AND 0x20 \<noteq> 0"
    unfolding t by auto
  show "(0x10 OR c mod 0x10 :: u8) AND 0x20 = 0" "(0x10 OR c mod 0x10 :: u8) AND 0x0F = c mod 0x10"
    "(0x30 OR c mod 0x10 :: u8) AND 0x0F = c mod 0x10"
    unfolding t by (rule bit_word_eqI, simp only: bs, auto)+
qed

definition pid_ok :: "u16 \<Rightarrow> bool" where
  "pid_ok pid \<longleftrightarrow> unat pid < 2 ^ 13 \<and> pid \<noteq> 0 \<and> pid \<noteq> 0x1FFF"

definition field_ok :: "u8 \<Rightarrow> bytes \<Rightarrow> bool" where
  "field_ok flags field \<longleftrightarrow> flags = 0x10 \<and> field = [] \<or> flags = 0x30 \<and> (\<exists>len ys. field = len # ys \<and> length ys = unat len)"

lemma packet_head:
  assumes "unat pid < 2 ^ 13" and "rests r (net16 (if start then 0x4000 OR pid else pid) @ [flags OR c mod 0x10] @ field @ xs)" and "field_ok flags field"
  shows "\<exists>a b r'. br_read8 r = (a, br_adv (Suc 0) r) \<and> br_read8 (br_adv (Suc 0) r) = (b, br_adv (Suc 0) (br_adv (Suc 0) r))
    \<and> br_read8 (br_adv (Suc 0) (br_adv (Suc 0) r)) = (flags OR c mod 0x10, r')
    \<and> (a AND 0x40 \<noteq> 0) = start \<and> push_bit 8 (ucast (a AND 0x1F)) OR ucast b = pid
    \<and> (flags OR c mod 0x10) AND 0x10 \<noteq> 0 \<and> (flags OR c mod 0x10) AND 0x0F = c mod 0x10
    \<and> rests (if (flags OR c mod 0x10) AND 0x20 \<noteq> 0 then ts_adaptation r' else r') xs"
proof -
  let ?v = "if start then 0x4000 OR pid else pid" and ?c = "flags OR c mod 0x10"
  have "rests r (ucast (drop_bit 8 ?v) # ucast ?v # ?c # field @ xs)" using assms(2) unfolding net16_bytes by simp
  from rests_read8 [OF this]
  have 1: "br_read8 r = (ucast (drop_bit 8 ?v), br_adv (Suc 0) r)" "rests (br_adv (Suc 0) r) (ucast ?v # ?c # field @ xs)" by auto
  from rests_read8 [OF 1(2)]
  have 2: "br_read8 (br_adv (Suc 0) r) = (ucast ?v, br_adv (Suc 0) (br_adv (Suc 0) r))"
    "rests (br_adv (Suc 0) (br_adv (Suc 0) r)) (?c # field @ xs)" by auto
  let ?r = "br_adv (Suc 0) (br_adv (Suc 0) (br_adv (Suc 0) r))"
  from rests_read8 [OF 2(2)]
  have 3: "br_read8 (br_adv (Suc 0) (br_adv (Suc 0) r)) = (?c, ?r)" "rests ?r (field @ xs)" by auto
  have p: "push_bit 8 (ucast (ucast (drop_bit 8 ?v) AND 0x1F :: u8)) OR ucast (ucast ?v :: u8) = pid"
    "((ucast (drop_bit 8 ?v) :: u8) AND 0x40 \<noteq> 0) = start"
    using pid_bits [OF assms(1)] by (cases start; simp)+
  have f: "rests (if ?c AND 0x20 \<noteq> 0 then ts_adaptation ?r else ?r) xs"
    using assms(3) unfolding field_ok_def
  proof
    assume "flags = 0x10 \<and> field = []"
    then show ?thesis using 3(2) counter_bits(3) by simp
  next
    assume "flags = 0x30 \<and> (\<exists>len ys. field = len # ys \<and> length ys = unat len)"
    then show ?thesis using 3(2) counter_bits(4) adaptation_passed by auto
  qed
  have "?c AND 0x10 \<noteq> 0" "?c AND 0x0F = c mod 0x10" using assms(3) counter_bits unfolding field_ok_def by blast+
  with 1(1) 2(1) 3(1) p f show ?thesis by blast
qed

lemma ts_packet_program:
  assumes "pid_ok pid" and "map_of (tr_programs s) pid = Some p" and "tp_reader p \<noteq> TrNone" and "field_ok flags field"
  shows "\<exists>r. rests r xs \<and> ts_packet tie (net16 (if start then 0x4000 OR pid else pid) @ [flags OR c mod 0x10] @ field @ xs) s
    = program_packet tie pid start True (c mod 0x10) r p s"
proof -
  let ?d = "net16 (if start then 0x4000 OR pid else pid) @ [flags OR c mod 0x10] @ field @ xs"
  have "unat pid < 2 ^ 13" using assms(1) by (simp add: pid_ok_def)
  from packet_head [OF this rests_reader assms(4)]
  obtain a b r' where h: "br_read8 (net_reader ?d) = (a, br_adv (Suc 0) (net_reader ?d))"
    "br_read8 (br_adv (Suc 0) (net_reader ?d)) = (b, br_adv (Suc 0) (br_adv (Suc 0) (net_reader ?d)))"
    "br_read8 (br_adv (Suc 0) (br_adv (Suc 0) (net_reader ?d))) = (flags OR c mod 0x10, r')"
    "(a AND 0x40 \<noteq> 0) = start" "push_bit 8 (ucast (a AND 0x1F)) OR ucast b = pid"
    "(flags OR c mod 0x10) AND 0x10 \<noteq> 0" "(flags OR c mod 0x10) AND 0x0F = c mod 0x10"
    "rests (if (flags OR c mod 0x10) AND 0x20 \<noteq> 0 then ts_adaptation r' else r') xs" by blast
  have n: "pid \<noteq> 0" "pid \<noteq> 0x1FFF" using assms(1) by (simp_all add: pid_ok_def)
  show ?thesis
    using h(8) n unfolding ts_packet_def h(1) Let_def prod.case h(2) h(3) h(4) h(5) h(7) assms(2) option.case
    using h(6) assms(3) by auto
qed

text \<open>The counters of a program, on both sides.\<close>

definition seq_ok :: "u8 \<Rightarrow> u8 \<Rightarrow> bool" where
  "seq_ok c sq \<longleftrightarrow> (ucast (c mod 0x10) - ucast sq - 1 :: u32) AND 0x0F = 0"

lemma seq_ok_first: "seq_ok 0 0xFF"
  by (simp add: seq_ok_def)

lemma seq_ok_next: "seq_ok (c + 1) (c mod 0x10)"
proof -
  have m: "(x :: u32) AND 0x0F = take_bit 4 x" for x
  proof -
    have "(0x0F :: u32) = mask 4" by (simp add: mask_eq_exp_minus_1)
    then show ?thesis by (simp only: take_bit_eq_mask)
  qed
  have u: "uint (ucast (x mod 0x10 :: u8) :: u32) = uint x mod 16" for x
  proof -
    have "uint (x mod 0x10) = uint x mod 16" by (simp add: uint_mod)
    moreover have "uint (ucast (x mod 0x10 :: u8) :: u32) = uint (x mod 0x10)" by (simp add: unsigned_ucast_eq take_bit_int_eq_self_iff calculation)
    ultimately show ?thesis by simp
  qed
  have t: "uint (take_bit 4 w) = uint w mod 16" for w :: u32 unfolding unsigned_take_bit_eq by (simp add: take_bit_eq_mod)
  have c: "uint (c + 1) mod 16 = (uint c + 1) mod 16" by (simp add: uint_word_ariths mod_mod_cancel)
  have "uint (take_bit 4 (ucast ((c + 1) mod 0x10) - ucast (c mod 0x10) - 1 :: u32)) = ((uint c + 1) mod 16 - uint c mod 16 - 1) mod 16"
    unfolding t by (simp add: uint_word_ariths u c mod_mod_cancel mod_diff_left_eq)
  also have "\<dots> = 0"
  proof -
    have "((uint c + 1) mod 16 - uint c mod 16) mod 16 = 1" using mod_diff_eq [of "uint c + 1" 16 "uint c"] by simp
    then show ?thesis using mod_diff_left_eq [of "(uint c + 1) mod 16 - uint c mod 16" 16 1] by simp
  qed
  finally have "take_bit 4 (ucast ((c + 1) mod 0x10) - ucast (c mod 0x10) - 1 :: u32) = 0" by (simp add: word_uint_eq_iff)
  then show ?thesis unfolding seq_ok_def m .
qed

text \<open>What comes for a program, byte by byte with the times its reader has.\<close>

definition es_bytes :: "u16 \<Rightarrow> ts_call list \<Rightarrow> (u32 \<times> u16 \<times> u8) list" where
  "es_bytes pid es =
     concat (map (\<lambda>e. case e of TsRead pid' reader track time composition b \<Rightarrow> if pid' = pid then map (\<lambda>x. (time, composition, x)) b else []
                      | _ \<Rightarrow> []) es)"

lemma es_bytes_simps [simp]:
  "es_bytes pid [] = []" "es_bytes pid (es @ fs) = es_bytes pid es @ es_bytes pid fs"
  "es_bytes pid [TsRead pid' reader track time composition b] = (if pid' = pid then map (\<lambda>x. (time, composition, x)) b else [])"
  "es_bytes pid (TsFlush pid' reader # es) = es_bytes pid es"
  by (simp_all add: es_bytes_def)

lemma program_packet_start:
  assumes "seq_ok c (tp_sequence p)" and "rests r (pes_header pid' time composition sz @ xs)" and "sz \<noteq> 0" and "in_time time"
    and "unit_program tie time composition (p\<lparr>tp_sequence := c mod 0x10\<rparr>) s = (p', s')"
  shows "program_packet tie pid True True (c mod 0x10) r p s
    = (tr_put pid p' s', [TsRead pid (tp_reader p') (tp_track p') (tp_time p') (tp_composition p') xs])"
proof -
  have l: "((ucast (c mod 0x10) - ucast (tp_sequence p) - 1 :: u32) AND 0x0F) * 184 = 0" using assms(1) by (simp add: seq_ok_def)
  obtain r' where r: "readPESHeader tie r (p\<lparr>tp_sequence := c mod 0x10\<rparr>) s = (r', p', s')" "rests r' xs"
    using pes_header_read [OF assms(2-4), of tie "p\<lparr>tp_sequence := c mod 0x10\<rparr>" s] assms(5) by auto
  have "\<not> tp_waitHeader p'" using assms(5) by (auto simp: unit_program_def program_stamp_def Let_def)
  then show ?thesis
    using rests_rest [OF r(2)] by (simp only: program_packet_def if_True Let_def l prod.case not_True_eq_False if_False) (simp add: r(1))
qed

lemma program_packet_PCR:
  assumes "seq_ok c (tp_sequence p)" and "rests r (pes_header pid' time composition 0 @ xs)"
  shows "program_packet tie pid True True (c mod 0x10) r p s
    = (tr_put pid (p\<lparr>tp_sequence := c mod 0x10, tp_waitHeader := False\<rparr>) s,
       [TsRead pid (tp_reader p) (tp_track p) (tp_time p) (tp_composition p) xs])"
proof -
  have l: "((ucast (c mod 0x10) - ucast (tp_sequence p) - 1 :: u32) AND 0x0F) * 184 = 0" using assms(1) by (simp add: seq_ok_def)
  obtain r' where r: "readPESHeader tie r (p\<lparr>tp_sequence := c mod 0x10\<rparr>) s = (r', p\<lparr>tp_sequence := c mod 0x10, tp_waitHeader := False\<rparr>, s)" "rests r' xs"
    using pcr_header_read [OF assms(2), of tie "p\<lparr>tp_sequence := c mod 0x10\<rparr>" s] by auto
  show ?thesis
    using rests_rest [OF r(2)] by (simp only: program_packet_def if_True Let_def l prod.case not_True_eq_False if_False) (simp add: r(1))
qed

lemma program_packet_next:
  assumes "seq_ok c (tp_sequence p)" and "rests r xs" and "\<not> tp_waitHeader p"
  shows "program_packet tie pid False True (c mod 0x10) r p s
    = (tr_put pid (p\<lparr>tp_sequence := c mod 0x10\<rparr>) s, [TsRead pid (tp_reader p) (tp_track p) (tp_time p) (tp_composition p) xs])"
proof -
  have l: "((ucast (c mod 0x10) - ucast (tp_sequence p) - 1 :: u32) AND 0x0F) * 184 = 0" using assms(1) by (simp add: seq_ok_def)
  show ?thesis
    using rests_rest [OF assms(2)] assms(3) by (simp only: program_packet_def if_True Let_def l prod.case not_True_eq_False if_False) simp
qed

section \<open>Runs of packets\<close>

definition ts_clean :: "ts_reader \<Rightarrow> bool" where
  "ts_clean s \<longleftrightarrow> \<not> tr_syncFound s \<and> \<not> tr_syncError s"

inductive plays :: "(int \<Rightarrow> int \<Rightarrow> bool) \<Rightarrow> bytes \<Rightarrow> ts_reader \<Rightarrow> ts_call list \<Rightarrow> ts_reader \<Rightarrow> bool" for tie where
  plays_none: "ts_clean s \<Longrightarrow> plays tie [] s [] s"
| plays_packet: "ts_clean s \<Longrightarrow> length d = 187 \<Longrightarrow> ts_packet tie d s = (s1, es) \<Longrightarrow> plays tie b s1 es' s' \<Longrightarrow>
    plays tie (0x47 # d @ b) s (es @ es') s'"

lemma plays_append: "plays tie b s es t \<Longrightarrow> plays tie c t fs u \<Longrightarrow> plays tie (b @ c) s (es @ fs) u"
proof (induction rule: plays.induct)
  case (plays_packet s d s1 es b es' s')
  then show ?case using plays.plays_packet [of s d tie s1 es "b @ c" "es' @ fs" u] by simp
qed simp

lemma plays_one:
  assumes "ts_clean s" "length d = 187" "ts_packet tie d s = (s1, es)" "ts_clean s1"
  shows "plays tie (0x47 # d) s es s1"
  using plays_packet [OF assms(1-3) plays_none [OF assms(4)]] by simp

lemma clean_same: "ts_clean s \<Longrightarrow> s\<lparr>tr_syncFound := False, tr_syncError := False\<rparr> = s"
  by (cases s) (simp add: ts_clean_def)

lemma plays_parse: "plays tie b s es s' \<Longrightarrow> b \<noteq> [] \<Longrightarrow> ts_parse tie b s = (s', es, [])"
proof (induction rule: plays.induct)
  case (plays_packet s d s1 es b es' s')
  have n: "s\<lparr>tr_syncFound := False, tr_syncError := False\<rparr> = s" by (rule clean_same [OF plays_packet.hyps(1)])
  have n': "s\<lparr>tr_syncError := False, tr_syncFound := False\<rparr> = s" using plays_packet.hyps(1) by (cases s) (simp add: ts_clean_def)
  have c: "\<not> tr_syncFound s" using plays_packet.hyps(1) by (simp add: ts_clean_def)
  have e: "b = [] \<Longrightarrow> es' = [] \<and> s' = s1" using plays_packet.hyps(4) by (auto elim: plays.cases)
  show ?case
    using plays_packet.hyps(2,3) plays_packet.IH e c
    by (subst ts_parse.simps) (auto simp: Let_def n n')
qed simp

lemma progs_put [simp]: "map_of (tr_programs (tr_put pid p s)) = (map_of (tr_programs s))(pid \<mapsto> p)"
proof -
  have i: "map_of (insort_key fst (pid, p) m) = (map_of m)(pid \<mapsto> p)" if "pid \<notin> fst ` set m" for m
    using that by (induction m) (auto simp: fun_eq_iff)
  have f: "map_of (filter (\<lambda>(k, _). k \<noteq> pid) m) = (map_of m)(pid := None)" for m :: "(u16 \<times> ts_program) list"
    by (induction m) (auto simp: fun_eq_iff)
  show ?thesis unfolding tr_put_def by (simp, subst i) (auto simp: f)
qed

lemma tr_put_fields [simp]:
  "tr_crcPAT (tr_put pid p s) = tr_crcPAT s" "tr_pmts (tr_put pid p s) = tr_pmts s" "tr_startTime (tr_put pid p s) = tr_startTime s"
  "tr_propChanged (tr_put pid p s) = tr_propChanged s" "ts_clean (tr_put pid p s) = ts_clean s"
  by (simp_all add: tr_put_def ts_clean_def)

end
