(* ===== verification/TSTables.thy ===== *)
theory TSTables
  imports TSTrip
begin

text \<open>
  The two tables that \<open>TSWriter::writePMT\<close> writes, read again by \<open>parsePAT\<close> and \<open>parsePMT\<close>: the programs of the tracks
  have readers, and a table of the same version changes nothing.
\<close>

section \<open>The tables\<close>

lemma length_net16: "length (net16 v) = 2" by simp

lemma table_packet:
  "ts_packet tie (0x60 # 0 # (0x10 OR c mod 0x10) # xs) s = parsePAT xs s"
  "map_of (tr_programs s) 0x20 = None \<Longrightarrow>
    ts_packet tie (0x60 # 0x20 # (0x10 OR c mod 0x10) # xs) s =
      (case map_of (tr_pmts s) 0x20 of None \<Rightarrow> (s, []) | Some version \<Rightarrow> parsePSI 0x20 version xs s)"
proof -
  let ?c = "0x10 OR c mod 0x10" 
  have h: "br_read8 (net_reader (0x60 # b # ?c # xs)) = (0x60, br_adv (Suc 0) (net_reader (0x60 # b # ?c # xs)))
      \<and> br_read8 (br_adv (Suc 0) (net_reader (0x60 # b # ?c # xs))) = (b, br_adv (Suc 0) (br_adv (Suc 0) (net_reader (0x60 # b # ?c # xs))))
      \<and> br_read8 (br_adv (Suc 0) (br_adv (Suc 0) (net_reader (0x60 # b # ?c # xs))))
        = (?c, br_adv (Suc 0) (br_adv (Suc 0) (br_adv (Suc 0) (net_reader (0x60 # b # ?c # xs)))))
      \<and> br_rest (br_adv (Suc 0) (br_adv (Suc 0) (br_adv (Suc 0) (net_reader (0x60 # b # ?c # xs))))) = xs" for b
  proof -
    note 1 = rests_read8 [OF rests_reader [of "0x60 # b # ?c # xs"]]
    note 2 = rests_read8 [OF conjunct2 [OF 1]]
    note 3 = rests_read8 [OF conjunct2 [OF 2]]
    from 1 2 3 rests_rest [OF conjunct2 [OF 3]] show ?thesis by blast
  qed
  note d = ts_packet_def conjunct1 [OF h] conjunct1 [OF conjunct2 [OF h]] conjunct1 [OF conjunct2 [OF conjunct2 [OF h]]]
    conjunct2 [OF conjunct2 [OF conjunct2 [OF h]]] counter_bits
  show "ts_packet tie (0x60 # 0 # ?c # xs) s = parsePAT xs s" by (simp add: d)
  show "map_of (tr_programs s) 0x20 = None \<Longrightarrow> ts_packet tie (0x60 # 0x20 # ?c # xs) s =
      (case map_of (tr_pmts s) 0x20 of None \<Rightarrow> (s, []) | Some version \<Rightarrow> parsePSI 0x20 version xs s)"
    by (cases "map_of (tr_pmts s) 0x20") (simp_all add: d)
qed

lemma rests_shrink: "rests r (ys @ xs) \<Longrightarrow> length ys = n \<Longrightarrow> rests (snd (br_shrink n r)) ys"
proof -
  assume a: "rests r (ys @ xs)" and n: "length ys = n"
  then have le: "n \<le> br_available r" using rests_length [OF a] by simp
  have w: "br_wf r" "rd_flip r" "br_rest r = ys @ xs" using a by (auto simp: rests_def)
  let ?r = "r\<lparr>rd_size := rd_cur r + n\<rparr>"
  have s: "snd (br_shrink n r) = ?r" using le by (simp add: br_shrink_def Let_def)
  have "rd_cur r + n \<le> rd_size r" using le w(1) unfolding br_available_def br_wf_def by arith
  then have "br_rest ?r = take n (br_rest r)" by (simp add: br_rest_def take_drop min_def add.commute)
  then have "br_rest ?r = ys" using w(3) n by simp
  moreover have "br_wf ?r" using \<open>rd_cur r + n \<le> rd_size r\<close> w(1) by (simp add: br_wf_def)
  ultimately show ?thesis using w(2) unfolding rests_def s by simp
qed

definition PAT_body :: bytes where
  "PAT_body = [0x00, 0xB0, 0x0D, 0x00, 0x01, 0xC1, 0x00, 0x00, 0x00, 0x01, 0xE0, 0x20]"

definition PAT_crc :: u32 where
  "PAT_crc = ComputeCRC32 PAT_body"

lemma PAT_crc_some: "PAT_crc \<noteq> 0"
  unfolding PAT_crc_def PAT_body_def by code_simp

lemma ts_table_PAT:
  "ts_table (ts_PAT counter) = Some (0x47 # 0x60 # 0 # counter # 0 # PAT_body @ net32 PAT_crc @ replicate 167 0xFF)"
  by (simp add: ts_table_def ts_PAT_def ts_pad_def PAT_crc_def PAT_body_def)

definition known :: "ts_reader \<Rightarrow> ts_reader" where
  "known s = (if tr_crcPAT s = 0 then s\<lparr>tr_pmts := [(0x20, 0xFF)], tr_crcPAT := PAT_crc\<rparr> else s)"

lemma parsePAT_written:
  assumes "tr_crcPAT s = 0 \<or> tr_crcPAT s = PAT_crc"
  shows "parsePAT (0 # PAT_body @ net32 PAT_crc @ xs) s = (known s, [])"
proof -
  let ?d = "0 # PAT_body @ net32 PAT_crc @ xs" and ?e = "[0x00, 0x01, 0xC1, 0x00, 0x00] :: bytes"
  have n: "[0x00, 0x01] = net16 1" "[0xB0, 0x0D] = net16 0xB00D" "[0xE0, 0x20] = net16 0xE020" by (simp_all add: net16_bytes)
  have 0: "rests (net_reader ?d) (0 # 0 # net16 0xB00D @ (?e @ net16 1 @ net16 0xE020 @ net32 PAT_crc) @ xs)"
  proof -
    have e: "0 # 0 # net16 0xB00D @ (?e @ net16 1 @ net16 0xE020 @ net32 PAT_crc) @ xs = ?d"
      unfolding PAT_body_def n [symmetric] by simp
    show ?thesis unfolding e by (rule rests_reader)
  qed
  obtain r1 where 1: "br_read8 (net_reader ?d) = (0, r1)" "rests r1 (0 # net16 0xB00D @ (?e @ net16 1 @ net16 0xE020 @ net32 PAT_crc) @ xs)"
    using rests_read8 [OF 0] by blast
  have z: "snd (br_next 0 r1) = r1" by (simp add: br_next_def)
  obtain r2 where 2: "br_read8 r1 = (0, r2)" "rests r2 (net16 0xB00D @ (?e @ net16 1 @ net16 0xE020 @ net32 PAT_crc) @ xs)"
    using rests_read8 [OF 1(2)] by blast
  obtain r3 where 3: "br_read16 r2 = (0xB00D, r3)" "rests r3 ((?e @ net16 1 @ net16 0xE020 @ net32 PAT_crc) @ xs)"
    using rests_read16 [OF 2(2)] by blast
  have len: "unat (0xB00D AND 0x03FF :: u16) = 13" by simp
  have 4: "rests (snd (br_shrink 13 r3)) (?e @ net16 1 @ net16 0xE020 @ net32 PAT_crc)" by (rule rests_shrink [OF 3(2)]) simp
  obtain r5 where 5: "snd (br_next 5 (snd (br_shrink 13 r3))) = r5" "rests r5 (net16 1 @ net16 0xE020 @ net32 PAT_crc)"
    using rests_next [OF 4, of 5] by auto
  obtain r6 where 6: "snd (br_next 2 r5) = r6" "rests r6 (net16 0xE020 @ net32 PAT_crc)" using rests_next [OF 5(2), of 2] by auto
  obtain r7 where 7: "br_read16 r6 = (0xE020, r7)" "rests r7 (net32 PAT_crc @ [])" using rests_read16 [OF 6(2)] by auto
  have a: "br_available r5 = 8" "br_available r7 = 4" using rests_length [OF 5(2)] rests_length [OF 7(2)] by simp_all
  have "pmt_pids (Suc n) r5 [] = pmt_pids n r7 [(0x20, 0xFF)]" "pmt_pids (Suc n) r7 m = (m, r7)" for n m
    by (simp_all add: a 6(1) 7(1))
  from this(1) [of 7] this(2) [of 6] have p: "pmt_pids 8 r5 [] = ([(0x20, 0xFF)], r7)" by simp
  have 8: "br_read32 r7 = (PAT_crc, br_adv 4 r7)" using rests_read32 [OF 7(2)] by blast
  show ?thesis
    using assms PAT_crc_some
    by (auto simp: parsePAT_def 1(1) z 2(1) 3(1) len 5(1) a p 8 known_def Let_def)
qed

text \<open>The programs of the second table: a type and a program each.\<close>

definition entry :: "u8 \<times> u16 \<Rightarrow> bytes" where
  "entry e = (let (type, pid) = e in type # net16 (0xE000 OR pid) @ net16 0xF000)"

lemma length_entry [simp]: "length (entry e) = 5"
  by (cases e) (simp add: entry_def)

lemma length_entries: "length (concat (map entry es)) = 5 * length es"
  by (induction es) simp_all

lemma pid_masked: "unat (pid :: u16) < 2 ^ 13 \<Longrightarrow> (0xE000 OR pid) AND 0x1FFF = pid"
proof -
  assume a: "unat pid < 2 ^ 13"
  have b: "bit pid i \<Longrightarrow> i < 13" for i using a by (rule bit_small)
  have m: "bit (0x1FFF :: u16) i \<longleftrightarrow> i < 13" for i
  proof -
    have "(0x1FFF :: u16) = mask 13" by (simp add: mask_eq_exp_minus_1)
    then show ?thesis by (auto simp only: bit_mask_iff possible_bit_word) simp_all
  qed
  have k: "(0xE000 :: u16) AND 0x1FFF = 0" by simp
  have "pid AND 0x1FFF = pid" by (rule bit_word_eqI, simp only: bit_and_iff m) (auto dest: b)
  then show ?thesis using k by (simp only: and.commute [of "_ OR _"] bit.conj_disj_distrib) (simp add: and.commute)
qed

lemma esi_none: "esi_loop n track 0 r s = (r, s)"
  by (cases n) simp_all

definition same_tables :: "ts_reader \<Rightarrow> ts_reader \<Rightarrow> bool" where
  "same_tables s s' \<longleftrightarrow> tr_crcPAT s' = tr_crcPAT s \<and> tr_pmts s' = tr_pmts s \<and> tr_startTime s' = tr_startTime s
     \<and> tr_propChanged s' = tr_propChanged s \<and> ts_clean s' = ts_clean s"

definition listed :: "u16 set \<Rightarrow> ts_reader \<Rightarrow> ts_reader \<Rightarrow> bool" where
  "listed pids s s' \<longleftrightarrow>
     (\<forall>pid. if pid \<in> pids
       then \<exists>p. map_of (tr_programs s') pid = Some p \<and> tp_reader p \<noteq> TrNone \<and> tp_sequence p = tp_sequence (program_at pid s)
       else map_of (tr_programs s') pid = map_of (tr_programs s) pid)"

lemma program_kind_some: "program_kind v = Some (type, reader) \<Longrightarrow> reader \<noteq> TrNone"
  by (auto simp: program_kind_def split: if_splits)

lemma program_set_fields:
  "program_set pid type reader p = (p', cs) \<Longrightarrow>
     tp_reader p' = reader \<and> tp_sequence p' = tp_sequence p \<and> (\<forall>pid. es_bytes pid cs = [])"
  by (auto simp: program_set_def program_flush_def split: if_splits)

lemma listed_put:
  "tp_reader p \<noteq> TrNone \<Longrightarrow> tp_sequence p = tp_sequence (program_at pid s) \<Longrightarrow> tr_programs t = tr_programs s \<Longrightarrow> listed {pid} s (tr_put pid p t)"
  by (simp add: listed_def)

lemma pmt_step:
  assumes "rests r (entry (type, pid) @ xs)" and "program_kind type = Some (kind, reader)" and "unat pid < 2 ^ 13"
    and "4 < length (entry (type, pid) @ xs)"
  shows "\<exists>r' s1 cs. rests r' xs \<and> (\<forall>pid. es_bytes pid cs = []) \<and> same_tables s s1 \<and> listed {pid} s s1
    \<and> pmt_loop (Suc n) r s = (let (s', cs') = pmt_loop n r' s1 in (s', cs @ cs'))"
proof -
  have a: "br_available r > 4" using assms(4) rests_length [OF assms(1)] by simp
  have 0: "rests r (type # net16 (0xE000 OR pid) @ net16 0xF000 @ xs)" using assms(1) by (simp add: entry_def)
  obtain r1 where 1: "br_read8 r = (type, r1)" "rests r1 (net16 (0xE000 OR pid) @ net16 0xF000 @ xs)" using rests_read8 [OF 0] by blast
  obtain r2 where 2: "br_read16 r1 = (0xE000 OR pid, r2)" "rests r2 (net16 0xF000 @ xs)" using rests_read16 [OF 1(2)] by blast
  obtain r3 where 3: "br_read16 r2 = (0xF000, r3)" "rests r3 xs" using rests_read16 [OF 2(2)] by blast
  obtain p cs where p: "program_set pid kind reader (program_at pid s) = (p, cs)" by fastforce
  note f = program_set_fields [OF p]
  let ?old = "tp_type (program_at pid s)"
  let ?s = "if ?old \<noteq> kind \<and> kind = PtAudio then s\<lparr>tr_audioTrack := tr_audioTrack s + 1\<rparr>
            else if ?old \<noteq> kind then s\<lparr>tr_videoTrack := tr_videoTrack s + 1\<rparr> else s"
  let ?p = "if ?old \<noteq> kind then p\<lparr>tp_track := (if kind = PtAudio then tr_audioTrack ?s else tr_videoTrack ?s)\<rparr> else p"
  have z: "(0xF000 AND 0x0FFF :: u16) = 0" by simp
  have "same_tables s (tr_put pid ?p ?s)" by (simp add: same_tables_def ts_clean_def tr_put_def)
  moreover have "tp_reader ?p \<noteq> TrNone" "tp_sequence ?p = tp_sequence (program_at pid s)"
    using f program_kind_some [OF assms(2)] by simp_all
  then have "listed {pid} s (tr_put pid ?p ?s)" by (intro listed_put) simp_all
  moreover have "readESI (tp_track ?p) r2 (tr_put pid ?p ?s) = (r3, tr_put pid ?p ?s)" by (simp add: readESI_def 3(1) esi_none)
  then have "pmt_loop (Suc n) r s = (let (s', cs') = pmt_loop n r3 (tr_put pid ?p ?s) in (s', cs @ cs'))"
    by (simp only: pmt_loop.simps(2) a if_True Let_def 1(1) prod.case 2(1) pid_masked [OF assms(3)] assms(2) option.case p)
  ultimately show ?thesis using 3(2) f by blast
qed

lemma same_tables_trans: "same_tables s t \<Longrightarrow> same_tables t u \<Longrightarrow> same_tables s u"
  by (simp add: same_tables_def)

lemma program_at_listed: "listed {pid'} s s1 \<Longrightarrow> tp_sequence (program_at pid s1) = tp_sequence (program_at pid s)"
  by (cases "pid = pid'") (auto simp: listed_def program_at_def split: option.splits dest: spec [of _ pid])

lemma listed_trans: "listed {pid} s s1 \<Longrightarrow> listed pids s1 s2 \<Longrightarrow> listed (insert pid pids) s s2"
proof -
  assume a: "listed {pid} s s1" and b: "listed pids s1 s2"
  show ?thesis
    unfolding listed_def
  proof
    fix q
    note a' = a [unfolded listed_def, THEN spec, of q] and b' = b [unfolded listed_def, THEN spec, of q]
    show "if q \<in> insert pid pids
       then \<exists>p. map_of (tr_programs s2) q = Some p \<and> tp_reader p \<noteq> TrNone \<and> tp_sequence p = tp_sequence (program_at q s)
       else map_of (tr_programs s2) q = map_of (tr_programs s) q"
      using a' b' program_at_listed [OF a, of q] by (auto split: if_splits)
  qed
qed

lemma pmt_loop_entries:
  "rests r (concat (map entry es) @ crc) \<Longrightarrow> length crc = 4 \<Longrightarrow> \<forall>(type, pid) \<in> set es. program_kind type \<noteq> None \<and> unat pid < 2 ^ 13 \<Longrightarrow>
   length es \<le> n \<Longrightarrow>
   \<exists>s' cs. pmt_loop n r s = (s', cs) \<and> (\<forall>pid. es_bytes pid cs = []) \<and> same_tables s s' \<and> listed (snd ` set es) s s'"
proof (induction es arbitrary: r n s)
  case Nil
  then have "br_available r = 4" using rests_length by fastforce
  then have "pmt_loop n r s = (s, [])" by (cases n) simp_all
  then show ?case by (simp add: same_tables_def listed_def)
next
  case (Cons e es)
  obtain type pid where e: "e = (type, pid)" by fastforce
  obtain m where n: "n = Suc m" "length es \<le> m" using Cons.prems(4) by (cases n) auto
  have r: "rests r (entry (type, pid) @ concat (map entry es) @ crc)" using Cons.prems(1) e by simp
  obtain kind reader where k: "program_kind type = Some (kind, reader)" "unat pid < 2 ^ 13" using Cons.prems(3) e by auto
  obtain r' s1 cs where s: "rests r' (concat (map entry es) @ crc)" "\<forall>pid. es_bytes pid cs = []" "same_tables s s1" "listed {pid} s s1"
    "pmt_loop n r s = (let (s', cs') = pmt_loop m r' s1 in (s', cs @ cs'))"
    using pmt_step [OF r k, of s m] Cons.prems(2) n by auto
  obtain s' cs' where t: "pmt_loop m r' s1 = (s', cs')" "\<forall>pid. es_bytes pid cs' = []" "same_tables s1 s'" "listed (snd ` set es) s1 s'"
    using Cons.IH [OF s(1) Cons.prems(2) _ n(2), of s1] Cons.prems(3) by auto
  have "listed (snd ` set (e # es)) s s'" using listed_trans [OF s(4) t(4)] by (simp add: e)
  then show ?case using s(2,5) t(1,2) same_tables_trans [OF s(3) t(3)] by simp
qed

text \<open>The second table, on its bytes.\<close>

definition pmt_body :: "u8 \<Rightarrow> u16 \<Rightarrow> (u8 \<times> u16) list \<Rightarrow> bytes" where
  "pmt_body v pcr es = net16 1 @ [0xC1 OR push_bit 1 v] @ net16 0 @ net16 pcr @ net16 0xF000 @ concat (map entry es)"

definition pmt_length :: "(u8 \<times> u16) list \<Rightarrow> u16" where
  "pmt_length es = 0xB000 OR ((word_of_nat (17 + 5 * length es) - 4) AND 0x3FF)"

lemma length_pmt_body: "length (pmt_body v pcr es) = 9 + 5 * length es"
  by (simp add: pmt_body_def length_entries)

lemma version_bits: "drop_bit 1 (0xC1 OR push_bit 1 (v mod 32) :: u8) AND 0x1F = v mod 32"
proof -
  have t: "v mod 32 = take_bit 5 v" by (simp add: take_bit_eq_mod)
  have m: "bit (0x1F :: u8) i \<longleftrightarrow> i < 5" for i
  proof -
    have "(0x1F :: u8) = mask 5" by (simp add: mask_eq_exp_minus_1)
    then show ?thesis by (auto simp only: bit_mask_iff possible_bit_word) simp_all
  qed
  have k: "drop_bit 1 (0xC1 :: u8) AND 0x1F = 0" by simp
  have "drop_bit 1 (push_bit 1 (take_bit 5 v)) AND 0x1F = take_bit 5 v"
    by (rule bit_word_eqI, simp only: bit_and_iff bit_drop_bit_eq bit_push_bit_iff bit_take_bit_iff possible_bit_word m o_apply) auto
  then show ?thesis
    unfolding t drop_bit_or using k by (simp only: and.commute [of "_ OR _"] bit.conj_disj_distrib) (simp only: and.commute or_eq_0_iff or.left_neutral)
qed

lemma pmt_length_read: "length es \<le> 33 \<Longrightarrow> unat (pmt_length es AND 0x3FF) = 13 + 5 * length es"
proof -
  assume n: "length es \<le> 33"
  have m: "(0x3FF :: u16) = mask 10" by (simp add: mask_eq_exp_minus_1)
  have k: "(0xB000 :: u16) AND 0x3FF = 0" by simp
  have w: "(word_of_nat (17 + 5 * length es) - 4 :: u16) = word_of_nat (13 + 5 * length es)" by simp
  have u: "unat (word_of_nat (13 + 5 * length es) :: u16) = 13 + 5 * length es" using n by (intro unat_of_nat_small) simp
  have "pmt_length es AND 0x3FF = word_of_nat (13 + 5 * length es) AND 0x3FF"
    unfolding pmt_length_def w using k
    by (simp only: and.commute [of "_ OR _"] bit.conj_disj_distrib) (simp only: and.commute and.left_commute and.left_idem or.left_neutral)
  also have "\<dots> = take_bit 10 (word_of_nat (13 + 5 * length es))" unfolding m by (simp only: take_bit_eq_mask)
  also have "\<dots> = word_of_nat (13 + 5 * length es)"
  proof (rule take_bit_id_less)
    have "13 + 5 * length es < 2 ^ 10" using n by simp
    then show "unat (word_of_nat (13 + 5 * length es) :: u16) < 2 ^ 10" by (simp only: u)
  qed
  finally show ?thesis by (simp only: u)
qed

lemma listed_pmts: "listed pids (s\<lparr>tr_pmts := m\<rparr>) s' = listed pids s s'"
proof -
  have "program_at pid (s\<lparr>tr_pmts := m\<rparr>) = program_at pid s" for pid by (simp add: program_at_def)
  then show ?thesis unfolding listed_def by simp
qed

lemma parsePMT_written:
  assumes "\<forall>(type, pid) \<in> set es. program_kind type \<noteq> None \<and> unat pid < 2 ^ 13" and "length es \<le> 33" and "\<not> tr_propChanged s"
  shows "\<exists>s' cs. parsePMT 0x20 version (net16 (pmt_length es) @ pmt_body (v mod 32) pcr es @ net32 crc @ pad) s = (s', cs)
    \<and> (\<forall>pid. es_bytes pid cs = [])
    \<and> (if v mod 32 = version then s' = s
       else same_tables (s\<lparr>tr_pmts := map (\<lambda>(k, x). (k, if k = 0x20 then v mod 32 else x)) (tr_pmts s)\<rparr>) s'
         \<and> listed (snd ` set es) s s')"
proof -
  let ?d = "net16 (pmt_length es) @ pmt_body (v mod 32) pcr es @ net32 crc @ pad"
  have 0: "rests (net_reader ?d) (net16 (pmt_length es) @ (pmt_body (v mod 32) pcr es @ net32 crc) @ pad)"
    using rests_reader [of ?d] by simp
  obtain r1 where 1: "br_read16 (net_reader ?d) = (pmt_length es, r1)" "rests r1 ((pmt_body (v mod 32) pcr es @ net32 crc) @ pad)"
    using rests_read16 [OF 0] by blast
  have "length (pmt_body (v mod 32) pcr es @ net32 crc) = unat (pmt_length es AND 0x3FF)"
    using assms(2) by (simp add: pmt_length_read length_pmt_body)
  from rests_shrink [OF 1(2) this] obtain r2 where 2: "snd (br_shrink (unat (pmt_length es AND 0x03FF)) r1) = r2"
    "rests r2 (pmt_body (v mod 32) pcr es @ net32 crc)" by auto
  have a: "\<not> br_available r2 < 9" using rests_length [OF 2(2)] by (simp add: length_pmt_body)
  have b: "rests r2 (net16 1 @ (0xC1 OR push_bit 1 (v mod 32)) # net16 0 @ net16 pcr @ net16 0xF000 @ concat (map entry es) @ net32 crc)"
    using 2(2) by (simp add: pmt_body_def)
  obtain r3 where 3: "snd (br_next 2 r2) = r3" "rests r3 ((0xC1 OR push_bit 1 (v mod 32)) # net16 0 @ net16 pcr @ net16 0xF000 @ concat (map entry es) @ net32 crc)"
    using rests_next [OF b, of 2] by auto
  obtain r4 where 4: "br_read8 r3 = (0xC1 OR push_bit 1 (v mod 32), r4)" "rests r4 (net16 0 @ net16 pcr @ net16 0xF000 @ concat (map entry es) @ net32 crc)"
    using rests_read8 [OF 3(2)] by blast
  obtain r5 where 5: "snd (br_next 2 r4) = r5" "rests r5 (net16 pcr @ net16 0xF000 @ concat (map entry es) @ net32 crc)"
    using rests_next [OF 4(2), of 2] by auto
  obtain r6 where 6: "snd (br_next 2 r5) = r6" "rests r6 (net16 0xF000 @ concat (map entry es) @ net32 crc)"
    using rests_next [OF 5(2), of 2] by auto
  obtain r7 where 7: "br_read16 r6 = (0xF000, r7)" "rests r7 (concat (map entry es) @ net32 crc)"
    using rests_read16 [OF 6(2)] by blast
  have z: "snd (br_next (unat (0xF000 AND 0x0FFF :: u16)) r7) = r7" by (simp add: br_next_def)
  have l: "length es \<le> br_available r7" using rests_length [OF 7(2)] by (simp add: length_entries)
  let ?s = "s\<lparr>tr_pmts := map (\<lambda>(k, x). (k, if k = 0x20 then v mod 32 else x)) (tr_pmts s)\<rparr>"
  obtain s' cs where e: "pmt_loop (br_available r7) r7 ?s = (s', cs)" "\<forall>pid. es_bytes pid cs = []" "same_tables ?s s'" "listed (snd ` set es) ?s s'"
    using pmt_loop_entries [OF 7(2) _ assms(1) l, of ?s] by auto
  have p: "\<not> tr_propChanged s'" using e(3) assms(3) by (simp add: same_tables_def)
  have "listed (snd ` set es) s s'" using e(4) by (simp add: listed_pmts)
  then show ?thesis
    using e(1-3) p
    by (simp only: parsePMT_def 1(1) Let_def prod.case 2(1) a if_False 3(1) 4(1) version_bits 5(1) 6(1) 7(1) z) auto
qed

end
