(* ===== verification/TSPackets.thy ===== *)
theory TSPackets
  imports TSTables
begin

text \<open>
  The packets of \<open>TSWriter\<close> read by \<open>TSReader\<close>, one at a time: what both sides know of the tracks and of the counters,
  and the first packet, the next ones and the time references of a unit.
\<close>

section \<open>The tables of a writer\<close>

definition ts_entries :: "ts_writer \<Rightarrow> (u8 \<times> u16) list" where
  "ts_entries w =
     map (\<lambda>(k, t). (if tt_codec t = VIDEO_CODEC_HEVC then 0x24 else 0x1B, video_pid k)) (ts_videos w)
     @ map (\<lambda>(k, t). (if tt_writer t \<noteq> TwNone then 0x0F else 0x03, audio_pid k)) (ts_audios w)"

definition tracks_ok :: "ts_writer \<Rightarrow> bool" where
  "tracks_ok w \<longleftrightarrow> length (ts_videos w) + length (ts_audios w) \<le> 33
     \<and> (\<forall>(k, t) \<in> set (ts_videos w). unat k < 223 \<and> tt_langs t = []) \<and> (\<forall>(k, t) \<in> set (ts_audios w). tt_langs t = [])"

definition track_pids :: "ts_writer \<Rightarrow> u16 set" where
  "track_pids w = snd ` set (ts_entries w)"

lemma unat_pids: "unat (video_pid k) = 33 + unat k" "unat (audio_pid k) = 256 + unat k"
proof -
  have l: "unat k < 256" using unat_u8_less [of k] by simp
  have "(2 :: nat) ^ LENGTH(16) = 65536" by simp
  then have u: "unat (ucast k :: u16) = unat k" by (subst unsigned_ucast_eq, intro take_bit_nat_eq_self) (use l in linarith)
  have c: "unat (33 :: u16) = 33" "unat (256 :: u16) = 256" "(2 :: nat) ^ LENGTH(16) = 65536" by simp_all
  have "unat (33 + ucast k :: u16) = unat (33 :: u16) + unat (ucast k :: u16)" "unat (256 + ucast k :: u16) = unat (256 :: u16) + unat (ucast k :: u16)"
    unfolding unat_add_lem [symmetric] unfolding u c using l by linarith+
  then show "unat (video_pid k) = 33 + unat k" "unat (audio_pid k) = 256 + unat k"
    unfolding video_pid_def audio_pid_def u c by blast+
qed

lemma pid_ok_tracks: "pid_ok (video_pid k)" "pid_ok (audio_pid k)" "video_pid k \<noteq> 0x20" "audio_pid k \<noteq> 0x20"
proof -
  have l: "unat k < 256" using unat_u8_less [of k] by simp
  have n: "unat (0 :: u16) = 0" "unat (0x1FFF :: u16) = 0x1FFF" "unat (0x20 :: u16) = 0x20" by simp_all
  have a: "33 + unat k < 0x1FFF" "256 + unat k < 0x1FFF" using l by linarith+
  have "(2 :: nat) ^ 13 = 0x2000" by simp
  then show "pid_ok (video_pid k)" "pid_ok (audio_pid k)" unfolding pid_ok_def word_unat_eq_iff n unat_pids using a by linarith+
  show "video_pid k \<noteq> 0x20" "audio_pid k \<noteq> 0x20" unfolding word_unat_eq_iff n unat_pids by auto
qed

lemma track_pids_ok: "pid \<in> track_pids w \<Longrightarrow> pid_ok pid \<and> pid \<noteq> 0x20"
  using pid_ok_tracks by (auto simp: track_pids_def ts_entries_def)

lemma entries_ok: "\<forall>(type, pid) \<in> set (ts_entries w). program_kind type \<noteq> None \<and> unat pid < 2 ^ 13"
proof -
  have "unat (video_pid k) < 2 ^ 13" "unat (audio_pid k) < 2 ^ 13" for k
    using pid_ok_tracks(1,2) unfolding pid_ok_def by blast+
  then show ?thesis by (auto simp: ts_entries_def program_kind_def)
qed

lemma entry_video: "tt_langs t = [] \<Longrightarrow> pmt_video k t = entry (if tt_codec t = VIDEO_CODEC_HEVC then 0x24 else 0x1B, video_pid k)"
  by (simp add: pmt_video_def entry_def Let_def)

lemma entry_audio: "tt_langs t = [] \<Longrightarrow> pmt_audio k t = entry (if tt_writer t \<noteq> TwNone then 0x0F else 0x03, audio_pid k)"
  by (simp add: pmt_audio_def entry_def Let_def)

lemma programs_entries:
  "tracks_ok w \<Longrightarrow> track_pids w \<noteq> {} \<Longrightarrow>
   pmt_programs w = net16 (0xE000 OR pmt_pidPCR w) @ net16 0xF000 @ concat (map entry (ts_entries w))"
proof -
  assume a: "tracks_ok w" and n: "track_pids w \<noteq> {}"
  have v: "map (\<lambda>(k, t). pmt_video k t) (ts_videos w) = map (entry \<circ> (\<lambda>(k, t). (if tt_codec t = VIDEO_CODEC_HEVC then 0x24 else 0x1B, video_pid k))) (ts_videos w)"
    using a by (auto simp: tracks_ok_def entry_video intro!: map_cong)
  have u: "map (\<lambda>(k, t). pmt_audio k t) (ts_audios w) = map (entry \<circ> (\<lambda>(k, t). (if tt_writer t \<noteq> TwNone then 0x0F else 0x03, audio_pid k))) (ts_audios w)"
    using a by (auto simp: tracks_ok_def entry_audio intro!: map_cong)
  have b: "(ts_videos w \<noteq> [] \<or> ts_audios w \<noteq> []) = True" using n by (auto simp: track_pids_def ts_entries_def)
  show ?thesis unfolding pmt_programs_def b v u pmt_pcr_def ts_entries_def by simp
qed

lemma pidPCR_listed: "track_pids w \<noteq> {} \<Longrightarrow> pmt_pidPCR w \<in> track_pids w"
  by (auto simp: pmt_pidPCR_def track_pids_def ts_entries_def split: list.split)

definition pmt_rest :: "ts_writer \<Rightarrow> bytes" where
  "pmt_rest w =
     (let body = pmt_body (ts_version w mod 32) (0xE000 OR pmt_pidPCR w) (ts_entries w); crc = ComputeCRC32 (2 # net16 (pmt_length (ts_entries w)) @ body)
      in net16 (pmt_length (ts_entries w)) @ body @ net32 crc @ replicate (167 - 5 * length (ts_entries w)) 0xFF)"

lemma ts_table_PMT:
  assumes "tracks_ok w" "track_pids w \<noteq> {}"
  shows "ts_table (ts_PMT c w) = Some (0x47 # 0x60 # 0x20 # c # 0 # 2 # pmt_rest w) \<and> length (pmt_rest w) = 182"
proof -
  let ?body = "pmt_body (ts_version w mod 32) (0xE000 OR pmt_pidPCR w) (ts_entries w)"
  have n: "length (ts_entries w) \<le> 33" using assms(1) by (simp add: tracks_ok_def ts_entries_def)
  have l: "length ?body = 9 + 5 * length (ts_entries w)" by (rule length_pmt_body)
  have e: "8 + length ?body = 17 + 5 * length (ts_entries w)" using l by simp
  have m: "ts_PMT c w = 0x47 # 0x60 # 0x20 # c # net16 2 @ net16 (pmt_length (ts_entries w)) @ ?body"
    using e unfolding ts_PMT_def programs_entries [OF assms] pmt_body_def [symmetric] pmt_length_def Let_def by simp
  have t: "net16 2 = [0, 2]" by (simp add: net16_bytes)
  show ?thesis
    using n l unfolding ts_table_def m t ts_pad_def pmt_rest_def by (simp add: Let_def)
qed

definition ts_reads :: "ts_reader \<Rightarrow> u16 \<Rightarrow> bool" where
  "ts_reads s pid \<longleftrightarrow> (\<exists>p. map_of (tr_programs s) pid = Some p \<and> tp_reader p \<noteq> TrNone)"

definition ts_ready :: "ts_writer \<Rightarrow> ts_reader \<Rightarrow> bool" where
  "ts_ready w s \<longleftrightarrow> \<not> ts_changed w \<and> ts_pidPCR w \<in> track_pids w \<and> (\<forall>pid \<in> track_pids w. ts_reads s pid)"

definition agrees :: "ts_writer \<Rightarrow> ts_reader \<Rightarrow> bool" where
  "agrees w s \<longleftrightarrow> ts_clean s \<and> \<not> tr_propChanged s \<and> map_of (tr_programs s) 0x20 = None
     \<and> (\<forall>pid. pid_ok pid \<and> pid \<noteq> 0x20 \<longrightarrow> seq_ok (ts_pids w pid) (tp_sequence (program_at pid s)))
     \<and> (tr_crcPAT s = 0 \<and> ts_changed w
        \<or> tr_crcPAT s = PAT_crc \<and> tr_pmts s = [(0x20, ts_version w mod 32)] \<and> (ts_changed w \<or> ts_ready w s))"

definition frame :: "ts_writer \<Rightarrow> ts_writer \<Rightarrow> bool" where
  "frame w w' \<longleftrightarrow> ts_videos w' = ts_videos w \<and> ts_audios w' = ts_audios w \<and> ts_canWrite w' = ts_canWrite w \<and> ts_toWrite w' = ts_toWrite w"

lemma PAT_plays:
  assumes "ts_clean s" "tr_crcPAT s = 0 \<or> tr_crcPAT s = PAT_crc"
  shows "\<exists>b. ts_table (ts_PAT (ts_counter 0x10 0 w)) = Some b \<and> plays tie b s [] (known s)"
proof -
  let ?d = "0x60 # 0 # ts_counter 0x10 0 w # 0 # PAT_body @ net32 PAT_crc @ replicate 167 0xFF"
  have l: "length PAT_body = 12" by (simp add: PAT_body_def)
  have p: "ts_packet tie ?d s = (known s, [])"
    unfolding ts_counter_def table_packet(1) by (rule parsePAT_written [OF assms(2)])
  have c: "ts_clean (known s)" using assms(1) by (simp add: ts_clean_def known_def)
  have "plays tie (0x47 # ?d) s [] (known s)" by (rule plays_one [OF assms(1) _ p c]) (simp add: l)
  then show ?thesis by (simp add: ts_table_PAT)
qed

lemma version_step: "(v + 1) mod 32 \<noteq> (v :: u8) mod 32" "(v :: u8) mod 32 \<noteq> 0xFF"
proof -
  have u: "uint (x mod 32) = uint x mod 32" for x :: u8 by (simp add: uint_mod)
  have i: "(x + 1) mod 32 \<noteq> x mod 32" "x mod 32 \<noteq> 255" for x :: int by presburger+
  have "uint ((v + 1) mod 32) = (uint v + 1) mod 32" unfolding u by (simp add: uint_word_ariths mod_mod_cancel)
  then show "(v + 1) mod 32 \<noteq> v mod 32" unfolding word_uint_eq_iff using u [of v] i(1) [of "uint v"] by metis
  have "uint (0xFF :: u8) = 255" by simp
  then show "v mod 32 \<noteq> 0xFF" unfolding word_uint_eq_iff using u [of v] i(2) [of "uint v"] by metis
qed

lemma known_fields:
  assumes "tr_crcPAT s = 0 \<or> tr_crcPAT s = PAT_crc"
  shows "tr_crcPAT (known s) = PAT_crc" "tr_programs (known s) = tr_programs s" "tr_propChanged (known s) = tr_propChanged s"
    "ts_clean (known s) = ts_clean s" "tr_startTime (known s) = tr_startTime s"
    "tr_pmts (known s) = (if tr_crcPAT s = 0 then [(0x20, 0xFF)] else tr_pmts s)"
  using assms by (auto simp: known_def ts_clean_def)

lemma PMT_plays:
  assumes "ts_clean s" "\<not> tr_propChanged s" "map_of (tr_programs s) 0x20 = None" "tr_pmts s = [(0x20, x)]"
    and "tracks_ok w" "track_pids w \<noteq> {}"
  shows "\<exists>b s' cs. ts_table (ts_PMT (ts_counter 0x10 0x20 w') w) = Some b \<and> plays tie b s cs s' \<and> (\<forall>pid. es_bytes pid cs = [])
    \<and> (if ts_version w mod 32 = x then s' = s
       else same_tables (s\<lparr>tr_pmts := [(0x20, ts_version w mod 32)]\<rparr>) s' \<and> listed (track_pids w) s s')"
proof -
  let ?c = "ts_counter 0x10 0x20 w'"
  note t = ts_table_PMT [OF assms(5,6), of ?c]
  have n: "length (ts_entries w) \<le> 33" using assms(5) by (simp add: tracks_ok_def ts_entries_def)
  have m: "map (\<lambda>(k, y). (k, if k = 0x20 then v else y)) (tr_pmts s) = [(0x20, v)]" for v using assms(4) by simp
  obtain s' cs where p: "parsePMT 0x20 x (pmt_rest w) s = (s', cs)" "\<forall>pid. es_bytes pid cs = []"
    "if ts_version w mod 32 = x then s' = s
     else same_tables (s\<lparr>tr_pmts := [(0x20, ts_version w mod 32)]\<rparr>) s' \<and> listed (track_pids w) s s'"
    using parsePMT_written [OF entries_ok n assms(2), of x "ts_version w" "0xE000 OR pmt_pidPCR w"] unfolding m track_pids_def pmt_rest_def Let_def
    by blast
  have k: "ts_packet tie (0x60 # 0x20 # ?c # 0 # 2 # pmt_rest w) s = (s', cs)"
    unfolding ts_counter_def table_packet(2) [OF assms(3)] using p(1) assms(4) t by (cases "pmt_rest w") simp_all
  have c: "ts_clean s'" using p(3) assms(1) by (auto simp: same_tables_def ts_clean_def split: if_splits)
  have "plays tie (0x47 # 0x60 # 0x20 # ?c # 0 # 2 # pmt_rest w) s cs s'"
    by (rule plays_one [OF assms(1) _ k c]) (use t in simp)
  then show ?thesis using t p(2,3) by blast
qed

lemma program_at_kept: "listed pids s s' \<Longrightarrow> tp_sequence (program_at pid s') = tp_sequence (program_at pid s)"
  by (cases "pid \<in> pids") (auto simp: listed_def program_at_def split: option.splits dest: spec [of _ pid])

lemma writePMT_plays:
  assumes "agrees w s" "tracks_ok w" "track_pids w \<noteq> {}"
  shows "\<exists>b w' s' cs. writePMT time w = Some (b, w') \<and> plays tie b s cs s' \<and> (\<forall>pid. es_bytes pid cs = [])
    \<and> agrees w' s' \<and> ts_ready w' s' \<and> frame w w' \<and> tr_startTime s' = tr_startTime s"
proof -
  let ?w = "if ts_changed w then w\<lparr>ts_version := ts_version w + 1, ts_changed := False\<rparr> else w"
  let ?x = "if tr_crcPAT s = 0 then 0xFF else ts_version w mod 32"
  let ?w1 = "ts_count 0 ?w"
  let ?w' = "(ts_count 0x20 ?w1)\<lparr>ts_pidPCR := pmt_pidPCR ?w1, ts_timePMT := time\<rparr>"
  have a: "ts_clean s" "\<not> tr_propChanged s" "map_of (tr_programs s) 0x20 = None"
    "\<And>pid. pid_ok pid \<Longrightarrow> pid \<noteq> 0x20 \<Longrightarrow> seq_ok (ts_pids w pid) (tp_sequence (program_at pid s))"
    "tr_crcPAT s = 0 \<and> ts_changed w \<or> tr_crcPAT s = PAT_crc \<and> tr_pmts s = [(0x20, ts_version w mod 32)] \<and> (ts_changed w \<or> ts_ready w s)"
    using assms(1) by (auto simp: agrees_def)
  have crc: "tr_crcPAT s = 0 \<or> tr_crcPAT s = PAT_crc" using a(5) by auto
  note k = known_fields [OF crc]
  have x: "tr_pmts (known s) = [(0x20, ?x)]" using a(5) PAT_crc_some unfolding k(6) by auto
  have w1: "ts_videos ?w1 = ts_videos w" "ts_audios ?w1 = ts_audios w" by (simp_all add: ts_count_def)
  have e: "ts_entries ?w1 = ts_entries w" by (simp only: ts_entries_def w1)
  have t: "tracks_ok ?w1" "track_pids ?w1 = track_pids w" using assms(2) unfolding tracks_ok_def w1 track_pids_def e by blast+
  have ne: "track_pids ?w1 \<noteq> {}" using assms(3) t(2) by simp
  obtain b1 where b1: "ts_table (ts_PAT (ts_counter 0x10 0 ?w)) = Some b1" "plays tie b1 s [] (known s)"
    using PAT_plays [OF a(1) crc] by blast
  have q: "ts_clean (known s)" "\<not> tr_propChanged (known s)" "map_of (tr_programs (known s)) 0x20 = None" using k a(1-3) by simp_all
  obtain b2 s' cs where b2: "ts_table (ts_PMT (ts_counter 0x10 0x20 ?w1) ?w1) = Some b2" "plays tie b2 (known s) cs s'" "\<forall>pid. es_bytes pid cs = []"
    "if ts_version ?w1 mod 32 = ?x then s' = known s
     else same_tables ((known s)\<lparr>tr_pmts := [(0x20, ts_version ?w1 mod 32)]\<rparr>) s' \<and> listed (track_pids ?w1) (known s) s'"
    using PMT_plays [OF q x t(1) ne] by blast
  have p: "plays tie (b1 @ b2) s cs s'" using plays_append [OF b1(2) b2(2)] by simp
  have wr: "writePMT time w = Some (b1 @ b2, ?w')" unfolding writePMT_def Let_def using b1(1) b2(1) by simp
  have e': "track_pids ?w' = track_pids w" by (simp add: track_pids_def ts_entries_def ts_count_def)
  have ver: "ts_version ?w' = (if ts_changed w then ts_version w + 1 else ts_version w)" "ts_version ?w1 = ts_version ?w'"
    by (simp_all add: ts_count_def)
  have pids: "pid \<noteq> 0 \<Longrightarrow> pid \<noteq> 0x20 \<Longrightarrow> ts_pids ?w' pid = ts_pids w pid" for pid by (simp add: ts_count_def)
  have pa: "program_at pid (known s) = program_at pid s" for pid by (simp add: program_at_def k(2))
  have kept: "ts_version ?w1 mod 32 = ?x \<longleftrightarrow> \<not> ts_changed w"
  proof (cases "ts_changed w")
    case True
    have "ts_version ?w1 = ts_version w + 1" using True unfolding ver by (simp only: if_True)
    moreover have "(ts_version w + 1) mod 32 \<noteq> ?x"
      using version_step(1) [of "ts_version w"] version_step(2) [of "ts_version w + 1"] by (simp only: split: if_split) blast
    ultimately show ?thesis using True by (simp only: not_True_eq_False) 
  next
    case False
    have "ts_version ?w1 = ts_version w" using False unfolding ver by (simp only: if_False)
    moreover have "tr_crcPAT s \<noteq> 0" using a(5) False PAT_crc_some by auto
    ultimately show ?thesis using False by (simp only: if_False not_False_eq_True simp_thms(6))
  qed
  have sq: "tp_sequence (program_at pid s') = tp_sequence (program_at pid s)" for pid
  proof (cases "ts_changed w")
    case True
    then have "listed (track_pids ?w1) (known s) s'" using b2(4) kept by simp
    from program_at_kept [OF this] show ?thesis using pa by simp
  next
    case False
    then have "s' = known s" using b2(4) kept by simp
    then show ?thesis using pa by simp
  qed
  have r0: "(\<forall>pid \<in> track_pids w. ts_reads s' pid) \<and> map_of (tr_programs s') 0x20 = None \<and> ts_clean s' \<and> \<not> tr_propChanged s' \<and> tr_crcPAT s' = PAT_crc
      \<and> tr_startTime s' = tr_startTime s \<and> tr_pmts s' = [(0x20, ts_version ?w' mod 32)]"
  proof (cases "ts_changed w")
    case True
    have "listed (track_pids w) (known s) s'" and st: "same_tables ((known s)\<lparr>tr_pmts := [(0x20, ts_version ?w1 mod 32)]\<rparr>) s'"
      using b2(4) kept True t(2) by simp_all
    then have l: "\<forall>pid \<in> track_pids w. ts_reads s' pid" "\<forall>pid. pid \<notin> track_pids w \<longrightarrow> map_of (tr_programs s') pid = map_of (tr_programs s) pid"
      unfolding listed_def ts_reads_def k(2) by (meson)+
    have "0x20 \<notin> track_pids w" using track_pids_ok by blast
    then show ?thesis
      using l st a(1-3) ver k unfolding same_tables_def by (simp add: ts_clean_def)
  next
    case False
    then have s: "s' = known s" using b2(4) kept by simp
    have "ts_ready w s" "tr_pmts s = [(0x20, ts_version w mod 32)]" "tr_crcPAT s = PAT_crc" using a(5) False by auto
    then show ?thesis
      using a(1-3) k False PAT_crc_some unfolding s by (simp add: ts_ready_def ts_reads_def ts_count_def)
  qed
  then have r: "\<forall>pid \<in> track_pids w. ts_reads s' pid" "map_of (tr_programs s') 0x20 = None"
    "ts_clean s'" "\<not> tr_propChanged s'" "tr_crcPAT s' = PAT_crc" "tr_startTime s' = tr_startTime s" "tr_pmts s' = [(0x20, ts_version ?w' mod 32)]"
    by blast+
  have rd: "ts_ready ?w' s'"
    using r(1) pidPCR_listed [OF ne] t(2) e' unfolding ts_ready_def by (simp add: ts_count_def)
  have "pid \<noteq> 0" if "pid_ok pid" for pid using that by (simp add: pid_ok_def)
  then have "agrees ?w' s'" unfolding agrees_def using r rd a(4) sq pids by simp
  moreover have "frame w ?w'" by (simp add: frame_def ts_count_def)
  ultimately show ?thesis using wr p b2(3) rd r(6) by blast
qed

section \<open>The packets of a unit\<close>

definition ts_clocked :: "ts_writer \<Rightarrow> ts_writer \<Rightarrow> bool" where
  "ts_clocked w w' \<longleftrightarrow> (\<exists>t f. w' = w\<lparr>ts_timePCR := t, ts_firstPCR := f\<rparr>)"

lemma clocked_self: "ts_clocked w w"
proof -
  have "w = w\<lparr>ts_timePCR := ts_timePCR w, ts_firstPCR := ts_firstPCR w\<rparr>" by simp
  then show ?thesis unfolding ts_clocked_def by blast
qed

lemma adaptive_shape:
  assumes "n \<noteq> 0"
  shows "\<exists>field w'. writeAdaptiveHeader pid time ra n w = (field, w') \<and> length field = unat n \<and> field_ok 0x30 field \<and> ts_clocked w w'"
proof -
  have u: "unat (n - 1) = unat n - 1" "unat n \<noteq> 0" using assms by (simp_all add: unat_minus_one unat_eq_0)
  have f: "field_ok 0x30 ((n - 1) # b @ replicate (unat n - length ((n - 1) # b)) 0xFF)"
    "length ((n - 1) # b @ replicate (unat n - length ((n - 1) # b)) 0xFF) = unat n" if "length b < unat n" for b :: bytes
    using that u by (simp_all add: field_ok_def)
  let ?timed = "n - 1 \<ge> 7 \<and> pid = ts_pidPCR w \<and> time > ts_timePCR w"
  have t: "7 < unat n" if ?timed
  proof -
    have "unat (7 :: u8) \<le> unat (n - 1)" using that by (simp only: word_le_nat_alt)
    moreover have "unat (7 :: u8) = 7" by simp
    ultimately show ?thesis using u by linarith
  qed
  have z: "n - 1 + 1 = n" by simp
  have c: "ts_clocked w (w\<lparr>ts_timePCR := time, ts_firstPCR := False\<rparr>)" by (auto simp: ts_clocked_def)
  consider ?timed | "\<not> ?timed" "n - 1 \<noteq> 0" | "\<not> ?timed" "n - 1 = 0" by blast
  then show ?thesis
  proof cases
    case 1
    let ?b = "(if ra then 0x50 else 0x10) # net32 (ucast (drop_bit 1 (ucast (time * 90) :: u64))) @ net16 (push_bit 15 (ucast ((ucast (time * 90) :: u64) AND 1)))"
    have "length ?b < unat n" using t [OF 1] by simp
    from f [OF this] show ?thesis
      using 1 c by (intro exI conjI) (auto simp: writeAdaptiveHeader_def Let_def z simp del: length_append)
  next
    case 2
    have "length [0 :: u8] < unat n" using 2(2) u by (cases "unat n = 1") (auto simp: unat_eq_0 [symmetric])
    from f [OF this] show ?thesis
      using 2 clocked_self by (intro exI conjI) (auto simp: writeAdaptiveHeader_def Let_def z)
  next
    case 3
    have "length ([] :: bytes) < unat n" using u by simp
    from f [OF this] show ?thesis
      using 3 clocked_self by (intro exI conjI) (auto simp: writeAdaptiveHeader_def Let_def z)
  qed
qed

definition times_length :: "u16 \<Rightarrow> u32 \<Rightarrow> nat" where
  "times_length composition sz = (if sz = 0 then 0 else if composition \<noteq> 0 then 10 else 5)"

lemma length_pes_header:
  assumes "in_time time"
  shows "length (pes_header pid time composition sz) = 9 + times_length composition sz"
proof -
  let ?d = "ucast ((time + PCR_OFFSET) * 90) :: u64" and ?p = "90 * ucast composition + ucast ((time + PCR_OFFSET) * 90) :: u64"
  have d: "uint ?d = unit_dts time" and q: "uint ?p = unit_pts time composition" using written_dts written_pts assms by blast+
  have pos: "0 < unit_dts time" "0 \<le> uint composition" by (simp_all add: unit_dts_def add_nonneg_pos)
  then have dn: "?d \<noteq> 0" "?p \<noteq> 0" using d q by (metis unsigned_0 less_irrefl, metis unit_pts_def unsigned_0 add_pos_nonneg less_irrefl mult_nonneg_nonneg zero_le_numeral)
  consider "sz = 0" | "sz \<noteq> 0" "composition = 0" | "sz \<noteq> 0" "composition \<noteq> 0" by blast
  then show ?thesis
    by cases (use dn in \<open>simp_all add: pes_header_def pes_times_def times_length_def length_stamp Let_def\<close>)
qed

lemma pes_packet_shape:
  assumes "in_time time" "unat fill \<le> 175 - times_length composition sz"
  shows "\<exists>flags field free w'. pes_packet pid time composition ra sz fill w
      = (0x47 # net16 (0x4000 OR pid) @ [flags OR ts_pids w pid mod 0x10] @ field @ pes_header pid time composition sz, free, w')
    \<and> field_ok flags field \<and> length field = unat fill \<and> unat free = 175 - times_length composition sz - unat fill \<and> ts_clocked (ts_count pid w) w'"
proof -
  let ?h = "pes_header pid time composition sz" and ?t = "times_length composition sz"
  have t: "?t \<le> 10" by (simp add: times_length_def)
  have h: "length ?h = 9 + ?t" by (rule length_pes_header [OF assms(1)])
  have free: "unat (188 - word_of_nat (4 + unat fill + (9 + ?t)) :: u8) = 175 - ?t - unat fill"
  proof -
    have "(188 - word_of_nat (4 + unat fill + (9 + ?t)) :: u8) = word_of_nat (188 - (4 + unat fill + (9 + ?t)))"
      using assms(2) t by (subst of_nat_diff) simp_all
    moreover have "unat (word_of_nat (188 - (4 + unat fill + (9 + ?t))) :: u8) = 188 - (4 + unat fill + (9 + ?t))"
      by (rule unat_of_nat_small) (simp add: less_imp_diff_less)
    moreover have "188 - (4 + unat fill + (9 + ?t)) = 175 - ?t - unat fill" by arith
    ultimately show ?thesis by (simp only:)
  qed
  show ?thesis
  proof (cases "fill = 0")
    case True
    then have "pes_packet pid time composition ra sz fill w = (0x47 # net16 (0x4000 OR pid) @ [0x10 OR ts_pids w pid mod 0x10] @ [] @ ?h,
        188 - word_of_nat (4 + unat fill + (9 + ?t)), ts_count pid w)"
      using h by (simp add: pes_packet_def ts_counter_def)
    moreover have "field_ok 0x10 []" by (simp add: field_ok_def)
    ultimately show ?thesis using free clocked_self True by fastforce
  next
    case False
    from adaptive_shape [OF False, of pid time ra "ts_count pid w"] obtain field w' where
      f: "writeAdaptiveHeader pid time ra fill (ts_count pid w) = (field, w')" "length field = unat fill" "field_ok 0x30 field" "ts_clocked (ts_count pid w) w'"
      by blast
    have "pes_packet pid time composition ra sz fill w = (0x47 # net16 (0x4000 OR pid) @ [0x30 OR ts_pids w pid mod 0x10] @ field @ ?h,
        188 - word_of_nat (4 + unat fill + (9 + ?t)), w')"
      using h f(1,2) False by (simp add: pes_packet_def ts_counter_def)
    then show ?thesis using free f by blast
  qed
qed

lemma next_shape:
  assumes "sz \<noteq> 0"
  shows "\<exists>flags field free w'. writePES_next pid time ra sz w = (0x47 # net16 pid @ [flags OR ts_pids w pid mod 0x10] @ field, free, w')
    \<and> field_ok flags field \<and> unat free = min 184 (unat sz) \<and> length field = 184 - unat free \<and> ts_clocked (ts_count pid w) w'"
proof (cases "sz \<ge> 184")
  case True
  then have "writePES_next pid time ra sz w = (0x47 # net16 pid @ [0x10 OR ts_pids w pid mod 0x10] @ [], 184, ts_count pid w)"
    by (simp add: writePES_next_def ts_counter_def)
  moreover have "field_ok 0x10 []" by (simp add: field_ok_def)
  moreover have "unat (184 :: u32) \<le> unat sz" using True by (simp only: word_le_nat_alt)
  then have "unat (184 :: u8) = min 184 (unat sz)" by simp
  ultimately show ?thesis using clocked_self by fastforce
next
  case False
  then have "unat sz < unat (184 :: u32)" by (simp only: word_less_nat_alt [symmetric] not_le)
  then have l: "unat sz < 184" by simp
  have c: "ucast sz = (word_of_nat (unat sz) :: u8)" by simp
  have u: "unat (ucast sz :: u8) = unat sz" unfolding c by (rule unat_of_nat_small) (use l in simp)
  have "(184 - ucast sz :: u8) = word_of_nat (184 - unat sz)" unfolding c using l by (subst of_nat_diff) simp_all
  then have n: "unat (184 - ucast sz :: u8) = 184 - unat sz" by (simp only:) (rule unat_of_nat_small, simp)
  then have nz: "(184 - ucast sz :: u8) \<noteq> 0" using l by (metis unsigned_0 diff_is_0_eq not_le)
  from adaptive_shape [OF nz, of pid time ra "ts_count pid w"] obtain field w' where
    f: "writeAdaptiveHeader pid time ra (184 - ucast sz) (ts_count pid w) = (field, w')" "length field = 184 - unat sz" "field_ok 0x30 field" "ts_clocked (ts_count pid w) w'"
    using n by auto
  have "writePES_next pid time ra sz w = (0x47 # net16 pid @ [0x30 OR ts_pids w pid mod 0x10] @ field, ucast sz, w')"
    using False f(1) by (simp add: writePES_next_def ts_counter_def)
  then show ?thesis using f u l by (metis min.absorb2 nat_less_le)
qed

section \<open>The packets of a unit, read\<close>

lemma agrees_upd [simp]:
  "agrees (w\<lparr>ts_canWrite := x\<rparr>) s = agrees w s" "agrees (w\<lparr>ts_toWrite := y\<rparr>) s = agrees w s"
  "ts_ready (w\<lparr>ts_canWrite := x\<rparr>) s = ts_ready w s" "ts_ready (w\<lparr>ts_toWrite := y\<rparr>) s = ts_ready w s"
  "track_pids (w\<lparr>ts_canWrite := x\<rparr>) = track_pids w" "track_pids (w\<lparr>ts_toWrite := y\<rparr>) = track_pids w"
  by (simp_all add: agrees_def ts_ready_def track_pids_def ts_entries_def)

lemma clocked_same:
  "ts_clocked w w' \<Longrightarrow> agrees w' s = agrees w s \<and> ts_ready w' s = ts_ready w s \<and> track_pids w' = track_pids w \<and> frame w w' \<and> ts_pids w' = ts_pids w"
proof -
  assume "ts_clocked w w'"
  then obtain t f where w: "w' = w\<lparr>ts_timePCR := t, ts_firstPCR := f\<rparr>" unfolding ts_clocked_def by blast
  show ?thesis unfolding w by (simp add: agrees_def ts_ready_def track_pids_def ts_entries_def frame_def)
qed

lemma count_same:
  "track_pids (ts_count pid w) = track_pids w" "frame w (ts_count pid w)" "ts_pids (ts_count pid w) = (ts_pids w)(pid := ts_pids w pid + 1)"
  by (simp_all add: ts_count_def track_pids_def ts_entries_def frame_def)

lemma frame_trans: "frame w w1 \<Longrightarrow> frame w1 w2 \<Longrightarrow> frame w w2"
  by (simp add: frame_def)

lemma frame_pids: "frame w w' \<Longrightarrow> track_pids w' = track_pids w"
  by (simp add: frame_def track_pids_def ts_entries_def)

lemma program_at_put: "program_at pid (tr_put q p s) = (if pid = q then p else program_at pid s)"
  by (simp add: program_at_def)

lemma agrees_count:
  assumes "agrees w s" "ts_ready w s" "pid \<in> track_pids w" "tp_sequence p = ts_pids w pid mod 0x10" "tp_reader p \<noteq> TrNone"
  shows "agrees (ts_count pid w) (tr_put pid p (s\<lparr>tr_startTime := st\<rparr>)) \<and> ts_ready (ts_count pid w) (tr_put pid p (s\<lparr>tr_startTime := st\<rparr>))"
proof -
  let ?s = "tr_put pid p (s\<lparr>tr_startTime := st\<rparr>)"
  note pid = track_pids_ok [OF assms(3)]
  have a: "program_at q (s\<lparr>tr_startTime := st\<rparr>) = program_at q s" for q by (simp add: program_at_def)
  have cl: "ts_clean (s\<lparr>tr_startTime := st\<rparr>) = ts_clean s" by (simp add: ts_clean_def)
  have sq: "seq_ok (ts_pids (ts_count pid w) q) (tp_sequence (program_at q ?s))" if "pid_ok q" "q \<noteq> 0x20" for q
    using assms(1,4) that seq_ok_next by (auto simp: agrees_def count_same program_at_put a)
  have r: "ts_ready (ts_count pid w) ?s"
    using assms(2,5) unfolding ts_ready_def count_same by (auto simp: ts_reads_def ts_count_def)
  have "agrees (ts_count pid w) ?s"
    using assms(1,2) sq r pid unfolding agrees_def by (simp add: cl ts_count_def ts_ready_def)
  with r show ?thesis by blast
qed

lemma start_same: "s\<lparr>tr_startTime := tr_startTime s\<rparr> = s" by simp

text \<open>The time of a reader: the units come 200 ms behind the first time, or at 0 when they are earlier.\<close>

definition ts_clock :: "u32 \<Rightarrow> int option \<Rightarrow> int" where
  "ts_clock time c = (case c of None \<Rightarrow> uint time | Some t \<Rightarrow> min t (uint time + 200))"

definition ticks :: "int option \<Rightarrow> int option" where
  "ticks c = map_option (\<lambda>t. 90 * t) c"

lemma unit_program_clock:
  assumes "tr_startTime s = ticks c"
  shows "unit_program tie time composition p s =
     (p\<lparr>tp_waitHeader := False, tp_time := word_of_int (uint time + 200 - ts_clock time c), tp_composition := composition\<rparr>,
      s\<lparr>tr_startTime := ticks (Some (ts_clock time c))\<rparr>)"
proof -
  let ?d = "unit_dts time" and ?c = "ts_clock time c"
  have le: "?c \<le> uint time + 200" by (auto simp: ts_clock_def split: option.split)
  have start: "(case tr_startTime s of None \<Rightarrow> ?d - min 18000 ?d | Some t \<Rightarrow> if t > ?d then ?d else t) = 90 * ?c"
    by (cases c) (auto simp: assms ticks_def ts_clock_def unit_dts_def)
  have "stamp_round ?d = uint time + 200" by (simp add: stamp_round_def unit_dts_def)
  then have "max 0 (stamp_round ?d * 90 - 90 * ?c) = (uint time + 200 - ?c) * 90" using le by simp
  then have t: "max 0 (stamp_round ?d * 90 - 90 * ?c) div 90 = uint time + 200 - ?c" by simp
  have i: "(90 * x + 44) div 90 = x" "90 * x mod 90 \<noteq> 45" for x :: int by simp_all
  have "unit_pts time composition - ?d = 90 * uint composition" by (simp add: unit_pts_def)
  then have m: "stamp_difference tie (unit_pts time composition) ?d = uint composition"
    using i [of "uint composition"] unfolding stamp_difference_def by simp
  show ?thesis unfolding unit_program_def program_stamp_def Let_def start t m by (simp add: ticks_def)
qed

lemma start_plays:
  assumes "agrees w s" "ts_ready w s" "pid \<in> track_pids w" "in_time time" "sz \<noteq> 0" "tr_startTime s = ticks c"
    and "unat fill < 175 - times_length composition sz"
    and "pes_packet pid time composition ra sz fill w = (b, free, w')" "length xs = unat free"
  shows "\<exists>cs s' p. plays tie (b @ xs) s cs s'
    \<and> (\<forall>q. es_bytes q cs = (if q = pid then map (\<lambda>x. (word_of_int (uint time + 200 - ts_clock time c), composition, x)) xs else []))
    \<and> agrees w' s' \<and> ts_ready w' s' \<and> frame w w' \<and> tr_startTime s' = ticks (Some (ts_clock time c))
    \<and> map_of (tr_programs s') pid = Some p \<and> \<not> tp_waitHeader p
    \<and> tp_time p = word_of_int (uint time + 200 - ts_clock time c) \<and> tp_composition p = composition"
proof -
  obtain flags field where h: "b = 0x47 # net16 (0x4000 OR pid) @ [flags OR ts_pids w pid mod 0x10] @ field @ pes_header pid time composition sz"
    "field_ok flags field" "length field = unat fill" "unat free = 175 - times_length composition sz - unat fill" "ts_clocked (ts_count pid w) w'"
    using pes_packet_shape [OF assms(4), of fill composition sz pid ra w] assms(7,8) by auto
  note pid = track_pids_ok [OF assms(3)]
  obtain p where p: "map_of (tr_programs s) pid = Some p" "tp_reader p \<noteq> TrNone" using assms(2,3) by (auto simp: ts_ready_def ts_reads_def)
  have sq: "seq_ok (ts_pids w pid) (tp_sequence p)" using assms(1) pid p(1) unfolding agrees_def by (auto simp: program_at_def)
  let ?x = "pes_header pid time composition sz @ xs"
  let ?d = "net16 (if True then 0x4000 OR pid else pid) @ [flags OR ts_pids w pid mod 0x10] @ field @ ?x"
  obtain r where r: "rests r ?x" "ts_packet tie ?d s = program_packet tie pid True True (ts_pids w pid mod 0x10) r p s"
    using ts_packet_program [OF conjunct1 [OF pid] p h(2), of ?x tie True "ts_pids w pid"] by blast
  let ?p = "p\<lparr>tp_sequence := ts_pids w pid mod 0x10, tp_waitHeader := False,
      tp_time := word_of_int (uint time + 200 - ts_clock time c), tp_composition := composition\<rparr>"
  let ?s = "s\<lparr>tr_startTime := ticks (Some (ts_clock time c))\<rparr>"
  have u: "unit_program tie time composition (p\<lparr>tp_sequence := ts_pids w pid mod 0x10\<rparr>) s = (?p, ?s)"
    unfolding unit_program_clock [OF assms(6)] by simp
  let ?cs = "[TsRead pid (tp_reader ?p) (tp_track ?p) (tp_time ?p) (tp_composition ?p) xs]"
  have k: "ts_packet tie ?d s = (tr_put pid ?p ?s, ?cs)"
    unfolding r(2) by (rule program_packet_start [OF sq r(1) assms(5,4) u])
  have a: "agrees (ts_count pid w) (tr_put pid ?p ?s)" "ts_ready (ts_count pid w) (tr_put pid ?p ?s)"
    using agrees_count [OF assms(1-3), of ?p] p(2) by simp_all
  then have a': "agrees w' (tr_put pid ?p ?s)" "ts_ready w' (tr_put pid ?p ?s)" "frame w w'"
    using clocked_same [OF h(5)] frame_trans [OF count_same(2)] by blast+
  have l: "length ?d = 187" using assms(7,9) h(3,4) length_pes_header [OF assms(4)] by simp
  have cl: "ts_clean s" "ts_clean (tr_put pid ?p ?s)" using assms(1) a(1) unfolding agrees_def by blast+
  have "plays tie (0x47 # ?d) s ?cs (tr_put pid ?p ?s)" by (rule plays_one [OF cl(1) l k cl(2)])
  then have "plays tie (b @ xs) s ?cs (tr_put pid ?p ?s)" by (simp add: h(1))
  then show ?thesis
    using a' by (intro exI [of _ ?cs] exI [of _ "tr_put pid ?p ?s"] exI [of _ ?p] conjI) simp_all
qed

lemma next_plays:
  assumes "agrees w s" "ts_ready w s" "pid \<in> track_pids w" "map_of (tr_programs s) pid = Some p" "\<not> tp_waitHeader p"
    and "writePES_next pid time ra sz w = (b, free, w')" "sz \<noteq> 0" "length xs = unat free"
  shows "\<exists>cs s' p'. plays tie (b @ xs) s cs s'
    \<and> (\<forall>q. es_bytes q cs = (if q = pid then map (\<lambda>x. (tp_time p, tp_composition p, x)) xs else []))
    \<and> agrees w' s' \<and> ts_ready w' s' \<and> frame w w' \<and> tr_startTime s' = tr_startTime s
    \<and> map_of (tr_programs s') pid = Some p' \<and> \<not> tp_waitHeader p' \<and> tp_time p' = tp_time p \<and> tp_composition p' = tp_composition p"
proof -
  obtain flags field where h: "b = 0x47 # net16 pid @ [flags OR ts_pids w pid mod 0x10] @ field"
    "field_ok flags field" "unat free = min 184 (unat sz)" "length field = 184 - unat free" "ts_clocked (ts_count pid w) w'"
    using next_shape [OF assms(7), of pid time ra w] assms(6) by auto
  note pid = track_pids_ok [OF assms(3)]
  have rd: "tp_reader p \<noteq> TrNone" using assms(2-4) by (auto simp: ts_ready_def ts_reads_def)
  have sq: "seq_ok (ts_pids w pid) (tp_sequence p)" using assms(1,4) pid unfolding agrees_def by (auto simp: program_at_def)
  let ?d = "net16 (if False then 0x4000 OR pid else pid) @ [flags OR ts_pids w pid mod 0x10] @ field @ xs"
  obtain r where r: "rests r xs" "ts_packet tie ?d s = program_packet tie pid False True (ts_pids w pid mod 0x10) r p s"
    using ts_packet_program [OF conjunct1 [OF pid] assms(4) rd h(2), of xs tie False "ts_pids w pid"] by blast
  let ?p = "p\<lparr>tp_sequence := ts_pids w pid mod 0x10\<rparr>"
  let ?cs = "[TsRead pid (tp_reader p) (tp_track p) (tp_time p) (tp_composition p) xs]" and ?s = "tr_put pid ?p s"
  have k: "ts_packet tie ?d s = (?s, ?cs)" unfolding r(2) by (rule program_packet_next [OF sq r(1) assms(5)])
  have a: "agrees (ts_count pid w) ?s" "ts_ready (ts_count pid w) ?s"
    using agrees_count [OF assms(1-3), of ?p "tr_startTime s"] rd by (simp_all add: start_same)
  then have a': "agrees w' ?s" "ts_ready w' ?s" "frame w w'" using clocked_same [OF h(5)] frame_trans [OF count_same(2)] by blast+
  have l: "length ?d = 187" using assms(8) h(3,4) by simp
  have cl: "ts_clean s" "ts_clean ?s" using assms(1) a(1) unfolding agrees_def by blast+
  have "plays tie (0x47 # ?d) s ?cs ?s" by (rule plays_one [OF cl(1) l k cl(2)])
  then have "plays tie (b @ xs) s ?cs ?s" by (simp add: h(1))
  then show ?thesis
    using a' assms(5) by (intro exI [of _ ?cs] exI [of _ ?s] exI [of _ ?p] conjI) simp_all
qed

lemma frame_tracks_ok: "frame w w' \<Longrightarrow> tracks_ok w' = tracks_ok w"
  by (simp add: frame_def tracks_ok_def)

lemma frame_self: "frame w w"
  by (simp add: frame_def)

lemma pes_tables_plays:
  assumes "agrees w s" "tracks_ok w" "track_pids w \<noteq> {}"
  shows "\<exists>b w' s' cs. pes_tables time w = Some (b, w') \<and> plays tie b s cs s' \<and> (\<forall>q. es_bytes q cs = [])
    \<and> agrees w' s' \<and> ts_ready w' s' \<and> frame w w' \<and> tr_startTime s' = tr_startTime s"
proof (cases "ts_changed w \<or> distance (ts_timePMT w) time \<ge> 1000")
  case True
  then have "pes_tables time w = writePMT time w" by (simp only: pes_tables_def if_True)
  then show ?thesis using writePMT_plays [OF assms, of time tie] by (simp only:)
next
  case False
  then have "pes_tables time w = Some ([], w)" by (simp only: pes_tables_def if_False)
  moreover have "ts_ready w s" "ts_clean s" using False assms(1) by (auto simp: agrees_def)
  ultimately show ?thesis using plays_none [of s tie] assms(1) frame_self by (metis es_bytes_simps(1))
qed

lemma PCR_plays:
  assumes "agrees w s" "tracks_ok w" "track_pids w \<noteq> {}" "in_time time"
  shows "\<exists>b w' s' cs. writePES_PCR time composition w = Some (b, w') \<and> plays tie b s cs s' \<and> (\<forall>q. es_bytes q cs = [])
    \<and> agrees w' s' \<and> ts_ready w' s' \<and> frame w w' \<and> tr_startTime s' = tr_startTime s"
proof -
  obtain b1 w1 s1 cs1 where t: "pes_tables time w = Some (b1, w1)" "plays tie b1 s cs1 s1" "\<forall>q. es_bytes q cs1 = []"
    "agrees w1 s1" "ts_ready w1 s1" "frame w w1" "tr_startTime s1 = tr_startTime s" using pes_tables_plays [OF assms(1-3)] by blast
  let ?pid = "ts_pidPCR w1"
  have pin: "?pid \<in> track_pids w1" using t(5) by (simp add: ts_ready_def)
  note pid = track_pids_ok [OF pin]
  have f: "pes_fill composition 0 = 175" "times_length composition 0 = 0" by (simp_all add: pes_fill_def times_length_def)
  have f': "unat (175 :: u8) \<le> 175 - times_length composition 0" "unat (175 :: u8) = 175" using f by simp_all
  obtain flags field free w' where h: "pes_packet ?pid time composition False 0 175 w1
      = (0x47 # net16 (0x4000 OR ?pid) @ [flags OR ts_pids w1 ?pid mod 0x10] @ field @ pes_header ?pid time composition 0, free, w')"
    "field_ok flags field" "length field = 175" "unat free = 0" "ts_clocked (ts_count ?pid w1) w'"
    using pes_packet_shape [OF assms(4) f'(1), of ?pid False w1] f f'(2) by auto
  obtain p where p: "map_of (tr_programs s1) ?pid = Some p" "tp_reader p \<noteq> TrNone" using t(5) pin by (auto simp: ts_ready_def ts_reads_def)
  have sq: "seq_ok (ts_pids w1 ?pid) (tp_sequence p)" using t(4) pid p(1) unfolding agrees_def by (auto simp: program_at_def)
  let ?d = "net16 (if True then 0x4000 OR ?pid else ?pid) @ [flags OR ts_pids w1 ?pid mod 0x10] @ field @ pes_header ?pid time composition 0"
  obtain r where r: "rests r (pes_header ?pid time composition 0)"
    "ts_packet tie ?d s1 = program_packet tie ?pid True True (ts_pids w1 ?pid mod 0x10) r p s1"
    using ts_packet_program [OF conjunct1 [OF pid] p h(2), of "pes_header ?pid time composition 0" tie True "ts_pids w1 ?pid"] by blast
  let ?p = "p\<lparr>tp_sequence := ts_pids w1 ?pid mod 0x10, tp_waitHeader := False\<rparr>"
  let ?cs = "[TsRead ?pid (tp_reader p) (tp_track p) (tp_time p) (tp_composition p) []]" and ?s = "tr_put ?pid ?p s1"
  have k: "ts_packet tie ?d s1 = (?s, ?cs)"
    unfolding r(2) by (rule program_packet_PCR [OF sq]) (use r(1) in simp)
  have a: "agrees (ts_count ?pid w1) ?s" "ts_ready (ts_count ?pid w1) ?s"
    using agrees_count [OF t(4,5) pin, of ?p "tr_startTime s1"] p(2) by (simp_all add: start_same)
  then have a': "agrees w' ?s" "ts_ready w' ?s" "frame w w'"
    using clocked_same [OF h(5)] frame_trans [OF t(6) frame_trans [OF count_same(2)]] by blast+
  have l: "length ?d = 187" using h(3) f(2) length_pes_header [OF assms(4), of ?pid composition 0] by simp
  have cl: "ts_clean s1" "ts_clean ?s" using t(4) a(1) unfolding agrees_def by blast+
  have pl: "plays tie (0x47 # ?d) s1 ?cs ?s" by (rule plays_one [OF cl(1) l k cl(2)])
  have z: "free = 0" using h(4) by (simp add: unat_eq_0)
  have "writePES_PCR time composition w = Some (b1 @ 0x47 # ?d, w')"
    by (simp add: writePES_PCR_def t(1) f(1) h(1) z)
  moreover have "plays tie (b1 @ 0x47 # ?d) s (cs1 @ ?cs) ?s" by (rule plays_append [OF t(2) pl])
  moreover have "\<forall>q. es_bytes q (cs1 @ ?cs) = []" using t(3) by simp
  ultimately show ?thesis using a' t(7) by (metis tr_put_fields(3))
qed

lemma fill_sizes:
  assumes "sz \<noteq> 0"
  shows "unat (pes_fill composition sz) = 175 - times_length composition sz - unat sz" "unat (pes_fill composition sz) < 175 - times_length composition sz"
proof -
  let ?b = "175 - (if composition \<noteq> 0 then 10 else 5) :: u8"
  have b: "unat ?b = 175 - times_length composition sz" "unat (ucast ?b :: u32) = unat ?b" using assms by (simp_all add: times_length_def)
  have e: "pes_fill composition sz = (if sz \<ge> ucast ?b then 0 else ?b - ucast sz)" using assms by (simp add: pes_fill_def Let_def)
  have s: "unat sz > 0" using assms by (simp add: unat_gt_0)
  have "unat (pes_fill composition sz) = unat ?b - unat sz"
  proof (cases "sz \<ge> ucast ?b")
    case True
    then have "unat ?b \<le> unat sz" by (simp only: word_le_nat_alt b(2))
    then show ?thesis using True unfolding e by simp
  next
    case False
    then have l: "unat sz < unat ?b" by (simp only: word_le_nat_alt b(2) not_le)
    have c: "ucast sz = (word_of_nat (unat sz) :: u8)" by simp
    have n: "?b = word_of_nat (unat ?b)" by simp
    have "(?b - ucast sz :: u8) = word_of_nat (unat ?b - unat sz)" unfolding c using l by (subst n, subst of_nat_diff) simp_all
    moreover have "unat (word_of_nat (unat ?b - unat sz) :: u8) = unat ?b - unat sz"
      by (rule unat_of_nat_small) (simp add: less_imp_diff_less)
    ultimately show ?thesis using False unfolding e by (simp only: if_False)
  qed
  then show "unat (pes_fill composition sz) = 175 - times_length composition sz - unat sz" unfolding b(1) .
  then show "unat (pes_fill composition sz) < 175 - times_length composition sz" using s assms by (simp add: times_length_def)
qed

lemma writePES_plays:
  assumes "agrees w s" "tracks_ok w" "pid \<in> track_pids w" "in_time time" "sz \<noteq> 0" "tr_startTime s = ticks c"
  shows "\<exists>b free w'. writePES pid time composition ra sz w = Some (b, free, w') \<and> 0 < unat free \<and> unat free \<le> unat sz \<and> frame w w'
    \<and> (\<forall>xs. length xs = unat free \<longrightarrow> (\<exists>cs s' p. plays tie (b @ xs) s cs s'
        \<and> (\<forall>q. es_bytes q cs = (if q = pid then map (\<lambda>x. (word_of_int (uint time + 200 - ts_clock time c), composition, x)) xs else []))
        \<and> agrees w' s' \<and> ts_ready w' s' \<and> tr_startTime s' = ticks (Some (ts_clock time c))
        \<and> map_of (tr_programs s') pid = Some p \<and> \<not> tp_waitHeader p
        \<and> tp_time p = word_of_int (uint time + 200 - ts_clock time c) \<and> tp_composition p = composition))"
proof -
  let ?H = "times_length composition sz"
  have ne: "track_pids w \<noteq> {}" using assms(3) by blast
  obtain b1 w1 s1 cs1 where t: "pes_tables time w = Some (b1, w1)" "plays tie b1 s cs1 s1" "\<forall>q. es_bytes q cs1 = []"
    "agrees w1 s1" "ts_ready w1 s1" "frame w w1" "tr_startTime s1 = tr_startTime s"
    using pes_tables_plays [OF assms(1,2) ne] by blast
  define due where "due \<longleftrightarrow> pes_fill composition sz < 8 \<and> (ts_firstPCR w1 \<or> sint (time - ts_timePCR w1) \<ge> 100)"
  define fill where "fill = (if due \<and> pid = ts_pidPCR w1 then 8 else pes_fill composition sz)"
  define apart where "apart \<longleftrightarrow> due \<and> pid \<noteq> ts_pidPCR w1 \<and> sint (time - ts_timePCR w1) \<ge> 500"
  have f: "175 - ?H - unat sz \<le> unat fill" "unat fill < 175 - ?H"
  proof -
    have "unat (pes_fill composition sz) < 8" if due
    proof -
      have "unat (pes_fill composition sz) < unat (8 :: u8)" using that unfolding due_def by (simp only: word_less_nat_alt)
      then show ?thesis by simp
    qed
    moreover have "?H \<le> 10" by (simp add: times_length_def)
    ultimately show "175 - ?H - unat sz \<le> unat fill" "unat fill < 175 - ?H"
      using fill_sizes [OF assms(5), of composition] unfolding fill_def by (auto split: if_splits)
  qed
  have "\<exists>b2 w2 s2 cs2. (if apart then writePES_PCR time composition w1 else Some ([], w1)) = Some (b2, w2)
      \<and> plays tie b2 s1 cs2 s2 \<and> (\<forall>q. es_bytes q cs2 = []) \<and> agrees w2 s2 \<and> ts_ready w2 s2 \<and> frame w1 w2 \<and> tr_startTime s2 = tr_startTime s1"
  proof (cases apart)
    case True
    have "tracks_ok w1" "track_pids w1 \<noteq> {}" using assms(2) ne frame_tracks_ok [OF t(6)] frame_pids [OF t(6)] by simp_all
    then show ?thesis using PCR_plays [OF t(4) _ _ assms(4)] True by simp
  next
    case False
    have "ts_clean s1" using t(4) by (simp add: agrees_def)
    then show ?thesis using False plays_none [of s1 tie] t(4,5) frame_self [of w1]
      by (intro exI [of _ "[]"] exI [of _ w1] exI [of _ s1] conjI) simp_all
  qed
  then obtain b2 w2 s2 cs2 where p: "(if apart then writePES_PCR time composition w1 else Some ([], w1)) = Some (b2, w2)"
    "plays tie b2 s1 cs2 s2" "\<forall>q. es_bytes q cs2 = []" "agrees w2 s2" "ts_ready w2 s2" "frame w1 w2" "tr_startTime s2 = tr_startTime s1" by blast
  obtain b3 free w3 where k: "pes_packet pid time composition ra sz fill w2 = (b3, free, w3)" by (cases "pes_packet pid time composition ra sz fill w2") blast
  have fr: "unat free = 175 - ?H - unat fill" "frame w2 w3"
  proof -
    have le: "unat fill \<le> 175 - ?H" using f(2) by simp
    obtain flags field free' w' where "(b3, free, w3) = (0x47 # net16 (0x4000 OR pid) @ [flags OR ts_pids w2 pid mod 0x10] @ field @ pes_header pid time composition sz, free', w')"
      "unat free' = 175 - ?H - unat fill" "ts_clocked (ts_count pid w2) w'"
      using pes_packet_shape [OF assms(4) le, of pid ra w2] k by auto
    then show "unat free = 175 - ?H - unat fill" "frame w2 w3"
      using clocked_same frame_trans [OF count_same(2) [of w2 pid]] by blast+
  qed
  have w: "frame w w3" "frame w w2" using frame_trans [OF t(6) frame_trans [OF p(6)]] fr(2) frame_self by blast+
  have e: "writePES pid time composition ra sz w = Some (b1 @ b2 @ b3, free, w3)"
    unfolding writePES_def t(1) Let_def Option.bind.simps prod.case due_def [symmetric]
    unfolding fill_def [symmetric] apart_def [symmetric] p(1) by (simp add: k)
  have pin: "pid \<in> track_pids w2" using assms(3) frame_pids [OF w(2)] by simp
  have st: "tr_startTime s2 = ticks c" using p(7) t(7) assms(6) by simp
  have "\<exists>cs s' p. plays tie ((b1 @ b2 @ b3) @ xs) s cs s'
        \<and> (\<forall>q. es_bytes q cs = (if q = pid then map (\<lambda>x. (word_of_int (uint time + 200 - ts_clock time c), composition, x)) xs else []))
        \<and> agrees w3 s' \<and> ts_ready w3 s' \<and> tr_startTime s' = ticks (Some (ts_clock time c))
        \<and> map_of (tr_programs s') pid = Some p \<and> \<not> tp_waitHeader p
        \<and> tp_time p = word_of_int (uint time + 200 - ts_clock time c) \<and> tp_composition p = composition" if xs: "length xs = unat free" for xs
  proof -
    obtain cs s' p' where z: "plays tie (b3 @ xs) s2 cs s'"
      "\<forall>q. es_bytes q cs = (if q = pid then map (\<lambda>x. (word_of_int (uint time + 200 - ts_clock time c), composition, x)) xs else [])"
      "agrees w3 s'" "ts_ready w3 s'" "tr_startTime s' = ticks (Some (ts_clock time c))"
      "map_of (tr_programs s') pid = Some p'" "\<not> tp_waitHeader p'"
      "tp_time p' = word_of_int (uint time + 200 - ts_clock time c)" "tp_composition p' = composition"
      using start_plays [OF p(4,5) pin assms(4,5) st f(2) k xs, of tie] by blast
    have "plays tie ((b1 @ b2 @ b3) @ xs) s (cs1 @ cs2 @ cs) s'"
      using plays_append [OF t(2) plays_append [OF p(2) z(1)]] by simp
    moreover have "es_bytes q (cs1 @ cs2 @ cs) = es_bytes q cs" for q using t(3) p(3) by simp
    ultimately show ?thesis using z(2-9) by metis
  qed
  note m = this
  have "0 < unat free" "unat free \<le> unat sz" using f fr(1) by auto
  then show ?thesis using e w(1) m
    by (intro exI [of _ "b1 @ b2 @ b3"] exI [of _ free] exI [of _ w3] conjI allI impI) blast+
qed

end
