(* ===== verification/TSUnits.thy ===== *)
theory TSUnits
  imports TSPackets
begin

text \<open>
  The units of \<open>TSWriter\<close> read by \<open>TSReader\<close>: a unit in its packets, the pieces in which its track gives it, and any sequence
  of audios and videos.
\<close>

section \<open>A unit\<close>

definition es_head :: "u16 \<Rightarrow> u32 \<Rightarrow> u16 \<Rightarrow> u32 \<Rightarrow> bool \<Rightarrow> ts_writer \<Rightarrow> (bytes \<times> ts_writer) option" where
  "es_head pid time composition esSize ra w =
     (if ts_toWrite w = 0 then
        map_option (\<lambda>(b, free, w). (replicate (unat (ts_canWrite w)) 0xFF @ b, w\<lparr>ts_canWrite := free\<rparr>))
          (writePES pid time composition ra esSize (w\<lparr>ts_toWrite := esSize\<rparr>))
      else if ts_canWrite w = 0 then
        (let (b, free, w) = writePES_next pid time ra (ts_toWrite w) w in Some (b, w\<lparr>ts_canWrite := free\<rparr>))
      else Some ([], w))"

definition es_took :: "nat \<Rightarrow> ts_writer \<Rightarrow> ts_writer" where
  "es_took n w =
     w\<lparr>ts_canWrite := ts_canWrite w - word_of_nat n, ts_toWrite := (if n > unat (ts_toWrite w) then 0 else ts_toWrite w - word_of_nat n)\<rparr>"

lemma writeES_nil: "writeES pid time composition esSize ra [] w = Some ([], w)"
  by (simp add: writeES.simps [of _ _ _ _ _ "[]"])

lemma writeES_step:
  "playload \<noteq> [] \<Longrightarrow> writeES pid time composition esSize ra playload w =
     Option.bind (es_head pid time composition esSize ra w) (\<lambda>(head, w1).
       let n = min (length playload) (unat (ts_canWrite w1))
       in Option.bind (writeES pid time composition esSize ra (drop n playload) (es_took n w1)) (\<lambda>(b, w). Some (head @ take n playload @ b, w)))"
  unfolding es_head_def es_took_def by (subst writeES.simps) (simp only: if_False Let_def)

lemma agrees_took [simp]: "agrees (es_took n w) s = agrees w s" "ts_ready (es_took n w) s = ts_ready w s" "track_pids (es_took n w) = track_pids w"
  by (simp_all add: es_took_def agrees_def ts_ready_def track_pids_def ts_entries_def)

definition same_tracks :: "ts_writer \<Rightarrow> ts_writer \<Rightarrow> bool" where
  "same_tracks w w' \<longleftrightarrow> ts_videos w' = ts_videos w \<and> ts_audios w' = ts_audios w"

lemma same_tracks_trans: "same_tracks w w1 \<Longrightarrow> same_tracks w1 w2 \<Longrightarrow> same_tracks w w2"
  by (simp add: same_tracks_def)

lemma frame_tracks: "frame w w' \<Longrightarrow> same_tracks w (es_took n (w'\<lparr>ts_canWrite := x\<rparr>))"
  by (simp add: frame_def same_tracks_def es_took_def)

lemma writeES_rest_plays:
  assumes "length playload = unat (ts_toWrite w)" "ts_canWrite w = 0"
    and "agrees w s" "ts_ready w s" "pid \<in> track_pids w" "map_of (tr_programs s) pid = Some p" "\<not> tp_waitHeader p"
  shows "\<exists>b w' cs s'. writeES pid time composition esSize ra playload w = Some (b, w') \<and> plays tie b s cs s'
    \<and> (\<forall>q. es_bytes q cs = (if q = pid then map (\<lambda>x. (tp_time p, tp_composition p, x)) playload else []))
    \<and> agrees w' s' \<and> same_tracks w w' \<and> ts_toWrite w' = 0 \<and> ts_canWrite w' = 0 \<and> tr_startTime s' = tr_startTime s"
  using assms
proof (induction "length playload" arbitrary: playload w s p rule: less_induct)
  case less
  show ?case
  proof (cases "playload = []")
    case True
    have "ts_clean s" using less.prems(3) by (simp add: agrees_def)
    then show ?thesis using True less.prems(1-3) plays_none [of s tie] same_tracks_def [of w w]
      by (intro exI [of _ "[]"] exI [of _ w] exI [of _ s] conjI) (simp_all add: writeES_nil unat_eq_0 [symmetric])
  next
    case False
    then have sz: "ts_toWrite w \<noteq> 0" using less.prems(1) by auto
    obtain b free w1 where n: "writePES_next pid time ra (ts_toWrite w) w = (b, free, w1)"
      by (cases "writePES_next pid time ra (ts_toWrite w) w") blast
    let ?n = "unat free"
    have fr: "?n = min 184 (length playload)" using next_shape [OF sz, of pid time ra w] n less.prems(1) by auto
    then have le: "?n \<le> length playload" "0 < ?n" using False by simp_all
    have l: "length (take ?n playload) = unat free" using le by simp
    from next_plays [OF less.prems(3-7) n sz l, of tie] obtain cs1 s1 p1 where
      k: "plays tie (b @ take ?n playload) s cs1 s1"
      "\<forall>q. es_bytes q cs1 = (if q = pid then map (\<lambda>x. (tp_time p, tp_composition p, x)) (take ?n playload) else [])"
      "agrees w1 s1" "ts_ready w1 s1" "frame w w1" "tr_startTime s1 = tr_startTime s"
      "map_of (tr_programs s1) pid = Some p1" "\<not> tp_waitHeader p1" "tp_time p1 = tp_time p" "tp_composition p1 = tp_composition p" by blast
    let ?w = "es_took ?n (w1\<lparr>ts_canWrite := free\<rparr>)"
    have tw: "ts_toWrite w1 = ts_toWrite w" using k(5) by (simp add: frame_def)
    have left: "length (drop ?n playload) = unat (ts_toWrite ?w)"
    proof -
      have "unat (word_of_nat ?n :: u32) = ?n" using fr by (intro unat_of_nat_small) simp
      then have "unat (ts_toWrite w - word_of_nat ?n) = unat (ts_toWrite w) - ?n"
        using le less.prems(1) by (subst unat_sub) (simp_all add: word_le_nat_alt)
      then show ?thesis using less.prems(1) le by (simp add: es_took_def tw)
    qed
    have can: "ts_canWrite ?w = 0" by (simp add: es_took_def)
    have short: "length (drop ?n playload) < length playload" using le False by simp
    have pin: "pid \<in> track_pids ?w" using less.prems(5) frame_pids [OF k(5)] by simp
    have a: "agrees ?w s1" "ts_ready ?w s1" using k(3,4) by simp_all
    from less.hyps [OF short left can a pin k(7,8)] obtain b' w' cs' s' where
      r: "writeES pid time composition esSize ra (drop ?n playload) ?w = Some (b', w')" "plays tie b' s1 cs' s'"
      "\<forall>q. es_bytes q cs' = (if q = pid then map (\<lambda>x. (tp_time p1, tp_composition p1, x)) (drop ?n playload) else [])"
      "agrees w' s'" "same_tracks ?w w'" "ts_toWrite w' = 0" "ts_canWrite w' = 0" "tr_startTime s' = tr_startTime s1" by blast
    have h: "es_head pid time composition esSize ra w = Some (b, w1\<lparr>ts_canWrite := free\<rparr>)"
      using sz less.prems(2) n by (simp add: es_head_def)
    have m: "min (length playload) ?n = ?n" using le by simp
    have e: "writeES pid time composition esSize ra playload w = Some (b @ take ?n playload @ b', w')"
      unfolding writeES_step [OF False] h by (simp add: Let_def m r(1))
    have "plays tie (b @ take ?n playload @ b') s (cs1 @ cs') s'" using plays_append [OF k(1) r(2)] by simp
    moreover have "es_bytes q (cs1 @ cs') = (if q = pid then map (\<lambda>x. (tp_time p, tp_composition p, x)) playload else [])" for q
      using k(2,9,10) r(3) by (simp flip: map_append)
    moreover have "same_tracks w w'" using same_tracks_trans [OF frame_tracks [OF k(5)] r(5)] .
    ultimately show ?thesis using e r(4,6-8) k(6) by metis
  qed
qed

lemma writeES_plays:
  assumes "playload \<noteq> []" "length playload = unat esSize" "ts_toWrite w = 0" "ts_canWrite w = 0"
    and "agrees w s" "tracks_ok w" "pid \<in> track_pids w" "in_time time" "tr_startTime s = ticks c"
  shows "\<exists>b w' cs s'. writeES pid time composition esSize ra playload w = Some (b, w') \<and> plays tie b s cs s'
    \<and> (\<forall>q. es_bytes q cs = (if q = pid then map (\<lambda>x. (word_of_int (uint time + 200 - ts_clock time c), composition, x)) playload else []))
    \<and> agrees w' s' \<and> same_tracks w w' \<and> ts_toWrite w' = 0 \<and> ts_canWrite w' = 0 \<and> tr_startTime s' = ticks (Some (ts_clock time c))"
proof -
  let ?w0 = "w\<lparr>ts_toWrite := esSize\<rparr>" and ?t = "word_of_int (uint time + 200 - ts_clock time c) :: u32"
  have sz: "esSize \<noteq> 0" using assms(1,2) by auto
  have a: "agrees ?w0 s" "tracks_ok ?w0" "pid \<in> track_pids ?w0" using assms(5-7) by (simp_all add: tracks_ok_def)
  from writePES_plays [OF a assms(8) sz assms(9), of composition ra tie] obtain b free w1 where
    k: "writePES pid time composition ra esSize ?w0 = Some (b, free, w1)" "0 < unat free" "unat free \<le> unat esSize" "frame ?w0 w1"
    "\<forall>xs. length xs = unat free \<longrightarrow> (\<exists>cs s' p. plays tie (b @ xs) s cs s'
        \<and> (\<forall>q. es_bytes q cs = (if q = pid then map (\<lambda>x. (?t, composition, x)) xs else []))
        \<and> agrees w1 s' \<and> ts_ready w1 s' \<and> tr_startTime s' = ticks (Some (ts_clock time c))
        \<and> map_of (tr_programs s') pid = Some p \<and> \<not> tp_waitHeader p \<and> tp_time p = ?t \<and> tp_composition p = composition)" by blast
  let ?n = "unat free"
  have le: "?n \<le> length playload" using k(3) assms(2) by simp
  then have "length (take ?n playload) = unat free" by simp
  with k(5) obtain cs1 s1 p where f: "plays tie (b @ take ?n playload) s cs1 s1"
    "\<forall>q. es_bytes q cs1 = (if q = pid then map (\<lambda>x. (?t, composition, x)) (take ?n playload) else [])"
    "agrees w1 s1" "ts_ready w1 s1" "tr_startTime s1 = ticks (Some (ts_clock time c))"
    "map_of (tr_programs s1) pid = Some p" "\<not> tp_waitHeader p" "tp_time p = ?t" "tp_composition p = composition" by blast
  let ?w = "es_took ?n (w1\<lparr>ts_canWrite := free\<rparr>)"
  have tw: "ts_toWrite w1 = esSize" "ts_canWrite w1 = 0" using k(4) assms(4) by (simp_all add: frame_def)
  have left: "length (drop ?n playload) = unat (ts_toWrite ?w)"
  proof -
    have "?n < 256" using unat_u8_less [of free] by simp
    then have "unat (word_of_nat ?n :: u32) = ?n" by (intro unat_of_nat_small less_trans [OF \<open>?n < 256\<close>]) simp
    then have "unat (esSize - word_of_nat ?n) = unat esSize - ?n"
      using k(3) by (subst unat_sub) (simp_all add: word_le_nat_alt)
    then show ?thesis using assms(2) k(3) by (simp add: es_took_def tw)
  qed
  have can: "ts_canWrite ?w = 0" by (simp add: es_took_def)
  have pin: "pid \<in> track_pids ?w" using assms(7) frame_pids [OF k(4)] by simp
  have a': "agrees ?w s1" "ts_ready ?w s1" using f(3,4) by simp_all
  from writeES_rest_plays [OF left can a' pin f(6,7), of time composition esSize ra tie] obtain b' w' cs' s' where
    r: "writeES pid time composition esSize ra (drop ?n playload) ?w = Some (b', w')" "plays tie b' s1 cs' s'"
    "\<forall>q. es_bytes q cs' = (if q = pid then map (\<lambda>x. (tp_time p, tp_composition p, x)) (drop ?n playload) else [])"
    "agrees w' s'" "same_tracks ?w w'" "ts_toWrite w' = 0" "ts_canWrite w' = 0" "tr_startTime s' = tr_startTime s1" by blast
  have h: "es_head pid time composition esSize ra w = Some (b, w1\<lparr>ts_canWrite := free\<rparr>)"
    using assms(3) k(1) tw(2) by (simp add: es_head_def)
  have m: "min (length playload) ?n = ?n" using le by simp
  have e: "writeES pid time composition esSize ra playload w = Some (b @ take ?n playload @ b', w')"
    unfolding writeES_step [OF assms(1)] h by (simp add: Let_def m r(1))
  have "plays tie (b @ take ?n playload @ b') s (cs1 @ cs') s'" using plays_append [OF f(1) r(2)] by simp
  moreover have "es_bytes q (cs1 @ cs') = (if q = pid then map (\<lambda>x. (?t, composition, x)) playload else [])" for q
    using f(2,8,9) r(3) by (simp flip: map_append)
  moreover have "same_tracks w w'" using same_tracks_trans [OF frame_tracks [OF k(4)] r(5)] by (simp add: same_tracks_def)
  ultimately show ?thesis using e r(4,6-8) f(5) by metis
qed

section \<open>The pieces of a unit\<close>

lemma adaptive_frame: "writeAdaptiveHeader pid time ra n w = (field, w') \<Longrightarrow> frame w w'"
  by (auto simp: writeAdaptiveHeader_def Let_def frame_def split: if_splits)

lemma packet_frame: "pes_packet pid time composition ra sz fill w = (b, free, w') \<Longrightarrow> frame w w'"
proof -
  assume a: "pes_packet pid time composition ra sz fill w = (b, free, w')"
  obtain field w1 where f: "writeAdaptiveHeader pid time ra fill (ts_count pid w) = (field, w1)" by fastforce
  have "w' = w1 \<or> w' = ts_count pid w" using a f by (auto simp: pes_packet_def Let_def split: if_splits)
  then show ?thesis using frame_trans [OF count_same(2) adaptive_frame [OF f]] count_same(2) by blast
qed

lemma tables_frame: "pes_tables time w = Some (b, w') \<Longrightarrow> frame w w'"
  by (auto simp: pes_tables_def writePMT_def frame_def ts_count_def Let_def bind_eq_Some_conv split: if_splits)

lemma PCR_frame: "writePES_PCR time composition w = Some (b, w') \<Longrightarrow> frame w w'"
proof -
  assume a: "writePES_PCR time composition w = Some (b, w')"
  then obtain b1 w1 where t: "pes_tables time w = Some (b1, w1)" by (auto simp: writePES_PCR_def bind_eq_Some_conv)
  obtain b2 free w2 where p: "pes_packet (ts_pidPCR w1) time composition False 0 (pes_fill composition 0) w1 = (b2, free, w2)"
    by (cases "pes_packet (ts_pidPCR w1) time composition False 0 (pes_fill composition 0) w1") blast
  have "w' = w2" using a by (auto simp: writePES_PCR_def t p split: if_splits)
  then show ?thesis using frame_trans [OF tables_frame [OF t] packet_frame [OF p]] by simp
qed

lemma writePES_frame:
  assumes "writePES pid time composition ra sz w = Some (b, free, w')" "in_time time" "sz \<noteq> 0"
  shows "frame w w' \<and> 0 < unat free \<and> unat free \<le> unat sz"
proof -
  obtain b1 w1 where t: "pes_tables time w = Some (b1, w1)" using assms(1) by (auto simp: writePES_def bind_eq_Some_conv)
  define due where "due \<longleftrightarrow> pes_fill composition sz < 8 \<and> (ts_firstPCR w1 \<or> sint (time - ts_timePCR w1) \<ge> 100)"
  define fill where "fill = (if due \<and> pid = ts_pidPCR w1 then 8 else pes_fill composition sz)"
  define apart where "apart \<longleftrightarrow> due \<and> pid \<noteq> ts_pidPCR w1 \<and> sint (time - ts_timePCR w1) \<ge> 500"
  let ?pcr = "if apart then writePES_PCR time composition w1 else Some ([], w1)"
  have e: "map_option (\<lambda>(pcr, w). let (b, free, w) = pes_packet pid time composition ra sz fill w in (b1 @ pcr @ b, free, w)) ?pcr = Some (b, free, w')"
    using assms(1) unfolding writePES_def t Let_def Option.bind.simps prod.case due_def [symmetric]
    unfolding fill_def [symmetric] apart_def [symmetric] .
  then obtain b2 w2 where p2: "?pcr = Some (b2, w2)" by (cases ?pcr) fastforce+
  obtain b3 free3 w3 where p3: "pes_packet pid time composition ra sz fill w2 = (b3, free3, w3)" by (cases "pes_packet pid time composition ra sz fill w2") blast
  have p: "?pcr = Some (b2, w2)" "pes_packet pid time composition ra sz fill w2 = (b3, free, w')"
    using e p2 p3 unfolding p2 by simp_all
  have "frame w1 w2"
  proof (cases apart)
    case True
    then have "writePES_PCR time composition w1 = Some (b2, w2)" using p(1) by simp
    then show ?thesis by (rule PCR_frame)
  next
    case False
    then show ?thesis using p(1) frame_self by simp
  qed
  then have fr: "frame w w'" using frame_trans [OF tables_frame [OF t]] frame_trans packet_frame [OF p(2)] by blast
  let ?H = "times_length composition sz"
  have "unat (pes_fill composition sz) < 8" if due
  proof -
    have "unat (pes_fill composition sz) < unat (8 :: u8)" using that unfolding due_def by (simp only: word_less_nat_alt)
    then show ?thesis by simp
  qed
  moreover have "?H \<le> 10" by (simp add: times_length_def)
  ultimately have f: "175 - ?H - unat sz \<le> unat fill" "unat fill < 175 - ?H"
    using fill_sizes [OF assms(3), of composition] unfolding fill_def by (auto split: if_splits)
  have "unat free = 175 - ?H - unat fill"
    using pes_packet_shape [OF assms(2), of fill composition sz pid ra w2] f(2) p(2) by auto
  then show ?thesis using fr f by auto
qed

definition left_ok :: "u32 \<Rightarrow> nat \<Rightarrow> ts_writer \<Rightarrow> bool" where
  "left_ok esSize n w \<longleftrightarrow> unat (ts_canWrite w) \<le> unat (ts_toWrite w) \<and> n \<le> (if ts_toWrite w = 0 then unat esSize else unat (ts_toWrite w))"

lemma head_left:
  assumes "es_head pid time composition esSize ra w = Some (head, w1)" "in_time time" "esSize \<noteq> 0" "left_ok esSize n w"
  shows "0 < unat (ts_canWrite w1) \<and> unat (ts_canWrite w1) \<le> unat (ts_toWrite w1) \<and> n \<le> unat (ts_toWrite w1)"
proof -
  consider "ts_toWrite w = 0" | "ts_toWrite w \<noteq> 0" "ts_canWrite w = 0" | "ts_toWrite w \<noteq> 0" "ts_canWrite w \<noteq> 0" by blast
  then show ?thesis
  proof cases
    case 1
    then obtain b free w2 where p: "writePES pid time composition ra esSize (w\<lparr>ts_toWrite := esSize\<rparr>) = Some (b, free, w2)"
      "w1 = w2\<lparr>ts_canWrite := free\<rparr>" using assms(1) by (auto simp: es_head_def)
    from writePES_frame [OF p(1) assms(2,3)] show ?thesis using p(2) 1 assms(4) by (simp add: frame_def left_ok_def)
  next
    case 2
    obtain b free w2 where n: "writePES_next pid time ra (ts_toWrite w) w = (b, free, w2)"
      by (cases "writePES_next pid time ra (ts_toWrite w) w") blast
    then have w1: "w1 = w2\<lparr>ts_canWrite := free\<rparr>" using assms(1) 2 by (auto simp: es_head_def)
    have "unat free = min 184 (unat (ts_toWrite w))" "ts_clocked (ts_count pid w) w2" using next_shape [OF 2(1), of pid time ra w] n by auto
    moreover from this(2) have "frame w w2" using frame_trans [OF count_same(2)] clocked_same by blast
    moreover have "0 < unat (ts_toWrite w)" using 2(1) by (simp add: unat_gt_0)
    ultimately show ?thesis using w1 2 assms(4) by (simp add: frame_def left_ok_def)
  next
    case 3
    then have "w1 = w" using assms(1) by (simp add: es_head_def)
    then show ?thesis using 3 assms(4) by (simp add: left_ok_def unat_gt_0)
  qed
qed

lemma took_fields:
  assumes "n \<le> unat (ts_canWrite w)" "unat (ts_canWrite w) \<le> unat (ts_toWrite w)"
  shows "unat (ts_canWrite (es_took n w)) = unat (ts_canWrite w) - n" "unat (ts_toWrite (es_took n w)) = unat (ts_toWrite w) - n"
proof -
  have "unat (ts_canWrite w) < 256" using unat_u8_less [of "ts_canWrite w"] by simp
  then have l: "n < 256" using assms(1) by linarith
  have "unat (word_of_nat n :: u8) = n" using l by (intro unat_of_nat_small) simp
  then have "unat (ts_canWrite w - word_of_nat n) = unat (ts_canWrite w) - n" using assms(1) by (subst unat_sub) (simp_all add: word_le_nat_alt)
  then show "unat (ts_canWrite (es_took n w)) = unat (ts_canWrite w) - n" by (simp add: es_took_def)
  have "unat (word_of_nat n :: u32) = n" using l by (intro unat_of_nat_small) simp
  then have "unat (ts_toWrite w - word_of_nat n) = unat (ts_toWrite w) - n" using assms by (subst unat_sub) (simp_all add: word_le_nat_alt)
  then show "unat (ts_toWrite (es_took n w)) = unat (ts_toWrite w) - n" using assms by (simp add: es_took_def)
qed

lemma took_took:
  assumes "m + n \<le> unat (ts_canWrite w)" "unat (ts_canWrite w) \<le> unat (ts_toWrite w)"
  shows "es_took n (es_took m w) = es_took (m + n) w"
proof -
  have m: "m \<le> unat (ts_canWrite w)" using assms(1) by simp
  have n: "\<not> unat (ts_toWrite w) < m" "\<not> unat (ts_toWrite w) < m + n" using assms by simp_all
  have k: "\<not> unat (ts_toWrite w - word_of_nat m) < n"
    using took_fields(2) [OF m assms(2)] assms n(1) by (simp add: es_took_def)
  show ?thesis using n k by (cases w) (simp add: es_took_def diff_diff_add)
qed

lemma took_left:
  assumes "n \<le> unat (ts_canWrite w)" "unat (ts_canWrite w) \<le> unat (ts_toWrite w)" "n + m \<le> unat (ts_toWrite w)"
  shows "left_ok esSize m (es_took n w)"
proof -
  note f = took_fields [OF assms(1,2)]
  have "ts_toWrite (es_took n w) = 0 \<Longrightarrow> m = 0" using f(2) assms(3) by (simp flip: unat_eq_0)
  then show ?thesis using f assms unfolding left_ok_def by auto
qed

lemma writeES_left:
  "writeES pid time composition esSize ra p w = Some (b, w') \<Longrightarrow> in_time time \<Longrightarrow> esSize \<noteq> 0 \<Longrightarrow> left_ok esSize (length p + m) w \<Longrightarrow> left_ok esSize m w'"
proof (induction "length p" arbitrary: p w b rule: less_induct)
  case less
  show ?case
  proof (cases "p = []")
    case True
    then show ?thesis using less.prems by (simp add: writeES_nil)
  next
    case False
    obtain head w1 b' where h: "es_head pid time composition esSize ra w = Some (head, w1)"
      "writeES pid time composition esSize ra (drop (min (length p) (unat (ts_canWrite w1))) p) (es_took (min (length p) (unat (ts_canWrite w1))) w1) = Some (b', w')"
      using less.prems(1) unfolding writeES_step [OF False] by (auto simp: bind_eq_Some_conv Let_def)
    let ?n = "min (length p) (unat (ts_canWrite w1))"
    from head_left [OF h(1) less.prems(2-4)]
    have l: "0 < unat (ts_canWrite w1)" "unat (ts_canWrite w1) \<le> unat (ts_toWrite w1)" "length p + m \<le> unat (ts_toWrite w1)" by blast+
    have "length (drop ?n p) < length p" using l(1) False by simp
    moreover have "left_ok esSize (length (drop ?n p) + m) (es_took ?n w1)" by (rule took_left) (use l in auto)
    ultimately show ?thesis using less.hyps h(2) less.prems(2,3) by blast
  qed
qed

lemma writeES_append:
  "in_time time \<Longrightarrow> esSize \<noteq> 0 \<Longrightarrow> left_ok esSize (length p + length q) w \<Longrightarrow>
   writeES pid time composition esSize ra (p @ q) w =
     Option.bind (writeES pid time composition esSize ra p w) (\<lambda>(b, w).
       Option.bind (writeES pid time composition esSize ra q w) (\<lambda>(b', w). Some (b @ b', w)))"
proof (induction "length p" arbitrary: p w rule: less_induct)
  case less
  let ?e = "writeES pid time composition esSize ra"
  consider "p = []" | "q = []" | "p \<noteq> []" "q \<noteq> []" by blast
  then show ?case
  proof cases
    case 1
    then show ?thesis by (cases "?e q w") (auto simp: writeES_nil)
  next
    case 2
    then show ?thesis by (cases "?e p w") (auto simp: writeES_nil)
  next
    case 3
    show ?thesis
    proof (cases "es_head pid time composition esSize ra w")
      case None
      then show ?thesis using 3 by (simp add: writeES_step)
    next
      case (Some h)
      obtain head w1 where h: "es_head pid time composition esSize ra w = Some (head, w1)" using Some by (cases h) blast
      let ?c = "unat (ts_canWrite w1)"
      from head_left [OF h less.prems]
      have l: "0 < ?c" "?c \<le> unat (ts_toWrite w1)" "length p + length q \<le> unat (ts_toWrite w1)" by blast+
      have pq: "p @ q \<noteq> []" using 3 by simp
      show ?thesis
      proof (cases "?c < length p")
        case True
        have m: "min (length (p @ q)) ?c = ?c" "min (length p) ?c = ?c" "drop ?c (p @ q) = drop ?c p @ q" "take ?c (p @ q) = take ?c p" using True by simp_all
        have "length (drop ?c p) < length p" using l(1) True by simp
        moreover have "left_ok esSize (length (drop ?c p) + length q) (es_took ?c w1)" by (rule took_left) (use l True in auto)
        ultimately have ih: "?e (drop ?c p @ q) (es_took ?c w1) =
            Option.bind (?e (drop ?c p) (es_took ?c w1)) (\<lambda>(b, w). Option.bind (?e q w) (\<lambda>(b', w). Some (b @ b', w)))"
          using less.hyps less.prems(1,2) by blast
        show ?thesis
          unfolding writeES_step [OF pq] writeES_step [OF 3(1)] h Option.bind.simps prod.case Let_def m ih
          by (cases "?e (drop ?c p) (es_took ?c w1)") (auto split: prod.splits simp: Option.bind_assoc intro!: bind_option_cong)
      next
        case False
        have m: "min (length p) ?c = length p" using False by simp
        let ?w2 = "es_took (length p) w1"
        have pc: "length p \<le> ?c" using False by simp
        have r: "Option.bind (?e p w) f = f (head @ p, ?w2)" for f :: "_ \<Rightarrow> (bytes \<times> ts_writer) option"
          unfolding writeES_step [OF 3(1)] h Option.bind.simps prod.case Let_def m by (simp add: writeES_nil)
        note f2 = took_fields [OF pc l(2)]
        show ?thesis
        proof (cases "?c = length p")
          case True
          have n: "min (length (p @ q)) ?c = length p" using True by simp
          show ?thesis unfolding r unfolding writeES_step [OF pq] h Option.bind.simps prod.case Let_def n by simp
        next
          case False
          then have c: "length p < ?c" using pc by simp
          have "0 < unat (ts_toWrite ?w2)" "0 < unat (ts_canWrite ?w2)" using f2 c l(2) by simp_all
          then have h2: "es_head pid time composition esSize ra ?w2 = Some ([], ?w2)" by (auto simp: es_head_def)
          let ?n2 = "min (length q) (unat (ts_canWrite ?w2))"
          have n: "min (length (p @ q)) ?c = length p + ?n2" using c f2 by simp
          have w3: "es_took ?n2 ?w2 = es_took (length p + ?n2) w1" by (rule took_took) (use c f2 l(2) in auto)
          have d: "drop (length p + ?n2) (p @ q) = drop ?n2 q" "take (length p + ?n2) (p @ q) = p @ take ?n2 q" by simp_all
          show ?thesis
            unfolding r unfolding writeES_step [OF pq] writeES_step [OF 3(2)] h h2 Option.bind.simps prod.case Let_def n d w3 [symmetric]
            by (cases "?e (drop ?n2 q) (es_took ?n2 ?w2)") auto
        qed
      qed
    qed
  qed
qed

lemma writeESs_concat:
  "in_time time \<Longrightarrow> esSize \<noteq> 0 \<Longrightarrow> left_ok esSize (length (concat ps)) w \<Longrightarrow>
   writeESs pid time composition esSize ra ps w = writeES pid time composition esSize ra (concat ps) w"
proof (induction ps arbitrary: w)
  case (Cons p ps)
  have l: "left_ok esSize (length p + length (concat ps)) w" using Cons.prems(3) by simp
  show ?case
  proof (cases "writeES pid time composition esSize ra p w")
    case (Some r)
    obtain b w1 where r: "writeES pid time composition esSize ra p w = Some (b, w1)" using Some by (cases r) blast
    have "left_ok esSize (length (concat ps)) w1" by (rule writeES_left [OF r Cons.prems(1,2) l])
    from Cons.IH [OF Cons.prems(1,2) this] show ?thesis
      using writeES_append [OF Cons.prems(1,2) l, of pid composition ra] r
      by (cases "writeES pid time composition esSize ra (concat ps) w1") auto
  qed (use writeES_append [OF Cons.prems(1,2) l, of pid composition ra] in simp)
qed (simp add: writeES_nil)

section \<open>What the tracks give\<close>

text \<open>The tracks and the pieces of an operation, without the packets: the program, the time, the composition and the pieces.\<close>

type_synonym ts_pieces = "u16 \<times> u32 \<times> u16 \<times> u32 \<times> bool \<times> bytes list"

fun ts_given :: "adts_writer \<Rightarrow> ts_op \<Rightarrow> ts_writer \<Rightarrow> (ts_pieces option \<times> ts_writer) option" where
  "ts_given adts (TsProperties lang) w = Some (None, ts_writeProperties lang w)"
| "ts_given adts (TsAudio track tag packet) w =
     (let k = ts_index track
      in case ts_audio_track adts k (at_codec tag) w of
           None \<Rightarrow> Some (None, w)
         | Some (t, w) \<Rightarrow>
             (case tt_writer t of
                TwADTS a \<Rightarrow>
                  let (a, out) = adts_writeAudio tag packet a
                  in Some (Some (audio_pid k, at_time tag, 0, word_of_nat (length packet + 7), True, out),
                       w\<lparr>ts_audios := ts_set k (t\<lparr>tt_writer := TwADTS a\<rparr>) (ts_audios w)\<rparr>)
              | _ \<Rightarrow> Some (Some (audio_pid k, at_time tag, 0, word_of_nat (length packet), True, [packet]), w)))"
| "ts_given adts (TsVideo track tag packet) w =
     (let k = ts_index track
      in case ts_video_track k (vt_codec tag) w of
           None \<Rightarrow> Some (None, w)
         | Some (t, w) \<Rightarrow>
             (case tt_writer t of
                TwNAL v n \<Rightarrow>
                  map_option (\<lambda>(n, out, finalSize).
                      (Some (video_pid k, vt_time tag, vt_composition tag, finalSize, vt_frame tag = FRAME_KEY, out),
                       w\<lparr>ts_videos := ts_set k (t\<lparr>tt_writer := TwNAL v n\<rparr>) (ts_videos w)\<rparr>))
                    (nal_writeVideo v n tag packet 0)
              | _ \<Rightarrow> None))"

definition ts_pack :: "ts_pieces option \<times> ts_writer \<Rightarrow> (bytes list \<times> ts_writer) option" where
  "ts_pack g =
     (case g of
        (None, w) \<Rightarrow> Some ([], w)
      | (Some (pid, time, composition, sz, ra, out), w) \<Rightarrow> map_option ts_out (writeESs pid time composition sz ra out w))"

lemma step_given: "ts_step adts op w = Option.bind (ts_given adts op w) ts_pack"
proof (cases op)
  case (TsProperties lang)
  then show ?thesis by (simp add: ts_pack_def)
next
  case (TsAudio track tag packet)
  show ?thesis
  proof (cases "ts_audio_track adts (ts_index track) (at_codec tag) w")
    case (Some r)
    obtain t w1 where r: "r = (t, w1)" by fastforce
    show ?thesis using TsAudio Some r
      by (cases "tt_writer t") (auto simp: ts_writeAudio_def ts_pack_def Let_def split: prod.split)
  qed (simp add: TsAudio ts_writeAudio_def ts_pack_def Let_def)
next
  case (TsVideo track tag packet)
  show ?thesis
  proof (cases "ts_video_track (ts_index track) (vt_codec tag) w")
    case (Some r)
    obtain t w1 where r: "r = (t, w1)" by fastforce
    show ?thesis
    proof (cases "tt_writer t")
      case (TwNAL v n)
      then show ?thesis using TsVideo Some r
        by (cases "nal_writeVideo v n tag packet 0") (auto simp: ts_writeVideo_def ts_pack_def Let_def)
    qed (use TsVideo Some r in \<open>simp_all add: ts_writeVideo_def Let_def\<close>)
  qed (simp add: TsVideo ts_writeVideo_def ts_pack_def Let_def)
qed

text \<open>The units of a sequence of operations, when no writer of a track fails.\<close>

type_synonym ts_sent = "u16 \<times> u32 \<times> u16 \<times> bytes"

fun ts_units :: "adts_writer \<Rightarrow> ts_op list \<Rightarrow> ts_writer \<Rightarrow> ts_sent list option" where
  "ts_units adts [] w = Some []"
| "ts_units adts (op # ops) w =
     Option.bind (ts_given adts op w) (\<lambda>(g, w).
       map_option (\<lambda>us. (case g of Some (pid, time, composition, _, _, out) \<Rightarrow>
            if concat out = [] then [] else [(pid, time, composition, concat out)] | None \<Rightarrow> []) @ us) (ts_units adts ops w))"

definition op_ok :: "ts_op \<Rightarrow> bool" where
  "op_ok op \<longleftrightarrow> (case op of TsProperties _ \<Rightarrow> False | TsAudio _ _ _ \<Rightarrow> True | TsVideo track _ _ \<Rightarrow> unat (ts_index track) < 223)"

text \<open>What an operation leaves of the tracks.\<close>

definition ts_grown :: "ts_writer \<Rightarrow> ts_writer \<Rightarrow> bool" where
  "ts_grown w w' \<longleftrightarrow> ts_pids w' = ts_pids w \<and> ts_version w' = ts_version w \<and> ts_pidPCR w' = ts_pidPCR w
     \<and> ts_toWrite w' = ts_toWrite w \<and> ts_canWrite w' = ts_canWrite w
     \<and> (ts_changed w' \<or> \<not> ts_changed w \<and> track_pids w' = track_pids w)"

lemma agrees_ts_grown: "agrees w s \<Longrightarrow> ts_grown w w' \<Longrightarrow> agrees w' s"
  by (auto simp: agrees_def ts_grown_def ts_ready_def)

lemma keys_set [simp]: "fst ` set (ts_set k t m) = fst ` set m" "length (ts_set k t m) = length m"
  by (auto simp: ts_set_def image_image case_prod_beta)

lemma set_ts_set: "(k', t') \<in> set (ts_set k t m) \<Longrightarrow> (k' = k \<and> t' = t) \<or> (k', t') \<in> set m"
  by (auto simp: ts_set_def split: if_splits)

lemma track_pids_keys: "track_pids w = video_pid ` fst ` set (ts_videos w) \<union> audio_pid ` fst ` set (ts_audios w)"
  by (simp add: track_pids_def ts_entries_def image_Un image_image case_prod_beta)

lemma audio_track_kept:
  assumes "ts_audio_track adts k codecId w = Some (t, w1)" "tracks_ok w"
  shows "ts_grown w w1" "tracks_ok w1" "k \<in> fst ` set (ts_audios w1)" "tt_langs t = []"
    "\<And>a. tt_writer t = TwADTS a \<Longrightarrow> codecId = AUDIO_CODEC_AAC"
proof -
  have l: "tt_langs u = []" if "map_of (ts_audios w) k = Some u" for u
    using assms(2) map_of_SomeD [OF that] by (auto simp: tracks_ok_def)
  have i: "k \<in> fst ` set (ts_audios w)" if "map_of (ts_audios w) k = Some u" for u
    using map_of_SomeD [OF that] by force
  show "ts_grown w w1"
    using assms(1) by (auto simp: ts_audio_track_def ts_grown_def Let_def split: option.splits if_splits)
  show "tracks_ok w1" "tt_langs t = []"
    using assms l by (auto simp: ts_audio_track_def tracks_ok_def Let_def set_insort_key dest!: set_ts_set split: option.splits if_splits)
  show "k \<in> fst ` set (ts_audios w1)"
    using assms(1) i by (auto simp: ts_audio_track_def Let_def set_insort_key split: option.splits if_splits) force+
  show "codecId = AUDIO_CODEC_AAC" if "tt_writer t = TwADTS a" for a
    using assms(1) that by (auto simp: ts_audio_track_def Let_def split: option.splits if_splits)
qed

lemma video_track_kept:
  assumes "ts_video_track k codecId w = Some (t, w1)" "tracks_ok w" "unat k < 223"
  shows "ts_grown w w1" "tracks_ok w1" "k \<in> fst ` set (ts_videos w1)" "tt_langs t = []"
proof -
  have l: "tt_langs u = []" if "map_of (ts_videos w) k = Some u" for u
    using assms(2) map_of_SomeD [OF that] by (auto simp: tracks_ok_def)
  have i: "k \<in> fst ` set (ts_videos w)" if "map_of (ts_videos w) k = Some u" for u
    using map_of_SomeD [OF that] by force
  show "ts_grown w w1"
    using assms(1) by (auto simp: ts_video_track_def ts_grown_def Let_def split: option.splits if_splits)
  show "tracks_ok w1" "tt_langs t = []"
    using assms l by (auto simp: ts_video_track_def tracks_ok_def Let_def set_insort_key split: option.splits if_splits)
  show "k \<in> fst ` set (ts_videos w1)"
    using assms(1) i by (auto simp: ts_video_track_def Let_def set_insort_key split: option.splits if_splits)
qed

lemma length_frame_header: "length (adts_frame_header w tag sync sz) = 7"
  by (simp add: adts_frame_header_def Let_def)

lemma adts_size:
  assumes "adts_writeAudio tag packet a = (a', out)" "at_codec tag = AUDIO_CODEC_AAC" "concat out \<noteq> []"
  shows "length (concat out) = length packet + 7"
  using assms by (auto simp: adts_writeAudio_def length_frame_header Let_def split: if_splits prod.splits)

lemma set_audio_kept:
  assumes "tracks_ok w" "tt_langs t = []"
  shows "tracks_ok (w\<lparr>ts_audios := ts_set k t (ts_audios w)\<rparr>)" "ts_grown w (w\<lparr>ts_audios := ts_set k t (ts_audios w)\<rparr>)"
proof -
  show "tracks_ok (w\<lparr>ts_audios := ts_set k t (ts_audios w)\<rparr>)" using assms by (auto simp: tracks_ok_def dest!: set_ts_set)
  show "ts_grown w (w\<lparr>ts_audios := ts_set k t (ts_audios w)\<rparr>)" by (simp add: ts_grown_def track_pids_keys)
qed

lemma set_video_kept:
  assumes "tracks_ok w" "tt_langs t = []" "unat k < 223"
  shows "tracks_ok (w\<lparr>ts_videos := ts_set k t (ts_videos w)\<rparr>)" "ts_grown w (w\<lparr>ts_videos := ts_set k t (ts_videos w)\<rparr>)"
proof -
  show "tracks_ok (w\<lparr>ts_videos := ts_set k t (ts_videos w)\<rparr>)" using assms by (auto simp: tracks_ok_def dest!: set_ts_set)
  show "ts_grown w (w\<lparr>ts_videos := ts_set k t (ts_videos w)\<rparr>)" by (simp add: ts_grown_def track_pids_keys)
qed

lemma ts_grown_trans: "ts_grown w w1 \<Longrightarrow> ts_grown w1 w2 \<Longrightarrow> ts_grown w w2"
  by (auto simp: ts_grown_def)

lemma ts_grown_self: "ts_grown w w"
  by (simp add: ts_grown_def)

definition pieces_ok :: "ts_pieces option \<Rightarrow> ts_writer \<Rightarrow> bool" where
  "pieces_ok g w \<longleftrightarrow> (case g of None \<Rightarrow> True
     | Some (pid, time, composition, sz, ra, out) \<Rightarrow> pid \<in> track_pids w \<and> (concat out \<noteq> [] \<longrightarrow> sz = word_of_nat (length (concat out))))"

lemma audio_given_kept:
  assumes "ts_given adts (TsAudio track tag packet) w = Some (g, w1)" "tracks_ok w"
  shows "ts_grown w w1 \<and> tracks_ok w1 \<and> pieces_ok g w1"
proof (cases "ts_audio_track adts (ts_index track) (at_codec tag) w")
  case None
  then show ?thesis using assms ts_grown_self by (simp add: pieces_ok_def Let_def)
next
  case (Some r)
  let ?k = "ts_index track"
  obtain t w2 where r: "ts_audio_track adts ?k (at_codec tag) w = Some (t, w2)" using Some by (cases r) blast
  note k = audio_track_kept [OF r assms(2)]
  have pid: "audio_pid ?k \<in> track_pids w2" using k(3) by (auto simp: track_pids_keys)
  show ?thesis
  proof (cases "tt_writer t")
    case (TwADTS a)
    obtain a' out where o: "adts_writeAudio tag packet a = (a', out)" by fastforce
    have g: "g = Some (audio_pid ?k, at_time tag, 0, word_of_nat (length packet + 7), True, out)"
      "w1 = w2\<lparr>ts_audios := ts_set ?k (t\<lparr>tt_writer := TwADTS a'\<rparr>) (ts_audios w2)\<rparr>"
      using assms(1) TwADTS r o by (simp_all add: Let_def)
    have "tt_langs (t\<lparr>tt_writer := TwADTS a'\<rparr>) = []" using k(4) by simp
    from set_audio_kept [OF k(2) this, of ?k]
    have "tracks_ok w1" "ts_grown w2 w1" unfolding g(2) by blast+
    moreover have "audio_pid ?k \<in> track_pids w1" using k(3) unfolding g(2) by (auto simp: track_pids_keys)
    moreover have "concat out \<noteq> [] \<longrightarrow> word_of_nat (length packet + 7) = (word_of_nat (length (concat out)) :: u32)"
      using adts_size [OF o k(5) [OF TwADTS]] by auto
    ultimately show ?thesis using ts_grown_trans [OF k(1)] g(1) by (simp add: pieces_ok_def)
  qed (use assms(1) r k pid in \<open>auto simp: Let_def pieces_ok_def\<close>)
qed

lemma video_given_kept:
  assumes "ts_given adts (TsVideo track tag packet) w = Some (g, w1)" "tracks_ok w" "unat (ts_index track) < 223"
  shows "ts_grown w w1 \<and> tracks_ok w1 \<and> pieces_ok g w1"
proof (cases "ts_video_track (ts_index track) (vt_codec tag) w")
  case None
  then show ?thesis using assms ts_grown_self by (simp add: pieces_ok_def Let_def)
next
  case (Some r)
  let ?k = "ts_index track"
  obtain t w2 where r: "ts_video_track ?k (vt_codec tag) w = Some (t, w2)" using Some by (cases r) blast
  note k = video_track_kept [OF r assms(2,3)]
  obtain v n where t: "tt_writer t = TwNAL v n" using assms(1) r by (auto simp: Let_def split: track_writer.splits)
  obtain n' out sz where o: "nal_writeVideo v n tag packet 0 = Some (n', out, sz)" using assms(1) r t by (auto simp: Let_def)
  have g: "g = Some (video_pid ?k, vt_time tag, vt_composition tag, sz, vt_frame tag = FRAME_KEY, out)"
    "w1 = w2\<lparr>ts_videos := ts_set ?k (t\<lparr>tt_writer := TwNAL v n'\<rparr>) (ts_videos w2)\<rparr>"
    using assms(1) t r o by (simp_all add: Let_def)
  have "tt_langs (t\<lparr>tt_writer := TwNAL v n'\<rparr>) = []" using k(4) by simp
  from set_video_kept [OF k(2) this assms(3)]
  have "tracks_ok w1" "ts_grown w2 w1" unfolding g(2) by blast+
  moreover have "video_pid ?k \<in> track_pids w1" using k(3) unfolding g(2) by (auto simp: track_pids_keys)
  moreover have "sz = word_of_nat (length (concat out))" if "concat out \<noteq> []"
  proof -
    have "vt_codec tag = CODEC v" using o that by (auto simp: nal_writeVideo_def split: if_splits)
    then show ?thesis by (rule final_size_of [OF o])
  qed
  ultimately show ?thesis using ts_grown_trans [OF k(1)] g(1) by (simp add: pieces_ok_def)
qed

lemma given_kept:
  "ts_given adts op w = Some (g, w1) \<Longrightarrow> op_ok op \<Longrightarrow> tracks_ok w \<Longrightarrow> ts_grown w w1 \<and> tracks_ok w1 \<and> pieces_ok g w1"
  using audio_given_kept video_given_kept by (cases op) (auto simp: op_ok_def simp del: ts_given.simps)

lemma audio_track_same:
  assumes "same_tracks w v"
  shows "rel_option (\<lambda>(t, w1) (t', v1). t = t' \<and> same_tracks w1 v1) (ts_audio_track adts k codecId w) (ts_audio_track adts k codecId v)"
  using assms by (auto simp: same_tracks_def ts_audio_track_def Let_def split: option.split)

lemma video_track_same:
  assumes "same_tracks w v"
  shows "rel_option (\<lambda>(t, w1) (t', v1). t = t' \<and> same_tracks w1 v1) (ts_video_track k codecId w) (ts_video_track k codecId v)"
  using assms by (auto simp: same_tracks_def ts_video_track_def Let_def split: option.split)

lemma given_same:
  assumes "ts_given adts op w = Some (g, w1)" "same_tracks w v" "op_ok op"
  shows "\<exists>v1. ts_given adts op v = Some (g, v1) \<and> same_tracks w1 v1"
proof (cases op)
  case (TsAudio track tag packet)
  show ?thesis
  proof (cases "ts_audio_track adts (ts_index track) (at_codec tag) w")
    case None
    then have "ts_audio_track adts (ts_index track) (at_codec tag) v = None"
      using audio_track_same [OF assms(2), of adts "ts_index track" "at_codec tag"] by (simp add: rel_option_None1)
    then show ?thesis using assms TsAudio None by (simp add: Let_def)
  next
    case (Some r)
    then obtain t w2 v2 where r: "ts_audio_track adts (ts_index track) (at_codec tag) w = Some (t, w2)"
      "ts_audio_track adts (ts_index track) (at_codec tag) v = Some (t, v2)" "same_tracks w2 v2"
      using audio_track_same [OF assms(2), of adts "ts_index track" "at_codec tag"] by (cases r) (auto simp: option_rel_Some1)
    then show ?thesis using assms(1) TsAudio
      by (cases "tt_writer t") (auto simp: Let_def same_tracks_def split: prod.splits)
  qed
next
  case (TsVideo track tag packet)
  show ?thesis
  proof (cases "ts_video_track (ts_index track) (vt_codec tag) w")
    case None
    then have "ts_video_track (ts_index track) (vt_codec tag) v = None"
      using video_track_same [OF assms(2), of "ts_index track" "vt_codec tag"] by (simp add: rel_option_None1)
    then show ?thesis using assms TsVideo None by (simp add: Let_def)
  next
    case (Some r)
    then obtain t w2 v2 where r: "ts_video_track (ts_index track) (vt_codec tag) w = Some (t, w2)"
      "ts_video_track (ts_index track) (vt_codec tag) v = Some (t, v2)" "same_tracks w2 v2"
      using video_track_same [OF assms(2), of "ts_index track" "vt_codec tag"] by (cases r) (auto simp: option_rel_Some1)
    then show ?thesis using assms(1) TsVideo
      by (cases "tt_writer t") (auto simp: Let_def same_tracks_def)
  qed
qed (use assms(3) in \<open>simp add: op_ok_def\<close>)

section \<open>Any sequence of audios and videos\<close>

lemma writeESs_empty: "concat ps = [] \<Longrightarrow> writeESs pid time composition esSize ra ps w = Some ([], w)"
  by (induction ps) (simp_all add: writeES_nil)

lemma concat_out: "ts_out (b, w) = (outs, w') \<Longrightarrow> concat outs = b \<and> w' = w"
  by (auto simp: ts_out_def split: if_splits)

fun es_sent :: "u16 \<Rightarrow> int option \<Rightarrow> ts_sent list \<Rightarrow> (u32 \<times> u16 \<times> u8) list" where
  "es_sent q c [] = []"
| "es_sent q c ((pid, time, composition, b) # us) =
     (if q = pid then map (\<lambda>x. (word_of_int (uint time + 200 - ts_clock time c), composition, x)) b else [])
     @ es_sent q (Some (ts_clock time c)) us"

definition sent_ok :: "ts_sent \<Rightarrow> bool" where
  "sent_ok u \<longleftrightarrow> (case u of (pid, time, composition, b) \<Rightarrow> in_time time \<and> length b < 2 ^ 32)"

definition rested :: "ts_writer \<Rightarrow> ts_reader \<Rightarrow> int option \<Rightarrow> bool" where
  "rested w s c \<longleftrightarrow> agrees w s \<and> tracks_ok w \<and> ts_toWrite w = 0 \<and> ts_canWrite w = 0 \<and> tr_startTime s = ticks c"

lemma pack_plays:
  assumes "rested w s c" "pieces_ok (Some (pid, time, composition, sz, ra, out)) w" "concat out \<noteq> []" "sent_ok (pid, time, composition, concat out)"
  shows "\<exists>outs w' cs s'. ts_pack (Some (pid, time, composition, sz, ra, out), w) = Some (outs, w') \<and> plays tie (concat outs) s cs s'
    \<and> (\<forall>q. es_bytes q cs = es_sent q c [(pid, time, composition, concat out)]) \<and> same_tracks w w' \<and> rested w' s' (Some (ts_clock time c))"
proof -
  have r: "agrees w s" "tracks_ok w" "ts_toWrite w = 0" "ts_canWrite w = 0" "tr_startTime s = ticks c" using assms(1) by (simp_all add: rested_def)
  have u: "in_time time" "length (concat out) < 2 ^ LENGTH(32)" using assms(4) by (simp_all add: sent_ok_def)
  have pid: "pid \<in> track_pids w" "sz = word_of_nat (length (concat out))" using assms(2,3) by (simp_all add: pieces_ok_def)
  have sz: "length (concat out) = unat sz" unfolding pid(2) using unat_of_nat_small [OF u(2)] by simp
  then have nz: "sz \<noteq> 0" using assms(3) by auto
  have "left_ok sz (length (concat out)) w" using r(3,4) sz by (simp add: left_ok_def)
  note e = writeESs_concat [OF u(1) nz this, of pid composition ra]
  from writeES_plays [OF assms(3) sz r(3,4,1,2) pid(1) u(1) r(5), of composition ra tie] obtain b w' cs s' where
    k: "writeES pid time composition sz ra (concat out) w = Some (b, w')" "plays tie b s cs s'"
    "\<forall>q. es_bytes q cs = (if q = pid then map (\<lambda>x. (word_of_int (uint time + 200 - ts_clock time c), composition, x)) (concat out) else [])"
    "agrees w' s'" "same_tracks w w'" "ts_toWrite w' = 0" "ts_canWrite w' = 0" "tr_startTime s' = ticks (Some (ts_clock time c))" by blast
  obtain outs w2 where o: "ts_out (b, w') = (outs, w2)" by fastforce
  have "ts_pack (Some (pid, time, composition, sz, ra, out), w) = Some (outs, w')"
    using concat_out [OF o] o by (simp add: ts_pack_def e k(1))
  moreover have "tracks_ok w'" using r(2) k(5) by (simp add: same_tracks_def tracks_ok_def)
  moreover have "es_bytes q cs = es_sent q c [(pid, time, composition, concat out)]" for q using k(3) by simp
  ultimately show ?thesis using concat_out [OF o] k(2,4-8) unfolding rested_def by blast
qed

lemma es_sent_append: "es_sent q c (u # us) = es_sent q c [u] @ es_sent q (Some (ts_clock (fst (snd u)) c)) us"
  by (cases u) simp

lemma run_plays:
  "ts_units adts ops v = Some us \<Longrightarrow> same_tracks v w \<Longrightarrow> \<forall>op \<in> set ops. op_ok op \<Longrightarrow> \<forall>u \<in> set us. sent_ok u \<Longrightarrow> rested w s c \<Longrightarrow>
   \<exists>outs w' cs s'. ts_run adts ops w = Some (outs, w') \<and> plays tie (concat outs) s cs s' \<and> (\<forall>q. es_bytes q cs = es_sent q c us)"
proof (induction ops arbitrary: v us w s c)
  case Nil
  have "ts_clean s" using Nil.prems(5) by (simp add: rested_def agrees_def)
  then show ?case using Nil.prems(1) plays_none [of s tie] by (intro exI [of _ "[]"] exI [of _ w] exI [of _ s] conjI) simp_all
next
  case (Cons op ops)
  obtain g v1 us1 where g: "ts_given adts op v = Some (g, v1)" "ts_units adts ops v1 = Some us1"
    "us = (case g of Some (pid, time, composition, _, _, out) \<Rightarrow> if concat out = [] then [] else [(pid, time, composition, concat out)] | None \<Rightarrow> []) @ us1"
    using Cons.prems(1) by (auto simp: bind_eq_Some_conv simp del: ts_given.simps)
  have ok: "op_ok op" "\<forall>op \<in> set ops. op_ok op" "\<forall>u \<in> set us1. sent_ok u" using Cons.prems(3,4) g(3) by auto
  obtain w1 where w1: "ts_given adts op w = Some (g, w1)" "same_tracks v1 w1" using given_same [OF g(1) Cons.prems(2) ok(1)] by blast
  have "tracks_ok w" "agrees w s" using Cons.prems(5) by (simp_all add: rested_def)
  with given_kept [OF w1(1) ok(1)] have k: "ts_grown w w1" "tracks_ok w1" "pieces_ok g w1" "agrees w1 s" using agrees_ts_grown by blast+
  then have r: "rested w1 s c" using Cons.prems(5) by (simp add: rested_def ts_grown_def)
  have step: "ts_step adts op w = ts_pack (g, w1)" unfolding step_given w1(1) by simp
  consider "ts_pack (g, w1) = Some ([], w1)" "us = us1"
    | pid time composition sz ra out where "g = Some (pid, time, composition, sz, ra, out)" "concat out \<noteq> []"
  proof (cases g)
    case None
    then show ?thesis using that(1) g(3) by (simp add: ts_pack_def)
  next
    case (Some x)
    obtain pid time composition sz ra out where x: "x = (pid, time, composition, sz, ra, out)" by (cases x) blast
    show ?thesis
    proof (cases "concat out = []")
      case True
      then show ?thesis using that(1) g(3) Some x writeESs_empty [OF True] by (simp add: ts_pack_def ts_out_def)
    qed (use that(2) Some x in blast)
  qed
  then show ?case
  proof cases
    case 1
    from Cons.IH [OF g(2) w1(2) ok(2,3) r] show ?thesis using 1 by (auto simp: step)
  next
    case 2
    let ?u = "(pid, time, composition, concat out)"
    have us: "us = ?u # us1" using g(3) 2 by simp
    have uo: "sent_ok ?u" using Cons.prems(4) us by simp
    from pack_plays [OF r k(3) [unfolded 2(1)] 2(2) uo, of tie] obtain outs w2 cs s2 where
      p: "ts_pack (g, w1) = Some (outs, w2)" "plays tie (concat outs) s cs s2" "\<forall>q. es_bytes q cs = es_sent q c [?u]"
      "same_tracks w1 w2" "rested w2 s2 (Some (ts_clock time c))" unfolding 2(1) by blast
    from Cons.IH [OF g(2) same_tracks_trans [OF w1(2) p(4)] ok(2,3) p(5)] obtain outs' w' cs' s' where
      z: "ts_run adts ops w2 = Some (outs', w')" "plays tie (concat outs') s2 cs' s'" "\<forall>q. es_bytes q cs' = es_sent q (Some (ts_clock time c)) us1" by blast
    have "ts_run adts (op # ops) w = Some (outs @ outs', w')" by (simp add: step p(1) z(1))
    moreover have "plays tie (concat (outs @ outs')) s (cs @ cs') s'" using plays_append [OF p(2) z(2)] by simp
    moreover have "es_bytes q (cs @ cs') = es_sent q c us" for q
      using p(3) z(3) unfolding us es_sent_append [of q c ?u us1] by simp
    ultimately show ?thesis by blast
  qed
qed

lemma first_rested: "rested (ts_beginMedia (new_ts_writer w)) new_ts_reader None"
proof -
  have "program_at pid new_ts_reader = new_program" for pid by (simp add: program_at_def new_ts_reader_def)
  then show ?thesis
    using seq_ok_first
    by (auto simp: rested_def agrees_def tracks_ok_def ticks_def ts_clean_def new_program_def ts_beginMedia_def new_ts_writer_def new_ts_reader_def)
qed

lemma es_sent_times:
  "\<forall>(pid, time, composition, b) \<in> set us. t \<le> uint time + 200 \<Longrightarrow>
   es_sent q (Some t) us = concat (map (\<lambda>(pid, time, composition, b). if q = pid then map (\<lambda>x. (time + 200 - word_of_int t, composition, x)) b else []) us)"
  by (induction us) (auto simp: ts_clock_def min_def)

lemma units_some: "ts_units adts ops w = Some us \<Longrightarrow> (pid, time, composition, b) \<in> set us \<Longrightarrow> b \<noteq> []"
proof (induction ops arbitrary: w us)
  case (Cons op ops)
  obtain g w1 us1 where given: "ts_given adts op w = Some (g, w1)" and g: "ts_units adts ops w1 = Some us1"
    "us = (case g of Some (pid, time, composition, _, _, out) \<Rightarrow> if concat out = [] then [] else [(pid, time, composition, concat out)] | None \<Rightarrow> []) @ us1"
    using Cons.prems(1) by (auto simp: bind_eq_Some_conv simp del: ts_given.simps)
  from g(2) Cons.prems(2) have "(pid, time, composition, b) \<in> set us1 \<or> b \<noteq> []"
    by (cases g) (auto split: if_splits)
  then show ?case using Cons.IH [OF g(1)] by blast
qed simp

text \<open>C1. A sequence of audios and videos that \<open>TSWriter\<close> writes from its \<open>beginMedia\<close> comes out of \<open>TSReader\<close>: the writer
  returns, and the reader gives to each program the bytes that the writers of its track (\<open>ADTSWriter\<close>, \<open>NALNetWriter\<close> or
  none) made, in order, with their composition and their time from 200 milliseconds before the first one, and keeps nothing.
  The operations set no properties (languages), the videos are on tracks up to 223 (from 224 on a video has the program
  of an audio, \<open>TSWriter.cpp:295\<close>), no writer of a track fails, at least one unit is written, and each unit is below
  \<open>2 ^ 32\<close> bytes, at a time with \<open>(time + 200) * 90 < 2 ^ 32\<close>, about 13 hours and 15 minutes (it wraps around then,
  \<open>TSWriter.cpp:363\<close>), and at most 200 milliseconds before the first.\<close>

theorem ts_written_read:
  assumes "ts_units adts ops (ts_beginMedia (new_ts_writer w)) = Some ((pid0, t0, c0, b0) # us)"
    and "\<forall>op \<in> set ops. op_ok op"
    and "\<forall>(pid, time, composition, b) \<in> set ((pid0, t0, c0, b0) # us). in_time time \<and> length b < 2 ^ 32 \<and> uint t0 \<le> uint time + 200"
  shows "\<exists>outs w' s calls. ts_run adts ops (ts_beginMedia (new_ts_writer w)) = Some (outs, w')
    \<and> ts_parse tie (concat outs) new_ts_reader = (s, calls, [])
    \<and> (\<forall>pid. es_bytes pid calls =
        concat (map (\<lambda>(pid', time, composition, b). if pid = pid' then map (\<lambda>x. (time + 200 - t0, composition, x)) b else []) ((pid0, t0, c0, b0) # us)))"
proof -
  let ?w = "ts_beginMedia (new_ts_writer w)" and ?us = "(pid0, t0, c0, b0) # us"
  have u: "\<forall>u \<in> set ?us. sent_ok u" using assms(3) by (auto simp: sent_ok_def)
  have "same_tracks ?w ?w" by (simp add: same_tracks_def)
  from run_plays [OF assms(1) this assms(2) u first_rested, where tie = tie] obtain outs w' cs s' where
    k: "ts_run adts ops ?w = Some (outs, w')" "plays tie (concat outs) new_ts_reader cs s'" "\<forall>q. es_bytes q cs = es_sent q None ?us"
    by blast
  have t: "ts_clock t0 None = uint t0" by (simp add: ts_clock_def)
  have e: "es_sent q None ?us = concat (map (\<lambda>(pid', time, composition, b). if q = pid' then map (\<lambda>x. (time + 200 - t0, composition, x)) b else []) ?us)" for q
  proof -
    have "\<forall>(pid, time, composition, b) \<in> set us. uint t0 \<le> uint time + 200" using assms(3) by auto
    from es_sent_times [OF this, of q, unfolded word_of_int_uint] show ?thesis by (simp add: t)
  qed
  have "b0 \<noteq> []" using units_some [OF assms(1)] by auto
  then have "es_bytes pid0 cs \<noteq> []" using k(3) by simp
  moreover have "cs = []" if "concat outs = []"
  proof -
    have "plays tie [] new_ts_reader cs s'" using k(2) that by (simp only:)
    then show ?thesis by (auto elim: plays.cases)
  qed
  ultimately have "concat outs \<noteq> []" by (metis es_bytes_simps(1))
  from plays_parse [OF k(2) this] show ?thesis using k(1,3) e by metis
qed

theorem ts_written_read_witness:
  "\<exists>outs w s calls.
     ts_run \<lparr>aw_codecType = 0, aw_rateIndex = 4, aw_channels = 2\<rparr>
       [TsVideo 1 \<lparr>vt_time = 1000, vt_codec = 7, vt_frame = 1, vt_composition = 40\<rparr> [0, 0, 0, 2, 0x65, 7],
        TsAudio 1 \<lparr>at_time = 990, at_codec = 2, at_isConfig = False, at_channels = 2, at_rate = 44100\<rparr> [0xFF, 0xFB, 1]]
       (ts_beginMedia (new_ts_writer \<lparr>ts_videos = [], ts_audios = [], ts_version = 0, ts_changed = False, ts_timePMT = 0, ts_pids = (\<lambda>_. 0),
         ts_pidPCR = 0, ts_firstPCR = False, ts_timePCR = 0, ts_canWrite = 0, ts_toWrite = 0\<rparr>)) = Some (outs, w)
     \<and> ts_parse (\<lambda>_ _. False) (concat outs) new_ts_reader = (s, calls, [])
     \<and> es_bytes 33 calls = map (\<lambda>x. (200, 40, x)) [0, 0, 0, 1, 0x09, 0xF0, 0, 0, 0, 1, 0x65, 7]
     \<and> es_bytes 256 calls = map (\<lambda>x. (190, 0, x)) [0xFF, 0xFB, 1]"
proof -
  let ?adts = "\<lparr>aw_codecType = 0, aw_rateIndex = 4, aw_channels = 2\<rparr>"
  let ?w = "\<lparr>ts_videos = [], ts_audios = [], ts_version = 0, ts_changed = False, ts_timePMT = 0, ts_pids = (\<lambda>_. 0),
         ts_pidPCR = 0, ts_firstPCR = False, ts_timePCR = 0, ts_canWrite = 0, ts_toWrite = 0\<rparr>"
  let ?ops = "[TsVideo 1 \<lparr>vt_time = 1000, vt_codec = 7, vt_frame = 1, vt_composition = 40\<rparr> [0, 0, 0, 2, 0x65, 7],
        TsAudio 1 \<lparr>at_time = 990, at_codec = 2, at_isConfig = False, at_channels = 2, at_rate = 44100\<rparr> [0xFF, 0xFB, 1]]"
  have u: "ts_units ?adts ?ops (ts_beginMedia (new_ts_writer ?w)) =
    Some ((33, 1000, 40, [0, 0, 0, 1, 0x09, 0xF0, 0, 0, 0, 1, 0x65, 7]) # [(256, 990, 0, [0xFF, 0xFB, 1])])"
    by code_simp
  have o: "\<forall>op \<in> set ?ops. op_ok op" by (simp add: op_ok_def ts_index_def)
  have t: "in_time 1000" "in_time 990" by (simp_all add: in_time_def unit_dts_def)
  let ?us = "(33 :: u16, 1000 :: u32, 40 :: u16, [0, 0, 0, 1, 0x09, 0xF0, 0, 0, 0, 1, 0x65, 7] :: bytes) # [(256, 990, 0, [0xFF, 0xFB, 1])]"
  have h: "\<forall>(pid, time, composition, b) \<in> set ?us. in_time time \<and> length b < 2 ^ 32 \<and> uint (1000 :: u32) \<le> uint time + 200"
    using t by simp
  from ts_written_read [OF u o h, of "\<lambda>_ _. False"] obtain outs w s calls where k:
    "ts_run ?adts ?ops (ts_beginMedia (new_ts_writer ?w)) = Some (outs, w)" "ts_parse (\<lambda>_ _. False) (concat outs) new_ts_reader = (s, calls, [])"
    "\<forall>pid. es_bytes pid calls =
        concat (map (\<lambda>(pid', time, composition, b). if pid = pid' then map (\<lambda>x. (time + 200 - 1000, composition, x)) b else []) ?us)" by blast
  have "es_bytes 33 calls = map (\<lambda>x. (200, 40, x)) [0, 0, 0, 1, 0x09, 0xF0, 0, 0, 0, 1, 0x65, 7]"
    "es_bytes 256 calls = map (\<lambda>x. (190, 0, x)) [0xFF, 0xFB, 1]" using k(3) by simp_all
  then show ?thesis using k(1,2) by blast
qed

section \<open>The tracks of a writer\<close>

definition keyed :: "(u8 \<times> ts_track) list \<Rightarrow> bool" where
  "keyed m \<longleftrightarrow> sorted (map fst m) \<and> distinct (map fst m)"

text \<open>An audio has a writer of ADTS or none, a video the one of its codec.\<close>

definition audio_kind :: "ts_track \<Rightarrow> bool" where
  "audio_kind t \<longleftrightarrow> (case tt_writer t of TwNAL _ _ \<Rightarrow> False | _ \<Rightarrow> True)"

definition video_kind :: "ts_track \<Rightarrow> bool" where
  "video_kind t \<longleftrightarrow> (case tt_writer t of TwNAL v _ \<Rightarrow> tt_codec t = CODEC v | _ \<Rightarrow> False)"

definition ts_typed :: "ts_writer \<Rightarrow> bool" where
  "ts_typed w \<longleftrightarrow> keyed (ts_videos w) \<and> keyed (ts_audios w) \<and> length (ts_videos w) + length (ts_audios w) \<le> 33
     \<and> (\<forall>(k, t) \<in> set (ts_videos w). video_kind t) \<and> (\<forall>(k, t) \<in> set (ts_audios w). audio_kind t)"

lemma kind_simps [simp]:
  "audio_kind \<lparr>tt_codec = c, tt_writer = TwADTS a, tt_langs = l\<rparr>" "audio_kind \<lparr>tt_codec = c, tt_writer = TwNone, tt_langs = l\<rparr>"
  "audio_kind (t\<lparr>tt_writer := TwADTS a\<rparr>)" "audio_kind (t\<lparr>tt_writer := TwNone\<rparr>)"
  "video_kind \<lparr>tt_codec = 7, tt_writer = TwNAL AVC n, tt_langs = l\<rparr>" "video_kind \<lparr>tt_codec = 12, tt_writer = TwNAL HEVC n, tt_langs = l\<rparr>"
  "video_kind (t\<lparr>tt_writer := TwNAL v n\<rparr>) = (tt_codec t = CODEC v)"
  by (simp_all add: audio_kind_def video_kind_def)

lemma keyed_keys: "map fst m' = map fst m \<Longrightarrow> keyed m' = keyed m"
  by (simp add: keyed_def)

lemma keyed_set [simp]: "keyed (ts_set k t m) = keyed m"
  by (rule keyed_keys) (simp add: ts_set_def comp_def case_prod_beta)

lemma keyed_insort: "keyed m \<Longrightarrow> map_of m k = None \<Longrightarrow> keyed (insort_key fst (k, t) m)"
proof -
  assume a: "keyed m" "map_of m k = None"
  have "map fst (insort_key fst (k, t) m) = insort k (map fst m)" by (induction m) simp_all
  then show ?thesis using a by (simp add: keyed_def sorted_insort distinct_insort map_of_eq_None_iff)
qed

lemma typed_same: "same_tracks w w' \<Longrightarrow> ts_typed w' = ts_typed w"
  by (simp add: same_tracks_def ts_typed_def)

lemma writePES_same: "writePES pid time composition ra sz w = Some (b, free, w') \<Longrightarrow> frame w w'"
proof -
  assume a: "writePES pid time composition ra sz w = Some (b, free, w')"
  then obtain b1 w1 where t: "pes_tables time w = Some (b1, w1)" by (auto simp: writePES_def bind_eq_Some_conv)
  let ?due = "pes_fill composition sz < 8 \<and> (ts_firstPCR w1 \<or> sint (time - ts_timePCR w1) \<ge> 100)"
  let ?fill = "if ?due \<and> pid = ts_pidPCR w1 then 8 else pes_fill composition sz"
  let ?pcr = "if ?due \<and> pid \<noteq> ts_pidPCR w1 \<and> sint (time - ts_timePCR w1) \<ge> 500 then writePES_PCR time composition w1 else Some ([], w1)"
  have e: "map_option (\<lambda>(pcr, w). let (b, free, w) = pes_packet pid time composition ra sz ?fill w in (b1 @ pcr @ b, free, w)) ?pcr = Some (b, free, w')"
    using a unfolding writePES_def t Let_def Option.bind.simps prod.case .
  then obtain b2 w2 where p2: "?pcr = Some (b2, w2)" by (cases ?pcr) fastforce+
  obtain b3 free3 w3 where p3: "pes_packet pid time composition ra sz ?fill w2 = (b3, free3, w3)"
    by (cases "pes_packet pid time composition ra sz ?fill w2") blast
  have w: "w' = w3" using e unfolding p2 option.map prod.case p3 Let_def by simp
  have "frame w1 w2" using p2 PCR_frame frame_self by (metis option.inject prod.inject)
  then show ?thesis using frame_trans [OF tables_frame [OF t]] frame_trans packet_frame [OF p3] unfolding w by blast
qed

lemma head_same: "es_head pid time composition esSize ra w = Some (head, w') \<Longrightarrow> same_tracks w w'"
proof -
  assume a: "es_head pid time composition esSize ra w = Some (head, w')"
  consider "ts_toWrite w = 0" | "ts_toWrite w \<noteq> 0" "ts_canWrite w = 0" | "ts_toWrite w \<noteq> 0" "ts_canWrite w \<noteq> 0" by blast
  then show ?thesis
  proof cases
    case 1
    then obtain b free w2 where p: "writePES pid time composition ra esSize (w\<lparr>ts_toWrite := esSize\<rparr>) = Some (b, free, w2)"
      "w' = w2\<lparr>ts_canWrite := free\<rparr>" using a by (auto simp: es_head_def)
    from writePES_same [OF p(1)] show ?thesis by (simp add: p(2) frame_def same_tracks_def)
  next
    case 2
    obtain b free w2 where n: "writePES_next pid time ra (ts_toWrite w) w = (b, free, w2)"
      by (cases "writePES_next pid time ra (ts_toWrite w) w") blast
    then have "w' = w2\<lparr>ts_canWrite := free\<rparr>" using a 2 by (auto simp: es_head_def)
    moreover have "ts_clocked (ts_count pid w) w2" using next_shape [OF 2(1), of pid time ra w] n by auto
    then have "frame w w2" using frame_trans [OF count_same(2)] clocked_same by blast
    ultimately show ?thesis by (simp add: frame_def same_tracks_def)
  next
    case 3
    then have "w' = w" using a by (simp add: es_head_def)
    then show ?thesis by (simp add: same_tracks_def)
  qed
qed

lemma writeES_same:
  assumes "writeES pid time composition esSize ra p w = Some r"
  shows "same_tracks w (snd r)"
proof (rule writeES.raw_induct [where P = "\<lambda>pid time composition esSize ra p w r. same_tracks w (snd r)", OF _ assms])
  fix f :: "u16 \<Rightarrow> u32 \<Rightarrow> u16 \<Rightarrow> u32 \<Rightarrow> bool \<Rightarrow> bytes \<Rightarrow> ts_writer \<Rightarrow> (bytes \<times> ts_writer) option"
  fix pid time composition esSize ra and p :: bytes and w r
  assume ih: "\<And>pid time composition esSize ra p w r. f pid time composition esSize ra p w = Some r \<Longrightarrow> same_tracks w (snd r)"
  assume e: "(if p = [] then Some ([], w)
      else Option.bind
          (if ts_toWrite w = 0 then
             map_option (\<lambda>(b, free, w). (replicate (unat (ts_canWrite w)) 0xFF @ b, w\<lparr>ts_canWrite := free\<rparr>))
               (writePES pid time composition ra esSize (w\<lparr>ts_toWrite := esSize\<rparr>))
           else if ts_canWrite w = 0 then
             (let (b, free, w) = writePES_next pid time ra (ts_toWrite w) w in Some (b, w\<lparr>ts_canWrite := free\<rparr>))
           else Some ([], w))
          (\<lambda>(head, w).
             let n = min (length p) (unat (ts_canWrite w));
                 w = w\<lparr>ts_canWrite := ts_canWrite w - word_of_nat n,
                       ts_toWrite := (if n > unat (ts_toWrite w) then 0 else ts_toWrite w - word_of_nat n)\<rparr>
             in Option.bind (f pid time composition esSize ra (drop n p) w) (\<lambda>(b, w). Some (head @ take n p @ b, w)))) = Some r"
  show "same_tracks w (snd r)"
  proof (cases "p = []")
    case True
    then show ?thesis using e by (auto simp: same_tracks_def)
  next
    case False
    note e' = e [unfolded es_head_def [symmetric] if_not_P [OF False], unfolded Let_def, folded es_took_def]
    from e' obtain head w1 where h: "es_head pid time composition esSize ra w = Some (head, w1)"
      by (auto simp: bind_eq_Some_conv)
    let ?n = "min (length p) (unat (ts_canWrite w1))"
    obtain r' where r: "f pid time composition esSize ra (drop ?n p) (es_took ?n w1) = Some r'" "snd r = snd r'"
      using e' unfolding h by (auto simp: bind_eq_Some_conv)
    have "same_tracks w1 (es_took ?n w1)" by (simp add: same_tracks_def es_took_def)
    then show ?thesis using same_tracks_trans [OF head_same [OF h] same_tracks_trans] ih [OF r(1)] r(2) by metis
  qed
qed

lemma writeESs_same: "writeESs pid time composition esSize ra ps w = Some (b, w') \<Longrightarrow> same_tracks w w'"
proof (induction ps arbitrary: w b)
  case Nil
  then show ?case by (simp add: same_tracks_def)
next
  case (Cons p ps)
  then obtain b1 w1 b2 where "writeES pid time composition esSize ra p w = Some (b1, w1)" "writeESs pid time composition esSize ra ps w1 = Some (b2, w')"
    by (auto simp: bind_eq_Some_conv)
  then show ?case using same_tracks_trans writeES_same Cons.IH by fastforce
qed

lemma pack_same: "ts_pack (g, w) = Some (outs, w') \<Longrightarrow> same_tracks w w'"
  by (auto simp: ts_pack_def ts_out_def same_tracks_def split: option.splits if_splits dest: writeESs_same [unfolded same_tracks_def])

lemma typed_audio: "ts_audio_track adts k codecId w = Some (t, w1) \<Longrightarrow> ts_typed w \<Longrightarrow> ts_typed w1 \<and> audio_kind t"
  by (auto simp: ts_audio_track_def ts_typed_def Let_def set_insort_key keyed_insort dest!: set_ts_set map_of_SomeD split: option.splits if_splits)

lemma typed_video:
  "ts_video_track k codecId w = Some (t, w1) \<Longrightarrow> ts_typed w \<Longrightarrow> ts_typed w1 \<and> video_kind t"
  by (auto simp: ts_video_track_def ts_typed_def Let_def set_insort_key keyed_insort dest!: set_ts_set map_of_SomeD split: option.splits if_splits)

lemma typed_properties: "ts_typed w \<Longrightarrow> ts_typed (ts_writeProperties lang w)"
proof -
  assume a: "ts_typed w"
  have f: "tt_writer (snd (parseLang_audio k lang t)) = tt_writer t" "tt_writer (snd (parseLang_video k lang t)) = tt_writer t"
    "tt_codec (snd (parseLang_video k lang t)) = tt_codec t" for k t
    by (simp_all add: parseLang_audio_def parseLang_video_def Let_def split: prod.split)
  have l: "audio_kind (snd (parseLang_audio k lang t)) = audio_kind t" "video_kind (snd (parseLang_video k lang t)) = video_kind t" for k t
    unfolding audio_kind_def video_kind_def f by simp_all
  have k: "keyed (map (\<lambda>x. (fst x, f x)) m) = keyed m" for f and m :: "(u8 \<times> ts_track) list"
    by (rule keyed_keys) (simp add: comp_def)
  show ?thesis using a l unfolding ts_writeProperties_def ts_typed_def Let_def
    by (auto simp: comp_def case_prod_beta k)
qed

lemma typed_given: "ts_given adts op w = Some (g, w1) \<Longrightarrow> ts_typed w \<Longrightarrow> ts_typed w1"
proof (cases op)
  case (TsProperties lang)
  then show "ts_given adts op w = Some (g, w1) \<Longrightarrow> ts_typed w \<Longrightarrow> ts_typed w1" using typed_properties by auto
next
  case (TsAudio track tag packet)
  assume a: "ts_given adts op w = Some (g, w1)" "ts_typed w"
  show "ts_typed w1"
  proof (cases "ts_audio_track adts (ts_index track) (at_codec tag) w")
    case None
    then show ?thesis using a TsAudio by (simp add: Let_def)
  next
    case (Some r)
    obtain t w2 where r: "ts_audio_track adts (ts_index track) (at_codec tag) w = Some (t, w2)" using Some by (cases r) blast
    note k = typed_audio [OF r a(2)]
    have "ts_typed (w2\<lparr>ts_audios := ts_set (ts_index track) (t\<lparr>tt_writer := TwADTS a\<rparr>) (ts_audios w2)\<rparr>)" for a
      using k by (auto simp: ts_typed_def dest!: set_ts_set)
    then show ?thesis using a TsAudio r k by (cases "tt_writer t") (auto simp: Let_def split: prod.splits)
  qed
next
  case (TsVideo track tag packet)
  assume a: "ts_given adts op w = Some (g, w1)" "ts_typed w"
  show "ts_typed w1"
  proof (cases "ts_video_track (ts_index track) (vt_codec tag) w")
    case None
    then show ?thesis using a TsVideo by (simp add: Let_def)
  next
    case (Some r)
    obtain t w2 where r: "ts_video_track (ts_index track) (vt_codec tag) w = Some (t, w2)" using Some by (cases r) blast
    note k = typed_video [OF r a(2)]
    obtain v n where v: "tt_writer t = TwNAL v n" "tt_codec t = CODEC v" using k by (auto simp: video_kind_def split: track_writer.splits)
    have "ts_typed (w2\<lparr>ts_videos := ts_set (ts_index track) (t\<lparr>tt_writer := TwNAL v n'\<rparr>) (ts_videos w2)\<rparr>)" for n'
      using k v by (auto simp: ts_typed_def dest!: set_ts_set)
    then show ?thesis using a TsVideo r v by (auto simp: Let_def)
  qed
qed

lemma typed_run: "ts_run adts ops w = Some (outs, w') \<Longrightarrow> ts_typed w \<Longrightarrow> ts_typed w'"
proof (induction ops arbitrary: w outs)
  case (Cons op ops)
  obtain outs1 w1 outs2 where s: "ts_step adts op w = Some (outs1, w1)" "ts_run adts ops w1 = Some (outs2, w')"
    using Cons.prems(1) by (auto simp: bind_eq_Some_conv simp del: ts_step.simps)
  obtain g w2 where g: "ts_given adts op w = Some (g, w2)" "ts_pack (g, w2) = Some (outs1, w1)"
    using s(1) unfolding step_given by (auto simp: bind_eq_Some_conv)
  have "ts_typed w1" using typed_same [OF pack_same [OF g(2)]] typed_given [OF g(1) Cons.prems(2)] by simp
  then show ?case by (rule Cons.IH [OF s(2)])
qed simp

text \<open>C24. The tracks of a writer stay a map of at most 33 tracks, each video with the writer of its codec.\<close>

theorem ts_tracks_typed:
  assumes "ts_run adts ops (ts_beginMedia (new_ts_writer w)) = Some (outs, w')"
  shows "sorted (map fst (ts_videos w')) \<and> distinct (map fst (ts_videos w')) \<and> sorted (map fst (ts_audios w')) \<and> distinct (map fst (ts_audios w'))
    \<and> length (ts_videos w') + length (ts_audios w') \<le> 33
    \<and> (\<forall>(k, t) \<in> set (ts_videos w'). \<exists>v n. tt_writer t = TwNAL v n \<and> tt_codec t = CODEC v)
    \<and> (\<forall>(k, t) \<in> set (ts_audios w'). \<forall>v n. tt_writer t \<noteq> TwNAL v n)"
proof -
  have "ts_typed (ts_beginMedia (new_ts_writer w))"
    by (simp add: ts_typed_def keyed_def ts_beginMedia_def new_ts_writer_def)
  from typed_run [OF assms this] have t: "ts_typed w'" .
  have k: "video_kind t \<Longrightarrow> \<exists>v n. tt_writer t = TwNAL v n \<and> tt_codec t = CODEC v" "audio_kind t \<Longrightarrow> \<forall>v n. tt_writer t \<noteq> TwNAL v n" for t
    by (auto simp: video_kind_def audio_kind_def split: track_writer.splits)
  have "\<forall>(k, t) \<in> set (ts_videos w'). \<exists>v n. tt_writer t = TwNAL v n \<and> tt_codec t = CODEC v"
    "\<forall>(k, t) \<in> set (ts_audios w'). \<forall>v n. tt_writer t \<noteq> TwNAL v n"
    using t k unfolding ts_typed_def by blast+
  then show ?thesis using t unfolding ts_typed_def keyed_def by blast
qed

theorem ts_tracks_typed_witness:
  "\<exists>outs w.
     ts_run \<lparr>aw_codecType = 0, aw_rateIndex = 4, aw_channels = 2\<rparr>
       [TsAudio 2 \<lparr>at_time = 990, at_codec = 2, at_isConfig = False, at_channels = 2, at_rate = 44100\<rparr> [],
        TsAudio 1 \<lparr>at_time = 991, at_codec = 2, at_isConfig = False, at_channels = 2, at_rate = 44100\<rparr> []]
       (ts_beginMedia (new_ts_writer \<lparr>ts_videos = [], ts_audios = [], ts_version = 0, ts_changed = False, ts_timePMT = 0, ts_pids = (\<lambda>_. 0),
         ts_pidPCR = 0, ts_firstPCR = False, ts_timePCR = 0, ts_canWrite = 0, ts_toWrite = 0\<rparr>)) = Some (outs, w)
     \<and> map fst (ts_audios w) = [0, 1] \<and> sorted (map fst (ts_audios w))"
proof -
  let ?adts = "\<lparr>aw_codecType = 0, aw_rateIndex = 4, aw_channels = 2\<rparr>"
  let ?w = "\<lparr>ts_videos = [], ts_audios = [], ts_version = 0, ts_changed = False, ts_timePMT = 0, ts_pids = (\<lambda>_. 0),
         ts_pidPCR = 0, ts_firstPCR = False, ts_timePCR = 0, ts_canWrite = 0, ts_toWrite = 0\<rparr>"
  let ?ops = "[TsAudio 2 \<lparr>at_time = 990, at_codec = 2, at_isConfig = False, at_channels = 2, at_rate = 44100\<rparr> [],
        TsAudio 1 \<lparr>at_time = 991, at_codec = 2, at_isConfig = False, at_channels = 2, at_rate = 44100\<rparr> []]"
  obtain outs w where w: "ts_run ?adts ?ops (ts_beginMedia (new_ts_writer ?w)) = Some (outs, w)" "map fst (ts_audios w) = [0, 1]"
    by (auto simp: ts_writeAudio_def ts_audio_track_def ts_beginMedia_def new_ts_writer_def ts_index_def ts_out_def writeES_nil ts_set_def
        adts_writeAudio_def adts_beginMedia_def Let_def split: prod.splits)
  have "sorted (map fst (ts_audios w))" by (rule conjunct1 [OF conjunct2 [OF conjunct2 [OF ts_tracks_typed [OF w(1)]]]])
  with w show ?thesis by (intro exI conjI)
qed

end
