(* ===== verification/TSChecksum.thy ===== *)
theory TSChecksum
  imports TSWriter
begin

text \<open>
  The table of \<open>Crypto::ComputeCRC32\<close>: it is that of the polynomial, made from its 8 powers.
\<close>

section \<open>The checksum, bit by bit\<close>

definition crc_bit :: "u32 \<Rightarrow> u32" where
  "crc_bit x = (if bit x 31 then push_bit 1 x XOR 0x04C11DB7 else push_bit 1 x)"

definition crc_serial :: "bytes \<Rightarrow> u32" where
  "crc_serial data = fold (\<lambda>b crc. (crc_bit ^^ 8) (crc XOR push_bit 24 (ucast b))) data 0xFFFFFFFF"

lemma crc_bit_xor: "crc_bit (x XOR y) = crc_bit x XOR crc_bit y"
proof -
  have p: "push_bit 1 (x XOR y) = push_bit 1 x XOR push_bit 1 y" by (simp add: push_bit_xor)
  have c: "(a XOR b) XOR p = (a XOR p) XOR b" "a XOR b = (a XOR p) XOR (b XOR p)" for a b p :: u32
    by (simp_all add: xor.assoc xor.left_commute xor.commute)
  show ?thesis unfolding crc_bit_def p by (simp add: bit_xor_iff) (simp add: xor.assoc xor.left_commute xor.commute)
qed

lemma crc_bits_xor: "(crc_bit ^^ n) (x XOR y) = (crc_bit ^^ n) x XOR (crc_bit ^^ n) y"
  by (induction n) (simp_all add: crc_bit_xor)

lemma crc_bits_low: "\<forall>i. bit x i \<longrightarrow> i + n < 32 \<Longrightarrow> (crc_bit ^^ n) x = push_bit n x"
proof (induction n)
  case (Suc n)
  have "(crc_bit ^^ n) x = push_bit n x" using Suc.prems by (intro Suc.IH) auto
  moreover have "\<not> bit (push_bit n x) 31" using Suc.prems by (auto simp: bit_push_bit_iff)
  ultimately have "(crc_bit ^^ Suc n) x = push_bit 1 (push_bit n x)" by (simp add: crc_bit_def [of "push_bit n x"])
  then show ?case by (simp only: push_bit_push_bit) simp
qed simp

definition crc_byte :: "u32 \<Rightarrow> u32" where
  "crc_byte x = (crc_bit ^^ 8) (push_bit 24 x)"

lemma crc_byte_xor: "crc_byte (x XOR y) = crc_byte x XOR crc_byte y"
  by (simp add: crc_byte_def push_bit_xor crc_bits_xor)

lemma eight_times: "(f ^^ 8) x = f (f (f (f (f (f (f (f x)))))))"
  by (simp add: eval_nat_numeral)

lemma crc_byte_basis:
  "crc_byte (word_of_nat (2 ^ 0)) = 0x04c11db7"
  "crc_byte (word_of_nat (2 ^ 1)) = 0x09823b6e"
  "crc_byte (word_of_nat (2 ^ 2)) = 0x130476dc"
  "crc_byte (word_of_nat (2 ^ 3)) = 0x2608edb8"
  "crc_byte (word_of_nat (2 ^ 4)) = 0x4c11db70"
  "crc_byte (word_of_nat (2 ^ 5)) = 0x9823b6e0"
  "crc_byte (word_of_nat (2 ^ 6)) = 0x34867077"
  "crc_byte (word_of_nat (2 ^ 7)) = 0x690ce0ee"
  by (simp_all add: crc_byte_def crc_bit_def eight_times)

lemma high_bit: "i < 2 ^ n \<Longrightarrow> n < 32 \<Longrightarrow> (word_of_nat (i + 2 ^ n) :: u32) = word_of_nat i XOR word_of_nat (2 ^ n)"
proof (rule bit_word_eqI)
  fix k :: nat
  assume i: "i < 2 ^ n" and k: "k < LENGTH(32)"
  have "i + 2 ^ n = i XOR 2 ^ n"
  proof -
    have "\<not> bit i n" using i by (simp add: bit_iff_odd)
    then have "i AND 2 ^ n = 0" by (simp add: and_exp_eq_0_iff_not_bit)
    then show ?thesis by (simp add: disjunctive_add_eq_xor)
  qed
  then show "bit (word_of_nat (i + 2 ^ n) :: u32) k = bit (word_of_nat i XOR word_of_nat (2 ^ n) :: u32) k"
    using k by (simp only: bit_xor_iff bit_of_nat_iff possible_bit_word) blast
qed

lemma crc_bytes_double:
  assumes "n < 32" "map (\<lambda>i. crc_byte (word_of_nat i)) [0..<2 ^ n] = L"
  shows "map (\<lambda>i. crc_byte (word_of_nat i)) [0..<2 ^ Suc n] = L @ map (\<lambda>x. x XOR crc_byte (word_of_nat (2 ^ n))) L"
proof -
  have u: "[0..<2 ^ Suc n] = [0..<2 ^ n] @ map (\<lambda>i. i + 2 ^ n) [0..<2 ^ n]"
  proof -
    have "[0..<2 ^ n + 2 ^ n] = [0..<2 ^ n] @ [2 ^ n..<2 ^ n + 2 ^ n]" by (rule upt_add_eq_append) simp
    moreover have "[2 ^ n..<2 ^ n + 2 ^ n] = map (\<lambda>i. i + 2 ^ n) [0..<2 ^ n]" by (simp add: map_add_upt)
    ultimately show ?thesis by (simp add: mult_2)
  qed
  have "map (\<lambda>i. crc_byte (word_of_nat (i + 2 ^ n))) [0..<2 ^ n] = map (\<lambda>i. crc_byte (word_of_nat i) XOR crc_byte (word_of_nat (2 ^ n))) [0..<2 ^ n]"
    by (rule map_cong [OF refl]) (use high_bit [OF _ assms(1)] crc_byte_xor in \<open>simp only: set_upt atLeastLessThan_iff\<close>)
  then show ?thesis unfolding u assms(2) [symmetric] map_append map_map comp_def by (simp only:)
qed

fun xor_table :: "u32 list \<Rightarrow> u32 list" where
  "xor_table [] = [0]"
| "xor_table (b # bs) = (let L = xor_table bs in L @ map (\<lambda>x. x XOR b) L)"

lemma crc_bytes_table:
  "n \<le> 32 \<Longrightarrow> map (\<lambda>i. crc_byte (word_of_nat i)) [0..<2 ^ n] = xor_table (map (\<lambda>j. crc_byte (word_of_nat (2 ^ j))) (rev [0..<n]))"
proof (induction n)
  case 0
  have "crc_byte 0 = 0" using crc_byte_xor [of 0 0] by simp
  then show ?case by simp
next
  case (Suc n)
  then show ?case using crc_bytes_double [of n, OF _ Suc.IH] by (simp add: Let_def del: of_nat_power)
qed

lemma crc_table: "CRC32 = map (\<lambda>i. crc_byte (word_of_nat i)) [0..<256]"
proof -
  have "rev [0..<8] = [7, 6, 5, 4, 3, 2, 1, 0 :: nat]" by (simp add: upt_rec)
  then have "map (\<lambda>i. crc_byte (word_of_nat i)) [0..<2 ^ 8] = xor_table [0x690ce0ee, 0x34867077, 0x9823b6e0, 0x4c11db70, 0x2608edb8, 0x130476dc, 0x09823b6e, 0x04c11db7]"
    by (simp only: crc_bytes_table list.map crc_byte_basis)
  moreover have "xor_table [0x690ce0ee, 0x34867077, 0x9823b6e0, 0x4c11db70, 0x2608edb8, 0x130476dc, 0x09823b6e, 0x04c11db7] = CRC32" by (simp add: CRC32_def Let_def)
  ultimately show ?thesis by simp
qed

lemma crc_step_serial: "crc_step b crc = (crc_bit ^^ 8) (crc XOR push_bit 24 (ucast b))"
proof -
  let ?x = "crc XOR push_bit 24 (ucast b)"
  let ?h = "drop_bit 24 crc XOR ucast b :: u32"
  have small: "unat ?h < 256"
  proof -
    have "?h = take_bit 8 ?h" by (rule bit_word_eqI) (auto simp: bit_simps dest: bit_imp_le_length)
    moreover have "unat (take_bit 8 ?h) < 2 ^ 8" unfolding unsigned_take_bit_eq by (rule take_bit_nat_less_exp)
    ultimately show ?thesis by simp
  qed
  have "CRC32 ! unat ?h = crc_byte (word_of_nat (unat ?h))" unfolding crc_table using small by (subst nth_map) (simp_all only: length_upt nth_upt, simp_all)
  then have t: "CRC32 ! unat ?h = (crc_bit ^^ 8) (push_bit 24 ?h)" by (simp add: crc_byte_def)
  have l: "(crc_bit ^^ 8) (take_bit 24 crc) = push_bit 8 (take_bit 24 crc)" by (rule crc_bits_low) (simp add: bit_take_bit_iff)
  have p: "push_bit 8 (take_bit 24 crc) = push_bit 8 crc" by (rule bit_word_eqI) (auto simp: bit_simps)
  have "?x = take_bit 24 crc XOR push_bit 24 ?h" by (rule bit_word_eqI) (auto simp: bit_simps)
  then have "(crc_bit ^^ 8) ?x = push_bit 8 crc XOR CRC32 ! unat ?h" unfolding t by (simp only: crc_bits_xor l p)
  then show ?thesis by (simp only: crc_step_def)
qed

text \<open>C25. The table gives the remainder of the polynomial \<open>0x04C11DB7\<close>, taken bit by bit.\<close>

theorem crc_is_serial: "ComputeCRC32 data = crc_serial data"
proof -
  have "crc_step = (\<lambda>b crc. (crc_bit ^^ 8) (crc XOR push_bit 24 (ucast b)))" by (intro ext crc_step_serial)
  then show ?thesis by (simp only: ComputeCRC32_def crc_serial_def)
qed

end
