(* ===== verification/AMFRead.thy ===== *)
theory AMFRead
  imports AMF
begin

text \<open>
  \<open>AMFReader\<close> on \<open>ReferableReader\<close> and \<open>DataReader\<close>: what a packet makes a writer get.  The recursion of
  \<open>readNext\<close> and the loops that end on what they read take fuel.
\<close>

section \<open>State\<close>

text \<open>A target: the reference it returns for an event behind those it got, and whether it repeats a reference.\<close>

record data_target =
  dt_reference :: "data_event list \<Rightarrow> data_event \<Rightarrow> nat"
  dt_repeat :: "data_event list \<Rightarrow> nat \<Rightarrow> bool"

definition null_target :: data_target where
  "null_target = \<lparr>dt_reference = (\<lambda>es e. 0), dt_repeat = (\<lambda>es r. False)\<rparr>"

text \<open>\<open>_amf3\<close> is 1 behind the marker of a value, 2 inside it.  A reference has a value and a level of objects open.\<close>

record amf_reader =
  ar_reader :: breader
  ar_strings :: "nat list"
  ar_classDefs :: "nat list"
  ar_references :: "nat list"
  ar_amf0References :: "nat list"
  ar_amf3 :: nat
  ar_referencing :: bool
  ar_repeatables :: "(nat \<times> nat \<times> u8) list"
  ar_events :: "data_event list"

definition new_amf_reader :: "bytes \<Rightarrow> amf_reader" where
  "new_amf_reader packet =
     \<lparr>ar_reader = net_reader packet, ar_strings = [], ar_classDefs = [], ar_references = [], ar_amf0References = [],
      ar_amf3 = 0, ar_referencing = True, ar_repeatables = [], ar_events = []\<rparr>"

datatype amf_result = AmfDone bool amf_reader | AmfCrash | AmfFuel

definition amf_bind :: "amf_result \<Rightarrow> (bool \<Rightarrow> amf_reader \<Rightarrow> amf_result) \<Rightarrow> amf_result" where
  "amf_bind m f = (case m of AmfDone b s \<Rightarrow> f b s | AmfCrash \<Rightarrow> AmfCrash | AmfFuel \<Rightarrow> AmfFuel)"

definition ar_emit :: "data_event \<Rightarrow> amf_reader \<Rightarrow> amf_reader" where
  "ar_emit e s = s\<lparr>ar_events := ar_events s @ [e]\<rparr>"

definition ar_position :: "amf_reader \<Rightarrow> nat" where
  "ar_position s = br_position (ar_reader s)"

definition ar_available :: "amf_reader \<Rightarrow> nat" where
  "ar_available s = br_available (ar_reader s)"

definition ar_current :: "nat \<Rightarrow> amf_reader \<Rightarrow> bytes" where
  "ar_current n s = take n (drop (ar_position s) (rd_data (ar_reader s)))"

definition ar_reset :: "nat \<Rightarrow> amf_reader \<Rightarrow> amf_reader" where
  "ar_reset position s = s\<lparr>ar_reader := br_reset position (ar_reader s)\<rparr>"

definition ar_next :: "nat \<Rightarrow> amf_reader \<Rightarrow> amf_reader" where
  "ar_next n s = s\<lparr>ar_reader := snd (br_next n (ar_reader s))\<rparr>"

definition ar_read :: "(breader \<Rightarrow> 'a \<times> breader) \<Rightarrow> amf_reader \<Rightarrow> 'a \<times> amf_reader" where
  "ar_read f s = (let (x, r) = f (ar_reader s) in (x, s\<lparr>ar_reader := r\<rparr>))"

definition ar_read7 :: "amf_reader \<Rightarrow> u32 \<times> amf_reader" where
  "ar_read7 = ar_read (br_read7Bit 4)"

section \<open>ReferableReader\<close>

text \<open>The reference 0 is none; the level of a complex value goes down at its end.\<close>

definition ar_repeatable :: "data_target \<Rightarrow> nat \<Rightarrow> u8 \<Rightarrow> data_event \<Rightarrow> amf_reader \<Rightarrow> amf_reader" where
  "ar_repeatable t ref level e s =
     (let s' = ar_emit e s
      in if ref = 0 then s' else s'\<lparr>ar_repeatables := AList.update ref (dt_reference t (ar_events s) e, level) (ar_repeatables s')\<rparr>)"

definition ar_end :: "nat \<Rightarrow> data_event \<Rightarrow> amf_reader \<Rightarrow> amf_reader" where
  "ar_end ref e s =
     (let s = ar_emit e s
      in case (if ref = 0 then None else map_of (ar_repeatables s) ref) of
           None \<Rightarrow> s
         | Some (v, level) \<Rightarrow> s\<lparr>ar_repeatables := AList.update ref (v, level - 1) (ar_repeatables s)\<rparr>)"

definition writeReference :: "data_target \<Rightarrow> nat \<Rightarrow> amf_reader \<Rightarrow> bool \<times> amf_reader" where
  "writeReference t ref s =
     (case map_of (ar_repeatables s) ref of
        None \<Rightarrow> (True, ar_emit EvNull s)
      | Some (v, level) \<Rightarrow>
          if v > 0 \<and> dt_repeat t (ar_events s) v then (True, ar_emit (EvRepeat v) s)
          else if level \<noteq> 0 then (True, ar_emit EvNull s)
          else (False, s))"

section \<open>Texts and types\<close>

text \<open>\<open>readText\<close>: the text with its size, without text (\<open>NULL\<close>) when it is not there.\<close>

definition readText :: "amf_reader \<Rightarrow> bytes option \<times> nat \<times> amf_reader" where
  "readText s =
     (if ar_amf3 s \<noteq> 0 then
        (let reference = ar_position s; (n, s) = ar_read7 s; sz = unat (drop_bit 1 n)
         in if \<not> bit n 0 then
              (if sz \<ge> length (ar_strings s) then (None, sz, s)
               else let back = ar_position s; (n, s') = ar_read7 (ar_reset (ar_strings s ! sz) s); sz = unat (drop_bit 1 n)
                    in if sz > ar_available s' then (None, sz, if back = 0 then s' else ar_reset back s')
                       else (Some (ar_current sz s'), sz, if back = 0 then s' else ar_reset back s'))
            else if sz > ar_available s then (None, sz, s)
            else (Some (ar_current sz s), sz,
                  if sz = 0 then s
                  else ar_next sz (if reference = 0 then s else s\<lparr>ar_strings := ar_strings s @ [reference]\<rparr>)))
      else
        (let (n, s) = ar_read br_read16 s; sz = unat n
         in if sz > ar_available s then (None, sz, s) else (Some (ar_current sz s), sz, ar_next sz s)))"

datatype amf_type = TyEnd | TyNil | TyBoolean | TyNumber | TyString | TyDate | TyByte | TyObject | TyArray | TyMap | TyReference

definition followingType3 :: "amf_reader \<Rightarrow> amf_type \<times> amf_reader" where
  "followingType3 s =
     (if ar_available s = 0 then (TyEnd, s)
      else
        let c = hd (ar_current 1 s)
        in if c = 0 \<or> c = 1 then (TyNil, s)
           else if c = 2 \<or> c = 3 then (TyBoolean, s)
           else if c = 4 \<or> c = 5 then (TyNumber, s)
           else if c = 6 then (TyString, s)
           else if c = 8 then (TyDate, s)
           else if c = 0x0C then (TyByte, s)
           else if c = 9 then (TyArray, s)
           else if c = 0x11 then (TyMap, s)
           else if c = 0x0A then (TyObject, s)
           else (TyEnd, ar_next (ar_available s) s))"

definition followingType :: "amf_reader \<Rightarrow> amf_type \<times> amf_reader" where
  "followingType s =
     (if ar_available s = 0 then (TyEnd, s)
      else if ar_amf3 s \<noteq> 0 then followingType3 s
      else
        let c = hd (ar_current 1 s)
        in if c = AMF0_AMF3_OBJECT then followingType3 ((ar_next 1 s)\<lparr>ar_amf3 := 1\<rparr>)
           else if c = 6 \<or> c = 5 then (TyNil, s)
           else if c = 1 then (TyBoolean, s)
           else if c = 0 then (TyNumber, s)
           else if c = 0x0C \<or> c = 2 then (TyString, s)
           else if c = 8 \<or> c = 0x0A then (TyArray, s)
           else if c = 0x0B then (TyDate, s)
           else if c = 3 \<or> c = 0x10 then (TyObject, s)
           else if c = 7 then (TyReference, s)
           else (TyEnd, ar_next (ar_available s) s))"

section \<open>The simple values\<close>

definition writeString :: "amf_reader \<Rightarrow> amf_result" where
  "writeString s =
     (let (type, s) = ar_read br_read8 s
      in if type = 0x0C then
           (let (n, s) = ar_read br_read32 s
            in if unat n > ar_available s then AmfDone False s
               else AmfDone True (ar_next (unat n) (ar_emit (EvString (ar_current (unat n) s)) s)))
         else case readText s of
                (None, _, s) \<Rightarrow> AmfDone False s
              | (Some text, _, s) \<Rightarrow> AmfDone True (ar_emit (EvString text) s))"

definition writeBoolean :: "amf_reader \<Rightarrow> amf_result" where
  "writeBoolean s =
     (let (type, s) = ar_read br_read8 s
      in if ar_amf3 s \<noteq> 0 then AmfDone True (ar_emit (EvBoolean (type = 3)) s)
         else let (b, s) = ar_read br_read8 s in AmfDone True (ar_emit (EvBoolean (b \<noteq> 0)) s))"

text \<open>The integer of AMF3 is in an \<open>UInt32\<close>, also below 0.\<close>

definition writeNumber :: "amf_reader \<Rightarrow> amf_result" where
  "writeNumber s =
     (let (type, s) = ar_read br_read8 s
      in if ar_amf3 s = 0 \<or> type = 5 then (let (d, s) = ar_read br_read64 s in AmfDone True (ar_emit (EvNumber d) s))
         else let (n, s) = ar_read7 s; n = (if n > 0xFFFFFFF then n - 0x20000000 else n)
              in AmfDone True (ar_emit (EvNumber (double_of (unat n))) s))"

text \<open>
  A byte array that is a reference is read back when the target does not repeat it (the arguments of its
  \<open>Packet\<close> from the last to the first).
\<close>

definition writeByte :: "data_target \<Rightarrow> amf_reader \<Rightarrow> amf_result" where
  "writeByte t s =
     (let s = ar_next 1 s; pos = ar_position s; (n, s) = ar_read7 s; sz = unat (drop_bit 1 n)
      in if sz > ar_available s then AmfDone False s
         else if bit n 0 then
           (let data = ar_current sz s;
                s = (if ar_referencing s
                     then let s = s\<lparr>ar_references := ar_references s @ [pos]\<rparr>
                          in ar_repeatable t (2 * length (ar_references s) + 1) 0 (EvByte data) s
                     else ar_emit (EvByte data) s)
            in AmfDone True (ar_next sz s))
         else case writeReference t (2 * (sz + 1) + 1) s of
                (True, s) \<Rightarrow> AmfDone True s
              | (False, s) \<Rightarrow>
                  if sz \<ge> length (ar_references s) then AmfDone False s
                  else let back = ar_position s; s = ar_reset (ar_references s ! sz) s;
                           (n, s) = ar_read7 s; data = ar_current (unat (drop_bit 1 n)) s
                       in AmfDone True (ar_reset back (ar_repeatable t (2 * (sz + 1) + 1) 0 (EvByte data) s)))"

definition writeDate :: "data_target \<Rightarrow> amf_reader \<Rightarrow> amf_result" where
  "writeDate t s =
     (let s = ar_next 1 s
      in if ar_amf3 s = 0 then
           (let (d, s) = ar_read br_read64 s in AmfDone True (ar_next 2 (ar_emit (EvDate d) s)))
         else
           let pos = ar_position s; (n, s) = ar_read7 s; flags = unat (drop_bit 1 n)
           in if bit n 0 then
                (if ar_referencing s then
                   (let s = s\<lparr>ar_references := ar_references s @ [pos]\<rparr>; (d, s) = ar_read br_read64 s
                    in AmfDone True (ar_repeatable t (2 * length (ar_references s) + 1) 0 (EvDate d) s))
                 else let (d, s) = ar_read br_read64 s in AmfDone True (ar_emit (EvDate d) s))
              else case writeReference t (2 * (flags + 1) + 1) s of
                     (True, s) \<Rightarrow> AmfDone True s
                   | (False, s) \<Rightarrow>
                       if flags \<ge> length (ar_references s) then AmfDone False s
                       else let back = ar_position s; (d, s) = ar_read br_read64 (ar_reset (ar_references s ! flags) s)
                            in AmfDone True (ar_reset back (ar_repeatable t (2 * (flags + 1) + 1) 0 (EvDate d) s)))"

section \<open>The complex values\<close>

text \<open>A value, null when there is none.\<close>

definition value_or_null :: "(amf_reader \<Rightarrow> amf_result) \<Rightarrow> amf_reader \<Rightarrow> amf_result" where
  "value_or_null readNext s = amf_bind (readNext s) (\<lambda>ok s. AmfDone True (if ok then s else ar_emit EvNull s))"

fun read_elements :: "(amf_reader \<Rightarrow> amf_result) \<Rightarrow> nat \<Rightarrow> amf_reader \<Rightarrow> amf_result" where
  "read_elements readNext 0 s = AmfDone True s"
| "read_elements readNext (Suc n) s = amf_bind (value_or_null readNext s) (\<lambda>_. read_elements readNext n)"

fun read_pairs :: "(amf_reader \<Rightarrow> amf_result) \<Rightarrow> nat \<Rightarrow> amf_reader \<Rightarrow> amf_result" where
  "read_pairs readNext 0 s = AmfDone True s"
| "read_pairs readNext (Suc n) s =
     amf_bind (value_or_null readNext s) (\<lambda>_ s. amf_bind (value_or_null readNext s) (\<lambda>_. read_pairs readNext n))"

text \<open>The name given to a target ends at its first zero.\<close>

definition cstr :: "bytes \<Rightarrow> bytes" where
  "cstr text = takeWhile (\<lambda>b. b \<noteq> 0) text"

text \<open>The properties up to an empty name, or one that is not there.\<close>

fun read_properties :: "nat \<Rightarrow> (amf_reader \<Rightarrow> amf_result) \<Rightarrow> amf_reader \<Rightarrow> amf_result" where
  "read_properties 0 readNext s = AmfFuel"
| "read_properties (Suc n) readNext s =
     (case readText s of
        (Some text, sz, s) \<Rightarrow>
          if sz = 0 then AmfDone True s
          else amf_bind (value_or_null readNext (ar_emit (EvName (cstr text)) s)) (\<lambda>_. read_properties n readNext)
      | (None, _, s) \<Rightarrow> AmfDone True s)"

definition writeMap :: "data_target \<Rightarrow> (amf_reader \<Rightarrow> amf_result) \<Rightarrow> amf_reader \<Rightarrow> amf_result" where
  "writeMap t readNext s =
     (let s = ar_next 1 s; reference = ar_position s; (n, s) = ar_read7 s; sz = unat (drop_bit 1 n);
          referencing = ar_referencing s;
          ending = (\<lambda>ref back s. amf_bind s (\<lambda>_ s.
             let s = ar_end ref EvEndMap s in AmfDone True ((if back = 0 then s else ar_reset back s)\<lparr>ar_referencing := referencing\<rparr>)));
          weak = (\<lambda>s. let (b, s) = ar_read br_read8 s in (bit b 0, s))
      in if bit n 0 then
           (if ar_referencing s then
              (let s = s\<lparr>ar_references := ar_references s @ [reference]\<rparr>; ref = 2 * length (ar_references s) + 1; (w, s) = weak s
               in ending ref 0 (read_pairs readNext sz (ar_repeatable t ref 1 (EvBeginMap (word_of_nat sz) w) s)))
            else let (w, s) = weak s in ending 0 0 (read_pairs readNext sz (ar_emit (EvBeginMap (word_of_nat sz) w) s)))
         else case writeReference t (2 * (sz + 1) + 1) s of
                (True, s) \<Rightarrow> AmfDone True s
              | (False, s) \<Rightarrow>
                  if sz \<ge> length (ar_references s) then AmfDone False s
                  else let back = ar_position s; (n, s') = ar_read7 (ar_reset (ar_references s ! sz) s); ref = 2 * (sz + 1) + 1;
                           sz = unat (drop_bit 1 n); (w, s') = weak s'
                       in ending ref back (read_pairs readNext sz
                            ((ar_repeatable t ref 1 (EvBeginMap (word_of_nat sz) w) s')\<lparr>ar_referencing := False\<rparr>)))"


text \<open>An array of AMF3: properties first, which make it an object array when there are some.\<close>

definition writeArray3 :: "nat \<Rightarrow> data_target \<Rightarrow> (amf_reader \<Rightarrow> amf_result) \<Rightarrow> amf_reader \<Rightarrow> amf_result" where
  "writeArray3 fuel t readNext s =
     (let s = ar_next 1 s; position = ar_position s; (n, s) = ar_read7 s; sz = unat (drop_bit 1 n);
          referencing = ar_referencing s;
          content = (\<lambda>ref back sz s.
            amf_bind
              (case readText s of
                 (Some text, l, s) \<Rightarrow>
                   if l = 0 then AmfDone False s
                   else amf_bind (value_or_null readNext
                               (ar_emit (EvName (cstr text)) (ar_repeatable t ref 2 (EvBeginObjectArray (word_of_nat sz)) s)))
                          (\<lambda>_ s. amf_bind (read_properties fuel readNext s) (\<lambda>_. AmfDone True))
               | (None, _, s) \<Rightarrow> AmfDone False s)
              (\<lambda>started s.
                 amf_bind (read_elements readNext sz
                       (if started then ar_end ref EvEndObject s else ar_repeatable t ref 1 (EvBeginArray (word_of_nat sz)) s))
                   (\<lambda>_ s. let s = ar_end ref EvEndArray s
                           in AmfDone True ((if back = 0 then s else ar_reset back s)\<lparr>ar_referencing := referencing\<rparr>))))
      in if bit n 0 then
           (if ar_referencing s then
              (let s = s\<lparr>ar_references := ar_references s @ [position]\<rparr> in content (2 * length (ar_references s) + 1) 0 sz s)
            else content 0 0 sz s)
         else case writeReference t (2 * (sz + 1) + 1) s of
                (True, s) \<Rightarrow> AmfDone True s
              | (False, s) \<Rightarrow>
                  if sz \<ge> length (ar_references s) then AmfDone False s
                  else let back = ar_position s; (n, s') = ar_read7 (ar_reset (ar_references s ! sz) s)
                       in content (2 * (sz + 1) + 1) back (unat (drop_bit 1 n)) (s'\<lparr>ar_referencing := False\<rparr>))"

text \<open>
  The mixed array of AMF0: its numbered elements are skipped first (read for a target that is null), then the
  properties are written, then the elements, with a null for each index that lacks.
\<close>

fun mixed_scan :: "nat \<Rightarrow> (amf_reader \<Rightarrow> amf_result) \<Rightarrow> nat \<Rightarrow> nat \<Rightarrow> nat \<Rightarrow> amf_reader \<Rightarrow> amf_result \<times> nat \<times> nat" where
  "mixed_scan 0 skip i sz position s = (AmfFuel, sz, position)"
| "mixed_scan (Suc n) skip i sz position s =
     (if i \<ge> sz then (AmfDone True s, sz, position)
      else
        case readText s of
          (Some text, _, s') \<Rightarrow>
            (case ToNumber32 text of
               None \<Rightarrow> (AmfDone True (ar_reset (ar_position s) s'), i, position)
             | Some k \<Rightarrow>
                 (case skip s' of
                    AmfDone _ s'' \<Rightarrow>
                      if unat (k + 1) = sz then (AmfDone True s'', i + 1, position)
                      else if ar_available s'' = 0 then (AmfDone True s'', i + 1, position)
                      else mixed_scan n skip (i + 1) sz position s''
                  | r \<Rightarrow> (r, sz, position)))
        | (None, _, s') \<Rightarrow>
            let position = (if i = 0 then ar_position s' else position)
            in if ar_available s' = 0 then (AmfDone True s', i, position) else mixed_scan n skip i sz position s')"

fun mixed_elements :: "(amf_reader \<Rightarrow> amf_result) \<Rightarrow> nat \<Rightarrow> nat \<Rightarrow> amf_reader \<Rightarrow> amf_result" where
  "mixed_elements readNext i 0 s = AmfDone True s"
| "mixed_elements readNext i (Suc n) s =
     (case readText s of
        (Some text, l, s) \<Rightarrow>
          let k = (case ToNumber32 text of Some k \<Rightarrow> unat k | None \<Rightarrow> l)
          in amf_bind (value_or_null readNext (s\<lparr>ar_events := ar_events s @ replicate (k - i) EvNull\<rparr>))
               (\<lambda>_. mixed_elements readNext (max i k + 1) n)
      | (None, _, s) \<Rightarrow> mixed_elements readNext i n (ar_emit EvNull s))"

definition writeMixed :: "nat \<Rightarrow> data_target \<Rightarrow> (data_target \<Rightarrow> amf_reader \<Rightarrow> amf_result) \<Rightarrow> nat \<Rightarrow> nat \<Rightarrow> amf_reader \<Rightarrow> amf_result" where
  "writeMixed fuel t readNext ref sz s =
     (let referencing = ar_referencing s; events = ar_events s;
          (r, sz, position) = mixed_scan fuel (readNext null_target) 0 sz (ar_position s) (s\<lparr>ar_referencing := False\<rparr>)
      in amf_bind r (\<lambda>_ s.
           let s = ar_repeatable t ref 2 (EvBeginObjectArray (word_of_nat sz)) (s\<lparr>ar_referencing := referencing, ar_events := events\<rparr>)
           in amf_bind (read_properties fuel (readNext t) s) (\<lambda>_ s.
                let (_, s) = ar_read br_read8 s; s = ar_end ref EvEndObject s; back = ar_position s
                in amf_bind (mixed_elements (readNext t) 0 sz (ar_reset position s)) (\<lambda>_ s.
                     AmfDone True ((ar_reset back (ar_end ref EvEndArray s))\<lparr>ar_referencing := referencing\<rparr>)))))"

definition writeArray0 :: "nat \<Rightarrow> data_target \<Rightarrow> (data_target \<Rightarrow> amf_reader \<Rightarrow> amf_result) \<Rightarrow> amf_reader \<Rightarrow> amf_result" where
  "writeArray0 fuel t readNext s =
     (let (type, s) = ar_read br_read8 s;
          s = (if ar_referencing s then s\<lparr>ar_amf0References := ar_amf0References s @ [ar_position s]\<rparr> else s);
          ref = (if ar_referencing s then 2 * length (ar_amf0References s) else 0);
          (n, s) = ar_read br_read32 s
      in if type = 8 then writeMixed fuel t readNext ref (unat n) s
         else amf_bind (read_elements (readNext t) (unat n) (ar_repeatable t ref 1 (EvBeginArray n) s))
                (\<lambda>_ s. AmfDone True (ar_end ref EvEndArray s)))"

definition writeObject0 :: "nat \<Rightarrow> data_target \<Rightarrow> (amf_reader \<Rightarrow> amf_result) \<Rightarrow> amf_reader \<Rightarrow> amf_result" where
  "writeObject0 fuel t readNext s =
     (let (type, s) = ar_read br_read8 s;
          s = (if ar_referencing s then s\<lparr>ar_amf0References := ar_amf0References s @ [ar_position s]\<rparr> else s);
          ref = (if ar_referencing s then 2 * length (ar_amf0References s) else 0);
          content = (\<lambda>s. amf_bind (read_properties fuel readNext s) (\<lambda>_ s.
                      let (_, s) = ar_read br_read8 s in AmfDone True (ar_end ref EvEndObject s)))
      in if type = 0x10 then
           (case readText s of
              (None, _, s) \<Rightarrow> AmfCrash
            | (Some text, _, s) \<Rightarrow> content (ar_repeatable t ref 1 (EvBeginObject (Some (cstr text))) s))
         else content (ar_repeatable t ref 1 (EvBeginObject None) s))"

text \<open>The names of a class definition, and their values; the wait of a name does not end behind the packet.\<close>

function scan_names :: "nat \<Rightarrow> nat \<Rightarrow> nat \<Rightarrow> amf_reader \<Rightarrow> nat \<times> nat \<times> amf_reader" where
  "scan_names i flags pos s =
     (if i < flags then
        (case readText s of
           (None, _, s) \<Rightarrow> scan_names (i + 1) (flags - 1) (if i = 0 then ar_position s else pos) s
         | (Some _, _, s) \<Rightarrow> scan_names (i + 1) flags pos s)
      else (flags, pos, s))"
  by pat_completeness auto
termination
  by (relation "measure (\<lambda>(i, flags, pos, s). flags - i)") auto

declare scan_names.simps [simp del]

fun next_name :: "nat \<Rightarrow> amf_reader \<Rightarrow> (bytes \<times> amf_reader) option" where
  "next_name 0 s = None"
| "next_name (Suc n) s = (case readText s of (Some text, _, s) \<Rightarrow> Some (text, s) | (None, _, s) \<Rightarrow> next_name n s)"

fun read_class_values :: "nat \<Rightarrow> (amf_reader \<Rightarrow> amf_result) \<Rightarrow> nat \<Rightarrow> nat \<Rightarrow> amf_reader \<Rightarrow> amf_result" where
  "read_class_values fuel readNext 0 pos s = AmfDone True s"
| "read_class_values fuel readNext (Suc n) pos s =
     (let values = ar_position s
      in case next_name fuel (ar_reset pos s) of
           None \<Rightarrow> AmfFuel
         | Some (text, s) \<Rightarrow>
             let pos = ar_position s
             in amf_bind (value_or_null readNext (ar_reset values (ar_emit (EvName (cstr text)) s)))
                  (\<lambda>_. read_class_values fuel readNext n pos))"

definition writeClass3 :: "nat \<Rightarrow> data_target \<Rightarrow> (amf_reader \<Rightarrow> amf_result) \<Rightarrow> bool \<Rightarrow> nat \<Rightarrow> nat \<Rightarrow> nat \<Rightarrow> nat \<Rightarrow> amf_reader \<Rightarrow> amf_result" where
  "writeClass3 fuel t readNext referencing ref resetObject pos flags s =
     (let ending = (\<lambda>s. (if resetObject = 0 then s else ar_reset resetObject s)\<lparr>ar_referencing := referencing\<rparr>);
          (text, l, flags, back, s) =
            (if odd flags then (let (text, l, s) = readText (s\<lparr>ar_classDefs := ar_classDefs s @ [pos]\<rparr>) in (text, l, flags div 2, 0, s))
             else if flags div 2 < length (ar_classDefs s) then
               (let back = ar_position s; (n, s) = ar_read7 (ar_reset (ar_classDefs s ! (flags div 2)) s); (text, l, s) = readText s
                in (text, l, unat (drop_bit 2 n), back, s\<lparr>ar_referencing := False\<rparr>))
             else (None, 0, flags div 2, 0, s))
      in if odd flags then
           amf_bind (readNext (if back = 0 then s else ar_reset back s)) (\<lambda>ok s. AmfDone ok (ending s))
         else if l \<noteq> 0 \<and> text = None then AmfCrash
         else
           let s = ar_repeatable t ref 1 (EvBeginObject (if l = 0 then None else map_option cstr text)) s;
               dynamic = odd (flags div 2);
               (flags, pos, s) = scan_names 0 (flags div 4) (ar_position s) s;
               s = (if back = 0 then s
                    else let s = ar_reset back s in if resetObject = 0 then s\<lparr>ar_referencing := referencing\<rparr> else s)
           in amf_bind (read_class_values fuel readNext flags pos s) (\<lambda>_ s.
                amf_bind (if dynamic then read_properties fuel readNext s else AmfDone True s) (\<lambda>_ s.
                  AmfDone True (ending (ar_end ref EvEndObject s)))))"

definition writeObject3 :: "nat \<Rightarrow> data_target \<Rightarrow> (amf_reader \<Rightarrow> amf_result) \<Rightarrow> amf_reader \<Rightarrow> amf_result" where
  "writeObject3 fuel t readNext s =
     (let s = ar_next 1 s; (n, s) = ar_read7 s; pos = ar_position s; flags = unat (drop_bit 1 n); referencing = ar_referencing s
      in if bit n 0 then
           (if referencing then
              (let s = s\<lparr>ar_references := ar_references s @ [pos]\<rparr>
               in writeClass3 fuel t readNext referencing (2 * length (ar_references s) + 1) 0 pos flags s)
            else writeClass3 fuel t readNext referencing 0 0 pos flags s)
         else case writeReference t (2 * (flags + 1) + 1) s of
                (True, s) \<Rightarrow> AmfDone True s
              | (False, s) \<Rightarrow>
                  if flags \<ge> length (ar_references s) then AmfDone False s
                  else let resetObject = ar_position s; (n, s') = ar_read7 (ar_reset (ar_references s ! flags) s)
                       in writeClass3 fuel t readNext referencing (2 * (flags + 1) + 1) resetObject pos (unat (drop_bit 1 n))
                            (s'\<lparr>ar_referencing := False\<rparr>))"

definition writeReference0 :: "data_target \<Rightarrow> (amf_reader \<Rightarrow> amf_result) \<Rightarrow> amf_reader \<Rightarrow> amf_result" where
  "writeReference0 t readNext s =
     (let (n, s) = ar_read br_read16 (ar_next 1 s); reference = unat n
      in if reference \<ge> length (ar_amf0References s) then AmfDone False s
         else case writeReference t (2 * (reference + 1)) s of
                (True, s) \<Rightarrow> AmfDone True s
              | (False, s) \<Rightarrow>
                  let back = ar_position s; referencing = ar_referencing s
                  in amf_bind (readNext ((ar_reset (ar_amf0References s ! reference) s)\<lparr>ar_referencing := False\<rparr>))
                       (\<lambda>ok s. AmfDone ok (ar_reset back (s\<lparr>ar_referencing := referencing\<rparr>))))"

section \<open>The reader\<close>

definition writeOne :: "nat \<Rightarrow> data_target \<Rightarrow> (data_target \<Rightarrow> amf_reader \<Rightarrow> amf_result) \<Rightarrow> amf_type \<Rightarrow> amf_reader \<Rightarrow> amf_result" where
  "writeOne fuel t readNext type s =
     (case type of
        TyReference \<Rightarrow> writeReference0 t (readNext t) s
      | TyString \<Rightarrow> writeString s
      | TyBoolean \<Rightarrow> writeBoolean s
      | TyNumber \<Rightarrow> writeNumber s
      | TyNil \<Rightarrow> AmfDone True (ar_emit EvNull (ar_next 1 s))
      | TyByte \<Rightarrow> writeByte t s
      | TyDate \<Rightarrow> writeDate t s
      | TyMap \<Rightarrow> writeMap t (readNext t) s
      | TyArray \<Rightarrow> if ar_amf3 s = 0 then writeArray0 fuel t readNext s else writeArray3 fuel t (readNext t) s
      | _ \<Rightarrow> if ar_amf3 s = 0 then writeObject0 fuel t (readNext t) s else writeObject3 fuel t (readNext t) s)"

definition readOne :: "nat \<Rightarrow> data_target \<Rightarrow> (data_target \<Rightarrow> amf_reader \<Rightarrow> amf_result) \<Rightarrow> amf_type \<Rightarrow> amf_reader \<Rightarrow> amf_result" where
  "readOne fuel t readNext type s =
     (if ar_amf3 s = 1
      then amf_bind (writeOne fuel t readNext type (s\<lparr>ar_amf3 := 2\<rparr>)) (\<lambda>ok s. AmfDone ok (s\<lparr>ar_amf3 := 0\<rparr>))
      else writeOne fuel t readNext type s)"

fun readNext :: "nat \<Rightarrow> data_target \<Rightarrow> amf_reader \<Rightarrow> amf_result" where
  "readNext 0 t s = AmfFuel"
| "readNext (Suc n) t s =
     (case followingType s of
        (TyEnd, s) \<Rightarrow> AmfDone False s
      | (type, s) \<Rightarrow> readOne n t (readNext n) type s)"

text \<open>\<open>read(writer)\<close>: all that the packet has, and how many values.  The references are forgotten at the end.\<close>

fun read_all :: "nat \<Rightarrow> data_target \<Rightarrow> nat \<Rightarrow> amf_reader \<Rightarrow> (nat \<times> amf_result)" where
  "read_all 0 t results s = (results, AmfFuel)"
| "read_all (Suc n) t results s =
     (case readNext n t s of
        AmfDone True s \<Rightarrow> read_all n t (results + 1) s
      | AmfDone False s \<Rightarrow> (results, AmfDone False (s\<lparr>ar_repeatables := []\<rparr>))
      | r \<Rightarrow> (results, r))"

end
