(* ===== verification/AMFPlace.thy ===== *)
theory AMFPlace
  imports AMFRead "HOL-Library.Sublist"
begin

text \<open>
  The reader of \<open>AMFRead\<close> at a place of its packet: what each read returns where the bytes of a writer stand, the
  texts with their references included, and the doubles that are integers.
\<close>

section \<open>Doubles of integers\<close>

lemma log2_eq: "2 ^ k \<le> q \<Longrightarrow> q < 2 ^ (k + 1) \<Longrightarrow> log2 q = k"
proof (induction k arbitrary: q)
  case (Suc k)
  have "(1 :: nat) \<le> 2 ^ k" by simp
  moreover have "2 * 2 ^ k \<le> q" using Suc.prems by simp
  ultimately have "2 \<le> q" by linarith
  moreover have "log2 (q div 2) = k" using Suc.prems by (intro Suc.IH) auto
  ultimately show ?case by (subst log2.simps) simp
qed (simp add: log2.simps)

lemma double_of_int:
  assumes "double_int d = Some i" "i \<ge> 0" "d \<noteq> 0x8000000000000000"
  shows "double_of (nat i) = d" "i < 2 ^ 28"
proof -
  define n where "n = unat d"
  define e where "e = n div 2 ^ 52 mod 2 ^ 11"
  define m where "m = n mod 2 ^ 52"
  have n: "n < 2 ^ 64" using unsigned_less[of d] by (simp add: n_def)
  have split: "n = n div 2 ^ 63 * 2 ^ 63 + e * 2 ^ 52 + m"
  proof -
    have "n = n div 2 ^ 52 * 2 ^ 52 + m" by (simp add: m_def)
    moreover have "n div 2 ^ 52 = n div 2 ^ 52 div 2 ^ 11 * 2 ^ 11 + e" by (simp add: e_def)
    moreover have "n div 2 ^ 52 div 2 ^ 11 = n div 2 ^ 63" by (simp add: div_mult2_eq [symmetric])
    ultimately show ?thesis by simp
  qed
  have low: "e < 2 ^ 11" "m < 2 ^ 52" by (simp_all add: e_def m_def)
  have def: "double_int d = (if e = 0 \<and> m = 0 then Some 0 else if e < 1023 \<or> e > 1050 then None
      else let x = 2 ^ 52 + m; s = 2 ^ (1075 - e)
           in if x mod s = 0 then Some (if n \<ge> 2 ^ 63 then - int (x div s) else int (x div s)) else None)"
    by (simp only: double_int_def Let_def n_def e_def m_def)
  show "double_of (nat i) = d" "i < 2 ^ 28"
  proof (atomize (full), cases "e = 0 \<and> m = 0")
    case True
    then have "n = n div 2 ^ 63 * 2 ^ 63" using split by simp
    moreover have "n div 2 ^ 63 < 2" using n by (simp add: less_mult_imp_div_less)
    ultimately have "n = 0 \<or> n = 2 ^ 63" by (cases "n div 2 ^ 63 = 0") auto
    moreover have "d = word_of_nat n" by (simp add: n_def)
    ultimately have "d = 0 \<or> d = word_of_nat (2 ^ 63)" by auto
    then have "d = 0" using assms(3) by simp
    then show "double_of (nat i) = d \<and> i < 2 ^ 28" using def True assms(1) by (simp add: double_of_def)
  next
    case False
    define x where "x = 2 ^ 52 + m"
    define s where "s = (2 :: nat) ^ (1075 - e)"
    have e: "1023 \<le> e" "e \<le> 1050" using def False assms(1) by (auto split: if_splits)
    have xs: "x mod s = 0" "i = (if n \<ge> 2 ^ 63 then - int (x div s) else int (x div s))"
      using def False assms(1) e by (auto simp: Let_def x_def s_def split: if_splits)
    have s: "s dvd 2 ^ 52" unfolding s_def using e by (intro le_imp_power_dvd) simp
    define k where "k = e - 1023"
    have k: "k \<le> 27" "1075 - e = 52 - k" "e = 1023 + k" using e by (auto simp: k_def)
    have x: "2 ^ 52 \<le> x" "x < 2 ^ 53" using low by (auto simp: x_def)
    have xq: "x = x div s * s" using xs(1) by auto
    have pow: "2 ^ 52 = 2 ^ k * s" "2 ^ 53 = 2 ^ (k + 1) * s" unfolding s_def k(2) using k(1) by (simp_all flip: power_add)
    have q: "2 ^ k \<le> x div s" "x div s < 2 ^ (k + 1)"
    proof -
      have "s > 0" by (simp add: s_def)
      then show "2 ^ k \<le> x div s" using x(1) pow(1) by (simp add: less_eq_div_iff_mult_less_eq)
      show "x div s < 2 ^ (k + 1)" using x(2) unfolding pow(2) by (rule less_mult_imp_div_less)
    qed
    have small: "x div s < 2 ^ 28"
    proof -
      have "(2 :: nat) ^ (k + 1) \<le> 2 ^ 28" using k(1) by (intro power_increasing) auto
      then show ?thesis using q(2) by linarith
    qed
    have pos: "x div s > 0" using q(1) by (metis less_le_trans zero_less_numeral zero_less_power)
    have sign: "n < 2 ^ 63" "i = int (x div s)" using xs(2) assms(2) pos by (auto split: if_splits)
    have "log2 (x div s) = k" by (rule log2_eq [OF q])
    then have "double_of (nat i) = word_of_nat (e * 2 ^ 52 + (x div s * s - 2 ^ 52))"
      using pos by (simp add: sign double_of_def Let_def k(3) s_def)
    also have "x div s * s - 2 ^ 52 = m" using xq by (simp add: x_def)
    also have "e * 2 ^ 52 + m = n" using split sign(1) by simp
    also have "word_of_nat n = d" by (simp add: n_def)
    finally have "double_of (nat i) = d" .
    then show "double_of (nat i) = d \<and> i < 2 ^ 28" using small sign(2) by simp
  qed
qed


section \<open>The reader at a place of the packet\<close>

text \<open>The packet \<open>D\<close> is read at \<open>k\<close>; \<open>here\<close> is what stands there.\<close>

definition goto :: "bytes \<Rightarrow> nat \<Rightarrow> amf_reader \<Rightarrow> amf_reader" where
  "goto D k s = s\<lparr>ar_reader := br_adv k (net_reader D)\<rparr>"

definition here :: "bytes \<Rightarrow> nat \<Rightarrow> bytes \<Rightarrow> bool" where
  "here D k xs \<longleftrightarrow> k + length xs \<le> length D \<and> take (length xs) (drop k D) = xs"

lemma here_append: "here D k (xs @ ys) \<longleftrightarrow> here D k xs \<and> here D (k + length xs) ys"
  by (auto simp: here_def take_add add_ac append_eq_append_conv)

lemma here_Cons: "here D k (x # xs) \<longleftrightarrow> here D k [x] \<and> here D (Suc k) xs"
  using here_append [of D k "[x]" xs] by simp

lemma here_length: "here D k xs \<Longrightarrow> k + length xs \<le> length D"
  by (simp add: here_def)

lemma here_take: "here D k xs \<Longrightarrow> take (length xs) (drop k D) = xs"
  by (simp add: here_def)

lemma here_prefix: "prefix (xs @ ys) D \<Longrightarrow> here D (length xs) ys"
  by (auto simp: here_def prefix_def)

lemma goto_fields [simp]:
  "ar_reader (goto D k s) = br_adv k (net_reader D)" "ar_strings (goto D k s) = ar_strings s" "ar_amf3 (goto D k s) = ar_amf3 s"
  "ar_referencing (goto D k s) = ar_referencing s" "ar_events (goto D k s) = ar_events s" "ar_references (goto D k s) = ar_references s"
  "ar_amf0References (goto D k s) = ar_amf0References s" "ar_repeatables (goto D k s) = ar_repeatables s" "ar_classDefs (goto D k s) = ar_classDefs s"
  "goto D k (goto D l s) = goto D k s"
  by (simp_all add: goto_def)

lemma goto_updates [simp]:
  "(goto D k s)\<lparr>ar_strings := x\<rparr> = goto D k (s\<lparr>ar_strings := x\<rparr>)" "(goto D k s)\<lparr>ar_amf3 := n\<rparr> = goto D k (s\<lparr>ar_amf3 := n\<rparr>)"
  "(goto D k s)\<lparr>ar_references := x\<rparr> = goto D k (s\<lparr>ar_references := x\<rparr>)" "(goto D k s)\<lparr>ar_referencing := b\<rparr> = goto D k (s\<lparr>ar_referencing := b\<rparr>)"
  "(goto D k s)\<lparr>ar_amf0References := x\<rparr> = goto D k (s\<lparr>ar_amf0References := x\<rparr>)"
  "(goto D k s)\<lparr>ar_repeatables := y\<rparr> = goto D k (s\<lparr>ar_repeatables := y\<rparr>)" "(goto D k s)\<lparr>ar_classDefs := x\<rparr> = goto D k (s\<lparr>ar_classDefs := x\<rparr>)"
  "(goto D k s)\<lparr>ar_reader := br_adv l (net_reader D)\<rparr> = goto D l s"
  by (simp_all add: goto_def)

lemma goto_emit [simp]: "ar_emit e (goto D k s) = goto D k (ar_emit e s)"
  "ar_repeatable t ref level e (goto D k s) = goto D k (ar_repeatable t ref level e s)"
  "ar_end ref e (goto D k s) = goto D k (ar_end ref e s)"
  by (simp_all add: ar_emit_def ar_repeatable_def ar_end_def goto_def Let_def split: option.split)

lemma goto_moves:
  "k \<le> length D \<Longrightarrow> ar_position (goto D k s) = k" "ar_available (goto D k s) = length D - k"
  "k + n \<le> length D \<Longrightarrow> ar_next n (goto D k s) = goto D (k + n) s"
  "l \<le> length D \<Longrightarrow> ar_reset l (goto D k s) = goto D l s"
  "ar_current n (goto D k s) = take n (drop k D)"
  by (simp_all add: ar_position_def ar_available_def ar_next_def ar_reset_def ar_current_def goto_def br_next_pos br_reset_def
      br_position_def br_adv_def net_reader_def mk_reader_def br_next_def br_available_def)

lemma ar_read8_here: "here D k [b] \<Longrightarrow> ar_read br_read8 (goto D k s) = (b, goto D (k + 1) s)"
proof -
  assume h: "here D k [b]"
  then have k: "k < length D" by (simp add: here_def)
  then have "drop k D = D ! k # drop (Suc k) D" by (simp add: Cons_nth_drop_Suc)
  then have "D ! k = b" using h by (simp add: here_def)
  then show ?thesis using k by (simp add: ar_read_def br_read8_pos)
qed

lemma ar_read16_here: "here D k (net16 v) \<Longrightarrow> ar_read br_read16 (goto D k s) = (v, goto D (k + 2) s)"
  using here_take [of D k "net16 v"] here_length [of D k "net16 v"]
  by (simp add: ar_read_def br_reads_pos net_be be_be_bytes take_bit_word_eq_self)

lemma ar_read32_here: "here D k (net32 v) \<Longrightarrow> ar_read br_read32 (goto D k s) = (v, goto D (k + 4) s)"
  using here_take [of D k "net32 v"] here_length [of D k "net32 v"]
  by (simp add: ar_read_def br_reads_pos net_be be_be_bytes take_bit_word_eq_self)

lemma ar_read64_here: "here D k (net64 v) \<Longrightarrow> ar_read br_read64 (goto D k s) = (v, goto D (k + 8) s)"
  using here_take [of D k "net64 v"] here_length [of D k "net64 v"]
  by (simp add: ar_read_def br_reads_pos net_be be_be_bytes take_bit_word_eq_self)

lemma drop29: "unat (v :: u32) < 2 ^ 29 \<Longrightarrow> drop_bit 29 v = 0"
proof -
  assume "unat v < 2 ^ 29"
  then have "unat (drop_bit 29 v) = 0" by (simp add: unat_drop_bit)
  then show ?thesis by (simp add: unat_eq_zero)
qed

lemma ar_read7_here:
  assumes "here D k (enc7Bit 4 v)" "unat (v :: u32) < 2 ^ 29"
  shows "ar_read7 (goto D k s) = (v, goto D (k + length (enc7Bit 4 v)) s)"
proof -
  have rest: "br_rest (br_adv k (net_reader D)) = enc7Bit 4 v @ drop (length (enc7Bit 4 v)) (drop k D)" "k \<le> length D"
    using here_take [OF assms(1)] append_take_drop_id [of "length (enc7Bit 4 v)" "drop k D"] here_length [OF assms(1)] by simp_all
  have "br_read7Bit 4 (br_adv k (net_reader D)) = (v, br_adv (length (enc7Bit 4 v)) (br_adv k (net_reader D)))"
    by (rule rd7_enc7_fits [OF _ _ _ _ _ rest(1)]) (use drop29 [OF assms(2)] rest(2) in simp_all)
  then show ?thesis by (simp add: ar_read7_def ar_read_def)
qed


section \<open>Texts\<close>

lemma flag_words: "word_of_nat (2 * n + 1) = 2 * word_of_nat n + (1 :: u32)" "word_of_nat (2 * n) = (2 * word_of_nat n :: u32)"
  by simp_all

lemma flag_unat:
  assumes "n < 2 ^ 28"
  shows "unat (word_of_nat (2 * n + 1) :: u32) = 2 * n + 1" "unat (word_of_nat (2 * n) :: u32) = 2 * n"
  using assms by (simp_all only: unat_of_nat) simp_all

lemma flag_bit: "bit (word_of_nat (2 * n + 1) :: u32) 0" "\<not> bit (word_of_nat (2 * n) :: u32) 0"
  unfolding flag_words by (simp_all add: bit_0)

lemma flag_drop:
  assumes "n < 2 ^ 28"
  shows "unat (drop_bit 1 (word_of_nat (2 * n + 1) :: u32)) = n" "unat (drop_bit 1 (word_of_nat (2 * n) :: u32)) = n"
  unfolding unat_drop_bit flag_unat [OF assms] by (simp_all add: drop_bit_eq_div)

lemma shift_flag: "push_bit 1 (word_of_nat n) OR 1 = (word_of_nat (2 * n + 1) :: u32)"
proof -
  have "even (2 * word_of_nat n :: u32)" by (rule dvd_triv_left)
  then have "2 * word_of_nat n OR 1 = 2 * word_of_nat n + (1 :: u32)" by (simp add: or_one_eq)
  moreover have "push_bit 1 (word_of_nat n) = (2 * word_of_nat n :: u32)" by (simp add: push_bit_eq_mult mult.commute)
  ultimately show ?thesis unfolding flag_words by metis
qed

lemma ar_read7_nat:
  assumes "here D k (aw_7bit (2 * n + 1))" "n < 2 ^ 28"
  shows "ar_read7 (goto D k s) = (word_of_nat (2 * n + 1), goto D (k + length (aw_7bit (2 * n + 1))) s)"
  using ar_read7_here [OF assms(1) [unfolded aw_7bit_def]] flag_unat(1) [OF assms(2)] assms(2) by (simp add: aw_7bit_def)

lemma ar_read7_even:
  assumes "here D k (aw_7bit (2 * n))" "n < 2 ^ 28"
  shows "ar_read7 (goto D k s) = (word_of_nat (2 * n), goto D (k + length (aw_7bit (2 * n))) s)"
  using ar_read7_here [OF assms(1) [unfolded aw_7bit_def]] flag_unat(2) [OF assms(2)] assms(2) by (simp add: aw_7bit_def)

definition text_at :: "bytes \<Rightarrow> nat \<Rightarrow> bytes \<Rightarrow> bool" where
  "text_at D p v \<longleftrightarrow> here D p (aw_7bit (2 * length v + 1) @ v) \<and> p \<noteq> 0"

lemma index_of_Some: "index_of x xs = Some i \<Longrightarrow> i < length xs \<and> xs ! i = x"
  by (induction xs arbitrary: i) (auto split: if_splits)

lemma aw_append_simps [simp]:
  "aw_out (aw_append xs w) = aw_out w @ xs" "aw_amf0 (aw_append xs w) = aw_amf0 w" "aw_amf3 (aw_append xs w) = aw_amf3 w"
  "aw_levels (aw_append xs w) = aw_levels w" "aw_strings (aw_append xs w) = aw_strings w"
  by (simp_all add: aw_append_def)

lemma aw_text_simps [simp]:
  "aw_amf0 (aw_text v w) = aw_amf0 w" "aw_amf3 (aw_text v w) = aw_amf3 w" "aw_levels (aw_text v w) = aw_levels w"
  by (simp_all add: aw_text_def split: option.split)

text \<open>What the two sides share: the format, and the texts at the places the reader has noted.\<close>

definition rel :: "bytes \<Rightarrow> amf_writer \<Rightarrow> amf_reader \<Rightarrow> bool" where
  "rel D w s \<longleftrightarrow> ar_amf3 s = (if aw_amf3 w then 2 else 0) \<and> ar_referencing s
     \<and> list_all2 (text_at D) (ar_strings s) (aw_strings w) \<and> length (aw_strings w) \<le> length (aw_out w)"

lemma readText3:
  assumes "ar_amf3 s \<noteq> 0" "list_all2 (text_at D) (ar_strings s) (aw_strings w)" "length (aw_strings w) \<le> length (aw_out w)"
    "prefix (aw_out (aw_text v w)) D" "aw_out w \<noteq> []" "length D < 2 ^ 28"
  shows "\<exists>xs. readText (goto D (length (aw_out w)) s) = (Some v, length v, goto D (length (aw_out (aw_text v w))) (s\<lparr>ar_strings := xs\<rparr>))
    \<and> list_all2 (text_at D) xs (aw_strings (aw_text v w)) \<and> length (aw_strings (aw_text v w)) \<le> length (aw_out (aw_text v w))"
proof (cases "v = []")
  case True
  then have "here D (length (aw_out w)) (aw_7bit (2 * 0 + 1))" using assms(4) here_prefix by (simp add: aw_text_def)
  moreover from this have "length (aw_out w) + length (aw_7bit (2 * 0 + 1)) \<le> length D" by (rule here_length)
  ultimately show ?thesis using assms True ar_read7_nat [of D "length (aw_out w)" 0 s] flag_bit [of 0] flag_drop [of 0]
    by (intro exI [of _ "ar_strings s"]) (simp add: readText_def goto_moves Let_def aw_text_def)
next
  case False
  show ?thesis
  proof (cases "index_of v (aw_strings w)")
    case (Some i)
    have i: "i < length (aw_strings w)" "aw_strings w ! i = v" using index_of_Some [OF Some] by simp_all
    have out: "here D (length (aw_out w)) (aw_7bit (2 * i))" using assms(4) here_prefix Some False by (simp add: aw_text_def)
    note len = here_length [OF out]
    have small: "i < 2 ^ 28" using i(1) assms(3,6) len by linarith
    have stored: "text_at D (ar_strings s ! i) v" "i < length (ar_strings s)"
      using assms(2) i by (auto simp: list_all2_conv_all_nth)
    then have stored': "here D (ar_strings s ! i) (aw_7bit (2 * length v + 1))"
      "here D (ar_strings s ! i + length (aw_7bit (2 * length v + 1))) v" by (auto simp: text_at_def here_append)
    have v: "length v < 2 ^ 28" using here_length [OF stored'(2)] assms(6) by linarith
    have nonzero: "length (aw_out w) + length (aw_7bit (2 * i)) \<noteq> 0" using assms(5) by simp
    show ?thesis
      using assms Some False i stored(2) len here_length [OF stored'(1)] here_length [OF stored'(2)] here_take [OF stored'(2)] nonzero
        ar_read7_even [OF out small, of s] ar_read7_nat [OF stored'(1) v, of s] flag_bit flag_drop [OF small] flag_drop [OF v]
      by (intro exI [of _ "ar_strings s"]) (simp add: readText_def goto_moves Let_def aw_text_def)
  next
    case None
    have out: "here D (length (aw_out w)) (aw_7bit (2 * length v + 1))"
      "here D (length (aw_out w) + length (aw_7bit (2 * length v + 1))) v"
      using assms(4) None False here_prefix [of "aw_out w" "aw_7bit (2 * length v + 1) @ v" D] by (auto simp: aw_text_def here_append)
    note len = here_length [OF out(1)] here_length [OF out(2)]
    have v: "length v < 2 ^ 28" using len assms(6) by linarith
    have pos: "length (aw_out w) \<noteq> 0" using assms(5) by simp
    have "text_at D (length (aw_out w)) v" using out pos by (simp add: text_at_def here_append)
    then have "list_all2 (text_at D) (ar_strings s @ [length (aw_out w)]) (aw_strings w @ [v])"
      using assms(2) by (simp add: list_all2_appendI)
      moreover have "0 < length v" using False by simp
    then have "Suc (length (aw_strings w)) \<le> length (aw_out w) + (length (aw_7bit (2 * length v + 1)) + length v)"
      using assms(3) by linarith
    moreover have "\<not> length D - (length (aw_out w) + length (aw_7bit (2 * length v + 1))) < length v" using len by linarith
    ultimately show ?thesis
      using assms None False len here_take [OF out(2)] pos ar_read7_nat [OF out(1) v, of s] flag_bit flag_drop [OF v]
      by (intro exI [of _ "ar_strings s @ [length (aw_out w)]"]) (simp add: readText_def goto_moves Let_def aw_text_def add.assoc)
  qed
qed

lemma readText0:
  assumes "ar_amf3 s = 0" "here D k (net16 (word_of_nat (length v)) @ v)" "length v < 65536"
  shows "readText (goto D k s) = (Some v, length v, goto D (k + 2 + length v) s)"
proof -
  have h: "here D k (net16 (word_of_nat (length v)))" "here D (k + 2) v" using assms(2) by (auto simp: here_append)
  have "unat (word_of_nat (length v) :: u16) = length v" using assms(3) by (simp add: unat_of_nat)
  then show ?thesis using assms(1) ar_read16_here [OF h(1), of s] here_length [OF h(2)] here_take [OF h(2)]
    by (simp add: readText_def goto_moves Let_def)
qed

end
