(* ===== verification/AMFTrip.thy ===== *)
theory AMFTrip
  imports AMFPlace
begin

text \<open>
  What an \<open>AMFWriter\<close> writes an \<open>AMFReader\<close> gives back: values as a tree, the calls that write one, and the proof by
  induction on the tree that the reader makes the same calls; then inputs that the reader does not bound.
\<close>

section \<open>Values\<close>

datatype amf_value =
    VNull
  | VBoolean bool
  | VNumber u64
  | VString bytes
  | VDate u64
  | VByte bytes
  | VObject "bytes option" "(bytes \<times> amf_value) list"
  | VArray "amf_value list"
  | VMixed "(bytes \<times> amf_value) list" "amf_value list"
  | VMap bool "(amf_value \<times> amf_value) list"

fun value_events :: "amf_value \<Rightarrow> data_event list" where
  "value_events VNull = [EvNull]"
| "value_events (VBoolean b) = [EvBoolean b]"
| "value_events (VNumber d) = [EvNumber d]"
| "value_events (VString s) = [EvString s]"
| "value_events (VDate d) = [EvDate d]"
| "value_events (VByte data) = [EvByte data]"
| "value_events (VObject type ps) =
     EvBeginObject type # concat (map (\<lambda>(n, v). EvName n # value_events v) ps) @ [EvEndObject]"
| "value_events (VArray vs) = EvBeginArray (word_of_nat (length vs)) # concat (map value_events vs) @ [EvEndArray]"
| "value_events (VMixed ps vs) =
     EvBeginObjectArray (word_of_nat (length vs)) # concat (map (\<lambda>(n, v). EvName n # value_events v) ps)
       @ [EvEndObject] @ concat (map value_events vs) @ [EvEndArray]"
| "value_events (VMap weak kvs) =
     EvBeginMap (word_of_nat (length kvs)) weak # concat (map (\<lambda>(k, v). value_events k @ value_events v) kvs) @ [EvEndMap]"

text \<open>The names of a C string, which the formats can hold.\<close>

definition name_ok :: "bytes \<Rightarrow> bool" where
  "name_ok n \<longleftrightarrow> n \<noteq> [] \<and> 0 \<notin> set n \<and> length n < 65536"

text \<open>The numbers: without AMF0 no integer below 0 and no negative zero.\<close>

definition number_ok :: "bool \<Rightarrow> u64 \<Rightarrow> bool" where
  "number_ok amf0 d \<longleftrightarrow> amf0 \<or> (case double_int d of None \<Rightarrow> True | Some i \<Rightarrow> i \<ge> 0 \<and> d \<noteq> 0x8000000000000000)"

fun value_ok :: "bool \<Rightarrow> amf_value \<Rightarrow> bool" where
  "value_ok amf0 (VNumber d) = number_ok amf0 d"
| "value_ok amf0 (VObject type ps) =
     ((case type of None \<Rightarrow> True | Some n \<Rightarrow> name_ok n) \<and> list_all (\<lambda>(n, v). name_ok n \<and> value_ok amf0 v) ps)"
| "value_ok amf0 (VArray vs) = list_all (value_ok amf0) vs"
| "value_ok amf0 (VMixed ps vs) =
     (ps \<noteq> [] \<and> list_all (\<lambda>(n, v). name_ok n \<and> value_ok amf0 v) ps \<and> list_all (value_ok amf0) vs)"
| "value_ok amf0 (VMap weak kvs) = list_all (\<lambda>(k, v). value_ok amf0 k \<and> value_ok amf0 v) kvs"
| "value_ok amf0 _ = True"

section \<open>What a value does to the writer\<close>

lemma aw_events_simps [simp]:
  "aw_events [] w = w" "aw_events (e # es) w = aw_events es (aw_event e w)"
  "aw_events (es @ fs) w = aw_events fs (aw_events es w)"
  by (simp_all add: aw_events_def)

lemma aw_reference_simps [simp]:
  "aw_out (fst (aw_reference x w)) = aw_out w" "aw_amf0 (fst (aw_reference x w)) = aw_amf0 w" "aw_amf3 (fst (aw_reference x w)) = aw_amf3 w"
  "aw_levels (fst (aw_reference x w)) = aw_levels w" "aw_strings (fst (aw_reference x w)) = aw_strings w"
  by (simp_all add: aw_reference_def)

lemma aw_begin_simps [simp]:
  "aw_out (aw_begin3 w) = aw_out w @ aw_marker3 w" "aw_amf0 (aw_begin3 w) = aw_amf0 w" "aw_amf3 (aw_begin3 w)"
  "aw_levels (aw_begin3 w) = aw_amf3 w # aw_levels w" "aw_strings (aw_begin3 w) = aw_strings w"
  "aw_out (fst (aw_begin0 w)) = aw_out w" "aw_amf0 (fst (aw_begin0 w)) = aw_amf0 w" "aw_amf3 (fst (aw_begin0 w)) = aw_amf3 w"
  "aw_levels (fst (aw_begin0 w)) = False # aw_levels w" "aw_strings (fst (aw_begin0 w)) = aw_strings w"
  by (simp_all add: aw_begin3_def aw_begin0_def)

lemmas aw_writes = aw_writeNull_def aw_writeBoolean_def aw_writeNumber_def aw_writeString_def aw_writeDate_def aw_writeByte_def
  aw_writePropertyName_def aw_beginObject_def aw_beginArray_def aw_beginObjectArray_def aw_beginMap_def aw_endComplex_def Let_def

lemma aw_event_keeps [simp]: "aw_amf0 (aw_event e w) = aw_amf0 w"
  by (cases e) (auto simp: aw_writes aw_repeat_def split: option.split list.split)

lemma aw_events_keeps [simp]: "aw_amf0 (aw_events es w) = aw_amf0 w"
  by (induction es arbitrary: w) simp_all

lemma aw_event_grows: "prefix (aw_out w) (aw_out (aw_event e w))"
  by (cases e) (auto simp: aw_writes aw_repeat_def aw_text_def split: option.split list.split)

lemma aw_events_grow: "prefix (aw_out w) (aw_out (aw_events es w))"
proof (induction es arbitrary: w)
  case (Cons e es)
  show ?case using prefix_order.trans [OF aw_event_grows Cons.IH] by simp
qed simp

definition level :: "amf_writer \<Rightarrow> bool list" where
  "level w = aw_amf3 w # aw_levels w"

lemma levels_all:
  "(\<forall>v \<in> set vs. \<forall>w. level (aw_events (value_events v) w) = level w) \<Longrightarrow> level (aw_events (concat (map value_events vs)) w) = level w"
  by (induction vs arbitrary: w) simp_all

lemma level_name [simp]: "level (aw_writePropertyName n w) = level w"
  by (simp add: level_def aw_writePropertyName_def)

lemma levels_properties:
  "(\<forall>(n, v) \<in> set ps. \<forall>w. level (aw_events (value_events v) w) = level w) \<Longrightarrow>
     level (aw_events (concat (map (\<lambda>(n, v). EvName n # value_events v) ps)) w) = level w"
  by (induction ps arbitrary: w) (simp_all add: split_beta)

lemma levels_pairs:
  "(\<forall>(k, v) \<in> set ps. (\<forall>w. level (aw_events (value_events k) w) = level w) \<and> (\<forall>w. level (aw_events (value_events v) w) = level w)) \<Longrightarrow>
     level (aw_events (concat (map (\<lambda>(k, v). value_events k @ value_events v) ps)) w) = level w"
  by (induction ps arbitrary: w) (simp_all add: split_beta)

lemma level_end: "tl (level u) = level w \<Longrightarrow> level (aw_endComplex b u) = level w"
  by (auto simp: level_def aw_endComplex_def)

lemma level_begin:
  "tl (level (fst (aw_beginObject type w))) = level w" "tl (level (fst (aw_beginArray sz w))) = level w"
  "tl (tl (level (fst (aw_beginObjectArray sz w)))) = level w" "hd (tl (level (fst (aw_beginObjectArray sz w))))"
  "tl (level (fst (aw_beginMap sz weak w))) = level w"
  by (auto simp: level_def aw_writes split: option.split)

lemma value_level: "level (aw_events (value_events v) w) = level w"
proof (induction v arbitrary: w)
  case (VObject type ps)
  have "level (aw_events (concat (map (\<lambda>(n, v). EvName n # value_events v) ps)) u) = level u" for u
    using VObject by (intro levels_properties) force
  then show ?case by (simp add: level_end level_begin)
next
  case (VArray vs)
  have "level (aw_events (concat (map value_events vs)) u) = level u" for u using VArray by (intro levels_all) blast
  then show ?case by (simp add: level_end level_begin)
next
  case (VMixed ps vs)
  define u where "u = fst (aw_beginObjectArray (word_of_nat (length vs)) w)"
  have "level (aw_events (concat (map (\<lambda>(n, v). EvName n # value_events v) ps)) u) = level u" for u
    using VMixed by (intro levels_properties) force
  moreover have "level (aw_events (concat (map value_events vs)) u) = level u" for u using VMixed by (intro levels_all) blast
  moreover have "level (aw_endComplex b x) = tl (level u)" if "level x = level u" for b x
    using that by (auto simp: level_def aw_endComplex_def u_def aw_writes)
  ultimately have "tl (level (aw_events (concat (map value_events vs))
      (aw_endComplex True (aw_events (concat (map (\<lambda>(n, v). EvName n # value_events v) ps)) u)))) = level w"
    by (simp add: u_def level_begin)
  then show ?case by (simp add: level_end u_def)
next
  case (VMap weak kvs)
  have "level (aw_events (concat (map (\<lambda>(k, v). value_events k @ value_events v) kvs)) u) = level u" for u
    using VMap by (intro levels_pairs) force
  then show ?case by (simp add: level_end level_begin)
qed (simp_all add: level_def aw_writes split: option.split)

section \<open>The reading of a value\<close>

definition lands :: "bytes \<Rightarrow> amf_writer \<Rightarrow> nat \<Rightarrow> amf_reader \<Rightarrow> data_event list \<Rightarrow> amf_result \<Rightarrow> bool" where
  "lands D w k s es r \<longleftrightarrow> (\<exists>s'. r = AmfDone True (goto D k s') \<and> rel D w s' \<and> ar_events s' = ar_events s @ es)"

lemma landsI: "rel D w s' \<Longrightarrow> ar_events s' = ar_events s @ es \<Longrightarrow> l = k \<Longrightarrow> lands D w k s es (AmfDone True (goto D l s'))"
  by (auto simp: lands_def)

lemma amf_bind_done [simp]: "amf_bind (AmfDone b s) f = f b s" "amf_bind AmfCrash f = AmfCrash" "amf_bind AmfFuel f = AmfFuel"
  by (simp_all add: amf_bind_def)

lemma lands_bind:
  assumes "lands D w k s es r"
    "\<And>s'. rel D w s' \<Longrightarrow> ar_events s' = ar_events s @ es \<Longrightarrow> lands D w' k' s' fs (f True (goto D k s'))"
  shows "lands D w' k' s (es @ fs) (amf_bind r f)"
proof -
  obtain s1 where s1: "r = AmfDone True (goto D k s1)" "rel D w s1" "ar_events s1 = ar_events s @ es"
    using assms(1) by (auto simp: lands_def)
  obtain s2 where "f True (goto D k s1) = AmfDone True (goto D k' s2)" "rel D w' s2" "ar_events s2 = ar_events s1 @ fs"
    using assms(2) [OF s1(2,3)] by (auto simp: lands_def)
  then show ?thesis using s1 by (auto simp: lands_def)
qed

lemma rel_same:
  assumes "rel D w s" "aw_amf3 w' = aw_amf3 w" "aw_strings w' = aw_strings w" "length (aw_out w) \<le> length (aw_out w')"
    "ar_amf3 s' = ar_amf3 s" "ar_referencing s' = ar_referencing s" "ar_strings s' = ar_strings s"
  shows "rel D w' s'"
  using assms by (auto simp: rel_def)

lemma ar_emit_simps [simp]:
  "ar_amf3 (ar_emit e s) = ar_amf3 s" "ar_referencing (ar_emit e s) = ar_referencing s" "ar_strings (ar_emit e s) = ar_strings s"
  "ar_events (ar_emit e s) = ar_events s @ [e]" "ar_references (ar_emit e s) = ar_references s"
  by (simp_all add: ar_emit_def)

lemma ar_repeatable_simps [simp]:
  "ar_amf3 (ar_repeatable t ref l e s) = ar_amf3 s" "ar_referencing (ar_repeatable t ref l e s) = ar_referencing s"
  "ar_strings (ar_repeatable t ref l e s) = ar_strings s" "ar_events (ar_repeatable t ref l e s) = ar_events s @ [e]"
  by (simp_all add: ar_repeatable_def Let_def)

lemma ar_end_simps [simp]:
  "ar_amf3 (ar_end ref e s) = ar_amf3 s" "ar_referencing (ar_end ref e s) = ar_referencing s"
  "ar_strings (ar_end ref e s) = ar_strings s" "ar_events (ar_end ref e s) = ar_events s @ [e]"
  by (simp_all add: ar_end_def Let_def split: option.split)

text \<open>The byte that stands at a place.\<close>

lemma here_byte: "here D k [c] \<Longrightarrow> k < length D \<and> take 1 (drop k D) = [c]"
  by (auto simp: here_def)

definition type3 :: "u8 \<Rightarrow> amf_type" where
  "type3 c =
     (if c = 0 \<or> c = 1 then TyNil else if c = 2 \<or> c = 3 then TyBoolean else if c = 4 \<or> c = 5 then TyNumber else if c = 6 then TyString
      else if c = 8 then TyDate else if c = 0x0C then TyByte else if c = 9 then TyArray else if c = 0x11 then TyMap
      else if c = 0x0A then TyObject else TyEnd)"

definition type0 :: "u8 \<Rightarrow> amf_type" where
  "type0 c =
     (if c = 6 \<or> c = 5 then TyNil else if c = 1 then TyBoolean else if c = 0 then TyNumber else if c = 0x0C \<or> c = 2 then TyString
      else if c = 8 \<or> c = 0x0A then TyArray else if c = 0x0B then TyDate else if c = 3 \<or> c = 0x10 then TyObject
      else if c = 7 then TyReference else TyEnd)"

lemma type3_here: "here D k [c] \<Longrightarrow> type3 c \<noteq> TyEnd \<Longrightarrow> followingType3 (goto D k s) = (type3 c, goto D k s)"
  using here_byte [of D k c] by (simp add: followingType3_def goto_moves type3_def split: if_splits) auto

definition leave :: "amf_writer \<Rightarrow> bool \<Rightarrow> amf_reader \<Rightarrow> amf_result" where
  "leave w ok s = AmfDone ok (if aw_amf3 w then s else s\<lparr>ar_amf3 := 0\<rparr>)"

lemma amf_bind_assoc: "amf_bind (amf_bind m f) g = amf_bind m (\<lambda>b s. amf_bind (f b s) g)"
  by (cases m) simp_all

lemma amf_bind_same: "amf_bind m (\<lambda>ok s. AmfDone ok s) = m"
  by (cases m) simp_all

text \<open>A value of AMF3: behind its marker in AMF0.\<close>

lemma next3:
  assumes "rel D w s" "here D (length (aw_out w)) (aw_marker3 w @ [c])" "type3 c \<noteq> TyEnd"
  shows "readNext (Suc n) t (goto D (length (aw_out w)) s) =
    amf_bind (writeOne n t (readNext n) (type3 c) (goto D (length (aw_out w) + length (aw_marker3 w)) (s\<lparr>ar_amf3 := 2\<rparr>))) (leave w)"
proof (cases "aw_amf3 w")
  case True
  then have h: "here D (length (aw_out w)) [c]" and s: "s\<lparr>ar_amf3 := 2\<rparr> = s" "ar_amf3 s = 2"
    using assms(1,2) by (auto simp: aw_marker3_def rel_def)
  have "leave w = (\<lambda>ok s. AmfDone ok s)" using True by (simp add: leave_def fun_eq_iff)
  then show ?thesis using True assms(3) here_byte [OF h] type3_here [OF h assms(3), of s] s(2)
    by (simp add: s(1) followingType_def goto_moves readOne_def aw_marker3_def amf_bind_same split: amf_type.split)
next
  case False
  then have h: "here D (length (aw_out w)) [0x11]" "here D (length (aw_out w) + 1) [c]" and s: "ar_amf3 s = 0"
    using assms(1,2) here_append [of D "length (aw_out w)" "[0x11]" "[c]"] by (auto simp: aw_marker3_def rel_def)
  have "followingType (goto D (length (aw_out w)) s) = followingType3 (goto D (length (aw_out w) + 1) (s\<lparr>ar_amf3 := 1\<rparr>))"
    using here_byte [OF h(1)] s by (simp add: followingType_def goto_moves)
  moreover have "leave w = (\<lambda>ok s. AmfDone ok (s\<lparr>ar_amf3 := 0\<rparr>))" using False by (simp add: leave_def fun_eq_iff)
  ultimately show ?thesis using False assms(3) type3_here [OF h(2) assms(3), of "s\<lparr>ar_amf3 := 1\<rparr>"]
    by (simp add: readOne_def aw_marker3_def split: amf_type.split)
qed

lemma next0:
  assumes "rel D w s" "\<not> aw_amf3 w" "here D (length (aw_out w)) [c]" "type0 c \<noteq> TyEnd"
  shows "readNext (Suc n) t (goto D (length (aw_out w)) s) = writeOne n t (readNext n) (type0 c) (goto D (length (aw_out w)) s)"
proof -
  have "ar_amf3 s = 0" using assms(1,2) by (simp add: rel_def)
  moreover have "c \<noteq> 0x11" using assms(4) by (auto simp: type0_def)
  ultimately have "followingType (goto D (length (aw_out w)) s) = (type0 c, goto D (length (aw_out w)) s)"
    using here_byte [OF assms(3)] assms(4) by (simp add: followingType_def goto_moves type0_def split: if_splits) auto
  then show ?thesis using assms(4) \<open>ar_amf3 s = 0\<close> by (simp add: readOne_def split: amf_type.split)
qed

lemma rel_enter: "rel D w s \<Longrightarrow> rel D (w\<lparr>aw_amf3 := True\<rparr>) (s\<lparr>ar_amf3 := 2\<rparr>)"
  by (simp add: rel_def)

lemma lands_leave:
  assumes "lands D (w'\<lparr>aw_amf3 := True\<rparr>) k (s\<lparr>ar_amf3 := 2\<rparr>) es r" "aw_amf3 w' = aw_amf3 w"
  shows "lands D w' k s es (amf_bind r (leave w))"
proof -
  obtain s1 where s1: "r = AmfDone True (goto D k s1)" "rel D (w'\<lparr>aw_amf3 := True\<rparr>) s1" "ar_events s1 = ar_events s @ es"
    using assms(1) by (auto simp: lands_def)
  have "rel D w' (if aw_amf3 w then s1 else s1\<lparr>ar_amf3 := 0\<rparr>)" using s1(2) assms(2) by (auto simp: rel_def)
  then show ?thesis using s1 by (auto simp: lands_def leave_def)
qed

lemma string3_lands:
  assumes "rel D w s" "prefix (aw_out w') D" "length D < 2 ^ 28" "w' = aw_text v (aw_append (aw_marker3 w @ [6]) w)"
  shows "lands D (w'\<lparr>aw_amf3 := True\<rparr>) (length (aw_out w')) (s\<lparr>ar_amf3 := 2\<rparr>) [EvString v]
    (writeString (goto D (length (aw_out w) + length (aw_marker3 w)) (s\<lparr>ar_amf3 := 2\<rparr>)))"
proof -
  define u where "u = aw_append (aw_marker3 w @ [6]) w"
  define s2 where "s2 = s\<lparr>ar_amf3 := 2\<rparr>"
  have w': "w' = aw_text v u" by (simp add: assms(4) u_def)
  have "prefix (aw_out u) (aw_out w')" by (auto simp: w' aw_text_def split: option.split)
  then have "prefix (aw_out u) D" using assms(2) by (rule prefix_order.trans)
  then have h: "here D (length (aw_out w) + length (aw_marker3 w)) [6]"
    using here_prefix [of "aw_out w @ aw_marker3 w" "[6]" D] by (simp add: u_def)
  have len: "length (aw_out u) = length (aw_out w) + length (aw_marker3 w) + 1" by (simp add: u_def)
  have texts: "ar_amf3 s2 \<noteq> 0" "list_all2 (text_at D) (ar_strings s2) (aw_strings u)" "length (aw_strings u) \<le> length (aw_out u)"
    using assms(1) by (auto simp: s2_def u_def rel_def)
  have "aw_out u \<noteq> []" by (simp add: u_def)
  from readText3 [OF texts assms(2) [unfolded w'] this assms(3)] obtain xs where xs:
    "readText (goto D (length (aw_out u)) s2) = (Some v, length v, goto D (length (aw_out w')) (s2\<lparr>ar_strings := xs\<rparr>))"
    "list_all2 (text_at D) xs (aw_strings w')" "length (aw_strings w') \<le> length (aw_out w')" unfolding w' by blast
  have "writeString (goto D (length (aw_out w) + length (aw_marker3 w)) s2)
      = AmfDone True (goto D (length (aw_out w')) (ar_emit (EvString v) (s2\<lparr>ar_strings := xs\<rparr>)))"
    using ar_read8_here [OF h, of s2] xs(1) by (simp add: writeString_def len)
  moreover have "rel D (w'\<lparr>aw_amf3 := True\<rparr>) (ar_emit (EvString v) (s2\<lparr>ar_strings := xs\<rparr>))"
    using assms(1) xs(2,3) by (auto simp: rel_def s2_def)
  ultimately show ?thesis by (auto simp: lands_def s2_def)
qed

lemma int_lands:
  assumes "rel D w s" "prefix (aw_out w') D" "double_int d = Some i" "number_ok False d"
    "w' = aw_append (aw_marker3 w @ [4] @ enc7Bit 4 (word_of_int i :: u32)) w"
  shows "lands D (w'\<lparr>aw_amf3 := True\<rparr>) (length (aw_out w')) (s\<lparr>ar_amf3 := 2\<rparr>) [EvNumber d]
    (writeNumber (goto D (length (aw_out w) + length (aw_marker3 w)) (s\<lparr>ar_amf3 := 2\<rparr>)))"
proof -
  have i: "i \<ge> 0" "d \<noteq> 0x8000000000000000" using assms(3,4) by (auto simp: number_ok_def)
  note d = double_of_int [OF assms(3) i]
  have n: "word_of_int i = (word_of_nat (nat i) :: u32)" using i(1) by (metis int_nat_eq of_int_of_nat_eq)
  have u: "unat (word_of_int i :: u32) = nat i" using d(2) unfolding n unat_of_nat by simp
  then have small: "\<not> (word_of_int i :: u32) > 0xFFFFFFF" using d(2) by (simp add: word_less_nat_alt)
  define p where "p = length (aw_out w) + length (aw_marker3 w)"
  have h: "here D p [4]" "here D (p + 1) (enc7Bit 4 (word_of_int i :: u32))"
    using here_prefix [of "aw_out w @ aw_marker3 w" "[4] @ enc7Bit 4 (word_of_int i :: u32)" D] assms(2,5)
    by (auto simp: here_append p_def simp del: append_Cons)
  have end': "length (aw_out w') = p + 1 + length (enc7Bit 4 (word_of_int i :: u32))" by (simp add: assms(5) p_def)
  have "ar_read7 (goto D (p + 1) (s\<lparr>ar_amf3 := 2\<rparr>)) = (word_of_int i, goto D (length (aw_out w')) (s\<lparr>ar_amf3 := 2\<rparr>))"
    unfolding end' by (rule ar_read7_here [OF h(2)]) (use u d(2) in simp)
  then have "writeNumber (goto D p (s\<lparr>ar_amf3 := 2\<rparr>)) = AmfDone True (goto D (length (aw_out w')) (ar_emit (EvNumber d) (s\<lparr>ar_amf3 := 2\<rparr>)))"
    using ar_read8_here [OF h(1), of "s\<lparr>ar_amf3 := 2\<rparr>"] small u d(1) by (simp add: writeNumber_def)
  moreover have "rel D (w'\<lparr>aw_amf3 := True\<rparr>) (ar_emit (EvNumber d) (s\<lparr>ar_amf3 := 2\<rparr>))"
    using assms(1,5) by (auto simp: rel_def)
  ultimately show ?thesis by (auto simp: lands_def p_def)
qed

lemma byte_lands:
  assumes "rel D w s" "prefix (aw_out w') D" "length D < 2 ^ 28" "aw_strings w' = aw_strings w"
    "aw_out w' = aw_out w @ aw_marker3 w @ [0x0C] @ aw_7bit (2 * length v + 1) @ v"
  shows "lands D (w'\<lparr>aw_amf3 := True\<rparr>) (length (aw_out w')) (s\<lparr>ar_amf3 := 2\<rparr>) [EvByte v]
    (writeByte t (goto D (length (aw_out w) + length (aw_marker3 w)) (s\<lparr>ar_amf3 := 2\<rparr>)))"
proof -
  define p where "p = length (aw_out w) + length (aw_marker3 w)"
  define s2 where "s2 = s\<lparr>ar_amf3 := 2\<rparr>"
  define b where "b = aw_7bit (2 * length v + 1)"
  have h: "here D p [0x0C]" "here D (p + 1) b" "here D (p + 1 + length b) v"
    using here_prefix [of "aw_out w @ aw_marker3 w" "[0x0C] @ b @ v" D] assms(2,5)
    by (auto simp: here_append p_def b_def simp del: append_Cons)
  have end': "length (aw_out w') = p + 1 + length b + length v" by (simp add: assms(5) p_def b_def)
  note len = here_length [OF h(1)] here_length [OF h(2)] here_length [OF h(3)]
  have v: "length v < 2 ^ 28" using len assms(3) by linarith
  have "ar_read7 (goto D (p + 1) s2) = (word_of_nat (2 * length v + 1), goto D (p + 1 + length b) s2)"
    unfolding b_def by (rule ar_read7_nat [OF h(2) [unfolded b_def] v])
  then have "writeByte t (goto D p s2) = AmfDone True (goto D (length (aw_out w'))
      (ar_repeatable t (2 * length (ar_references s2 @ [p + 1]) + 1) 0 (EvByte v) (s2\<lparr>ar_references := ar_references s2 @ [p + 1]\<rparr>)))"
    using len assms(1) flag_bit [of "length v"] flag_drop [OF v] here_take [OF h(3)]
    by (simp add: writeByte_def goto_moves Let_def end' rel_def s2_def)
  moreover have "rel D (w'\<lparr>aw_amf3 := True\<rparr>)
      (ar_repeatable t (2 * length (ar_references s2 @ [p + 1]) + 1) 0 (EvByte v) (s2\<lparr>ar_references := ar_references s2 @ [p + 1]\<rparr>))"
    using assms(1,4,5) by (auto simp: rel_def s2_def)
  ultimately show ?thesis by (auto simp: lands_def p_def s2_def)
qed

lemma date_lands:
  assumes "rel D w s" "prefix (aw_out w') D" "length D < 2 ^ 28" "aw_strings w' = aw_strings w"
    "aw_out w' = aw_out w @ aw_marker3 w @ [8, 1] @ net64 d"
  shows "lands D (w'\<lparr>aw_amf3 := True\<rparr>) (length (aw_out w')) (s\<lparr>ar_amf3 := 2\<rparr>) [EvDate d]
    (writeDate t (goto D (length (aw_out w) + length (aw_marker3 w)) (s\<lparr>ar_amf3 := 2\<rparr>)))"
proof -
  define p where "p = length (aw_out w) + length (aw_marker3 w)"
  define s2 where "s2 = s\<lparr>ar_amf3 := 2\<rparr>"
  have one: "aw_7bit (2 * 0 + 1) = [1]" by code_simp
  have "prefix ((aw_out w @ aw_marker3 w) @ [8] @ [1] @ net64 d) D" using assms(2,5) by simp
  then have h: "here D p [8]" "here D (p + 1) [1]" "here D (p + 2) (net64 d)"
    using here_prefix [of "aw_out w @ aw_marker3 w" "[8] @ [1] @ net64 d" D]
    by (auto simp: here_append p_def simp del: append_Cons append_assoc)
  have end': "length (aw_out w') = p + 2 + 8" by (simp add: assms(5) p_def)
  note len = here_length [OF h(1)] here_length [OF h(2)] here_length [OF h(3)]
  have "ar_read7 (goto D (p + 1) s2) = (word_of_nat (2 * 0 + 1), goto D (p + 2) s2)"
    using ar_read7_nat [of D "p + 1" 0 s2] h(2) unfolding one by simp
  moreover define s3 where "s3 = s2\<lparr>ar_references := ar_references s2 @ [p + 1]\<rparr>"
  ultimately have "writeDate t (goto D p s2) = AmfDone True (goto D (length (aw_out w'))
      (ar_repeatable t (2 * length (ar_references s3) + 1) 0 (EvDate d) s3))"
    using len assms(1) flag_bit [of 0] ar_read64_here [OF h(3), of s3]
    by (simp add: writeDate_def goto_moves Let_def end' rel_def s2_def)
  moreover have "rel D (w'\<lparr>aw_amf3 := True\<rparr>) (ar_repeatable t (2 * length (ar_references s3) + 1) 0 (EvDate d) s3)"
    using assms(1,4,5) by (auto simp: rel_def s2_def s3_def)
  ultimately show ?thesis by (auto simp: lands_def p_def s2_def s3_def)
qed

definition amf_reads :: "bytes \<Rightarrow> data_target \<Rightarrow> amf_value \<Rightarrow> bool" where
  "amf_reads D t v \<longleftrightarrow> (\<forall>w s n. rel D w s \<longrightarrow> value_ok (aw_amf0 w) v \<longrightarrow> prefix (aw_out (aw_events (value_events v) w)) D \<longrightarrow>
     length (aw_out (aw_events (value_events v) w)) \<le> length (aw_out w) + n \<longrightarrow>
     lands D (aw_events (value_events v) w) (length (aw_out (aw_events (value_events v) w))) s (value_events v)
       (readNext n t (goto D (length (aw_out w)) s)))"

lemma prefix_drop: "prefix (xs @ ys) D \<Longrightarrow> prefix xs D"
  by (rule append_prefixD)

text \<open>A leaf in AMF3, and one in AMF0.\<close>

lemma leaf3:
  assumes "rel D w s" "prefix (aw_out w') D" "length (aw_out w') \<le> length (aw_out w) + n" "prefix (aw_out w @ aw_marker3 w @ [c]) (aw_out w')"
    "type3 c \<noteq> TyEnd" "aw_amf3 w' = aw_amf3 w"
    "\<And>m. lands D (w'\<lparr>aw_amf3 := True\<rparr>) (length (aw_out w')) (s\<lparr>ar_amf3 := 2\<rparr>) es
       (writeOne m t (readNext m) (type3 c) (goto D (length (aw_out w) + length (aw_marker3 w)) (s\<lparr>ar_amf3 := 2\<rparr>)))"
  shows "lands D w' (length (aw_out w')) s es (readNext n t (goto D (length (aw_out w)) s))"
proof -
  have "length (aw_out w) < length (aw_out w')" using assms(4) prefix_length_le by fastforce
  then obtain m where n: "n = Suc m" using assms(3) by (cases n) auto
  have "here D (length (aw_out w)) (aw_marker3 w @ [c])" using prefix_order.trans [OF assms(4,2)] by (rule here_prefix)
  from next3 [OF assms(1) this assms(5)] show ?thesis unfolding n using lands_leave [OF assms(7,6)] by simp
qed

lemma leaf0:
  assumes "rel D w s" "prefix (aw_out w') D" "length (aw_out w') \<le> length (aw_out w) + n" "prefix (aw_out w @ [c]) (aw_out w')"
    "type0 c \<noteq> TyEnd" "\<not> aw_amf3 w"
    "\<And>m. lands D w' (length (aw_out w')) s es (writeOne m t (readNext m) (type0 c) (goto D (length (aw_out w)) s))"
  shows "lands D w' (length (aw_out w')) s es (readNext n t (goto D (length (aw_out w)) s))"
proof -
  have "length (aw_out w) < length (aw_out w')" using assms(4) prefix_length_le by fastforce
  then obtain m where n: "n = Suc m" using assms(3) by (cases n) auto
  have "here D (length (aw_out w)) [c]" using prefix_order.trans [OF assms(4,2)] by (rule here_prefix)
  then show ?thesis unfolding n using next0 [OF assms(1,6) _ assms(5)] assms(7) by simp
qed

lemma null_reads: "amf_reads D t VNull"
  unfolding amf_reads_def
proof (intro allI impI)
  fix w s n
  assume a: "rel D w s" "prefix (aw_out (aw_events (value_events VNull) w)) D"
    "length (aw_out (aw_events (value_events VNull) w)) \<le> length (aw_out w) + n"
  define w' where "w' = aw_events (value_events VNull) w"
  show "lands D (aw_events (value_events VNull) w) (length (aw_out (aw_events (value_events VNull) w))) s (value_events VNull)
       (readNext n t (goto D (length (aw_out w)) s))"
  proof (cases "aw_amf3 w")
    case True
    then have h: "here D (length (aw_out w)) [1]" using a(2) here_prefix by (simp add: aw_writes)
    show ?thesis using a True here_length [OF h]
      by (intro leaf3 [where c = 1]) (auto simp: aw_writes aw_marker3_def type3_def writeOne_def goto_moves rel_def intro!: landsI)
  next
    case False
    then have h: "here D (length (aw_out w)) [5]" using a(2) here_prefix by (simp add: aw_writes)
    show ?thesis using a False here_length [OF h]
      by (intro leaf0 [where c = 5]) (auto simp: aw_writes type0_def writeOne_def goto_moves rel_def intro!: landsI)
  qed
qed

lemma boolean_reads: "amf_reads D t (VBoolean b)"
  unfolding amf_reads_def
proof (intro allI impI)
  fix w s n
  assume a: "rel D w s" "prefix (aw_out (aw_events (value_events (VBoolean b)) w)) D"
    "length (aw_out (aw_events (value_events (VBoolean b)) w)) \<le> length (aw_out w) + n"
  show "lands D (aw_events (value_events (VBoolean b)) w) (length (aw_out (aw_events (value_events (VBoolean b)) w))) s (value_events (VBoolean b))
       (readNext n t (goto D (length (aw_out w)) s))"
  proof (cases "aw_amf3 w")
    case True
    then have h: "here D (length (aw_out w)) [if b then 3 else 2]" using a(2) here_prefix by (simp add: aw_writes)
    show ?thesis using a True ar_read8_here [OF h, of "s\<lparr>ar_amf3 := 2\<rparr>"]
      by (intro leaf3 [where c = "if b then 3 else 2"])
        (auto simp: aw_writes aw_marker3_def type3_def writeOne_def writeBoolean_def rel_def intro!: landsI)
  next
    case False
    then have "here D (length (aw_out w)) ([1] @ [if b then 1 else 0])" using a(2) here_prefix by (simp add: aw_writes)
    then have h: "here D (length (aw_out w)) [1]" "here D (length (aw_out w) + 1) [if b then 1 else 0]"
      by (auto simp: here_append simp del: append_Cons)
    show ?thesis using a False ar_read8_here [OF h(1), of s] ar_read8_here [OF h(2), of s]
      by (intro leaf0 [where c = 1]) (auto simp: aw_writes type0_def writeOne_def writeBoolean_def rel_def intro!: landsI)
  qed
qed

lemma number_reads: "amf_reads D t (VNumber d)"
  unfolding amf_reads_def
proof (intro allI impI)
  fix w s n
  define w' where "w' = aw_writeNumber d w"
  assume "rel D w s" "value_ok (aw_amf0 w) (VNumber d)" "prefix (aw_out (aw_events (value_events (VNumber d)) w)) D"
    "length (aw_out (aw_events (value_events (VNumber d)) w)) \<le> length (aw_out w) + n"
  then have a: "rel D w s" "number_ok (aw_amf0 w) d" "prefix (aw_out w') D" "length (aw_out w') \<le> length (aw_out w) + n"
    by (simp_all add: w'_def)
  have "lands D w' (length (aw_out w')) s [EvNumber d] (readNext n t (goto D (length (aw_out w)) s))"
  proof (cases "if aw_amf0 w then None else double_int d")
    case (Some i)
    then have "double_int d = Some i" "number_ok False d" using a(2) by (auto simp: number_ok_def split: if_splits)
    moreover have w': "w' = aw_append (aw_marker3 w @ [4] @ enc7Bit 4 (word_of_int i :: u32)) w"
      using Some calculation by (auto simp: w'_def aw_writeNumber_def number_ok_def)
    ultimately show ?thesis using a int_lands [OF a(1,3)]
      by (intro leaf3 [where c = 4]) (simp_all add: w' type3_def writeOne_def)
  next
    case None
    then have w': "w' = aw_append ([if aw_amf3 w then 5 else 0] @ net64 d) w" by (simp add: w'_def aw_writeNumber_def)
    then have "here D (length (aw_out w)) ([if aw_amf3 w then 5 else 0] @ net64 d)" using a(3) here_prefix by simp
    then have h: "here D (length (aw_out w)) [if aw_amf3 w then 5 else 0]" "here D (length (aw_out w) + 1) (net64 d)"
      by (auto simp: here_append simp del: append_Cons)
    show ?thesis
    proof (cases "aw_amf3 w")
      case True
      then show ?thesis using a(1,3,4) ar_read8_here [OF h(1), of "s\<lparr>ar_amf3 := 2\<rparr>"] ar_read64_here [OF h(2), of "s\<lparr>ar_amf3 := 2\<rparr>"]
        by (intro leaf3 [where c = 5]) (auto simp: w' aw_marker3_def type3_def writeOne_def writeNumber_def rel_def add.commute [of "9 :: nat"] intro!: landsI)
    next
      case False
      then show ?thesis using a(1,3,4) ar_read8_here [OF h(1), of s] ar_read64_here [OF h(2), of s]
        by (intro leaf0 [where c = 0]) (auto simp: w' type0_def writeOne_def writeNumber_def rel_def add.commute [of "9 :: nat"] intro!: landsI)
    qed
  qed
  then show "lands D (aw_events (value_events (VNumber d)) w) (length (aw_out (aw_events (value_events (VNumber d)) w))) s
      (value_events (VNumber d)) (readNext n t (goto D (length (aw_out w)) s))" by (simp add: w'_def)
qed

lemma string_reads: "length D < 2 ^ 28 \<Longrightarrow> amf_reads D t (VString v)"
  unfolding amf_reads_def
proof (intro allI impI)
  fix w s n
  define w' where "w' = aw_writeString v w"
  assume D: "length D < 2 ^ 28"
  assume "rel D w s" "prefix (aw_out (aw_events (value_events (VString v)) w)) D"
    "length (aw_out (aw_events (value_events (VString v)) w)) \<le> length (aw_out w) + n"
  then have a: "rel D w s" "prefix (aw_out w') D" "length (aw_out w') \<le> length (aw_out w) + n"
    by (simp_all add: w'_def)
  have "lands D w' (length (aw_out w')) s [EvString v] (readNext n t (goto D (length (aw_out w)) s))"
  proof (cases "\<not> aw_amf3 w \<and> aw_amf0 w")
    case False
    then have w': "w' = aw_text v (aw_append (aw_marker3 w @ [6]) w)" by (auto simp: w'_def aw_writeString_def)
    then have "prefix (aw_out w @ aw_marker3 w @ [6]) (aw_out w')" by (auto simp: aw_text_def split: option.split)
    moreover have "aw_amf3 w' = aw_amf3 w" by (simp add: w')
    ultimately show ?thesis using a string3_lands [OF a(1,2) D w']
      by (intro leaf3 [where c = 6]) (simp_all add: type3_def writeOne_def)
  next
    case True
    then have s: "ar_amf3 s = 0" using a(1) by (simp add: rel_def)
    show ?thesis
    proof (cases "length v > 65535")
      case False
      then have w': "w' = aw_append ([2] @ net16 (word_of_nat (length v)) @ v) w" using True by (simp add: w'_def aw_writeString_def)
      then have "here D (length (aw_out w)) ([2] @ net16 (word_of_nat (length v)) @ v)" using a(2) here_prefix by simp
      then have h: "here D (length (aw_out w)) [2]" "here D (length (aw_out w) + 1) (net16 (word_of_nat (length v)) @ v)"
        by (auto simp: here_append simp del: append_Cons)
      show ?thesis using a True False s ar_read8_here [OF h(1), of s] readText0 [OF s h(2)]
        by (intro leaf0 [where c = 2]) (auto simp: w' type0_def writeOne_def writeString_def rel_def intro!: landsI)
    next
      case long: True
      then have w': "w' = aw_append ([0x0C] @ net32 (word_of_nat (length v)) @ v) w" using True by (simp add: w'_def aw_writeString_def)
      then have "here D (length (aw_out w)) ([0x0C] @ net32 (word_of_nat (length v)) @ v)" using a(2) here_prefix by simp
      then have h: "here D (length (aw_out w)) [0x0C]" "here D (length (aw_out w) + 1) (net32 (word_of_nat (length v)))"
        "here D (length (aw_out w) + 5) v"
        by (auto simp: here_append add.commute [of "5 :: nat"] simp del: append_Cons)
      note len = here_length [OF h(3)]
      then have "unat (word_of_nat (length v) :: u32) = length v" using D by (simp add: unat_of_nat)
      then show ?thesis using a True s ar_read8_here [OF h(1), of s] ar_read32_here [OF h(2), of s] len here_take [OF h(3)]
        by (intro leaf0 [where c = "0x0C"]) (auto simp: w' type0_def writeOne_def writeString_def rel_def goto_moves add.commute [of "5 :: nat"] intro!: landsI)
    qed
  qed
  then show "lands D (aw_events (value_events (VString v)) w) (length (aw_out (aw_events (value_events (VString v)) w))) s
      (value_events (VString v)) (readNext n t (goto D (length (aw_out w)) s))" by (simp add: w'_def)
qed

lemma bytes_reads: "length D < 2 ^ 28 \<Longrightarrow> amf_reads D t (VByte v)"
  unfolding amf_reads_def
proof (intro allI impI)
  fix w s n
  define w' where "w' = fst (aw_writeByte v w)"
  assume D: "length D < 2 ^ 28"
  assume "rel D w s" "prefix (aw_out (aw_events (value_events (VByte v)) w)) D"
    "length (aw_out (aw_events (value_events (VByte v)) w)) \<le> length (aw_out w) + n"
  then have a: "rel D w s" "prefix (aw_out w') D" "length (aw_out w') \<le> length (aw_out w) + n"
    by (simp_all add: w'_def)
  have w': "aw_out w' = aw_out w @ aw_marker3 w @ [0x0C] @ aw_7bit (2 * length v + 1) @ v" "aw_strings w' = aw_strings w" "aw_amf3 w' = aw_amf3 w"
    by (simp_all add: w'_def aw_writeByte_def)
  then have "prefix (aw_out w @ aw_marker3 w @ [0x0C]) (aw_out w')" by simp
  then have "lands D w' (length (aw_out w')) s [EvByte v] (readNext n t (goto D (length (aw_out w)) s))"
    using byte_lands [OF a(1,2) D w'(2,1)] w'(3) a by (intro leaf3 [where c = "0x0C"]) (simp_all add: type3_def writeOne_def)
  then show "lands D (aw_events (value_events (VByte v)) w) (length (aw_out (aw_events (value_events (VByte v)) w))) s
      (value_events (VByte v)) (readNext n t (goto D (length (aw_out w)) s))" by (simp add: w'_def)
qed

lemma date_reads: "length D < 2 ^ 28 \<Longrightarrow> amf_reads D t (VDate d)"
  unfolding amf_reads_def
proof (intro allI impI)
  fix w s n
  define w' where "w' = fst (aw_writeDate d w)"
  assume D: "length D < 2 ^ 28"
  assume "rel D w s" "prefix (aw_out (aw_events (value_events (VDate d)) w)) D"
    "length (aw_out (aw_events (value_events (VDate d)) w)) \<le> length (aw_out w) + n"
  then have a: "rel D w s" "prefix (aw_out w') D" "length (aw_out w') \<le> length (aw_out w) + n"
    by (simp_all add: w'_def)
  have "lands D w' (length (aw_out w')) s [EvDate d] (readNext n t (goto D (length (aw_out w)) s))"
  proof (cases "\<not> aw_amf3 w \<and> aw_amf0 w")
    case False
    then have w': "aw_out w' = aw_out w @ aw_marker3 w @ [8, 1] @ net64 d" "aw_strings w' = aw_strings w" "aw_amf3 w' = aw_amf3 w"
      by (auto simp: w'_def aw_writeDate_def)
    then have "prefix (aw_out w @ aw_marker3 w @ [8]) (aw_out w')" by simp
    then show ?thesis
      using date_lands [OF a(1,2) D w'(2,1)] w'(3) a by (intro leaf3 [where c = 8]) (simp_all add: type3_def writeOne_def)
  next
    case True
    then have s: "ar_amf3 s = 0" using a(1) by (simp add: rel_def)
    have w': "w' = aw_append ([0x0B] @ net64 d @ net16 0) w" using True by (simp add: w'_def aw_writeDate_def)
    then have "here D (length (aw_out w)) ([0x0B] @ net64 d @ net16 0)" using a(2) here_prefix by simp
    then have h: "here D (length (aw_out w)) [0x0B]" "here D (length (aw_out w) + 1) (net64 d)" "here D (length (aw_out w) + 9) (net16 0)"
      by (auto simp: here_append add.commute [of "9 :: nat"] simp del: append_Cons)
    note len = here_length [OF h(3)]
    then show ?thesis using a True s ar_read64_here [OF h(2), of s]
      by (intro leaf0 [where c = "0x0B"])
        (auto simp: w' type0_def writeOne_def writeDate_def rel_def goto_moves add.commute [of "9 :: nat"] intro!: landsI)
  qed
  then show "lands D (aw_events (value_events (VDate d)) w) (length (aw_out (aw_events (value_events (VDate d)) w))) s
      (value_events (VDate d)) (readNext n t (goto D (length (aw_out w)) s))" by (simp add: w'_def)
qed

section \<open>The loops\<close>

lemma name_reads:
  assumes "rel D w s" "prefix (aw_out (aw_writePropertyName v w)) D" "aw_out w \<noteq> []" "length D < 2 ^ 28" "length v < 65536"
  shows "\<exists>s'. readText (goto D (length (aw_out w)) s) = (Some v, length v, goto D (length (aw_out (aw_writePropertyName v w))) s')
    \<and> rel D (aw_writePropertyName v w) s' \<and> ar_events s' = ar_events s"
proof (cases "aw_amf3 w")
  case True
  then have w: "aw_writePropertyName v w = aw_text v w" by (simp add: aw_writePropertyName_def)
  have "ar_amf3 s \<noteq> 0" "list_all2 (text_at D) (ar_strings s) (aw_strings w)" "length (aw_strings w) \<le> length (aw_out w)"
    using assms(1) True by (auto simp: rel_def)
  from readText3 [OF this assms(2) [unfolded w] assms(3,4)] show ?thesis using assms(1)
    unfolding w by (elim exE conjE) (rule exI, intro conjI, assumption, auto simp: rel_def)
next
  case False
  then have w: "aw_writePropertyName v w = aw_append (net16 (word_of_nat (length v)) @ v) w" by (simp add: aw_writePropertyName_def)
  have "here D (length (aw_out w)) (net16 (word_of_nat (length v)) @ v)" using assms(2) here_prefix unfolding w by simp
  moreover have "ar_amf3 s = 0" using assms(1) False by (simp add: rel_def)
  moreover have "rel D (aw_writePropertyName v w) s" using assms(1) by (auto simp: w rel_def)
  ultimately show ?thesis using readText0 [of s D _ v] assms(5) by (intro exI [of _ s]) (simp add: w)
qed

lemma reads_lands:
  assumes "amf_reads D t v" "rel D w s" "value_ok (aw_amf0 w) v" "prefix (aw_out (aw_events (value_events v) w)) D"
    "length (aw_out (aw_events (value_events v) w)) \<le> length (aw_out w) + n"
  shows "lands D (aw_events (value_events v) w) (length (aw_out (aw_events (value_events v) w))) s (value_events v)
    (value_or_null (readNext n t) (goto D (length (aw_out w)) s))"
proof -
  have "lands D (aw_events (value_events v) w) (length (aw_out (aw_events (value_events v) w))) s (value_events v)
    (readNext n t (goto D (length (aw_out w)) s))" using assms unfolding amf_reads_def by blast
  then show ?thesis by (auto simp: lands_def value_or_null_def)
qed

lemma elements_read:
  assumes "\<forall>v \<in> set vs. amf_reads D t v" "rel D w s" "list_all (value_ok (aw_amf0 w)) vs"
    "prefix (aw_out (aw_events (concat (map value_events vs)) w)) D"
    "length (aw_out (aw_events (concat (map value_events vs)) w)) \<le> length (aw_out w) + n"
  shows "lands D (aw_events (concat (map value_events vs)) w) (length (aw_out (aw_events (concat (map value_events vs)) w))) s
    (concat (map value_events vs)) (read_elements (readNext n t) (length vs) (goto D (length (aw_out w)) s))"
  using assms
proof (induction vs arbitrary: w s n)
  case Nil
  then show ?case by (auto intro: landsI)
next
  case (Cons v vs)
  define w1 where "w1 = aw_events (value_events v) w"
  let ?w2 = "aw_events (concat (map value_events vs)) w1"
  have grow: "prefix (aw_out w1) (aw_out ?w2)" "prefix (aw_out w) (aw_out w1)" using aw_events_grow by (simp_all add: w1_def)
  have pre: "prefix (aw_out w1) D" using prefix_order.trans [OF grow(1)] Cons.prems(4) by (simp add: w1_def)
  note len = prefix_length_le [OF grow(1)] prefix_length_le [OF grow(2)]
  have out: "length (aw_out ?w2) \<le> length (aw_out w) + n" using Cons.prems(5) by (simp add: w1_def)
  have head: "lands D w1 (length (aw_out w1)) s (value_events v) (value_or_null (readNext n t) (goto D (length (aw_out w)) s))"
    unfolding w1_def by (rule reads_lands) (use Cons.prems pre out len in \<open>auto simp: w1_def\<close>)
  have "lands D ?w2 (length (aw_out ?w2)) s' (concat (map value_events vs)) (read_elements (readNext n t) (length vs) (goto D (length (aw_out w1)) s'))"
    if "rel D w1 s'" for s'
    by (rule Cons.IH) (use Cons.prems that out len in \<open>auto simp: w1_def\<close>)
  from lands_bind [OF head this] show ?case by (simp add: w1_def)
qed

abbreviation pair_events :: "(amf_value \<times> amf_value) list \<Rightarrow> data_event list" where
  "pair_events kvs \<equiv> concat (map (\<lambda>(k, v). value_events k @ value_events v) kvs)"

abbreviation property_events :: "(bytes \<times> amf_value) list \<Rightarrow> data_event list" where
  "property_events ps \<equiv> concat (map (\<lambda>(n, v). EvName n # value_events v) ps)"

lemma pairs_read:
  assumes "\<forall>(k, v) \<in> set kvs. amf_reads D t k \<and> amf_reads D t v" "rel D w s" "list_all (\<lambda>(k, v). value_ok (aw_amf0 w) k \<and> value_ok (aw_amf0 w) v) kvs"
    "prefix (aw_out (aw_events (pair_events kvs) w)) D"
    "length (aw_out (aw_events (pair_events kvs) w)) \<le> length (aw_out w) + n"
  shows "lands D (aw_events (pair_events kvs) w) (length (aw_out (aw_events (pair_events kvs) w))) s (pair_events kvs)
    (read_pairs (readNext n t) (length kvs) (goto D (length (aw_out w)) s))"
  using assms
proof (induction kvs arbitrary: w s n)
  case Nil
  then show ?case by (auto intro: landsI)
next
  case (Cons kv kvs)
  obtain k v where kv: "kv = (k, v)" by (cases kv)
  define w0 where "w0 = aw_events (value_events k) w"
  define w1 where "w1 = aw_events (value_events v) w0"
  let ?w2 = "aw_events (pair_events kvs) w1"
  have grow: "prefix (aw_out w1) (aw_out ?w2)" "prefix (aw_out w0) (aw_out w1)" "prefix (aw_out w) (aw_out w0)"
    using aw_events_grow by (simp_all add: w1_def w0_def)
  have pre: "prefix (aw_out w1) D" using prefix_order.trans [OF grow(1)] Cons.prems(4) by (simp add: w1_def w0_def kv)
  have pre0: "prefix (aw_out w0) D" using prefix_order.trans [OF grow(2) pre] .
  note len = prefix_length_le [OF grow(1)] prefix_length_le [OF grow(2)] prefix_length_le [OF grow(3)]
  have out: "length (aw_out ?w2) \<le> length (aw_out w) + n" using Cons.prems(5) by (simp add: w1_def w0_def kv)
  have first: "lands D w0 (length (aw_out w0)) s (value_events k) (value_or_null (readNext n t) (goto D (length (aw_out w)) s))"
    unfolding w0_def by (rule reads_lands) (use Cons.prems pre0 out len in \<open>auto simp: w0_def kv\<close>)
  have second: "lands D w1 (length (aw_out w1)) s' (value_events v) (value_or_null (readNext n t) (goto D (length (aw_out w0)) s'))"
    if "rel D w0 s'" for s'
    unfolding w1_def by (rule reads_lands) (use Cons.prems pre out len that in \<open>auto simp: w0_def w1_def kv\<close>)
  have rest: "lands D ?w2 (length (aw_out ?w2)) s' (pair_events kvs) (read_pairs (readNext n t) (length kvs) (goto D (length (aw_out w1)) s'))"
    if "rel D w1 s'" for s'
    by (rule Cons.IH) (use Cons.prems that out len in \<open>auto simp: w1_def w0_def kv\<close>)
  have "lands D ?w2 (length (aw_out ?w2)) s (value_events k @ value_events v @ pair_events kvs)
      (amf_bind (value_or_null (readNext n t) (goto D (length (aw_out w)) s))
         (\<lambda>_ s. amf_bind (value_or_null (readNext n t) s) (\<lambda>_. read_pairs (readNext n t) (length kvs))))"
    by (rule lands_bind [OF first], rule lands_bind [OF second]) (auto intro: rest)
  then show ?case by (simp add: w1_def w0_def kv)
qed

text \<open>What ends the properties.\<close>

definition name_end :: "bool \<Rightarrow> bytes" where
  "name_end amf3 = (if amf3 then [1] else net16 0)"

lemma name_end_reads:
  assumes "here D k (name_end b)" "ar_amf3 s = (if b then 2 else 0)"
  shows "readText (goto D k s) = (Some [], 0, goto D (k + length (name_end b)) s)"
proof (cases b)
  case True
  have "aw_7bit (2 * 0 + 1) = [1]" by code_simp
  then have h: "here D k (aw_7bit (2 * 0 + 1))" "length (aw_7bit (2 * 0 + 1)) = 1" using assms(1) True by (simp_all add: name_end_def)
  then show ?thesis using ar_read7_nat [OF h(1), of s] here_length [OF h(1)] assms(2) True flag_bit(1) [of 0] flag_drop(1) [of 0]
    by (simp add: readText_def name_end_def goto_moves)
next
  case False
  then show ?thesis using readText0 [of s D k "[]"] assms by (simp add: name_end_def)
qed

lemma properties_read:
  assumes "\<forall>(k, v) \<in> set ps. amf_reads D t v" "rel D w s" "list_all (\<lambda>(k, v). name_ok k \<and> value_ok (aw_amf0 w) v) ps"
    "prefix (aw_out (aw_events (property_events ps) w)) D" "length (aw_out (aw_events (property_events ps) w)) \<le> length (aw_out w) + n"
    "here D (length (aw_out (aw_events (property_events ps) w))) (name_end (aw_amf3 (aw_events (property_events ps) w)))"
    "length ps < f" "aw_out w \<noteq> []" "length D < 2 ^ 28"
  shows "lands D (aw_events (property_events ps) w)
    (length (aw_out (aw_events (property_events ps) w)) + length (name_end (aw_amf3 (aw_events (property_events ps) w)))) s (property_events ps)
    (read_properties f (readNext n t) (goto D (length (aw_out w)) s))"
  using assms
proof (induction ps arbitrary: w s n f)
  case Nil
  then obtain f' where "f = Suc f'" by (cases f) auto
  moreover have "ar_amf3 s = (if aw_amf3 w then 2 else 0)" using Nil.prems(2) by (simp add: rel_def)
  ultimately show ?case using name_end_reads [of D "length (aw_out w)" "aw_amf3 w" s] Nil.prems by (auto intro: landsI)
next
  case (Cons p ps)
  obtain k v where p: "p = (k, v)" by (cases p)
  obtain f' where f: "f = Suc f'" "length ps < f'" using Cons.prems(7) by (cases f) auto
  define w0 where "w0 = aw_writePropertyName k w"
  define w1 where "w1 = aw_events (value_events v) w0"
  let ?w2 = "aw_events (property_events ps) w1"
  have k: "k \<noteq> []" "length k < 65536" "cstr k = k"
    using Cons.prems(3) by (auto simp: p name_ok_def cstr_def takeWhile_eq_all_conv)
  have grow: "prefix (aw_out w1) (aw_out ?w2)" "prefix (aw_out w0) (aw_out w1)" "prefix (aw_out w) (aw_out w0)"
    using aw_events_grow aw_event_grows [of w "EvName k"] by (simp_all add: w1_def w0_def)
  have pre: "prefix (aw_out w1) D" using prefix_order.trans [OF grow(1)] Cons.prems(4) by (simp add: w1_def w0_def p)
  have pre0: "prefix (aw_out w0) D" using prefix_order.trans [OF grow(2) pre] .
  note len = prefix_length_le [OF grow(1)] prefix_length_le [OF grow(2)] prefix_length_le [OF grow(3)]
  have out: "length (aw_out ?w2) \<le> length (aw_out w) + n" using Cons.prems(5) by (simp add: w1_def w0_def p)
  have ne: "aw_out w1 \<noteq> []" "aw_amf0 w0 = aw_amf0 w" using Cons.prems(8) len aw_event_keeps [of "EvName k" w] by (auto simp: w0_def)
  from name_reads [OF Cons.prems(2) pre0 [unfolded w0_def] Cons.prems(8,9) k(2)] obtain s1 where s1:
    "readText (goto D (length (aw_out w)) s) = (Some k, length k, goto D (length (aw_out w0)) s1)" "rel D w0 s1" "ar_events s1 = ar_events s"
    unfolding w0_def by blast
  have r1: "rel D w0 (ar_emit (EvName k) s1)" using s1(2) by (auto simp: rel_def)
  have valued: "lands D w1 (length (aw_out w1)) (ar_emit (EvName k) s1) (value_events v)
      (value_or_null (readNext n t) (goto D (length (aw_out w0)) (ar_emit (EvName k) s1)))"
    unfolding w1_def by (rule reads_lands) (use Cons.prems pre out len r1 ne in \<open>auto simp: w1_def p\<close>)
  have rest: "lands D ?w2 (length (aw_out ?w2) + length (name_end (aw_amf3 ?w2))) s' (property_events ps)
      (read_properties f' (readNext n t) (goto D (length (aw_out w1)) s'))" if "rel D w1 s'" for s'
    by (rule Cons.IH) (use Cons.prems that out len f ne in \<open>auto simp: w1_def w0_def p\<close>)
  have "lands D ?w2 (length (aw_out ?w2) + length (name_end (aw_amf3 ?w2))) (ar_emit (EvName k) s1) (value_events v @ property_events ps)
      (amf_bind (value_or_null (readNext n t) (goto D (length (aw_out w0)) (ar_emit (EvName k) s1))) (\<lambda>_. read_properties f' (readNext n t)))"
    by (rule lands_bind [OF valued]) (auto intro: rest)
  then show ?case using s1 k by (simp add: w1_def w0_def p f lands_def)
qed

section \<open>The complex values\<close>

lemma w7_loop_ne: "w7_loop n v \<noteq> []"
  by (subst w7_loop.simps) (simp add: Let_def)

lemma aw_7bit_pos: "0 < length (aw_7bit n)"
  using w7_loop_ne by (auto simp: aw_7bit_def enc7Bit_def Let_def)

lemma value_writes: "length (aw_out w) < length (aw_out (aw_events (value_events v) w))"
proof -
  obtain e es where e: "value_events v = e # es" and le: "length (aw_out w) < length (aw_out (aw_event e w))"
  proof (cases v)
    case (VObject type ps)
    show thesis by (rule that [of "EvBeginObject type"]) (auto simp: VObject aw_writes aw_text_def split: option.split)
  qed (auto simp: aw_writes aw_text_def intro!: that split: option.split)
  show ?thesis using le prefix_length_le [OF aw_events_grow [of "aw_event e w" es]] by (simp add: e)
qed

lemma elements_write: "length (aw_out w) + length vs \<le> length (aw_out (aw_events (concat (map value_events vs)) w))"
proof (induction vs arbitrary: w)
  case (Cons v vs)
  show ?case using Cons.IH [of "aw_events (value_events v) w"] value_writes [of w v] by simp
qed simp

lemma pairs_write: "length (aw_out w) + length kvs \<le> length (aw_out (aw_events (pair_events kvs) w))"
proof (induction kvs arbitrary: w)
  case (Cons kv kvs)
  obtain k v where kv: "kv = (k, v)" by (cases kv)
  show ?case using Cons.IH [of "aw_events (value_events v) (aw_events (value_events k) w)"] value_writes [of w k]
      value_writes [of "aw_events (value_events k) w" v] by (simp add: kv)
qed simp

lemma properties_write: "length (aw_out w) + length ps \<le> length (aw_out (aw_events (property_events ps) w))"
proof (induction ps arbitrary: w)
  case (Cons p ps)
  obtain k v where p: "p = (k, v)" by (cases p)
  have "length (aw_out w) \<le> length (aw_out (aw_writePropertyName k w))" using prefix_length_le [OF aw_event_grows [of w "EvName k"]] by simp
  then show ?case using Cons.IH [of "aw_events (value_events v) (aw_writePropertyName k w)"] value_writes [of "aw_writePropertyName k w" v]
    by (simp add: p)
qed simp

lemma property_level: "level (aw_events (property_events ps) w) = level w"
  by (rule levels_properties) (auto simp: value_level)

lemma element_level: "level (aw_events (concat (map value_events vs)) w) = level w"
  by (rule levels_all) (auto simp: value_level)

lemma pair_level: "level (aw_events (pair_events kvs) w) = level w"
  by (rule levels_pairs) (auto simp: value_level)

lemma level_split: "level u = level w \<Longrightarrow> aw_amf3 u = aw_amf3 w \<and> aw_levels u = aw_levels w"
  by (simp add: level_def)

lemma object0_reads:
  assumes "\<forall>(k, v) \<in> set ps. amf_reads D t v" "rel D w s" "value_ok (aw_amf0 w) (VObject type ps)" "\<not> aw_amf3 w" "aw_amf0 w"
    "w' = aw_events (value_events (VObject type ps)) w" "prefix (aw_out w') D" "length (aw_out w') \<le> length (aw_out w) + n" "length D < 2 ^ 28"
  shows "lands D w' (length (aw_out w')) s (value_events (VObject type ps)) (readNext n t (goto D (length (aw_out w)) s))"
proof -
  define w1 where "w1 = fst (aw_beginObject type w)"
  define w2 where "w2 = aw_events (property_events ps) w1"
  define c :: u8 where "c = (case type of None \<Rightarrow> 3 | Some _ \<Rightarrow> 0x10)"
  have w1: "aw_out w1 = aw_out w @ (case type of None \<Rightarrow> [3] | Some t \<Rightarrow> [0x10] @ net16 (word_of_nat (length t)) @ t)"
    "\<not> aw_amf3 w1" "aw_levels w1 = False # aw_levels w" "aw_strings w1 = aw_strings w" "aw_amf0 w1"
    using assms(3-5) by (auto simp: w1_def aw_beginObject_def name_ok_def split: option.split)
  have w2: "\<not> aw_amf3 w2" "aw_levels w2 = False # aw_levels w" using level_split [OF property_level [of ps w1]] w1 by (auto simp: w2_def)
  have w': "aw_out w' = aw_out w2 @ net16 0 @ [9]" "\<not> aw_amf3 w'" "aw_strings w' = aw_strings w2"
    using w2 by (auto simp: assms(6) w1_def w2_def aw_endComplex_def)
  have h: "here D (length (aw_out w2)) (name_end (aw_amf3 w2))" "here D (length (aw_out w2) + 2) [9]"
    using here_prefix [of "aw_out w2" "net16 0 @ [9]" D] assms(7) w'(1) w2(1) by (auto simp: here_append name_end_def)
  have pre2: "prefix (aw_out w2) D" using assms(7) unfolding w'(1) by (rule prefix_drop)
  have pre1: "prefix (aw_out w1) D" using prefix_order.trans [OF aw_events_grow pre2 [unfolded w2_def]] .
  have len: "length (aw_out w1) + length ps \<le> length (aw_out w2)" "length (aw_out w) < length (aw_out w1)"
    using properties_write [of w1 ps] w1(1) by (auto simp: w2_def split: option.split)
  then obtain m where n: "n = Suc m" using assms(8) w'(1) by (cases n) auto
  define s1 where "s1 = s\<lparr>ar_amf0References := ar_amf0References s @ [length (aw_out w) + 1]\<rparr>"
  define ref where "ref = 2 * length (ar_amf0References s1)"
  define s2 where "s2 = ar_repeatable t ref 1 (EvBeginObject type) s1"
  have rel2: "rel D w1 s2" "ar_events s2 = ar_events s @ [EvBeginObject type]"
    using assms(2,4) w1 by (auto simp: rel_def s2_def s1_def)
  have props: "lands D w2 (length (aw_out w2) + 2) s2 (property_events ps) (read_properties m (readNext m t) (goto D (length (aw_out w1)) s2))"
    using properties_read [of ps D t w1 s2 m m] assms(1,3,5,8,9) rel2(1) pre2 h(1) len w1 w2 w'(1) n
    by (auto simp: w2_def name_end_def)
  have body: "lands D w' (length (aw_out w')) s2 (property_events ps @ [EvEndObject])
     (amf_bind (read_properties m (readNext m t) (goto D (length (aw_out w1)) s2))
       (\<lambda>_ s. let (_, s) = ar_read br_read8 s in AmfDone True (ar_end ref EvEndObject s)))"
  proof (rule lands_bind [OF props])
    fix s' assume "rel D w2 s'"
    then have "rel D w' (ar_end ref EvEndObject s')" using w' w2(1) by (auto simp: rel_def)
    then show "lands D w' (length (aw_out w')) s' [EvEndObject]
       (let (_, s) = ar_read br_read8 (goto D (length (aw_out w2) + 2) s') in AmfDone True (ar_end ref EvEndObject s))"
      using ar_read8_here [OF h(2), of s'] w'(1) by (auto intro: landsI)
  qed
  have first: "here D (length (aw_out w)) [c]"
    using here_prefix [of "aw_out w" "c # (case type of None \<Rightarrow> [] | Some t \<Rightarrow> net16 (word_of_nat (length t)) @ t)" D] pre1 w1(1)
    by (auto simp: c_def split: option.splits dest: here_Cons [THEN iffD1])
  have "type0 c = TyObject" by (auto simp: c_def type0_def split: option.split)
  then have "readNext n t (goto D (length (aw_out w)) s) = writeObject0 m t (readNext m t) (goto D (length (aw_out w)) s)"
    using next0 [OF assms(2,4) first] assms(2,4) by (simp add: n writeOne_def rel_def)
  also have "\<dots> = amf_bind (read_properties m (readNext m t) (goto D (length (aw_out w1)) s2))
       (\<lambda>_ s. let (_, s) = ar_read br_read8 s in AmfDone True (ar_end ref EvEndObject s))"
  proof (cases type)
    case None
    then show ?thesis using ar_read8_here [OF first, of s] assms(2) w1(1) here_length [OF first]
      by (simp add: writeObject0_def rel_def c_def Let_def goto_moves s2_def s1_def ref_def)
  next
    case (Some ty)
    have "here D (length (aw_out w) + 1) (net16 (word_of_nat (length ty)) @ ty)"
      using here_prefix [of "aw_out w @ [0x10]" "net16 (word_of_nat (length ty)) @ ty" D] pre1 w1(1) Some by simp
    moreover have "ar_amf3 s1 = 0" using assms(2,4) by (simp add: s1_def rel_def)
    moreover have "length ty < 65536" "cstr ty = ty" using assms(3) Some by (auto simp: name_ok_def cstr_def takeWhile_eq_all_conv)
    ultimately show ?thesis
      using readText0 [of s1 D "length (aw_out w) + 1" ty] ar_read8_here [OF first, of s] assms(2) w1(1) here_length [OF first] Some
      by (simp add: writeObject0_def rel_def c_def Let_def goto_moves s2_def s1_def ref_def)
  qed
  finally show ?thesis using body rel2(2) by (auto simp: lands_def)
qed

lemma array0_reads:
  assumes "\<forall>v \<in> set vs. amf_reads D t v" "rel D w s" "value_ok (aw_amf0 w) (VArray vs)" "\<not> aw_amf3 w" "aw_amf0 w"
    "w' = aw_events (value_events (VArray vs)) w" "prefix (aw_out w') D" "length (aw_out w') \<le> length (aw_out w) + n" "length D < 2 ^ 28"
  shows "lands D w' (length (aw_out w')) s (value_events (VArray vs)) (readNext n t (goto D (length (aw_out w)) s))"
proof -
  define sz :: u32 where "sz = word_of_nat (length vs)"
  define w1 where "w1 = fst (aw_beginArray sz w)"
  define w2 where "w2 = aw_events (concat (map value_events vs)) w1"
  have w1: "aw_out w1 = aw_out w @ [0x0A] @ net32 sz" "\<not> aw_amf3 w1" "aw_levels w1 = False # aw_levels w" "aw_strings w1 = aw_strings w" "aw_amf0 w1"
    using assms(3-5) by (auto simp: w1_def aw_beginArray_def)
  have w2: "\<not> aw_amf3 w2" "aw_levels w2 = False # aw_levels w" using level_split [OF element_level [of vs w1]] w1 by (auto simp: w2_def)
  have w': "aw_out w' = aw_out w2" "\<not> aw_amf3 w'" "aw_strings w' = aw_strings w2"
    using w2 by (auto simp: assms(6) w1_def w2_def sz_def aw_endComplex_def)
  have pre1: "prefix (aw_out w1) D" using prefix_order.trans [OF aw_events_grow [of w1] assms(7) [unfolded w'(1) w2_def]] .
  have len: "length (aw_out w1) + length vs \<le> length (aw_out w2)" "length (aw_out w1) = length (aw_out w) + 5"
    using elements_write [of w1 vs] w1(1) by (auto simp: w2_def)
  then obtain m where n: "n = Suc m" using assms(8) w'(1) by (cases n) auto
  have sz: "unat sz = length vs"
    using len assms(9) prefix_length_le [OF assms(7)] w'(1) by (simp add: sz_def unat_of_nat)
  have h: "here D (length (aw_out w)) [0x0A]" "here D (length (aw_out w) + 1) (net32 sz)"
    using here_prefix [of "aw_out w" "[0x0A] @ net32 sz" D] pre1 w1(1) by (auto simp: here_append simp del: append_Cons)
  define s1 where "s1 = s\<lparr>ar_amf0References := ar_amf0References s @ [length (aw_out w) + 1]\<rparr>"
  define ref where "ref = 2 * length (ar_amf0References s1)"
  define s2 where "s2 = ar_repeatable t ref 1 (EvBeginArray sz) s1"
  have rel2: "rel D w1 s2" "ar_events s2 = ar_events s @ [EvBeginArray sz]"
    using assms(2,4) w1 by (auto simp: rel_def s2_def s1_def)
  have elems: "lands D w2 (length (aw_out w2)) s2 (concat (map value_events vs)) (read_elements (readNext m t) (length vs) (goto D (length (aw_out w1)) s2))"
    using elements_read [of vs D t w1 s2 m] assms(1,3,5,7,8) rel2(1) len w1(5) w'(1) n by (auto simp: w2_def)
  have body: "lands D w' (length (aw_out w')) s2 (concat (map value_events vs) @ [EvEndArray])
     (amf_bind (read_elements (readNext m t) (length vs) (goto D (length (aw_out w1)) s2)) (\<lambda>_ s. AmfDone True (ar_end ref EvEndArray s)))"
  proof (rule lands_bind [OF elems])
    fix s' assume "rel D w2 s'"
    then have "rel D w' (ar_end ref EvEndArray s')" using w' w2(1) by (auto simp: rel_def)
    then show "lands D w' (length (aw_out w')) s' [EvEndArray] (AmfDone True (ar_end ref EvEndArray (goto D (length (aw_out w2)) s')))"
      using w'(1) by (auto intro: landsI)
  qed
  have "readNext n t (goto D (length (aw_out w)) s) = writeArray0 m t (readNext m) (goto D (length (aw_out w)) s)"
    using next0 [OF assms(2,4) h(1)] assms(2,4) by (simp add: n writeOne_def rel_def type0_def)
  also have "\<dots> = amf_bind (read_elements (readNext m t) (length vs) (goto D (length (aw_out w1)) s2)) (\<lambda>_ s. AmfDone True (ar_end ref EvEndArray s))"
    using ar_read8_here [OF h(1), of s] ar_read32_here [OF h(2), of s1] assms(2) here_length [OF h(1)] len(2) sz
    by (simp add: writeArray0_def rel_def Let_def goto_moves s2_def s1_def ref_def add.commute [of "5 :: nat"])
  finally show ?thesis using body rel2(2) by (auto simp: lands_def sz_def)
qed

lemma complex3:
  assumes "rel D w s" "prefix (aw_out w') D" "length (aw_out w') \<le> length (aw_out w) + n" "prefix (aw_out w @ aw_marker3 w @ [c]) (aw_out w')"
    "type3 c \<noteq> TyEnd" "w' = aw_events (value_events v) w"
    "\<And>m. n = Suc m \<Longrightarrow> lands D (w'\<lparr>aw_amf3 := True\<rparr>) (length (aw_out w')) (s\<lparr>ar_amf3 := 2\<rparr>) es
       (writeOne m t (readNext m) (type3 c) (goto D (length (aw_out w) + length (aw_marker3 w)) (s\<lparr>ar_amf3 := 2\<rparr>)))"
  shows "lands D w' (length (aw_out w')) s es (readNext n t (goto D (length (aw_out w)) s))"
proof -
  have "length (aw_out w) < length (aw_out w')" using assms(4) prefix_length_le by fastforce
  then obtain m where n: "n = Suc m" using assms(3) by (cases n) auto
  have "here D (length (aw_out w)) (aw_marker3 w @ [c])" using prefix_order.trans [OF assms(4,2)] by (rule here_prefix)
  moreover have "aw_amf3 w' = aw_amf3 w" using level_split [OF value_level] assms(6) by simp
  ultimately show ?thesis using next3 [OF assms(1) _ assms(5), of m t] lands_leave [OF assms(7) [OF n]] n by simp
qed

lemma size_here:
  assumes "here D k (aw_7bit (2 * n + 1))" "n < 2 ^ 28"
  shows "\<exists>v. ar_read7 (goto D k s) = (v, goto D (k + length (aw_7bit (2 * n + 1))) s) \<and> bit v 0 \<and> unat (drop_bit 1 v) = n"
  using ar_read7_nat [OF assms] flag_bit(1) [of n] flag_drop(1) [OF assms(2)] by metis

lemma array3_reads:
  assumes "\<forall>v \<in> set vs. amf_reads D t v" "rel D w s" "value_ok (aw_amf0 w) (VArray vs)" "aw_amf3 w \<or> \<not> aw_amf0 w"
    "w' = aw_events (value_events (VArray vs)) w" "prefix (aw_out w') D" "length (aw_out w') \<le> length (aw_out w) + n" "length D < 2 ^ 28"
  shows "lands D w' (length (aw_out w')) s (value_events (VArray vs)) (readNext n t (goto D (length (aw_out w)) s))"
proof -
  define sz :: u32 where "sz = word_of_nat (length vs)"
  define b where "b = aw_7bit (2 * length vs + 1)"
  define w1 where "w1 = fst (aw_beginArray sz w)"
  define w2 where "w2 = aw_events (concat (map value_events vs)) w1"
  define p where "p = length (aw_out w) + length (aw_marker3 w)"
  have w1: "aw_out w1 = aw_out w @ aw_marker3 w @ [9] @ b @ name_end True" "aw_amf3 w1" "aw_strings w1 = aw_strings w" "aw_amf0 w1 = aw_amf0 w"
    "aw_levels w1 = aw_amf3 w # aw_levels w"
    using assms(4) shift_flag [of "length vs"] by (auto simp: w1_def aw_beginArray_def b_def aw_7bit_def sz_def name_end_def)
  have w2: "aw_amf3 w2" "aw_levels w2 = aw_amf3 w # aw_levels w" using level_split [OF element_level [of vs w1]] w1 by (auto simp: w2_def)
  have w': "aw_out w' = aw_out w2" "aw_strings w' = aw_strings w2"
    using w2 by (auto simp: assms(5) w1_def w2_def sz_def aw_endComplex_def)
  have pre1: "prefix (aw_out w1) D" using prefix_order.trans [OF aw_events_grow [of w1] assms(6) [unfolded w'(1) w2_def]] .
  have len: "length (aw_out w1) + length vs \<le> length (aw_out w2)" "length (aw_out w1) = p + 1 + length b + length (name_end True)"
    using elements_write [of w1 vs] w1(1) by (auto simp: w2_def p_def)
  have small: "length vs < 2 ^ 28" using len assms(8) prefix_length_le [OF assms(6)] w'(1) by simp
  have h: "here D p [9]" "here D (p + 1) b" "here D (p + 1 + length b) (name_end True)"
    using here_prefix [of "aw_out w @ aw_marker3 w" "[9] @ b @ name_end True" D] pre1 w1(1)
    by (auto simp: here_append p_def simp del: append_Cons)
  have sz: "word_of_nat (length vs) = sz" by (simp add: sz_def)
  define s0 where "s0 = s\<lparr>ar_amf3 := 2\<rparr>"
  define s1 where "s1 = s0\<lparr>ar_references := ar_references s0 @ [p + 1]\<rparr>"
  define ref where "ref = 2 * length (ar_references s1) + 1"
  define s2 where "s2 = ar_repeatable t ref 1 (EvBeginArray sz) s1"
  have rel2: "rel D w1 s2" "ar_events s2 = ar_events s @ [EvBeginArray sz]"
    using assms(2) w1 by (auto simp: rel_def s2_def s1_def s0_def)
  show ?thesis
  proof (rule complex3 [OF assms(2,6,7) _ _ assms(5), where c = 9])
    show "prefix (aw_out w @ aw_marker3 w @ [9]) (aw_out w')"
      using prefix_drop [of "aw_out w @ aw_marker3 w @ [9]" "b @ name_end True" "aw_out w'"] aw_events_grow [of w1] w1(1) w'(1) by (simp add: w2_def)
    show "type3 9 \<noteq> TyEnd" by (simp add: type3_def)
    fix m assume n: "n = Suc m"
    have elems: "lands D w2 (length (aw_out w2)) s2 (concat (map value_events vs)) (read_elements (readNext m t) (length vs) (goto D (length (aw_out w1)) s2))"
      using elements_read [of vs D t w1 s2 m] assms(1,3,6,7) rel2(1) len w1(4) w'(1) n by (auto simp: w2_def p_def)
    have body: "lands D (w'\<lparr>aw_amf3 := True\<rparr>) (length (aw_out w')) s2 (concat (map value_events vs) @ [EvEndArray])
       (amf_bind (read_elements (readNext m t) (length vs) (goto D (length (aw_out w1)) s2))
          (\<lambda>_ s. AmfDone True ((ar_end ref EvEndArray s)\<lparr>ar_referencing := True\<rparr>)))"
    proof (rule lands_bind [OF elems])
      fix s' assume "rel D w2 s'"
      then have "rel D (w'\<lparr>aw_amf3 := True\<rparr>) ((ar_end ref EvEndArray s')\<lparr>ar_referencing := True\<rparr>)" using w' w2(1) by (auto simp: rel_def)
      then show "lands D (w'\<lparr>aw_amf3 := True\<rparr>) (length (aw_out w')) s' [EvEndArray]
          (AmfDone True ((ar_end ref EvEndArray (goto D (length (aw_out w2)) s'))\<lparr>ar_referencing := True\<rparr>))"
        using w'(1) by (auto intro: landsI)
    qed
    obtain v where v: "ar_read7 (goto D (p + 1) s0) = (v, goto D (p + 1 + length b) s0)" "bit v 0" "unat (drop_bit 1 v) = length vs"
      using size_here [OF h(2) [unfolded b_def] small, of s0] unfolding b_def by blast
    have "readText (goto D (p + 1 + length b) s1) = (Some [], 0, goto D (length (aw_out w1)) s1)"
      unfolding len(2) by (rule name_end_reads [OF h(3)]) (simp add: s1_def s0_def)
    then have "writeArray3 m t (readNext m t) (goto D p s0) =
       amf_bind (read_elements (readNext m t) (length vs) (goto D (length (aw_out w1)) s2))
          (\<lambda>_ s. AmfDone True ((ar_end ref EvEndArray s)\<lparr>ar_referencing := True\<rparr>))"
      using v here_length [OF h(1)] here_length [OF h(2)] assms(2) sz
      by (simp add: writeArray3_def goto_moves Let_def rel_def s0_def s1_def ref_def s2_def)
    then show "lands D (w'\<lparr>aw_amf3 := True\<rparr>) (length (aw_out w')) (s\<lparr>ar_amf3 := 2\<rparr>) (value_events (VArray vs))
       (writeOne m t (readNext m) (type3 9) (goto D (length (aw_out w) + length (aw_marker3 w)) (s\<lparr>ar_amf3 := 2\<rparr>)))"
      using body rel2(2) by (auto simp: lands_def writeOne_def type3_def sz_def s0_def p_def)
  qed
qed

lemma map_reads:
  assumes "\<forall>(k, v) \<in> set kvs. amf_reads D t k \<and> amf_reads D t v" "rel D w s" "value_ok (aw_amf0 w) (VMap weak kvs)"
    "w' = aw_events (value_events (VMap weak kvs)) w" "prefix (aw_out w') D" "length (aw_out w') \<le> length (aw_out w) + n" "length D < 2 ^ 28"
  shows "lands D w' (length (aw_out w')) s (value_events (VMap weak kvs)) (readNext n t (goto D (length (aw_out w)) s))"
proof -
  define sz :: u32 where "sz = word_of_nat (length kvs)"
  define b where "b = aw_7bit (2 * length kvs + 1)"
  define w1 where "w1 = fst (aw_beginMap sz weak w)"
  define w2 where "w2 = aw_events (pair_events kvs) w1"
  define p where "p = length (aw_out w) + length (aw_marker3 w)"
  have w1: "aw_out w1 = aw_out w @ aw_marker3 w @ [0x11] @ b @ [if weak then 1 else 0]" "aw_amf3 w1" "aw_strings w1 = aw_strings w"
    "aw_amf0 w1 = aw_amf0 w" "aw_levels w1 = aw_amf3 w # aw_levels w"
    using shift_flag [of "length kvs"] by (auto simp: w1_def aw_beginMap_def b_def aw_7bit_def sz_def)
  have w2: "aw_amf3 w2" "aw_levels w2 = aw_amf3 w # aw_levels w" using level_split [OF pair_level [of kvs w1]] w1 by (auto simp: w2_def)
  have w': "aw_out w' = aw_out w2" "aw_strings w' = aw_strings w2"
    using w2 by (auto simp: assms(4) w1_def w2_def sz_def aw_endComplex_def)
  have pre1: "prefix (aw_out w1) D" using prefix_order.trans [OF aw_events_grow [of w1] assms(5) [unfolded w'(1) w2_def]] .
  have len: "length (aw_out w1) + length kvs \<le> length (aw_out w2)" "length (aw_out w1) = p + 1 + length b + 1"
    using pairs_write [of w1 kvs] w1(1) by (auto simp: w2_def p_def)
  have small: "length kvs < 2 ^ 28" using len assms(7) prefix_length_le [OF assms(5)] w'(1) by simp
  have h: "here D p [0x11]" "here D (p + 1) b" "here D (p + 1 + length b) [if weak then 1 else 0]"
    using here_prefix [of "aw_out w @ aw_marker3 w" "[0x11] @ b @ [if weak then 1 else 0]" D] pre1 w1(1)
    by (auto simp: here_append p_def simp del: append_Cons)
  have sz: "word_of_nat (length kvs) = sz" by (simp add: sz_def)
  define s0 where "s0 = s\<lparr>ar_amf3 := 2\<rparr>"
  define s1 where "s1 = s0\<lparr>ar_references := ar_references s0 @ [p + 1]\<rparr>"
  define ref where "ref = 2 * length (ar_references s1) + 1"
  define s2 where "s2 = ar_repeatable t ref 1 (EvBeginMap sz weak) s1"
  have rel2: "rel D w1 s2" "ar_events s2 = ar_events s @ [EvBeginMap sz weak]"
    using assms(2) w1 by (auto simp: rel_def s2_def s1_def s0_def)
  show ?thesis
  proof (rule complex3 [OF assms(2,5,6) _ _ assms(4), where c = "0x11"])
    show "prefix (aw_out w @ aw_marker3 w @ [0x11]) (aw_out w')"
      using prefix_drop [of "aw_out w @ aw_marker3 w @ [0x11]" "b @ [if weak then 1 else 0]" "aw_out w'"] aw_events_grow [of w1] w1(1) w'(1)
      by (simp add: w2_def)
    show "type3 0x11 \<noteq> TyEnd" by (simp add: type3_def)
    fix m assume n: "n = Suc m"
    have elems: "lands D w2 (length (aw_out w2)) s2 (pair_events kvs) (read_pairs (readNext m t) (length kvs) (goto D (length (aw_out w1)) s2))"
      using pairs_read [of kvs D t w1 s2 m] assms(1,3,5,6) rel2(1) len w1(4) w'(1) n by (auto simp: w2_def p_def)
    have body: "lands D (w'\<lparr>aw_amf3 := True\<rparr>) (length (aw_out w')) s2 (pair_events kvs @ [EvEndMap])
       (amf_bind (read_pairs (readNext m t) (length kvs) (goto D (length (aw_out w1)) s2))
          (\<lambda>_ s. AmfDone True ((ar_end ref EvEndMap s)\<lparr>ar_referencing := True\<rparr>)))"
    proof (rule lands_bind [OF elems])
      fix s' assume "rel D w2 s'"
      then have "rel D (w'\<lparr>aw_amf3 := True\<rparr>) ((ar_end ref EvEndMap s')\<lparr>ar_referencing := True\<rparr>)" using w' w2(1) by (auto simp: rel_def)
      then show "lands D (w'\<lparr>aw_amf3 := True\<rparr>) (length (aw_out w')) s' [EvEndMap]
          (AmfDone True ((ar_end ref EvEndMap (goto D (length (aw_out w2)) s'))\<lparr>ar_referencing := True\<rparr>))"
        using w'(1) by (auto intro: landsI)
    qed
    obtain v where v: "ar_read7 (goto D (p + 1) s0) = (v, goto D (p + 1 + length b) s0)" "bit v 0" "unat (drop_bit 1 v) = length kvs"
      using size_here [OF h(2) [unfolded b_def] small, of s0] unfolding b_def by blast
    have "ar_read br_read8 (goto D (p + 1 + length b) s1) = (if weak then 1 else 0, goto D (length (aw_out w1)) s1)"
      unfolding len(2) by (rule ar_read8_here [OF h(3)])
    then have "writeMap t (readNext m t) (goto D p s0) =
       amf_bind (read_pairs (readNext m t) (length kvs) (goto D (length (aw_out w1)) s2))
          (\<lambda>_ s. AmfDone True ((ar_end ref EvEndMap s)\<lparr>ar_referencing := True\<rparr>))"
      using v here_length [OF h(1)] here_length [OF h(2)] assms(2) sz
      by (simp add: writeMap_def goto_moves Let_def rel_def s0_def s1_def ref_def s2_def)
    then show "lands D (w'\<lparr>aw_amf3 := True\<rparr>) (length (aw_out w')) (s\<lparr>ar_amf3 := 2\<rparr>) (value_events (VMap weak kvs))
       (writeOne m t (readNext m) (type3 0x11) (goto D (length (aw_out w) + length (aw_marker3 w)) (s\<lparr>ar_amf3 := 2\<rparr>)))"
      using body rel2(2) by (auto simp: lands_def writeOne_def type3_def sz_def s0_def p_def)
  qed
qed

lemma object3_reads:
  assumes "\<forall>(k, v) \<in> set ps. amf_reads D t v" "rel D w s" "value_ok (aw_amf0 w) (VObject type ps)" "aw_amf3 w \<or> \<not> aw_amf0 w"
    "w' = aw_events (value_events (VObject type ps)) w" "prefix (aw_out w') D" "length (aw_out w') \<le> length (aw_out w) + n" "length D < 2 ^ 28"
  shows "lands D w' (length (aw_out w')) s (value_events (VObject type ps)) (readNext n t (goto D (length (aw_out w)) s))"
proof -
  define name where "name = (case type of None \<Rightarrow> [] | Some t \<Rightarrow> t)"
  define u where "u = aw_append ([0x0A] @ aw_7bit 11) (aw_begin3 w)"
  define w1 where "w1 = fst (aw_beginObject type w)"
  define w2 where "w2 = aw_events (property_events ps) w1"
  define p where "p = length (aw_out w) + length (aw_marker3 w)"
  have eleven: "aw_7bit 11 = aw_7bit (2 * 5 + 1)" by simp
  have u: "aw_out u = aw_out w @ aw_marker3 w @ [0x0A] @ aw_7bit (2 * 5 + 1)" "aw_amf3 u" "aw_strings u = aw_strings w" "aw_amf0 u = aw_amf0 w"
    "aw_levels u = aw_amf3 w # aw_levels w" by (simp_all add: u_def)
  have w1: "aw_out w1 = aw_out (aw_text name u)" "aw_strings w1 = aw_strings (aw_text name u)" "aw_amf3 w1" "aw_amf0 w1 = aw_amf0 w"
    "aw_levels w1 = aw_amf3 w # aw_levels w"
    using assms(4) u by (auto simp: w1_def aw_beginObject_def u_def name_def)
  have w2: "aw_amf3 w2" "aw_levels w2 = aw_amf3 w # aw_levels w" using level_split [OF property_level [of ps w1]] w1 by (auto simp: w2_def)
  have w': "aw_out w' = aw_out w2 @ [1]" "aw_strings w' = aw_strings w2"
    using w2 by (auto simp: assms(5) w1_def w2_def aw_endComplex_def)
  have pre2: "prefix (aw_out w2) D" using assms(6) unfolding w'(1) by (rule prefix_drop)
  have pre1: "prefix (aw_out w1) D" using prefix_order.trans [OF aw_events_grow [of w1] pre2 [unfolded w2_def]] .
  have uw: "prefix (aw_out u) (aw_out w1)" by (auto simp: w1 aw_text_def split: option.split)
  have preu: "prefix (aw_out u) D" using prefix_order.trans [OF uw pre1] .
  have len: "length (aw_out w1) + length ps \<le> length (aw_out w2)" "length (aw_out u) = p + 1 + length (aw_7bit (2 * 5 + 1))"
    "length (aw_out u) \<le> length (aw_out w1)"
    using properties_write [of w1 ps] u(1) prefix_length_le [OF uw] by (auto simp: w2_def p_def)
  have h: "here D p [0x0A]" "here D (p + 1) (aw_7bit (2 * 5 + 1))"
    using here_prefix [of "aw_out w @ aw_marker3 w" "[0x0A] @ aw_7bit (2 * 5 + 1)" D] preu u(1)
    by (auto simp: here_append p_def simp del: append_Cons)
  have ends: "here D (length (aw_out w2)) (name_end True)" using assms(6) here_prefix unfolding w'(1) by (simp add: name_end_def)
  define s0 where "s0 = s\<lparr>ar_amf3 := 2\<rparr>"
  define s1 where "s1 = s0\<lparr>ar_references := ar_references s0 @ [length (aw_out u)], ar_classDefs := ar_classDefs s0 @ [length (aw_out u)]\<rparr>"
  define ref where "ref = 2 * length (ar_references s1) + 1"
  have "ar_amf3 s1 \<noteq> 0" "list_all2 (text_at D) (ar_strings s1) (aw_strings u)" "length (aw_strings u) \<le> length (aw_out u)" "aw_out u \<noteq> []"
    using assms(2) u by (auto simp: s1_def s0_def rel_def)
  from readText3 [OF this(1-3) pre1 [unfolded w1] this(4) assms(8)] obtain xs where xs:
    "readText (goto D (length (aw_out u)) s1) = (Some name, length name, goto D (length (aw_out w1)) (s1\<lparr>ar_strings := xs\<rparr>))"
    "list_all2 (text_at D) xs (aw_strings w1)" "length (aw_strings w1) \<le> length (aw_out w1)" unfolding w1 by blast
  define s2 where "s2 = ar_repeatable t ref 1 (EvBeginObject type) (s1\<lparr>ar_strings := xs\<rparr>)"
  have rel2: "rel D w1 s2" "ar_events s2 = ar_events s @ [EvBeginObject type]"
    using assms(2) w1 xs by (auto simp: rel_def s2_def s1_def s0_def)
  have named: "(if length name = 0 then None else Some (cstr name)) = type"
    using assms(3) by (auto simp: name_def name_ok_def cstr_def takeWhile_eq_all_conv split: option.splits)
  show ?thesis
  proof (rule complex3 [OF assms(2,6,7) _ _ assms(5), where c = "0x0A"])
    have "prefix (aw_out w @ aw_marker3 w @ [0x0A]) (aw_out u)" by (simp add: u(1))
    moreover have "prefix (aw_out u) (aw_out w')"
      using prefix_order.trans [OF uw] aw_events_grow [of w1 "property_events ps"] w'(1) by (auto simp: w2_def)
    ultimately show "prefix (aw_out w @ aw_marker3 w @ [0x0A]) (aw_out w')" by (rule prefix_order.trans)
    show "type3 0x0A \<noteq> TyEnd" by (simp add: type3_def)
    fix m assume n: "n = Suc m"
    have "aw_out w1 \<noteq> []" using len(2,3) by auto
    then have props: "lands D w2 (length (aw_out w2) + 1) s2 (property_events ps) (read_properties m (readNext m t) (goto D (length (aw_out w1)) s2))"
      using properties_read [of ps D t w1 s2 m m] assms(1,3,6,7,8) rel2(1) pre2 ends len w1(4) w2(1) w'(1) n
      by (auto simp: w2_def p_def name_end_def)
    have body: "lands D (w'\<lparr>aw_amf3 := True\<rparr>) (length (aw_out w')) s2 (property_events ps @ [EvEndObject])
       (amf_bind (read_properties m (readNext m t) (goto D (length (aw_out w1)) s2))
          (\<lambda>_ s. AmfDone True ((ar_end ref EvEndObject s)\<lparr>ar_referencing := True\<rparr>)))"
    proof (rule lands_bind [OF props])
      fix s' assume "rel D w2 s'"
      then have "rel D (w'\<lparr>aw_amf3 := True\<rparr>) ((ar_end ref EvEndObject s')\<lparr>ar_referencing := True\<rparr>)" using w' w2(1) by (auto simp: rel_def)
      then show "lands D (w'\<lparr>aw_amf3 := True\<rparr>) (length (aw_out w')) s' [EvEndObject]
          (AmfDone True ((ar_end ref EvEndObject (goto D (length (aw_out w2) + 1) s'))\<lparr>ar_referencing := True\<rparr>))"
        using w'(1) by (auto intro: landsI)
    qed
    obtain v where v: "ar_read7 (goto D (p + 1) s0) = (v, goto D (length (aw_out u)) s0)" "bit v 0" "unat (drop_bit 1 v) = 5"
      using size_here [OF h(2), of s0] unfolding len(2) by auto
    have "writeClass3 m t (readNext m t) True ref 0 (length (aw_out u)) 5 (goto D (length (aw_out u)) (s0\<lparr>ar_references := ar_references s0 @ [length (aw_out u)]\<rparr>)) =
       amf_bind (read_properties m (readNext m t) (goto D (length (aw_out w1)) s2))
          (\<lambda>_ s. AmfDone True ((ar_end ref EvEndObject s)\<lparr>ar_referencing := True\<rparr>))"
      using xs(1) named by (cases "name = []") (simp_all add: writeClass3_def Let_def scan_names.simps s1_def s2_def)
    then have "writeObject3 m t (readNext m t) (goto D p s0) =
       amf_bind (read_properties m (readNext m t) (goto D (length (aw_out w1)) s2))
          (\<lambda>_ s. AmfDone True ((ar_end ref EvEndObject s)\<lparr>ar_referencing := True\<rparr>))"
      using v here_length [OF h(1)] here_length [OF h(2)] assms(2) len(2)
      by (simp add: writeObject3_def goto_moves Let_def rel_def s0_def ref_def s1_def)
    then show "lands D (w'\<lparr>aw_amf3 := True\<rparr>) (length (aw_out w')) (s\<lparr>ar_amf3 := 2\<rparr>) (value_events (VObject type ps))
       (writeOne m t (readNext m) (type3 0x0A) (goto D (length (aw_out w) + length (aw_marker3 w)) (s\<lparr>ar_amf3 := 2\<rparr>)))"
      using body rel2(2) by (auto simp: lands_def writeOne_def type3_def s0_def p_def)
  qed
qed

lemma mixed_reads:
  assumes "\<forall>(k, v) \<in> set ps. amf_reads D t v" "\<forall>v \<in> set vs. amf_reads D t v" "rel D w s" "value_ok (aw_amf0 w) (VMixed ps vs)"
    "w' = aw_events (value_events (VMixed ps vs)) w" "prefix (aw_out w') D" "length (aw_out w') \<le> length (aw_out w) + n" "length D < 2 ^ 28"
  shows "lands D w' (length (aw_out w')) s (value_events (VMixed ps vs)) (readNext n t (goto D (length (aw_out w)) s))"
proof -
  obtain k v qs where ps: "ps = (k, v) # qs" using assms(4) by (cases ps) auto
  define sz :: u32 where "sz = word_of_nat (length vs)"
  define b where "b = aw_7bit (2 * length vs + 1)"
  define w0 where "w0 = fst (aw_beginObjectArray sz w)"
  define w1 where "w1 = aw_writePropertyName k w0"
  define w2 where "w2 = aw_events (value_events v) w1"
  define w3 where "w3 = aw_events (property_events qs) w2"
  define w4 where "w4 = aw_endComplex True w3"
  define w5 where "w5 = aw_events (concat (map value_events vs)) w4"
  define p where "p = length (aw_out w) + length (aw_marker3 w)"
  have w0: "aw_out w0 = aw_out w @ aw_marker3 w @ [9] @ b" "aw_amf3 w0" "aw_strings w0 = aw_strings w" "aw_amf0 w0 = aw_amf0 w"
    "aw_levels w0 = True # aw_amf3 w # aw_levels w"
    using shift_flag [of "length vs"] by (auto simp: w0_def aw_beginObjectArray_def b_def aw_7bit_def sz_def Let_def)
  have w3: "aw_amf3 w3" "aw_levels w3 = True # aw_amf3 w # aw_levels w"
    using level_split [of w3 w0] w0 by (simp_all add: w3_def w2_def w1_def property_level value_level)
  have w4: "aw_out w4 = aw_out w3 @ [1]" "aw_amf3 w4" "aw_levels w4 = aw_amf3 w # aw_levels w" "aw_strings w4 = aw_strings w3" "aw_amf0 w4 = aw_amf0 w"
    using w3 w0(4) aw_event_keeps [of "EvName k" w0] by (simp_all add: w4_def aw_endComplex_def w3_def w2_def w1_def)
  have w5: "aw_amf3 w5" "aw_levels w5 = aw_amf3 w # aw_levels w" using level_split [OF element_level [of vs w4]] w4 by (auto simp: w5_def)
  have w': "aw_out w' = aw_out w5" "aw_strings w' = aw_strings w5"
    using w5 by (auto simp: assms(5) ps sz_def w0_def w1_def w2_def w3_def w4_def w5_def aw_endComplex_def)
  have amf0: "aw_amf0 w1 = aw_amf0 w" "aw_amf0 w2 = aw_amf0 w" using w0(4) aw_event_keeps [of "EvName k" w0] by (simp_all add: w1_def w2_def)
  have grow: "prefix (aw_out w4) (aw_out w5)" "prefix (aw_out w3) (aw_out w4)" "prefix (aw_out w2) (aw_out w3)" "prefix (aw_out w1) (aw_out w2)"
    "prefix (aw_out w0) (aw_out w1)"
    subgoal by (simp only: w5_def aw_events_grow)
    subgoal by (simp add: w4(1))
    subgoal by (simp only: w3_def aw_events_grow)
    subgoal by (simp only: w2_def aw_events_grow)
    subgoal using aw_event_grows [of w0 "EvName k"] by (simp add: w1_def)
    done
  have pre5: "prefix (aw_out w5) D" using assms(6) w'(1) by simp
  note pre4 = prefix_order.trans [OF grow(1) pre5]
  note pre3 = prefix_order.trans [OF grow(2) pre4]
  note pre2 = prefix_order.trans [OF grow(3) pre3]
  note pre1 = prefix_order.trans [OF grow(4) pre2]
  note pre0 = prefix_order.trans [OF grow(5) pre1]
  note lens = grow [THEN prefix_length_le]
  have len: "length (aw_out w2) + length qs \<le> length (aw_out w3)" "length (aw_out w4) + length vs \<le> length (aw_out w5)"
    "length (aw_out w0) = p + 1 + length b" "aw_out w0 \<noteq> []" "aw_out w2 \<noteq> []"
    using lens(4,5) properties_write [of w2 qs] elements_write [of w4 vs] w0(1) by (auto simp: w3_def w5_def p_def)
  have small: "length vs < 2 ^ 28" using len assms(8) prefix_length_le [OF pre5] by linarith
  have h: "here D p [9]" "here D (p + 1) b"
    using here_prefix [of "aw_out w @ aw_marker3 w" "[9] @ b" D] pre0 w0(1) by (auto simp: here_append p_def simp del: append_Cons)
  have ends: "here D (length (aw_out w3)) (name_end True)" using pre4 here_prefix unfolding w4(1) by (simp add: name_end_def)
  have sz: "word_of_nat (length vs) = sz" by (simp add: sz_def)
  have k: "k \<noteq> []" "length k < 65536" "cstr k = k"
    using assms(4) by (auto simp: ps name_ok_def cstr_def takeWhile_eq_all_conv)
  define s0 where "s0 = s\<lparr>ar_amf3 := 2\<rparr>"
  define s1 where "s1 = s0\<lparr>ar_references := ar_references s0 @ [p + 1]\<rparr>"
  define ref where "ref = 2 * length (ar_references s1) + 1"
  have "rel D w0 s1" using assms(3) w0 by (auto simp: rel_def s1_def s0_def)
  from name_reads [OF this pre1 [unfolded w1_def] len(4) assms(8) k(2)] obtain s2 where s2:
    "readText (goto D (length (aw_out w0)) s1) = (Some k, length k, goto D (length (aw_out w1)) s2)" "rel D w1 s2" "ar_events s2 = ar_events s1"
    unfolding w1_def by blast
  define s3 where "s3 = ar_emit (EvName k) (ar_repeatable t ref 2 (EvBeginObjectArray sz) s2)"
  have rel3: "rel D w1 s3" "ar_events s3 = ar_events s @ [EvBeginObjectArray sz, EvName k]"
    using s2 by (auto simp: rel_def s3_def s1_def s0_def)
  show ?thesis
  proof (rule complex3 [OF assms(3,6,7) _ _ assms(5), where c = 9])
    show "prefix (aw_out w @ aw_marker3 w @ [9]) (aw_out w')"
      using prefix_order.trans [OF _ prefix_order.trans [OF grow(5) prefix_order.trans [OF grow(4) prefix_order.trans [OF grow(3)
          prefix_order.trans [OF grow(2) grow(1)]]]], of "aw_out w @ aw_marker3 w @ [9]"] w0(1) w'(1) by simp
    show "type3 9 \<noteq> TyEnd" by (simp add: type3_def)
    fix m assume n: "n = Suc m"
    have out: "length (aw_out w5) \<le> p + 1 + m" using assms(7) w'(1) n by (simp add: p_def)
    have valued: "lands D w2 (length (aw_out w2)) s3 (value_events v) (value_or_null (readNext m t) (goto D (length (aw_out w1)) s3))"
      unfolding w2_def by (rule reads_lands [OF _ rel3(1)]) (use assms(1,4) ps amf0 pre2 out lens len in \<open>auto simp: w2_def\<close>)
    have props: "lands D w3 (length (aw_out w4)) s' (property_events qs) (read_properties m (readNext m t) (goto D (length (aw_out w2)) s'))"
      if "rel D w2 s'" for s'
      using properties_read [of qs D t w2 s' m m] that assms(1,4,8) ps amf0 pre3 ends out lens len w3(1) w4(1)
      by (auto simp: w3_def name_end_def)
    have elems: "lands D w5 (length (aw_out w5)) s' (concat (map value_events vs)) (read_elements (readNext m t) (length vs) (goto D (length (aw_out w4)) s'))"
      if "rel D w4 s'" for s'
      using elements_read [of vs D t w4 s' m] that assms(2,4) w4(5) pre5 out lens len by (auto simp: w5_def)
    have last: "lands D (w'\<lparr>aw_amf3 := True\<rparr>) (length (aw_out w')) s' [EvEndArray]
       (AmfDone True ((ar_end ref EvEndArray (goto D (length (aw_out w5)) s'))\<lparr>ar_referencing := True\<rparr>))" if "rel D w5 s'" for s'
      using that w' w5(1) by (auto intro!: landsI simp: rel_def)
    have tail: "lands D (w'\<lparr>aw_amf3 := True\<rparr>) (length (aw_out w')) s' ([EvEndObject] @ concat (map value_events vs) @ [EvEndArray])
       (amf_bind (AmfDone True (ar_end ref EvEndObject (goto D (length (aw_out w4)) s')))
         (\<lambda>_ s. amf_bind (read_elements (readNext m t) (length vs) s) (\<lambda>_ s. AmfDone True ((ar_end ref EvEndArray s)\<lparr>ar_referencing := True\<rparr>))))"
      if "rel D w3 s'" for s'
    proof (rule lands_bind)
      have "rel D w4 (ar_end ref EvEndObject s')" using that w4 w3(1) by (auto simp: rel_def)
      then show "lands D w4 (length (aw_out w4)) s' [EvEndObject] (AmfDone True (ar_end ref EvEndObject (goto D (length (aw_out w4)) s')))"
        by (auto intro: landsI)
      show "lands D (w'\<lparr>aw_amf3 := True\<rparr>) (length (aw_out w')) s'' (concat (map value_events vs) @ [EvEndArray])
          (amf_bind (read_elements (readNext m t) (length vs) (goto D (length (aw_out w4)) s''))
             (\<lambda>_ s. AmfDone True ((ar_end ref EvEndArray s)\<lparr>ar_referencing := True\<rparr>)))" if "rel D w4 s''" for s''
        by (rule lands_bind, rule elems [OF that], rule last)
    qed
    have body: "lands D (w'\<lparr>aw_amf3 := True\<rparr>) (length (aw_out w')) s3
       (value_events v @ property_events qs @ [EvEndObject] @ concat (map value_events vs) @ [EvEndArray])
       (amf_bind (value_or_null (readNext m t) (goto D (length (aw_out w1)) s3)) (\<lambda>_ s. amf_bind (read_properties m (readNext m t) s)
          (\<lambda>_ s. amf_bind (AmfDone True (ar_end ref EvEndObject s))
             (\<lambda>_ s. amf_bind (read_elements (readNext m t) (length vs) s) (\<lambda>_ s. AmfDone True ((ar_end ref EvEndArray s)\<lparr>ar_referencing := True\<rparr>))))))"
      by (rule lands_bind [OF valued], rule lands_bind [OF props], assumption, rule tail)
    obtain x where x: "ar_read7 (goto D (p + 1) s0) = (x, goto D (length (aw_out w0)) s0)" "bit x 0" "unat (drop_bit 1 x) = length vs"
      using size_here [OF h(2) [unfolded b_def] small, of s0] unfolding b_def len(3) by blast
    have "writeArray3 m t (readNext m t) (goto D p s0) =
       (amf_bind (value_or_null (readNext m t) (goto D (length (aw_out w1)) s3)) (\<lambda>_ s. amf_bind (read_properties m (readNext m t) s)
          (\<lambda>_ s. amf_bind (AmfDone True (ar_end ref EvEndObject s))
             (\<lambda>_ s. amf_bind (read_elements (readNext m t) (length vs) s) (\<lambda>_ s. AmfDone True ((ar_end ref EvEndArray s)\<lparr>ar_referencing := True\<rparr>))))))"
      using x s2(1) k h here_length [OF h(1)] here_length [OF h(2)] assms(3) sz len(3)
      by (simp add: writeArray3_def goto_moves Let_def rel_def s0_def s1_def ref_def s3_def amf_bind_assoc)
    then show "lands D (w'\<lparr>aw_amf3 := True\<rparr>) (length (aw_out w')) (s\<lparr>ar_amf3 := 2\<rparr>) (value_events (VMixed ps vs))
       (writeOne m t (readNext m) (type3 9) (goto D (length (aw_out w) + length (aw_marker3 w)) (s\<lparr>ar_amf3 := 2\<rparr>)))"
      using body rel3(2) by (auto simp: lands_def writeOne_def type3_def sz_def s0_def p_def ps)
  qed
qed

section \<open>Round trip\<close>

lemma value_reads:
  assumes "length D < 2 ^ 28"
  shows "amf_reads D t v"
proof (induction v)
  case (VObject type ps)
  then have "\<forall>(k, v) \<in> set ps. amf_reads D t v" by force
  then show ?case using object0_reads [OF _ _ _ _ _ refl _ _ assms] object3_reads [OF _ _ _ _ refl _ _ assms]
    unfolding amf_reads_def [of D t "VObject type ps"] by blast
next
  case (VArray vs)
  then show ?case using array0_reads [OF _ _ _ _ _ refl _ _ assms] array3_reads [OF _ _ _ _ refl _ _ assms]
    unfolding amf_reads_def [of D t "VArray vs"] by blast
next
  case (VMixed ps vs)
  then have "\<forall>(k, v) \<in> set ps. amf_reads D t v" "\<forall>v \<in> set vs. amf_reads D t v" by force+
  then show ?case using mixed_reads [OF _ _ _ _ refl _ _ assms] unfolding amf_reads_def [of D t "VMixed ps vs"] by blast
next
  case (VMap weak kvs)
  then have "\<forall>(k, v) \<in> set kvs. amf_reads D t k \<and> amf_reads D t v" by force
  then show ?case using map_reads [OF _ _ _ refl _ _ assms] unfolding amf_reads_def [of D t "VMap weak kvs"] by blast
qed (simp_all add: null_reads boolean_reads number_reads string_reads [OF assms] date_reads [OF assms] bytes_reads [OF assms])

lemma new_rel: "rel D (new_amf_writer amf0) (new_amf_reader D)"
  by (simp add: rel_def new_amf_writer_def new_amf_reader_def)

lemma new_goto: "new_amf_reader D = goto D 0 (new_amf_reader D)"
  by (simp add: new_amf_reader_def goto_def br_adv_def net_reader_def mk_reader_def)

lemma values_read:
  assumes "rel D w s" "list_all (value_ok (aw_amf0 w)) vs" "aw_out (aw_events (concat (map value_events vs)) w) = D"
    "length D < 2 ^ 28" "length D + 2 \<le> length (aw_out w) + n"
  shows "\<exists>s'. read_all n t k (goto D (length (aw_out w)) s) = (k + length vs, AmfDone False s')
    \<and> ar_events s' = ar_events s @ concat (map value_events vs)"
  using assms
proof (induction vs arbitrary: w s n k)
  case Nil
  then have D: "aw_out w = D" by simp
  with Nil obtain m where "n = Suc (Suc m)" by (cases n; cases "n - 1") auto
  then show ?case by (simp add: D goto_moves followingType_def)
next
  case (Cons v vs)
  have grow: "prefix (aw_out w) D" using aw_events_grow [of w "concat (map value_events (v # vs))"] Cons.prems(3) by simp
  then obtain m where n: "n = Suc m" using Cons.prems(5) prefix_length_le [OF grow] by (cases n) auto
  define w1 where "w1 = aw_events (value_events v) w"
  have pre: "prefix (aw_out w1) D" using aw_events_grow [of w1 "concat (map value_events vs)"] Cons.prems(3) by (simp add: w1_def)
  have more: "length (aw_out w) < length (aw_out w1)" unfolding w1_def by (rule value_writes)
  have "lands D w1 (length (aw_out w1)) s (value_events v) (readNext m t (goto D (length (aw_out w)) s))"
    using value_reads [OF Cons.prems(4), of t v] Cons.prems n prefix_length_le [OF pre] pre unfolding amf_reads_def w1_def by simp
  then obtain s1 where s1: "readNext m t (goto D (length (aw_out w)) s) = AmfDone True (goto D (length (aw_out w1)) s1)"
    "rel D w1 s1" "ar_events s1 = ar_events s @ value_events v" by (auto simp: lands_def)
  have "\<exists>s'. read_all m t (k + 1) (goto D (length (aw_out w1)) s1) = (k + 1 + length vs, AmfDone False s')
      \<and> ar_events s' = ar_events s1 @ concat (map value_events vs)"
    by (rule Cons.IH [OF s1(2)]) (use Cons.prems n more in \<open>simp_all add: w1_def\<close>)
  then show ?case using s1(1,3) n by auto
qed

text \<open>C7.  Whatever values an \<open>AMFWriter\<close> writes one behind the other, in AMF0 or in AMF3, numbers, texts, dates, byte
  arrays, and objects, arrays, object arrays and maps of them at any depth (names a C string and at most 65535 bytes long,
  without AMF0 no integer below 0), an \<open>AMFReader\<close> on the packet gives to any target the very calls that wrote it, texts that
  became references included, and counts the values.  The fuel is the length of the packet and 2.\<close>

theorem amf_written_read:
  assumes "list_all (value_ok amf0) vs" "D = aw_out (aw_events (concat (map value_events vs)) (new_amf_writer amf0))"
    "length D < 2 ^ 28" "length D + 2 \<le> fuel"
  shows "\<exists>s. read_all fuel t 0 (new_amf_reader D) = (length vs, AmfDone False s) \<and> ar_events s = concat (map value_events vs)"
proof -
  have new: "aw_out (new_amf_writer amf0) = []" "aw_amf0 (new_amf_writer amf0) = amf0" "ar_events (new_amf_reader D) = []"
    by (simp_all add: new_amf_writer_def new_amf_reader_def)
  show ?thesis using values_read [OF new_rel [of D amf0], of vs fuel t 0] assms new new_goto [of D] by simp
qed

text \<open>An array with twice the same text, and an object in it.\<close>

theorem amf_written_read_witness:
  "\<exists>D s. read_all 30 null_target 0 (new_amf_reader D) = (1, AmfDone False s)
     \<and> ar_events s = [EvBeginArray 3, EvString [0x61], EvString [0x61], EvBeginObject None, EvName [0x61], EvBoolean True,
         EvEndObject, EvEndArray]"
proof -
  define vs where "vs = [VArray [VString [0x61], VString [0x61], VObject None [([0x61], VBoolean True)]]]"
  define D where "D = aw_out (aw_events (concat (map value_events vs)) (new_amf_writer False))"
  have "list_all (value_ok False) vs" unfolding vs_def by (simp add: name_ok_def)
  moreover have "D = [0x11, 0x09, 0x07, 0x01, 0x06, 0x03, 0x61, 0x06, 0x00, 0x0A, 0x0B, 0x01, 0x00, 0x03, 0x01]" unfolding D_def vs_def by code_simp
  then have "length D < 2 ^ 28" "length D + 2 \<le> 30" by simp_all
  ultimately have "\<exists>s. read_all 30 null_target 0 (new_amf_reader D) = (length vs, AmfDone False s) \<and> ar_events s = concat (map value_events vs)"
    using amf_written_read [of False vs D 30 null_target] D_def by blast
  then show ?thesis by (auto simp: vs_def)
qed

section \<open>What the reader does not bound\<close>

lemma ar_read7_eval: "br_read7Bit 4 (br_adv k (net_reader D)) = (v, br_adv l (net_reader D)) \<Longrightarrow> ar_read7 (goto D k s) = (v, goto D l s)"
  by (simp add: ar_read7_def ar_read_def)

lemma amf_class_waits: "readNext fuel t (new_amf_reader [0x11, 0x0A, 0x23, 0x01]) = AmfFuel"
proof (cases fuel)
  case (Suc n)
  define D :: bytes where "D = [0x11, 0x0A, 0x23, 0x01]"
  define s where "s = (new_amf_reader D)\<lparr>ar_amf3 := 2\<rparr>"
  have s: "ar_amf3 s = 2" "ar_strings s = []" "ar_referencing s" "ar_references s = []" "ar_classDefs s = []"
    by (simp_all add: s_def new_amf_reader_def)
  have here: "here D 0 (aw_marker3 (new_amf_writer False) @ [0x0A])" by (simp add: here_def D_def aw_marker3_def new_amf_writer_def)
  have reads: "ar_read7 (goto D 2 x) = (0x23, goto D 3 x)" "ar_read7 (goto D 3 x) = (1, goto D 4 x)" "ar_read7 (goto D 4 x) = (0, goto D 4 x)" for x
    unfolding D_def by (rule ar_read7_eval, code_simp)+
  have len: "length D = 4" by (simp add: D_def)
  have flags: "bit (0x23 :: u32) 0" "unat (drop_bit 1 (0x23 :: u32)) = 17" "bit (1 :: u32) 0" "unat (drop_bit 1 (1 :: u32)) = 0"
    by code_simp+
  have none: "readText (goto D 4 x) = (None, 0, goto D 4 x)" if "ar_strings x = []" "ar_amf3 x = 2" for x
    using that reads(3) [of x] len by (simp add: readText_def goto_moves)
  have wait: "next_name m (goto D 4 x) = None" if "ar_strings x = []" "ar_amf3 x = 2" for m x
    by (induction m) (simp_all add: none that)
  define s1 where "s1 = s\<lparr>ar_references := [3], ar_classDefs := [3]\<rparr>"
  define s2 where "s2 = ar_repeatable t 3 1 (EvBeginObject None) s1"
  have s12: "ar_strings s1 = []" "ar_amf3 s1 = 2" "ar_strings s2 = []" "ar_amf3 s2 = 2" using s by (simp_all add: s1_def s2_def)
  have name: "readText (goto D 3 s1) = (Some [], 0, goto D 4 s1)"
    using reads(2) [of s1] len flags s12 by (simp add: readText_def goto_moves)
  have scan: "scan_names 0 2 k (goto D 4 s2) = (1, 4, goto D 4 s2)" for k
    using none [OF s12(3,4)] len by (simp add: scan_names.simps goto_moves)
  have "writeClass3 n t (readNext n t) True 3 0 3 17 (goto D 3 (s\<lparr>ar_references := [3]\<rparr>)) = AmfFuel"
  proof -
    have start: "goto D 3 (s\<lparr>ar_references := [3], ar_classDefs := [3]\<rparr>) = goto D 3 s1" by (simp add: s1_def)
    show ?thesis using s name scan len start wait [OF s12(3,4)] by (simp add: writeClass3_def Let_def s2_def [symmetric] goto_moves)
  qed
  have "writeObject3 n t (readNext n t) (goto D 1 s) = AmfFuel"
  proof -
    have "ar_next 1 (goto D 1 s) = goto D 2 s" using len by (simp add: goto_moves numeral_2_eq_2)
    then show ?thesis using \<open>writeClass3 _ _ _ _ _ _ _ _ _ = AmfFuel\<close> reads(1) [of s] len flags s by (simp add: writeObject3_def Let_def goto_moves)
  qed
  then show ?thesis using next3 [OF new_rel [of D False], of "0x0A" n t] here new_goto [of D] Suc
    by (simp add: type3_def writeOne_def D_def [symmetric] s_def new_amf_writer_def aw_marker3_def)
qed simp

text \<open>Three inputs of what an \<open>AMFReader\<close> does not bound, for the findings.  An object of AMF0 whose type is longer than the packet makes it build a text on
  a null pointer; an object of AMF3 whose class announces a name more than the packet has makes it wait for that name without end,
  in 4 bytes, whatever the target; and the integer -1 that a writer in AMF3 writes is read back as 4294967295.\<close>

lemma amf_read_unbounded:
  "readNext (Suc fuel) t (new_amf_reader [0x10, 0xFF, 0xFF]) = AmfCrash
   \<and> readNext fuel t (new_amf_reader [0x11, 0x0A, 0x23, 0x01]) = AmfFuel
   \<and> (\<exists>s. readNext (Suc fuel) t (new_amf_reader (aw_out (aw_writeNumber 0xBFF0000000000000 (new_amf_writer False)))) = AmfDone True s
        \<and> ar_events s = [EvNumber 0x41EFFFFFFFE00000])"
proof (intro conjI)
  define D :: bytes where "D = [0x10, 0xFF, 0xFF]"
  define s where "s = new_amf_reader D"
  define s1 where "s1 = s\<lparr>ar_amf0References := [1]\<rparr>"
  have s: "ar_amf3 s = 0" "ar_referencing s" "ar_amf0References s = []" by (simp_all add: s_def new_amf_reader_def)
  have h: "here D 0 [0x10]" "here D 1 (net16 0xFFFF)" and len: "length D = 3" by (simp_all add: here_def D_def) code_simp
  have three: "1 + 2 = (3 :: nat)" by simp
  have "readText (goto D 1 s1) = (None, 65535, goto D 3 s1)"
    using ar_read16_here [OF h(2), of s1, unfolded three] s len by (simp add: readText_def s1_def goto_moves)
  then have "writeObject0 fuel t (readNext fuel t) (goto D 0 s) = AmfCrash"
    using ar_read8_here [OF h(1), of s] s len by (simp add: writeObject0_def goto_moves Let_def s1_def)
  then show "readNext (Suc fuel) t (new_amf_reader [0x10, 0xFF, 0xFF]) = AmfCrash"
    using next0 [OF new_rel [of D True], of "0x10" fuel t] h(1) new_goto [of D] s
    by (simp add: new_amf_writer_def type0_def writeOne_def D_def [symmetric] s_def)
next
  show "readNext fuel t (new_amf_reader [0x11, 0x0A, 0x23, 0x01]) = AmfFuel" by (rule amf_class_waits)
next
  define D :: bytes where "D = [0x11, 0x04, 0xFF, 0xFF, 0xFF, 0xFF]"
  define s where "s = (new_amf_reader D)\<lparr>ar_amf3 := 2\<rparr>"
  have "double_int 0xBFF0000000000000 = Some (- 1)" by (simp add: double_int_def)
  moreover have "enc7Bit 4 (0x1FFFFFFF :: u32) = [0xFF, 0xFF, 0xFF, 0xFF]" by code_simp
  ultimately have out: "aw_out (aw_writeNumber 0xBFF0000000000000 (new_amf_writer False)) = D"
    by (simp add: aw_writeNumber_def new_amf_writer_def aw_marker3_def aw_append_def D_def)
  have here: "here D 0 (aw_marker3 (new_amf_writer False) @ [4])" "here D 1 [4]" by (simp_all add: here_def D_def aw_marker3_def new_amf_writer_def)
  have seven: "ar_read7 (goto D 2 s) = (0x1FFFFFFF, goto D 6 s)" unfolding D_def by (rule ar_read7_eval, code_simp)
  have number: "unat (- 1 :: u32) = 4294967295" by (simp add: unsigned_minus_1_eq_mask mask_eq_exp_minus_1)
  have two: "1 + 1 = (2 :: nat)" by simp
  have "log2 4294967295 = 31" by (rule log2_eq) simp_all
  then have double: "double_of 4294967295 = 0x41EFFFFFFFE00000" by (simp add: double_of_def)
  have "writeNumber (goto D 1 s) = AmfDone True (goto D 6 (ar_emit (EvNumber 0x41EFFFFFFFE00000) s))"
    using ar_read8_here [OF here(2), of s, unfolded two] seven number double by (simp add: writeNumber_def s_def)
  then show "\<exists>s. readNext (Suc fuel) t (new_amf_reader (aw_out (aw_writeNumber 0xBFF0000000000000 (new_amf_writer False)))) = AmfDone True s
        \<and> ar_events s = [EvNumber 0x41EFFFFFFFE00000]"
    unfolding out using next3 [OF new_rel [of D False], of 4 fuel t] here(1) new_goto [of D]
    by (simp add: type3_def writeOne_def s_def new_amf_writer_def aw_marker3_def leave_def del: readNext.simps) (simp add: new_amf_reader_def)
qed

end
