(* ===== verification/Spec2Isabelle.thy ===== *)
theory Spec2Isabelle
  imports WS Segments RTMP RendezVous RTMFPSend SPS ADTS FLV NALStream TSUnits TSChecksum AMFTrip
begin

text \<open>
  A development on MonaServer 2, a media server of the protocols RTMP, RTMFP, WebSocket, HTTP and SRT.

  \<^bold>\<open>The program.\<close>  \<open>MonaBase\<close> has the buffers, sockets and helpers; \<open>MonaCore\<close> the protocols, the containers and
  the publications.  What comes by a protocol is decoded to messages (\<open>WSDecoder\<close>, \<open>RTMPDecoder\<close>, \<open>RTMFPReceiver\<close>), the data
  in them read by a \<open>DataReader\<close> (\<open>AMFReader\<close>); medias, in messages or in a container (\<open>FLVReader\<close>, \<open>ADTSReader\<close>,
  \<open>NALNetReader\<close>), are tags and packets that a source writes to a \<open>Publication\<close>, which distributes them to its
  \<open>Subscription\<close>s, each with a target: a writer of a protocol (\<open>RTMPSender\<close>, \<open>RTMFPSender\<close>, \<open>WSSender\<close>) or of a container
  (\<open>FLVWriter\<close>, \<open>ADTSWriter\<close>, \<open>NALNetWriter\<close>).  Peers of RTMFP meet by \<open>RendezVous\<close>.

  \<^bold>\<open>Theories.\<close>  Names below \<open>src/MonaBase\<close> and \<open>src/MonaCore\<close>, in their folders \<open>include/Mona\<close> and \<open>sources\<close>.

  \<^item> \<open>Prelude\<close>: the machine types, byte strings, lemmas on lists and words.
  \<^item> \<open>Bytes\<close>: \<open>Byte.h\<close>, \<open>BinaryReader\<close>, \<open>BinaryWriter\<close>, \<open>Binary::Get7BitSize\<close>.  The locale \<open>codec\<close> is the contract of a
    writer and the reader of the same field, interpreted for every field; \<open>Stream\<close>: \<open>StreamData.h\<close> and the loop of the
    stream decoders, with the locale \<open>frame_decoder\<close>, from which what is decoded does not depend on how the transport
    cuts the stream.
  \<^item> \<open>WS\<close>: \<open>WS/WS.cpp\<close>, \<open>WSDecoder.cpp\<close>, \<open>WSSender.cpp\<close>.  \<open>RTMP\<close>: \<open>RTMP/RTMPDecoder.cpp\<close>, \<open>RTMPSender.cpp\<close>, a simulation
    of the channels of the two sides.
  \<^item> \<open>RTMFPFlow\<close>, \<open>RTMFP\<close>, \<open>RTMFPSend\<close>: \<open>RTMFP/RTMFPReceiver.cpp\<close>, \<open>RTMFP.cpp\<close>, \<open>RTMFPSender.cpp\<close>: fragments in any order
    to messages, packets and their encryption, the queue of a writer with its acknowledgments and repetitions.
    \<open>RendezVous\<close>: \<open>RendezVous.cpp\<close>, a step relation and its invariant.
  \<^item> \<open>AMF\<close>, \<open>AMFRead\<close>, \<open>AMFPlace\<close>, \<open>AMFTrip\<close>: \<open>AMFWriter.cpp\<close>, \<open>AMFReader.cpp\<close>, \<open>ReferableReader.cpp\<close>, the round trip of
    any tree of values, and what the reader does not bound.
  \<^item> \<open>Media\<close>: \<open>Media.h\<close>, \<open>Media.cpp\<close>: tags and their packing.  \<open>Bits\<close>, \<open>MPEG4\<close>, \<open>VideoConfig\<close>, \<open>SPS\<close>: \<open>BitReader.cpp\<close>,
    \<open>MPEG4.cpp\<close>, \<open>AVC.cpp\<close>, \<open>HEVC.cpp\<close>: Golomb codes, the configuration of a decoder in its forms, the dimension that a
    parameter set says, proved on the bits the standard writes.
  \<^item> \<open>ADTS\<close>, \<open>FLV\<close>, \<open>NAL\<close>, \<open>NALStream\<close>: \<open>ADTSReader.cpp\<close>, \<open>ADTSWriter.cpp\<close>, \<open>FLVReader.cpp\<close>, \<open>FLVWriter.cpp\<close>,
    \<open>NALNetReader.cpp\<close>, \<open>NALNetWriter.cpp\<close>: each writer and reader, and that the second gives back what the first wrote.
  \<^item> \<open>TSWriter\<close>, \<open>TSReader\<close>: \<open>TSWriter.cpp\<close>, \<open>TSReader.cpp\<close>, the packets of MPEG-TS.  \<open>TSTrip\<close> has the bytes of a packet
    and the runs of packets, \<open>TSTables\<close> the two tables, \<open>TSPackets\<close> what both sides know between two packets, \<open>TSUnits\<close>
    the units and the theorem: what the tracks gave to the writer comes to the readers of their programs; \<open>TSChecksum\<close> the
    table of \<open>Crypto::ComputeCRC32\<close> and its polynomial.
  \<^item> \<open>Subscription\<close>, \<open>SubVideo\<close>, \<open>SubReturns\<close>: \<open>Subscription.cpp\<close>, with the invariant that no inter frame is played
    without what it depends on, and that its operations return.  \<open>Publication\<close>: \<open>Publication.cpp\<close>, the same through a
    publication and the subscriptions that come and go.
  \<^item> \<open>Base64\<close>: \<open>Util.h\<close>, \<open>Util.cpp\<close>.  \<open>Segments\<close>: \<open>Segments.cpp\<close>, \<open>Segment.cpp\<close>, \<open>Playlist.cpp\<close>, \<open>M3U8.cpp\<close>: medias cut in
    segments, kept by sequence, listed in a playlist; the names are read back, the playlist names the segments kept, and
    the operations return on timely medias, and not on some others.

  \<^bold>\<open>How the code is written.\<close>  An object is a record, its operations functions from record to record; what it calls
  on another object (\<open>Media::Source\<close>, \<open>Media::Target\<close>, \<open>DataWriter\<close>, the handlers of a decoder) is a list of events in the
  order of the calls.  Integers are words of their width, except sizes and positions of a packet in memory, which are
  \<open>nat\<close>.  A packet is its bytes.  An exception, an array or a buffer used out of its bounds, or a null pointer is no
  value (an option, or a result of its own as \<open>AmfCrash\<close>), so a theorem that an operation has a value says that it does
  not happen.  What is not in the sources is an argument: AES, HMAC, RC4 and Diffie-Hellman, the clock and the random
  generator, whether a socket accepts a packet, what a target answers.

  \<^bold>\<open>Fuel and bounds.\<close>  \<open>run_frames\<close> of \<open>Stream\<close> and the loops of the containers are total: an iteration consumes or ends.
  \<open>su_reset\<close> is a \<open>partial_function\<close>, as it can recurse for ever, with the theorems that say when it returns.  \<open>readNext\<close>
  of \<open>AMFRead\<close> runs with fuel for its recursion and its loops: the length of the packet and 2 is enough for what a
  writer wrote, and no fuel is for some other packets.  Sizes are bounded in hypotheses where the code has a width: a
  chunk, a fragment, \<open>2 ^ 28\<close> bytes of AMF.

  \<^bold>\<open>Not modelled.\<close>  Sockets, threads, files, TLS and the operating system; the server, its sessions and its
  applications, Lua; HTTP; MP4, MP3, RTP and subtitles; SRT, STUN, ICE and SDP; texts (JSON,
  XML, URL, dates, addresses).  Of what is modelled: the multi bitrate and the \<open>format\<close> of a subscription, the rates
  and the recorder of a publication, the input and output of segments in files, maps of AMF into a target without maps, the rest of \<open>Media::Properties\<close>.
\<close>

end
